(* ===== verification/Prelude.thy ===== *)
theory Prelude
  imports Main "HOL-Library.Monad_Syntax" "HOL-Library.Word"
begin

text \<open>
  Shared vocabulary of the development: the result type of code that can panic, the
  overflow-checked integer operations of Rust's \<^verbatim>\<open>dev\<close> profile, the iterator
  combinators the kernel uses, and the generic lemmas the component theories rest on.

  A Rust expression that can panic is a value of \<open>'a rust\<close>: \<open>None\<close> is the panic (both
  profiles of the workspace set \<^verbatim>\<open>panic = "abort"\<close>, so nothing runs after it), \<open>Some x\<close>
  is normal completion with value \<open>x\<close>. Sequencing is \<open>do\<close>-notation of the option
  monad. Rust's own \<^verbatim>\<open>Option<T>\<close> and \<^verbatim>\<open>Result<T, E>\<close> stay ordinary values
  inside it: \<open>'a option\<close> and \<open>'e + 'a\<close>.

  Unsigned machine integers that only take part in address and size arithmetic are natural
  numbers; every addition, subtraction and multiplication the source performs on them goes
  through the checked operations below, so that an overflow is the panic it is in the
  \<^verbatim>\<open>dev\<close> profile. Values that the code takes apart bit by bit are words.
\<close>

section \<open>Collections of the development's simplification rules\<close>

named_theorems rust_arith \<open>definitions of the checked machine-integer operations\<close>
named_theorems panic_free \<open>operations that complete without a panic under a side condition\<close>

section \<open>Panicking code\<close>

type_synonym 'a rust = "'a option"

abbreviation panic :: "'a rust" where
  "panic \<equiv> None"

text \<open>\<^verbatim>\<open>expr.unwrap()\<close> and \<^verbatim>\<open>expr.expect(..)\<close> on \<^verbatim>\<open>Option\<close> and \<^verbatim>\<open>Result\<close>.\<close>

definition unwrap :: "'a option \<Rightarrow> 'a rust" where
  "unwrap x = x"

definition unwrap_ok :: "'e + 'a \<Rightarrow> 'a rust" where
  "unwrap_ok r = (case r of Inl _ \<Rightarrow> panic | Inr x \<Rightarrow> Some x)"

definition assert_that :: "bool \<Rightarrow> unit rust" where
  "assert_that b = (if b then Some () else panic)"

lemma unwrap_simps [simp]:
  "unwrap (Some x) = Some x" "unwrap None = panic"
  by (simp_all add: unwrap_def)

lemma unwrap_ok_simps [simp]:
  "unwrap_ok (Inr x) = Some x" "unwrap_ok (Inl e) = panic"
  by (simp_all add: unwrap_ok_def)

lemma assert_that_simps [simp]:
  "assert_that True = Some ()" "assert_that False = panic"
  by (simp_all add: assert_that_def)

section \<open>Checked machine integers\<close>

definition U64_LIMIT :: nat where
  "U64_LIMIT = 2 ^ 64"

definition U32_LIMIT :: nat where
  "U32_LIMIT = 2 ^ 32"

definition u64_MAX :: nat where
  "u64_MAX = U64_LIMIT - 1"

definition add_u64 :: "nat \<Rightarrow> nat \<Rightarrow> nat rust" where
  "add_u64 a b = (if a + b < U64_LIMIT then Some (a + b) else panic)"

definition sub_u64 :: "nat \<Rightarrow> nat \<Rightarrow> nat rust" where
  "sub_u64 a b = (if b \<le> a then Some (a - b) else panic)"

definition mul_u64 :: "nat \<Rightarrow> nat \<Rightarrow> nat rust" where
  "mul_u64 a b = (if a * b < U64_LIMIT then Some (a * b) else panic)"

definition checked_add_u64 :: "nat \<Rightarrow> nat \<Rightarrow> nat option" where
  "checked_add_u64 a b = (if a + b < U64_LIMIT then Some (a + b) else None)"

definition add_u32 :: "nat \<Rightarrow> nat \<Rightarrow> nat rust" where
  "add_u32 a b = (if a + b < U32_LIMIT then Some (a + b) else panic)"

definition sub_u32 :: "nat \<Rightarrow> nat \<Rightarrow> nat rust" where
  "sub_u32 a b = (if b \<le> a then Some (a - b) else panic)"

text \<open>\<^verbatim>\<open>u64::div_ceil\<close> cannot overflow; \<^verbatim>\<open>u64::next_multiple_of\<close> can.\<close>

definition div_ceil :: "nat \<Rightarrow> nat \<Rightarrow> nat" where
  "div_ceil a b = (a div b) + (if a mod b = 0 then 0 else 1)"

definition next_multiple_of :: "nat \<Rightarrow> nat \<Rightarrow> nat rust" where
  "next_multiple_of a b = (if a mod b = 0 then Some a else add_u64 a (b - a mod b))"

lemmas [rust_arith] =
  add_u64_def sub_u64_def mul_u64_def checked_add_u64_def add_u32_def sub_u32_def

lemma U64_LIMIT_num: "U64_LIMIT = 18446744073709551616"
  by (simp add: U64_LIMIT_def)

lemma U32_LIMIT_num: "U32_LIMIT = 4294967296"
  by (simp add: U32_LIMIT_def)

lemma u64_MAX_num: "u64_MAX = 18446744073709551615"
  by (simp add: u64_MAX_def U64_LIMIT_num)

lemmas limits = U64_LIMIT_num U32_LIMIT_num u64_MAX_num

lemma add_u64_ok [panic_free]: "a + b < U64_LIMIT \<Longrightarrow> add_u64 a b = Some (a + b)"
  by (simp add: add_u64_def)

lemma sub_u64_ok [panic_free]: "b \<le> a \<Longrightarrow> sub_u64 a b = Some (a - b)"
  by (simp add: sub_u64_def)

lemma mul_u64_ok [panic_free]: "a * b < U64_LIMIT \<Longrightarrow> mul_u64 a b = Some (a * b)"
  by (simp add: mul_u64_def)

lemma add_u64_SomeD: "add_u64 a b = Some c \<Longrightarrow> c = a + b \<and> a + b < U64_LIMIT"
  by (simp add: add_u64_def split: if_splits)

lemma sub_u64_SomeD: "sub_u64 a b = Some c \<Longrightarrow> c = a - b \<and> b \<le> a"
  by (simp add: sub_u64_def split: if_splits)

lemma mul_u64_SomeD: "mul_u64 a b = Some c \<Longrightarrow> c = a * b \<and> a * b < U64_LIMIT"
  by (simp add: mul_u64_def split: if_splits)

lemmas checked_SomeD = add_u64_SomeD sub_u64_SomeD mul_u64_SomeD

lemma round_up_multiple: "a mod b \<noteq> 0 \<Longrightarrow> 0 < b \<Longrightarrow> a + (b - a mod b) = (a div b + 1) * b"
  for a b :: nat
proof -
  assume "0 < b"
  then have "a mod b < b" by simp
  moreover have "a = a div b * b + a mod b" by simp
  moreover have "(a div b + 1) * b = a div b * b + b" by (simp add: algebra_simps)
  ultimately show ?thesis by linarith
qed

lemma next_multiple_of_SomeD:
  assumes "next_multiple_of a b = Some c" "0 < b"
  shows "a \<le> c \<and> c < a + b \<and> c mod b = 0"
proof (cases "a mod b = 0")
  case True
  then show ?thesis using assms by (auto simp: next_multiple_of_def)
next
  case False
  then have c: "c = a + (b - a mod b)"
    using assms(1) by (simp add: next_multiple_of_def add_u64_def split: if_splits)
  also have "\<dots> = (a div b + 1) * b" using False assms(2) by (rule round_up_multiple)
  finally have "c mod b = 0" by (metis mod_mult_self2_is_0)
  moreover have "a mod b < b" using assms(2) by simp
  ultimately show ?thesis using False c by linarith
qed

lemma next_multiple_of_ok [panic_free]:
  "a + b \<le> U64_LIMIT \<Longrightarrow> 0 < b \<Longrightarrow> \<exists>c. next_multiple_of a b = Some c"
  by (auto simp: next_multiple_of_def add_u64_def)

text \<open>The rounded value is the least multiple that is not below the argument.\<close>

lemma next_multiple_of_least:
  assumes "next_multiple_of a b = Some c" "0 < b" "a \<le> d" "d mod b = 0"
  shows "c \<le> d"
proof -
  from next_multiple_of_SomeD [OF assms(1,2)] have c: "a \<le> c" "c < a + b" "c mod b = 0" by auto
  show ?thesis
  proof (rule ccontr)
    assume "\<not> c \<le> d"
    then have lt: "d < c" by simp
    obtain k where k: "c = b * k" using c(3) by (auto simp: mod_eq_0_iff_dvd dvd_def)
    obtain j where j: "d = b * j" using assms(4) by (auto simp: mod_eq_0_iff_dvd dvd_def)
    have "j < k" using lt k j assms(2) by simp
    then have "b * j + b \<le> b * k"
      by (metis Suc_leI mult_Suc_right add.commute mult_le_mono2)
    then show False using c(2) assms(3) k j by simp
  qed
qed

lemma next_multiple_of_id: "a mod b = 0 \<Longrightarrow> next_multiple_of a b = Some a"
  by (simp add: next_multiple_of_def)

lemma div_ceil_bounds: "0 < b \<Longrightarrow> a \<le> div_ceil a b * b \<and> div_ceil a b * b < a + b"
proof -
  assume b: "0 < b"
  define q r where "q = a div b" and "r = a mod b"
  have "r < b" "a = q * b + r" "(q + 1) * b = q * b + b"
    using b by (simp_all add: q_def r_def)
  then show ?thesis by (auto simp: div_ceil_def q_def [symmetric] r_def [symmetric])
qed

lemma div_ceil_pos: "0 < b \<Longrightarrow> 0 < a \<Longrightarrow> 0 < div_ceil a b"
  by (auto simp: div_ceil_def mod_eq_0_iff_dvd dvd_def)

lemma div_ceil_mult: "0 < b \<Longrightarrow> div_ceil (k * b) b = k"
  by (simp add: div_ceil_def)

section \<open>Iterators\<close>

text \<open>\<^verbatim>\<open>iter.find_map(f)\<close> with a closure that may panic: the closure runs on the
  items in order and stops at the first \<open>Some\<close>.\<close>

primrec find_map :: "('a \<Rightarrow> 'b option rust) \<Rightarrow> 'a list \<Rightarrow> 'b option rust" where
  "find_map f [] = Some None"
| "find_map f (x # xs) =
     do { r \<leftarrow> f x;
          case r of None \<Rightarrow> find_map f xs | Some y \<Rightarrow> Some (Some y) }"

lemma find_map_SomeD:
  "find_map f xs = Some (Some y) \<Longrightarrow>
   \<exists>ys x zs. xs = ys @ x # zs \<and> f x = Some (Some y) \<and> (\<forall>z\<in>set ys. f z = Some None)"
proof (induction xs)
  case (Cons a xs)
  from Cons.prems consider "f a = Some (Some y)" | "f a = Some None" "find_map f xs = Some (Some y)"
    by (cases "f a") (simp, simp split: option.splits)
  then show ?case
  proof cases
    case 1
    then have "a # xs = [] @ a # xs \<and> f a = Some (Some y) \<and> (\<forall>z\<in>set []. f z = Some None)" by simp
    then show ?thesis by (intro exI)
  next
    case 2
    from Cons.IH [OF 2(2)]
    obtain ys x zs where "xs = ys @ x # zs" "f x = Some (Some y)" "\<forall>z\<in>set ys. f z = Some None"
      by (elim exE conjE) rule
    then have "a # xs = (a # ys) @ x # zs \<and> f x = Some (Some y) \<and> (\<forall>z\<in>set (a # ys). f z = Some None)"
      using 2 by simp
    then show ?thesis by (intro exI)
  qed
qed simp

lemma find_map_Some_mem: "find_map f xs = Some (Some y) \<Longrightarrow> \<exists>x\<in>set xs. f x = Some (Some y)"
  by (drule find_map_SomeD) auto

lemma find_map_NoneD:
  "find_map f xs = Some None \<Longrightarrow> \<forall>x\<in>set xs. f x = Some None"
  by (induction xs) (auto simp: bind_eq_Some_conv split: option.splits)

lemma find_map_ok [panic_free]:
  "\<forall>x\<in>set xs. f x \<noteq> panic \<Longrightarrow> find_map f xs \<noteq> panic"
  by (induction xs) (auto simp: bind_eq_None_conv split: option.splits)

lemma find_SomeD: "find P xs = Some x \<Longrightarrow> x \<in> set xs \<and> P x"
  by (induction xs) (auto split: if_splits)

lemma find_exists: "x \<in> set xs \<Longrightarrow> P x \<Longrightarrow> \<exists>y. find P xs = Some y"
  by (induction xs) auto

text \<open>A loop whose body may panic, over the state it threads through.\<close>

primrec fold_rust :: "('a \<Rightarrow> 's \<Rightarrow> 's rust) \<Rightarrow> 'a list \<Rightarrow> 's \<Rightarrow> 's rust" where
  "fold_rust f [] s = Some s"
| "fold_rust f (x # xs) s = do { s' \<leftarrow> f x s; fold_rust f xs s' }"

lemma fold_rust_append:
  "fold_rust f (xs @ ys) s = do { s' \<leftarrow> fold_rust f xs s; fold_rust f ys s' }"
  by (induction xs arbitrary: s) auto

lemma fold_rust_invariant:
  assumes "fold_rust f xs s = Some s'" "P s"
    and "\<And>x t t'. x \<in> set xs \<Longrightarrow> P t \<Longrightarrow> f x t = Some t' \<Longrightarrow> P t'"
  shows "P s'"
  using assms by (induction xs arbitrary: s) (auto simp: bind_eq_Some_conv)

text \<open>Indexing of arrays and slices panics out of bounds.\<close>

definition index_get :: "'a list \<Rightarrow> nat \<Rightarrow> 'a rust" where
  "index_get xs i = (if i < length xs then Some (xs ! i) else panic)"

definition index_set :: "'a list \<Rightarrow> nat \<Rightarrow> 'a \<Rightarrow> 'a list rust" where
  "index_set xs i x = (if i < length xs then Some (xs[i := x]) else panic)"

lemma index_ok [panic_free]:
  "i < length xs \<Longrightarrow> index_get xs i = Some (xs ! i)"
  "i < length xs \<Longrightarrow> index_set xs i x = Some (xs[i := x])"
  by (simp_all add: index_get_def index_set_def)

section \<open>Little-endian encodings\<close>

type_synonym byte = "8 word"

definition u64_bytes :: "nat \<Rightarrow> byte list" where
  "u64_bytes n = map (\<lambda>i. word_of_nat (n div 256 ^ i)) [0..<8]"

primrec bytes_nat :: "byte list \<Rightarrow> nat" where
  "bytes_nat [] = 0"
| "bytes_nat (b # bs) = unat b + 256 * bytes_nat bs"

definition u32_bytes :: "nat \<Rightarrow> byte list" where
  "u32_bytes n = map (\<lambda>i. word_of_nat (n div 256 ^ i)) [0..<4]"

lemma length_u64_bytes [simp]: "length (u64_bytes n) = 8"
  by (simp add: u64_bytes_def)

lemma bytes_nat_digits:
  "bytes_nat (map (\<lambda>i. word_of_nat (n div 256 ^ i)) [j..<j + m]) = (n div 256 ^ j) mod 256 ^ m"
proof (induction m arbitrary: j)
  case (Suc m)
  have "bytes_nat (map (\<lambda>i. word_of_nat (n div 256 ^ i)) [j..<j + Suc m])
      = (n div 256 ^ j) mod 256 + 256 * bytes_nat (map (\<lambda>i. word_of_nat (n div 256 ^ i)) [Suc j..<Suc j + m])"
  proof -
    have "[j..<j + Suc m] = j # [Suc j..<Suc j + m]" by (rule trans [OF upt_conv_Cons]) simp_all
    then show ?thesis by (simp only: list.map bytes_nat.simps) (simp add: unat_of_nat)
  qed
  also have "\<dots> = (n div 256 ^ j) mod 256 + 256 * ((n div 256 ^ Suc j) mod 256 ^ m)"
    by (simp only: Suc.IH)
  also have "n div 256 ^ Suc j = n div 256 ^ j div 256" by (simp only: power_Suc2 div_mult2_eq)
  also have "n div 256 ^ j mod 256 + 256 * (n div 256 ^ j div 256 mod 256 ^ m) = (n div 256 ^ j) mod 256 ^ Suc m"
    by (simp add: mod_mult2_eq)
  finally show ?case .
qed simp

text \<open>The little-endian encoding of a 64-bit value is read back as that value.\<close>

lemma bytes_nat_u64: "n < U64_LIMIT \<Longrightarrow> bytes_nat (u64_bytes n) = n"
  using bytes_nat_digits [of n 0 8] by (simp add: u64_bytes_def U64_LIMIT_num)

lemma length_u32_bytes [simp]: "length (u32_bytes n) = 4"
  by (simp add: u32_bytes_def)

lemma bytes_nat_u32: "n < U32_LIMIT \<Longrightarrow> bytes_nat (u32_bytes n) = n"
  using bytes_nat_digits [of n 0 4] by (simp add: u32_bytes_def U32_LIMIT_num)

text \<open>The option monad, opened up: the facts every proof about panicking code uses.\<close>

lemmas rust_SomeD = bind_eq_Some_conv

end
