(* ===== verification/Nodit_Interface.thy ===== *)
theory Nodit_Interface
  imports Prelude
begin

text \<open>
  The contract of the \<^verbatim>\<open>nodit\<close> crate, which is not part of the repository. The kernel keeps
  physical memory in a \<^verbatim>\<open>NoditMap<u64, Interval<u64>, MemoryType>\<close> and virtual address
  space in \<^verbatim>\<open>NoditSet<u64, Interval<u64>>\<close> values. The model takes the operations it
  calls as a record of functions, and the locales \<open>nodit_map\<close> and \<open>nodit_set\<close> state what
  the crate documents of them: stored intervals are inclusive, sorted and disjoint; \<open>cut\<close>
  removes exactly the given addresses; an insertion is refused when it overlaps and otherwise
  adds exactly the given addresses, merged with what it touches; \<open>gaps_trimmed\<close> lists the
  maximal free runs inside a range, in ascending order. An inclusive interval \<open>ii(a, b)\<close> is what one
  expects when \<open>a \<le> b\<close>; for an empty range the contract says nothing, and the implementation below
  panics.

  The second half of the theory is an implementation of that contract by sorted lists, so the
  contract is satisfiable and every property that assumes it can be evaluated.
\<close>

section \<open>Intervals\<close>

type_synonym interval = "nat \<times> nat"

fun valid_ivl :: "interval \<Rightarrow> bool" where
  "valid_ivl (a, b) = (a \<le> b \<and> b < U64_LIMIT)"

fun in_ivl :: "nat \<Rightarrow> interval \<Rightarrow> bool" where
  "in_ivl x (a, b) = (a \<le> x \<and> x \<le> b)"

text \<open>Two neighbouring entries: ordered, disjoint, and merged when they could be.\<close>

definition ivl_before :: "interval \<times> 'v \<Rightarrow> interval \<times> 'v \<Rightarrow> bool" where
  "ivl_before x y \<longleftrightarrow>
     snd (fst x) < fst (fst y) \<and> (snd (fst x) + 1 = fst (fst y) \<longrightarrow> snd x \<noteq> snd y)"

definition ivls_ok :: "(interval \<times> 'v) list \<Rightarrow> bool" where
  "ivls_ok xs \<longleftrightarrow> (\<forall>x\<in>set xs. valid_ivl (fst x)) \<and> sorted_wrt ivl_before xs"

definition value_at :: "(interval \<times> 'v) list \<Rightarrow> nat \<Rightarrow> 'v option" where
  "value_at xs a = map_option snd (find (\<lambda>x. in_ivl a (fst x)) xs)"

definition covered :: "interval list \<Rightarrow> nat \<Rightarrow> bool" where
  "covered xs a \<longleftrightarrow> (\<exists>i\<in>set xs. in_ivl a i)"

lemma ivls_ok_Nil [simp]: "ivls_ok []"
  by (simp add: ivls_ok_def)

lemma ivls_ok_Cons:
  "ivls_ok (x # xs) \<longleftrightarrow> valid_ivl (fst x) \<and> (\<forall>y\<in>set xs. ivl_before x y) \<and> ivls_ok xs"
  by (auto simp: ivls_ok_def)

lemma value_at_Nil [simp]: "value_at [] a = None"
  by (simp add: value_at_def)

lemma value_at_Cons [simp]:
  "value_at (x # xs) a = (if in_ivl a (fst x) then Some (snd x) else value_at xs a)"
  by (simp add: value_at_def)

lemma value_at_append:
  "value_at (xs @ ys) a = (case value_at xs a of None \<Rightarrow> value_at ys a | Some v \<Rightarrow> Some v)"
  by (induction xs) auto

lemma value_at_SomeD:
  assumes "value_at xs a = Some v"
  shows "\<exists>i. (i, v) \<in> set xs \<and> in_ivl a i"
proof -
  from assms obtain x where "find (\<lambda>x. in_ivl a (fst x)) xs = Some x" "snd x = v"
    by (auto simp: value_at_def simp del: in_ivl.simps)
  then have "x \<in> set xs" "in_ivl a (fst x)" by (auto simp: find_Some_iff simp del: in_ivl.simps)
  then show ?thesis using \<open>snd x = v\<close> by (metis prod.collapse)
qed

lemma value_at_None_iff: "value_at xs a = None \<longleftrightarrow> (\<forall>x\<in>set xs. \<not> in_ivl a (fst x))"
  unfolding value_at_def option.map_disc_iff find_None_iff by blast

lemma ivl_before_disjoint: "ivl_before x y \<Longrightarrow> in_ivl a (fst y) \<Longrightarrow> \<not> in_ivl a (fst x)"
  by (cases "fst x"; cases "fst y") (auto simp: ivl_before_def)

lemma value_at_memI:
  "ivls_ok xs \<Longrightarrow> (i, v) \<in> set xs \<Longrightarrow> in_ivl a i \<Longrightarrow> value_at xs a = Some v"
proof (induction xs)
  case (Cons x xs)
  then have ok: "ivls_ok xs" "\<forall>y\<in>set xs. ivl_before x y" by (simp_all add: ivls_ok_Cons)
  show ?case
  proof (cases "x = (i, v)")
    case False
    then have mem: "(i, v) \<in> set xs" using Cons.prems by simp
    then have "\<not> in_ivl a (fst x)"
      using ok(2) Cons.prems(3) ivl_before_disjoint [of x "(i, v)" a] by (metis fst_conv)
    then show ?thesis using Cons.IH ok mem Cons.prems by simp
  qed (use Cons.prems in simp)
qed simp

lemma covered_simps [simp]:
  "covered [] a \<longleftrightarrow> False" "covered (i # xs) a \<longleftrightarrow> in_ivl a i \<or> covered xs a"
  by (auto simp: covered_def)

text \<open>A run of addresses with one value lies inside a single stored interval, because
  touching intervals with equal values are merged.\<close>

lemma uniform_run_in_one:
  assumes "ivls_ok xs" "s \<le> e" "\<forall>a. s \<le> a \<and> a \<le> e \<longrightarrow> value_at xs a = Some v"
  shows "\<exists>c d. ((c, d), v) \<in> set xs \<and> c \<le> s \<and> e \<le> d"
  using assms(2,3)
proof (induction e rule: dec_induct)
  case base
  then have "value_at xs s = Some v" by simp
  from value_at_SomeD [OF this] show ?case by auto
next
  case (step n)
  then obtain c d where cd: "((c, d), v) \<in> set xs" "c \<le> s" "n \<le> d" by auto
  from step.prems step.hyps have "value_at xs (Suc n) = Some v" by simp
  from value_at_SomeD [OF this]
  obtain c' d' where cd': "((c', d'), v) \<in> set xs" "c' \<le> Suc n" "Suc n \<le> d'" by auto
  have "((c', d'), v) = ((c, d), v)" if "d < Suc n"
  proof (rule ccontr)
    assume ne: "((c', d'), v) \<noteq> ((c, d), v)"
    obtain j k where jk: "xs ! j = ((c, d), v)" "xs ! k = ((c', d'), v)"
        "j < length xs" "k < length xs"
      using cd(1) cd'(1) by (metis in_set_conv_nth)
    have srt: "sorted_wrt ivl_before xs" using assms(1) by (simp add: ivls_ok_def)
    have val: "c \<le> d" "c' \<le> d'" using assms(1) cd(1) cd'(1) by (auto simp: ivls_ok_def)
    consider "j < k" | "k < j" using ne jk by (metis linorder_neqE_nat)
    then show False
    proof cases
      case 1
      then have "ivl_before ((c, d), v) ((c', d'), v)" using sorted_wrt_nth_less [OF srt] jk by metis
      then show False using that cd cd' by (auto simp: ivl_before_def)
    next
      case 2
      then have "ivl_before ((c', d'), v) ((c, d), v)" using sorted_wrt_nth_less [OF srt] jk by metis
      then show False using that cd cd' val by (auto simp: ivl_before_def)
    qed
  qed
  then have "\<exists>d. ((c, d), v) \<in> set xs \<and> Suc n \<le> d"
    using cd(1) cd'(1,3) by (cases "d < Suc n") (blast, meson not_less)
  then show ?case using cd(2) by blast
qed

section \<open>The crate's operations and what it documents of them\<close>

text \<open>The field \<open>nm_interval_of_range\<close> is the conversion of a half-open range \<^verbatim>\<open>a..b\<close>.
  Each operation may panic (the crate does so on malformed intervals). An insertion
  returns \<open>None\<close> for \<^verbatim>\<open>Err(OverlapError)\<close>, which leaves the collection as it was.\<close>

record ('m, 'v) nodit_map_ops =
  nm_interval_of_range :: "nat \<Rightarrow> nat \<Rightarrow> interval rust"
  nm_default :: "'m"
  nm_iter :: "'m \<Rightarrow> (interval \<times> 'v) list"
  nm_cut :: "'m \<Rightarrow> interval \<Rightarrow> 'm rust"
  nm_insert_merge_touching_if_values_equal :: "'m \<Rightarrow> interval \<Rightarrow> 'v \<Rightarrow> 'm option rust"

record 's nodit_set_ops =
  ns_ii :: "nat \<Rightarrow> nat \<Rightarrow> interval rust"
  ns_default :: "'s"
  ns_iter :: "'s \<Rightarrow> interval list"
  ns_cut :: "'s \<Rightarrow> interval \<Rightarrow> 's rust"
  ns_insert_merge_touching :: "'s \<Rightarrow> interval \<Rightarrow> 's option rust"
  ns_insert_merge_touching_or_overlapping :: "'s \<Rightarrow> interval \<Rightarrow> 's rust"
  ns_gaps_trimmed :: "'s \<Rightarrow> interval \<Rightarrow> interval list rust"
  ns_contains_interval :: "interval \<Rightarrow> interval \<Rightarrow> bool"

locale nodit_map =
  fixes N :: "('m, 'v) nodit_map_ops"
    and wfN :: "'m \<Rightarrow> bool"
  assumes of_range: "a < b \<Longrightarrow> nm_interval_of_range N a b = Some (a, b - 1)"
    and default_wf: "wfN (nm_default N)"
    and default_empty: "nm_iter N (nm_default N) = []"
    and iter_ok: "wfN m \<Longrightarrow> ivls_ok (nm_iter N m)"
    and cut_spec: "wfN m \<Longrightarrow> valid_ivl i \<Longrightarrow>
      \<exists>m'. nm_cut N m i = Some m' \<and> wfN m' \<and>
        (\<forall>a. value_at (nm_iter N m') a
              = (if in_ivl a i then None else value_at (nm_iter N m) a))"
    and insert_spec: "wfN m \<Longrightarrow> valid_ivl i \<Longrightarrow>
      (\<forall>a. in_ivl a i \<longrightarrow> value_at (nm_iter N m) a = None) \<Longrightarrow>
      \<exists>m'. nm_insert_merge_touching_if_values_equal N m i v = Some (Some m') \<and> wfN m' \<and>
        (\<forall>a. value_at (nm_iter N m') a
              = (if in_ivl a i then Some v else value_at (nm_iter N m) a))"
    and insert_overlap: "wfN m \<Longrightarrow> valid_ivl i \<Longrightarrow> in_ivl a i \<Longrightarrow>
      value_at (nm_iter N m) a \<noteq> None \<Longrightarrow>
      nm_insert_merge_touching_if_values_equal N m i v = Some None"

locale nodit_set =
  fixes S :: "'s nodit_set_ops"
    and wfN :: "'s \<Rightarrow> bool"
  assumes ii_spec: "a \<le> b \<Longrightarrow> ns_ii S a b = Some (a, b)"
    and default_wf: "wfN (ns_default S)"
    and default_empty: "ns_iter S (ns_default S) = []"
    and iter_ok: "wfN m \<Longrightarrow> ivls_ok (map (\<lambda>i. (i, ())) (ns_iter S m))"
    and cut_spec: "wfN m \<Longrightarrow> valid_ivl i \<Longrightarrow>
      \<exists>m'. ns_cut S m i = Some m' \<and> wfN m' \<and>
        (\<forall>a. covered (ns_iter S m') a \<longleftrightarrow> covered (ns_iter S m) a \<and> \<not> in_ivl a i)"
    and insert_spec: "wfN m \<Longrightarrow> valid_ivl i \<Longrightarrow>
      (\<forall>a. in_ivl a i \<longrightarrow> \<not> covered (ns_iter S m) a) \<Longrightarrow>
      \<exists>m'. ns_insert_merge_touching S m i = Some (Some m') \<and> wfN m' \<and>
        (\<forall>a. covered (ns_iter S m') a \<longleftrightarrow> covered (ns_iter S m) a \<or> in_ivl a i)"
    and insert_overlap: "wfN m \<Longrightarrow> valid_ivl i \<Longrightarrow> in_ivl a i \<Longrightarrow> covered (ns_iter S m) a \<Longrightarrow>
      ns_insert_merge_touching S m i = Some None"
    and insert_overlapping_spec: "wfN m \<Longrightarrow> valid_ivl i \<Longrightarrow>
      \<exists>m'. ns_insert_merge_touching_or_overlapping S m i = Some m' \<and> wfN m' \<and>
        (\<forall>a. covered (ns_iter S m') a \<longleftrightarrow> covered (ns_iter S m) a \<or> in_ivl a i)"
    and gaps_spec: "wfN m \<Longrightarrow> valid_ivl (lo, hi) \<Longrightarrow>
      \<exists>gs. ns_gaps_trimmed S m (lo, hi) = Some gs \<and>
        (\<forall>(s, e)\<in>set gs. lo \<le> s \<and> s \<le> e \<and> e \<le> hi \<and>
            (\<forall>a. s \<le> a \<and> a \<le> e \<longrightarrow> \<not> covered (ns_iter S m) a)) \<and>
        (\<forall>s e. lo \<le> s \<and> s \<le> e \<and> e \<le> hi \<and>
            (\<forall>a. s \<le> a \<and> a \<le> e \<longrightarrow> \<not> covered (ns_iter S m) a) \<longrightarrow>
            (\<exists>(c, d)\<in>set gs. c \<le> s \<and> e \<le> d)) \<and>
        sorted_wrt (\<lambda>x y. snd x < fst y) gs"
    and contains_spec: "valid_ivl (a, b) \<Longrightarrow> valid_ivl (c, d) \<Longrightarrow>
      ns_contains_interval S (a, b) (c, d) \<longleftrightarrow> a \<le> c \<and> d \<le> b"

lemma value_at_unit: "value_at (map (\<lambda>i. (i, ())) xs) a = (if covered xs a then Some () else None)"
  by (induction xs) (auto simp del: in_ivl.simps)

text \<open>A fully covered range lies inside one stored interval.\<close>

lemma covered_run_in_one:
  assumes "ivls_ok (map (\<lambda>i. (i, ())) xs)" "s \<le> e" "\<forall>a. s \<le> a \<and> a \<le> e \<longrightarrow> covered xs a"
  shows "\<exists>c d. (c, d) \<in> set xs \<and> c \<le> s \<and> e \<le> d"
  using uniform_run_in_one [OF assms(1,2), of "()"] assms(3) by (auto simp: value_at_unit)

lemma covered_memI: "(c, d) \<in> set xs \<Longrightarrow> c \<le> a \<Longrightarrow> a \<le> d \<Longrightarrow> covered xs a"
  unfolding covered_def by (rule bexI [of _ "(c, d)"]) simp_all

section \<open>A list implementation of the contract\<close>

fun cut_piece :: "interval \<Rightarrow> interval \<Rightarrow> interval list" where
  "cut_piece (s, e) (a, b) =
     (if b < s \<or> e < a then [(a, b)]
      else (if a < s then [(a, s - 1)] else []) @ (if e < b then [(e + 1, b)] else []))"

definition cut_ivls :: "interval \<Rightarrow> (interval \<times> 'v) list \<Rightarrow> (interval \<times> 'v) list" where
  "cut_ivls i xs = concat (map (\<lambda>x. map (\<lambda>k. (k, snd x)) (cut_piece i (fst x))) xs)"

fun ins_ivl :: "interval \<Rightarrow> 'v \<Rightarrow> (interval \<times> 'v) list \<Rightarrow> (interval \<times> 'v) list" where
  "ins_ivl (s, e) v [] = [((s, e), v)]"
| "ins_ivl (s, e) v (((a, b), w) # xs) =
     (if b < s
      then (if b + 1 = s \<and> w = v then ins_ivl (a, e) v xs else ((a, b), w) # ins_ivl (s, e) v xs)
      else if e + 1 = a \<and> w = v then ((s, b), v) # xs
      else ((s, e), v) # ((a, b), w) # xs)"

definition ivl_overlaps :: "interval \<Rightarrow> interval \<Rightarrow> bool" where
  "ivl_overlaps i j \<longleftrightarrow> fst i \<le> snd j \<and> fst j \<le> snd i"

definition lm_cut :: "(interval \<times> 'v) list \<Rightarrow> interval \<Rightarrow> (interval \<times> 'v) list rust" where
  "lm_cut xs i = (if valid_ivl i then Some (cut_ivls i xs) else panic)"

definition lm_insert ::
    "(interval \<times> 'v) list \<Rightarrow> interval \<Rightarrow> 'v \<Rightarrow> (interval \<times> 'v) list option rust" where
  "lm_insert xs i v =
     (if \<not> valid_ivl i then panic
      else if list_ex (\<lambda>x. ivl_overlaps i (fst x)) xs then Some None
      else Some (Some (ins_ivl i v xs)))"

definition list_map_ops :: "((interval \<times> 'v) list, 'v) nodit_map_ops" where
  "list_map_ops =
     \<lparr> nm_interval_of_range = (\<lambda>a b. if a < b then Some (a, b - 1) else panic),
       nm_default = [], nm_iter = (\<lambda>xs. xs), nm_cut = lm_cut,
       nm_insert_merge_touching_if_values_equal = lm_insert \<rparr>"

fun gaps_between :: "nat \<Rightarrow> nat \<Rightarrow> (interval \<times> unit) list \<Rightarrow> interval list" where
  "gaps_between lo hi [] = (if lo \<le> hi then [(lo, hi)] else [])"
| "gaps_between lo hi (((a, b), u) # xs) =
     (if hi < a then (if lo \<le> hi then [(lo, hi)] else [])
      else if b < lo then gaps_between lo hi xs
      else (if lo < a then [(lo, a - 1)] else []) @ gaps_between (b + 1) hi xs)"

definition list_set_ops :: "(interval \<times> unit) list nodit_set_ops" where
  "list_set_ops =
     \<lparr> ns_ii = (\<lambda>a b. if a \<le> b then Some (a, b) else panic),
       ns_default = [], ns_iter = map fst, ns_cut = lm_cut,
       ns_insert_merge_touching = (\<lambda>xs i. lm_insert xs i ()),
       ns_insert_merge_touching_or_overlapping =
         (\<lambda>xs i. if valid_ivl i then Some (ins_ivl i () (cut_ivls i xs)) else panic),
       ns_gaps_trimmed = (\<lambda>xs (lo, hi). if valid_ivl (lo, hi) then Some (gaps_between lo hi xs) else panic),
       ns_contains_interval = (\<lambda>(a, b) (c, d). a \<le> c \<and> d \<le> b) \<rparr>"

lemma ivls_ok_append:
  "ivls_ok (xs @ ys) \<longleftrightarrow> ivls_ok xs \<and> ivls_ok ys \<and> (\<forall>x\<in>set xs. \<forall>y\<in>set ys. ivl_before x y)"
  by (auto simp: ivls_ok_def sorted_wrt_append)

lemma cut_piece_bounds:
  "j \<in> set (cut_piece i k) \<Longrightarrow> valid_ivl k \<Longrightarrow> fst k \<le> fst j \<and> fst j \<le> snd j \<and> snd j \<le> snd k"
  by (cases i; cases k; cases j) (auto split: if_splits)

lemma cut_ivls_Cons:
  "cut_ivls i (x # xs) = map (\<lambda>k. (k, snd x)) (cut_piece i (fst x)) @ cut_ivls i xs"
  by (simp add: cut_ivls_def)

lemma cut_ivls_mem:
  assumes "y \<in> set (cut_ivls i xs)" "ivls_ok xs"
  shows "\<exists>x\<in>set xs. snd y = snd x \<and> fst (fst x) \<le> fst (fst y) \<and> fst (fst y) \<le> snd (fst y)
           \<and> snd (fst y) \<le> snd (fst x)"
proof -
  from assms(1) obtain x k where x: "x \<in> set xs" "k \<in> set (cut_piece i (fst x))" "y = (k, snd x)"
    by (auto simp: cut_ivls_def)
  then have "valid_ivl (fst x)" using assms(2) by (simp add: ivls_ok_def)
  from cut_piece_bounds [OF x(2) this] show ?thesis using x by (intro bexI [of _ x]) simp_all
qed

lemma cut_piece_ok:
  "valid_ivl i \<Longrightarrow> valid_ivl k \<Longrightarrow> ivls_ok (map (\<lambda>j. (j, v)) (cut_piece i k))"
  by (cases i; cases k) (auto simp: ivls_ok_def ivl_before_def)

lemma ivl_before_mono:
  "ivl_before x y \<Longrightarrow> snd x' = snd x \<Longrightarrow> snd y' = snd y \<Longrightarrow> snd (fst x') \<le> snd (fst x) \<Longrightarrow>
   fst (fst y) \<le> fst (fst y') \<Longrightarrow> ivl_before x' y'"
  by (auto simp: ivl_before_def)

lemma cut_ivls_ok: "ivls_ok xs \<Longrightarrow> valid_ivl i \<Longrightarrow> ivls_ok (cut_ivls i xs)"
proof (induction xs)
  case (Cons x xs)
  then have x: "valid_ivl (fst x)" "ivls_ok xs" "\<forall>y\<in>set xs. ivl_before x y"
    by (simp_all add: ivls_ok_Cons)
  have "ivl_before (k, snd x) y" if k: "k \<in> set (cut_piece i (fst x))" and y: "y \<in> set (cut_ivls i xs)" for k y
  proof -
    from cut_ivls_mem [OF y x(2)]
    obtain z where z: "z \<in> set xs" "snd y = snd z" "fst (fst z) \<le> fst (fst y)" by blast
    from x(3) z(1) have "ivl_before x z" by (rule bspec)
    then show ?thesis
      by (rule ivl_before_mono) (use z cut_piece_bounds [OF k x(1)] in simp_all)
  qed
  then have "\<forall>p\<in>set (map (\<lambda>k. (k, snd x)) (cut_piece i (fst x))). \<forall>y\<in>set (cut_ivls i xs). ivl_before p y"
    by (simp only: set_map ball_simps) blast
  then show ?case
    using Cons.IH Cons.prems(2) x(1,2) by (simp only: cut_ivls_Cons ivls_ok_append cut_piece_ok simp_thms)
qed (simp add: cut_ivls_def)

lemma value_at_map_const: "value_at (map (\<lambda>j. (j, v)) js) a = (if covered js a then Some v else None)"
  by (induction js) (auto simp del: in_ivl.simps)

lemma covered_cut_piece: "covered (cut_piece i k) a \<longleftrightarrow> in_ivl a k \<and> \<not> in_ivl a i"
  if "valid_ivl i" using that by (cases i; cases k) auto

lemma value_at_cut:
  "valid_ivl i \<Longrightarrow> value_at (cut_ivls i xs) a = (if in_ivl a i then None else value_at xs a)"
  by (induction xs)
    (simp_all add: cut_ivls_Cons value_at_append value_at_map_const covered_cut_piece cut_ivls_def)

lemma no_overlap_extend_left:
  assumes "\<forall>x\<in>set xs. \<not> ivl_overlaps (s, e) (fst x)" "\<forall>x\<in>set xs. valid_ivl (fst x)"
    "\<forall>x\<in>set xs. b < fst (fst x)" "s \<le> Suc b"
  shows "\<forall>x\<in>set xs. \<not> ivl_overlaps (a, e) (fst x)"
proof
  fix x assume x: "x \<in> set xs"
  obtain c d where cd: "fst x = (c, d)" by (cases "fst x") auto
  have "\<not> ivl_overlaps (s, e) (c, d)" "c \<le> d" "b < c"
    using bspec [OF assms(1) x] bspec [OF assms(2) x] bspec [OF assms(3) x] cd by simp_all
  then show "\<not> ivl_overlaps (a, e) (fst x)" using cd assms(4) by (auto simp: ivl_overlaps_def)
qed

lemma ins_ivl_step:
  assumes "ivls_ok (((c, d), w) # xs)" "\<forall>x\<in>set (((c, d), w) # xs). \<not> ivl_overlaps (s, e) (fst x)"
    "valid_ivl (s, e)"
  shows "ivls_ok xs" "\<forall>x\<in>set xs. \<not> ivl_overlaps (s, e) (fst x)"
    and "\<forall>x\<in>set xs. d < fst (fst x)" "c \<le> d" "d < s \<or> e < c"
    and "d + 1 = s \<Longrightarrow> \<forall>x\<in>set xs. \<not> ivl_overlaps (c, e) (fst x)"
proof -
  show ok: "ivls_ok xs" and ov: "\<forall>x\<in>set xs. \<not> ivl_overlaps (s, e) (fst x)" and cd: "c \<le> d"
    using assms by (simp_all add: ivls_ok_Cons)
  have before: "\<forall>y\<in>set xs. ivl_before ((c, d), w) y" using assms(1) by (simp add: ivls_ok_Cons)
  then show lt: "\<forall>x\<in>set xs. d < fst (fst x)" by (simp add: ivl_before_def)
  have "\<not> ivl_overlaps (s, e) (c, d)" using assms(2) by simp
  then show "d < s \<or> e < c" by (simp add: ivl_overlaps_def not_le)
  have "\<forall>x\<in>set xs. valid_ivl (fst x)" using ok by (simp add: ivls_ok_def)
  from no_overlap_extend_left [OF ov this lt, of c]
  show "d + 1 = s \<Longrightarrow> \<forall>x\<in>set xs. \<not> ivl_overlaps (c, e) (fst x)" by simp
qed

lemma value_at_ins:
  assumes "valid_ivl i" "\<forall>x\<in>set xs. \<not> ivl_overlaps i (fst x)" "ivls_ok xs"
  shows "value_at (ins_ivl i v xs) a = (if in_ivl a i then Some v else value_at xs a)"
  using assms
proof (induction i v xs rule: ins_ivl.induct)
  case step: (2 s e v c d w xs)
  note s = ins_ivl_step [OF step.prems(3,2,1)]
  have se: "s \<le> e" "valid_ivl (c, e) \<or> \<not> d < s" using step.prems(1) s(4) by auto
  consider (left) "d + 1 = s" "w = v" | (skip) "d < s" "\<not> (d + 1 = s \<and> w = v)" | (here) "\<not> d < s"
    by linarith
  then show ?case
  proof cases
    case left
    then have "value_at (ins_ivl (c, e) v xs) a = (if in_ivl a (c, e) then Some v else value_at xs a)"
      using step.IH(1) s se by simp
    then show ?thesis using left s(4) se(1) by simp
  next
    case skip
    then have "value_at (ins_ivl (s, e) v xs) a = (if in_ivl a (s, e) then Some v else value_at xs a)"
      using step.IH(2) s step.prems(1) by simp
    then show ?thesis using skip by auto
  next
    case here
    then have "e < c" using s(5) by simp
    then show ?thesis using here s(4) se(1) by simp
  qed
qed simp

lemma ins_ivl_start:
  "x \<in> set (ins_ivl i v xs) \<Longrightarrow>
   x \<in> set xs \<or> snd x = v \<and> (fst (fst x) = fst i \<or> (\<exists>y\<in>set xs. snd y = v \<and> fst (fst y) = fst (fst x)))"
proof (induction i v xs rule: ins_ivl.induct)
  case (2 s e v a b w xs)
  then show ?case by (simp split: if_splits) (blast | force)+
qed simp

lemma ins_ivl_ok:
  assumes "valid_ivl i" "\<forall>x\<in>set xs. \<not> ivl_overlaps i (fst x)" "ivls_ok xs"
  shows "ivls_ok (ins_ivl i v xs)"
  using assms
proof (induction i v xs rule: ins_ivl.induct)
  case step: (2 s e v c d w xs)
  note s = ins_ivl_step [OF step.prems(3,2,1)]
  have before: "\<forall>y\<in>set xs. ivl_before ((c, d), w) y" and cd: "valid_ivl (c, d)"
    using step.prems(3) by (simp_all add: ivls_ok_Cons)
  consider (left) "d + 1 = s" "w = v" | (skip) "d < s" "\<not> (d + 1 = s \<and> w = v)" | (here) "\<not> d < s"
    by linarith
  then show ?case
  proof cases
    case left
    then show ?thesis using step.IH(1) s step.prems(1) by simp
  next
    case skip
    have "ivl_before ((c, d), w) x" if "x \<in> set (ins_ivl (s, e) v xs)" for x
      using ins_ivl_start [OF that] before skip by (auto simp: ivl_before_def)
    then show ?thesis using skip step.IH(2) s step.prems(1) cd by (auto simp: ivls_ok_Cons)
  next
    case here
    then have "e < c" "s \<le> e" using s(5) step.prems(1) by auto
    then show ?thesis
      using here before cd s(1,3,4) step.prems(1) by (simp add: ivls_ok_Cons ivl_before_def) fastforce
  qed
qed (simp add: ivls_ok_def)

lemma value_at_None_no_overlap:
  assumes "\<forall>a. in_ivl a i \<longrightarrow> value_at xs a = None" "ivls_ok xs" "valid_ivl i"
  shows "\<forall>x\<in>set xs. \<not> ivl_overlaps i (fst x)"
proof
  fix x assume x: "x \<in> set xs"
  obtain s e c d where i: "i = (s, e)" and cd: "fst x = (c, d)" by (cases i, cases "fst x") auto
  have v: "s \<le> e" "c \<le> d" using assms(2,3) x i cd by (auto simp: ivls_ok_def dest: bspec)
  show "\<not> ivl_overlaps i (fst x)"
  proof
    assume "ivl_overlaps i (fst x)"
    then have "in_ivl (max s c) i" "in_ivl (max s c) (fst x)" using i cd v by (auto simp: ivl_overlaps_def)
    then show False using assms(1) x by (auto simp only: value_at_None_iff)
  qed
qed

lemma covered_map_fst: "covered (map fst xs) a \<longleftrightarrow> value_at xs a \<noteq> None"
  by (auto simp only: covered_def value_at_None_iff set_map bex_simps)

lemma gaps_between_sound:
  assumes "(s, e) \<in> set (gaps_between lo hi xs)" "ivls_ok xs"
  shows "lo \<le> s \<and> s \<le> e \<and> e \<le> hi \<and> (\<forall>a. s \<le> a \<and> a \<le> e \<longrightarrow> value_at xs a = None)"
  using assms
proof (induction lo hi xs rule: gaps_between.induct)
  case (2 lo hi c d u xs)
  have ok: "ivls_ok xs" "c \<le> d" and before: "\<forall>y\<in>set xs. d < fst (fst y)"
    using 2(4) by (simp_all add: ivls_ok_Cons ivl_before_def)
  have later: "value_at xs a = None" if "a \<le> d" for a
    using before that by (fastforce simp: value_at_None_iff)
  consider "hi < c" | "\<not> hi < c" "d < lo" | "\<not> hi < c" "\<not> d < lo" by blast
  then show ?case
  proof cases
    case 1
    then show ?thesis using 2(3) ok(2) later by (auto split: if_splits)
  next
    case 2
    then show ?thesis using "2.IH"(1) "2.prems" ok by auto
  next
    case 3
    then consider "lo < c" "s = lo" "e = c - 1" | "(s, e) \<in> set (gaps_between (d + 1) hi xs)"
      using 2(3) by (auto split: if_splits)
    then show ?thesis
    proof cases
      case 1
      then show ?thesis using 3 ok(2) later by auto
    next
      case 2
      then show ?thesis using "2.IH"(2) 3 ok by auto
    qed
  qed
qed (simp split: if_splits)

lemma gaps_between_complete:
  assumes "lo \<le> s" "s \<le> e" "e \<le> hi" "\<forall>a. s \<le> a \<and> a \<le> e \<longrightarrow> value_at xs a = None" "ivls_ok xs"
  shows "\<exists>(c, d)\<in>set (gaps_between lo hi xs). c \<le> s \<and> e \<le> d"
  using assms
proof (induction lo hi xs rule: gaps_between.induct)
  case step: (2 lo hi c d u xs)
  have ok: "ivls_ok xs" "c \<le> d" using step.prems(5) by (simp_all add: ivls_ok_Cons)
  have free: "\<forall>a. s \<le> a \<and> a \<le> e \<longrightarrow> value_at xs a = None"
    using step.prems(4) by (metis option.distinct(1) value_at_Cons)
  have "\<not> in_ivl (max s c) (c, d) \<or> e < max s c"
    using step.prems(2,4) by (metis linorder_not_less max.cobounded1 option.distinct(1) fst_conv value_at_Cons)
  then have away: "e < c \<or> d < s" using ok(2) step.prems(2) by auto
  consider "hi < c" | "\<not> hi < c" "d < lo" | "\<not> hi < c" "\<not> d < lo" by blast
  then show ?case
  proof cases
    case 3
    show ?thesis
    proof (cases "e < c")
      case True
      then show ?thesis using 3 step.prems(1,2) by auto
    next
      case False
      then have "d + 1 \<le> s" using away by simp
      from step.IH(2) [OF 3 this step.prems(2,3) free ok(1)] show ?thesis using 3 by auto
    qed
  qed (use step ok free in auto)
qed auto

lemma gaps_between_sorted: "ivls_ok xs \<Longrightarrow> sorted_wrt (\<lambda>x y. snd x < fst y) (gaps_between lo hi xs)"
proof (induction lo hi xs rule: gaps_between.induct)
  case (2 lo hi c d u xs)
  have ok: "ivls_ok xs" "c \<le> d" using 2(3) by (simp_all add: ivls_ok_Cons)
  have "c - 1 < fst y" if "y \<in> set (gaps_between (d + 1) hi xs)" for y
    using gaps_between_sound [of "fst y" "snd y" "d + 1" hi xs] that ok by auto
  then show ?case using 2(1,2) ok by auto
qed simp

lemmas list_nodit_defs = list_map_ops_def list_set_ops_def lm_cut_def lm_insert_def

interpretation list_map: nodit_map "list_map_ops :: ((interval \<times> 'v) list, 'v) nodit_map_ops" ivls_ok
proof (standard, goal_cases)
  case (6 m i v)
  then have "\<forall>x\<in>set m. \<not> ivl_overlaps i (fst x)"
    using value_at_None_no_overlap [of i m] by (simp add: list_map_ops_def)
  then show ?case
    using 6 value_at_ins [of i m v] ins_ivl_ok [of i m v] by (simp add: list_nodit_defs list_ex_iff)
next
  case (7 m i a v)
  then obtain x where "x \<in> set m" "in_ivl a (fst x)"
    by (auto simp only: list_map_ops_def nodit_map_ops.simps value_at_None_iff)
  then have "list_ex (\<lambda>x. ivl_overlaps i (fst x)) m"
    using 7(3) by (cases i; cases "fst x") (force simp: list_ex_iff ivl_overlaps_def)
  then show ?case using 7 by (simp add: list_nodit_defs)
qed (simp_all add: list_nodit_defs cut_ivls_ok value_at_cut)

lemma map_unit_fst: "map ((\<lambda>i. (i, ())) \<circ> fst) xs = xs"
  by (induction xs) auto

interpretation list_set: nodit_set list_set_ops ivls_ok
proof (standard, goal_cases)
  case (5 m i)
  then show ?case by (simp add: list_nodit_defs cut_ivls_ok covered_map_fst value_at_cut)
next
  case (6 m i)
  then have "\<forall>a. in_ivl a i \<longrightarrow> value_at m a = None"
    by (simp only: list_set_ops_def nodit_set_ops.simps covered_map_fst not_not)
  from value_at_None_no_overlap [OF this 6(1,2)] show ?case
    using 6 value_at_ins [of i m "()"] ins_ivl_ok [of i m "()"]
    by (simp add: list_nodit_defs list_ex_iff covered_map_fst)
next
  case (7 m i a)
  then show ?case using list_map.insert_overlap [OF 7(1-3), of "()"]
    by (simp add: list_nodit_defs covered_map_fst)
next
  case (8 m i)
  have "\<forall>x\<in>set (cut_ivls i m). \<not> ivl_overlaps i (fst x)"
    using 8 by (intro value_at_None_no_overlap) (simp_all add: value_at_cut cut_ivls_ok)
  then show ?case
    using 8 value_at_ins [of i "cut_ivls i m" "()"] ins_ivl_ok [of i "cut_ivls i m" "()"]
    by (simp add: list_set_ops_def covered_map_fst value_at_cut cut_ivls_ok)
next
  case (9 m lo hi)
  then show ?case
    using gaps_between_sound [of _ _ lo hi m] gaps_between_complete [of lo _ _ hi m] gaps_between_sorted [of m lo hi]
    by (auto simp: list_set_ops_def covered_map_fst simp del: not_None_eq)
qed (simp_all add: list_set_ops_def map_unit_fst)

end
