(* ===== verification/X86_Interface.thy ===== *)
theory X86_Interface
  imports Prelude
begin

text \<open>
  The contract of the address types of the \<^verbatim>\<open>x86_64\<close> crate, which is not part of the
  repository. A physical or virtual address is its number, a 4 KiB frame or page is the address
  it starts at. \<^verbatim>\<open>PhysAddr::new\<close> accepts the 52-bit addresses of the architecture and
  panics otherwise; \<^verbatim>\<open>VirtAddr::new\<close> accepts the canonical 48-bit addresses and panics
  otherwise; \<^verbatim>\<open>containing_address\<close> rounds down to the start of the frame or page.
\<close>

definition SIZE_4KIB :: nat where
  "SIZE_4KIB = 4096"

definition PHYS_LIMIT :: nat where
  "PHYS_LIMIT = 2 ^ 52"

definition canonical :: "nat \<Rightarrow> bool" where
  "canonical a \<longleftrightarrow> a < 2 ^ 47 \<or> 2 ^ 64 - 2 ^ 47 \<le> a \<and> a < 2 ^ 64"

record x86_ops =
  phys_addr_new :: "nat \<Rightarrow> nat rust"
  virt_addr_new :: "nat \<Rightarrow> nat rust"
  frame_containing_address :: "nat \<Rightarrow> nat"
  page_containing_address :: "nat \<Rightarrow> nat"

locale x86_addr =
  fixes X :: x86_ops
  assumes phys_new: "a < PHYS_LIMIT \<Longrightarrow> phys_addr_new X a = Some a"
    and phys_new_panic: "PHYS_LIMIT \<le> a \<Longrightarrow> phys_addr_new X a = panic"
    and virt_new: "canonical a \<Longrightarrow> virt_addr_new X a = Some a"
    and virt_new_panic: "\<not> canonical a \<Longrightarrow> virt_addr_new X a = panic"
    and frame_containing: "frame_containing_address X a = a - a mod SIZE_4KIB"
    and page_containing: "page_containing_address X a = a - a mod SIZE_4KIB"
begin

lemma frame_aligned: "a mod SIZE_4KIB = 0 \<Longrightarrow> frame_containing_address X a = a"
  by (simp add: frame_containing)

lemma page_aligned: "a mod SIZE_4KIB = 0 \<Longrightarrow> page_containing_address X a = a"
  by (simp add: page_containing)

end

lemma SIZE_4KIB_pos [simp]: "0 < SIZE_4KIB"
  by (simp add: SIZE_4KIB_def)

lemma PHYS_LIMIT_num: "PHYS_LIMIT = 4503599627370496"
  by (simp add: PHYS_LIMIT_def)

lemma canonical_num: "canonical a \<longleftrightarrow> a < 140737488355328 \<or> 18446603336221196288 \<le> a \<and> a < U64_LIMIT"
  by (simp add: canonical_def U64_LIMIT_num)

definition x86_arith_ops :: x86_ops where
  "x86_arith_ops =
     \<lparr> phys_addr_new = (\<lambda>a. if a < PHYS_LIMIT then Some a else panic),
       virt_addr_new = (\<lambda>a. if canonical a then Some a else panic),
       frame_containing_address = (\<lambda>a. a - a mod SIZE_4KIB),
       page_containing_address = (\<lambda>a. a - a mod SIZE_4KIB) \<rparr>"

interpretation x86_arith: x86_addr x86_arith_ops
  by standard (simp_all add: x86_arith_ops_def)

end
