(* ===== verification/Physical_Memory.thy ===== *)
theory Physical_Memory
  imports Nodit_Interface X86_Interface
begin

text \<open>
  The physical frame allocator of \<^verbatim>\<open>kernel/core/src/memory/physical_memory.rs\<close> and the choice
  of the heap region in \<^verbatim>\<open>memory/global_allocator.rs\<close>. The state is the interval map from
  physical addresses to memory types; its operations are the \<^verbatim>\<open>nodit\<close> parameter \<open>N\<close>, and
  addresses are built through the \<^verbatim>\<open>x86_64\<close> parameter \<open>X\<close>. The lemmas describe each operation by
  its effect on the type of every single address.
\<close>

section \<open>Data\<close>

datatype KernelMemoryUsageType = PageTables | GlobalAllocatorHeap | Stack

datatype MemoryType =
    Usable
  | UsedByLimine
  | UsedByKernel KernelMemoryUsageType
  | UsedByUserMode
  | SharedBuffer

datatype FreeError =
    FrameNotAllocated
  | WrongMemoryType (expected: MemoryType) (found: MemoryType)

record 'm PhysicalMemory =
  pm_map :: 'm

record 'm PhysicalMemoryFrameAllocator =
  fa_physical_memory :: "'m PhysicalMemory"
  fa_memory_type :: MemoryType

text \<open>The bootloader's memory map: a list of entries, in the order Limine reports them.\<close>

datatype EntryType =
    USABLE
  | RESERVED
  | ACPI_RECLAIMABLE
  | ACPI_NVS
  | BAD_MEMORY
  | BOOTLOADER_RECLAIMABLE
  | EXECUTABLE_AND_MODULES
  | FRAMEBUFFER

record memmap_entry =
  entry_base :: nat
  entry_length :: nat
  entry_type :: EntryType

definition GLOBAL_ALLOCATOR_SIZE :: nat where
  "GLOBAL_ALLOCATOR_SIZE = 4 * 0x400 * 0x400"

definition HIGHER_HALF_START :: nat where
  "HIGHER_HALF_START = 0xFFFF800000000000"

section \<open>Operations\<close>

text \<open>Physical memory is mapped at the bootloader's higher-half offset \<open>hhdm\<close>.\<close>

definition phys_offset_mapped :: "x86_ops \<Rightarrow> nat \<Rightarrow> nat \<Rightarrow> nat rust" where
  "phys_offset_mapped X hhdm a = do { v \<leftarrow> add_u64 a hhdm; virt_addr_new X v }"

definition frame_offset_mapped :: "x86_ops \<Rightarrow> nat \<Rightarrow> nat \<Rightarrow> nat rust" where
  "frame_offset_mapped X hhdm frame =
     do { v \<leftarrow> phys_offset_mapped X hhdm frame; Some (page_containing_address X v) }"

definition virt_offset_mapped :: "x86_ops \<Rightarrow> nat \<Rightarrow> nat \<Rightarrow> nat rust" where
  "virt_offset_mapped X hhdm v = do { p \<leftarrow> sub_u64 v hhdm; phys_addr_new X p }"

text \<open>\<^verbatim>\<open>global_allocator::init\<close>: the base of the first usable entry that can hold the heap
  is chosen, and the span it is mapped at is given to the \<^verbatim>\<open>talc\<close> allocator, an external crate
  whose \<^verbatim>\<open>claim\<close> is the parameter \<open>talc_claim\<close> (start and size of the span, true when it is accepted).\<close>

definition global_allocator_init ::
    "x86_ops \<Rightarrow> (nat \<Rightarrow> nat \<Rightarrow> bool) \<Rightarrow> nat \<Rightarrow> memmap_entry list \<Rightarrow> nat rust" where
  "global_allocator_init X talc_claim hhdm entries =
     do { e \<leftarrow> unwrap (find (\<lambda>e. entry_type e = USABLE \<and> entry_length e \<ge> GLOBAL_ALLOCATOR_SIZE) entries);
          start \<leftarrow> phys_addr_new X (entry_base e);
          ptr \<leftarrow> phys_offset_mapped X hhdm start;
          assert_that (ptr \<noteq> 0);
          assert_that (talc_claim ptr GLOBAL_ALLOCATOR_SIZE);
          Some start }"

definition memmap_memory_type :: "EntryType \<Rightarrow> MemoryType option" where
  "memmap_memory_type t =
     (case t of USABLE \<Rightarrow> Some Usable | BOOTLOADER_RECLAIMABLE \<Rightarrow> Some UsedByLimine | _ \<Rightarrow> None)"

definition insert_memmap_entry ::
    "('m, MemoryType) nodit_map_ops \<Rightarrow> memmap_entry \<Rightarrow> 'm \<Rightarrow> 'm rust" where
  "insert_memmap_entry N entry m =
     (case memmap_memory_type (entry_type entry) of
        None \<Rightarrow> Some m
      | Some t \<Rightarrow>
          do { b \<leftarrow> add_u64 (entry_base entry) (entry_length entry);
               i \<leftarrow> nm_interval_of_range N (entry_base entry) b;
               r \<leftarrow> nm_insert_merge_touching_if_values_equal N m i t;
               unwrap r })"

definition PhysicalMemory_new ::
    "('m, MemoryType) nodit_map_ops \<Rightarrow> memmap_entry list \<Rightarrow> nat \<Rightarrow> 'm PhysicalMemory rust" where
  "PhysicalMemory_new N entries global_allocator_start =
     do { m \<leftarrow> fold_rust (insert_memmap_entry N) entries (nm_default N);
          b \<leftarrow> add_u64 global_allocator_start GLOBAL_ALLOCATOR_SIZE;
          i \<leftarrow> nm_interval_of_range N global_allocator_start b;
          m' \<leftarrow> nm_cut N m i;
          r \<leftarrow> nm_insert_merge_touching_if_values_equal N m' i (UsedByKernel GlobalAllocatorHeap);
          m'' \<leftarrow> unwrap r;
          Some \<lparr> pm_map = m'' \<rparr> }"

definition get_kernel_frame_allocator :: "'m PhysicalMemory \<Rightarrow> 'm PhysicalMemoryFrameAllocator" where
  "get_kernel_frame_allocator pm =
     \<lparr> fa_physical_memory = pm, fa_memory_type = UsedByKernel PageTables \<rparr>"

definition get_user_mode_frame_allocator :: "'m PhysicalMemory \<Rightarrow> 'm PhysicalMemoryFrameAllocator" where
  "get_user_mode_frame_allocator pm =
     \<lparr> fa_physical_memory = pm, fa_memory_type = UsedByUserMode \<rparr>"

text \<open>The closure of \<^verbatim>\<open>allocate_frame_with_type\<close>: the aligned start of a frame inside one
  stored interval, when the interval is usable and long enough.\<close>

definition usable_frame_start :: "interval \<times> MemoryType \<Rightarrow> nat option rust" where
  "usable_frame_start e =
     (case snd e of
        Usable \<Rightarrow>
          do { aligned_start \<leftarrow> next_multiple_of (fst (fst e)) SIZE_4KIB;
               required_end \<leftarrow> add_u64 aligned_start SIZE_4KIB;
               Some (if required_end \<le> snd (fst e) then Some aligned_start else None) }
      | _ \<Rightarrow> Some None)"

definition allocate_frame_with_type ::
    "x86_ops \<Rightarrow> ('m, MemoryType) nodit_map_ops \<Rightarrow> 'm PhysicalMemory \<Rightarrow> MemoryType \<Rightarrow>
     (nat option \<times> 'm PhysicalMemory) rust" where
  "allocate_frame_with_type X N pm memory_type =
     do { r \<leftarrow> find_map usable_frame_start (nm_iter N (pm_map pm));
          case r of
            None \<Rightarrow> Some (None, pm)
          | Some aligned_start \<Rightarrow>
              do { b \<leftarrow> add_u64 aligned_start SIZE_4KIB;
                   range \<leftarrow> nm_interval_of_range N aligned_start b;
                   m \<leftarrow> nm_cut N (pm_map pm) range;
                   ins \<leftarrow> nm_insert_merge_touching_if_values_equal N m range memory_type;
                   m' \<leftarrow> unwrap ins;
                   p \<leftarrow> phys_addr_new X aligned_start;
                   Some (Some (frame_containing_address X p), pm \<lparr> pm_map := m' \<rparr>) } }"

definition free_frame ::
    "('m, MemoryType) nodit_map_ops \<Rightarrow> 'm PhysicalMemory \<Rightarrow> nat \<Rightarrow> MemoryType \<Rightarrow>
     ((FreeError + unit) \<times> 'm PhysicalMemory) rust" where
  "free_frame N pm frame expct =
     do { b \<leftarrow> add_u64 frame SIZE_4KIB;
          end_addr \<leftarrow> sub_u64 b 1;
          case find (\<lambda>(i, _). fst i \<le> frame \<and> snd i \<ge> end_addr) (nm_iter N (pm_map pm)) of
            None \<Rightarrow> Some (Inl FrameNotAllocated, pm)
          | Some (_, found_type) \<Rightarrow>
              if found_type \<noteq> expct then Some (Inl (WrongMemoryType expct found_type), pm)
              else
                do { range \<leftarrow> nm_interval_of_range N frame b;
                     m \<leftarrow> nm_cut N (pm_map pm) range;
                     ins \<leftarrow> nm_insert_merge_touching_if_values_equal N m range Usable;
                     m' \<leftarrow> unwrap ins;
                     Some (Inr (), pm \<lparr> pm_map := m' \<rparr>) } }"

definition is_frame_allocated ::
    "('m, MemoryType) nodit_map_ops \<Rightarrow> 'm PhysicalMemory \<Rightarrow> nat \<Rightarrow> bool rust" where
  "is_frame_allocated N pm frame =
     do { b \<leftarrow> add_u64 frame SIZE_4KIB;
          end_addr \<leftarrow> sub_u64 b 1;
          Some (list_ex (\<lambda>(i, _). fst i \<le> frame \<and> snd i \<ge> end_addr) (nm_iter N (pm_map pm))) }"

definition allocate_frame_4kib ::
    "x86_ops \<Rightarrow> ('m, MemoryType) nodit_map_ops \<Rightarrow> 'm PhysicalMemoryFrameAllocator \<Rightarrow>
     (nat option \<times> 'm PhysicalMemoryFrameAllocator) rust" where
  "allocate_frame_4kib X N fa =
     do { (r, pm) \<leftarrow> allocate_frame_with_type X N (fa_physical_memory fa) (fa_memory_type fa);
          Some (r, fa \<lparr> fa_physical_memory := pm \<rparr>) }"

section \<open>The type of every address\<close>

definition type_at :: "('m, MemoryType) nodit_map_ops \<Rightarrow> 'm PhysicalMemory \<Rightarrow> nat \<Rightarrow> MemoryType option" where
  "type_at N pm = value_at (nm_iter N (pm_map pm))"

text \<open>The boot protocol's higher-half offset leaves room for every entry of the memory map.\<close>

definition hhdm_ok :: "nat \<Rightarrow> memmap_entry list \<Rightarrow> bool" where
  "hhdm_ok hhdm es \<longleftrightarrow>
     HIGHER_HALF_START \<le> hhdm \<and> (\<forall>e\<in>set es. hhdm + entry_base e + entry_length e \<le> U64_LIMIT)"

definition in_frame :: "nat \<Rightarrow> nat \<Rightarrow> bool" where
  "in_frame f a \<longleftrightarrow> f \<le> a \<and> a < f + SIZE_4KIB"

text \<open>Memory as the machine can have it: a well-formed interval map whose addresses fit the
  physical address width.\<close>

definition pm_ok :: "('m, MemoryType) nodit_map_ops \<Rightarrow> ('m \<Rightarrow> bool) \<Rightarrow> 'm PhysicalMemory \<Rightarrow> bool" where
  "pm_ok N wfN pm \<longleftrightarrow> wfN (pm_map pm) \<and> (\<forall>a. type_at N pm a \<noteq> None \<longrightarrow> a < PHYS_LIMIT)"

text \<open>The frames the allocator can see: aligned, usable throughout, and followed by one more
  usable byte.\<close>

definition frame_available :: "('m, MemoryType) nodit_map_ops \<Rightarrow> 'm PhysicalMemory \<Rightarrow> nat \<Rightarrow> bool" where
  "frame_available N pm f \<longleftrightarrow>
     f mod SIZE_4KIB = 0 \<and> (\<forall>a. f \<le> a \<and> a \<le> f + SIZE_4KIB \<longrightarrow> type_at N pm a = Some Usable)"

definition retyped ::
    "('m, MemoryType) nodit_map_ops \<Rightarrow> 'm PhysicalMemory \<Rightarrow> nat \<Rightarrow> MemoryType \<Rightarrow> 'm PhysicalMemory \<Rightarrow> bool" where
  "retyped N pm f t pm' \<longleftrightarrow>
     (\<forall>a. type_at N pm' a = (if in_frame f a then Some t else type_at N pm a))"

text \<open>What the memory map says of an address, and the guarantee of the boot protocol that
  usable and reclaimable entries do not overlap.\<close>

definition in_entry :: "memmap_entry \<Rightarrow> nat \<Rightarrow> bool" where
  "in_entry e a \<longleftrightarrow> entry_base e \<le> a \<and> a < entry_base e + entry_length e"

definition tracked :: "memmap_entry \<Rightarrow> bool" where
  "tracked e \<longleftrightarrow> memmap_memory_type (entry_type e) \<noteq> None"

primrec memmap_type :: "memmap_entry list \<Rightarrow> nat \<Rightarrow> MemoryType option" where
  "memmap_type [] a = None"
| "memmap_type (e # es) a =
     (if tracked e \<and> in_entry e a then memmap_memory_type (entry_type e) else memmap_type es a)"

definition memmap_ok :: "memmap_entry list \<Rightarrow> bool" where
  "memmap_ok es \<longleftrightarrow>
     (\<forall>e\<in>set es. tracked e \<longrightarrow> 0 < entry_length e \<and> entry_base e + entry_length e \<le> PHYS_LIMIT) \<and>
     sorted_wrt (\<lambda>e e'. tracked e \<longrightarrow> tracked e' \<longrightarrow>
       entry_base e + entry_length e \<le> entry_base e' \<or> entry_base e' + entry_length e' \<le> entry_base e) es"

lemma memmap_ok_Cons:
  "memmap_ok (e # es) \<longleftrightarrow>
     (tracked e \<longrightarrow> 0 < entry_length e \<and> entry_base e + entry_length e \<le> PHYS_LIMIT \<and>
        (\<forall>e'\<in>set es. tracked e' \<longrightarrow> (\<forall>a. in_entry e a \<longrightarrow> \<not> in_entry e' a))) \<and> memmap_ok es"
  (is "?l \<longleftrightarrow> ?r")
proof
  show "?l \<Longrightarrow> ?r" by (fastforce simp: memmap_ok_def in_entry_def)
  assume r: ?r
  have "entry_base e + entry_length e \<le> entry_base e' \<or> entry_base e' + entry_length e' \<le> entry_base e"
    if "tracked e" "e' \<in> set es" "tracked e'" for e'
  proof (rule ccontr)
    let ?a = "max (entry_base e) (entry_base e')"
    assume "\<not> ?thesis"
    moreover have "0 < entry_length e'" "0 < entry_length e" using r that by (auto simp: memmap_ok_def)
    ultimately have "in_entry e ?a" "in_entry e' ?a" by (auto simp: in_entry_def)
    then show False using r that by blast
  qed
  then show ?l using r by (auto simp: memmap_ok_def)
qed

lemma memmap_type_SomeD: "memmap_type es a = Some t \<Longrightarrow> \<exists>e\<in>set es. tracked e \<and> in_entry e a"
  by (induction es) (auto split: if_splits)

lemma memmap_type_memI:
  "memmap_ok es \<Longrightarrow> e \<in> set es \<Longrightarrow> in_entry e a \<Longrightarrow> memmap_memory_type (entry_type e) = Some t \<Longrightarrow>
   memmap_type es a = Some t"
  by (induction es) (auto simp: memmap_ok_Cons tracked_def)

locale frame_memory = nodit_map N wfN + x86_addr X
  for N :: "('m, MemoryType) nodit_map_ops" and wfN :: "'m \<Rightarrow> bool" and X :: x86_ops
begin

lemma entry_type_at:
  assumes "pm_ok N wfN pm" "((s, e), t) \<in> set (nm_iter N (pm_map pm))" "s \<le> a" "a \<le> e"
  shows "type_at N pm a = Some t"
  using assms value_at_memI [OF iter_ok, of "pm_map pm" "(s, e)" t a]
  by (simp add: pm_ok_def type_at_def)

lemma entry_bounds:
  assumes "pm_ok N wfN pm" "((s, e), t) \<in> set (nm_iter N (pm_map pm))"
  shows "s \<le> e" "e < PHYS_LIMIT"
proof -
  show le: "s \<le> e" using iter_ok [of "pm_map pm"] assms by (auto simp: pm_ok_def ivls_ok_def dest: bspec)
  show "e < PHYS_LIMIT" using entry_type_at [OF assms le] assms(1) by (simp add: pm_ok_def)
qed

lemma retype_ok:
  assumes "pm_ok N wfN pm" "f + SIZE_4KIB \<le> PHYS_LIMIT"
  shows "\<exists>m m'. nm_interval_of_range N f (f + SIZE_4KIB) = Some (f, f + SIZE_4KIB - 1) \<and>
           nm_cut N (pm_map pm) (f, f + SIZE_4KIB - 1) = Some m \<and>
           nm_insert_merge_touching_if_values_equal N m (f, f + SIZE_4KIB - 1) t = Some (Some m') \<and>
           pm_ok N wfN (pm \<lparr> pm_map := m' \<rparr>) \<and> retyped N pm f t (pm \<lparr> pm_map := m' \<rparr>)"
proof -
  let ?i = "(f, f + SIZE_4KIB - 1)"
  have wfN: "wfN (pm_map pm)" and v: "valid_ivl ?i"
    using assms by (auto simp: pm_ok_def SIZE_4KIB_def PHYS_LIMIT_num U64_LIMIT_num)
  have r: "nm_interval_of_range N f (f + SIZE_4KIB) = Some ?i" by (simp add: of_range)
  obtain m where m: "nm_cut N (pm_map pm) ?i = Some m" "wfN m"
      "\<forall>a. value_at (nm_iter N m) a = (if in_ivl a ?i then None else value_at (nm_iter N (pm_map pm)) a)"
    using cut_spec [OF wfN v] by blast
  obtain m' where m': "nm_insert_merge_touching_if_values_equal N m ?i t = Some (Some m')" "wfN m'"
      "\<forall>a. value_at (nm_iter N m') a = (if in_ivl a ?i then Some t else value_at (nm_iter N m) a)"
    using insert_spec [OF m(2) v, of t] m(3) by auto
  have re: "retyped N pm f t (pm \<lparr> pm_map := m' \<rparr>)"
    using m(3) m'(3) by (auto simp: retyped_def type_at_def in_frame_def SIZE_4KIB_def)
  have "a < PHYS_LIMIT" if "type_at N (pm \<lparr> pm_map := m' \<rparr>) a \<noteq> None" for a
    using that re assms by (auto simp: retyped_def pm_ok_def in_frame_def split: if_splits)
  then have "pm_ok N wfN (pm \<lparr> pm_map := m' \<rparr>)" using m'(2) by (simp add: pm_ok_def)
  then show ?thesis using r m(1) m'(1) re by blast
qed

lemma usable_frame_start_ok:
  assumes "pm_ok N wfN pm" "x \<in> set (nm_iter N (pm_map pm))"
  shows "\<exists>r. usable_frame_start x = Some r"
proof -
  obtain s e t where x: "x = ((s, e), t)" by (metis surj_pair)
  have "s \<le> e" "e < PHYS_LIMIT" using entry_bounds assms x by blast+
  then have b: "s + 2 * SIZE_4KIB \<le> U64_LIMIT" by (simp add: PHYS_LIMIT_num SIZE_4KIB_def U64_LIMIT_num)
  then obtain c where c: "next_multiple_of s SIZE_4KIB = Some c"
    using next_multiple_of_ok [of s SIZE_4KIB] by auto
  then have "c + SIZE_4KIB < U64_LIMIT" using next_multiple_of_SomeD [OF c] b by auto
  then show ?thesis using c x by (cases t) (auto simp: usable_frame_start_def add_u64_ok)
qed

lemma usable_frame_start_Some:
  assumes "pm_ok N wfN pm" "x \<in> set (nm_iter N (pm_map pm))" "usable_frame_start x = Some (Some f)"
  shows "frame_available N pm f" "fst (fst x) \<le> f" "f + SIZE_4KIB \<le> snd (fst x)"
    "\<And>g. fst (fst x) \<le> g \<Longrightarrow> g mod SIZE_4KIB = 0 \<Longrightarrow> f \<le> g"
proof -
  obtain s e t where x: "x = ((s, e), t)" by (metis surj_pair)
  then have t: "t = Usable" and n: "next_multiple_of s SIZE_4KIB = Some f" and e: "f + SIZE_4KIB \<le> e"
    using assms(3)
    by (auto simp: usable_frame_start_def rust_SomeD add_u64_def split: MemoryType.splits if_splits)
  from next_multiple_of_SomeD [OF n] have f: "s \<le> f" "f mod SIZE_4KIB = 0" by auto
  show "frame_available N pm f"
    using entry_type_at [OF assms(1) assms(2) [unfolded x]] f e t by (auto simp: frame_available_def)
  show "fst (fst x) \<le> f" "f + SIZE_4KIB \<le> snd (fst x)" using x f e by auto
  show "f \<le> g" if "fst (fst x) \<le> g" "g mod SIZE_4KIB = 0" for g
    using next_multiple_of_least [OF n] that x by simp
qed

lemma available_in_one:
  assumes "pm_ok N wfN pm" "frame_available N pm g"
  shows "\<exists>c d. ((c, d), Usable) \<in> set (nm_iter N (pm_map pm)) \<and> c \<le> g \<and> g + SIZE_4KIB \<le> d"
  using assms uniform_run_in_one [OF iter_ok, of "pm_map pm" g "g + SIZE_4KIB" Usable]
  by (simp add: pm_ok_def frame_available_def type_at_def)

lemma usable_frame_start_NoneD:
  assumes "usable_frame_start ((c, d), Usable) = Some None" "c \<le> g" "g mod SIZE_4KIB = 0"
  shows "d < g + SIZE_4KIB"
proof -
  from assms(1) obtain f where f: "next_multiple_of c SIZE_4KIB = Some f" "d < f + SIZE_4KIB"
    by (auto simp: usable_frame_start_def rust_SomeD add_u64_def split: if_splits)
  then show ?thesis using next_multiple_of_least [OF f(1) _ assms(2,3)] by simp
qed

lemma find_frame_least:
  assumes "pm_ok N wfN pm" "find_map usable_frame_start (nm_iter N (pm_map pm)) = Some (Some f)"
  shows "frame_available N pm f" "\<forall>g. frame_available N pm g \<longrightarrow> f \<le> g"
proof -
  let ?xs = "nm_iter N (pm_map pm)"
  from find_map_SomeD [OF assms(2)] obtain ys x zs where xs: "?xs = ys @ x # zs"
      and x: "usable_frame_start x = Some (Some f)" and ys: "\<forall>z\<in>set ys. usable_frame_start z = Some None"
    by (elim exE conjE) rule
  have mem: "x \<in> set ?xs" using xs by simp
  note s = usable_frame_start_Some [OF assms(1) mem x]
  show "frame_available N pm f" by (rule s(1))
  show "\<forall>g. frame_available N pm g \<longrightarrow> f \<le> g"
  proof (intro allI impI)
    fix g assume g: "frame_available N pm g"
    then have al: "g mod SIZE_4KIB = 0" by (simp add: frame_available_def)
    from available_in_one [OF assms(1) g] obtain c d
      where cd: "((c, d), Usable) \<in> set ?xs" "c \<le> g" "g + SIZE_4KIB \<le> d" by blast
    have "ivls_ok ?xs" using iter_ok assms(1) by (simp add: pm_ok_def)
    then have later: "snd (fst x) < fst (fst z)" if "z \<in> set zs" for z
      using that by (simp add: xs ivls_ok_append ivls_ok_Cons ivl_before_def)
    consider "((c, d), Usable) \<in> set ys" | "((c, d), Usable) = x" | "((c, d), Usable) \<in> set zs"
      using cd(1) xs by auto
    then show "f \<le> g"
    proof cases
      case 1
      then show ?thesis using usable_frame_start_NoneD [OF _ cd(2) al] ys cd(3) by (meson bspec not_le)
    next
      case 2
      then show ?thesis using s(4) [OF _ al] cd(2) by auto
    next
      case 3
      then show ?thesis using later [OF 3] s(3) cd(2) by simp
    qed
  qed
qed

lemma find_frame_none:
  assumes "pm_ok N wfN pm" "find_map usable_frame_start (nm_iter N (pm_map pm)) = Some None"
  shows "\<not> frame_available N pm g"
proof
  assume g: "frame_available N pm g"
  from available_in_one [OF assms(1) g] obtain c d where cd:
    "((c, d), Usable) \<in> set (nm_iter N (pm_map pm))" "c \<le> g" "g + SIZE_4KIB \<le> d" by blast
  then have "usable_frame_start ((c, d), Usable) = Some None"
    using find_map_NoneD [OF assms(2)] by blast
  then show False
    using usable_frame_start_NoneD [OF _ cd(2)] g cd(3) by (metis frame_available_def not_le)
qed

lemma available_bound:
  assumes "pm_ok N wfN pm" "frame_available N pm f"
  shows "f + SIZE_4KIB < PHYS_LIMIT"
proof -
  have "type_at N pm (f + SIZE_4KIB) = Some Usable" using assms(2) by (simp add: frame_available_def)
  then show ?thesis using assms(1) by (simp add: pm_ok_def)
qed

text \<open>Allocation completes; it takes the lowest available frame and retypes exactly that frame,
  or leaves memory alone when there is none.\<close>

lemma allocate_frame_spec:
  assumes "pm_ok N wfN pm"
  shows "(\<exists>f pm'. allocate_frame_with_type X N pm t = Some (Some f, pm') \<and> frame_available N pm f \<and>
             (\<forall>g. frame_available N pm g \<longrightarrow> f \<le> g) \<and> pm_ok N wfN pm' \<and> retyped N pm f t pm')
         \<or> allocate_frame_with_type X N pm t = Some (None, pm) \<and> (\<forall>g. \<not> frame_available N pm g)"
proof -
  have "find_map usable_frame_start (nm_iter N (pm_map pm)) \<noteq> panic"
    using usable_frame_start_ok [OF assms] by (intro find_map_ok) force
  then obtain r where r: "find_map usable_frame_start (nm_iter N (pm_map pm)) = Some r" by auto
  show ?thesis
  proof (cases r)
    case None
    then show ?thesis using r find_frame_none [OF assms] by (simp add: allocate_frame_with_type_def)
  next
    case (Some f)
    then have f: "frame_available N pm f" "\<forall>g. frame_available N pm g \<longrightarrow> f \<le> g"
      using find_frame_least [OF assms] r by simp_all
    have b: "f + SIZE_4KIB < PHYS_LIMIT" by (rule available_bound [OF assms f(1)])
    then have a: "add_u64 f SIZE_4KIB = Some (f + SIZE_4KIB)"
      by (intro add_u64_ok) (simp add: PHYS_LIMIT_num U64_LIMIT_num)
    have p: "phys_addr_new X f = Some f" "frame_containing_address X f = f"
      using b phys_new f(1) frame_aligned by (simp_all add: frame_available_def)
    from retype_ok [OF assms, of f t] b
    show ?thesis using r Some a p f by (auto simp: allocate_frame_with_type_def)
  qed
qed

lemma find_containing_entry:
  assumes "pm_ok N wfN pm" "\<forall>a. in_frame f a \<longrightarrow> type_at N pm a = Some t"
  shows "\<exists>i. find (\<lambda>(i, _). fst i \<le> f \<and> snd i \<ge> f + SIZE_4KIB - 1) (nm_iter N (pm_map pm)) = Some (i, t)"
proof -
  let ?P = "\<lambda>(i :: interval, _ :: MemoryType). fst i \<le> f \<and> snd i \<ge> f + SIZE_4KIB - 1"
  let ?xs = "nm_iter N (pm_map pm)"
  have "\<exists>c d. ((c, d), t) \<in> set ?xs \<and> c \<le> f \<and> f + SIZE_4KIB - 1 \<le> d"
    using assms by (intro uniform_run_in_one iter_ok) (auto simp: pm_ok_def type_at_def in_frame_def SIZE_4KIB_def)
  then obtain c d where "((c, d), t) \<in> set ?xs" "?P ((c, d), t)" by auto
  from find_exists [of _ _ ?P, OF this] obtain s e u where u: "find ?P ?xs = Some ((s, e), u)" by auto
  from find_SomeD [OF this] have "((s, e), u) \<in> set ?xs" "s \<le> f" "f + SIZE_4KIB - 1 \<le> e" by auto
  then have "type_at N pm f = Some u" using assms(1) by (intro entry_type_at) (auto simp: SIZE_4KIB_def)
  then have "u = t" using assms(2) by (auto simp: in_frame_def)
  then show ?thesis using u by blast
qed

lemma find_containing_entry_none:
  assumes "pm_ok N wfN pm" "\<not> (\<exists>t. \<forall>a. in_frame f a \<longrightarrow> type_at N pm a = Some t)"
  shows "find (\<lambda>(i, _). fst i \<le> f \<and> snd i \<ge> f + SIZE_4KIB - 1) (nm_iter N (pm_map pm)) = None"
proof (rule ccontr)
  assume "\<not> ?thesis"
  then obtain s e u where "find (\<lambda>(i, _). fst i \<le> f \<and> snd i \<ge> f + SIZE_4KIB - 1)
      (nm_iter N (pm_map pm)) = Some ((s, e), u)" by auto
  from find_SomeD [OF this]
  have "((s, e), u) \<in> set (nm_iter N (pm_map pm))" "s \<le> f" "f + SIZE_4KIB - 1 \<le> e" by auto
  then have "\<forall>a. in_frame f a \<longrightarrow> type_at N pm a = Some u"
    using entry_type_at [OF assms(1)] by (auto simp: in_frame_def SIZE_4KIB_def)
  then show False using assms(2) by blast
qed

lemma free_frame_arith:
  "f + SIZE_4KIB \<le> PHYS_LIMIT \<Longrightarrow>
   add_u64 f SIZE_4KIB = Some (f + SIZE_4KIB) \<and> sub_u64 (f + SIZE_4KIB) 1 = Some (f + SIZE_4KIB - 1)"
  by (simp add: add_u64_def sub_u64_def PHYS_LIMIT_num U64_LIMIT_num SIZE_4KIB_def)

text \<open>Freeing a frame: the three outcomes, by the types of the frame's addresses.\<close>

lemma free_frame_spec:
  assumes "pm_ok N wfN pm" "f + SIZE_4KIB \<le> PHYS_LIMIT"
  shows "(\<forall>a. in_frame f a \<longrightarrow> type_at N pm a = Some t) \<Longrightarrow>
           \<exists>pm'. free_frame N pm f t = Some (Inr (), pm') \<and> pm_ok N wfN pm' \<and> retyped N pm f Usable pm'"
    and "(\<forall>a. in_frame f a \<longrightarrow> type_at N pm a = Some u) \<Longrightarrow> u \<noteq> t \<Longrightarrow>
           free_frame N pm f t = Some (Inl (WrongMemoryType t u), pm)"
    and "\<not> (\<exists>u. \<forall>a. in_frame f a \<longrightarrow> type_at N pm a = Some u) \<Longrightarrow>
           free_frame N pm f t = Some (Inl FrameNotAllocated, pm)"
proof -
  note a = free_frame_arith [OF assms(2)]
  show "\<exists>pm'. free_frame N pm f t = Some (Inr (), pm') \<and> pm_ok N wfN pm' \<and> retyped N pm f Usable pm'"
    if "\<forall>a. in_frame f a \<longrightarrow> type_at N pm a = Some t"
    using a find_containing_entry [OF assms(1) that] retype_ok [OF assms, of Usable]
    by (auto simp: free_frame_def)
  show "free_frame N pm f t = Some (Inl (WrongMemoryType t u), pm)"
    if "\<forall>a. in_frame f a \<longrightarrow> type_at N pm a = Some u" "u \<noteq> t"
    using a find_containing_entry [OF assms(1) that(1)] that(2) by (auto simp: free_frame_def)
  show "free_frame N pm f t = Some (Inl FrameNotAllocated, pm)"
    if "\<not> (\<exists>u. \<forall>a. in_frame f a \<longrightarrow> type_at N pm a = Some u)"
    using a find_containing_entry_none [OF assms(1) that] by (auto simp: free_frame_def)
qed

lemma insert_memmap_entries:
  assumes "memmap_ok es" "wfN m"
    "\<forall>e\<in>set es. tracked e \<longrightarrow> (\<forall>a. in_entry e a \<longrightarrow> value_at (nm_iter N m) a = None)"
  shows "\<exists>m'. fold_rust (insert_memmap_entry N) es m = Some m' \<and> wfN m' \<and>
    (\<forall>a. value_at (nm_iter N m') a
          = (case memmap_type es a of None \<Rightarrow> value_at (nm_iter N m) a | Some t \<Rightarrow> Some t))"
  using assms
proof (induction es arbitrary: m)
  case (Cons e es)
  show ?case
  proof (cases "memmap_memory_type (entry_type e)")
    case None
    then have "\<not> tracked e" "insert_memmap_entry N e m = Some m"
      by (simp_all add: tracked_def insert_memmap_entry_def)
    moreover have "memmap_ok es" using Cons.prems(1) by (simp add: memmap_ok_Cons)
    ultimately show ?thesis using Cons.IH [of m] Cons.prems(2,3) by simp
  next
    case (Some t)
    let ?i = "(entry_base e, entry_base e + entry_length e - 1)"
    have tr: "tracked e" using Some by (simp add: tracked_def)
    have l: "0 < entry_length e" "entry_base e + entry_length e \<le> PHYS_LIMIT" and es: "memmap_ok es"
      using Cons.prems(1) tr by (simp_all add: memmap_ok_Cons)
    have v: "valid_ivl ?i" using l by (auto simp: PHYS_LIMIT_num U64_LIMIT_num)
    have in_i: "in_ivl a ?i = in_entry e a" for a using l(1) by (auto simp: in_entry_def)
    have free: "\<forall>a. in_ivl a ?i \<longrightarrow> value_at (nm_iter N m) a = None"
      using Cons.prems(3) tr unfolding in_i by simp
    from insert_spec [OF Cons.prems(2) v free, of t] obtain m1
      where m1: "nm_insert_merge_touching_if_values_equal N m ?i t = Some (Some m1)" "wfN m1"
        "\<forall>a. value_at (nm_iter N m1) a = (if in_entry e a then Some t else value_at (nm_iter N m) a)"
      unfolding in_i by blast
    have step: "insert_memmap_entry N e m = Some m1"
      using Some l m1(1) by (simp add: insert_memmap_entry_def add_u64_def of_range PHYS_LIMIT_num U64_LIMIT_num)
    have apart: "\<not> in_entry e' a" if "e' \<in> set es" "tracked e'" "in_entry e a" for e' a
      using Cons.prems(1) tr that by (auto simp: memmap_ok_Cons)
    have "\<forall>e'\<in>set es. tracked e' \<longrightarrow> (\<forall>a. in_entry e' a \<longrightarrow> value_at (nm_iter N m1) a = None)"
      using Cons.prems(3) m1(3) apart by auto
    from Cons.IH [OF es m1(2) this] obtain m' where
      m': "fold_rust (insert_memmap_entry N) es m1 = Some m'" "wfN m'"
        "\<forall>a. value_at (nm_iter N m') a
             = (case memmap_type es a of None \<Rightarrow> value_at (nm_iter N m1) a | Some t \<Rightarrow> Some t)" by blast
    have "memmap_type es a = None" if "in_entry e a" for a
      using memmap_type_SomeD [of es a] apart that by (cases "memmap_type es a") auto
    then have "\<forall>a. value_at (nm_iter N m') a
        = (case memmap_type (e # es) a of None \<Rightarrow> value_at (nm_iter N m) a | Some t \<Rightarrow> Some t)"
      using m'(3) m1(3) tr Some by (simp split: option.split)
    moreover have "fold_rust (insert_memmap_entry N) (e # es) m = Some m'" using step m'(1) by simp
    ultimately show ?thesis using m'(2) by blast
  qed
qed auto

text \<open>The initial map: the heap region belongs to the kernel, every other address has the type
  the memory map gives it.\<close>

lemma PhysicalMemory_new_spec:
  assumes "memmap_ok es" "g + GLOBAL_ALLOCATOR_SIZE \<le> PHYS_LIMIT"
  shows "\<exists>pm. PhysicalMemory_new N es g = Some pm \<and> pm_ok N wfN pm \<and>
    (\<forall>a. type_at N pm a = (if g \<le> a \<and> a < g + GLOBAL_ALLOCATOR_SIZE
                            then Some (UsedByKernel GlobalAllocatorHeap) else memmap_type es a))"
proof -
  let ?i = "(g, g + GLOBAL_ALLOCATOR_SIZE - 1)"
  have pos: "0 < GLOBAL_ALLOCATOR_SIZE" by (simp add: GLOBAL_ALLOCATOR_SIZE_def)
  have v: "valid_ivl ?i" using assms(2) pos by (auto simp: PHYS_LIMIT_num U64_LIMIT_num)
  have in_i: "in_ivl a ?i \<longleftrightarrow> g \<le> a \<and> a < g + GLOBAL_ALLOCATOR_SIZE" for a using pos by auto
  obtain m where m: "fold_rust (insert_memmap_entry N) es (nm_default N) = Some m" "wfN m"
      "\<forall>a. value_at (nm_iter N m) a = memmap_type es a"
    using insert_memmap_entries [OF assms(1) default_wf]
    by (auto simp: default_empty option.case_eq_if)
  from cut_spec [OF m(2) v] obtain m1 where m1: "nm_cut N m ?i = Some m1" "wfN m1"
      "\<forall>a. value_at (nm_iter N m1) a = (if in_ivl a ?i then None else value_at (nm_iter N m) a)" by blast
  then have "\<forall>a. in_ivl a ?i \<longrightarrow> value_at (nm_iter N m1) a = None" by simp
  from insert_spec [OF m1(2) v this, of "UsedByKernel GlobalAllocatorHeap"] obtain m2
    where m2: "nm_insert_merge_touching_if_values_equal N m1 ?i (UsedByKernel GlobalAllocatorHeap)
                 = Some (Some m2)" "wfN m2"
      "\<forall>a. value_at (nm_iter N m2) a = (if in_ivl a ?i then Some (UsedByKernel GlobalAllocatorHeap)
                                         else value_at (nm_iter N m1) a)" by blast
  let ?pm = "\<lparr> pm_map = m2 \<rparr>"
  have ty: "type_at N ?pm a = (if g \<le> a \<and> a < g + GLOBAL_ALLOCATOR_SIZE
              then Some (UsedByKernel GlobalAllocatorHeap) else memmap_type es a)" for a
    using m2(3) m1(3) m(3) unfolding in_i by (simp add: type_at_def)
  have "a < PHYS_LIMIT" if "type_at N ?pm a \<noteq> None" for a
    using that ty [of a] assms memmap_type_SomeD [of es a]
    by (fastforce simp: memmap_ok_def in_entry_def split: if_splits)
  then have "pm_ok N wfN ?pm" using m2(2) by (simp add: pm_ok_def)
  moreover have "PhysicalMemory_new N es g = Some ?pm"
    using m(1) m1(1) m2(1) assms(2) pos
    by (simp add: PhysicalMemory_new_def add_u64_def of_range PHYS_LIMIT_num U64_LIMIT_num)
  ultimately show ?thesis using ty by blast
qed

lemma hhdm_mapped:
  assumes "HIGHER_HALF_START \<le> hhdm" "a + hhdm < U64_LIMIT"
  shows "phys_offset_mapped X hhdm a = Some (a + hhdm)"
proof -
  have "canonical (a + hhdm)" using assms by (simp add: canonical_num HIGHER_HALF_START_def)
  then show ?thesis using assms(2) by (simp add: phys_offset_mapped_def add_u64_def virt_new)
qed

lemma global_allocator_init_spec:
  assumes "memmap_ok es" "e0 \<in> set es" "entry_type e0 = USABLE" "GLOBAL_ALLOCATOR_SIZE \<le> entry_length e0"
    "hhdm_ok hhdm es" "\<forall>v. v \<noteq> 0 \<longrightarrow> claim v GLOBAL_ALLOCATOR_SIZE"
  shows "\<exists>g. global_allocator_init X claim hhdm es = Some g \<and> g + GLOBAL_ALLOCATOR_SIZE \<le> PHYS_LIMIT \<and>
    (\<exists>e\<in>set es. entry_type e = USABLE \<and> entry_base e = g \<and> GLOBAL_ALLOCATOR_SIZE \<le> entry_length e)"
proof -
  let ?P = "\<lambda>e. entry_type e = USABLE \<and> entry_length e \<ge> GLOBAL_ALLOCATOR_SIZE"
  from find_exists [of e0 es ?P] assms obtain e where e: "find ?P es = Some e" by auto
  from find_SomeD [OF this] have m: "e \<in> set es" "entry_type e = USABLE" "GLOBAL_ALLOCATOR_SIZE \<le> entry_length e"
    by auto
  then have l: "entry_base e + entry_length e \<le> PHYS_LIMIT" "0 < entry_length e"
    using assms(1) by (auto simp: memmap_ok_def tracked_def memmap_memory_type_def)
  then have b: "phys_addr_new X (entry_base e) = Some (entry_base e)"
      "entry_base e + GLOBAL_ALLOCATOR_SIZE \<le> PHYS_LIMIT"
    using m by (auto intro: phys_new)
  have "phys_offset_mapped X hhdm (entry_base e) = Some (entry_base e + hhdm)" "entry_base e + hhdm \<noteq> 0"
    using assms(5) l m(1) by (auto intro!: hhdm_mapped simp: hhdm_ok_def HIGHER_HALF_START_def)
  then show ?thesis using e m b assms(6) by (auto simp: global_allocator_init_def)
qed

end

interpretation list_memory: frame_memory list_map_ops ivls_ok x86_arith_ops
  by standard

lemma retyped_frame: "retyped N pm f t pm' \<Longrightarrow> in_frame f a \<Longrightarrow> type_at N pm' a = Some t"
  by (simp add: retyped_def)

lemma available_usable: "frame_available N pm f \<Longrightarrow> in_frame f a \<Longrightarrow> type_at N pm a = Some Usable"
  by (simp add: frame_available_def in_frame_def)

section \<open>Properties\<close>

text \<open>C2. Frame allocation never panics. When some aligned frame is usable together with the byte
  after it, the lowest such frame is returned, the addresses of that frame and no others change to
  the requested type, and the memory map stays well formed; otherwise the call reports exhaustion
  and changes nothing.\<close>

theorem allocate_frame_lowest:
  assumes "frame_memory N wfN X" "pm_ok N wfN pm"
  shows "(\<exists>f pm'. allocate_frame_with_type X N pm t = Some (Some f, pm') \<and> frame_available N pm f \<and>
             (\<forall>g. frame_available N pm g \<longrightarrow> f \<le> g) \<and> pm_ok N wfN pm' \<and> retyped N pm f t pm')
         \<or> allocate_frame_with_type X N pm t = Some (None, pm) \<and> (\<forall>g. \<not> frame_available N pm g)"
  using assms by (rule frame_memory.allocate_frame_spec)

definition sample_memory :: "(interval \<times> MemoryType) list PhysicalMemory" where
  "sample_memory = \<lparr> pm_map = [((0x1800, 0x5FFF), Usable), ((0x6000, 0x6FFF), UsedByUserMode),
                               ((0x7000, 0x7FFF), Usable)] \<rparr>"

lemma sample_memory_ok: "pm_ok list_map_ops ivls_ok sample_memory"
  by (auto simp: pm_ok_def sample_memory_def ivls_ok_def ivl_before_def type_at_def list_map_ops_def
      U64_LIMIT_num PHYS_LIMIT_num split: if_splits)

theorem allocate_frame_lowest_witness:
  "\<exists>f pm'. allocate_frame_with_type x86_arith_ops list_map_ops sample_memory UsedByUserMode = Some (Some f, pm') \<and>
     frame_available list_map_ops sample_memory f \<and> pm_ok list_map_ops ivls_ok pm' \<and>
     retyped list_map_ops sample_memory f UsedByUserMode pm'"
proof -
  have "frame_available list_map_ops sample_memory 0x2000"
    by (auto simp: frame_available_def SIZE_4KIB_def type_at_def sample_memory_def list_map_ops_def)
  then show ?thesis
    using allocate_frame_lowest [OF list_memory.frame_memory_axioms sample_memory_ok, of UsedByUserMode] by blast
qed

text \<open>C27. Freeing a frame never panics and has exactly three outcomes. A frame whose addresses all
  have the expected type becomes usable, with every other address untouched. A frame of another
  single type is reported with that type and nothing changes. Every other frame is reported as not
  allocated and nothing changes.\<close>

theorem free_frame_outcomes:
  assumes "frame_memory N wfN X" "pm_ok N wfN pm" "f + SIZE_4KIB \<le> PHYS_LIMIT"
  shows "((\<forall>a. in_frame f a \<longrightarrow> type_at N pm a = Some t) \<longrightarrow>
           (\<exists>pm'. free_frame N pm f t = Some (Inr (), pm') \<and> pm_ok N wfN pm' \<and> retyped N pm f Usable pm')) \<and>
         (\<forall>u. (\<forall>a. in_frame f a \<longrightarrow> type_at N pm a = Some u) \<longrightarrow> u \<noteq> t \<longrightarrow>
           free_frame N pm f t = Some (Inl (WrongMemoryType t u), pm)) \<and>
         ((\<nexists>u. \<forall>a. in_frame f a \<longrightarrow> type_at N pm a = Some u) \<longrightarrow>
           free_frame N pm f t = Some (Inl FrameNotAllocated, pm))"
  using frame_memory.free_frame_spec [OF assms] by blast

theorem free_frame_outcomes_witness:
  "(\<exists>pm'. free_frame list_map_ops sample_memory 0x6000 UsedByUserMode = Some (Inr (), pm') \<and>
      pm_ok list_map_ops ivls_ok pm' \<and> retyped list_map_ops sample_memory 0x6000 Usable pm') \<and>
   free_frame list_map_ops sample_memory 0x6000 SharedBuffer
     = Some (Inl (WrongMemoryType SharedBuffer UsedByUserMode), sample_memory) \<and>
   free_frame list_map_ops sample_memory 0x9000 SharedBuffer = Some (Inl FrameNotAllocated, sample_memory)"
proof -
  have b: "(0x6000::nat) + SIZE_4KIB \<le> PHYS_LIMIT" "(0x9000::nat) + SIZE_4KIB \<le> PHYS_LIMIT"
    by (simp_all add: SIZE_4KIB_def PHYS_LIMIT_num)
  have ty: "\<forall>a. in_frame 0x6000 a \<longrightarrow> type_at list_map_ops sample_memory a = Some UsedByUserMode"
    by (auto simp: in_frame_def SIZE_4KIB_def type_at_def sample_memory_def list_map_ops_def)
  have no: "\<nexists>u. \<forall>a. in_frame 0x9000 a \<longrightarrow> type_at list_map_ops sample_memory a = Some u"
    by (auto simp: in_frame_def SIZE_4KIB_def type_at_def sample_memory_def list_map_ops_def)
  show ?thesis
    using free_frame_outcomes [OF list_memory.frame_memory_axioms sample_memory_ok b(1), of UsedByUserMode]
      free_frame_outcomes [OF list_memory.frame_memory_axioms sample_memory_ok b(1), of SharedBuffer]
      free_frame_outcomes [OF list_memory.frame_memory_axioms sample_memory_ok b(2), of SharedBuffer] ty no
    by auto
qed

text \<open>Allocating a frame and freeing it with the type it was allocated with succeeds and gives
  every address the type it had before.\<close>

theorem allocate_free_roundtrip:
  assumes "frame_memory N wfN X" "pm_ok N wfN pm"
    "allocate_frame_with_type X N pm t = Some (Some f, pm1)"
  shows "\<exists>pm2. free_frame N pm1 f t = Some (Inr (), pm2) \<and> pm_ok N wfN pm2 \<and> type_at N pm2 = type_at N pm"
proof -
  from frame_memory.allocate_frame_spec [OF assms(1,2), of t] assms(3)
  have s: "frame_available N pm f" "pm_ok N wfN pm1" "retyped N pm f t pm1" by auto
  have b: "f + SIZE_4KIB \<le> PHYS_LIMIT" using frame_memory.available_bound [OF assms(1,2) s(1)] by simp
  from frame_memory.free_frame_spec(1) [OF assms(1) s(2) b] retyped_frame [OF s(3)]
  obtain pm2 where "free_frame N pm1 f t = Some (Inr (), pm2)" "pm_ok N wfN pm2" "retyped N pm1 f Usable pm2"
    by blast
  moreover have "type_at N pm2 = type_at N pm"
    using calculation(3) s(3) available_usable [OF s(1)] by (auto simp: retyped_def fun_eq_iff)
  ultimately show ?thesis by blast
qed

theorem allocate_free_roundtrip_witness:
  "\<exists>f pm1 pm2. allocate_frame_with_type x86_arith_ops list_map_ops sample_memory SharedBuffer = Some (Some f, pm1) \<and>
     free_frame list_map_ops pm1 f SharedBuffer = Some (Inr (), pm2) \<and>
     type_at list_map_ops pm2 = type_at list_map_ops sample_memory"
proof -
  let ?r = "allocate_frame_with_type x86_arith_ops list_map_ops sample_memory SharedBuffer"
  obtain f pm1 where "?r = Some (Some f, pm1)"
    by (simp add: allocate_frame_with_type_def sample_memory_def list_map_ops_def usable_frame_start_def
        next_multiple_of_def SIZE_4KIB_def add_u64_def U64_LIMIT_num lm_cut_def lm_insert_def
        cut_ivls_def ivl_overlaps_def x86_arith_ops_def PHYS_LIMIT_num)
  then show ?thesis
    using allocate_free_roundtrip [OF list_memory.frame_memory_axioms sample_memory_ok] by blast
qed

text \<open>Boot. When the boot protocol's memory map has non-overlapping usable and reclaimable
  entries, one usable entry can hold the heap and the heap allocator accepts a span of that size, choosing the heap region and building the map
  both complete. The heap region was usable, it now belongs to the kernel heap, and every other
  address has the type its entry gives it.\<close>

theorem boot_memory_map:
  assumes "frame_memory N wfN X" "memmap_ok es"
    "e0 \<in> set es" "entry_type e0 = USABLE" "GLOBAL_ALLOCATOR_SIZE \<le> entry_length e0"
    "hhdm_ok hhdm es" "\<forall>v. v \<noteq> 0 \<longrightarrow> claim v GLOBAL_ALLOCATOR_SIZE"
  shows "\<exists>g pm. global_allocator_init X claim hhdm es = Some g \<and> PhysicalMemory_new N es g = Some pm \<and> pm_ok N wfN pm \<and>
    (\<forall>a. g \<le> a \<and> a < g + GLOBAL_ALLOCATOR_SIZE \<longrightarrow>
       memmap_type es a = Some Usable \<and> type_at N pm a = Some (UsedByKernel GlobalAllocatorHeap)) \<and>
    (\<forall>a. \<not> (g \<le> a \<and> a < g + GLOBAL_ALLOCATOR_SIZE) \<longrightarrow> type_at N pm a = memmap_type es a)"
proof -
  from frame_memory.global_allocator_init_spec [where claim = claim, OF assms] obtain g e where
    g: "global_allocator_init X claim hhdm es = Some g" "g + GLOBAL_ALLOCATOR_SIZE \<le> PHYS_LIMIT"
    and e: "e \<in> set es" "entry_type e = USABLE" "entry_base e = g" "GLOBAL_ALLOCATOR_SIZE \<le> entry_length e"
    by blast
  from frame_memory.PhysicalMemory_new_spec [OF assms(1,2) g(2)] obtain pm where
    "PhysicalMemory_new N es g = Some pm" "pm_ok N wfN pm"
    "\<forall>a. type_at N pm a = (if g \<le> a \<and> a < g + GLOBAL_ALLOCATOR_SIZE
        then Some (UsedByKernel GlobalAllocatorHeap) else memmap_type es a)" by blast
  moreover have "memmap_type es a = Some Usable" if "g \<le> a \<and> a < g + GLOBAL_ALLOCATOR_SIZE" for a
    using that e by (intro memmap_type_memI [OF assms(2) e(1)])
      (auto simp: in_entry_def memmap_memory_type_def)
  ultimately show ?thesis using g(1) by auto
qed

definition sample_memmap :: "memmap_entry list" where
  "sample_memmap =
     [ \<lparr> entry_base = 0x1000, entry_length = 0x9F000, entry_type = USABLE \<rparr>,
       \<lparr> entry_base = 0xA0000, entry_length = 0x60000, entry_type = RESERVED \<rparr>,
       \<lparr> entry_base = 0x100000, entry_length = 0x800000, entry_type = USABLE \<rparr>,
       \<lparr> entry_base = 0x900000, entry_length = 0x10000, entry_type = BOOTLOADER_RECLAIMABLE \<rparr> ]"

theorem boot_memory_map_witness:
  "\<exists>g pm. global_allocator_init x86_arith_ops (\<lambda>v n. True) 0xFFFF800000000000 sample_memmap = Some g \<and>
     PhysicalMemory_new list_map_ops sample_memmap g = Some pm \<and> pm_ok list_map_ops ivls_ok pm"
proof -
  have ok: "memmap_ok sample_memmap"
    by (simp add: memmap_ok_def sample_memmap_def tracked_def memmap_memory_type_def PHYS_LIMIT_num)
  have "sample_memmap ! 2 \<in> set sample_memmap" "entry_type (sample_memmap ! 2) = USABLE"
    "GLOBAL_ALLOCATOR_SIZE \<le> entry_length (sample_memmap ! 2)"
    by (simp_all add: sample_memmap_def GLOBAL_ALLOCATOR_SIZE_def)
  from boot_memory_map [OF list_memory.frame_memory_axioms ok this, of "0xFFFF800000000000" "\<lambda>v n. True"]
  show ?thesis by (auto simp: hhdm_ok_def HIGHER_HALF_START_def sample_memmap_def U64_LIMIT_num)
qed

end
