(* ===== verification/Virtual_Memory.thy ===== *)
theory Virtual_Memory
  imports Nodit_Interface X86_Interface Physical_Memory
begin

text \<open>
  The allocators of virtual address space: the kernel's \<^verbatim>\<open>VirtualMemoryAllocator\<close> of
  \<^verbatim>\<open>memory/vaddr_allocator.rs\<close> and the per-task allocator of \<^verbatim>\<open>memory/user_vaddr.rs\<close>.
  Both keep the allocated addresses in a \<^verbatim>\<open>NoditSet\<close> (parameter \<open>S\<close>) and take the first gap
  that holds the pages at an aligned start.
\<close>

section \<open>Data\<close>

definition LOWER_HALF_END :: nat where
  "LOWER_HALF_END = 0x7FFFFFFFFFFF"

definition USER_MIN :: nat where
  "USER_MIN = 0x1000"

definition USER_MAX :: nat where
  "USER_MAX = LOWER_HALF_END"

text \<open>The top of the address space that \<^verbatim>\<open>create_page_tables\<close> reserves for the kernel image.\<close>

definition KERNEL_RESERVED_START :: nat where
  "KERNEL_RESERVED_START = 0xFFFFFF8000000000"

record 's VirtualMemoryAllocator =
  vm_set :: 's
  vm_l4_phys_frame :: nat

section \<open>Operations\<close>

text \<open>The closure both allocators search the gaps with.\<close>

definition page_gap :: "'s nodit_set_ops \<Rightarrow> nat \<Rightarrow> interval \<Rightarrow> interval option rust" where
  "page_gap S total_bytes gap =
     do { aligned_start \<leftarrow> next_multiple_of (fst gap) SIZE_4KIB;
          b \<leftarrow> add_u64 aligned_start total_bytes;
          end_addr \<leftarrow> sub_u64 b 1;
          interval \<leftarrow> ns_ii S aligned_start end_addr;
          Some (if ns_contains_interval S gap interval then Some interval else None) }"

definition allocate_contiguous_pages_in_range ::
    "x86_ops \<Rightarrow> 's nodit_set_ops \<Rightarrow> 's VirtualMemoryAllocator \<Rightarrow> interval \<Rightarrow> nat \<Rightarrow>
     (nat option \<times> 's VirtualMemoryAllocator) rust" where
  "allocate_contiguous_pages_in_range X S vm rng n_pages =
     do { total_bytes \<leftarrow> mul_u64 n_pages SIZE_4KIB;
          gaps \<leftarrow> ns_gaps_trimmed S (vm_set vm) rng;
          r \<leftarrow> find_map (page_gap S total_bytes) gaps;
          case r of
            None \<Rightarrow> Some (None, vm)
          | Some interval \<Rightarrow>
              do { ins \<leftarrow> ns_insert_merge_touching S (vm_set vm) interval;
                   s \<leftarrow> unwrap ins;
                   v \<leftarrow> virt_addr_new X (fst interval);
                   Some (Some (page_containing_address X v), vm \<lparr> vm_set := s \<rparr>) } }"

definition allocate_kernel_contiguous_pages ::
    "x86_ops \<Rightarrow> 's nodit_set_ops \<Rightarrow> 's VirtualMemoryAllocator \<Rightarrow> nat \<Rightarrow>
     (nat option \<times> 's VirtualMemoryAllocator) rust" where
  "allocate_kernel_contiguous_pages X S vm n_pages =
     allocate_contiguous_pages_in_range X S vm (HIGHER_HALF_START, u64_MAX) n_pages"

definition allocate_user_contiguous_pages ::
    "x86_ops \<Rightarrow> 's nodit_set_ops \<Rightarrow> 's VirtualMemoryAllocator \<Rightarrow> nat \<Rightarrow>
     (nat option \<times> 's VirtualMemoryAllocator) rust" where
  "allocate_user_contiguous_pages X S vm n_pages =
     allocate_contiguous_pages_in_range X S vm (USER_MIN, USER_MAX) n_pages"

definition free_kernel_pages ::
    "'s nodit_set_ops \<Rightarrow> 's VirtualMemoryAllocator \<Rightarrow> nat \<Rightarrow> nat \<Rightarrow> 's VirtualMemoryAllocator rust" where
  "free_kernel_pages S vm start n_pages =
     do { total_bytes \<leftarrow> mul_u64 n_pages SIZE_4KIB;
          b \<leftarrow> add_u64 start total_bytes;
          end_addr \<leftarrow> sub_u64 b 1;
          interval \<leftarrow> ns_ii S start end_addr;
          s \<leftarrow> ns_cut S (vm_set vm) interval;
          Some (vm \<lparr> vm_set := s \<rparr>) }"

definition allocate_user_pages :: "'s nodit_set_ops \<Rightarrow> 's \<Rightarrow> nat \<Rightarrow> (nat option \<times> 's) rust" where
  "allocate_user_pages S vset n_pages =
     do { total_bytes \<leftarrow> mul_u64 n_pages SIZE_4KIB;
          gaps \<leftarrow> ns_gaps_trimmed S vset (USER_MIN, USER_MAX);
          r \<leftarrow> find_map (page_gap S total_bytes) gaps;
          case r of
            None \<Rightarrow> Some (None, vset)
          | Some interval \<Rightarrow>
              do { ins \<leftarrow> ns_insert_merge_touching S vset interval;
                   s \<leftarrow> unwrap ins;
                   Some (Some (fst interval), s) } }"

definition free_user_pages :: "'s nodit_set_ops \<Rightarrow> 's \<Rightarrow> nat \<Rightarrow> nat \<Rightarrow> (bool \<times> 's) rust" where
  "free_user_pages S vset addr sz =
     do { b \<leftarrow> add_u64 addr sz;
          end_addr \<leftarrow> sub_u64 b 1;
          interval \<leftarrow> ns_ii S addr end_addr;
          if \<not> list_ex (\<lambda>existing. ns_contains_interval S existing interval) (ns_iter S vset)
          then Some (False, vset)
          else do { s \<leftarrow> ns_cut S vset interval; Some (True, s) } }"

definition is_user_vaddr_valid_range :: "'s nodit_set_ops \<Rightarrow> 's \<Rightarrow> nat \<Rightarrow> nat \<Rightarrow> bool rust" where
  "is_user_vaddr_valid_range S vset start end_excl =
     do { e \<leftarrow> sub_u64 end_excl 1;
          interval \<leftarrow> ns_ii S start e;
          Some (list_ex (\<lambda>existing. ns_contains_interval S existing interval) (ns_iter S vset)) }"

section \<open>The address space as a set of addresses\<close>

definition space_free :: "'s nodit_set_ops \<Rightarrow> 's \<Rightarrow> nat \<Rightarrow> nat \<Rightarrow> bool" where
  "space_free S s a n \<longleftrightarrow> (\<forall>x. a \<le> x \<and> x < a + n \<longrightarrow> \<not> covered (ns_iter S s) x)"

definition space_used :: "'s nodit_set_ops \<Rightarrow> 's \<Rightarrow> nat \<Rightarrow> nat \<Rightarrow> bool" where
  "space_used S s a n \<longleftrightarrow> (\<forall>x. a \<le> x \<and> x < a + n \<longrightarrow> covered (ns_iter S s) x)"

definition space_added :: "'s nodit_set_ops \<Rightarrow> 's \<Rightarrow> nat \<Rightarrow> nat \<Rightarrow> 's \<Rightarrow> bool" where
  "space_added S s a n s' \<longleftrightarrow>
     (\<forall>x. covered (ns_iter S s') x \<longleftrightarrow> covered (ns_iter S s) x \<or> a \<le> x \<and> x < a + n)"

definition space_removed :: "'s nodit_set_ops \<Rightarrow> 's \<Rightarrow> nat \<Rightarrow> nat \<Rightarrow> 's \<Rightarrow> bool" where
  "space_removed S s a n s' \<longleftrightarrow>
     (\<forall>x. covered (ns_iter S s') x \<longleftrightarrow> covered (ns_iter S s) x \<and> \<not> (a \<le> x \<and> x < a + n))"

text \<open>The kernel's space always keeps the reserved top of the address space.\<close>

definition vm_ok :: "'s nodit_set_ops \<Rightarrow> ('s \<Rightarrow> bool) \<Rightarrow> 's VirtualMemoryAllocator \<Rightarrow> bool" where
  "vm_ok S wfS vm \<longleftrightarrow> wfS (vm_set vm) \<and>
     (\<forall>a. KERNEL_RESERVED_START \<le> a \<and> a \<le> u64_MAX \<longrightarrow> covered (ns_iter S (vm_set vm)) a)"

locale page_space = nodit_set S wfS + x86_addr X
  for S :: "'s nodit_set_ops" and wfS :: "'s \<Rightarrow> bool" and X :: x86_ops
begin

text \<open>The closure on a non-empty request.\<close>

lemma page_gap_eq:
  assumes "0 < bytes"
  shows "page_gap S bytes gap = do { a \<leftarrow> next_multiple_of (fst gap) SIZE_4KIB; b \<leftarrow> add_u64 a bytes;
    Some (if ns_contains_interval S gap (a, b - 1) then Some (a, b - 1) else None) }"
proof (cases "next_multiple_of (fst gap) SIZE_4KIB")
  case (Some a)
  then show ?thesis
    using assms ii_spec [of a "a + bytes - 1"] by (cases "a + bytes < U64_LIMIT") (simp_all add: page_gap_def add_u64_def sub_u64_def)
qed (simp add: page_gap_def)

lemma page_gap_least:
  assumes "0 < bytes" "page_gap S bytes gap = Some (Some i)" "fst gap \<le> a" "a mod SIZE_4KIB = 0"
  shows "fst i \<le> a"
proof -
  from assms(2) obtain b where "next_multiple_of (fst gap) SIZE_4KIB = Some b" "i = (b, b + bytes - 1)"
    by (auto simp: page_gap_eq [OF assms(1)] rust_SomeD add_u64_def split: if_splits)
  then show ?thesis using next_multiple_of_least [of "fst gap" SIZE_4KIB b a] assms(3,4) by simp
qed

lemma page_gap_Some:
  assumes "valid_ivl gap" "0 < bytes" "page_gap S bytes gap = Some (Some i)"
  shows "fst i mod SIZE_4KIB = 0" "fst gap \<le> fst i" "snd i = fst i + bytes - 1" "snd i \<le> snd gap" "valid_ivl i"
proof -
  obtain s e where gap: "gap = (s, e)" by (cases gap) auto
  from assms(3) obtain a where a: "next_multiple_of s SIZE_4KIB = Some a" "a + bytes < U64_LIMIT"
      "i = (a, a + bytes - 1)" "ns_contains_interval S gap i"
    by (auto simp: page_gap_eq [OF assms(2)] gap rust_SomeD add_u64_def split: if_splits)
  have v: "valid_ivl i" using a(2,3) assms(2) by auto
  then have "s \<le> a" "a + bytes - 1 \<le> e" using contains_spec [of s e] a(3,4) assms(1) gap by auto
  then show "fst i mod SIZE_4KIB = 0" "fst gap \<le> fst i" "snd i = fst i + bytes - 1" "snd i \<le> snd gap" "valid_ivl i"
    using next_multiple_of_SomeD [OF a(1)] a(3) gap v by auto
qed

lemma page_gap_total:
  assumes "valid_ivl gap" "snd gap + SIZE_4KIB + bytes < U64_LIMIT" "0 < bytes"
  shows "\<exists>r. page_gap S bytes gap = Some r"
proof -
  obtain s e where gap: "gap = (s, e)" by (cases gap) auto
  then have "s + SIZE_4KIB \<le> U64_LIMIT" using assms by auto
  then obtain a where a: "next_multiple_of s SIZE_4KIB = Some a" using next_multiple_of_ok [of s SIZE_4KIB] by auto
  then have "a + bytes < U64_LIMIT" using next_multiple_of_SomeD [OF a] assms gap by auto
  then show ?thesis using a assms(3) gap by (simp add: page_gap_eq add_u64_def)
qed

lemma page_gap_None:
  assumes "valid_ivl gap" "page_gap S bytes gap = Some None" "0 < bytes"
    "fst gap \<le> a" "a mod SIZE_4KIB = 0"
  shows "snd gap < a + bytes - 1"
proof -
  obtain s e where gap: "gap = (s, e)" by (cases gap) auto
  from assms(2) obtain b where b: "next_multiple_of s SIZE_4KIB = Some b" "b + bytes < U64_LIMIT"
      "\<not> ns_contains_interval S gap (b, b + bytes - 1)"
    by (auto simp: page_gap_eq [OF assms(3)] gap rust_SomeD add_u64_def split: if_splits)
  have "s \<le> b" "b \<le> a"
    using next_multiple_of_SomeD [OF b(1)] next_multiple_of_least [OF b(1)] assms(4,5) gap by auto
  moreover have "valid_ivl (b, b + bytes - 1)" using b(2) assms(3) by auto
  then have "\<not> (s \<le> b \<and> b + bytes - 1 \<le> e)"
    using contains_spec [of s e b "b + bytes - 1"] b(3) assms(1) gap by simp
  ultimately show ?thesis using gap by auto
qed

text \<open>The search both allocators perform, on the addresses of the space.\<close>

lemma find_gap_spec:
  assumes "wfS s" "valid_ivl (lo, hi)" "0 < bytes"
    "\<forall>a. lo \<le> a \<and> a \<le> hi \<and> \<not> covered (ns_iter S s) a \<longrightarrow> a \<le> hilim" "hilim + SIZE_4KIB + bytes < U64_LIMIT"
  shows "\<exists>gs r. ns_gaps_trimmed S s (lo, hi) = Some gs \<and> find_map (page_gap S bytes) gs = Some r \<and>
    (case r of
       Some i \<Rightarrow> fst i mod SIZE_4KIB = 0 \<and> lo \<le> fst i \<and> snd i = fst i + bytes - 1 \<and> snd i \<le> hi \<and>
                 valid_ivl i \<and> space_free S s (fst i) bytes \<and>
                 (\<forall>a. a mod SIZE_4KIB = 0 \<and> lo \<le> a \<and> a + bytes - 1 \<le> hi \<and> space_free S s a bytes \<longrightarrow> fst i \<le> a)
     | None \<Rightarrow> \<not> (\<exists>a. a mod SIZE_4KIB = 0 \<and> lo \<le> a \<and> a + bytes - 1 \<le> hi \<and> space_free S s a bytes))"
proof -
  from gaps_spec [OF assms(1,2)] obtain gs where gs: "ns_gaps_trimmed S s (lo, hi) = Some gs"
    and sound: "\<forall>(c, d)\<in>set gs. lo \<le> c \<and> c \<le> d \<and> d \<le> hi \<and> (\<forall>a. c \<le> a \<and> a \<le> d \<longrightarrow> \<not> covered (ns_iter S s) a)"
    and complete: "\<forall>c d. lo \<le> c \<and> c \<le> d \<and> d \<le> hi \<and> (\<forall>a. c \<le> a \<and> a \<le> d \<longrightarrow> \<not> covered (ns_iter S s) a)
        \<longrightarrow> (\<exists>(c', d')\<in>set gs. c' \<le> c \<and> d \<le> d')"
    and sorted: "sorted_wrt (\<lambda>x y. snd x < fst y) gs" by blast
  have inside: "\<exists>(c, d)\<in>set gs. c \<le> a \<and> a + bytes - 1 \<le> d"
    if "lo \<le> a" "a + bytes - 1 \<le> hi" "space_free S s a bytes" for a
  proof -
    have "a \<le> a + bytes - 1" "\<forall>x. a \<le> x \<and> x \<le> a + bytes - 1 \<longrightarrow> \<not> covered (ns_iter S s) x"
      using that(3) assms(3) by (auto simp: space_free_def)
    then show ?thesis using complete that(1,2) by blast
  qed
  have val: "valid_ivl g" if "g \<in> set gs" for g
    using bspec [OF sound that] assms(2) by (cases g) auto
  have "\<exists>r. page_gap S bytes g = Some r" if "g \<in> set gs" for g
  proof -
    have "snd g \<le> hilim" using bspec [OF sound that] assms(4) by (cases g) auto
    then show ?thesis using assms(3,5) val [OF that] by (intro page_gap_total) auto
  qed
  then have "find_map (page_gap S bytes) gs \<noteq> panic" by (intro find_map_ok) force
  then obtain r where r: "find_map (page_gap S bytes) gs = Some r" by auto
  show ?thesis
  proof (cases r)
    case None
    have False if a: "a mod SIZE_4KIB = 0" "lo \<le> a" "a + bytes - 1 \<le> hi" "space_free S s a bytes" for a
    proof -
      from inside [OF a(2-4)] obtain c d where cd: "(c, d) \<in> set gs" "c \<le> a" "a + bytes - 1 \<le> d" by blast
      then have "page_gap S bytes (c, d) = Some None" using find_map_NoneD [of _ gs] r None by blast
      from page_gap_None [OF val [OF cd(1)] this assms(3) _ a(1)] cd show False by simp
    qed
    then have "\<not> (\<exists>a. a mod SIZE_4KIB = 0 \<and> lo \<le> a \<and> a + bytes - 1 \<le> hi \<and> space_free S s a bytes)"
      by (intro notI, elim exE conjE)
    then show ?thesis using gs r None by simp
  next
    case (Some i)
    from find_map_SomeD [OF r [unfolded Some]] obtain ys g zs where
      f: "gs = ys @ g # zs" "page_gap S bytes g = Some (Some i)" "\<forall>y\<in>set ys. page_gap S bytes y = Some None" by blast
    then have g: "g \<in> set gs" "page_gap S bytes g = Some (Some i)" by simp_all
    note p = page_gap_Some [OF val [OF g(1)] assms(3) g(2)]
    have "lo \<le> fst g" "snd g \<le> hi" "\<forall>a. fst g \<le> a \<and> a \<le> snd g \<longrightarrow> \<not> covered (ns_iter S s) a"
      using bspec [OF sound g(1)] by (cases g; simp)+
    then have i: "lo \<le> fst i" "snd i \<le> hi" "space_free S s (fst i) bytes" using p assms(3) by (auto simp: space_free_def)
    have "fst i \<le> a" if a: "a mod SIZE_4KIB = 0" "lo \<le> a" "a + bytes - 1 \<le> hi" "space_free S s a bytes" for a
    proof -
      from inside [OF a(2-4)] obtain c d where cd: "(c, d) \<in> set gs" "c \<le> a" "a + bytes - 1 \<le> d" by blast
      then consider "(c, d) \<in> set ys" | "(c, d) = g" | "(c, d) \<in> set zs" using f(1) by auto
      then show ?thesis
      proof cases
        case 1
        then have "page_gap S bytes (c, d) = Some None" using f(3) by blast
        from page_gap_None [OF val [OF cd(1)] this assms(3) _ a(1)] cd show ?thesis by simp
      next
        case 2
        then show ?thesis using page_gap_least [OF assms(3) f(2) _ a(1)] cd(2) by (metis fst_conv)
      next
        case 3
        then have "snd g < c" using sorted f(1) by (auto simp: sorted_wrt_append)
        then show ?thesis using p(3,4) cd(2) assms(3) by linarith
      qed
    qed
    then show ?thesis using gs r Some p i by simp
  qed
qed

lemma insert_pages:
  assumes "wfS s" "valid_ivl i" "snd i = fst i + bytes - 1" "0 < bytes" "space_free S s (fst i) bytes"
  shows "\<exists>s'. ns_insert_merge_touching S s i = Some (Some s') \<and> wfS s' \<and> space_added S s (fst i) bytes s'"
proof -
  have in_i: "in_ivl x i \<longleftrightarrow> fst i \<le> x \<and> x < fst i + bytes" for x
    using assms(3,4) by (cases i) auto
  have "\<forall>x. in_ivl x i \<longrightarrow> \<not> covered (ns_iter S s) x" using assms(5) unfolding in_i by (simp add: space_free_def)
  from insert_spec [OF assms(1,2) this] show ?thesis unfolding in_i space_added_def by blast
qed

lemma allocate_user_pages_spec:
  assumes "wfS s" "0 < n" "n * SIZE_4KIB \<le> LOWER_HALF_END + 1"
  shows "(\<exists>a s'. allocate_user_pages S s n = Some (Some a, s') \<and> a mod SIZE_4KIB = 0 \<and> USER_MIN \<le> a \<and>
            a + n * SIZE_4KIB - 1 \<le> USER_MAX \<and> space_free S s a (n * SIZE_4KIB) \<and>
            wfS s' \<and> space_added S s a (n * SIZE_4KIB) s' \<and>
            (\<forall>b. b mod SIZE_4KIB = 0 \<and> USER_MIN \<le> b \<and> b + n * SIZE_4KIB - 1 \<le> USER_MAX \<and>
                 space_free S s b (n * SIZE_4KIB) \<longrightarrow> a \<le> b))
         \<or> allocate_user_pages S s n = Some (None, s) \<and>
            \<not> (\<exists>a. a mod SIZE_4KIB = 0 \<and> USER_MIN \<le> a \<and> a + n * SIZE_4KIB - 1 \<le> USER_MAX \<and>
                 space_free S s a (n * SIZE_4KIB))"
proof -
  let ?b = "n * SIZE_4KIB"
  have b: "0 < ?b" "mul_u64 n SIZE_4KIB = Some ?b" "USER_MAX + SIZE_4KIB + ?b < U64_LIMIT"
    "valid_ivl (USER_MIN, USER_MAX)"
    using assms(2,3) by (auto simp: mul_u64_def U64_LIMIT_num SIZE_4KIB_def LOWER_HALF_END_def USER_MAX_def USER_MIN_def)
  from find_gap_spec [OF assms(1) b(4,1) _ b(3)] obtain gs r where
    gs: "ns_gaps_trimmed S s (USER_MIN, USER_MAX) = Some gs" "find_map (page_gap S ?b) gs = Some r"
    and r: "case r of
       Some i \<Rightarrow> fst i mod SIZE_4KIB = 0 \<and> USER_MIN \<le> fst i \<and> snd i = fst i + ?b - 1 \<and> snd i \<le> USER_MAX \<and>
                 valid_ivl i \<and> space_free S s (fst i) ?b \<and>
                 (\<forall>a. a mod SIZE_4KIB = 0 \<and> USER_MIN \<le> a \<and> a + ?b - 1 \<le> USER_MAX \<and> space_free S s a ?b \<longrightarrow> fst i \<le> a)
     | None \<Rightarrow> \<not> (\<exists>a. a mod SIZE_4KIB = 0 \<and> USER_MIN \<le> a \<and> a + ?b - 1 \<le> USER_MAX \<and> space_free S s a ?b)"
    by auto
  show ?thesis
  proof (cases r)
    case None
    then have "allocate_user_pages S s n = Some (None, s)" using gs b(2) by (simp add: allocate_user_pages_def)
    then show ?thesis using r None by (simp only: option.case) blast
  next
    case (Some i)
    then have i: "fst i mod SIZE_4KIB = 0" "USER_MIN \<le> fst i" "snd i = fst i + ?b - 1" "snd i \<le> USER_MAX"
        "valid_ivl i" "space_free S s (fst i) ?b"
        "\<forall>a. a mod SIZE_4KIB = 0 \<and> USER_MIN \<le> a \<and> a + ?b - 1 \<le> USER_MAX \<and> space_free S s a ?b \<longrightarrow> fst i \<le> a"
      using r by simp_all
    from insert_pages [OF assms(1) i(5,3) b(1) i(6)] obtain s' where
      "ns_insert_merge_touching S s i = Some (Some s')" "wfS s'" "space_added S s (fst i) ?b s'" by blast
    then show ?thesis using gs b(2) i Some by (simp add: allocate_user_pages_def)
  qed
qed

lemma vm_ok_space:
  assumes "vm_ok S wfS vm" "a \<le> u64_MAX" "\<not> covered (ns_iter S (vm_set vm)) a"
  shows "a \<le> KERNEL_RESERVED_START - 1"
proof (rule ccontr)
  assume "\<not> ?thesis"
  then have "KERNEL_RESERVED_START \<le> a" by simp
  then show False using assms by (simp add: vm_ok_def)
qed

lemma allocate_kernel_pages_spec:
  assumes "vm_ok S wfS vm" "0 < n" "n * SIZE_4KIB \<le> LOWER_HALF_END div 512"
  shows "(\<exists>a vm'. allocate_kernel_contiguous_pages X S vm n = Some (Some a, vm') \<and> a mod SIZE_4KIB = 0 \<and>
            HIGHER_HALF_START \<le> a \<and> a + n * SIZE_4KIB \<le> KERNEL_RESERVED_START \<and>
            space_free S (vm_set vm) a (n * SIZE_4KIB) \<and> vm_ok S wfS vm' \<and>
            vm_l4_phys_frame vm' = vm_l4_phys_frame vm \<and>
            space_added S (vm_set vm) a (n * SIZE_4KIB) (vm_set vm'))
         \<or> allocate_kernel_contiguous_pages X S vm n = Some (None, vm) \<and>
            \<not> (\<exists>a. a mod SIZE_4KIB = 0 \<and> HIGHER_HALF_START \<le> a \<and> a + n * SIZE_4KIB - 1 \<le> u64_MAX \<and>
                 space_free S (vm_set vm) a (n * SIZE_4KIB))"
proof -
  let ?b = "n * SIZE_4KIB" and ?s = "vm_set vm"
  have s: "wfS ?s" using assms(1) by (simp add: vm_ok_def)
  have b: "0 < ?b" "mul_u64 n SIZE_4KIB = Some ?b" "KERNEL_RESERVED_START - 1 + SIZE_4KIB + ?b < U64_LIMIT"
    "valid_ivl (HIGHER_HALF_START, u64_MAX)"
    using assms(2,3) by (auto simp: mul_u64_def limits SIZE_4KIB_def LOWER_HALF_END_def KERNEL_RESERVED_START_def
        HIGHER_HALF_START_def)
  have lim: "\<forall>a. HIGHER_HALF_START \<le> a \<and> a \<le> u64_MAX \<and> \<not> covered (ns_iter S ?s) a \<longrightarrow> a \<le> KERNEL_RESERVED_START - 1"
    using vm_ok_space [OF assms(1)] by blast
  from find_gap_spec [OF s b(4,1) lim b(3)] obtain gs r where
    gs: "ns_gaps_trimmed S ?s (HIGHER_HALF_START, u64_MAX) = Some gs" "find_map (page_gap S ?b) gs = Some r"
    and r: "case r of
       Some i \<Rightarrow> fst i mod SIZE_4KIB = 0 \<and> HIGHER_HALF_START \<le> fst i \<and> snd i = fst i + ?b - 1 \<and> snd i \<le> u64_MAX \<and>
                 valid_ivl i \<and> space_free S ?s (fst i) ?b \<and>
                 (\<forall>a. a mod SIZE_4KIB = 0 \<and> HIGHER_HALF_START \<le> a \<and> a + ?b - 1 \<le> u64_MAX \<and> space_free S ?s a ?b \<longrightarrow> fst i \<le> a)
     | None \<Rightarrow> \<not> (\<exists>a. a mod SIZE_4KIB = 0 \<and> HIGHER_HALF_START \<le> a \<and> a + ?b - 1 \<le> u64_MAX \<and> space_free S ?s a ?b)"
    by auto
  note defs = allocate_kernel_contiguous_pages_def allocate_contiguous_pages_in_range_def
  show ?thesis
  proof (cases r)
    case None
    then have "allocate_kernel_contiguous_pages X S vm n = Some (None, vm)" using gs b(2) by (simp add: defs)
    then show ?thesis using r None by (simp only: option.case) blast
  next
    case (Some i)
    then have i: "fst i mod SIZE_4KIB = 0" "HIGHER_HALF_START \<le> fst i" "snd i = fst i + ?b - 1" "snd i \<le> u64_MAX"
        "valid_ivl i" "space_free S ?s (fst i) ?b" using r by simp_all
    from insert_pages [OF s i(5,3) b(1) i(6)] obtain s' where
      s': "ns_insert_merge_touching S ?s i = Some (Some s')" "wfS s'" "space_added S ?s (fst i) ?b s'" by blast
    have le: "fst i \<le> snd i" "snd i < fst i + ?b" using i(3) b(1) by linarith+
    then have "\<not> covered (ns_iter S ?s) (snd i)" using i(6) by (simp add: space_free_def)
    then have "snd i \<le> KERNEL_RESERVED_START - 1" using vm_ok_space [OF assms(1) i(4)] by blast
    then have top: "fst i + ?b \<le> KERNEL_RESERVED_START" using i(3) b(1) by (simp add: KERNEL_RESERVED_START_def)
    have "canonical (fst i)" using i(2,4) le(1) by (simp add: canonical_num HIGHER_HALF_START_def limits)
    then have v: "virt_addr_new X (fst i) = Some (fst i)" by (rule virt_new)
    have "vm_ok S wfS (vm \<lparr> vm_set := s' \<rparr>)" using assms(1) s' by (simp add: vm_ok_def space_added_def)
    then show ?thesis using gs b(2) i Some s' top v page_aligned [OF i(1)] by (simp add: defs)
  qed
qed

lemma any_contains_iff:
  assumes "wfS s" "0 < n" "a + n \<le> U64_LIMIT"
  shows "list_ex (\<lambda>e. ns_contains_interval S e (a, a + n - 1)) (ns_iter S s) \<longleftrightarrow> space_used S s a n"
proof -
  have v: "valid_ivl (a, a + n - 1)" using assms(2,3) by auto
  have c: "ns_contains_interval S e (a, a + n - 1) \<longleftrightarrow> fst e \<le> a \<and> a + n - 1 \<le> snd e" if "e \<in> set (ns_iter S s)" for e
    using contains_spec [OF _ v, of "fst e" "snd e"] iter_ok [OF assms(1)] that by (simp add: ivls_ok_def)
  show ?thesis
  proof
    assume "list_ex (\<lambda>e. ns_contains_interval S e (a, a + n - 1)) (ns_iter S s)"
    then obtain e where "e \<in> set (ns_iter S s)" "fst e \<le> a" "a + n - 1 \<le> snd e" using c by (auto simp: list_ex_iff)
    then show "space_used S s a n"
      using covered_memI [of "fst e" "snd e"] by (auto simp: space_used_def)
  next
    assume "space_used S s a n"
    then have "\<exists>x y. (x, y) \<in> set (ns_iter S s) \<and> x \<le> a \<and> a + n - 1 \<le> y"
      using assms(2) by (intro covered_run_in_one iter_ok assms(1)) (auto simp: space_used_def)
    then show "list_ex (\<lambda>e. ns_contains_interval S e (a, a + n - 1)) (ns_iter S s)"
      using c by (fastforce simp: list_ex_iff)
  qed
qed

lemma cut_pages:
  assumes "wfS s" "0 < n" "a + n \<le> U64_LIMIT"
  shows "\<exists>s'. ns_cut S s (a, a + n - 1) = Some s' \<and> wfS s' \<and> space_removed S s a n s'"
proof -
  have v: "valid_ivl (a, a + n - 1)" using assms(2,3) by auto
  have in_i: "in_ivl x (a, a + n - 1) \<longleftrightarrow> a \<le> x \<and> x < a + n" for x using assms(2) by auto
  from cut_spec [OF assms(1) v] show ?thesis unfolding in_i space_removed_def by blast
qed

lemma free_user_pages_spec:
  assumes "wfS s" "0 < n" "a + n < U64_LIMIT"
  shows "if space_used S s a n
         then \<exists>s'. free_user_pages S s a n = Some (True, s') \<and> wfS s' \<and> space_removed S s a n s'
         else free_user_pages S s a n = Some (False, s)"
  using any_contains_iff [OF assms(1,2), of a] cut_pages [OF assms(1,2), of a] assms(2,3)
    ii_spec [of a "a + n - 1"]
  by (auto simp: free_user_pages_def add_u64_def sub_u64_def)

end

interpretation list_space: page_space list_set_ops ivls_ok x86_arith_ops
  by standard

section \<open>Properties\<close>

text \<open>C28. Allocating pages for a user task never panics for any request that fits the lower half of
  the address space. It returns the lowest aligned range inside the user range that was free and adds
  exactly that range to the task's space; it fails only when no aligned free range of that size exists.\<close>

theorem allocate_user_pages_first_fit:
  assumes "page_space S wfS X" "wfS s" "0 < n" "n * SIZE_4KIB \<le> LOWER_HALF_END + 1"
  shows "(\<exists>a s'. allocate_user_pages S s n = Some (Some a, s') \<and> a mod SIZE_4KIB = 0 \<and> USER_MIN \<le> a \<and>
            a + n * SIZE_4KIB - 1 \<le> USER_MAX \<and> space_free S s a (n * SIZE_4KIB) \<and>
            wfS s' \<and> space_added S s a (n * SIZE_4KIB) s' \<and>
            (\<forall>b. b mod SIZE_4KIB = 0 \<and> USER_MIN \<le> b \<and> b + n * SIZE_4KIB - 1 \<le> USER_MAX \<and>
                 space_free S s b (n * SIZE_4KIB) \<longrightarrow> a \<le> b))
         \<or> allocate_user_pages S s n = Some (None, s) \<and>
            \<not> (\<exists>a. a mod SIZE_4KIB = 0 \<and> USER_MIN \<le> a \<and> a + n * SIZE_4KIB - 1 \<le> USER_MAX \<and>
                 space_free S s a (n * SIZE_4KIB))"
  using assms by (rule page_space.allocate_user_pages_spec)

definition sample_space :: "(interval \<times> unit) list" where
  "sample_space = [((0x1000, 0x2FFF), ()), ((0x4000, 0x7FFF), ())]"

lemma sample_space_ok: "ivls_ok sample_space"
  by (simp add: sample_space_def ivls_ok_def ivl_before_def U64_LIMIT_num)

theorem allocate_user_pages_first_fit_witness:
  "\<exists>s'. allocate_user_pages list_set_ops sample_space 2 = Some (Some 0x8000, s') \<and> ivls_ok s'"
proof -
  let ?fits = "\<lambda>a. a mod SIZE_4KIB = 0 \<and> USER_MIN \<le> a \<and> a + 2 * SIZE_4KIB - 1 \<le> USER_MAX \<and>
      space_free list_set_ops sample_space a (2 * SIZE_4KIB)"
  have cov: "covered (ns_iter list_set_ops sample_space) x \<longleftrightarrow> 0x1000 \<le> x \<and> x \<le> 0x2FFF \<or> 0x4000 \<le> x \<and> x \<le> 0x7FFF" for x
    by (simp add: sample_space_def list_set_ops_def)
  have fit: "?fits 0x8000"
    by (simp add: space_free_def cov SIZE_4KIB_def USER_MIN_def USER_MAX_def LOWER_HALF_END_def)
  have low: "0x8000 \<le> a" if "?fits a" for a
  proof (rule ccontr)
    assume "\<not> 0x8000 \<le> a"
    then have "a div SIZE_4KIB < 8" "a = a div SIZE_4KIB * SIZE_4KIB" using that by (auto simp: SIZE_4KIB_def)
    then obtain i where i: "a = i * 0x1000" "i < 8" by (metis SIZE_4KIB_def)
    have "\<not> covered (ns_iter list_set_ops sample_space) a" "\<not> covered (ns_iter list_set_ops sample_space) (a + 0x1000)"
      using that by (simp_all add: space_free_def SIZE_4KIB_def)
    then show False using that i unfolding cov by (auto simp: USER_MIN_def)
  qed
  have "0 < (2::nat)" "2 * SIZE_4KIB \<le> LOWER_HALF_END + 1" by (simp_all add: SIZE_4KIB_def LOWER_HALF_END_def)
  from allocate_user_pages_first_fit [OF list_space.page_space_axioms sample_space_ok this] fit low
  show ?thesis by (metis le_antisym)
qed

text \<open>C29. Allocating kernel pages never panics for any request up to 256 GiB: the result is an aligned
  free range between the start of the higher half and the reserved top, exactly that range becomes
  allocated, and the reserved top stays allocated; the call fails only when no such range exists.\<close>

theorem allocate_kernel_pages_safe:
  assumes "page_space S wfS X" "vm_ok S wfS vm" "0 < n" "n * SIZE_4KIB \<le> LOWER_HALF_END div 512"
  shows "(\<exists>a vm'. allocate_kernel_contiguous_pages X S vm n = Some (Some a, vm') \<and> a mod SIZE_4KIB = 0 \<and>
            HIGHER_HALF_START \<le> a \<and> a + n * SIZE_4KIB \<le> KERNEL_RESERVED_START \<and>
            space_free S (vm_set vm) a (n * SIZE_4KIB) \<and> vm_ok S wfS vm' \<and>
            vm_l4_phys_frame vm' = vm_l4_phys_frame vm \<and>
            space_added S (vm_set vm) a (n * SIZE_4KIB) (vm_set vm'))
         \<or> allocate_kernel_contiguous_pages X S vm n = Some (None, vm) \<and>
            \<not> (\<exists>a. a mod SIZE_4KIB = 0 \<and> HIGHER_HALF_START \<le> a \<and> a + n * SIZE_4KIB - 1 \<le> u64_MAX \<and>
                 space_free S (vm_set vm) a (n * SIZE_4KIB))"
  using assms by (rule page_space.allocate_kernel_pages_spec)

definition sample_vm :: "(interval \<times> unit) list VirtualMemoryAllocator" where
  "sample_vm = \<lparr> vm_set = [((0xFFFF800000000000, 0xFFFF800000001FFF), ()), ((0xFFFFFF8000000000, 0xFFFFFFFFFFFFFFFF), ())],
                 vm_l4_phys_frame = 0x1000 \<rparr>"

theorem allocate_kernel_pages_safe_witness:
  "\<exists>r vm'. allocate_kernel_contiguous_pages x86_arith_ops list_set_ops sample_vm 3 = Some (r, vm') \<and>
     vm_ok list_set_ops ivls_ok vm'"
proof -
  have ok: "vm_ok list_set_ops ivls_ok sample_vm"
    by (auto simp: vm_ok_def sample_vm_def ivls_ok_def ivl_before_def list_set_ops_def KERNEL_RESERVED_START_def limits)
  have "3 * SIZE_4KIB \<le> LOWER_HALF_END div 512" by (simp add: SIZE_4KIB_def LOWER_HALF_END_def)
  from allocate_kernel_pages_safe [OF list_space.page_space_axioms ok _ this] ok show ?thesis by auto
qed

text \<open>Releasing user pages succeeds exactly when every address of the range is allocated, and then
  removes exactly that range; otherwise it reports failure and changes nothing.\<close>

theorem free_user_pages_exact:
  assumes "page_space S wfS X" "wfS s" "0 < n" "a + n < U64_LIMIT"
  shows "if space_used S s a n
         then \<exists>s'. free_user_pages S s a n = Some (True, s') \<and> wfS s' \<and> space_removed S s a n s'
         else free_user_pages S s a n = Some (False, s)"
  using assms by (rule page_space.free_user_pages_spec)

theorem free_user_pages_exact_witness:
  "(\<exists>s'. free_user_pages list_set_ops sample_space 0x5000 0x1000 = Some (True, s') \<and>
      space_removed list_set_ops sample_space 0x5000 0x1000 s') \<and>
   free_user_pages list_set_ops sample_space 0x2000 0x3000 = Some (False, sample_space)"
proof -
  have "space_used list_set_ops sample_space 0x5000 0x1000" "\<not> space_used list_set_ops sample_space 0x2000 0x3000"
    by (auto simp: space_used_def sample_space_def list_set_ops_def intro!: exI [of _ "0x3000"])
  then show ?thesis
    using free_user_pages_exact [OF list_space.page_space_axioms sample_space_ok, of "0x1000" "0x5000"]
      free_user_pages_exact [OF list_space.page_space_axioms sample_space_ok, of "0x3000" "0x2000"]
    by (auto simp: U64_LIMIT_num)
qed

text \<open>Pages that were just allocated to a user task can be released again, and that restores the
  task's address space.\<close>

theorem user_pages_roundtrip:
  assumes "page_space S wfS X" "wfS s" "0 < n" "n * SIZE_4KIB \<le> LOWER_HALF_END + 1"
    "allocate_user_pages S s n = Some (Some a, s1)"
  shows "\<exists>s2. free_user_pages S s1 a (n * SIZE_4KIB) = Some (True, s2) \<and> wfS s2 \<and>
           covered (ns_iter S s2) = covered (ns_iter S s)"
proof -
  let ?b = "n * SIZE_4KIB"
  from page_space.allocate_user_pages_spec [OF assms(1-4)] assms(5)
  have s: "a + ?b - 1 \<le> USER_MAX" "space_free S s a ?b" "wfS s1" "space_added S s a ?b s1" by auto
  have "a + ?b < U64_LIMIT" using s(1) by (simp add: USER_MAX_def LOWER_HALF_END_def U64_LIMIT_num)
  moreover have "space_used S s1 a ?b" using s(4) by (simp add: space_used_def space_added_def)
  ultimately obtain s2 where "free_user_pages S s1 a ?b = Some (True, s2)" "wfS s2" "space_removed S s1 a ?b s2"
    using page_space.free_user_pages_spec [OF assms(1) s(3), of ?b a] assms(3) by auto
  moreover have "covered (ns_iter S s2) = covered (ns_iter S s)"
    using calculation(3) s(2,4) by (auto simp: fun_eq_iff space_removed_def space_added_def space_free_def)
  ultimately show ?thesis by blast
qed

theorem user_pages_roundtrip_witness:
  "\<exists>a s1 s2. allocate_user_pages list_set_ops sample_space 2 = Some (Some a, s1) \<and>
     free_user_pages list_set_ops s1 a (2 * SIZE_4KIB) = Some (True, s2) \<and>
     covered (ns_iter list_set_ops s2) = covered (ns_iter list_set_ops sample_space)"
proof -
  have "\<exists>a s1. allocate_user_pages list_set_ops sample_space 2 = Some (Some a, s1)"
    by (simp add: allocate_user_pages_def sample_space_def list_set_ops_def page_gap_def next_multiple_of_def
        mul_u64_def add_u64_def sub_u64_def SIZE_4KIB_def USER_MIN_def USER_MAX_def LOWER_HALF_END_def
        U64_LIMIT_num lm_insert_def ivl_overlaps_def)
  then show ?thesis
    using user_pages_roundtrip [OF list_space.page_space_axioms sample_space_ok, of 2]
    by (auto simp: SIZE_4KIB_def LOWER_HALF_END_def)
qed

end
