(* ===== verification/Tasks.thy ===== *)
theory Tasks
  imports Virtual_Memory
begin

text \<open>
  Tasks as \<^verbatim>\<open>kernel/core/src/task/task.rs\<close> defines them: the saved processor context, the
  life-cycle state, the parts guarded by the task's lock, and the two constructors. A task object is
  a record in a store indexed by task id; an \<^verbatim>\<open>Arc<Task>\<close> is the id. The pointer to a task's
  saved context is the id of the task that owns it.
\<close>

section \<open>Data\<close>

record CpuContext =
  ctx_r15 :: nat
  ctx_r14 :: nat
  ctx_r13 :: nat
  ctx_r12 :: nat
  ctx_r11 :: nat
  ctx_r10 :: nat
  ctx_r9 :: nat
  ctx_r8 :: nat
  ctx_rdi :: nat
  ctx_rsi :: nat
  ctx_rbp :: nat
  ctx_rbx :: nat
  ctx_rdx :: nat
  ctx_rcx :: nat
  ctx_rax :: nat
  ctx_rip :: nat
  ctx_cs :: nat
  ctx_rflags :: nat
  ctx_rsp :: nat
  ctx_ss :: nat

definition CpuContext_default :: CpuContext where
  "CpuContext_default =
     \<lparr> ctx_r15 = 0, ctx_r14 = 0, ctx_r13 = 0, ctx_r12 = 0, ctx_r11 = 0, ctx_r10 = 0, ctx_r9 = 0, ctx_r8 = 0,
       ctx_rdi = 0, ctx_rsi = 0, ctx_rbp = 0, ctx_rbx = 0, ctx_rdx = 0, ctx_rcx = 0, ctx_rax = 0,
       ctx_rip = 0, ctx_cs = 0, ctx_rflags = 0, ctx_rsp = 0, ctx_ss = 0 \<rparr>"

datatype TaskState = Initializing | Running | Ready | Sleeping | Zombie

datatype TaskKind = Kernel | User

record GuardedStack =
  gs_top :: nat
  gs_guard_page :: nat
  gs_n_virtual_pages :: nat

record 's TaskInner =
  ti_context :: CpuContext
  ti_kernel_stack :: GuardedStack
  ti_kernel_stack_top :: nat
  ti_user_page_table :: "nat option"
  ti_user_vaddr_set :: 's
  ti_owned_endpoints :: "nat list"
  ti_registered_services :: "byte list list"

record 's Task =
  t_inner :: "'s TaskInner"
  t_id :: nat
  t_state :: TaskState
  t_kind :: TaskKind
  t_cr3 :: nat
  t_exit_code :: nat
  t_exit_waiter :: "(nat \<times> nat) option"
  t_cpu_ticks :: nat

section \<open>Atomic counters\<close>

text \<open>\<^verbatim>\<open>fetch_add(1)\<close> and \<^verbatim>\<open>fetch_sub(1)\<close> on a 64-bit atomic wrap around.\<close>

definition fetch_add_1 :: "nat \<Rightarrow> nat" where
  "fetch_add_1 n = (n + 1) mod U64_LIMIT"

definition fetch_sub_1 :: "nat \<Rightarrow> nat" where
  "fetch_sub_1 n = (n + (U64_LIMIT - 1)) mod U64_LIMIT"

section \<open>Constructors\<close>

text \<open>The id counter is threaded through: each constructor takes it and the new value is the
  second component. The kernel stack is the one \<^verbatim>\<open>GuardedStack::new_kernel\<close> returned, and
  \<open>cs\<close>, \<open>ss\<close>, \<open>cr3\<close> are the values the constructor reads from the processor.\<close>

definition TaskId_new :: "nat \<Rightarrow> nat \<times> nat" where
  "TaskId_new next_id = (next_id, fetch_add_1 next_id)"

definition Task_new ::
    "'s nodit_set_ops \<Rightarrow> nat \<Rightarrow> GuardedStack \<Rightarrow> nat \<Rightarrow> nat \<Rightarrow> nat \<Rightarrow> nat \<Rightarrow> nat \<Rightarrow> 's Task \<times> nat" where
  "Task_new S task_trampoline stack cs ss cr3 next_id entry =
     (let stack_top = gs_top stack;
          context = CpuContext_default
            \<lparr> ctx_r15 := entry, ctx_rip := task_trampoline, ctx_cs := cs, ctx_rflags := 0x200,
              ctx_rsp := stack_top, ctx_ss := ss \<rparr>;
          (id, next_id') = TaskId_new next_id
      in (\<lparr> t_inner = \<lparr> ti_context = context, ti_kernel_stack = stack, ti_kernel_stack_top = stack_top,
                        ti_user_page_table = None, ti_user_vaddr_set = ns_default S,
                        ti_owned_endpoints = [], ti_registered_services = [] \<rparr>,
            t_id = id, t_state = Initializing, t_kind = Kernel, t_cr3 = cr3, t_exit_code = 0,
            t_exit_waiter = None, t_cpu_ticks = 0 \<rparr>, next_id'))"

definition Task_new_user ::
    "GuardedStack \<Rightarrow> nat \<Rightarrow> nat \<Rightarrow> nat \<Rightarrow> nat \<Rightarrow> nat \<Rightarrow> nat \<Rightarrow> nat \<Rightarrow> 's \<Rightarrow> nat \<Rightarrow> 's Task \<times> nat" where
  "Task_new_user kernel_stack next_id entry_rip user_rsp page_table cr3 user_cs user_ss user_vaddr_set arg =
     (let kernel_stack_top = gs_top kernel_stack;
          context = CpuContext_default
            \<lparr> ctx_rdi := arg, ctx_rip := entry_rip, ctx_cs := user_cs, ctx_rflags := 0x200,
              ctx_rsp := user_rsp, ctx_ss := user_ss \<rparr>;
          (id, next_id') = TaskId_new next_id
      in (\<lparr> t_inner = \<lparr> ti_context = context, ti_kernel_stack = kernel_stack,
                        ti_kernel_stack_top = kernel_stack_top,
                        ti_user_page_table = Some page_table, ti_user_vaddr_set = user_vaddr_set,
                        ti_owned_endpoints = [], ti_registered_services = [] \<rparr>,
            t_id = id, t_state = Initializing, t_kind = User, t_cr3 = cr3, t_exit_code = 0,
            t_exit_waiter = None, t_cpu_ticks = 0 \<rparr>, next_id'))"

definition is_runnable :: "'s Task \<Rightarrow> bool" where
  "is_runnable t \<longleftrightarrow> t_state t = Ready"

section \<open>Well-formed tasks\<close>

text \<open>What the scheduler needs of a task before it can switch to it.\<close>

definition task_ok :: "'s Task \<Rightarrow> bool" where
  "task_ok t \<longleftrightarrow>
     (ctx_cs (ti_context (t_inner t)) = 0x08 \<or> ctx_cs (ti_context (t_inner t)) = 0x23) \<and>
     canonical (ti_kernel_stack_top (t_inner t)) \<and> t_cr3 t < PHYS_LIMIT \<and> t_cr3 t mod SIZE_4KIB = 0"

lemma fetch_add_sub [simp]: "n < U64_LIMIT \<Longrightarrow> fetch_sub_1 (fetch_add_1 n) = n"
  by (cases "n + 1 = U64_LIMIT") (simp_all add: fetch_add_1_def fetch_sub_1_def U64_LIMIT_num)

lemma fetch_add_mod: "fetch_add_1 (n mod U64_LIMIT) = Suc n mod U64_LIMIT"
  by (simp add: fetch_add_1_def mod_Suc_eq)

lemma fetch_sub_mod: "fetch_sub_1 (Suc n mod U64_LIMIT) = n mod U64_LIMIT"
proof -
  have "fetch_sub_1 (Suc n mod U64_LIMIT) = (Suc n + (U64_LIMIT - 1)) mod U64_LIMIT"
    by (simp only: fetch_sub_1_def mod_add_left_eq)
  also have "Suc n + (U64_LIMIT - 1) = n + U64_LIMIT" by (simp add: U64_LIMIT_num)
  finally show ?thesis by simp
qed

lemma Task_new_ok:
  "canonical (gs_top stack) \<Longrightarrow> cr3 < PHYS_LIMIT \<Longrightarrow> cr3 mod SIZE_4KIB = 0 \<Longrightarrow>
   task_ok (fst (Task_new S tramp stack 0x08 ss cr3 n entry))"
  by (simp add: task_ok_def Task_new_def TaskId_new_def Let_def)

lemma Task_new_user_ok:
  "canonical (gs_top stack) \<Longrightarrow> cr3 < PHYS_LIMIT \<Longrightarrow> cr3 mod SIZE_4KIB = 0 \<Longrightarrow>
   task_ok (fst (Task_new_user stack n rip rsp pt cr3 0x23 ss vs arg))"
  by (simp add: task_ok_def Task_new_user_def TaskId_new_def Let_def)

end
