(* ===== verification/Scheduler.thy ===== *)
theory Scheduler
  imports Tasks "HOL-Library.Multiset"
begin

text \<open>
  Per-CPU data (\<^verbatim>\<open>memory/cpu_local_data.rs\<close>) and the per-CPU run queues
  (\<^verbatim>\<open>task/local_scheduler.rs\<close>). The scheduler's state is a record that the later components
  extend with their own fields; its operations are polymorphic in that extension.

  Each operation takes the index \<open>c\<close> of the CPU that executes it, which is what
  \<^verbatim>\<open>get_local()\<close> finds through the GS base. The operations run with interrupts disabled and
  under the lock of the run queue they touch, so each is one atomic step of the state. The
  processor's CR3 register and the stack pointer in the TSS are fields of the CPU they belong to;
  inter-processor interrupts are recorded in the order they are sent.
\<close>

section \<open>Data\<close>

datatype CpuState = CpuInitializing | CpuReady | CpuCrashed

record RunQueue =
  current_task :: "nat option"
  ready :: "nat list"

record CpuLocalData =
  kernel_id :: nat
  local_apic_id :: nat
  tss_rsp0 :: "nat option"
  run_queue :: "RunQueue option"
  syscall_handler_scratch :: nat
  current_task_kernel_stack_top :: nat
  current_context_ptr :: "nat option"
  in_syscall_handler :: nat
  ready_count :: nat
  cpu_state :: CpuState
  hw_cr3 :: nat

record 's Sched =
  k_cpus :: "CpuLocalData option list"
  k_tasks :: "nat \<rightharpoonup> 's Task"
  k_task_table :: "nat set"
  k_next_spawn_cpu :: nat
  k_next_task_id :: nat
  k_ipis :: "(nat \<times> nat) list"

definition RESCHEDULE_VECTOR :: nat where
  "RESCHEDULE_VECTOR = 0x24"

section \<open>Per-CPU data\<close>

definition init_cpu :: "nat \<Rightarrow> nat \<Rightarrow> nat \<Rightarrow> ('s, 'z) Sched_scheme \<Rightarrow> ('s, 'z) Sched_scheme rust" where
  "init_cpu cr3 cid apic_id k =
     (if cid < length (k_cpus k)
      then Some (case k_cpus k ! cid of
             Some _ \<Rightarrow> k
           | None \<Rightarrow> k \<lparr> k_cpus := (k_cpus k)[cid := Some
               \<lparr> kernel_id = cid, local_apic_id = apic_id, tss_rsp0 = None, run_queue = None,
                 syscall_handler_scratch = 0, current_task_kernel_stack_top = 0,
                 current_context_ptr = None, in_syscall_handler = 0, ready_count = 0,
                 cpu_state = CpuInitializing, hw_cr3 = cr3 \<rparr>] \<rparr>)
      else panic)"

definition get_cpu :: "('s, 'z) Sched_scheme \<Rightarrow> nat \<Rightarrow> CpuLocalData rust" where
  "get_cpu k cid = (if cid < length (k_cpus k) then unwrap (k_cpus k ! cid) else panic)"

definition local_apic_id_of :: "('s, 'z) Sched_scheme \<Rightarrow> nat \<Rightarrow> nat rust" where
  "local_apic_id_of k cid = do { cpu \<leftarrow> get_cpu k cid; Some (local_apic_id cpu) }"

definition upd_cpu ::
    "nat \<Rightarrow> (CpuLocalData \<Rightarrow> CpuLocalData) \<Rightarrow> ('s, 'z) Sched_scheme \<Rightarrow> ('s, 'z) Sched_scheme" where
  "upd_cpu c f k = k \<lparr> k_cpus := (k_cpus k)[c := map_option f (k_cpus k ! c)] \<rparr>"

definition upd_task ::
    "nat \<Rightarrow> ('s Task \<Rightarrow> 's Task) \<Rightarrow> ('s, 'z) Sched_scheme \<Rightarrow> ('s, 'z) Sched_scheme" where
  "upd_task t f k = k \<lparr> k_tasks := (k_tasks k)(t := map_option f (k_tasks k t)) \<rparr>"

definition set_task_state :: "nat \<Rightarrow> TaskState \<Rightarrow> ('s, 'z) Sched_scheme \<Rightarrow> ('s, 'z) Sched_scheme" where
  "set_task_state t s = upd_task t (\<lambda>x. x \<lparr> t_state := s \<rparr>)"

definition mark_current_cpu_ready :: "nat \<Rightarrow> ('s, 'z) Sched_scheme \<Rightarrow> ('s, 'z) Sched_scheme rust" where
  "mark_current_cpu_ready c k =
     do { _ \<leftarrow> get_cpu k c; Some (upd_cpu c (\<lambda>cpu. cpu \<lparr> cpu_state := CpuReady \<rparr>) k) }"

definition mark_current_cpu_crashed :: "nat \<Rightarrow> ('s, 'z) Sched_scheme \<Rightarrow> ('s, 'z) Sched_scheme" where
  "mark_current_cpu_crashed c k = upd_cpu c (\<lambda>cpu. cpu \<lparr> cpu_state := CpuCrashed \<rparr>) k"

definition try_get_ready_cpu :: "('s, 'z) Sched_scheme \<Rightarrow> nat \<Rightarrow> CpuLocalData option" where
  "try_get_ready_cpu k cid =
     (if cid < length (k_cpus k)
      then (case k_cpus k ! cid of
              None \<Rightarrow> None
            | Some cpu \<Rightarrow> if cpu_state cpu \<noteq> CpuReady then None else Some cpu)
      else None)"

definition set_tss_rsp0 ::
    "x86_ops \<Rightarrow> nat \<Rightarrow> nat \<Rightarrow> ('s, 'z) Sched_scheme \<Rightarrow> ('s, 'z) Sched_scheme rust" where
  "set_tss_rsp0 X c rsp0 k =
     do { cpu \<leftarrow> get_cpu k c;
          _ \<leftarrow> unwrap (tss_rsp0 cpu);
          v \<leftarrow> virt_addr_new X rsp0;
          Some (upd_cpu c (\<lambda>cpu. cpu \<lparr> tss_rsp0 := Some v, current_task_kernel_stack_top := rsp0 \<rparr>) k) }"

section \<open>Run queues\<close>

definition init_run_queue :: "nat \<Rightarrow> ('s, 'z) Sched_scheme \<Rightarrow> ('s, 'z) Sched_scheme rust" where
  "init_run_queue c k =
     do { cpu \<leftarrow> get_cpu k c;
          Some (case run_queue cpu of
                  Some _ \<Rightarrow> k
                | None \<Rightarrow> upd_cpu c (\<lambda>cpu. cpu \<lparr> run_queue := Some \<lparr> current_task = None, ready = [] \<rparr> \<rparr>) k) }"

definition sched_add :: "nat \<Rightarrow> nat \<Rightarrow> ('s, 'z) Sched_scheme \<Rightarrow> ('s, 'z) Sched_scheme rust" where
  "sched_add c t k =
     do { cpu \<leftarrow> get_cpu k c;
          rq \<leftarrow> unwrap (run_queue cpu);
          Some (upd_cpu c (\<lambda>cpu. cpu \<lparr> run_queue := Some (rq \<lparr> ready := ready rq @ [t] \<rparr>),
                                       ready_count := fetch_add_1 (ready_count cpu) \<rparr>) k) }"

definition rq_tasks :: "RunQueue \<Rightarrow> nat list" where
  "rq_tasks rq = (case current_task rq of None \<Rightarrow> [] | Some t \<Rightarrow> [t]) @ ready rq"

definition slot_tasks :: "CpuLocalData option \<Rightarrow> nat list" where
  "slot_tasks s = (case s of None \<Rightarrow> [] | Some cpu \<Rightarrow>
     (case run_queue cpu of None \<Rightarrow> [] | Some rq \<Rightarrow> rq_tasks rq))"

text \<open>Every place a task occupies: the running task and the queue of each CPU.\<close>

definition placed :: "('s, 'z) Sched_scheme \<Rightarrow> nat list" where
  "placed k = concat (map slot_tasks (k_cpus k))"

text \<open>A task is reference counted. The references are the entry in the task table, the places in
  the run queues, and the waiter slots: the \<^verbatim>\<open>exit_waiter\<close> of another task, a channel, an input
  driver. The tasks in waiter slots are the argument \<open>slots\<close>.\<close>

definition last_reference :: "nat set \<Rightarrow> ('s, 'z) Sched_scheme \<Rightarrow> nat \<Rightarrow> bool" where
  "last_reference slots k t \<longleftrightarrow> t \<notin> slots \<and> t \<notin> k_task_table k \<and> t \<notin> set (placed k)"

text \<open>The outgoing task: taken from the run queue, charged one quantum, and put back at the end of
  the queue unless it sleeps or is a zombie. Then its reference is dropped, and when no other is left
  its destructor runs: it frees the page tables, which are still the active ones, and unmaps the
  kernel stack, which the handler is running on. The next access to the stack faults, so the step does
  not return.\<close>

definition requeue_current :: "nat set \<Rightarrow> nat \<Rightarrow> ('s, 'z) Sched_scheme \<Rightarrow> ('s, 'z) Sched_scheme rust" where
  "requeue_current slots c k =
     do { cpu \<leftarrow> get_cpu k c;
          rq \<leftarrow> unwrap (run_queue cpu);
          case current_task rq of
            None \<Rightarrow> Some k
          | Some prev \<Rightarrow>
              let k1 = upd_cpu c (\<lambda>cpu. cpu \<lparr> run_queue := Some (rq \<lparr> current_task := None \<rparr>) \<rparr>) k;
                  k2 = upd_task prev (\<lambda>t. t \<lparr> t_cpu_ticks := fetch_add_1 (t_cpu_ticks t) \<rparr>) k1
              in do { t \<leftarrow> unwrap (k_tasks k2 prev);
                      if t_state t = Zombie \<or> t_state t = Sleeping
                      then (if last_reference slots k2 prev then panic else Some k2)
                      else sched_add c prev (set_task_state prev Ready k2) } }"

definition switch_cr3 :: "x86_ops \<Rightarrow> nat \<Rightarrow> nat \<Rightarrow> ('s, 'z) Sched_scheme \<Rightarrow> ('s, 'z) Sched_scheme rust" where
  "switch_cr3 X c next_cr3 k =
     do { cpu \<leftarrow> get_cpu k c;
          if next_cr3 \<noteq> hw_cr3 cpu
          then do { p \<leftarrow> phys_addr_new X next_cr3;
                    Some (upd_cpu c (\<lambda>cpu. cpu \<lparr> hw_cr3 := frame_containing_address X p \<rparr>) k) }
          else Some k }"

text \<open>The task that is about to run has left the queue; the local variable is a reference to it.\<close>

definition schedule_from_interrupt ::
    "x86_ops \<Rightarrow> nat set \<Rightarrow> nat \<Rightarrow> ('s, 'z) Sched_scheme \<Rightarrow> (nat option \<times> ('s, 'z) Sched_scheme) rust" where
  "schedule_from_interrupt X slots c k =
     do { cpu \<leftarrow> get_cpu k c;
          if ready_count cpu = 0 then Some (current_context_ptr cpu, k)
          else
            do { rq \<leftarrow> unwrap (run_queue cpu);
                 case ready rq of
                   [] \<Rightarrow> Some (current_context_ptr cpu, k)
                 | next_task # rest \<Rightarrow>
                     do { let k1 = upd_cpu c (\<lambda>cpu. cpu \<lparr> run_queue := Some (rq \<lparr> ready := rest \<rparr>),
                                        ready_count := fetch_sub_1 (ready_count cpu) \<rparr>) k;
                          k2 \<leftarrow> requeue_current (insert next_task slots) c k1;
                          let k3 = set_task_state next_task Running k2;
                          t \<leftarrow> unwrap (k_tasks k3 next_task);
                          k4 \<leftarrow> switch_cr3 X c (t_cr3 t) k3;
                          k5 \<leftarrow> set_tss_rsp0 X c (ti_kernel_stack_top (t_inner t)) k4;
                          assert_that (ctx_cs (ti_context (t_inner t)) = 0x08
                                       \<or> ctx_cs (ti_context (t_inner t)) = 0x23);
                          rq' \<leftarrow> do { cpu' \<leftarrow> get_cpu k5 c; unwrap (run_queue cpu') };
                          Some (Some next_task,
                                upd_cpu c (\<lambda>cpu. cpu \<lparr> run_queue := Some (rq' \<lparr> current_task := Some next_task \<rparr>),
                                                       current_context_ptr := Some next_task \<rparr>) k5) } } }"

section \<open>Invariant\<close>

text \<open>The part of a task the hardware sees when it runs; the operations never change it.\<close>

definition t_core :: "'s Task \<Rightarrow> nat \<times> nat \<times> nat" where
  "t_core t = (ctx_cs (ti_context (t_inner t)), ti_kernel_stack_top (t_inner t), t_cr3 t)"

definition same_tasks :: "(nat \<rightharpoonup> 's Task) \<Rightarrow> (nat \<rightharpoonup> 's Task) \<Rightarrow> bool" where
  "same_tasks ts ts' \<longleftrightarrow> (\<forall>t. map_option t_core (ts' t) = map_option t_core (ts t))"

text \<open>One CPU: its queue counter is exact, its context pointer is its running task, every task
  it holds can be switched to, and the address space and kernel stack installed in the hardware are
  those of the running task.\<close>

definition cpu_ok :: "(nat \<rightharpoonup> 's Task) \<Rightarrow> nat \<Rightarrow> CpuLocalData \<Rightarrow> bool" where
  "cpu_ok ts c cpu \<longleftrightarrow> kernel_id cpu = c \<and> (cpu_state cpu = CpuReady \<longrightarrow> run_queue cpu \<noteq> None) \<and>
     (\<forall>rq. run_queue cpu = Some rq \<longrightarrow>
        tss_rsp0 cpu \<noteq> None \<and> ready_count cpu = length (ready rq) mod U64_LIMIT \<and>
        current_context_ptr cpu = current_task rq \<and>
        (\<forall>t\<in>set (rq_tasks rq). \<exists>x. ts t = Some x \<and> task_ok x) \<and>
        (\<forall>t x. current_task rq = Some t \<longrightarrow> ts t = Some x \<longrightarrow>
           hw_cr3 cpu = t_cr3 x \<and> tss_rsp0 cpu = Some (ti_kernel_stack_top (t_inner x)) \<and>
           current_task_kernel_stack_top cpu = ti_kernel_stack_top (t_inner x)))"

definition sched_ok :: "('s, 'z) Sched_scheme \<Rightarrow> bool" where
  "sched_ok k \<longleftrightarrow> (\<forall>c cpu. c < length (k_cpus k) \<longrightarrow> k_cpus k ! c = Some cpu \<longrightarrow> cpu_ok (k_tasks k) c cpu)"

lemma task_ok_core: "t_core x = t_core y \<Longrightarrow> task_ok x = task_ok y"
  by (simp add: t_core_def task_ok_def)

lemma same_tasks_refl [simp]: "same_tasks ts ts"
  by (simp add: same_tasks_def)

lemma same_tasks_trans: "same_tasks ts ts' \<Longrightarrow> same_tasks ts' ts'' \<Longrightarrow> same_tasks ts ts''"
  by (simp add: same_tasks_def)

lemma same_tasks_SomeD: "same_tasks ts ts' \<Longrightarrow> ts t = Some x \<Longrightarrow> \<exists>y. ts' t = Some y \<and> t_core y = t_core x"
proof -
  assume "same_tasks ts ts'" "ts t = Some x"
  then have "map_option t_core (ts' t) = Some (t_core x)" by (simp add: same_tasks_def)
  then show ?thesis by auto
qed

lemma same_tasks_SomeD':
  assumes "same_tasks ts ts'" "ts' t = Some y"
  shows "\<exists>x. ts t = Some x \<and> t_core y = t_core x"
proof -
  have "map_option t_core (ts' t) = map_option t_core (ts t)" using assms(1) by (simp add: same_tasks_def)
  then show ?thesis using assms(2) by (cases "ts t") simp_all
qed

lemma cpu_okD:
  assumes "cpu_ok ts c cpu" "run_queue cpu = Some rq"
  shows "tss_rsp0 cpu \<noteq> None" "ready_count cpu = length (ready rq) mod U64_LIMIT"
    "current_context_ptr cpu = current_task rq"
    "t \<in> set (rq_tasks rq) \<Longrightarrow> \<exists>x. ts t = Some x \<and> task_ok x"
    "current_task rq = Some t \<Longrightarrow> ts t = Some x \<Longrightarrow> hw_cr3 cpu = t_cr3 x \<and>
       tss_rsp0 cpu = Some (ti_kernel_stack_top (t_inner x)) \<and>
       current_task_kernel_stack_top cpu = ti_kernel_stack_top (t_inner x)"
  using assms unfolding cpu_ok_def by blast+

lemma cpu_okI:
  assumes "kernel_id cpu = c" "run_queue cpu = Some rq" "tss_rsp0 cpu \<noteq> None"
    "ready_count cpu = length (ready rq) mod U64_LIMIT" "current_context_ptr cpu = current_task rq"
    "\<And>t. t \<in> set (rq_tasks rq) \<Longrightarrow> \<exists>x. ts t = Some x \<and> task_ok x"
    "\<And>t x. current_task rq = Some t \<Longrightarrow> ts t = Some x \<Longrightarrow> hw_cr3 cpu = t_cr3 x \<and>
       tss_rsp0 cpu = Some (ti_kernel_stack_top (t_inner x)) \<and>
       current_task_kernel_stack_top cpu = ti_kernel_stack_top (t_inner x)"
  shows "cpu_ok ts c cpu"
  unfolding cpu_ok_def
proof (intro conjI allI impI ballI)
  fix r assume "run_queue cpu = Some r"
  then have r: "r = rq" using assms(2) by simp
  show "tss_rsp0 cpu \<noteq> None" "ready_count cpu = length (ready r) mod U64_LIMIT"
    "current_context_ptr cpu = current_task r" using assms(3-5) r by simp_all
  show "\<exists>x. ts t = Some x \<and> task_ok x" if "t \<in> set (rq_tasks r)" for t using assms(6) that r by simp
  fix t x assume "current_task r = Some t" "ts t = Some x"
  then show "hw_cr3 cpu = t_cr3 x" "tss_rsp0 cpu = Some (ti_kernel_stack_top (t_inner x))"
    "current_task_kernel_stack_top cpu = ti_kernel_stack_top (t_inner x)" using assms(7) r by simp_all
qed (use assms in simp_all)

lemma cpu_ok_id: "cpu_ok ts c cpu \<Longrightarrow> kernel_id cpu = c"
  by (simp add: cpu_ok_def)

lemma cpu_ok_ready: "cpu_ok ts c cpu \<Longrightarrow> cpu_state cpu = CpuReady \<Longrightarrow> \<exists>rq. run_queue cpu = Some rq"
  by (auto simp: cpu_ok_def)

lemma cpu_ok_same_tasks:
  assumes "cpu_ok ts c cpu" "same_tasks ts ts'"
  shows "cpu_ok ts' c cpu"
  unfolding cpu_ok_def
proof (intro conjI allI impI ballI)
  show "kernel_id cpu = c" by (rule cpu_ok_id [OF assms(1)])
  show "cpu_state cpu = CpuReady \<Longrightarrow> run_queue cpu \<noteq> None" using cpu_ok_ready [OF assms(1)] by auto
  fix rq assume rq: "run_queue cpu = Some rq"
  note d = cpu_okD [OF assms(1) rq]
  show "tss_rsp0 cpu \<noteq> None" "ready_count cpu = length (ready rq) mod U64_LIMIT"
    "current_context_ptr cpu = current_task rq" by (fact d)+
  show "\<exists>y. ts' t = Some y \<and> task_ok y" if "t \<in> set (rq_tasks rq)" for t
    using d(4) [OF that] same_tasks_SomeD [OF assms(2)] task_ok_core by metis
  fix t y assume c: "current_task rq = Some t" "ts' t = Some y"
  then obtain x where x: "ts t = Some x" "t_core y = t_core x" using same_tasks_SomeD' [OF assms(2)] by blast
  show "hw_cr3 cpu = t_cr3 y" "tss_rsp0 cpu = Some (ti_kernel_stack_top (t_inner y))"
    "current_task_kernel_stack_top cpu = ti_kernel_stack_top (t_inner y)"
    using d(5) [OF c(1) x(1)] x(2) by (simp_all add: t_core_def)
qed

lemma same_tasks_upd:
  "(\<And>x. t_core (f x) = t_core x) \<Longrightarrow> same_tasks ts (ts(t := map_option f (ts t)))"
  by (simp add: same_tasks_def option.map_comp comp_def)

lemma get_cpu_SomeD: "get_cpu k c = Some cpu \<Longrightarrow> c < length (k_cpus k) \<and> k_cpus k ! c = Some cpu"
  by (simp add: get_cpu_def unwrap_def split: if_splits)

lemma get_cpu_upd_same: "get_cpu k c = Some cpu \<Longrightarrow> get_cpu (upd_cpu c f k) c = Some (f cpu)"
  by (auto simp: upd_cpu_def get_cpu_def unwrap_def split: if_splits)

lemma upd_cpu_eq: "get_cpu k c = Some cpu \<Longrightarrow> upd_cpu c f k = k \<lparr> k_cpus := (k_cpus k)[c := Some (f cpu)] \<rparr>"
  by (auto simp: upd_cpu_def dest!: get_cpu_SomeD)

lemma get_cpu_upd_task [simp]: "get_cpu (upd_task t f k) c = get_cpu k c"
  by (simp add: upd_task_def get_cpu_def)

lemma get_cpu_set_task_state [simp]: "get_cpu (set_task_state t s k) c = get_cpu k c"
  by (simp add: set_task_state_def)

lemma upd_simps [simp]:
  "k_tasks (upd_cpu c f k) = k_tasks k" "k_cpus (upd_task t g k) = k_cpus k"
  "k_cpus (set_task_state t s k) = k_cpus k"
  "k_tasks (upd_task t g k) = (k_tasks k)(t := map_option g (k_tasks k t))"
  "k_tasks (set_task_state t s k) = (k_tasks k)(t := map_option (\<lambda>x. x \<lparr> t_state := s \<rparr>) (k_tasks k t))"
  by (simp_all add: upd_cpu_def upd_task_def set_task_state_def)

lemma get_cpu_written [simp]:
  "c < length (k_cpus k) \<Longrightarrow> get_cpu (k \<lparr> k_cpus := (k_cpus k)[c := Some x], k_tasks := ts \<rparr>) c = Some x"
  "c < length (k_cpus k) \<Longrightarrow> get_cpu (k \<lparr> k_cpus := (k_cpus k)[c := Some x] \<rparr>) c = Some x"
  by (simp_all add: get_cpu_def)

lemma sched_okD: "sched_ok k \<Longrightarrow> get_cpu k c = Some cpu \<Longrightarrow> cpu_ok (k_tasks k) c cpu"
  by (auto simp: sched_ok_def dest!: get_cpu_SomeD)

text \<open>Rewriting one CPU and changing tasks outside their core keeps the invariant when the new
  CPU is well formed.\<close>

lemma sched_ok_update:
  assumes "sched_ok k" "same_tasks (k_tasks k) ts'" "cpu_ok ts' c cpu'"
  shows "sched_ok (k \<lparr> k_cpus := (k_cpus k)[c := Some cpu'], k_tasks := ts' \<rparr>)"
  unfolding sched_ok_def
proof (intro allI impI)
  fix d cpu
  assume "d < length (k_cpus (k \<lparr> k_cpus := (k_cpus k)[c := Some cpu'], k_tasks := ts' \<rparr>))"
    "k_cpus (k \<lparr> k_cpus := (k_cpus k)[c := Some cpu'], k_tasks := ts' \<rparr>) ! d = Some cpu"
  then have d: "d < length (k_cpus k)" "if d = c then cpu = cpu' else k_cpus k ! d = Some cpu"
    by (auto simp: nth_list_update split: if_splits)
  show "cpu_ok (k_tasks (k \<lparr> k_cpus := (k_cpus k)[c := Some cpu'], k_tasks := ts' \<rparr>)) d cpu"
  proof (cases "d = c")
    case True
    then show ?thesis using d assms(3) by simp
  next
    case False
    then have "cpu_ok (k_tasks k) d cpu" using assms(1) d by (simp add: sched_ok_def)
    then show ?thesis using cpu_ok_same_tasks [OF _ assms(2)] by simp
  qed
qed

lemma sched_ok_tasks:
  assumes "sched_ok k" "same_tasks (k_tasks k) ts'"
  shows "sched_ok (k \<lparr> k_tasks := ts' \<rparr>)"
proof -
  have "cpu_ok ts' c cpu" if "c < length (k_cpus k)" "k_cpus k ! c = Some cpu" for c cpu
    using assms that cpu_ok_same_tasks unfolding sched_ok_def by metis
  then show ?thesis by (simp add: sched_ok_def)
qed

lemma mset_concat_update:
  "c < length xs \<Longrightarrow> mset (concat (map f (xs[c := y]))) + mset (f (xs ! c)) = mset (concat (map f xs)) + mset (f y)"
  by (induction xs arbitrary: c) (auto simp: less_Suc_eq_0_disj ac_simps)

section \<open>What scheduling does\<close>

definition requeued :: "(nat \<rightharpoonup> 's Task) \<Rightarrow> RunQueue \<Rightarrow> nat list" where
  "requeued ts rq = (case current_task rq of None \<Rightarrow> [] | Some p \<Rightarrow>
     (case ts p of None \<Rightarrow> [] | Some t \<Rightarrow> if t_state t = Zombie \<or> t_state t = Sleeping then [] else [p]))"

definition charge :: "'s Task \<Rightarrow> 's Task" where
  "charge t = (let t' = t \<lparr> t_cpu_ticks := fetch_add_1 (t_cpu_ticks t) \<rparr> in
     if t_state t = Zombie \<or> t_state t = Sleeping then t' else t' \<lparr> t_state := Ready \<rparr>)"

definition outgoing :: "(nat \<rightharpoonup> 's Task) \<Rightarrow> RunQueue \<Rightarrow> (nat \<rightharpoonup> 's Task)" where
  "outgoing ts rq = (case current_task rq of None \<Rightarrow> ts | Some p \<Rightarrow> ts(p := map_option charge (ts p)))"

definition incoming :: "(nat \<rightharpoonup> 's Task) \<Rightarrow> nat \<Rightarrow> (nat \<rightharpoonup> 's Task)" where
  "incoming ts n = ts(n := map_option (\<lambda>t. t \<lparr> t_state := Running \<rparr>) (ts n))"

text \<open>The CPU after switching to \<open>n\<close> with the rest of its queue \<open>q\<close> and the counter \<open>m\<close>.\<close>

definition switched_cpu :: "nat \<Rightarrow> 's Task \<Rightarrow> nat list \<Rightarrow> nat \<Rightarrow> CpuLocalData \<Rightarrow> CpuLocalData" where
  "switched_cpu n t q m cpu = cpu
     \<lparr> run_queue := Some \<lparr> current_task = Some n, ready = q \<rparr>, ready_count := m,
       hw_cr3 := t_cr3 t, tss_rsp0 := Some (ti_kernel_stack_top (t_inner t)),
       current_task_kernel_stack_top := ti_kernel_stack_top (t_inner t),
       current_context_ptr := Some n \<rparr>"

lemma charge_core [simp]: "t_core (charge t) = t_core t"
  by (simp add: charge_def Let_def t_core_def)

lemma same_tasks_outgoing: "same_tasks ts (outgoing ts rq)"
  by (auto simp: outgoing_def intro!: same_tasks_upd split: option.split)

lemma same_tasks_incoming: "same_tasks ts (incoming ts n)"
  unfolding incoming_def by (rule same_tasks_upd) (simp add: t_core_def)

lemma same_tasks_switch: "same_tasks ts (incoming (outgoing ts rq) n)"
  by (rule same_tasks_trans [OF same_tasks_outgoing same_tasks_incoming])

text \<open>The outgoing task leaves the run queues, and no reference to it is left.\<close>

definition outgoing_dies :: "nat set \<Rightarrow> ('s, 'z) Sched_scheme \<Rightarrow> RunQueue \<Rightarrow> bool" where
  "outgoing_dies slots k rq \<longleftrightarrow> (\<exists>p x. current_task rq = Some p \<and> k_tasks k p = Some x \<and> (t_state x = Zombie \<or> t_state x = Sleeping) \<and>
     p \<notin> slots \<and> p \<notin> k_task_table k \<and> count (mset (placed k)) p = 1)"

lemma placed_take_current:
  assumes "get_cpu k c = Some cpu" "run_queue cpu = Some rq" "current_task rq = Some p"
  shows "add_mset p (mset (placed (upd_cpu c (\<lambda>cpu. cpu \<lparr> run_queue := Some (rq \<lparr> current_task := None \<rparr>) \<rparr>) k))) = mset (placed k)"
proof -
  let ?cpu = "cpu \<lparr> run_queue := Some (rq \<lparr> current_task := None \<rparr>) \<rparr>"
  have c: "c < length (k_cpus k)" "k_cpus k ! c = Some cpu" using get_cpu_SomeD [OF assms(1)] by auto
  then have "mset (concat (map slot_tasks ((k_cpus k)[c := Some ?cpu]))) + mset (slot_tasks (Some cpu)) =
      mset (concat (map slot_tasks (k_cpus k))) + mset (slot_tasks (Some ?cpu))"
    using mset_concat_update [of c "k_cpus k" slot_tasks "Some ?cpu"] by simp
  then show ?thesis using assms(2,3) c by (simp add: placed_def upd_cpu_def slot_tasks_def rq_tasks_def)
qed

lemma current_placed:
  assumes "get_cpu k c = Some cpu" "run_queue cpu = Some rq" "current_task rq = Some p"
  shows "p \<in> set (placed k)"
  using placed_take_current [OF assms] by (metis set_mset_mset union_single_eq_member)

lemma requeue_current_eq:
  assumes "get_cpu k c = Some cpu" "run_queue cpu = Some rq"
    "\<forall>p. current_task rq = Some p \<longrightarrow> k_tasks k p \<noteq> None"
  shows "requeue_current slots c k = (if outgoing_dies slots k rq then panic else Some (k
    \<lparr> k_cpus := (k_cpus k)[c := Some (cpu
        \<lparr> run_queue := Some \<lparr> current_task = None, ready = ready rq @ requeued (k_tasks k) rq \<rparr>,
          ready_count := (if requeued (k_tasks k) rq = [] then ready_count cpu else fetch_add_1 (ready_count cpu)) \<rparr>)],
      k_tasks := outgoing (k_tasks k) rq \<rparr>))"
proof -
  have c: "c < length (k_cpus k)" "k_cpus k ! c = Some cpu" using get_cpu_SomeD [OF assms(1)] by auto
  show ?thesis
  proof (cases "current_task rq")
    case None
    then have "(k_cpus k)[c := Some (cpu \<lparr> run_queue := Some \<lparr> current_task = None, ready = ready rq \<rparr> \<rparr>)] = k_cpus k"
      using c assms(2) by (cases cpu; cases rq) (simp add: list_update_same_conv)
    then show ?thesis using assms None by (simp add: requeue_current_def requeued_def outgoing_def outgoing_dies_def)
  next
    case (Some p)
    then obtain t where t: "k_tasks k p = Some t" using assms(3) by auto
    let ?k1 = "upd_cpu c (\<lambda>cpu. cpu \<lparr> run_queue := Some (rq \<lparr> current_task := None \<rparr>) \<rparr>) k"
    let ?k2 = "upd_task p (\<lambda>t. t \<lparr> t_cpu_ticks := fetch_add_1 (t_cpu_ticks t) \<rparr>) ?k1"
    have m: "mset (placed k) = add_mset p (mset (placed ?k1))" using placed_take_current [OF assms(1,2) Some] by simp
    have pl: "placed ?k2 = placed ?k1" "k_task_table ?k2 = k_task_table k" by (simp_all add: placed_def upd_task_def upd_cpu_def)
    have "p \<in> set (placed ?k1) \<longleftrightarrow> count (mset (placed k)) p \<noteq> 1"
      unfolding m by (simp add: not_in_iff [symmetric] flip: set_mset_mset)
    then have d: "last_reference slots ?k2 p \<longleftrightarrow> p \<notin> slots \<and> p \<notin> k_task_table k \<and> count (mset (placed k)) p = 1"
      unfolding last_reference_def pl by blast
    have run: "requeue_current slots c k = (if t_state t = Zombie \<or> t_state t = Sleeping
        then (if last_reference slots ?k2 p then panic else Some ?k2) else sched_add c p (set_task_state p Ready ?k2))"
      using assms(1,2) Some t by (simp add: requeue_current_def Let_def)
    have "outgoing_dies slots k rq \<longleftrightarrow> (t_state t = Zombie \<or> t_state t = Sleeping) \<and> last_reference slots ?k2 p"
      using Some t d by (auto simp: outgoing_dies_def)
    moreover have "?k2 = k \<lparr> k_cpus := (k_cpus k)[c := Some (cpu \<lparr> run_queue := Some \<lparr> current_task = None, ready = ready rq \<rparr> \<rparr>)],
        k_tasks := (k_tasks k)(p \<mapsto> t \<lparr> t_cpu_ticks := fetch_add_1 (t_cpu_ticks t) \<rparr>) \<rparr>"
      using t c by (cases rq) (simp add: upd_cpu_def upd_task_def)
    moreover have "sched_add c p (set_task_state p Ready ?k2) = Some (k \<lparr> k_cpus := (k_cpus k)[c := Some (cpu
          \<lparr> run_queue := Some \<lparr> current_task = None, ready = ready rq @ [p] \<rparr>, ready_count := fetch_add_1 (ready_count cpu) \<rparr>)],
        k_tasks := (k_tasks k)(p \<mapsto> t \<lparr> t_cpu_ticks := fetch_add_1 (t_cpu_ticks t), t_state := Ready \<rparr>) \<rparr>)"
      using t c by (cases rq) (simp add: upd_cpu_def upd_task_def set_task_state_def sched_add_def get_cpu_def)
    ultimately show ?thesis
      unfolding run using Some t by (cases "t_state t = Zombie \<or> t_state t = Sleeping") (simp_all add: requeued_def outgoing_def charge_def Let_def)
  qed
qed

lemma schedule_idle:
  "get_cpu k c = Some cpu \<Longrightarrow> ready_count cpu = 0 \<or> (\<exists>rq. run_queue cpu = Some rq \<and> ready rq = []) \<Longrightarrow>
   schedule_from_interrupt X slots c k = Some (current_context_ptr cpu, k)"
  by (auto simp: schedule_from_interrupt_def)

definition switch_count :: "nat \<Rightarrow> nat list \<Rightarrow> nat" where
  "switch_count m r = (if r = [] then fetch_sub_1 m else fetch_add_1 (fetch_sub_1 m))"

text \<open>Taking the next task from the queue moves its reference to a local variable.\<close>

lemma outgoing_dies_pop:
  assumes "get_cpu k c = Some cpu" "run_queue cpu = Some rq" "ready rq = n # q"
  shows "outgoing_dies (insert n slots) (k \<lparr> k_cpus := (k_cpus k)[c := Some (cpu \<lparr> run_queue := Some (rq \<lparr> ready := q \<rparr>), ready_count := m \<rparr>)] \<rparr>)
           (rq \<lparr> ready := q \<rparr>) \<longleftrightarrow> outgoing_dies slots k rq"
proof -
  let ?cpu = "cpu \<lparr> run_queue := Some (rq \<lparr> ready := q \<rparr>), ready_count := m \<rparr>"
  let ?k1 = "k \<lparr> k_cpus := (k_cpus k)[c := Some ?cpu] \<rparr>"
  have c: "c < length (k_cpus k)" "k_cpus k ! c = Some cpu" using get_cpu_SomeD [OF assms(1)] by auto
  then have "mset (concat (map slot_tasks ((k_cpus k)[c := Some ?cpu]))) + mset (slot_tasks (Some cpu)) =
      mset (concat (map slot_tasks (k_cpus k))) + mset (slot_tasks (Some ?cpu))"
    using mset_concat_update [of c "k_cpus k" slot_tasks "Some ?cpu"] by simp
  then have m: "mset (placed k) = add_mset n (mset (placed ?k1))"
    using assms(2,3) c by (simp add: placed_def slot_tasks_def rq_tasks_def)
  have cur: "p \<in># mset (placed ?k1)" if "current_task rq = Some p" for p
  proof -
    have "p \<in> set (slot_tasks (Some ?cpu))" using that by (simp add: slot_tasks_def rq_tasks_def)
    moreover have "Some ?cpu \<in> set (k_cpus ?k1)" using c(1) by (simp add: set_update_memI)
    ultimately have "p \<in> (\<Union>x\<in>set (k_cpus ?k1). set (slot_tasks x))" by (rule UN_I [rotated])
    then show ?thesis by (simp add: placed_def)
  qed
  have "count (mset (placed k)) p = 1 \<longleftrightarrow> p \<noteq> n \<and> count (mset (placed ?k1)) p = 1" if "current_task rq = Some p" for p
    using cur [OF that] unfolding m by (auto simp: not_in_iff [symmetric])
  then show ?thesis unfolding outgoing_dies_def by auto
qed

lemma schedule_switch:
  assumes "x86_addr X" "get_cpu k c = Some cpu" "run_queue cpu = Some rq" "ready rq = n # q"
    "ready_count cpu \<noteq> 0" "tss_rsp0 cpu \<noteq> None" "k_tasks k n = Some t" "task_ok t"
    "\<forall>p. current_task rq = Some p \<longrightarrow> k_tasks k p \<noteq> None"
  shows "schedule_from_interrupt X slots c k = (if outgoing_dies slots k rq then panic else Some (Some n, k
    \<lparr> k_cpus := (k_cpus k)[c := Some (switched_cpu n t (q @ requeued (k_tasks k) rq)
                      (switch_count (ready_count cpu) (requeued (k_tasks k) rq)) cpu)],
      k_tasks := incoming (outgoing (k_tasks k) rq) n \<rparr>))"
proof -
  have c: "c < length (k_cpus k)" "k_cpus k ! c = Some cpu" using get_cpu_SomeD [OF assms(2)] by auto
  let ?rq1 = "rq \<lparr> ready := q \<rparr>" and ?r = "requeued (k_tasks k) rq"
  let ?cpu1 = "cpu \<lparr> run_queue := Some ?rq1, ready_count := fetch_sub_1 (ready_count cpu) \<rparr>"
  let ?k1 = "k \<lparr> k_cpus := (k_cpus k)[c := Some ?cpu1] \<rparr>"
  let ?cpu2 = "cpu \<lparr> run_queue := Some \<lparr> current_task = None, ready = q @ ?r \<rparr>,
                 ready_count := switch_count (ready_count cpu) ?r \<rparr>"
  let ?ts = "outgoing (k_tasks k) rq"
  let ?k2 = "k \<lparr> k_cpus := (k_cpus k)[c := Some ?cpu2], k_tasks := ?ts \<rparr>"
  have req: "requeued (k_tasks k) ?rq1 = ?r" "outgoing (k_tasks k) ?rq1 = ?ts"
    by (simp_all add: requeued_def outgoing_def charge_def Let_def)
  have dies: "outgoing_dies (insert n slots) ?k1 ?rq1 \<longleftrightarrow> outgoing_dies slots k rq" by (rule outgoing_dies_pop [OF assms(2-4)])
  have q: "requeue_current (insert n slots) c ?k1 = (if outgoing_dies slots k rq then panic else Some ?k2)"
    using requeue_current_eq [of ?k1 c ?cpu1 ?rq1 "insert n slots"] c(1) assms(9) req dies by (simp add: switch_count_def)
  obtain t' where t': "incoming ?ts n n = Some t'" "t_core t' = t_core t"
    using same_tasks_SomeD [OF same_tasks_switch [of "k_tasks k" rq n], of n t] assms(7) by blast
  have core: "t_cr3 t' = t_cr3 t" "ti_kernel_stack_top (t_inner t') = ti_kernel_stack_top (t_inner t)"
      "ctx_cs (ti_context (t_inner t')) = ctx_cs (ti_context (t_inner t))"
    using t'(2) by (simp_all add: t_core_def)
  have hw: "virt_addr_new X (ti_kernel_stack_top (t_inner t)) = Some (ti_kernel_stack_top (t_inner t))"
      "phys_addr_new X (t_cr3 t) = Some (t_cr3 t)" "frame_containing_address X (t_cr3 t) = t_cr3 t"
    using assms(8) x86_addr.virt_new [OF assms(1)] x86_addr.phys_new [OF assms(1)]
      x86_addr.frame_aligned [OF assms(1)] by (simp_all add: task_ok_def)
  have cs: "ctx_cs (ti_context (t_inner t)) = 8 \<or> ctx_cs (ti_context (t_inner t)) = 35"
    using assms(8) by (simp add: task_ok_def)
  let ?ts' = "incoming ?ts n"
  let ?K = "\<lambda>x. k \<lparr> k_cpus := (k_cpus k)[c := Some x], k_tasks := ?ts' \<rparr>"
  have st: "set_task_state n Running ?k2 = ?K ?cpu2"
    by (simp add: set_task_state_def upd_task_def incoming_def)
  have upd: "upd_cpu c f (?K x) = ?K (f x)" "get_cpu (?K x) c = Some x" "k_tasks (?K x) = ?ts'" for f x
    using c(1) by (simp_all add: upd_cpu_def get_cpu_def)
  have r4: "switch_cr3 X c (t_cr3 t) (?K x) = Some (?K (x \<lparr> hw_cr3 := t_cr3 t \<rparr>))" for x
    using hw by (cases "t_cr3 t = hw_cr3 x") (simp_all add: switch_cr3_def upd)
  have r5: "tss_rsp0 x \<noteq> None \<Longrightarrow> set_tss_rsp0 X c (ti_kernel_stack_top (t_inner t)) (?K x)
      = Some (?K (x \<lparr> tss_rsp0 := Some (ti_kernel_stack_top (t_inner t)),
                      current_task_kernel_stack_top := ti_kernel_stack_top (t_inner t) \<rparr>))" for x
    using hw by (auto simp: set_tss_rsp0_def upd)
  have k1: "upd_cpu c (\<lambda>cpu. cpu \<lparr> run_queue := Some ?rq1, ready_count := fetch_sub_1 (ready_count cpu) \<rparr>) k = ?k1"
    by (rule upd_cpu_eq [OF assms(2)])
  show ?thesis
    using assms(2-6) q cs
    by (simp add: schedule_from_interrupt_def k1 st t' core upd r4 r5 del: get_cpu_written upd_simps)
      (cases cpu, simp add: switched_cpu_def)
qed

text \<open>The queue counter after a switch is exact again.\<close>

lemma switch_count_exact:
  assumes "m = length (n # q) mod U64_LIMIT" "length r \<le> 1"
  shows "switch_count m r = length (q @ r) mod U64_LIMIT"
proof -
  have s: "fetch_sub_1 m = length q mod U64_LIMIT" using assms(1) by (simp add: fetch_sub_mod)
  show ?thesis using assms(2) s by (cases r) (simp_all add: switch_count_def fetch_add_mod)
qed

lemma requeued_length: "length (requeued ts rq) \<le> 1"
  by (auto simp: requeued_def split: option.splits)

lemma requeued_current: "p \<in> set (requeued ts rq) \<Longrightarrow> current_task rq = Some p"
  by (auto simp: requeued_def split: option.splits if_splits)

lemma switched_cpu_ok:
  assumes "cpu_ok ts c cpu" "run_queue cpu = Some rq" "ready rq = n # q" "ts n = Some t"
    "same_tasks ts ts'"
  shows "cpu_ok ts' c (switched_cpu n t (q @ requeued ts rq) (switch_count (ready_count cpu) (requeued ts rq)) cpu)"
proof (rule cpu_ok_same_tasks [OF _ assms(5)])
  note d = cpu_okD [OF assms(1,2)]
  have m: "switch_count (ready_count cpu) (requeued ts rq) = length (q @ requeued ts rq) mod U64_LIMIT"
    using d(2) assms(3) by (intro switch_count_exact [OF _ requeued_length]) simp
  have "\<exists>x. ts u = Some x \<and> task_ok x" if "u = n \<or> u \<in> set q \<or> u \<in> set (requeued ts rq)" for u
    using that d(4) assms(3) requeued_current [of u ts rq] by (auto simp: rq_tasks_def)
  then show "cpu_ok ts c (switched_cpu n t (q @ requeued ts rq) (switch_count (ready_count cpu) (requeued ts rq)) cpu)"
    using assms(4) m cpu_ok_id [OF assms(1)] by (simp add: cpu_ok_def switched_cpu_def rq_tasks_def)
qed

lemma ready_count_pos:
  assumes "cpu_ok ts c cpu" "run_queue cpu = Some rq" "ready rq = n # q" "length (ready rq) < U64_LIMIT"
  shows "ready_count cpu \<noteq> 0"
  using cpu_okD(2) [OF assms(1,2)] assms(3,4) by simp

text \<open>A schedule step under the invariant: what the caller gets and what the state becomes.\<close>

lemma schedule_step:
  assumes "x86_addr X" "sched_ok k" "get_cpu k c = Some cpu" "run_queue cpu = Some rq"
    "ready rq = n # q" "length (ready rq) < U64_LIMIT"
  shows "\<exists>t ts'. k_tasks k n = Some t \<and> same_tasks (k_tasks k) ts' \<and> ts' = incoming (outgoing (k_tasks k) rq) n \<and>
    schedule_from_interrupt X slots c k = (if outgoing_dies slots k rq then panic else
      Some (Some n, k \<lparr> k_cpus := (k_cpus k)[c := Some (switched_cpu n t
        (q @ requeued (k_tasks k) rq) (switch_count (ready_count cpu) (requeued (k_tasks k) rq)) cpu)], k_tasks := ts' \<rparr>)) \<and>
    cpu_ok ts' c (switched_cpu n t (q @ requeued (k_tasks k) rq)
        (switch_count (ready_count cpu) (requeued (k_tasks k) rq)) cpu)"
proof -
  have ok: "cpu_ok (k_tasks k) c cpu" by (rule sched_okD [OF assms(2,3)])
  note d = cpu_okD [OF ok assms(4)]
  obtain t where t: "k_tasks k n = Some t" "task_ok t" using d(4) [of n] assms(5) by (auto simp: rq_tasks_def)
  have "k_tasks k p \<noteq> None" if "current_task rq = Some p" for p
    using d(4) [of p] that by (auto simp: rq_tasks_def)
  then have "schedule_from_interrupt X slots c k = (if outgoing_dies slots k rq then panic else
      Some (Some n, k \<lparr> k_cpus := (k_cpus k)[c := Some (switched_cpu n t
        (q @ requeued (k_tasks k) rq) (switch_count (ready_count cpu) (requeued (k_tasks k) rq)) cpu)],
        k_tasks := incoming (outgoing (k_tasks k) rq) n \<rparr>))"
    using assms ready_count_pos [OF ok assms(4,5,6)] d(1) t by (intro schedule_switch) auto
  then show ?thesis
    using t(1) same_tasks_switch switched_cpu_ok [OF ok assms(4,5) t(1) same_tasks_switch] by blast
qed

lemma schedule_dies:
  assumes "x86_addr X" "sched_ok k" "get_cpu k c = Some cpu" "run_queue cpu = Some rq"
    "ready rq \<noteq> []" "length (ready rq) < U64_LIMIT" "outgoing_dies slots k rq"
  shows "schedule_from_interrupt X slots c k = panic"
proof -
  obtain n q where "ready rq = n # q" using assms(5) by (cases "ready rq") auto
  from schedule_step [OF assms(1-4) this assms(6), of slots] assms(7) show ?thesis by (simp only: if_True) blast
qed

lemma placed_update:
  assumes "get_cpu k c = Some cpu" "run_queue cpu = Some rq" "run_queue cpu' = Some rq'"
  shows "mset (placed (k \<lparr> k_cpus := (k_cpus k)[c := Some cpu'], k_tasks := ts \<rparr>)) + mset (rq_tasks rq)
       = mset (placed k) + mset (rq_tasks rq')"
proof -
  have "c < length (k_cpus k)" "slot_tasks (k_cpus k ! c) = rq_tasks rq" "slot_tasks (Some cpu') = rq_tasks rq'"
    using get_cpu_SomeD [OF assms(1)] assms by (auto simp: slot_tasks_def)
  then show ?thesis
    using mset_concat_update [of c "k_cpus k" slot_tasks "Some cpu'"] by (simp add: placed_def)
qed

definition outgoing_task :: "RunQueue \<Rightarrow> nat list" where
  "outgoing_task rq = (case current_task rq of None \<Rightarrow> [] | Some p \<Rightarrow> [p])"

lemma distinct_count_le: "distinct xs \<longleftrightarrow> (\<forall>a. count (mset xs) a \<le> 1)"
  by (induction xs) (auto simp: not_in_iff [symmetric] le_Suc_eq)

lemma distinct_mset_subset: "distinct xs \<Longrightarrow> mset ys \<subseteq># mset xs \<Longrightarrow> distinct ys"
  unfolding distinct_count_le by (meson le_trans mset_subset_eq_count)

lemma requeued_subset: "mset (requeued ts rq) \<subseteq># mset (outgoing_task rq)"
  by (auto simp: requeued_def outgoing_task_def split: option.split)

lemma schedule_total:
  assumes "x86_addr X" "sched_ok k" "get_cpu k c = Some cpu" "run_queue cpu = Some rq"
    "length (ready rq) < U64_LIMIT" "ready rq = [] \<or> \<not> outgoing_dies slots k rq"
  shows "\<exists>r k' cpu'. schedule_from_interrupt X slots c k = Some (r, k') \<and> sched_ok k' \<and>
    get_cpu k' c = Some cpu' \<and> r = current_context_ptr cpu' \<and>
    mset (placed k') + (if ready rq = [] then {#} else mset (outgoing_task rq) - mset (requeued (k_tasks k) rq))
      = mset (placed k)"
proof (cases "ready rq")
  case Nil
  then have "schedule_from_interrupt X slots c k = Some (current_context_ptr cpu, k)"
    using assms(3,4) by (intro schedule_idle) auto
  then show ?thesis using assms Nil by auto
next
  case (Cons n q)
  then have live: "\<not> outgoing_dies slots k rq" using assms(6) by simp
  from schedule_step [OF assms(1-4) Cons assms(5), of slots] live obtain t ts' where "k_tasks k n = Some t" and
    s: "schedule_from_interrupt X slots c k = Some (Some n, k \<lparr> k_cpus := (k_cpus k)[c := Some (switched_cpu n t
        (q @ requeued (k_tasks k) rq) (switch_count (ready_count cpu) (requeued (k_tasks k) rq)) cpu)], k_tasks := ts' \<rparr>)"
      (is "_ = Some (_, ?k')")
    and ok: "same_tasks (k_tasks k) ts'" "cpu_ok ts' c (switched_cpu n t (q @ requeued (k_tasks k) rq)
        (switch_count (ready_count cpu) (requeued (k_tasks k) rq)) cpu)" (is "cpu_ok _ _ ?cpu'")
    by (simp only: if_False) blast
  have c: "c < length (k_cpus k)" using get_cpu_SomeD [OF assms(3)] by simp
  have rq': "run_queue ?cpu' = Some \<lparr> current_task = Some n, ready = q @ requeued (k_tasks k) rq \<rparr>"
    by (simp add: switched_cpu_def)
  have "mset (placed ?k') + mset (rq_tasks rq)
      = mset (placed k) + mset (rq_tasks \<lparr> current_task = Some n, ready = q @ requeued (k_tasks k) rq \<rparr>)"
    by (rule placed_update [OF assms(3,4) rq'])
  moreover have "rq_tasks rq = outgoing_task rq @ n # q" using Cons by (simp add: rq_tasks_def outgoing_task_def split: option.split)
  moreover have "rq_tasks \<lparr> current_task = Some n, ready = q @ requeued (k_tasks k) rq \<rparr>
      = n # q @ requeued (k_tasks k) rq" by (simp add: rq_tasks_def)
  ultimately have "mset (placed ?k') + mset (outgoing_task rq) = mset (placed k) + mset (requeued (k_tasks k) rq)"
    by simp
  then have "mset (placed ?k') + (mset (outgoing_task rq) - mset (requeued (k_tasks k) rq)) = mset (placed k)"
    using requeued_subset [of "k_tasks k" rq]
    by (metis (no_types, lifting) add_diff_cancel_right' subset_mset.add_diff_assoc)
  moreover have "sched_ok ?k'" by (rule sched_ok_update [OF assms(2) ok])
  moreover have "get_cpu ?k' c = Some ?cpu'" using c by simp
  moreover have "current_context_ptr ?cpu' = Some n" by (simp add: switched_cpu_def)
  ultimately show ?thesis using s Cons by auto
qed

end
