(* ===== verification/Dispatch.thy ===== *)
theory Dispatch
  imports Scheduler
begin

text \<open>
  Placing tasks on CPUs: round-robin dispatch of new tasks (\<^verbatim>\<open>task/global_scheduler.rs\<close>) and
  waking a sleeping task on the CPU it slept on (\<^verbatim>\<open>syscall_handlers/mod.rs\<close>). Both append to a
  run queue and interrupt the CPU that owns it when it is not the executing one.
\<close>

section \<open>Dispatch and waking\<close>

definition send_reschedule_ipi :: "nat \<Rightarrow> nat \<Rightarrow> ('s, 'z) Sched_scheme \<Rightarrow> ('s, 'z) Sched_scheme rust" where
  "send_reschedule_ipi c target k =
     do { lcpu \<leftarrow> get_cpu k c;
          if target \<noteq> kernel_id lcpu
          then do { a \<leftarrow> local_apic_id_of k target;
                    Some (k \<lparr> k_ipis := k_ipis k @ [(a, RESCHEDULE_VECTOR)] \<rparr>) }
          else Some k }"

definition wake_task :: "nat \<Rightarrow> nat \<Rightarrow> nat \<Rightarrow> ('s, 'z) Sched_scheme \<Rightarrow> ('s, 'z) Sched_scheme rust" where
  "wake_task c t target_cpu_id k =
     do { k1 \<leftarrow> sched_add target_cpu_id t (set_task_state t Ready k);
          send_reschedule_ipi c target_cpu_id k1 }"

text \<open>The round-robin search of \<^verbatim>\<open>spawn_task\<close>: the first ready CPU from \<open>start\<close> on, cyclically.\<close>

definition spawn_target :: "('s, 'z) Sched_scheme \<Rightarrow> nat \<Rightarrow> nat option rust" where
  "spawn_target k start =
     (let total_cpus = length (k_cpus k)
      in find_map (\<lambda>i. do { s \<leftarrow> add_u64 start i;
                            let cid = s mod total_cpus;
                            Some (map_option (\<lambda>_. cid) (try_get_ready_cpu k cid)) })
           [0..<total_cpus])"

definition insert_task_table :: "nat \<Rightarrow> ('s, 'z) Sched_scheme \<Rightarrow> ('s, 'z) Sched_scheme rust" where
  "insert_task_table t k =
     (if t \<in> k_task_table k then panic else Some (k \<lparr> k_task_table := insert t (k_task_table k) \<rparr>))"

definition spawn_task :: "nat \<Rightarrow> nat \<Rightarrow> ('s, 'z) Sched_scheme \<Rightarrow> ('s, 'z) Sched_scheme rust" where
  "spawn_task c t k =
     do { k1 \<leftarrow> insert_task_table t (set_task_state t Ready k);
          let start = k_next_spawn_cpu k1;
          let k2 = k1 \<lparr> k_next_spawn_cpu := fetch_add_1 start \<rparr>;
          found \<leftarrow> spawn_target k2 start;
          lcpu \<leftarrow> get_cpu k2 c;
          let target = (case found of Some cid \<Rightarrow> cid | None \<Rightarrow> kernel_id lcpu);
          k3 \<leftarrow> sched_add target t k2;
          send_reschedule_ipi c target k3 }"

definition spawn_local_task :: "nat \<Rightarrow> nat \<Rightarrow> ('s, 'z) Sched_scheme \<Rightarrow> ('s, 'z) Sched_scheme rust" where
  "spawn_local_task c t k =
     do { k1 \<leftarrow> insert_task_table t (set_task_state t Ready k);
          sched_add c t k1 }"

definition current_task_and_cpu :: "('s, 'z) Sched_scheme \<Rightarrow> nat \<Rightarrow> (nat \<times> nat) option rust" where
  "current_task_and_cpu k c =
     do { cpu \<leftarrow> get_cpu k c;
          rq \<leftarrow> unwrap (run_queue cpu);
          Some (map_option (\<lambda>t. (t, kernel_id cpu)) (current_task rq)) }"

lemma sched_add_eq:
  "get_cpu k c = Some cpu \<Longrightarrow> run_queue cpu = Some rq \<Longrightarrow>
   sched_add c t k = Some (k \<lparr> k_cpus := (k_cpus k)[c := Some (cpu
     \<lparr> run_queue := Some (rq \<lparr> ready := ready rq @ [t] \<rparr>), ready_count := fetch_add_1 (ready_count cpu) \<rparr>)] \<rparr>)"
  by (simp add: sched_add_def upd_cpu_eq)

lemma sched_add_ok:
  assumes "sched_ok k" "get_cpu k c = Some cpu" "run_queue cpu = Some rq" "k_tasks k t = Some x" "task_ok x"
  shows "\<exists>k'. sched_add c t k = Some k' \<and> sched_ok k' \<and> mset (placed k') = add_mset t (mset (placed k)) \<and>
    k' = k \<lparr> k_cpus := (k_cpus k)[c := Some (cpu \<lparr> run_queue := Some (rq \<lparr> ready := ready rq @ [t] \<rparr>),
                         ready_count := fetch_add_1 (ready_count cpu) \<rparr>)] \<rparr>"
proof -
  let ?cpu' = "cpu \<lparr> run_queue := Some (rq \<lparr> ready := ready rq @ [t] \<rparr>), ready_count := fetch_add_1 (ready_count cpu) \<rparr>"
  let ?k' = "k \<lparr> k_cpus := (k_cpus k)[c := Some ?cpu'] \<rparr>"
  have ok: "cpu_ok (k_tasks k) c cpu" by (rule sched_okD [OF assms(1,2)])
  note d = cpu_okD [OF ok assms(3)]
  have "fetch_add_1 (ready_count cpu) = length (ready rq @ [t]) mod U64_LIMIT"
    using d(2) by (simp add: fetch_add_mod)
  moreover have "\<exists>x. k_tasks k u = Some x \<and> task_ok x" if "u \<in> set (rq_tasks (rq \<lparr> ready := ready rq @ [t] \<rparr>))" for u
  proof (cases "u = t")
    case False
    then have "u \<in> set (rq_tasks rq)" using that by (simp add: rq_tasks_def)
    then show ?thesis by (rule d(4))
  qed (use assms(4,5) in simp)
  moreover have "hw_cr3 ?cpu' = t_cr3 x \<and> tss_rsp0 ?cpu' = Some (ti_kernel_stack_top (t_inner x)) \<and>
      current_task_kernel_stack_top ?cpu' = ti_kernel_stack_top (t_inner x)"
    if "current_task rq = Some u" "k_tasks k u = Some x" for u x
    using d(5) [OF that] by simp
  ultimately have "cpu_ok (k_tasks k) c ?cpu'"
    using d(1,3) cpu_ok_id [OF ok] by (intro cpu_okI [of _ _ "rq \<lparr> ready := ready rq @ [t] \<rparr>"]) simp_all
  from sched_ok_update [OF assms(1) same_tasks_refl this] have "sched_ok ?k'" by simp
  moreover have "mset (placed ?k') + mset (rq_tasks rq)
      = mset (placed k) + mset (rq_tasks (rq \<lparr> ready := ready rq @ [t] \<rparr>))"
    using placed_update [OF assms(2,3), of ?cpu' _ "k_tasks k"] by simp
  then have "mset (placed ?k') = add_mset t (mset (placed k))" by (simp add: rq_tasks_def)
  ultimately show ?thesis using sched_add_eq [OF assms(2,3)] by blast
qed

lemma set_task_state_ok:
  assumes "sched_ok k" shows "sched_ok (set_task_state t s k)"
proof -
  have "same_tasks (k_tasks k) ((k_tasks k)(t := map_option (\<lambda>x. x \<lparr> t_state := s \<rparr>) (k_tasks k t)))"
    by (rule same_tasks_upd) (simp add: t_core_def)
  from sched_ok_tasks [OF assms this] show ?thesis by (simp add: set_task_state_def upd_task_def)
qed

lemma placed_tasks [simp]: "placed (set_task_state t s k) = placed k" "placed (upd_task t f k) = placed k"
  by (simp_all add: placed_def)

lemma sched_ok_cong: "k_cpus k' = k_cpus k \<Longrightarrow> k_tasks k' = k_tasks k \<Longrightarrow> sched_ok k' = sched_ok k"
  by (simp add: sched_ok_def)

lemma placed_cong: "k_cpus k' = k_cpus k \<Longrightarrow> placed k' = placed k"
  by (simp add: placed_def)

lemma send_ipi_ok:
  assumes "get_cpu k c = Some lcpu" "get_cpu k g = Some cpu" "kernel_id lcpu = c"
  shows "send_reschedule_ipi c g k
       = Some (k \<lparr> k_ipis := k_ipis k @ (if g = c then [] else [(local_apic_id cpu, RESCHEDULE_VECTOR)]) \<rparr>)"
  using assms by (simp add: send_reschedule_ipi_def local_apic_id_of_def)

text \<open>Waking: the task becomes ready, is appended to the queue of its CPU, and that CPU is
  interrupted when it is another one.\<close>

lemma wake_task_ok:
  assumes "sched_ok k" "get_cpu k c = Some lcpu" "get_cpu k g = Some cpu" "run_queue cpu = Some rq"
    "k_tasks k t = Some x" "task_ok x"
  shows "\<exists>k'. wake_task c t g k = Some k' \<and> sched_ok k' \<and> mset (placed k') = add_mset t (mset (placed k)) \<and>
    k_ipis k' = k_ipis k @ (if g = c then [] else [(local_apic_id cpu, RESCHEDULE_VECTOR)]) \<and>
    k_tasks k' = (k_tasks k)(t \<mapsto> x \<lparr> t_state := Ready \<rparr>)"
proof -
  let ?k1 = "set_task_state t Ready k"
  have t1: "k_tasks ?k1 t = Some (x \<lparr> t_state := Ready \<rparr>)" "task_ok (x \<lparr> t_state := Ready \<rparr>)"
    using assms(5,6) by (simp_all add: task_ok_def)
  have g: "get_cpu ?k1 g = Some cpu" "get_cpu ?k1 c = Some lcpu" using assms by simp_all
  from sched_add_ok [OF set_task_state_ok [OF assms(1)] g(1) assms(4) t1] obtain k2 where
    k2: "sched_add g t ?k1 = Some k2" "sched_ok k2" "mset (placed k2) = add_mset t (mset (placed ?k1))"
      "k2 = ?k1 \<lparr> k_cpus := (k_cpus ?k1)[g := Some (cpu \<lparr> run_queue := Some (rq \<lparr> ready := ready rq @ [t] \<rparr>),
                         ready_count := fetch_add_1 (ready_count cpu) \<rparr>)] \<rparr>" by blast
  have id: "kernel_id lcpu = c" using cpu_ok_id sched_okD assms(1,2) by blast
  have g2: "\<exists>l. get_cpu k2 c = Some l \<and> kernel_id l = c" "\<exists>h. get_cpu k2 g = Some h \<and> local_apic_id h = local_apic_id cpu"
    using k2(4) assms(2,3) id
    by (auto simp: get_cpu_def unwrap_def nth_list_update split: if_splits)
  then obtain l h where lh: "get_cpu k2 c = Some l" "kernel_id l = c" "get_cpu k2 g = Some h"
      "local_apic_id h = local_apic_id cpu" by blast
  let ?k' = "k2 \<lparr> k_ipis := k_ipis k2 @ (if g = c then [] else [(local_apic_id cpu, RESCHEDULE_VECTOR)]) \<rparr>"
  have "wake_task c t g k = Some ?k'" using k2(1) send_ipi_ok [OF lh(1,3,2)] lh(4) by (simp add: wake_task_def)
  moreover have "sched_ok ?k'" using k2(2) sched_ok_cong [of ?k' k2] by simp
  moreover have "mset (placed ?k') = add_mset t (mset (placed k))" using k2(3) placed_cong [of ?k' k2] by simp
  moreover have "k_ipis k2 = k_ipis k" using k2(4) by (simp add: set_task_state_def upd_task_def)
  moreover have "k_tasks ?k' = (k_tasks k)(t \<mapsto> x \<lparr> t_state := Ready \<rparr>)" using k2(4) assms(5) by simp
  ultimately show ?thesis by auto
qed

text \<open>What waking leaves alone, for the components that extend the state.\<close>

definition rq_ready :: "('s, 'z) Sched_scheme \<Rightarrow> nat \<Rightarrow> bool" where
  "rq_ready k c \<longleftrightarrow> (\<exists>cpu rq. get_cpu k c = Some cpu \<and> run_queue cpu = Some rq)"

definition task_live :: "('s, 'z) Sched_scheme \<Rightarrow> nat \<Rightarrow> bool" where
  "task_live k t \<longleftrightarrow> (\<exists>x. k_tasks k t = Some x \<and> task_ok x)"

lemma task_live_same:
  assumes "same_tasks (k_tasks k) (k_tasks k')" "task_live k t"
  shows "task_live k' t"
proof -
  from assms(2) obtain x where x: "k_tasks k t = Some x" "task_ok x" by (auto simp: task_live_def)
  from same_tasks_SomeD [OF assms(1) x(1)] obtain y where "k_tasks k' t = Some y" "t_core y = t_core x" by blast
  then show ?thesis using x(2) task_ok_core [of y x] by (simp add: task_live_def)
qed

lemma rq_ready_cong: "k_cpus k' = k_cpus k \<Longrightarrow> rq_ready k' d = rq_ready k d"
  by (simp add: rq_ready_def get_cpu_def)

lemma sched_add_frame:
  assumes "sched_add c t k = Some k'"
  shows "\<exists>cs. k' = k \<lparr> k_cpus := cs \<rparr>" "rq_ready k' d = rq_ready k d"
proof -
  from assms obtain cpu rq where g: "get_cpu k c = Some cpu" "run_queue cpu = Some rq"
    by (auto simp: sched_add_def rust_SomeD unwrap_def)
  have k': "k' = k \<lparr> k_cpus := (k_cpus k)[c := Some (cpu \<lparr> run_queue := Some (rq \<lparr> ready := ready rq @ [t] \<rparr>),
                         ready_count := fetch_add_1 (ready_count cpu) \<rparr>)] \<rparr>"
    using assms sched_add_eq [OF g, of t] by simp
  then show "\<exists>cs. k' = k \<lparr> k_cpus := cs \<rparr>" by blast
  show "rq_ready k' d = rq_ready k d"
    using g by (auto simp: k' rq_ready_def get_cpu_def unwrap_def nth_list_update split: if_splits)
qed

lemma wake_task_frame:
  assumes "wake_task c t g k = Some k'"
  shows "\<exists>cs ms. k' = k \<lparr> k_cpus := cs, k_tasks := k_tasks (set_task_state t Ready k), k_ipis := ms \<rparr>"
    and "rq_ready k' d = rq_ready k d"
    and "same_tasks (k_tasks k) (k_tasks k')"
proof -
  from assms obtain k1 where k1: "sched_add g t (set_task_state t Ready k) = Some k1"
      "send_reschedule_ipi c g k1 = Some k'" by (auto simp: wake_task_def rust_SomeD)
  from sched_add_frame(1) [OF k1(1)] obtain cs where cs: "k1 = set_task_state t Ready k \<lparr> k_cpus := cs \<rparr>" by blast
  have "\<exists>ms. k' = k1 \<lparr> k_ipis := ms \<rparr>"
  proof -
    have "k' = k1 \<lparr> k_ipis := k_ipis k1 \<rparr> \<or> (\<exists>ms. k' = k1 \<lparr> k_ipis := ms \<rparr>)"
      using k1(2) by (auto simp: send_reschedule_ipi_def rust_SomeD split: if_splits)
    then show ?thesis by blast
  qed
  then obtain ms where ms: "k' = k1 \<lparr> k_ipis := ms \<rparr>" by blast
  show "\<exists>cs ms. k' = k \<lparr> k_cpus := cs, k_tasks := k_tasks (set_task_state t Ready k), k_ipis := ms \<rparr>"
    unfolding ms cs by (intro exI [of _ cs] exI [of _ ms], cases k) (simp add: set_task_state_def upd_task_def)
  have "rq_ready k' d = rq_ready k1 d" by (rule rq_ready_cong) (simp add: ms)
  also have "\<dots> = rq_ready (set_task_state t Ready k) d" by (rule sched_add_frame(2) [OF k1(1)])
  also have "\<dots> = rq_ready k d" by (rule rq_ready_cong) simp
  finally show "rq_ready k' d = rq_ready k d" .
  have "k_tasks k' = k_tasks (set_task_state t Ready k)" using ms cs by simp
  moreover have "same_tasks (k_tasks k) (k_tasks (set_task_state t Ready k))"
    unfolding upd_simps by (rule same_tasks_upd) (simp add: t_core_def)
  ultimately show "same_tasks (k_tasks k) (k_tasks k')" by simp
qed

text \<open>Waking adds at most one entry to a queue and does not change what runs.\<close>

lemma wake_task_queue:
  assumes "wake_task c t g k = Some k'" "get_cpu k d = Some cpu" "run_queue cpu = Some rq"
  shows "\<exists>cpu' rq'. get_cpu k' d = Some cpu' \<and> run_queue cpu' = Some rq' \<and> current_task rq' = current_task rq \<and>
    length (ready rq') \<le> Suc (length (ready rq))"
proof -
  from assms(1) obtain k1 where k1: "sched_add g t (set_task_state t Ready k) = Some k1"
      "send_reschedule_ipi c g k1 = Some k'" by (auto simp: wake_task_def rust_SomeD)
  from k1(1) obtain cg qg where g: "get_cpu (set_task_state t Ready k) g = Some cg" "run_queue cg = Some qg"
    by (auto simp: sched_add_def rust_SomeD unwrap_def)
  have "k_cpus k' = k_cpus k1" using k1(2) by (auto simp: send_reschedule_ipi_def rust_SomeD split: if_splits)
  moreover have "k_cpus k1 = (k_cpus k)[g := Some (cg \<lparr> run_queue := Some (qg \<lparr> ready := ready qg @ [t] \<rparr>),
                         ready_count := fetch_add_1 (ready_count cg) \<rparr>)]"
    using k1(1) sched_add_eq [OF g, of t] by (auto simp: set_task_state_def upd_task_def)
  ultimately have "get_cpu k' d = (if d = g then Some (cg \<lparr> run_queue := Some (qg \<lparr> ready := ready qg @ [t] \<rparr>),
                         ready_count := fetch_add_1 (ready_count cg) \<rparr>) else get_cpu k d)"
    using get_cpu_SomeD [OF g(1)] get_cpu_SomeD [OF assms(2)] by (auto simp: get_cpu_def)
  then show ?thesis using assms(2,3) g by (cases "d = g") auto
qed

lemma upt_split:
  assumes "[0..<n] = ys @ i # zs" shows "i < n \<and> ys = [0..<i]"
proof -
  have len: "length ys < n" using arg_cong [OF assms, of length] by simp
  have "i = [0..<n] ! length ys" unfolding assms by simp
  then have "i = length ys" using len by simp
  moreover have "ys = take (length ys) [0..<n]" unfolding assms by simp
  ultimately show ?thesis using len by (simp add: take_upt)
qed

lemma cyclic_hit:
  assumes "j < n" shows "\<exists>i<n. (s + i) mod n = (j :: nat)"
proof -
  let ?i = "(j + (n - s mod n)) mod n"
  have "(s + ?i) mod n = (s mod n + (j + (n - s mod n))) mod n" by (simp add: mod_simps)
  also have "s mod n + (j + (n - s mod n)) = j + n"
    using assms mod_less_divisor [of n s] by linarith
  finally show ?thesis using assms by (intro exI [of _ ?i]) simp
qed

text \<open>The search takes the first ready CPU from \<open>start\<close> on, cyclically: the CPUs it passes are not ready.\<close>

definition first_ready_from :: "('s, 'z) Sched_scheme \<Rightarrow> nat \<Rightarrow> nat \<Rightarrow> bool" where
  "first_ready_from k start g \<longleftrightarrow> (\<exists>i<length (k_cpus k). g = (start + i) mod length (k_cpus k) \<and>
     try_get_ready_cpu k g \<noteq> None \<and> (\<forall>j<i. try_get_ready_cpu k ((start + j) mod length (k_cpus k)) = None))"

lemma first_ready_fromD: "first_ready_from k start g \<Longrightarrow> g < length (k_cpus k) \<and> try_get_ready_cpu k g \<noteq> None"
  unfolding first_ready_from_def by (auto intro!: mod_less_divisor)

lemma spawn_target_ok:
  assumes "start + length (k_cpus k) < U64_LIMIT"
  shows "\<exists>r. spawn_target k start = Some r \<and>
    (case r of Some g \<Rightarrow> first_ready_from k start g | None \<Rightarrow> (\<forall>g<length (k_cpus k). try_get_ready_cpu k g = None))"
proof -
  let ?n = "length (k_cpus k)"
  define f where "f = (\<lambda>i. do { s \<leftarrow> add_u64 start i; let g = s mod ?n;
    Some (map_option (\<lambda>_. g) (try_get_ready_cpu k g)) })"
  have f: "f i = Some (map_option (\<lambda>_. (start + i) mod ?n) (try_get_ready_cpu k ((start + i) mod ?n)))"
    if "i < ?n" for i using that assms by (simp add: f_def add_u64_def Let_def)
  have none: "try_get_ready_cpu k ((start + i) mod ?n) = None" if "i < ?n" "f i = Some None" for i
    using f [OF that(1)] that(2) by simp
  have "\<forall>i\<in>set [0..<?n]. f i \<noteq> panic" by (simp add: f)
  from find_map_ok [OF this] obtain r where r: "find_map f [0..<?n] = Some r" by blast
  have "case r of Some g \<Rightarrow> first_ready_from k start g | None \<Rightarrow> (\<forall>g<?n. try_get_ready_cpu k g = None)"
  proof (cases r)
    case None
    with r have "find_map f [0..<?n] = Some None" by simp
    from find_map_NoneD [OF this] have all: "f i = Some None" if "i < ?n" for i using that by simp
    have "try_get_ready_cpu k g = None" if "g < ?n" for g
    proof -
      from cyclic_hit [OF that, of start] obtain i where "i < ?n" "(start + i) mod ?n = g" by (elim exE conjE)
      then show ?thesis using none all by auto
    qed
    then show ?thesis using None by simp
  next
    case (Some g)
    from find_map_SomeD [OF r [unfolded Some]] obtain ys i zs where
      s: "[0..<?n] = ys @ i # zs" "f i = Some (Some g)" "\<forall>z\<in>set ys. f z = Some None" by blast
    have i: "i < ?n" "ys = [0..<i]" using upt_split [OF s(1)] by simp_all
    from s(2) f [OF i(1)]
    have "map_option (\<lambda>_. (start + i) mod ?n) (try_get_ready_cpu k ((start + i) mod ?n)) = Some g"
      by (simp only: option.inject)
    then have "g = (start + i) mod ?n" "try_get_ready_cpu k g \<noteq> None" by auto
    moreover have "try_get_ready_cpu k ((start + j) mod ?n) = None" if "j < i" for j
      using that i s(3) by (intro none) auto
    ultimately have "first_ready_from k start g" unfolding first_ready_from_def using i(1) by blast
    then show ?thesis using Some by simp
  qed
  then show ?thesis using r by (simp add: spawn_target_def Let_def f_def)
qed

lemma try_get_ready_cpu_SomeD:
  assumes "sched_ok k" "try_get_ready_cpu k g = Some cpu"
  shows "get_cpu k g = Some cpu \<and> (\<exists>rq. run_queue cpu = Some rq)"
proof -
  have g: "get_cpu k g = Some cpu" "cpu_state cpu = CpuReady"
    using assms(2) by (auto simp: try_get_ready_cpu_def get_cpu_def split: if_splits option.splits)
  then show ?thesis using cpu_ok_ready [OF sched_okD [OF assms(1) g(1)]] by blast
qed

text \<open>Dispatching a new task: the chosen CPU is the first ready one from the round-robin position on
  whenever there is one, otherwise the executing one. Its queue grows by the task, and every other CPU
  is as before.\<close>

lemma spawn_task_ok:
  assumes "sched_ok k" "get_cpu k c = Some lcpu" "run_queue lcpu \<noteq> None" "k_tasks k t = Some x" "task_ok x"
    "t \<notin> k_task_table k" "k_next_spawn_cpu k + length (k_cpus k) < U64_LIMIT"
  shows "\<exists>k' g cpu. spawn_task c t k = Some k' \<and> sched_ok k' \<and> get_cpu k g = Some cpu \<and>
    mset (placed k') = add_mset t (mset (placed k)) \<and> k_task_table k' = insert t (k_task_table k) \<and>
    k_ipis k' = k_ipis k @ (if g = c then [] else [(local_apic_id cpu, RESCHEDULE_VECTOR)]) \<and>
    k_tasks k' = (k_tasks k)(t \<mapsto> x \<lparr> t_state := Ready \<rparr>) \<and>
    (if \<exists>h<length (k_cpus k). try_get_ready_cpu k h \<noteq> None then first_ready_from k (k_next_spawn_cpu k) g else g = c) \<and>
    k_next_spawn_cpu k' = fetch_add_1 (k_next_spawn_cpu k) \<and>
    (\<exists>rq cpu' rq'. run_queue cpu = Some rq \<and> get_cpu k' g = Some cpu' \<and> run_queue cpu' = Some rq' \<and>
       ready rq' = ready rq @ [t] \<and> current_task rq' = current_task rq) \<and>
    (\<forall>h. h \<noteq> g \<longrightarrow> get_cpu k' h = get_cpu k h)"
proof -
  let ?k1 = "(set_task_state t Ready k) \<lparr> k_task_table := insert t (k_task_table k) \<rparr>"
  let ?k2 = "?k1 \<lparr> k_next_spawn_cpu := fetch_add_1 (k_next_spawn_cpu k) \<rparr>"
  have same: "k_cpus ?k2 = k_cpus k" "get_cpu ?k2 h = get_cpu k h" "try_get_ready_cpu ?k2 h = try_get_ready_cpu k h" for h
    by (simp_all add: get_cpu_def try_get_ready_cpu_def)
  have ok2: "sched_ok ?k2" using set_task_state_ok [OF assms(1), of t Ready] by (simp add: sched_ok_def)
  have ins: "insert_task_table t (set_task_state t Ready k) = Some ?k1"
    using assms(6) by (simp add: insert_task_table_def set_task_state_def upd_task_def)
  have nx: "k_next_spawn_cpu ?k1 = k_next_spawn_cpu k" by (simp add: set_task_state_def upd_task_def)
  obtain r where r: "spawn_target ?k2 (k_next_spawn_cpu k) = Some r"
    and rs: "case r of Some g \<Rightarrow> first_ready_from k (k_next_spawn_cpu k) g
     | None \<Rightarrow> (\<forall>g<length (k_cpus k). try_get_ready_cpu k g = None)"
    using spawn_target_ok [of "k_next_spawn_cpu k" ?k2] assms(7) unfolding first_ready_from_def same by blast
  have idc: "kernel_id lcpu = c" by (rule cpu_ok_id [OF sched_okD [OF assms(1,2)]])
  define g where "g = (case r of Some g \<Rightarrow> g | None \<Rightarrow> c)"
  obtain cpu rq where g: "get_cpu k g = Some cpu" "run_queue cpu = Some rq"
  proof (cases r)
    case None
    then show ?thesis using that assms(2,3) by (auto simp: g_def)
  next
    case (Some h)
    then obtain y where "try_get_ready_cpu k g = Some y" using rs first_ready_fromD [of k _ g] by (auto simp: g_def)
    from try_get_ready_cpu_SomeD [OF assms(1) this] show ?thesis using that by blast
  qed
  have t2: "k_tasks ?k2 t = Some (x \<lparr> t_state := Ready \<rparr>)" "task_ok (x \<lparr> t_state := Ready \<rparr>)"
    using assms(4,5) by (simp_all add: task_ok_def)
  have g2: "get_cpu ?k2 g = Some cpu" using g(1) same(2) by simp
  from sched_add_ok [OF ok2 g2 g(2) t2] obtain k3 where
    k3: "sched_add g t ?k2 = Some k3" "sched_ok k3" "mset (placed k3) = add_mset t (mset (placed ?k2))"
      "k3 = ?k2 \<lparr> k_cpus := (k_cpus ?k2)[g := Some (cpu \<lparr> run_queue := Some (rq \<lparr> ready := ready rq @ [t] \<rparr>),
                         ready_count := fetch_add_1 (ready_count cpu) \<rparr>)] \<rparr>" by blast
  obtain l h where lh: "get_cpu k3 c = Some l" "kernel_id l = c" "get_cpu k3 g = Some h"
      "local_apic_id h = local_apic_id cpu"
    using k3(4) assms(2) g idc by (cases "g = c") (auto simp: get_cpu_def unwrap_def split: if_splits)
  let ?k' = "k3 \<lparr> k_ipis := k_ipis k3 @ (if g = c then [] else [(local_apic_id cpu, RESCHEDULE_VECTOR)]) \<rparr>"
  have gl: "(case r of Some i \<Rightarrow> i | None \<Rightarrow> kernel_id lcpu) = g" by (cases r) (simp_all add: g_def idc)
  have "spawn_task c t k = Some ?k'"
    using ins nx r assms(2) same(2) [of c] k3(1) send_ipi_ok [OF lh(1,3,2)] lh(4) gl
    by (simp add: spawn_task_def Let_def del: upd_simps)
  moreover have "sched_ok ?k'" using k3(2) sched_ok_cong [of ?k' k3] by simp
  moreover have "mset (placed ?k') = add_mset t (mset (placed k))"
    using k3(3) placed_cong [of ?k' k3] placed_cong [of ?k2 k] by simp
  moreover have "k_ipis k3 = k_ipis k" "k_task_table ?k' = insert t (k_task_table k)"
      "k_tasks ?k' = (k_tasks k)(t \<mapsto> x \<lparr> t_state := Ready \<rparr>)"
    using k3(4) assms(4) by (simp_all add: set_task_state_def upd_task_def)
  moreover have "if \<exists>h<length (k_cpus k). try_get_ready_cpu k h \<noteq> None
      then first_ready_from k (k_next_spawn_cpu k) g else g = c"
    using rs first_ready_fromD [of k "k_next_spawn_cpu k" g] by (cases r) (auto simp: g_def)
  moreover have "k_next_spawn_cpu ?k' = fetch_add_1 (k_next_spawn_cpu k)" using k3(4) by simp
  moreover have "\<exists>rq cpu' rq'. run_queue cpu = Some rq \<and> get_cpu ?k' g = Some cpu' \<and> run_queue cpu' = Some rq' \<and>
       ready rq' = ready rq @ [t] \<and> current_task rq' = current_task rq"
    using get_cpu_SomeD [OF g(1)] g(2) k3(4) same(1) by (simp add: get_cpu_def)
  moreover have "\<forall>h. h \<noteq> g \<longrightarrow> get_cpu ?k' h = get_cpu k h" using k3(4) same(1) by (simp add: get_cpu_def)
  ultimately show ?thesis
    using g(1) by (intro exI [of _ ?k'] exI [of _ g] exI [of _ cpu] conjI) simp_all
qed

section \<open>Repeated scheduling\<close>

text \<open>Successive timer ticks on one CPU.\<close>

primrec schedule_ticks :: "x86_ops \<Rightarrow> nat set \<Rightarrow> nat \<Rightarrow> nat \<Rightarrow> ('s, 'z) Sched_scheme \<Rightarrow> ('s, 'z) Sched_scheme rust" where
  "schedule_ticks X slots c 0 k = Some k"
| "schedule_ticks X slots c (Suc n) k = do { (_, k') \<leftarrow> schedule_from_interrupt X slots c k; schedule_ticks X slots c n k' }"

lemma incoming_running: "k_tasks k n = Some t \<Longrightarrow> \<exists>u. incoming (outgoing (k_tasks k) rq) n n = Some u \<and> t_state u = Running"
  using same_tasks_SomeD [OF same_tasks_outgoing, of "k_tasks k" n t rq] by (auto simp: incoming_def)

lemma schedule_ticks_reaches:
  assumes "x86_addr X" "sched_ok k" "get_cpu k c = Some cpu" "run_queue cpu = Some rq"
    "i < length (ready rq)" "length (ready rq) < U64_LIMIT" "\<not> outgoing_dies slots k rq"
  shows "\<exists>k' cpu' rq' t. schedule_ticks X slots c (Suc i) k = Some k' \<and> sched_ok k' \<and> get_cpu k' c = Some cpu' \<and>
    run_queue cpu' = Some rq' \<and> current_task rq' = Some (ready rq ! i) \<and>
    k_tasks k' (ready rq ! i) = Some t \<and> t_state t = Running"
  using assms(2-7)
proof (induction i arbitrary: k cpu rq)
  case 0
  then obtain n q where q: "ready rq = n # q" by (cases "ready rq") auto
  from schedule_step [OF assms(1) 0(1-3) q 0(5), of slots] 0(6) obtain t ts' where
    t: "k_tasks k n = Some t" and ts: "same_tasks (k_tasks k) ts'" "ts' = incoming (outgoing (k_tasks k) rq) n" and
    s: "schedule_from_interrupt X slots c k = Some (Some n, k \<lparr> k_cpus := (k_cpus k)[c := Some (switched_cpu n t
        (q @ requeued (k_tasks k) rq) (switch_count (ready_count cpu) (requeued (k_tasks k) rq)) cpu)], k_tasks := ts' \<rparr>)"
      (is "_ = Some (_, ?k')")
    and ok: "cpu_ok ts' c (switched_cpu n t (q @ requeued (k_tasks k) rq)
        (switch_count (ready_count cpu) (requeued (k_tasks k) rq)) cpu)" (is "cpu_ok _ _ ?cpu'") by (simp only: if_False) blast
  have g: "get_cpu ?k' c = Some ?cpu'" using get_cpu_SomeD [OF 0(2)] by simp
  have "\<exists>u. ts' n = Some u \<and> t_state u = Running" unfolding ts(2) by (rule incoming_running [OF t])
  moreover have "sched_ok ?k'" by (rule sched_ok_update [OF 0(1) ts(1) ok])
  moreover have "run_queue ?cpu' = Some \<lparr> current_task = Some n, ready = q @ requeued (k_tasks k) rq \<rparr>"
    by (simp add: switched_cpu_def)
  ultimately show ?case using s g q by auto
next
  case (Suc i)
  then obtain n q where q: "ready rq = n # q" by (cases "ready rq") auto
  from schedule_step [OF assms(1) Suc.prems(1-3) q Suc.prems(5), of slots] Suc.prems(6) obtain t ts' where
    t: "k_tasks k n = Some t" and ts: "same_tasks (k_tasks k) ts'" "ts' = incoming (outgoing (k_tasks k) rq) n" and
    s: "schedule_from_interrupt X slots c k = Some (Some n, k \<lparr> k_cpus := (k_cpus k)[c := Some (switched_cpu n t
        (q @ requeued (k_tasks k) rq) (switch_count (ready_count cpu) (requeued (k_tasks k) rq)) cpu)], k_tasks := ts' \<rparr>)"
      (is "_ = Some (_, ?k')")
    and ok: "cpu_ok ts' c (switched_cpu n t (q @ requeued (k_tasks k) rq)
        (switch_count (ready_count cpu) (requeued (k_tasks k) rq)) cpu)" (is "cpu_ok _ _ ?cpu'") by (simp only: if_False) blast
  let ?rq' = "\<lparr> current_task = Some n, ready = q @ requeued (k_tasks k) rq \<rparr>"
  have g: "get_cpu ?k' c = Some ?cpu'" using get_cpu_SomeD [OF Suc.prems(2)] by simp
  have ok': "sched_ok ?k'" by (rule sched_ok_update [OF Suc.prems(1) ts(1) ok])
  have rq': "run_queue ?cpu' = Some ?rq'" by (simp add: switched_cpu_def)
  have i: "i < length (ready ?rq')" "length (ready ?rq') < U64_LIMIT" "ready ?rq' ! i = ready rq ! Suc i"
    using Suc.prems(4,5) q requeued_length [of "k_tasks k" rq] by (auto simp: nth_append)
  have "\<not> outgoing_dies slots ?k' ?rq'"
    using incoming_running [OF t, of rq] ts(2) by (auto simp: outgoing_dies_def)
  from Suc.IH [OF ok' g rq' i(1,2) this] i(3) s show ?case by simp
qed

section \<open>A sample machine\<close>

text \<open>Two CPUs and four tasks: task 1 runs on CPU 0 with tasks 2 and 3 queued, CPU 1 runs task 4.\<close>

definition sample_task :: "nat \<Rightarrow> TaskState \<Rightarrow> unit Task" where
  "sample_task i s =
     \<lparr> t_inner = \<lparr> ti_context = CpuContext_default \<lparr> ctx_cs := 0x23 \<rparr>,
                   ti_kernel_stack = \<lparr> gs_top = 0, gs_guard_page = 0, gs_n_virtual_pages = 0 \<rparr>,
                   ti_kernel_stack_top = 0x10000 * i, ti_user_page_table = None, ti_user_vaddr_set = (),
                   ti_owned_endpoints = [], ti_registered_services = [] \<rparr>,
       t_id = i, t_state = s, t_kind = User, t_cr3 = 0x1000 * i, t_exit_code = 0,
       t_exit_waiter = None, t_cpu_ticks = 0 \<rparr>"

definition sample_cpu :: "nat \<Rightarrow> nat option \<Rightarrow> nat list \<Rightarrow> CpuLocalData" where
  "sample_cpu c cur q =
     \<lparr> kernel_id = c, local_apic_id = 10 + c,
       tss_rsp0 = Some (case cur of None \<Rightarrow> 0 | Some i \<Rightarrow> 0x10000 * i),
       run_queue = Some \<lparr> current_task = cur, ready = q \<rparr>, syscall_handler_scratch = 0,
       current_task_kernel_stack_top = (case cur of None \<Rightarrow> 0 | Some i \<Rightarrow> 0x10000 * i),
       current_context_ptr = cur, in_syscall_handler = 0, ready_count = length q,
       cpu_state = CpuReady, hw_cr3 = (case cur of None \<Rightarrow> 0 | Some i \<Rightarrow> 0x1000 * i) \<rparr>"

definition sample_kernel :: "unit Sched" where
  "sample_kernel =
     \<lparr> k_cpus = [Some (sample_cpu 0 (Some 1) [2, 3]), Some (sample_cpu 1 (Some 4) [])],
       k_tasks = [1 \<mapsto> sample_task 1 Running, 2 \<mapsto> sample_task 2 Ready, 3 \<mapsto> sample_task 3 Ready,
                  4 \<mapsto> sample_task 4 Running, 5 \<mapsto> sample_task 5 Sleeping],
       k_task_table = {1, 2, 3, 4}, k_next_spawn_cpu = 1, k_next_task_id = 6, k_ipis = [] \<rparr>"

lemma sample_task_ok: "i \<le> 5 \<Longrightarrow> task_ok (sample_task i s)"
  by (auto simp: task_ok_def sample_task_def canonical_num PHYS_LIMIT_num SIZE_4KIB_def)

lemma sample_cpus:
  "get_cpu sample_kernel 0 = Some (sample_cpu 0 (Some 1) [2, 3])"
  "get_cpu sample_kernel 1 = Some (sample_cpu 1 (Some 4) [])"
  by (simp_all add: get_cpu_def sample_kernel_def)

lemma sample_kernel_ok: "sched_ok sample_kernel"
proof -
  have a: "cpu_ok (k_tasks sample_kernel) 0 (sample_cpu 0 (Some 1) [2, 3])"
    by (rule cpu_okI) (auto simp: sample_cpu_def sample_kernel_def rq_tasks_def U64_LIMIT_num sample_task_ok,
        simp_all add: sample_task_def)
  have b: "cpu_ok (k_tasks sample_kernel) 1 (sample_cpu 1 (Some 4) [])"
    by (rule cpu_okI) (auto simp: sample_cpu_def sample_kernel_def rq_tasks_def U64_LIMIT_num sample_task_ok,
        simp_all add: sample_task_def)
  show ?thesis
    unfolding sched_ok_def using a b by (auto simp: sample_kernel_def less_Suc_eq)
qed

text \<open>The same machine after task 1 has become a zombie and left the task table.\<close>

definition sample_dying :: "unit Sched" where
  "sample_dying = set_task_state 1 Zombie (sample_kernel \<lparr> k_task_table := {2, 3, 4} \<rparr>)"

lemma sample_dying_ok: "sched_ok sample_dying"
  unfolding sample_dying_def by (rule set_task_state_ok) (simp add: sched_ok_cong [OF _ _] sample_kernel_ok)

lemma sample_dying_cpu: "get_cpu sample_dying 0 = Some (sample_cpu 0 (Some 1) [2, 3])"
  by (simp add: sample_dying_def get_cpu_def sample_kernel_def)

lemma sample_outgoing:
  "\<not> outgoing_dies {} sample_kernel \<lparr> current_task = Some 1, ready = [2, 3] \<rparr>"
  "outgoing_dies {} sample_dying \<lparr> current_task = Some 1, ready = [2, 3] \<rparr>"
  by (simp_all add: outgoing_dies_def sample_dying_def sample_kernel_def sample_task_def placed_def slot_tasks_def
      sample_cpu_def rq_tasks_def set_task_state_def upd_task_def)

section \<open>Properties\<close>

text \<open>C1. A scheduling step under the scheduler's invariant. It faults exactly when it switches away
  from a zombie or sleeping task to which the run queue holds the last reference: the destructor then
  releases the stack and the page tables in use. In every other case it returns the context of the task
  that now runs and keeps the invariant: queue counters exact, every queued task switchable, and the
  hardware's address space and kernel stack those of the running task. No task appears in a second
  place, and the only task that can leave the run queues is an outgoing one that sleeps or is a zombie.\<close>

theorem schedule_keeps_invariant:
  assumes "x86_addr X" "sched_ok k" "get_cpu k c = Some cpu" "run_queue cpu = Some rq"
    "length (ready rq) < U64_LIMIT"
  shows "if ready rq \<noteq> [] \<and> outgoing_dies slots k rq then schedule_from_interrupt X slots c k = panic
    else \<exists>r k' cpu'. schedule_from_interrupt X slots c k = Some (r, k') \<and> sched_ok k' \<and>
    get_cpu k' c = Some cpu' \<and> r = current_context_ptr cpu' \<and>
    (distinct (placed k) \<longrightarrow> distinct (placed k')) \<and>
    (\<forall>t x. t \<in> set (placed k) \<longrightarrow> k_tasks k t = Some x \<longrightarrow>
       t \<in> set (placed k') \<or> current_task rq = Some t \<and> (t_state x = Zombie \<or> t_state x = Sleeping))"
proof (cases "ready rq \<noteq> [] \<and> outgoing_dies slots k rq")
  case True
  then show ?thesis using schedule_dies [OF assms(1-4) _ assms(5)] by simp
next
  case False
  then have "ready rq = [] \<or> \<not> outgoing_dies slots k rq" by blast
  from schedule_total [OF assms this] obtain r k' cpu' where
    s: "schedule_from_interrupt X slots c k = Some (r, k')" "sched_ok k'" "get_cpu k' c = Some cpu'"
      "r = current_context_ptr cpu'" and
    m: "mset (placed k') + (if ready rq = [] then {#} else mset (outgoing_task rq) - mset (requeued (k_tasks k) rq))
      = mset (placed k)" by blast
  have "mset (placed k') \<subseteq># mset (placed k)" unfolding m [symmetric] by simp
  then have d: "distinct (placed k) \<longrightarrow> distinct (placed k')" using distinct_mset_subset by blast
  have "t \<in> set (placed k') \<or> current_task rq = Some t \<and> (t_state x = Zombie \<or> t_state x = Sleeping)"
    if t: "t \<in> set (placed k)" "k_tasks k t = Some x" for t x
  proof (cases "t \<in> set (placed k')")
    case False
    then have "t \<in># mset (outgoing_task rq) - mset (requeued (k_tasks k) rq)"
      using t(1) arg_cong [OF m, of set_mset] by (auto split: if_splits)
    then show ?thesis using t(2) by (auto simp: outgoing_task_def requeued_def split: option.splits if_splits)
  qed simp
  then show ?thesis unfolding if_not_P [OF False] using s d by blast
qed

theorem schedule_keeps_invariant_witness:
  "(\<exists>r k'. schedule_from_interrupt x86_arith_ops {} 0 sample_kernel = Some (r, k') \<and> sched_ok k' \<and> distinct (placed k')) \<and>
   schedule_from_interrupt x86_arith_ops {} 0 sample_dying = panic"
proof -
  have q: "run_queue (sample_cpu 0 (Some 1) [2, 3]) = Some \<lparr> current_task = Some 1, ready = [2, 3] \<rparr>"
    by (simp add: sample_cpu_def)
  have "distinct (placed sample_kernel)"
    by (simp add: placed_def sample_kernel_def slot_tasks_def sample_cpu_def rq_tasks_def)
  then have "\<exists>r k'. schedule_from_interrupt x86_arith_ops {} 0 sample_kernel = Some (r, k') \<and> sched_ok k' \<and> distinct (placed k')"
    using schedule_keeps_invariant [OF x86_arith.x86_addr_axioms sample_kernel_ok sample_cpus(1) q, of "{}"]
      sample_outgoing(1) by (auto simp: U64_LIMIT_num)
  moreover have "schedule_from_interrupt x86_arith_ops {} 0 sample_dying = panic"
    using schedule_keeps_invariant [OF x86_arith.x86_addr_axioms sample_dying_ok sample_dying_cpu q, of "{}"]
      sample_outgoing(2) by (simp add: U64_LIMIT_num)
  ultimately show ?thesis by blast
qed

text \<open>C7. Round robin: unless the task running now is a zombie or sleeping task to which the run queue
  holds the last reference, the task at position \<open>i\<close> of a CPU's ready queue is running after exactly
  \<open>i + 1\<close> timer ticks, with its own address space and kernel stack installed in the hardware.\<close>

theorem ready_task_runs:
  assumes "x86_addr X" "sched_ok k" "get_cpu k c = Some cpu" "run_queue cpu = Some rq"
    "i < length (ready rq)" "length (ready rq) < U64_LIMIT" "\<not> outgoing_dies slots k rq"
  shows "\<exists>k' cpu' t. schedule_ticks X slots c (Suc i) k = Some k' \<and> get_cpu k' c = Some cpu' \<and>
    current_context_ptr cpu' = Some (ready rq ! i) \<and> k_tasks k' (ready rq ! i) = Some t \<and> t_state t = Running \<and>
    hw_cr3 cpu' = t_cr3 t \<and> tss_rsp0 cpu' = Some (ti_kernel_stack_top (t_inner t)) \<and>
    current_task_kernel_stack_top cpu' = ti_kernel_stack_top (t_inner t)"
proof -
  from schedule_ticks_reaches [OF assms] obtain k' cpu' rq' t where
    s: "schedule_ticks X slots c (Suc i) k = Some k'" "sched_ok k'" "get_cpu k' c = Some cpu'"
      "run_queue cpu' = Some rq'" "current_task rq' = Some (ready rq ! i)" "k_tasks k' (ready rq ! i) = Some t"
      "t_state t = Running" by blast
  note d = cpu_okD [OF sched_okD [OF s(2,3)] s(4)]
  show ?thesis using s d(3) d(5) [OF s(5,6)] by auto
qed

theorem ready_task_runs_witness:
  "\<exists>k' cpu'. schedule_ticks x86_arith_ops {} 0 (Suc 1) sample_kernel = Some k' \<and> get_cpu k' 0 = Some cpu' \<and>
     current_context_ptr cpu' = Some 3"
proof -
  have "run_queue (sample_cpu 0 (Some 1) [2, 3]) = Some \<lparr> current_task = Some 1, ready = [2, 3] \<rparr>"
    by (simp add: sample_cpu_def)
  from ready_task_runs [OF x86_arith.x86_addr_axioms sample_kernel_ok sample_cpus(1) this, of 1 "{}"] sample_outgoing(1)
  show ?thesis by (auto simp: U64_LIMIT_num)
qed



text \<open>Waking a task makes it ready and appends it to the queue of the CPU it slept on, with a
  reschedule interrupt exactly when that is another CPU. Afterwards every task is in one place if and
  only if that was so before and the woken task was in no place at all: waking a task that is still
  running or queued puts it into a second place.\<close>

theorem wake_task_places_once:
  assumes "sched_ok k" "get_cpu k c = Some lcpu" "get_cpu k g = Some cpu" "run_queue cpu = Some rq"
    "k_tasks k t = Some x" "task_ok x"
  shows "\<exists>k'. wake_task c t g k = Some k' \<and> sched_ok k' \<and> mset (placed k') = add_mset t (mset (placed k)) \<and>
    k_ipis k' = k_ipis k @ (if g = c then [] else [(local_apic_id cpu, RESCHEDULE_VECTOR)]) \<and>
    k_tasks k' = (k_tasks k)(t \<mapsto> x \<lparr> t_state := Ready \<rparr>) \<and>
    (distinct (placed k') \<longleftrightarrow> distinct (placed k) \<and> t \<notin> set (placed k))"
proof -
  from wake_task_ok [OF assms] obtain k' where
    w: "wake_task c t g k = Some k'" "sched_ok k'" "mset (placed k') = add_mset t (mset (placed k))"
      "k_ipis k' = k_ipis k @ (if g = c then [] else [(local_apic_id cpu, RESCHEDULE_VECTOR)])"
      "k_tasks k' = (k_tasks k)(t \<mapsto> x \<lparr> t_state := Ready \<rparr>)" by blast
  have "mset (placed k') = mset (t # placed k)" using w(3) by simp
  then have "distinct (placed k') \<longleftrightarrow> distinct (t # placed k)" by (rule mset_eq_imp_distinct_iff)
  then show ?thesis using w by auto
qed

theorem wake_task_places_once_witness:
  "(\<exists>k'. wake_task 0 5 1 sample_kernel = Some k' \<and> distinct (placed k') \<and> k_ipis k' = [(11, RESCHEDULE_VECTOR)]) \<and>
   (\<exists>k'. wake_task 0 1 0 sample_kernel = Some k' \<and> \<not> distinct (placed k'))"
proof -
  have p: "distinct (placed sample_kernel)" "5 \<notin> set (placed sample_kernel)" "1 \<in> set (placed sample_kernel)"
    by (simp_all add: placed_def sample_kernel_def slot_tasks_def sample_cpu_def rq_tasks_def)
  have q: "run_queue (sample_cpu 0 (Some 1) [2, 3]) = Some \<lparr> current_task = Some 1, ready = [2, 3] \<rparr>"
      "run_queue (sample_cpu 1 (Some 4) []) = Some \<lparr> current_task = Some 4, ready = [] \<rparr>"
      "local_apic_id (sample_cpu 1 (Some 4) []) = 11" "k_ipis sample_kernel = []"
    by (simp_all add: sample_cpu_def sample_kernel_def)
  have t: "k_tasks sample_kernel 5 = Some (sample_task 5 Sleeping)" "k_tasks sample_kernel 1 = Some (sample_task 1 Running)"
    by (simp_all add: sample_kernel_def)
  show ?thesis
    using wake_task_places_once [OF sample_kernel_ok sample_cpus(1,2) q(2) t(1)]
      wake_task_places_once [OF sample_kernel_ok sample_cpus(1,1) q(1) t(2)] p q(3,4) sample_task_ok [of 5]
      sample_task_ok [of 1] by auto
qed

end
