(* ===== verification/Bounded_Queue.thy ===== *)
theory Bounded_Queue
  imports Prelude
begin

text \<open>
  The contract the kernel's bounded queues share: IPC channels refuse a message when they are full,
  the keyboard and mouse buffers refuse an event when they are full, and all of them hand their
  elements out in the order they were accepted. The locale states the contract over an abstraction
  to lists; the order of whole sequences of operations is proved once inside it.
\<close>

datatype 'a qop = QPush 'a | QPop

text \<open>A run of operations: the queue it ends in, the elements it accepted, the elements it
  handed out.\<close>

fun queue_run ::
    "('a \<Rightarrow> 'q \<Rightarrow> 'q option) \<Rightarrow> ('q \<Rightarrow> ('a \<times> 'q) option) \<Rightarrow> 'a qop list \<Rightarrow> 'q \<Rightarrow> 'q \<times> 'a list \<times> 'a list" where
  "queue_run push pop [] q = (q, [], [])"
| "queue_run push pop (QPush x # ops) q =
     (case push x q of
        None \<Rightarrow> queue_run push pop ops q
      | Some q' \<Rightarrow> (case queue_run push pop ops q' of (r, ins, outs) \<Rightarrow> (r, x # ins, outs)))"
| "queue_run push pop (QPop # ops) q =
     (case pop q of
        None \<Rightarrow> queue_run push pop ops q
      | Some (x, q') \<Rightarrow> (case queue_run push pop ops q' of (r, ins, outs) \<Rightarrow> (r, ins, x # outs)))"

locale bounded_queue =
  fixes invar :: "'q \<Rightarrow> bool"
    and contents :: "'q \<Rightarrow> 'a list"
    and cap :: "'q \<Rightarrow> nat"
    and push :: "'a \<Rightarrow> 'q \<Rightarrow> 'q option"
    and pop :: "'q \<Rightarrow> ('a \<times> 'q) option"
  assumes within_cap: "invar q \<Longrightarrow> length (contents q) \<le> cap q"
    and push_full: "invar q \<Longrightarrow> length (contents q) = cap q \<Longrightarrow> push x q = None"
    and push_room: "invar q \<Longrightarrow> length (contents q) < cap q \<Longrightarrow>
      \<exists>q'. push x q = Some q' \<and> invar q' \<and> contents q' = contents q @ [x] \<and> cap q' = cap q"
    and pop_empty: "invar q \<Longrightarrow> contents q = [] \<Longrightarrow> pop q = None"
    and pop_front: "invar q \<Longrightarrow> contents q = x # xs \<Longrightarrow>
      \<exists>q'. pop q = Some (x, q') \<and> invar q' \<and> contents q' = xs \<and> cap q' = cap q"
begin

lemma push_cases:
  assumes "invar q"
  obtains "push x q = None" "length (contents q) = cap q"
  | q' where "push x q = Some q'" "invar q'" "contents q' = contents q @ [x]" "cap q' = cap q"
  using within_cap [OF assms] push_full [OF assms] push_room [OF assms, of x] le_neq_implies_less by metis

lemma pop_cases:
  assumes "invar q"
  obtains "pop q = None" "contents q = []"
  | x xs q' where "pop q = Some (x, q')" "contents q = x # xs" "invar q'" "contents q' = xs" "cap q' = cap q"
  using pop_empty [OF assms] pop_front [OF assms] by (metis neq_Nil_conv)

text \<open>First in, first out, nothing lost and nothing duplicated: what was in the queue followed by
  what was accepted is what was handed out followed by what is left.\<close>

lemma run_fifo:
  "invar q \<Longrightarrow> queue_run push pop ops q = (q', ins, outs) \<Longrightarrow>
   contents q @ ins = outs @ contents q' \<and> invar q' \<and> cap q' = cap q"
proof (induction ops arbitrary: q q' ins outs)
  case (Cons op ops)
  show ?case
  proof (cases op)
    case (QPush x)
    from Cons.prems(1) show ?thesis
    proof (cases rule: push_cases [of q x])
      case 1
      then show ?thesis using Cons QPush by simp
    next
      case (2 q1)
      obtain q2 i o' where r: "queue_run push pop ops q1 = (q2, i, o')" by (metis prod_cases3)
      then have "q2 = q'" "ins = x # i" "outs = o'" using Cons.prems(2) QPush 2(1) by simp_all
      then show ?thesis using Cons.IH [OF 2(2) r] 2(3,4) by simp
    qed
  next
    case QPop
    from Cons.prems(1) show ?thesis
    proof (cases rule: pop_cases [of q])
      case 1
      then show ?thesis using Cons.IH [OF Cons.prems(1)] Cons.prems(2) QPop by simp
    next
      case (2 x xs q1)
      obtain q2 i o' where r: "queue_run push pop ops q1 = (q2, i, o')" by (metis prod_cases3)
      then have "q2 = q'" "ins = i" "outs = x # o'" using Cons.prems(2) QPop 2(1) by simp_all
      then show ?thesis using Cons.IH [OF 2(3) r] 2(2,4,5) by simp
    qed
  qed
qed simp

end

text \<open>
  The contract of the event buffers, which drop an element when they are full and whose operations
  are code that could panic but does not. Such a buffer is a bounded queue whose push is refused when
  there is no room.
\<close>

locale dropping_queue =
  fixes invar :: "'q \<Rightarrow> bool"
    and contents :: "'q \<Rightarrow> 'a list"
    and cap :: nat
    and push :: "'a \<Rightarrow> 'q \<Rightarrow> 'q rust"
    and pop :: "'q \<Rightarrow> ('a option \<times> 'q) rust"
  assumes bounded: "invar q \<Longrightarrow> length (contents q) \<le> cap"
    and push_total: "invar q \<Longrightarrow> \<exists>q'. push x q = Some q' \<and> invar q' \<and>
      contents q' = (if length (contents q) < cap then contents q @ [x] else contents q)"
    and pop_none: "invar q \<Longrightarrow> contents q = [] \<Longrightarrow> pop q = Some (None, q)"
    and pop_some: "invar q \<Longrightarrow> contents q = x # xs \<Longrightarrow>
      \<exists>q'. pop q = Some (Some x, q') \<and> invar q' \<and> contents q' = xs"
begin

definition accept :: "'a \<Rightarrow> 'q \<Rightarrow> 'q option" where
  "accept x q = (if length (contents q) < cap then push x q else None)"

definition take_front :: "'q \<Rightarrow> ('a \<times> 'q) option" where
  "take_front q = (case pop q of Some (Some x, q') \<Rightarrow> Some (x, q') | _ \<Rightarrow> None)"

end

sublocale dropping_queue \<subseteq> bounded: bounded_queue invar contents "\<lambda>_. cap" accept take_front
proof
  show "length (contents q) \<le> cap" if "invar q" for q using bounded [OF that] .
  show "accept x q = None" if "invar q" "length (contents q) = cap" for x q using that by (simp add: accept_def)
  show "\<exists>q'. accept x q = Some q' \<and> invar q' \<and> contents q' = contents q @ [x] \<and> cap = cap"
    if "invar q" "length (contents q) < cap" for x q
    using push_total [OF that(1), of x] that(2) by (auto simp: accept_def)
  show "take_front q = None" if "invar q" "contents q = []" for q
    using pop_none [OF that] by (simp add: take_front_def)
  show "\<exists>q'. take_front q = Some (x, q') \<and> invar q' \<and> contents q' = xs \<and> cap = cap"
    if "invar q" "contents q = x # xs" for q x xs
    using pop_some [OF that] by (auto simp: take_front_def)
qed

end
