(* ===== verification/Ipc.thy ===== *)
theory Ipc
  imports Dispatch Bounded_Queue
begin

text \<open>
  IPC channels: \<^verbatim>\<open>kernel/core/src/ipc/mod.rs\<close>. A channel is an object in a store; the endpoint
  registry maps endpoint ids to a role and a channel. The state extends the scheduler's, because a
  successful send or receive wakes a task that sleeps on the channel.
\<close>

section \<open>Data\<close>

definition MAX_MESSAGE_SIZE :: nat where
  "MAX_MESSAGE_SIZE = 4096"

definition DEFAULT_CHANNEL_CAPACITY :: nat where
  "DEFAULT_CHANNEL_CAPACITY = 16"

definition MAX_CHANNEL_CAPACITY :: nat where
  "MAX_CHANNEL_CAPACITY = 256"

datatype EndpointRole = Send | Recv

record Endpoint =
  ep_role :: EndpointRole
  ep_channel :: nat

type_synonym waiter = "nat \<times> nat"

record Channel =
  ch_queue :: "byte list list"
  ch_capacity :: nat
  ch_send_closed :: bool
  ch_recv_closed :: bool
  ch_recv_waiters :: "waiter list"
  ch_send_waiters :: "waiter list"

datatype IpcError =
  InvalidEndpoint | WrongDirection | PeerClosed | ChannelFull | WouldBlock | MessageTooLarge | InvalidArgs

text \<open>\<open>k_next_channel\<close> names the object the next \<^verbatim>\<open>Arc::new\<close> creates.\<close>

record 's Ipc = "'s Sched" +
  k_endpoints :: "nat \<rightharpoonup> Endpoint"
  k_channels :: "nat \<rightharpoonup> Channel"
  k_next_endpoint_id :: nat
  k_next_channel :: nat

section \<open>Operations\<close>

definition clamp_capacity :: "nat \<Rightarrow> nat" where
  "clamp_capacity capacity =
     (if capacity = 0 then DEFAULT_CHANNEL_CAPACITY else max 1 (min capacity MAX_CHANNEL_CAPACITY))"

definition create_channel :: "nat \<Rightarrow> ('s, 'z) Ipc_scheme \<Rightarrow> (nat \<times> nat) \<times> ('s, 'z) Ipc_scheme" where
  "create_channel capacity k =
     (let channel = k_next_channel k;
          send_id = k_next_endpoint_id k;
          recv_id = fetch_add_1 send_id
      in ((send_id, recv_id),
          k \<lparr> k_channels := (k_channels k)(channel \<mapsto>
                \<lparr> ch_queue = [], ch_capacity = clamp_capacity capacity, ch_send_closed = False,
                  ch_recv_closed = False, ch_recv_waiters = [], ch_send_waiters = [] \<rparr>),
              k_next_channel := Suc channel,
              k_next_endpoint_id := fetch_add_1 recv_id,
              k_endpoints := (k_endpoints k)(send_id \<mapsto> \<lparr> ep_role = Send, ep_channel = channel \<rparr>,
                                             recv_id \<mapsto> \<lparr> ep_role = Recv, ep_channel = channel \<rparr>) \<rparr>))"

definition upd_channel :: "nat \<Rightarrow> (Channel \<Rightarrow> Channel) \<Rightarrow> ('s, 'z) Ipc_scheme \<Rightarrow> ('s, 'z) Ipc_scheme" where
  "upd_channel ch f k = k \<lparr> k_channels := (k_channels k)(ch := map_option f (k_channels k ch)) \<rparr>"

text \<open>\<^verbatim>\<open>wake_waiter\<close> on one of the two waiter queues of a channel, given by the field's
  selector and update.\<close>

definition wake_waiter ::
    "(Channel \<Rightarrow> waiter list) \<Rightarrow> ((waiter list \<Rightarrow> waiter list) \<Rightarrow> Channel \<Rightarrow> Channel) \<Rightarrow> nat \<Rightarrow> nat \<Rightarrow>
     ('s, 'z) Ipc_scheme \<Rightarrow> ('s, 'z) Ipc_scheme rust" where
  "wake_waiter waiters upd c ch k =
     do { chan \<leftarrow> unwrap (k_channels k ch);
          case waiters chan of
            [] \<Rightarrow> Some k
          | (t, cpu_id) # ws \<Rightarrow> wake_task c t cpu_id (upd_channel ch (upd (\<lambda>_. ws)) k) }"

definition chan_push :: "byte list \<Rightarrow> Channel \<Rightarrow> Channel option" where
  "chan_push msg chan =
     (if length (ch_queue chan) \<ge> ch_capacity chan then None
      else Some (chan \<lparr> ch_queue := ch_queue chan @ [msg] \<rparr>))"

definition chan_pop :: "Channel \<Rightarrow> (byte list \<times> Channel) option" where
  "chan_pop chan = (case ch_queue chan of [] \<Rightarrow> None | msg # rest \<Rightarrow> Some (msg, chan \<lparr> ch_queue := rest \<rparr>))"

text \<open>\<^verbatim>\<open>registry.get(&id).ok_or(InvalidEndpoint)?\<close> followed by the check of the direction.\<close>

definition endpoint_channel :: "EndpointRole \<Rightarrow> nat \<Rightarrow> ('s, 'z) Ipc_scheme \<Rightarrow> IpcError + nat" where
  "endpoint_channel role endpoint_id k =
     (case k_endpoints k endpoint_id of
        None \<Rightarrow> Inl InvalidEndpoint
      | Some ep \<Rightarrow> if ep_role ep \<noteq> role then Inl WrongDirection else Inr (ep_channel ep))"

definition try_send ::
    "nat \<Rightarrow> nat \<Rightarrow> byte list \<Rightarrow> ('s, 'z) Ipc_scheme \<Rightarrow> ((IpcError + unit) \<times> ('s, 'z) Ipc_scheme) rust" where
  "try_send c endpoint_id data k =
     (if length data > MAX_MESSAGE_SIZE then Some (Inl MessageTooLarge, k)
      else case endpoint_channel Send endpoint_id k of
        Inl e \<Rightarrow> Some (Inl e, k)
      | Inr ch \<Rightarrow>
          do { chan \<leftarrow> unwrap (k_channels k ch);
               if ch_recv_closed chan then Some (Inl PeerClosed, k)
               else case chan_push data chan of
                 None \<Rightarrow> Some (Inl ChannelFull, k)
               | Some chan' \<Rightarrow>
                   do { k' \<leftarrow> wake_waiter ch_recv_waiters ch_recv_waiters_update c ch (k \<lparr> k_channels := (k_channels k)(ch \<mapsto> chan') \<rparr>);
                        Some (Inr (), k') } })"

definition try_recv ::
    "nat \<Rightarrow> nat \<Rightarrow> ('s, 'z) Ipc_scheme \<Rightarrow> ((IpcError + byte list) \<times> ('s, 'z) Ipc_scheme) rust" where
  "try_recv c endpoint_id k =
     (case endpoint_channel Recv endpoint_id k of
        Inl e \<Rightarrow> Some (Inl e, k)
      | Inr ch \<Rightarrow>
          do { chan \<leftarrow> unwrap (k_channels k ch);
               case chan_pop chan of
                 Some (msg, chan') \<Rightarrow>
                   do { k' \<leftarrow> wake_waiter ch_send_waiters ch_send_waiters_update c ch (k \<lparr> k_channels := (k_channels k)(ch \<mapsto> chan') \<rparr>);
                        Some (Inr msg, k') }
               | None \<Rightarrow>
                   if ch_send_closed chan then Some (Inl PeerClosed, k)
                   else Some (Inl WouldBlock, k) })"

definition close_endpoint ::
    "nat \<Rightarrow> ('s, 'z) Ipc_scheme \<Rightarrow> (IpcError + unit) \<times> ('s, 'z) Ipc_scheme" where
  "close_endpoint endpoint_id k =
     (case k_endpoints k endpoint_id of
        None \<Rightarrow> (Inl InvalidEndpoint, k)
      | Some ep \<Rightarrow>
          let k1 = k \<lparr> k_endpoints := (k_endpoints k)(endpoint_id := None) \<rparr>
          in (Inr (), case ep_role ep of
                Send \<Rightarrow> upd_channel (ep_channel ep) (\<lambda>x. x \<lparr> ch_send_closed := True \<rparr>) k1
              | Recv \<Rightarrow> upd_channel (ep_channel ep) (\<lambda>x. x \<lparr> ch_recv_closed := True \<rparr>) k1))"

section \<open>Channels are bounded queues\<close>

definition chan_ok :: "Channel \<Rightarrow> bool" where
  "chan_ok chan \<longleftrightarrow> length (ch_queue chan) \<le> ch_capacity chan \<and> 1 \<le> ch_capacity chan \<and>
     ch_capacity chan \<le> MAX_CHANNEL_CAPACITY"

interpretation chan: bounded_queue chan_ok ch_queue ch_capacity chan_push chan_pop
  by standard (auto simp: chan_ok_def chan_push_def chan_pop_def)

section \<open>Invariant\<close>

definition waiter_ok :: "('s, 'z) Sched_scheme \<Rightarrow> waiter \<Rightarrow> bool" where
  "waiter_ok k w \<longleftrightarrow> task_live k (fst w) \<and> rq_ready k (snd w)"

definition channel_ok :: "('s, 'z) Ipc_scheme \<Rightarrow> Channel \<Rightarrow> bool" where
  "channel_ok k chan \<longleftrightarrow> chan_ok chan \<and> (\<forall>m\<in>set (ch_queue chan). length m \<le> MAX_MESSAGE_SIZE) \<and>
     (\<forall>w\<in>set (ch_recv_waiters chan). waiter_ok k w) \<and> (\<forall>w\<in>set (ch_send_waiters chan). waiter_ok k w)"

text \<open>Endpoints refer to existing channels, each direction of a channel has at most one endpoint,
  ids below the counters only, and every channel is well formed.\<close>

definition ipc_ok :: "('s, 'z) Ipc_scheme \<Rightarrow> bool" where
  "ipc_ok k \<longleftrightarrow> sched_ok k \<and>
     (\<forall>e ep. k_endpoints k e = Some ep \<longrightarrow> e < k_next_endpoint_id k \<and> k_channels k (ep_channel ep) \<noteq> None) \<and>
     (\<forall>e e' ep. k_endpoints k e = Some ep \<longrightarrow> k_endpoints k e' = Some ep \<longrightarrow> e = e') \<and>
     (\<forall>ch chan. k_channels k ch = Some chan \<longrightarrow> ch < k_next_channel k \<and> channel_ok k chan)"

lemma ipc_okD:
  assumes "ipc_ok k"
  shows "sched_ok k"
    "k_endpoints k e = Some ep \<Longrightarrow> e < k_next_endpoint_id k \<and> k_channels k (ep_channel ep) \<noteq> None"
    "k_endpoints k e = Some ep \<Longrightarrow> k_endpoints k e' = Some ep \<Longrightarrow> e = e'"
    "k_channels k ch = Some chan \<Longrightarrow> ch < k_next_channel k \<and> channel_ok k chan"
  using assms unfolding ipc_ok_def by blast+

lemma channel_ok_cong:
  assumes "channel_ok k chan" "same_tasks (k_tasks k) (k_tasks k')" "\<And>d. rq_ready k' d = rq_ready k d"
  shows "channel_ok k' chan"
proof -
  have "waiter_ok k' w" if "waiter_ok k w" for w
    using that assms(3) task_live_same [OF assms(2)] by (simp add: waiter_ok_def)
  then show ?thesis using assms(1) by (simp add: channel_ok_def)
qed

text \<open>Changing one channel to a well-formed one, with tasks and run queues kept alive.\<close>

lemma ipc_ok_step:
  assumes "ipc_ok k" "sched_ok k'" "same_tasks (k_tasks k) (k_tasks k')" "\<And>d. rq_ready k' d = rq_ready k d"
    "k_endpoints k' = k_endpoints k" "k_next_endpoint_id k' = k_next_endpoint_id k"
    "k_next_channel k' = k_next_channel k" "k_channels k' = (k_channels k)(ch \<mapsto> chan')"
    "k_channels k ch \<noteq> None" "channel_ok k chan'"
  shows "ipc_ok k'"
  unfolding ipc_ok_def
proof (intro conjI allI impI)
  show "sched_ok k'" by fact
  show "e < k_next_endpoint_id k'" "k_channels k' (ep_channel ep) \<noteq> None" if "k_endpoints k' e = Some ep" for e ep
    using that assms(5,6,8) ipc_okD(2) [OF assms(1), of e ep] by auto
  show "e = e'" if "k_endpoints k' e = Some ep" "k_endpoints k' e' = Some ep" for e e' ep
    using that assms(5) ipc_okD(3) [OF assms(1)] by simp
  fix c chan assume c: "k_channels k' c = Some chan"
  show "c < k_next_channel k'"
    using c assms(7,8,9) ipc_okD(4) [OF assms(1), of c] by (cases "c = ch") auto
  have "channel_ok k chan" using c assms(8,10) ipc_okD(4) [OF assms(1), of c chan] by (cases "c = ch") auto
  then show "channel_ok k' chan" by (rule channel_ok_cong [OF _ assms(3,4)])
qed

lemma wake_task_total:
  assumes "sched_ok k" "rq_ready k c" "waiter_ok k (t, g)"
  shows "\<exists>k'. wake_task c t g k = Some k' \<and> sched_ok k'"
proof -
  from assms(2) obtain lcpu where "get_cpu k c = Some lcpu" by (auto simp: rq_ready_def)
  moreover from assms(3) obtain cpu rq x where "get_cpu k g = Some cpu" "run_queue cpu = Some rq"
      "k_tasks k t = Some x" "task_ok x" by (auto simp: waiter_ok_def rq_ready_def task_live_def)
  ultimately show ?thesis using wake_task_ok [OF assms(1)] by blast
qed

text \<open>The first waiter of a queue: woken, and gone from the queue.\<close>

definition woken :: "waiter list \<Rightarrow> ('s, 'z) Sched_scheme \<Rightarrow> ('s, 'y) Sched_scheme \<Rightarrow> bool" where
  "woken ws k k' \<longleftrightarrow> (case ws of
     [] \<Rightarrow> k_cpus k' = k_cpus k \<and> k_tasks k' = k_tasks k \<and> k_ipis k' = k_ipis k
   | (t, g) # _ \<Rightarrow> mset (placed k') = add_mset t (mset (placed k)) \<and>
       (\<exists>x. k_tasks k t = Some x \<and> k_tasks k' = (k_tasks k)(t \<mapsto> x \<lparr> t_state := Ready \<rparr>)))"

locale waiter_queue =
  fixes waiters :: "Channel \<Rightarrow> waiter list"
    and upd :: "(waiter list \<Rightarrow> waiter list) \<Rightarrow> Channel \<Rightarrow> Channel"
  assumes upd_same: "upd (\<lambda>_. waiters x) x = x"
    and first_in: "waiters x = w # ws \<Longrightarrow> w \<in> set (ch_recv_waiters x) \<union> set (ch_send_waiters x)"
    and tail_waiters: "waiters x = w # ws \<Longrightarrow>
      set (ch_recv_waiters (upd (\<lambda>_. ws) x)) \<subseteq> set (ch_recv_waiters x) \<and>
      set (ch_send_waiters (upd (\<lambda>_. ws) x)) \<subseteq> set (ch_send_waiters x)"
    and upd_queue: "ch_queue (upd f x) = ch_queue x \<and> ch_capacity (upd f x) = ch_capacity x"
begin

lemma first_ok: "channel_ok k x \<Longrightarrow> waiters x = w # ws \<Longrightarrow> waiter_ok k w"
  using first_in [of x w ws] by (auto simp: channel_ok_def)

lemma tail_ok: "channel_ok k x \<Longrightarrow> waiters x = w # ws \<Longrightarrow> channel_ok k (upd (\<lambda>_. ws) x)"
  using tail_waiters [of x w ws] upd_queue by (auto simp: channel_ok_def chan_ok_def)

lemma wake_waiter_spec:
  assumes "ipc_ok k" "rq_ready k c" "k_channels k ch = Some chan"
  shows "\<exists>k'. wake_waiter waiters upd c ch k = Some k' \<and> ipc_ok k' \<and>
    k_channels k' = (k_channels k)(ch \<mapsto> upd (\<lambda>_. tl (waiters chan)) chan) \<and>
    k_endpoints k' = k_endpoints k \<and> woken (waiters chan) k k' \<and> (\<forall>d. rq_ready k' d = rq_ready k d)"
proof (cases "waiters chan")
  case Nil
  then have "upd (\<lambda>_. tl (waiters chan)) chan = chan" using upd_same [of chan] by simp
  then show ?thesis using assms Nil by (simp add: wake_waiter_def woken_def fun_upd_idem)
next
  case (Cons w ws)
  obtain t g where w: "w = (t, g)" by (cases w) auto
  let ?chan' = "upd (\<lambda>_. ws) chan"
  let ?k1 = "upd_channel ch (upd (\<lambda>_. ws)) k"
  have k1: "k_channels ?k1 = (k_channels k)(ch \<mapsto> ?chan')" "k_cpus ?k1 = k_cpus k" "k_tasks ?k1 = k_tasks k"
      "k_endpoints ?k1 = k_endpoints k" "k_next_endpoint_id ?k1 = k_next_endpoint_id k"
      "k_next_channel ?k1 = k_next_channel k" using assms(3) by (simp_all add: upd_channel_def)
  have co: "channel_ok k chan" using ipc_okD(4) [OF assms(1,3)] by simp
  have wo: "waiter_ok k (t, g)" and co': "channel_ok k ?chan'"
    using first_ok [OF co Cons] tail_ok [OF co Cons] w by simp_all
  have rq1: "rq_ready ?k1 d = rq_ready k d" for d by (rule rq_ready_cong) (fact k1(2))
  have ok1: "sched_ok ?k1" using ipc_okD(1) [OF assms(1)] sched_ok_cong [OF k1(2,3)] by simp
  have wo1: "waiter_ok ?k1 (t, g)" "rq_ready ?k1 c"
    using wo assms(2) k1(3) rq1 by (simp_all add: waiter_ok_def task_live_def)
  from wake_task_total [OF ok1 wo1(2,1)] obtain k' where k': "wake_task c t g ?k1 = Some k'" "sched_ok k'" by blast
  from wake_task_frame(1) [OF k'(1)] obtain cs ms where
    f: "k' = ?k1 \<lparr> k_cpus := cs, k_tasks := k_tasks (set_task_state t Ready ?k1), k_ipis := ms \<rparr>" by blast
  note f2 = wake_task_frame(2,3) [OF k'(1)]
  have "ipc_ok k'"
    by (rule ipc_ok_step [OF assms(1) k'(2) _ _ _ _ _ _ _ co', of ch]) (use f f2 k1 rq1 assms(3) in simp_all)
  moreover have "woken (waiters chan) k k'"
  proof -
    obtain lcpu cpu rq x where g: "get_cpu ?k1 c = Some lcpu" "get_cpu ?k1 g = Some cpu" "run_queue cpu = Some rq"
        "k_tasks ?k1 t = Some x" "task_ok x"
      using wo1 by (auto simp: waiter_ok_def rq_ready_def task_live_def)
    from wake_task_ok [OF ok1 g] k'(1) have "mset (placed k') = add_mset t (mset (placed ?k1))"
      "k_tasks k' = (k_tasks ?k1)(t \<mapsto> x \<lparr> t_state := Ready \<rparr>)" by auto
    then show ?thesis using g(4) k1(3) placed_cong [OF k1(2)] Cons w by (simp add: woken_def)
  qed
  moreover have "wake_waiter waiters upd c ch k = Some k'" using k'(1) assms(3) Cons w by (simp add: wake_waiter_def)
  ultimately show ?thesis using f k1 f2 rq1 Cons by simp
qed

end

interpretation recv_waiters: waiter_queue ch_recv_waiters ch_recv_waiters_update
  by standard auto

interpretation send_waiters: waiter_queue ch_send_waiters ch_send_waiters_update
  by standard auto

section \<open>What the operations do\<close>

text \<open>The result of a send and of a receive, as functions of the state before.\<close>

definition send_result :: "('s, 'z) Ipc_scheme \<Rightarrow> nat \<Rightarrow> byte list \<Rightarrow> IpcError + nat" where
  "send_result k e data =
     (if length data > MAX_MESSAGE_SIZE then Inl MessageTooLarge
      else case k_endpoints k e of
        None \<Rightarrow> Inl InvalidEndpoint
      | Some ep \<Rightarrow>
          if ep_role ep = Recv then Inl WrongDirection
          else case k_channels k (ep_channel ep) of
            None \<Rightarrow> Inl InvalidEndpoint
          | Some chan \<Rightarrow>
              if ch_recv_closed chan then Inl PeerClosed
              else if length (ch_queue chan) = ch_capacity chan then Inl ChannelFull
              else Inr (ep_channel ep))"

lemma try_send_spec:
  assumes "ipc_ok k" "rq_ready k c"
  shows "case send_result k e data of
      Inl err \<Rightarrow> try_send c e data k = Some (Inl err, k)
    | Inr ch \<Rightarrow> \<exists>k' chan. try_send c e data k = Some (Inr (), k') \<and> ipc_ok k' \<and> k_channels k ch = Some chan \<and>
        k_channels k' = (k_channels k)(ch \<mapsto> chan \<lparr> ch_queue := ch_queue chan @ [data],
                                                    ch_recv_waiters := tl (ch_recv_waiters chan) \<rparr>) \<and>
        k_endpoints k' = k_endpoints k \<and> woken (ch_recv_waiters chan) k k' \<and> (\<forall>d. rq_ready k' d = rq_ready k d)"
proof (cases "k_endpoints k e")
  case None
  then show ?thesis by (simp add: send_result_def try_send_def endpoint_channel_def)
next
  case (Some ep)
  let ?ch = "ep_channel ep"
  from ipc_okD(2) [OF assms(1) Some] obtain chan where chan: "k_channels k ?ch = Some chan" by auto
  from ipc_okD(4) [OF assms(1) chan] have co: "channel_ok k chan" by simp
  then have full: "length (ch_queue chan) \<ge> ch_capacity chan \<longleftrightarrow> length (ch_queue chan) = ch_capacity chan"
    by (auto simp: channel_ok_def chan_ok_def)
  show ?thesis
  proof (cases "send_result k e data")
    case (Inl err)
    then show ?thesis
      using Some chan full
      by (cases "ep_role ep") (auto simp: send_result_def try_send_def endpoint_channel_def chan_push_def split: if_splits)
  next
    case (Inr ch)
    then have c: "ch = ?ch" "ep_role ep = Send" "length data \<le> MAX_MESSAGE_SIZE" "\<not> ch_recv_closed chan"
        "length (ch_queue chan) \<noteq> ch_capacity chan"
      using Some chan by (cases "ep_role ep"; auto simp: send_result_def split: if_splits)+
    let ?chan1 = "chan \<lparr> ch_queue := ch_queue chan @ [data] \<rparr>"
    let ?k1 = "k \<lparr> k_channels := (k_channels k)(?ch \<mapsto> ?chan1) \<rparr>"
    have push: "chan_push data chan = Some ?chan1" using c(5) full by (auto simp: chan_push_def)
    have co1: "channel_ok k ?chan1" using co c(3,5) by (auto simp: channel_ok_def chan_ok_def)
    have rq1: "rq_ready ?k1 d = rq_ready k d" for d by (rule rq_ready_cong) simp
    have s1: "sched_ok ?k1" using ipc_okD(1) [OF assms(1)] sched_ok_cong [of ?k1 k] by simp
    have ok1: "ipc_ok ?k1"
      by (rule ipc_ok_step [OF assms(1) s1 _ _ _ _ _ _ _ co1, of ?ch]) (use chan rq1 in simp_all)
    have ch1: "k_channels ?k1 ?ch = Some ?chan1" "rq_ready ?k1 c" using assms(2) rq1 by simp_all
    from recv_waiters.wake_waiter_spec [OF ok1 ch1(2,1)] obtain k' where
      k': "wake_waiter ch_recv_waiters ch_recv_waiters_update c ?ch ?k1 = Some k'" "ipc_ok k'"
        "k_channels k' = (k_channels ?k1)(?ch \<mapsto> ?chan1 \<lparr> ch_recv_waiters := tl (ch_recv_waiters ?chan1) \<rparr>)"
        "k_endpoints k' = k_endpoints ?k1" "woken (ch_recv_waiters ?chan1) ?k1 k'" "\<forall>d. rq_ready k' d = rq_ready ?k1 d"
      by blast
    have "woken (ch_recv_waiters chan) k k'"
      using k'(5) placed_cong [of ?k1 k] by (simp add: woken_def split: list.splits prod.splits)
    then show ?thesis
      using Inr Some chan c push k' rq1 by (simp add: try_send_def endpoint_channel_def)
  qed
qed

definition recv_result :: "('s, 'z) Ipc_scheme \<Rightarrow> nat \<Rightarrow> IpcError + nat" where
  "recv_result k e =
     (case k_endpoints k e of
        None \<Rightarrow> Inl InvalidEndpoint
      | Some ep \<Rightarrow>
          if ep_role ep = Send then Inl WrongDirection
          else case k_channels k (ep_channel ep) of
            None \<Rightarrow> Inl InvalidEndpoint
          | Some chan \<Rightarrow>
              if ch_queue chan \<noteq> [] then Inr (ep_channel ep)
              else if ch_send_closed chan then Inl PeerClosed
              else Inl WouldBlock)"

lemma try_recv_spec:
  assumes "ipc_ok k" "rq_ready k c"
  shows "case recv_result k e of
      Inl err \<Rightarrow> try_recv c e k = Some (Inl err, k)
    | Inr ch \<Rightarrow> \<exists>k' chan m ms. k_channels k ch = Some chan \<and> ch_queue chan = m # ms \<and>
        try_recv c e k = Some (Inr m, k') \<and> ipc_ok k' \<and>
        k_channels k' = (k_channels k)(ch \<mapsto> chan \<lparr> ch_queue := ms, ch_send_waiters := tl (ch_send_waiters chan) \<rparr>) \<and>
        k_endpoints k' = k_endpoints k \<and> woken (ch_send_waiters chan) k k' \<and> (\<forall>d. rq_ready k' d = rq_ready k d)"
proof (cases "k_endpoints k e")
  case None
  then show ?thesis by (simp add: recv_result_def try_recv_def endpoint_channel_def)
next
  case (Some ep)
  let ?ch = "ep_channel ep"
  from ipc_okD(2) [OF assms(1) Some] obtain chan where chan: "k_channels k ?ch = Some chan" by auto
  from ipc_okD(4) [OF assms(1) chan] have co: "channel_ok k chan" by simp
  show ?thesis
  proof (cases "recv_result k e")
    case (Inl err)
    then show ?thesis
      using Some chan
      by (cases "ep_role ep") (auto simp: recv_result_def try_recv_def endpoint_channel_def chan_pop_def split: if_splits)
  next
    case (Inr ch)
    then have c: "ch = ?ch" "ep_role ep = Recv" "ch_queue chan \<noteq> []"
      using Some chan by (cases "ep_role ep"; auto simp: recv_result_def split: if_splits)+
    then obtain m ms where q: "ch_queue chan = m # ms" by (cases "ch_queue chan") auto
    let ?chan1 = "chan \<lparr> ch_queue := ms \<rparr>"
    let ?k1 = "k \<lparr> k_channels := (k_channels k)(?ch \<mapsto> ?chan1) \<rparr>"
    have pop: "chan_pop chan = Some (m, ?chan1)" using q by (simp add: chan_pop_def)
    have co1: "channel_ok k ?chan1" using co q by (auto simp: channel_ok_def chan_ok_def)
    have rq1: "rq_ready ?k1 d = rq_ready k d" for d by (rule rq_ready_cong) simp
    have s1: "sched_ok ?k1" using ipc_okD(1) [OF assms(1)] sched_ok_cong [of ?k1 k] by simp
    have ok1: "ipc_ok ?k1"
      by (rule ipc_ok_step [OF assms(1) s1 _ _ _ _ _ _ _ co1, of ?ch]) (use chan rq1 in simp_all)
    have ch1: "k_channels ?k1 ?ch = Some ?chan1" "rq_ready ?k1 c" using assms(2) rq1 by simp_all
    from send_waiters.wake_waiter_spec [OF ok1 ch1(2,1)] obtain k' where
      k': "wake_waiter ch_send_waiters ch_send_waiters_update c ?ch ?k1 = Some k'" "ipc_ok k'"
        "k_channels k' = (k_channels ?k1)(?ch \<mapsto> ?chan1 \<lparr> ch_send_waiters := tl (ch_send_waiters ?chan1) \<rparr>)"
        "k_endpoints k' = k_endpoints ?k1" "woken (ch_send_waiters ?chan1) ?k1 k'" "\<forall>d. rq_ready k' d = rq_ready ?k1 d"
      by blast
    have "woken (ch_send_waiters chan) k k'"
      using k'(5) placed_cong [of ?k1 k] by (simp add: woken_def split: list.splits prod.splits)
    then show ?thesis
      using Inr Some chan c q pop k' rq1 by (simp add: try_recv_def endpoint_channel_def)
  qed
qed

text \<open>A new channel: fresh, empty, with the requested capacity clamped to the limits, and one
  endpoint for each direction.\<close>

lemma clamp_capacity_bounds: "1 \<le> clamp_capacity n \<and> clamp_capacity n \<le> MAX_CHANNEL_CAPACITY"
  by (auto simp: clamp_capacity_def DEFAULT_CHANNEL_CAPACITY_def MAX_CHANNEL_CAPACITY_def)

lemma create_channel_ok:
  assumes "ipc_ok k" "k_next_endpoint_id k + 2 < U64_LIMIT" "create_channel n k = ((s, r), k')"
  shows "ipc_ok k'" "k_endpoints k s = None" "k_endpoints k r = None" "s \<noteq> r"
    "k_endpoints k' s = Some \<lparr> ep_role = Send, ep_channel = k_next_channel k \<rparr>"
    "k_endpoints k' r = Some \<lparr> ep_role = Recv, ep_channel = k_next_channel k \<rparr>"
    "k_channels k (k_next_channel k) = None"
    "k_channels k' = (k_channels k)(k_next_channel k \<mapsto> \<lparr> ch_queue = [], ch_capacity = clamp_capacity n,
       ch_send_closed = False, ch_recv_closed = False, ch_recv_waiters = [], ch_send_waiters = [] \<rparr>)"
    "\<forall>d. rq_ready k' d = rq_ready k d"
proof -
  let ?n = "k_next_endpoint_id k" and ?ch = "k_next_channel k"
  have f: "fetch_add_1 ?n = Suc ?n" "fetch_add_1 (Suc ?n) = ?n + 2" using assms(2) by (simp_all add: fetch_add_1_def)
  have e: "s = ?n" "r = Suc ?n" using assms(3) f by (auto simp: create_channel_def Let_def)
  show fresh: "k_endpoints k s = None" "k_endpoints k r = None" "s \<noteq> r" "k_channels k ?ch = None"
    using ipc_okD(2) [OF assms(1), of s] ipc_okD(2) [OF assms(1), of r] ipc_okD(4) [OF assms(1), of ?ch] e
    by (auto intro: option.exhaust)
  show k': "k_endpoints k' s = Some \<lparr> ep_role = Send, ep_channel = ?ch \<rparr>"
    "k_endpoints k' r = Some \<lparr> ep_role = Recv, ep_channel = ?ch \<rparr>"
    "k_channels k' = (k_channels k)(?ch \<mapsto> \<lparr> ch_queue = [], ch_capacity = clamp_capacity n,
       ch_send_closed = False, ch_recv_closed = False, ch_recv_waiters = [], ch_send_waiters = [] \<rparr>)"
    using assms(3) f e by (auto simp: create_channel_def Let_def)
  have st: "k_cpus k' = k_cpus k" "k_tasks k' = k_tasks k" "k_next_endpoint_id k' = ?n + 2" "k_next_channel k' = Suc ?ch"
    "k_endpoints k' = (k_endpoints k)(s \<mapsto> \<lparr> ep_role = Send, ep_channel = ?ch \<rparr>, r \<mapsto> \<lparr> ep_role = Recv, ep_channel = ?ch \<rparr>)"
    using assms(3) f by (auto simp: create_channel_def Let_def)
  show rq: "\<forall>d. rq_ready k' d = rq_ready k d" using rq_ready_cong [OF st(1)] by blast
  have co: "channel_ok k' chan" if "channel_ok k chan" for chan
    by (rule channel_ok_cong [OF that]) (use st rq in simp_all)
  have old: "ep_channel ep \<noteq> ?ch" if "k_endpoints k e = Some ep" for e ep
    using ipc_okD(2) [OF assms(1) that] fresh(4) by auto
  show "ipc_ok k'"
    unfolding ipc_ok_def
  proof (intro conjI allI impI)
    show "sched_ok k'" using ipc_okD(1) [OF assms(1)] sched_ok_cong [OF st(1,2)] by simp
    fix e1 ep assume ep: "k_endpoints k' e1 = Some ep"
    show "e1 < k_next_endpoint_id k'" "k_channels k' (ep_channel ep) \<noteq> None"
      using ep ipc_okD(2) [OF assms(1), of e1 ep] st e k'(3) by (auto split: if_splits)
    fix e2 assume "k_endpoints k' e2 = Some ep"
    then show "e1 = e2" using ep ipc_okD(3) [OF assms(1), of e1 ep e2] old [of e1 ep] old [of e2 ep] st(5)
      by (auto split: if_splits)
  next
    fix ch chan assume c: "k_channels k' ch = Some chan"
    show "ch < k_next_channel k'"
      using c k'(3) st(4) ipc_okD(4) [OF assms(1), of ch chan] by (cases "ch = ?ch") auto
    show "channel_ok k' chan"
    proof (cases "ch = ?ch")
      case True
      then show ?thesis using c k'(3) clamp_capacity_bounds [of n] by (auto simp: channel_ok_def chan_ok_def)
    next
      case False
      then show ?thesis using c k'(3) ipc_okD(4) [OF assms(1), of ch chan] co by simp
    qed
  qed
qed

lemma close_endpoint_ok:
  assumes "ipc_ok k"
  shows "ipc_ok (snd (close_endpoint e k))"
proof (cases "k_endpoints k e")
  case None
  then show ?thesis using assms by (simp add: close_endpoint_def)
next
  case (Some ep)
  let ?ch = "ep_channel ep" and ?k' = "snd (close_endpoint e k)"
  from ipc_okD(2) [OF assms Some] obtain chan where chan: "k_channels k ?ch = Some chan" by auto
  define chan' where "chan' = (case ep_role ep of Send \<Rightarrow> chan \<lparr> ch_send_closed := True \<rparr>
                                               | Recv \<Rightarrow> chan \<lparr> ch_recv_closed := True \<rparr>)"
  have st: "k_cpus ?k' = k_cpus k" "k_tasks ?k' = k_tasks k" "k_next_endpoint_id ?k' = k_next_endpoint_id k"
    "k_next_channel ?k' = k_next_channel k" "k_endpoints ?k' = (k_endpoints k)(e := None)"
    "k_channels ?k' = (k_channels k)(?ch \<mapsto> chan')"
    using Some chan
    by (simp_all add: close_endpoint_def upd_channel_def chan'_def Let_def split: EndpointRole.split)
  have rq: "rq_ready ?k' d = rq_ready k d" for d by (rule rq_ready_cong) (fact st(1))
  have co: "channel_ok ?k' c" if "channel_ok k c" for c
    by (rule channel_ok_cong [OF that]) (use st rq in simp_all)
  have "channel_ok k chan'"
    using ipc_okD(4) [OF assms chan] by (auto simp: chan'_def channel_ok_def chan_ok_def split: EndpointRole.split)
  then have co': "channel_ok ?k' chan'" by (rule co)
  show ?thesis
    unfolding ipc_ok_def
  proof (intro conjI allI impI)
    show "sched_ok ?k'" using ipc_okD(1) [OF assms] sched_ok_cong [OF st(1,2)] by simp
    fix e1 ep1 assume e1: "k_endpoints ?k' e1 = Some ep1"
    show "e1 < k_next_endpoint_id ?k'" "k_channels ?k' (ep_channel ep1) \<noteq> None"
      using e1 st ipc_okD(2) [OF assms, of e1 ep1] by (auto split: if_splits)
    fix e2 assume "k_endpoints ?k' e2 = Some ep1"
    then show "e1 = e2" using e1 st(5) ipc_okD(3) [OF assms, of e1 ep1 e2] by (auto split: if_splits)
  next
    fix ch c assume c: "k_channels ?k' ch = Some c"
    show "ch < k_next_channel ?k'" "channel_ok ?k' c"
      using c st(4,6) ipc_okD(4) [OF assms, of ch c] ipc_okD(4) [OF assms chan] co co'
      by (cases "ch = ?ch"; auto)+
  qed
qed

section \<open>Traffic on one channel\<close>

text \<open>Any interleaving of sends on endpoint \<open>s\<close> and receives on endpoint \<open>r\<close>, with the messages that
  were accepted and those that were delivered, in order.\<close>

fun ipc_run ::
    "nat \<Rightarrow> nat \<Rightarrow> nat \<Rightarrow> byte list qop list \<Rightarrow> ('s, 'z) Ipc_scheme \<Rightarrow>
     (('s, 'z) Ipc_scheme \<times> byte list list \<times> byte list list) rust" where
  "ipc_run c s r [] k = Some (k, [], [])"
| "ipc_run c s r (QPush m # ops) k =
     do { (res, k') \<leftarrow> try_send c s m k;
          (k'', ins, outs) \<leftarrow> ipc_run c s r ops k';
          Some (k'', (case res of Inl _ \<Rightarrow> ins | Inr _ \<Rightarrow> m # ins), outs) }"
| "ipc_run c s r (QPop # ops) k =
     do { (res, k') \<leftarrow> try_recv c r k;
          (k'', ins, outs) \<leftarrow> ipc_run c s r ops k';
          Some (k'', ins, (case res of Inl _ \<Rightarrow> outs | Inr m \<Rightarrow> m # outs)) }"

definition chan_queue :: "('s, 'z) Ipc_scheme \<Rightarrow> nat \<Rightarrow> byte list list" where
  "chan_queue k ch = (case k_channels k ch of None \<Rightarrow> [] | Some chan \<Rightarrow> ch_queue chan)"

lemma ipc_run_fifo:
  assumes "ipc_ok k" "rq_ready k c" "k_endpoints k s = Some \<lparr> ep_role = Send, ep_channel = ch \<rparr>"
    "k_endpoints k r = Some \<lparr> ep_role = Recv, ep_channel = ch \<rparr>"
  shows "\<exists>k' ins outs. ipc_run c s r ops k = Some (k', ins, outs) \<and> ipc_ok k' \<and>
    chan_queue k ch @ ins = outs @ chan_queue k' ch"
  using assms
proof (induction ops arbitrary: k)
  case (Cons op ops)
  show ?case
  proof (cases op)
    case (QPush m)
    show ?thesis
    proof (cases "send_result k s m")
      case (Inl err)
      then have "try_send c s m k = Some (Inl err, k)" using try_send_spec [OF Cons.prems(1,2), of s m] by simp
      then show ?thesis using Cons.IH [OF Cons.prems] QPush by auto
    next
      case (Inr ch')
      then have "ch' = ch" using Cons.prems(3) by (auto simp: send_result_def split: if_splits option.splits)
      with Inr obtain k1 chan where k1: "try_send c s m k = Some (Inr (), k1)" "ipc_ok k1" "k_channels k ch = Some chan"
        "k_channels k1 = (k_channels k)(ch \<mapsto> chan \<lparr> ch_queue := ch_queue chan @ [m],
                                                    ch_recv_waiters := tl (ch_recv_waiters chan) \<rparr>)"
        "k_endpoints k1 = k_endpoints k" "\<forall>d. rq_ready k1 d = rq_ready k d"
        using try_send_spec [OF Cons.prems(1,2), of s m] by auto
      have "rq_ready k1 c" "k_endpoints k1 s = Some \<lparr> ep_role = Send, ep_channel = ch \<rparr>"
        "k_endpoints k1 r = Some \<lparr> ep_role = Recv, ep_channel = ch \<rparr>" using k1 Cons.prems by simp_all
      from Cons.IH [OF k1(2) this] show ?thesis using QPush k1(1,3,4) by (auto simp: chan_queue_def)
    qed
  next
    case QPop
    show ?thesis
    proof (cases "recv_result k r")
      case (Inl err)
      then have "try_recv c r k = Some (Inl err, k)" using try_recv_spec [OF Cons.prems(1,2), of r] by simp
      then show ?thesis using Cons.IH [OF Cons.prems] QPop by auto
    next
      case (Inr ch')
      then have "ch' = ch" using Cons.prems(4) by (auto simp: recv_result_def split: if_splits option.splits)
      with Inr obtain k1 chan m ms where k1: "k_channels k ch = Some chan" "ch_queue chan = m # ms"
        "try_recv c r k = Some (Inr m, k1)" "ipc_ok k1"
        "k_channels k1 = (k_channels k)(ch \<mapsto> chan \<lparr> ch_queue := ms, ch_send_waiters := tl (ch_send_waiters chan) \<rparr>)"
        "k_endpoints k1 = k_endpoints k" "\<forall>d. rq_ready k1 d = rq_ready k d"
        using try_recv_spec [OF Cons.prems(1,2), of r] by auto
      have "rq_ready k1 c" "k_endpoints k1 s = Some \<lparr> ep_role = Send, ep_channel = ch \<rparr>"
        "k_endpoints k1 r = Some \<lparr> ep_role = Recv, ep_channel = ch \<rparr>" using k1 Cons.prems by simp_all
      from Cons.IH [OF k1(4) this] show ?thesis using QPop k1(1,2,3,5) by (auto simp: chan_queue_def)
    qed
  qed
qed simp

section \<open>A sample state\<close>

text \<open>The sample machine with one channel of capacity two: endpoint 1 sends, endpoint 2 receives,
  one message is queued and task 5 sleeps waiting to receive.\<close>

definition sample_chan :: Channel where
  "sample_chan = \<lparr> ch_queue = [[7, 8]], ch_capacity = 2, ch_send_closed = False, ch_recv_closed = False,
                   ch_recv_waiters = [(5, 1)], ch_send_waiters = [] \<rparr>"

definition sample_ipc :: "unit Ipc" where
  "sample_ipc =
     \<lparr> k_cpus = k_cpus sample_kernel, k_tasks = k_tasks sample_kernel, k_task_table = k_task_table sample_kernel,
       k_next_spawn_cpu = 1, k_next_task_id = 6, k_ipis = [],
       k_endpoints = [1 \<mapsto> \<lparr> ep_role = Send, ep_channel = 0 \<rparr>, 2 \<mapsto> \<lparr> ep_role = Recv, ep_channel = 0 \<rparr>],
       k_channels = [0 \<mapsto> sample_chan], k_next_endpoint_id = 3, k_next_channel = 1 \<rparr>"

lemma sample_rq_ready: "c < 2 \<Longrightarrow> rq_ready sample_ipc c"
  by (auto simp: rq_ready_def get_cpu_def sample_ipc_def sample_kernel_def sample_cpu_def less_Suc_eq numeral_2_eq_2)

lemma sample_ipc_ok: "ipc_ok sample_ipc"
proof -
  have s: "sched_ok sample_ipc" using sample_kernel_ok sched_ok_cong [of sample_ipc sample_kernel]
    by (simp add: sample_ipc_def)
  have "task_live sample_ipc 5" using sample_task_ok [of 5 Sleeping]
    by (simp add: task_live_def sample_ipc_def sample_kernel_def)
  then have w: "waiter_ok sample_ipc (5, 1)" using sample_rq_ready [of 1] by (simp add: waiter_ok_def)
  have c: "channel_ok sample_ipc sample_chan"
    using w by (simp add: channel_ok_def chan_ok_def sample_chan_def MAX_MESSAGE_SIZE_def MAX_CHANNEL_CAPACITY_def)
  have e: "k_endpoints sample_ipc = [1 \<mapsto> \<lparr> ep_role = Send, ep_channel = 0 \<rparr>, 2 \<mapsto> \<lparr> ep_role = Recv, ep_channel = 0 \<rparr>]"
    "k_channels sample_ipc = [0 \<mapsto> sample_chan]" "k_next_endpoint_id sample_ipc = 3" "k_next_channel sample_ipc = 1"
    by (simp_all add: sample_ipc_def)
  show ?thesis unfolding ipc_ok_def e using s c by (auto split: if_splits)
qed

section \<open>Properties\<close>

text \<open>C17. A send never panics. It is refused, leaving the state as it was, when the message is too
  large, the endpoint does not exist or points the other way, the receiver has closed, or the channel
  is full; otherwise the message is appended to that channel and no other, and the first task waiting
  to receive, if any, is made ready and placed in its run queue. The invariant is kept.\<close>

theorem try_send_outcomes:
  assumes "ipc_ok k" "rq_ready k c"
  shows "case send_result k e data of
      Inl err \<Rightarrow> try_send c e data k = Some (Inl err, k)
    | Inr ch \<Rightarrow> \<exists>k' chan. try_send c e data k = Some (Inr (), k') \<and> ipc_ok k' \<and> k_channels k ch = Some chan \<and>
        k_channels k' = (k_channels k)(ch \<mapsto> chan \<lparr> ch_queue := ch_queue chan @ [data],
                                                    ch_recv_waiters := tl (ch_recv_waiters chan) \<rparr>) \<and>
        k_endpoints k' = k_endpoints k \<and> woken (ch_recv_waiters chan) k k' \<and> (\<forall>d. rq_ready k' d = rq_ready k d)"
  using assms by (rule try_send_spec)

theorem try_send_outcomes_witness:
  "(\<exists>k'. try_send 0 1 [9] sample_ipc = Some (Inr (), k') \<and> ipc_ok k' \<and> woken [(5, 1)] sample_ipc k') \<and>
   try_send 0 2 [9] sample_ipc = Some (Inl WrongDirection, sample_ipc) \<and>
   try_send 0 3 [9] sample_ipc = Some (Inl InvalidEndpoint, sample_ipc)"
proof -
  have "send_result sample_ipc 1 [9] = Inr 0" "send_result sample_ipc 2 [9] = Inl WrongDirection"
    "send_result sample_ipc 3 [9] = Inl InvalidEndpoint" "k_channels sample_ipc 0 = Some sample_chan"
    by (simp_all add: send_result_def sample_ipc_def sample_chan_def MAX_MESSAGE_SIZE_def)
  then show ?thesis
    using try_send_outcomes [OF sample_ipc_ok sample_rq_ready [of 0], of 1 "[9]"]
      try_send_outcomes [OF sample_ipc_ok sample_rq_ready [of 0], of 2 "[9]"]
      try_send_outcomes [OF sample_ipc_ok sample_rq_ready [of 0], of 3 "[9]"] by (auto simp: sample_chan_def)
qed



text \<open>C6. Messages are delivered in order, each once: over any interleaving of sends and receives on
  the two endpoints of a channel, the messages queued before followed by the accepted ones are the
  delivered ones followed by those still queued. No operation of the interleaving panics.\<close>

theorem channel_fifo:
  assumes "ipc_ok k" "rq_ready k c" "k_endpoints k s = Some \<lparr> ep_role = Send, ep_channel = ch \<rparr>"
    "k_endpoints k r = Some \<lparr> ep_role = Recv, ep_channel = ch \<rparr>"
  shows "\<exists>k' ins outs. ipc_run c s r ops k = Some (k', ins, outs) \<and> ipc_ok k' \<and>
    chan_queue k ch @ ins = outs @ chan_queue k' ch"
  using assms by (rule ipc_run_fifo)

theorem channel_fifo_witness:
  "\<exists>k' ins outs. ipc_run 0 1 2 [QPush [1], QPush [2], QPop, QPop, QPop] sample_ipc = Some (k', ins, outs) \<and>
     [[7, 8]] @ ins = outs @ chan_queue k' 0"
proof -
  have "k_endpoints sample_ipc 1 = Some \<lparr> ep_role = Send, ep_channel = 0 \<rparr>"
    "k_endpoints sample_ipc 2 = Some \<lparr> ep_role = Recv, ep_channel = 0 \<rparr>" "chan_queue sample_ipc 0 = [[7, 8]]"
    by (simp_all add: sample_ipc_def chan_queue_def sample_chan_def)
  then show ?thesis
    using channel_fifo [OF sample_ipc_ok sample_rq_ready [of 0], of 1 0 2 "[QPush [1], QPush [2], QPop, QPop, QPop]"]
    by auto
qed

text \<open>A new channel is fresh: its two endpoint ids were unused and differ, it is empty with a
  capacity between 1 and 256, no other channel or endpoint changes, the invariant is kept, and a first
  message of legal size sent on it is received unchanged.\<close>

theorem create_channel_fresh:
  assumes "ipc_ok k" "rq_ready k c" "k_next_endpoint_id k + 2 < U64_LIMIT" "create_channel n k = ((s, r), k')"
    "length msg \<le> MAX_MESSAGE_SIZE"
  shows "ipc_ok k' \<and> k_endpoints k s = None \<and> k_endpoints k r = None \<and> s \<noteq> r \<and>
    (\<forall>ch. k_channels k ch \<noteq> None \<longrightarrow> k_channels k' ch = k_channels k ch) \<and>
    (\<exists>k1 k2. try_send c s msg k' = Some (Inr (), k1) \<and> try_recv c r k1 = Some (Inr msg, k2) \<and> ipc_ok k2)"
proof -
  note c = create_channel_ok [OF assms(1,3,4)]
  let ?ch = "k_next_channel k"
  have rq: "rq_ready k' c" using c(9) assms(2) by simp
  have "send_result k' s msg = Inr ?ch"
    using c(5,8) assms(5) clamp_capacity_bounds [of n] by (simp add: send_result_def)
  then obtain k1 chan where k1: "try_send c s msg k' = Some (Inr (), k1)" "ipc_ok k1" "k_channels k' ?ch = Some chan"
      "k_channels k1 = (k_channels k')(?ch \<mapsto> chan \<lparr> ch_queue := ch_queue chan @ [msg],
                                                    ch_recv_waiters := tl (ch_recv_waiters chan) \<rparr>)"
      "k_endpoints k1 = k_endpoints k'" "\<forall>d. rq_ready k1 d = rq_ready k' d"
    using try_send_spec [OF c(1) rq, of s msg] by auto
  have q: "ch_queue chan = []" using k1(3) c(8) by auto
  have rq1: "rq_ready k1 c" using k1(6) rq by simp
  have "recv_result k1 r = Inr ?ch" using c(6) k1(4,5) by (simp add: recv_result_def)
  then obtain k2 where "try_recv c r k1 = Some (Inr msg, k2)" "ipc_ok k2"
    using try_recv_spec [OF k1(2) rq1, of r] k1(4) q by auto
  moreover have "\<forall>ch. k_channels k ch \<noteq> None \<longrightarrow> k_channels k' ch = k_channels k ch" using c(7,8) by auto
  ultimately show ?thesis using c k1(1) by blast
qed

theorem create_channel_fresh_witness:
  "\<exists>s r k' k1 k2. create_channel 0 sample_ipc = ((s, r), k') \<and> try_send 0 s [4, 2] k' = Some (Inr (), k1) \<and>
     try_recv 0 r k1 = Some (Inr [4, 2], k2)"
proof -
  obtain s r k' where c: "create_channel 0 sample_ipc = ((s, r), k')" by (metis surj_pair)
  have "k_next_endpoint_id sample_ipc + 2 < U64_LIMIT" "length [4, 2 :: byte] \<le> MAX_MESSAGE_SIZE"
    by (simp_all add: sample_ipc_def U64_LIMIT_num MAX_MESSAGE_SIZE_def)
  then show ?thesis
    using create_channel_fresh [OF sample_ipc_ok sample_rq_ready [of 0] _ c, of "[4, 2]"] c by auto
qed

text \<open>Closing an endpoint removes it and keeps the invariant. Senders to a closed receiver are
  told so; receivers of a closed sender are told so once the queue is empty. Closing changes no run
  queue and no task state: a task that sleeps on the channel is not woken.\<close>

theorem close_endpoint_effect:
  assumes "ipc_ok k" "k_endpoints k e = Some ep" "close_endpoint e k = (res, k')"
  shows "res = Inr () \<and> ipc_ok k' \<and> k_endpoints k' = (k_endpoints k)(e := None) \<and>
    k_cpus k' = k_cpus k \<and> k_tasks k' = k_tasks k \<and>
    (ep_role ep = Recv \<longrightarrow> (\<forall>s c data. k_endpoints k s = Some \<lparr> ep_role = Send, ep_channel = ep_channel ep \<rparr> \<longrightarrow>
       length data \<le> MAX_MESSAGE_SIZE \<longrightarrow> try_send c s data k' = Some (Inl PeerClosed, k'))) \<and>
    (ep_role ep = Send \<longrightarrow> (\<forall>r c. k_endpoints k r = Some \<lparr> ep_role = Recv, ep_channel = ep_channel ep \<rparr> \<longrightarrow>
       chan_queue k (ep_channel ep) = [] \<longrightarrow> try_recv c r k' = Some (Inl PeerClosed, k')))"
proof -
  from ipc_okD(2) [OF assms(1,2)] obtain chan where chan: "k_channels k (ep_channel ep) = Some chan" by auto
  have ok: "ipc_ok k'" using close_endpoint_ok [OF assms(1), of e] assms(3) by simp
  have st: "res = Inr ()" "k_endpoints k' = (k_endpoints k)(e := None)" "k_cpus k' = k_cpus k" "k_tasks k' = k_tasks k"
    "k_channels k' = (k_channels k)(ep_channel ep \<mapsto> (case ep_role ep of Send \<Rightarrow> chan \<lparr> ch_send_closed := True \<rparr>
                                               | Recv \<Rightarrow> chan \<lparr> ch_recv_closed := True \<rparr>))"
    using assms(2,3) chan
    by (auto simp: close_endpoint_def upd_channel_def Let_def split: EndpointRole.splits)
  have ne: "s \<noteq> e" if "k_endpoints k s = Some x" "ep_role x \<noteq> ep_role ep" for s x
    using that assms(2) by auto
  show ?thesis
  proof (intro conjI impI allI)
    show "try_send c s data k' = Some (Inl PeerClosed, k')"
      if "ep_role ep = Recv" "k_endpoints k s = Some \<lparr> ep_role = Send, ep_channel = ep_channel ep \<rparr>"
        "length data \<le> MAX_MESSAGE_SIZE" for s c data
      using that st ne [OF that(2)] by (simp add: try_send_def endpoint_channel_def)
    show "try_recv c r k' = Some (Inl PeerClosed, k')"
      if "ep_role ep = Send" "k_endpoints k r = Some \<lparr> ep_role = Recv, ep_channel = ep_channel ep \<rparr>"
        "chan_queue k (ep_channel ep) = []" for r c
      using that st ne [OF that(2)] chan by (simp add: try_recv_def endpoint_channel_def chan_pop_def chan_queue_def)
  qed (use st ok in simp_all)
qed

theorem close_endpoint_effect_witness:
  "\<exists>k'. close_endpoint 2 sample_ipc = (Inr (), k') \<and> try_send 0 1 [5] k' = Some (Inl PeerClosed, k') \<and>
     k_tasks k' = k_tasks sample_ipc"
proof -
  have e: "k_endpoints sample_ipc 2 = Some \<lparr> ep_role = Recv, ep_channel = 0 \<rparr>"
    "k_endpoints sample_ipc 1 = Some \<lparr> ep_role = Send, ep_channel = 0 \<rparr>" by (simp_all add: sample_ipc_def)
  obtain res k' where c: "close_endpoint 2 sample_ipc = (res, k')" by (metis surj_pair)
  from close_endpoint_effect [OF sample_ipc_ok e(1) c] e(2) c show ?thesis by (auto simp: MAX_MESSAGE_SIZE_def)
qed

end
