(* ===== verification/Syscall_Base.thy ===== *)
theory Syscall_Base
  imports Ipc
begin

text \<open>
  What the system calls share: user memory, the little-endian encoding of 64-bit results in it, the
  check of user pointers and the common helpers of \<^verbatim>\<open>syscall_handlers/mod.rs\<close>.

  User memory is a byte for every address of every address space, an address space being named by
  the CR3 value that selects it. A system call reads and writes the address space its CPU has
  installed. Two address spaces share no memory here: the aliasing that shared buffers create is not
  part of this component.
\<close>

section \<open>User memory\<close>

definition mem_write :: "nat \<Rightarrow> byte list \<Rightarrow> (nat \<Rightarrow> byte) \<Rightarrow> nat \<Rightarrow> byte" where
  "mem_write a bs m = (\<lambda>x. if a \<le> x \<and> x < a + length bs then bs ! (x - a) else m x)"

definition mem_read :: "nat \<Rightarrow> nat \<Rightarrow> (nat \<Rightarrow> byte) \<Rightarrow> byte list" where
  "mem_read a n m = map m [a..<a + n]"

record 's Usr = "'s Ipc" +
  k_umem :: "nat \<Rightarrow> nat \<Rightarrow> byte"

definition user_read :: "nat \<Rightarrow> nat \<Rightarrow> nat \<Rightarrow> ('s, 'z) Usr_scheme \<Rightarrow> byte list rust" where
  "user_read c ptr n k = do { cpu \<leftarrow> get_cpu k c; Some (mem_read ptr n (k_umem k (hw_cr3 cpu))) }"

definition user_write :: "nat \<Rightarrow> nat \<Rightarrow> byte list \<Rightarrow> ('s, 'z) Usr_scheme \<Rightarrow> ('s, 'z) Usr_scheme rust" where
  "user_write c ptr bs k =
     do { cpu \<leftarrow> get_cpu k c;
          Some (k \<lparr> k_umem := (k_umem k)(hw_cr3 cpu := mem_write ptr bs (k_umem k (hw_cr3 cpu))) \<rparr>) }"

section \<open>Helpers of the system calls\<close>

definition validate_user_ptr ::
    "'s nodit_set_ops \<Rightarrow> x86_ops \<Rightarrow> nat \<Rightarrow> nat \<Rightarrow> nat \<Rightarrow> ('s, 'z) Sched_scheme \<Rightarrow> bool rust" where
  "validate_user_ptr S X c ptr size_bytes k =
     (if ptr = 0 \<or> size_bytes = 0 then Some False
      else case checked_add_u64 ptr size_bytes of
        None \<Rightarrow> Some False
      | Some end_addr \<Rightarrow>
          if ptr < USER_MIN \<or> end_addr > USER_MAX + 1 then Some False
          else
            do { cpu \<leftarrow> get_cpu k c;
                 rq \<leftarrow> unwrap (run_queue cpu);
                 case current_task rq of
                   None \<Rightarrow> Some False
                 | Some t \<Rightarrow>
                     do { task \<leftarrow> unwrap (k_tasks k t);
                          if t_kind task \<noteq> User then Some False
                          else do { s \<leftarrow> virt_addr_new X ptr;
                                    e \<leftarrow> virt_addr_new X end_addr;
                                    is_user_vaddr_valid_range S (ti_user_vaddr_set (t_inner task)) s e } } })"

text \<open>A system call either completes with a return value or puts its task to sleep.\<close>

datatype sys_outcome = Done nat | Blocked

text \<open>The value a sleeping task sees when the timer, and not a wake-up, resumes it: written to the
  saved context the CPU points at, unless there is none.\<close>

definition set_fallback_rax :: "nat \<Rightarrow> nat \<Rightarrow> ('s, 'z) Sched_scheme \<Rightarrow> ('s, 'z) Sched_scheme rust" where
  "set_fallback_rax c v k =
     do { cpu \<leftarrow> get_cpu k c;
          Some (case current_context_ptr cpu of
                  None \<Rightarrow> k
                | Some t \<Rightarrow> upd_task t (\<lambda>x. x \<lparr> t_inner := t_inner x \<lparr> ti_context :=
                              ti_context (t_inner x) \<lparr> ctx_rax := v \<rparr> \<rparr> \<rparr>) k) }"

definition IPC_OK :: nat where "IPC_OK = 0"
definition IPC_ERR_INVALID_ENDPOINT :: nat where "IPC_ERR_INVALID_ENDPOINT = 1"
definition IPC_ERR_WRONG_DIRECTION :: nat where "IPC_ERR_WRONG_DIRECTION = 2"
definition IPC_ERR_PEER_CLOSED :: nat where "IPC_ERR_PEER_CLOSED = 3"
definition IPC_ERR_CHANNEL_FULL :: nat where "IPC_ERR_CHANNEL_FULL = 4"
definition IPC_ERR_INVALID_ARGS :: nat where "IPC_ERR_INVALID_ARGS = 5"
definition IPC_ERR_MSG_TOO_LARGE :: nat where "IPC_ERR_MSG_TOO_LARGE = 6"

lemmas ipc_codes = IPC_OK_def IPC_ERR_INVALID_ENDPOINT_def IPC_ERR_WRONG_DIRECTION_def IPC_ERR_PEER_CLOSED_def
  IPC_ERR_CHANNEL_FULL_def IPC_ERR_INVALID_ARGS_def IPC_ERR_MSG_TOO_LARGE_def

section \<open>Lemmas\<close>

lemma mem_read_write [simp]: "length bs = n \<Longrightarrow> mem_read a n (mem_write a bs m) = bs"
  by (rule nth_equalityI) (auto simp: mem_read_def mem_write_def)

lemma mem_read_disjoint: "b + n \<le> a \<or> a + length bs \<le> b \<Longrightarrow> mem_read b n (mem_write a bs m) = mem_read b n m"
  by (auto simp: mem_read_def mem_write_def)

lemma length_mem_read [simp]: "length (mem_read a n m) = n"
  by (simp add: mem_read_def)

text \<open>The pointer check, on the addresses of the running task's space.\<close>

lemma validate_user_ptr_spec:
  assumes "page_space S wfS X" "get_cpu k c = Some cpu" "run_queue cpu = Some rq" "current_task rq = Some t"
    "k_tasks k t = Some x" "wfS (ti_user_vaddr_set (t_inner x))" "ptr + n \<noteq> USER_MAX + 1"
  shows "validate_user_ptr S X c ptr n k = Some (0 < n \<and> t_kind x = User \<and> USER_MIN \<le> ptr \<and>
           ptr + n \<le> USER_MAX \<and> space_used S (ti_user_vaddr_set (t_inner x)) ptr n)"
proof (cases "ptr = 0 \<or> n = 0 \<or> USER_MAX < ptr + n \<or> ptr < USER_MIN")
  case True
  then show ?thesis using assms(7) by (auto simp: validate_user_ptr_def checked_add_u64_def USER_MIN_def)
next
  case False
  then have b: "ptr \<noteq> 0" "0 < n" "ptr + n \<le> USER_MAX" "USER_MIN \<le> ptr" by auto
  then have l: "ptr + n < U64_LIMIT" "canonical ptr" "canonical (ptr + n)" "1 \<le> ptr + n"
    by (auto simp: USER_MAX_def LOWER_HALF_END_def U64_LIMIT_num canonical_num)
  have v: "virt_addr_new X ptr = Some ptr" "virt_addr_new X (ptr + n) = Some (ptr + n)"
    using l assms(1) page_space.axioms(2) x86_addr.virt_new by blast+
  have "is_user_vaddr_valid_range S (ti_user_vaddr_set (t_inner x)) ptr (ptr + n)
      = Some (space_used S (ti_user_vaddr_set (t_inner x)) ptr n)"
    using page_space.any_contains_iff [OF assms(1,6) b(2), of ptr] l b(2)
      nodit_set.ii_spec [OF page_space.axioms(1) [OF assms(1)], of ptr "ptr + n - 1"]
    by (simp add: is_user_vaddr_valid_range_def sub_u64_def)
  then show ?thesis using b l v assms(2-5)
    by (cases "t_kind x") (simp_all add: validate_user_ptr_def checked_add_u64_def)
qed

section \<open>Properties\<close>

text \<open>C31. The check of a user pointer accepts a range exactly when it is non-empty, lies in the user
  half, and every byte of it is allocated to the running user task, for every range that does not end
  exactly at the end of the user half. It never panics on such ranges.\<close>

theorem validate_user_ptr_exact:
  assumes "page_space S wfS X" "get_cpu k c = Some cpu" "run_queue cpu = Some rq" "current_task rq = Some t"
    "k_tasks k t = Some x" "wfS (ti_user_vaddr_set (t_inner x))" "ptr + n \<noteq> USER_MAX + 1"
  shows "validate_user_ptr S X c ptr n k = Some (0 < n \<and> t_kind x = User \<and> USER_MIN \<le> ptr \<and>
           ptr + n \<le> USER_MAX \<and> space_used S (ti_user_vaddr_set (t_inner x)) ptr n)"
  using assms by (rule validate_user_ptr_spec)

text \<open>A machine with one CPU that runs a user task owning two ranges of addresses.\<close>

definition user_task :: "(interval \<times> unit) list Task" where
  "user_task =
     \<lparr> t_inner = \<lparr> ti_context = CpuContext_default \<lparr> ctx_cs := 0x23 \<rparr>,
                   ti_kernel_stack = \<lparr> gs_top = 0, gs_guard_page = 0, gs_n_virtual_pages = 0 \<rparr>,
                   ti_kernel_stack_top = 0x10000, ti_user_page_table = Some 0x1000,
                   ti_user_vaddr_set = sample_space, ti_owned_endpoints = [], ti_registered_services = [] \<rparr>,
       t_id = 1, t_state = Running, t_kind = User, t_cr3 = 0x1000, t_exit_code = 0,
       t_exit_waiter = None, t_cpu_ticks = 0 \<rparr>"

definition user_machine :: "(interval \<times> unit) list Usr" where
  "user_machine =
     \<lparr> k_cpus = [Some (sample_cpu 0 (Some 1) [])], k_tasks = [1 \<mapsto> user_task], k_task_table = {1},
       k_next_spawn_cpu = 0, k_next_task_id = 2, k_ipis = [],
       k_endpoints = [1 \<mapsto> \<lparr> ep_role = Send, ep_channel = 0 \<rparr>, 2 \<mapsto> \<lparr> ep_role = Recv, ep_channel = 0 \<rparr>],
       k_channels = [0 \<mapsto> \<lparr> ch_queue = [], ch_capacity = 1, ch_send_closed = False, ch_recv_closed = False,
                            ch_recv_waiters = [], ch_send_waiters = [] \<rparr>],
       k_next_endpoint_id = 3, k_next_channel = 1, k_umem = (\<lambda>_ a. word_of_nat a) \<rparr>"

lemma user_machine_cpu:
  "get_cpu user_machine 0 = Some (sample_cpu 0 (Some 1) [])"
  "run_queue (sample_cpu 0 (Some 1) []) = Some \<lparr> current_task = Some 1, ready = [] \<rparr>"
  "k_tasks user_machine 1 = Some user_task"
  by (simp_all add: get_cpu_def user_machine_def sample_cpu_def)

theorem validate_user_ptr_exact_witness:
  "validate_user_ptr list_set_ops x86_arith_ops 0 0x4100 0x200 user_machine = Some True \<and>
   validate_user_ptr list_set_ops x86_arith_ops 0 0x2F00 0x200 user_machine = Some False"
proof -
  have s: "ivls_ok (ti_user_vaddr_set (t_inner user_task))" using sample_space_ok by (simp add: user_task_def)
  have "space_used list_set_ops sample_space 0x4100 0x200" "\<not> space_used list_set_ops sample_space 0x2F00 0x200"
    by (auto simp: space_used_def sample_space_def list_set_ops_def intro!: exI [of _ "0x3000"])
  then show ?thesis
    using validate_user_ptr_exact [OF list_space.page_space_axioms user_machine_cpu(1,2) _ user_machine_cpu(3) s, of "0x4100" "0x200"]
      validate_user_ptr_exact [OF list_space.page_space_axioms user_machine_cpu(1,2) _ user_machine_cpu(3) s, of "0x2F00" "0x200"]
    by (simp add: USER_MAX_def USER_MIN_def LOWER_HALF_END_def user_task_def)
qed

text \<open>C32. A user range that ends exactly at the end of the user half makes the check panic, whatever
  the task has allocated: the exclusive end passes the bound but is not a canonical address, and the
  address constructor refuses it.\<close>

theorem validate_user_ptr_top_panics:
  assumes "x86_addr X" "get_cpu k c = Some cpu" "run_queue cpu = Some rq" "current_task rq = Some t"
    "k_tasks k t = Some x" "t_kind x = User" "USER_MIN \<le> ptr" "ptr \<le> USER_MAX"
  shows "validate_user_ptr S X c ptr (USER_MAX + 1 - ptr) k = panic"
proof -
  have e: "ptr + (USER_MAX + 1 - ptr) = USER_MAX + 1" using assms(8) by simp
  have "\<not> canonical (USER_MAX + 1)" by (simp add: canonical_num USER_MAX_def LOWER_HALF_END_def)
  then have v: "virt_addr_new X (USER_MAX + 1) = panic" by (rule x86_addr.virt_new_panic [OF assms(1)])
  have "canonical ptr" using assms(8) by (simp add: canonical_num USER_MAX_def LOWER_HALF_END_def)
  then have v': "virt_addr_new X ptr = Some ptr" by (rule x86_addr.virt_new [OF assms(1)])
  have "USER_MAX + 1 < U64_LIMIT" "ptr \<noteq> 0" "USER_MAX + 1 - ptr \<noteq> 0"
    using assms(7,8) by (simp_all add: USER_MAX_def USER_MIN_def LOWER_HALF_END_def U64_LIMIT_num)
  then show ?thesis using assms(2-7) v v' e by (simp add: validate_user_ptr_def checked_add_u64_def)
qed

theorem validate_user_ptr_top_panics_witness:
  "validate_user_ptr list_set_ops x86_arith_ops 0 0x7FFFFFFFF000 0x1000 user_machine = panic"
  using validate_user_ptr_top_panics
    [OF x86_arith.x86_addr_axioms user_machine_cpu(1,2) _ user_machine_cpu(3), of "0x7FFFFFFFF000" list_set_ops]
  by (simp add: USER_MAX_def USER_MIN_def LOWER_HALF_END_def user_task_def)

end
