(* ===== verification/Ipc_Syscalls.thy ===== *)
theory Ipc_Syscalls
  imports Syscall_Base
begin

text \<open>
  The channel system calls: \<^verbatim>\<open>syscall_handlers/ipc.rs\<close>. A blocking call is a loop around
  \<^verbatim>\<open>try_send\<close> or \<^verbatim>\<open>try_recv\<close>; one definition models the checks before the loop, another one
  iteration of it. An iteration that cannot proceed registers the task on the channel, marks it
  sleeping and halts; the outcome \<open>Blocked\<close> is the halt, after which the scheduler takes over.
\<close>

section \<open>Operations\<close>

definition ipc_error_to_code :: "IpcError \<Rightarrow> nat" where
  "ipc_error_to_code e =
     (case e of
        InvalidEndpoint \<Rightarrow> IPC_ERR_INVALID_ENDPOINT
      | WrongDirection \<Rightarrow> IPC_ERR_WRONG_DIRECTION
      | PeerClosed \<Rightarrow> IPC_ERR_PEER_CLOSED
      | ChannelFull \<Rightarrow> IPC_ERR_CHANNEL_FULL
      | WouldBlock \<Rightarrow> IPC_ERR_CHANNEL_FULL
      | MessageTooLarge \<Rightarrow> IPC_ERR_MSG_TOO_LARGE
      | InvalidArgs \<Rightarrow> IPC_ERR_INVALID_ARGS)"

text \<open>Endpoints are recorded in the task that created them, for the clean-up when it exits.\<close>

definition track_endpoints :: "nat \<Rightarrow> nat \<Rightarrow> nat \<Rightarrow> ('s, 'z) Sched_scheme \<Rightarrow> ('s, 'z) Sched_scheme rust" where
  "track_endpoints c s r k =
     do { cpu \<leftarrow> get_cpu k c;
          rq \<leftarrow> unwrap (run_queue cpu);
          Some (case current_task rq of
                  None \<Rightarrow> k
                | Some t \<Rightarrow> upd_task t (\<lambda>x. x \<lparr> t_inner := t_inner x \<lparr> ti_owned_endpoints :=
                              ti_owned_endpoints (t_inner x) @ [s, r] \<rparr> \<rparr>) k) }"

definition sys_channel_create ::
    "'s nodit_set_ops \<Rightarrow> x86_ops \<Rightarrow> nat \<Rightarrow> nat \<Rightarrow> nat \<Rightarrow> nat \<Rightarrow> ('s, 'z) Usr_scheme \<Rightarrow>
     (nat \<times> ('s, 'z) Usr_scheme) rust" where
  "sys_channel_create S X c send_ep_out_ptr recv_ep_out_ptr capacity k =
     do { v1 \<leftarrow> validate_user_ptr S X c send_ep_out_ptr 8 k;
          v2 \<leftarrow> (if v1 then validate_user_ptr S X c recv_ep_out_ptr 8 k else Some False);
          if \<not> v2 then Some (IPC_ERR_INVALID_ARGS, k)
          else
            do { let ((send_id, recv_id), k1) = create_channel (clamp_capacity capacity) k;
                 k2 \<leftarrow> user_write c send_ep_out_ptr (u64_bytes send_id) k1;
                 k3 \<leftarrow> user_write c recv_ep_out_ptr (u64_bytes recv_id) k2;
                 k4 \<leftarrow> track_endpoints c send_id recv_id k3;
                 Some (IPC_OK, k4) } }"

text \<open>Going to sleep on a channel: the fallback return value, the entry in the waiter queue, the
  task state.\<close>

definition sleep_on ::
    "((waiter list \<Rightarrow> waiter list) \<Rightarrow> Channel \<Rightarrow> Channel) \<Rightarrow> nat \<Rightarrow> nat \<Rightarrow> ('s, 'z) Ipc_scheme \<Rightarrow>
     ('s, 'z) Ipc_scheme rust" where
  "sleep_on upd c ch k =
     do { k1 \<leftarrow> set_fallback_rax c IPC_ERR_CHANNEL_FULL k;
          cur \<leftarrow> current_task_and_cpu k1 c;
          Some (case cur of
                  None \<Rightarrow> k1
                | Some (t, cpu_id) \<Rightarrow>
                    set_task_state t Sleeping (upd_channel ch (upd (\<lambda>ws. ws @ [(t, cpu_id)])) k1)) }"

definition channel_send_iter ::
    "nat \<Rightarrow> nat \<Rightarrow> nat \<Rightarrow> byte list \<Rightarrow> ('s, 'z) Usr_scheme \<Rightarrow> (sys_outcome \<times> ('s, 'z) Usr_scheme) rust" where
  "channel_send_iter c channel endpoint_id data k =
     do { (res, k') \<leftarrow> try_send c endpoint_id data k;
          case res of
            Inr _ \<Rightarrow> Some (Done IPC_OK, k')
          | Inl ChannelFull \<Rightarrow>
              do { k'' \<leftarrow> sleep_on ch_send_waiters_update c channel k'; Some (Blocked, k'') }
          | Inl e \<Rightarrow> Some (Done (ipc_error_to_code e), k') }"

definition sys_channel_send ::
    "'s nodit_set_ops \<Rightarrow> x86_ops \<Rightarrow> nat \<Rightarrow> nat \<Rightarrow> nat \<Rightarrow> nat \<Rightarrow> ('s, 'z) Usr_scheme \<Rightarrow>
     (sys_outcome \<times> ('s, 'z) Usr_scheme) rust" where
  "sys_channel_send S X c endpoint_id msg_ptr msg_len k =
     (if msg_len > MAX_MESSAGE_SIZE then Some (Done IPC_ERR_MSG_TOO_LARGE, k)
      else
        do { valid \<leftarrow> (if msg_len > 0 then validate_user_ptr S X c msg_ptr msg_len k else Some True);
             if \<not> valid then Some (Done IPC_ERR_INVALID_ARGS, k)
             else
               do { data \<leftarrow> (if msg_len > 0 then user_read c msg_ptr msg_len k else Some []);
                    case k_endpoints k endpoint_id of
                      Some ep \<Rightarrow>
                        if ep_role ep = Send then channel_send_iter c (ep_channel ep) endpoint_id data k
                        else Some (Done IPC_ERR_WRONG_DIRECTION, k)
                    | None \<Rightarrow> Some (Done IPC_ERR_INVALID_ENDPOINT, k) } })"

definition channel_recv_iter ::
    "nat \<Rightarrow> nat \<Rightarrow> nat \<Rightarrow> nat \<Rightarrow> nat \<Rightarrow> nat \<Rightarrow> ('s, 'z) Usr_scheme \<Rightarrow> (sys_outcome \<times> ('s, 'z) Usr_scheme) rust" where
  "channel_recv_iter c channel endpoint_id buf_ptr buf_cap bytes_read_out_ptr k =
     do { (res, k') \<leftarrow> try_recv c endpoint_id k;
          case res of
            Inr msg \<Rightarrow>
              do { let copy_len = min (length msg) buf_cap;
                   k1 \<leftarrow> user_write c buf_ptr (take copy_len msg) k';
                   k2 \<leftarrow> user_write c bytes_read_out_ptr (u64_bytes copy_len) k1;
                   Some (Done IPC_OK, k2) }
          | Inl WouldBlock \<Rightarrow>
              do { k'' \<leftarrow> sleep_on ch_recv_waiters_update c channel k'; Some (Blocked, k'') }
          | Inl e \<Rightarrow> Some (Done (ipc_error_to_code e), k') }"

definition sys_channel_recv ::
    "'s nodit_set_ops \<Rightarrow> x86_ops \<Rightarrow> nat \<Rightarrow> nat \<Rightarrow> nat \<Rightarrow> nat \<Rightarrow> nat \<Rightarrow> ('s, 'z) Usr_scheme \<Rightarrow>
     (sys_outcome \<times> ('s, 'z) Usr_scheme) rust" where
  "sys_channel_recv S X c endpoint_id buf_ptr buf_cap bytes_read_out_ptr k =
     do { v1 \<leftarrow> validate_user_ptr S X c buf_ptr buf_cap k;
          v2 \<leftarrow> (if v1 then validate_user_ptr S X c bytes_read_out_ptr 8 k else Some False);
          if \<not> v2 then Some (Done IPC_ERR_INVALID_ARGS, k)
          else case k_endpoints k endpoint_id of
            Some ep \<Rightarrow>
              if ep_role ep = Recv
              then channel_recv_iter c (ep_channel ep) endpoint_id buf_ptr buf_cap bytes_read_out_ptr k
              else Some (Done IPC_ERR_WRONG_DIRECTION, k)
          | None \<Rightarrow> Some (Done IPC_ERR_INVALID_ENDPOINT, k) }"

definition sys_channel_close :: "nat \<Rightarrow> ('s, 'z) Ipc_scheme \<Rightarrow> nat \<times> ('s, 'z) Ipc_scheme" where
  "sys_channel_close endpoint_id k =
     (case close_endpoint endpoint_id k of
        (Inr _, k') \<Rightarrow> (IPC_OK, k')
      | (Inl e, k') \<Rightarrow> (ipc_error_to_code e, k'))"

section \<open>Frames\<close>

lemma wake_waiter_cases:
  assumes "wake_waiter ws u c ch k = Some k'"
  shows "k' = k \<or> (\<exists>t g r. wake_task c t g (upd_channel ch (u (\<lambda>_. r)) k) = Some k')"
proof -
  from assms obtain chan where "k_channels k ch = Some chan" by (auto simp: wake_waiter_def rust_SomeD unwrap_def)
  then show ?thesis using assms by (cases "ws chan") (auto simp: wake_waiter_def)
qed

lemma wake_waiter_frame:
  fixes k :: "('s, 'z) Usr_scheme"
  assumes "wake_waiter ws u c ch k = Some k'"
  shows "k_umem k' = k_umem k"
proof -
  consider "k' = k" | t g r where "wake_task c t g (upd_channel ch (u (\<lambda>_. r)) k) = Some k'"
    using wake_waiter_cases [OF assms] by blast
  then show ?thesis
  proof cases
    case (2 t g r)
    from wake_task_frame(1) [OF this] show ?thesis by (auto simp: upd_channel_def)
  qed simp
qed

text \<open>What a user program on a CPU can see of the scheduler's state: the address space, and the kind
  and the allocated addresses of the running task.\<close>

definition user_view :: "('s, 'z) Sched_scheme \<Rightarrow> nat \<Rightarrow> (nat \<times> (TaskKind \<times> 's) option option) option" where
  "user_view k c =
     do { cpu \<leftarrow> get_cpu k c;
          rq \<leftarrow> run_queue cpu;
          Some (hw_cr3 cpu, map_option (\<lambda>t. map_option (\<lambda>x. (t_kind x, ti_user_vaddr_set (t_inner x))) (k_tasks k t))
                  (current_task rq)) }"

lemma user_view_SomeD:
  assumes "user_view k c = Some (cr3, v)"
  shows "\<exists>cpu rq. get_cpu k c = Some cpu \<and> run_queue cpu = Some rq \<and> hw_cr3 cpu = cr3 \<and>
    v = map_option (\<lambda>t. map_option (\<lambda>x. (t_kind x, ti_user_vaddr_set (t_inner x))) (k_tasks k t)) (current_task rq)"
  using assms by (auto simp: user_view_def bind_eq_Some_conv)

lemma user_view_cong:
  "k_cpus k' = k_cpus k \<Longrightarrow> k_tasks k' = k_tasks k \<Longrightarrow> user_view k' c = user_view k c"
  by (simp add: user_view_def get_cpu_def)

lemma user_write_view [simp]:
  "user_write c a bs k = Some k' \<Longrightarrow> user_view k' d = user_view k d"
  by (rule user_view_cong) (auto simp: user_write_def rust_SomeD)

lemma view_current:
  "v = map_option (\<lambda>t. map_option f (ts t)) cur \<Longrightarrow>
   (v = None \<and> cur = None) \<or> (\<exists>t. cur = Some t \<and> v = Some (map_option f (ts t)))"
  by (cases cur) auto

text \<open>The pointer check depends on that view alone.\<close>

lemma validate_user_ptr_view:
  fixes k :: "('s, 'y) Sched_scheme" and k' :: "('s, 'z) Sched_scheme"
  assumes "user_view k' c = user_view k c" "user_view k c \<noteq> None"
  shows "validate_user_ptr S X c ptr n k' = validate_user_ptr S X c ptr n k"
proof -
  obtain cr3 v where v: "user_view k c = Some (cr3, v)" using assms(2) by auto
  from user_view_SomeD [OF v] obtain cpu rq where a: "get_cpu k c = Some cpu" "run_queue cpu = Some rq"
    "v = map_option (\<lambda>t. map_option (\<lambda>x. (t_kind x, ti_user_vaddr_set (t_inner x))) (k_tasks k t)) (current_task rq)"
    by blast
  from user_view_SomeD [OF assms(1) [unfolded v]] obtain cpu' rq' where
    b: "get_cpu k' c = Some cpu'" "run_queue cpu' = Some rq'"
    "v = map_option (\<lambda>t. map_option (\<lambda>x. (t_kind x, ti_user_vaddr_set (t_inner x))) (k_tasks k' t)) (current_task rq')"
    by blast
  show ?thesis
  proof (cases v)
    case None
    then show ?thesis using a b by (simp add: validate_user_ptr_def split: option.splits)
  next
    case (Some w)
    obtain t t' where "current_task rq = Some t" "current_task rq' = Some t'"
        "map_option (\<lambda>x. (t_kind x, ti_user_vaddr_set (t_inner x))) (k_tasks k t) = w"
        "map_option (\<lambda>x. (t_kind x, ti_user_vaddr_set (t_inner x))) (k_tasks k' t') = w"
      using view_current [OF a(3)] view_current [OF b(3)] Some by auto
    then show ?thesis using a(1,2) b(1,2)
      by (cases w) (auto simp: validate_user_ptr_def split: option.splits)
  qed
qed

lemma sched_add_view:
  assumes "sched_add g t k = Some k'"
  shows "user_view k' d = user_view k d"
proof -
  from assms obtain cpu rq where g: "get_cpu k g = Some cpu" "run_queue cpu = Some rq"
    by (auto simp: sched_add_def rust_SomeD unwrap_def)
  have k': "k' = k \<lparr> k_cpus := (k_cpus k)[g := Some (cpu \<lparr> run_queue := Some (rq \<lparr> ready := ready rq @ [t] \<rparr>),
                         ready_count := fetch_add_1 (ready_count cpu) \<rparr>)] \<rparr>"
    using assms sched_add_eq [OF g, of t] by simp
  show ?thesis
    using g by (cases "d = g") (auto simp: k' user_view_def get_cpu_def unwrap_def split: if_splits)
qed

lemma set_task_state_view: "user_view (set_task_state t s k) d = user_view k d"
proof -
  have "map_option (\<lambda>x. (t_kind x, ti_user_vaddr_set (t_inner x))) (k_tasks (set_task_state t s k) n)
      = map_option (\<lambda>x. (t_kind x, ti_user_vaddr_set (t_inner x))) (k_tasks k n)" for n
    by (cases "k_tasks k t") (auto simp: set_task_state_def upd_task_def)
  then show ?thesis by (simp add: user_view_def get_cpu_def set_task_state_def upd_task_def)
qed

lemma wake_task_view:
  assumes "wake_task c t g k = Some k'"
  shows "user_view k' d = user_view k d"
proof -
  from assms obtain k1 where k1: "sched_add g t (set_task_state t Ready k) = Some k1"
      "send_reschedule_ipi c g k1 = Some k'" by (auto simp: wake_task_def rust_SomeD)
  have "user_view k' d = user_view k1 d"
    by (rule user_view_cong) (use k1(2) in \<open>auto simp: send_reschedule_ipi_def rust_SomeD split: if_splits\<close>)
  then show ?thesis using sched_add_view [OF k1(1)] set_task_state_view by simp
qed

lemma wake_waiter_view:
  assumes "wake_waiter ws u c ch k = Some k'"
  shows "user_view k' d = user_view k d"
proof -
  consider "k' = k" | t g r where "wake_task c t g (upd_channel ch (u (\<lambda>_. r)) k) = Some k'"
    using wake_waiter_cases [OF assms] by blast
  then show ?thesis
  proof cases
    case (2 t g r)
    have "user_view (upd_channel ch (u (\<lambda>_. r)) k) d = user_view k d"
      by (rule user_view_cong) (simp_all add: upd_channel_def)
    then show ?thesis using wake_task_view [OF 2] by simp
  qed simp
qed

lemma try_send_user:
  fixes k :: "('s, 'z) Usr_scheme"
  assumes "try_send c e data k = Some (res, k')"
  shows "k_umem k' = k_umem k" "user_view k' d = user_view k d"
proof -
  consider "k' = k" | ch cs where
    "wake_waiter ch_recv_waiters ch_recv_waiters_update c ch (k \<lparr> k_channels := cs \<rparr>) = Some k'"
    using assms by (auto simp: try_send_def rust_SomeD split: if_splits sum.splits option.splits)
  then have "k_umem k' = k_umem k \<and> user_view k' d = user_view k d"
  proof cases
    case (2 ch cs)
    show ?thesis using wake_waiter_frame [OF 2] wake_waiter_view [OF 2, of d]
      user_view_cong [of "k \<lparr> k_channels := cs \<rparr>" k d] by simp
  qed simp
  then show "k_umem k' = k_umem k" "user_view k' d = user_view k d" by simp_all
qed

lemma try_recv_user:
  fixes k :: "('s, 'z) Usr_scheme"
  assumes "try_recv c e k = Some (res, k')"
  shows "k_umem k' = k_umem k" "user_view k' d = user_view k d"
proof -
  consider "k' = k" | ch cs where
    "wake_waiter ch_send_waiters ch_send_waiters_update c ch (k \<lparr> k_channels := cs \<rparr>) = Some k'"
    using assms by (auto simp: try_recv_def rust_SomeD split: if_splits sum.splits option.splits)
  then have "k_umem k' = k_umem k \<and> user_view k' d = user_view k d"
  proof cases
    case (2 ch cs)
    show ?thesis using wake_waiter_frame [OF 2] wake_waiter_view [OF 2, of d]
      user_view_cong [of "k \<lparr> k_channels := cs \<rparr>" k d] by simp
  qed simp
  then show "k_umem k' = k_umem k" "user_view k' d = user_view k d" by simp_all
qed

lemma user_view_ready: "user_view k c = Some v \<Longrightarrow> rq_ready k c"
  by (auto simp: user_view_def rq_ready_def bind_eq_Some_conv)

lemma user_write_eq:
  "user_view k c = Some (cr3, v) \<Longrightarrow>
   user_write c a bs k = Some (k \<lparr> k_umem := (k_umem k)(cr3 := mem_write a bs (k_umem k cr3)) \<rparr>)"
  by (auto simp: user_write_def user_view_def bind_eq_Some_conv)

lemma user_read_eq: "user_view k c = Some (cr3, v) \<Longrightarrow> user_read c a n k = Some (mem_read a n (k_umem k cr3))"
  by (auto simp: user_read_def user_view_def bind_eq_Some_conv)

text \<open>A send that the channel can take, and a receive from a channel that has a message.\<close>

lemma sys_channel_send_ok:
  fixes k :: "('s, 'z) Usr_scheme"
  assumes "ipc_ok k" "user_view k c = Some (cr3, v)" "k_endpoints k e = Some \<lparr> ep_role = Send, ep_channel = ch \<rparr>"
    "k_channels k ch = Some chan" "length (ch_queue chan) < ch_capacity chan" "\<not> ch_recv_closed chan"
    "0 < n" "n \<le> MAX_MESSAGE_SIZE" "validate_user_ptr S X c ptr n k = Some True"
  shows "\<exists>k1. sys_channel_send S X c e ptr n k = Some (Done IPC_OK, k1) \<and> ipc_ok k1 \<and>
    k_channels k1 = (k_channels k)(ch \<mapsto> chan \<lparr> ch_queue := ch_queue chan @ [mem_read ptr n (k_umem k cr3)],
                                                ch_recv_waiters := tl (ch_recv_waiters chan) \<rparr>) \<and>
    k_endpoints k1 = k_endpoints k \<and> k_umem k1 = k_umem k \<and> (\<forall>d. user_view k1 d = user_view k d)"
proof -
  let ?data = "mem_read ptr n (k_umem k cr3)"
  have r: "send_result k e ?data = Inr ch" using assms(3-6,8) by (simp add: send_result_def)
  from try_send_spec [OF assms(1) user_view_ready [OF assms(2)], of e ?data, unfolded r sum.case]
  obtain k1 where k1: "try_send c e ?data k = Some (Inr (), k1)" "ipc_ok k1" "k_endpoints k1 = k_endpoints k"
    "k_channels k1 = (k_channels k)(ch \<mapsto> chan \<lparr> ch_queue := ch_queue chan @ [?data],
                                                ch_recv_waiters := tl (ch_recv_waiters chan) \<rparr>)"
    using assms(4) by (elim exE conjE) (simp only: option.inject)
  have "sys_channel_send S X c e ptr n k = Some (Done IPC_OK, k1)"
    using assms(2,3,7-9) k1(1) user_read_eq [OF assms(2)] by (simp add: sys_channel_send_def channel_send_iter_def)
  then show ?thesis using k1 try_send_user [OF k1(1)] by blast
qed

lemma sys_channel_recv_ok:
  fixes k :: "('s, 'z) Usr_scheme"
  assumes "ipc_ok k" "user_view k d = Some (cr3, v)" "k_endpoints k e = Some \<lparr> ep_role = Recv, ep_channel = ch \<rparr>"
    "k_channels k ch = Some chan" "ch_queue chan = msg # ms"
    "validate_user_ptr S X d buf cap k = Some True" "validate_user_ptr S X d out 8 k = Some True"
  shows "\<exists>k2. sys_channel_recv S X d e buf cap out k = Some (Done IPC_OK, k2) \<and>
    k_channels k2 = (k_channels k)(ch \<mapsto> chan \<lparr> ch_queue := ms, ch_send_waiters := tl (ch_send_waiters chan) \<rparr>) \<and>
    k_umem k2 = (k_umem k)(cr3 := mem_write out (u64_bytes (min (length msg) cap))
                                    (mem_write buf (take (min (length msg) cap) msg) (k_umem k cr3)))"
proof -
  have r: "recv_result k e = Inr ch" using assms(3-5) by (simp add: recv_result_def)
  from try_recv_spec [OF assms(1) user_view_ready [OF assms(2)], of e, unfolded r sum.case]
  obtain k1 where k1: "try_recv d e k = Some (Inr msg, k1)" "k_endpoints k1 = k_endpoints k"
    "k_channels k1 = (k_channels k)(ch \<mapsto> chan \<lparr> ch_queue := ms, ch_send_waiters := tl (ch_send_waiters chan) \<rparr>)"
    using assms(4,5) by (elim exE conjE) (simp only: option.inject list.inject)
  have v1: "user_view k1 d = Some (cr3, v)" "k_umem k1 = k_umem k"
    using try_recv_user [OF k1(1)] assms(2) by simp_all
  let ?n = "min (length msg) cap"
  let ?k2 = "k1 \<lparr> k_umem := (k_umem k)(cr3 := mem_write buf (take ?n msg) (k_umem k cr3)) \<rparr>"
  have w1: "user_write d buf (take ?n msg) k1 = Some ?k2" using user_write_eq [OF v1(1)] v1(2) by simp
  have v2: "user_view ?k2 d = Some (cr3, v)" using user_write_view [OF w1] v1(1) by simp
  show ?thesis
    using assms(3,6,7) k1 w1 user_write_eq [OF v2, of out "u64_bytes ?n"]
    by (simp add: sys_channel_recv_def channel_recv_iter_def Let_def)
qed

text \<open>Going to sleep: the current task is registered and sleeps, with the fallback value in its saved
  context; channels stay well formed.\<close>

lemma set_fallback_rax_eq:
  "get_cpu k c = Some cpu \<Longrightarrow> current_context_ptr cpu = Some t \<Longrightarrow> k_tasks k t = Some x \<Longrightarrow>
   set_fallback_rax c n k = Some (k \<lparr> k_tasks := (k_tasks k)(t \<mapsto> x \<lparr> t_inner := t_inner x \<lparr> ti_context :=
                                      ti_context (t_inner x) \<lparr> ctx_rax := n \<rparr> \<rparr> \<rparr>) \<rparr>)"
  by (simp add: set_fallback_rax_def upd_task_def)

definition asleep :: "'s Task \<Rightarrow> 's Task" where
  "asleep x = x \<lparr> t_inner := t_inner x \<lparr> ti_context := ti_context (t_inner x) \<lparr> ctx_rax := IPC_ERR_CHANNEL_FULL \<rparr> \<rparr>,
                  t_state := Sleeping \<rparr>"

lemma get_cpu_tasks: "get_cpu (k \<lparr> k_tasks := ts \<rparr>) c = get_cpu k c"
  by (simp add: get_cpu_def)

lemma sleep_on_eq:
  assumes "sched_ok k" "get_cpu k c = Some cpu" "run_queue cpu = Some rq" "current_task rq = Some t"
    "k_tasks k t = Some x"
  shows "sleep_on upd c ch k = Some (upd_channel ch (upd (\<lambda>ws. ws @ [(t, c)])) (k \<lparr> k_tasks := (k_tasks k)(t \<mapsto> asleep x) \<rparr>))"
proof -
  have ok: "cpu_ok (k_tasks k) c cpu"
    using assms(1,2) by (auto simp: sched_ok_def get_cpu_def unwrap_def split: if_splits)
  have p: "current_context_ptr cpu = Some t" using cpu_okD(3) [OF ok assms(3)] assms(4) by simp
  have cur: "current_task_and_cpu (k \<lparr> k_tasks := ts \<rparr>) c = Some (Some (t, c))" for ts
    using assms(2-4) cpu_ok_id [OF ok] by (simp add: current_task_and_cpu_def get_cpu_tasks)
  show ?thesis
    unfolding sleep_on_def set_fallback_rax_eq [OF assms(2) p assms(5)]
    by (simp add: cur set_task_state_def upd_task_def upd_channel_def asleep_def)
qed

lemma t_core_asleep [simp]: "t_core (asleep x) = t_core x"
  by (simp add: t_core_def asleep_def)

lemma same_tasks_one: "ts t = Some x \<Longrightarrow> t_core y = t_core x \<Longrightarrow> same_tasks ts (ts(t \<mapsto> y))"
  by (simp add: same_tasks_def)

lemma sched_ok_same_tasks: "sched_ok k \<Longrightarrow> same_tasks (k_tasks k) (k_tasks k') \<Longrightarrow> k_cpus k' = k_cpus k \<Longrightarrow> sched_ok k'"
  unfolding sched_ok_def by (metis cpu_ok_same_tasks)

text \<open>A send on a full channel.\<close>

lemma full_send_sleeps:
  fixes k :: "('s, 'z) Usr_scheme"
  assumes "ipc_ok k" "get_cpu k c = Some cpu" "run_queue cpu = Some rq" "current_task rq = Some t"
    "k_tasks k t = Some x" "k_endpoints k e = Some \<lparr> ep_role = Send, ep_channel = ch \<rparr>"
    "k_channels k ch = Some chan" "length (ch_queue chan) = ch_capacity chan" "\<not> ch_recv_closed chan"
    "n \<le> MAX_MESSAGE_SIZE" "n = 0 \<or> validate_user_ptr S X c ptr n k = Some True"
  defines "chan' \<equiv> chan \<lparr> ch_send_waiters := ch_send_waiters chan @ [(t, c)] \<rparr>"
  shows "sys_channel_send S X c e ptr n k
           = Some (Blocked, k \<lparr> k_tasks := (k_tasks k)(t \<mapsto> asleep x), k_channels := (k_channels k)(ch \<mapsto> chan') \<rparr>)"
    and "ipc_ok (k \<lparr> k_tasks := (k_tasks k)(t \<mapsto> asleep x), k_channels := (k_channels k)(ch \<mapsto> chan') \<rparr>)"
proof -
  let ?k' = "k \<lparr> k_tasks := (k_tasks k)(t \<mapsto> asleep x), k_channels := (k_channels k)(ch \<mapsto> chan') \<rparr>"
  have rq: "rq_ready k c" using assms(2,3) by (auto simp: rq_ready_def)
  obtain data where data: "length data = n"
      "(if n > 0 then user_read c ptr n k else Some []) = Some data"
    by (rule that [of "if n > 0 then mem_read ptr n (k_umem k (hw_cr3 cpu)) else []"])
      (use assms(2) in \<open>simp_all add: user_read_def\<close>)
  have "send_result k e data = Inl ChannelFull" using assms(6-10) data(1) by (simp add: send_result_def)
  then have ts: "try_send c e data k = Some (Inl ChannelFull, k)" using try_send_spec [OF assms(1) rq, of e data] by simp
  have "ch_send_waiters_update (\<lambda>ws. ws @ [(t, c)]) chan = chan'" by (cases chan) (simp add: chan'_def)
  then have sl: "sleep_on ch_send_waiters_update c ch k = Some ?k'"
    using sleep_on_eq [OF ipc_okD(1) [OF assms(1)] assms(2-5), of ch_send_waiters_update ch] assms(7)
    by (simp add: upd_channel_def)
  have v: "(if n > 0 then validate_user_ptr S X c ptr n k else Some True) = Some True" using assms(11) by auto
  show "sys_channel_send S X c e ptr n k = Some (Blocked, ?k')"
    unfolding sys_channel_send_def v data(2) using assms(6,10) ts sl by (simp add: channel_send_iter_def)
  have st: "same_tasks (k_tasks k) (k_tasks ?k')" using same_tasks_one [of "k_tasks k" t x "asleep x"] assms(5) by simp
  have rr: "rq_ready ?k' d = rq_ready k d" for d by (rule rq_ready_cong) simp
  have "task_live k t"
    using ipc_okD(1) [OF assms(1)] assms(2-4) cpu_okD(4) [of "k_tasks k" c cpu rq t]
    by (auto simp: sched_ok_def get_cpu_def unwrap_def task_live_def rq_tasks_def split: if_splits)
  then have "waiter_ok k (t, c)" using rq by (simp add: waiter_ok_def)
  then have co: "channel_ok k chan'"
    using ipc_okD(4) [OF assms(1,7)] by (auto simp: channel_ok_def chan_ok_def chan'_def)
  have "sched_ok ?k'" by (rule sched_ok_same_tasks [OF ipc_okD(1) [OF assms(1)] st]) simp
  then show "ipc_ok ?k'"
    by (rule ipc_ok_step [OF assms(1) _ st rr _ _ _ _ _ co, of ch]) (use assms(7) in simp_all)
qed

section \<open>Properties\<close>

text \<open>C4. The bytes a program sends arrive. A send through a valid pointer on an open channel that is
  empty succeeds; a receive by any program on the other endpoint then succeeds, its buffer holds the
  first bytes of the sender's message, as many as fit, and the output word holds that number. This
  holds whichever CPUs and address spaces the two run in, and whoever was waiting on the channel.\<close>

theorem send_recv_transfer:
  fixes k :: "('s, 'z) Usr_scheme"
  assumes "ipc_ok k" "user_view k c = Some (cr3, v)" "user_view k d = Some (cr3', v')"
    "k_endpoints k e = Some \<lparr> ep_role = Send, ep_channel = ch \<rparr>"
    "k_endpoints k e' = Some \<lparr> ep_role = Recv, ep_channel = ch \<rparr>"
    "k_channels k ch = Some chan" "ch_queue chan = []" "\<not> ch_recv_closed chan"
    "0 < n" "n \<le> MAX_MESSAGE_SIZE" "validate_user_ptr S X c ptr n k = Some True"
    "validate_user_ptr S X d buf cap k = Some True" "validate_user_ptr S X d out 8 k = Some True"
    "buf + cap \<le> out \<or> out + 8 \<le> buf"
  shows "\<exists>k1 k2. sys_channel_send S X c e ptr n k = Some (Done IPC_OK, k1) \<and>
    sys_channel_recv S X d e' buf cap out k1 = Some (Done IPC_OK, k2) \<and>
    mem_read buf (min n cap) (k_umem k2 cr3') = take (min n cap) (mem_read ptr n (k_umem k cr3)) \<and>
    bytes_nat (mem_read out 8 (k_umem k2 cr3')) = min n cap"
proof -
  have "1 \<le> ch_capacity chan" using ipc_okD(4) [OF assms(1,6)] by (simp add: channel_ok_def chan_ok_def)
  then have room: "length (ch_queue chan) < ch_capacity chan" using assms(7) by simp
  let ?data = "mem_read ptr n (k_umem k cr3)"
  let ?chan1 = "chan \<lparr> ch_queue := [?data], ch_recv_waiters := tl (ch_recv_waiters chan) \<rparr>"
  from sys_channel_send_ok [OF assms(1,2,4,6) room assms(8-11)] obtain k1 where
    k1: "sys_channel_send S X c e ptr n k = Some (Done IPC_OK, k1)" "ipc_ok k1"
      "k_channels k1 = (k_channels k)(ch \<mapsto> ?chan1)" "k_endpoints k1 = k_endpoints k" "k_umem k1 = k_umem k"
      "user_view k1 d = user_view k d"
    unfolding assms(7) append_Nil by blast
  have val: "validate_user_ptr S X d a m k1 = validate_user_ptr S X d a m k" for a m
    by (rule validate_user_ptr_view [OF k1(6)]) (simp add: assms(3))
  have ch1: "k_channels k1 ch = Some ?chan1" "ch_queue ?chan1 = ?data # []" using k1(3) by simp_all
  from sys_channel_recv_ok [OF k1(2) k1(6) [unfolded assms(3)] assms(5) [folded k1(4)] ch1
      assms(12) [folded val] assms(13) [folded val]] obtain k2 where
    k2: "sys_channel_recv S X d e' buf cap out k1 = Some (Done IPC_OK, k2)"
      "k_umem k2 cr3' = mem_write out (u64_bytes (min n cap)) (mem_write buf (take (min n cap) ?data) (k_umem k cr3'))"
    using k1(5) by auto
  have "min n cap < U64_LIMIT" using assms(10) by (simp add: MAX_MESSAGE_SIZE_def U64_LIMIT_num)
  then have "bytes_nat (mem_read out 8 (k_umem k2 cr3')) = min n cap" by (simp add: k2(2) bytes_nat_u64)
  moreover have "mem_read buf (min n cap) (k_umem k2 cr3') = take (min n cap) ?data"
    using assms(14) by (auto simp: k2(2) mem_read_disjoint)
  ultimately show ?thesis using k1(1) k2(1) by blast
qed

lemma user_machine_ok: "ipc_ok user_machine"
proof -
  have t: "task_ok user_task" by (simp add: task_ok_def user_task_def canonical_num PHYS_LIMIT_num SIZE_4KIB_def)
  have "cpu_ok (k_tasks user_machine) 0 (sample_cpu 0 (Some 1) [])"
    using t by (intro cpu_okI [OF _ user_machine_cpu(2)])
      (auto simp: sample_cpu_def user_machine_def rq_tasks_def U64_LIMIT_num, simp_all add: user_task_def)
  then have "sched_ok user_machine" by (auto simp: sched_ok_def user_machine_def)
  then show ?thesis
    by (auto simp: ipc_ok_def user_machine_def channel_ok_def chan_ok_def MAX_CHANNEL_CAPACITY_def split: if_splits)
qed

lemma user_machine_valid:
  "validate_user_ptr list_set_ops x86_arith_ops 0 0x4100 5 user_machine = Some True"
  "validate_user_ptr list_set_ops x86_arith_ops 0 0x5000 3 user_machine = Some True"
  "validate_user_ptr list_set_ops x86_arith_ops 0 0x6000 8 user_machine = Some True"
proof -
  have s: "ivls_ok (ti_user_vaddr_set (t_inner user_task))" using sample_space_ok by (simp add: user_task_def)
  have u: "space_used list_set_ops sample_space a n" if "0x4000 \<le> a" "a + n \<le> 0x7000" for a n
    using that by (auto simp: space_used_def sample_space_def list_set_ops_def)
  note v = validate_user_ptr_spec [OF list_space.page_space_axioms user_machine_cpu(1,2) _ user_machine_cpu(3) s]
  show "validate_user_ptr list_set_ops x86_arith_ops 0 0x4100 5 user_machine = Some True"
    "validate_user_ptr list_set_ops x86_arith_ops 0 0x5000 3 user_machine = Some True"
    "validate_user_ptr list_set_ops x86_arith_ops 0 0x6000 8 user_machine = Some True"
    using v [of "0x4100" 5] v [of "0x5000" 3] v [of "0x6000" 8] u [of "0x4100" 5] u [of "0x5000" 3] u [of "0x6000" 8]
    by (simp_all add: USER_MAX_def USER_MIN_def LOWER_HALF_END_def user_task_def)
qed

theorem send_recv_transfer_witness:
  "\<exists>k1 k2. sys_channel_send list_set_ops x86_arith_ops 0 1 0x4100 5 user_machine = Some (Done IPC_OK, k1) \<and>
    sys_channel_recv list_set_ops x86_arith_ops 0 2 0x5000 3 0x6000 k1 = Some (Done IPC_OK, k2) \<and>
    mem_read 0x5000 3 (k_umem k2 0x1000) = [0, 1, 2] \<and> bytes_nat (mem_read 0x6000 8 (k_umem k2 0x1000)) = 3"
proof -
  have v: "user_view user_machine 0 = Some (0x1000, Some (Some (User, sample_space)))"
    using user_machine_cpu by (simp add: user_view_def user_task_def) (simp add: sample_cpu_def)
  have "take 3 (mem_read 0x4100 5 (k_umem user_machine 0x1000)) = [0, 1, 2]"
    by (simp add: mem_read_def user_machine_def upt_rec)
  then show ?thesis
    using send_recv_transfer [OF user_machine_ok v v _ _ _ _ _ _ _ user_machine_valid, of 1 0 2]
    by (simp add: user_machine_def MAX_MESSAGE_SIZE_def)
qed

text \<open>C8. A send on a full channel puts the running task to sleep on the channel: the call does not
  return, the task is asleep with the channel-full code as the value it will see, it is last in the
  channel's queue of waiting senders, and nothing else has changed. It does not sleep for ever: if no
  sender was waiting before it, the next successful receive on that channel, from any CPU, makes it
  ready and puts it in a run queue.\<close>

theorem full_send_blocks_until_receive:
  fixes k :: "('s, 'z) Usr_scheme"
  assumes "ipc_ok k" "get_cpu k c = Some cpu" "run_queue cpu = Some rq" "current_task rq = Some t"
    "k_tasks k t = Some x" "k_endpoints k e = Some \<lparr> ep_role = Send, ep_channel = ch \<rparr>"
    "k_channels k ch = Some chan" "length (ch_queue chan) = ch_capacity chan" "\<not> ch_recv_closed chan"
    "n \<le> MAX_MESSAGE_SIZE" "n = 0 \<or> validate_user_ptr S X c ptr n k = Some True"
  shows "\<exists>k'. sys_channel_send S X c e ptr n k = Some (Blocked, k') \<and> ipc_ok k' \<and>
    k' = k \<lparr> k_tasks := (k_tasks k)(t \<mapsto> asleep x),
             k_channels := (k_channels k)(ch \<mapsto> chan \<lparr> ch_send_waiters := ch_send_waiters chan @ [(t, c)] \<rparr>) \<rparr> \<and>
    (\<forall>d e'. ch_send_waiters chan = [] \<longrightarrow> rq_ready k d \<longrightarrow>
       k_endpoints k e' = Some \<lparr> ep_role = Recv, ep_channel = ch \<rparr> \<longrightarrow>
       (\<exists>m k'' y. try_recv d e' k' = Some (Inr m, k'') \<and> k_tasks k'' t = Some y \<and> t_state y = Ready \<and>
          mset (placed k'') = add_mset t (mset (placed k))))"
proof -
  let ?chan' = "chan \<lparr> ch_send_waiters := ch_send_waiters chan @ [(t, c)] \<rparr>"
  let ?k' = "k \<lparr> k_tasks := (k_tasks k)(t \<mapsto> asleep x), k_channels := (k_channels k)(ch \<mapsto> ?chan') \<rparr>"
  note f = full_send_sleeps [OF assms]
  have "\<exists>m k'' y. try_recv d e' ?k' = Some (Inr m, k'') \<and> k_tasks k'' t = Some y \<and> t_state y = Ready \<and>
          mset (placed k'') = add_mset t (mset (placed k))"
    if w: "ch_send_waiters chan = []" "rq_ready k d" "k_endpoints k e' = Some \<lparr> ep_role = Recv, ep_channel = ch \<rparr>" for d e'
  proof -
    have "1 \<le> ch_capacity chan" using ipc_okD(4) [OF assms(1,7)] by (simp add: channel_ok_def chan_ok_def)
    then have "ch_queue ?chan' \<noteq> []" using assms(8) by auto
    then have r: "recv_result ?k' e' = Inr ch" using w(3) by (simp add: recv_result_def)
    have rr: "rq_ready ?k' d" using w(2) rq_ready_cong [of ?k' k d] by simp
    from try_recv_spec [OF f(2) rr, of e', unfolded r sum.case] obtain m k'' chan0 where
      m: "try_recv d e' ?k' = Some (Inr m, k'')" "woken (ch_send_waiters chan0) ?k' k''" "k_channels ?k' ch = Some chan0"
      by blast
    then have "chan0 = ?chan'" by simp
    moreover
    have "placed ?k' = placed k" by (rule placed_cong) simp
    ultimately show ?thesis using m w(1) by (auto simp: woken_def)
  qed
  then show ?thesis using f by blast
qed

text \<open>The same machine with one message in its channel of capacity one.\<close>

definition full_machine :: "(interval \<times> unit) list Usr" where
  "full_machine = user_machine \<lparr> k_channels := [0 \<mapsto> \<lparr> ch_queue = [[9]], ch_capacity = 1, ch_send_closed = False,
     ch_recv_closed = False, ch_recv_waiters = [], ch_send_waiters = [] \<rparr>] \<rparr>"

lemma full_machine_ok: "ipc_ok full_machine"
proof -
  have "sched_ok full_machine"
    using ipc_okD(1) [OF user_machine_ok] sched_ok_cong [of full_machine user_machine] by (simp add: full_machine_def)
  then show ?thesis
    by (auto simp: ipc_ok_def full_machine_def user_machine_def channel_ok_def chan_ok_def MAX_CHANNEL_CAPACITY_def
        MAX_MESSAGE_SIZE_def split: if_splits)
qed

theorem full_send_blocks_until_receive_witness:
  "\<exists>k'. sys_channel_send list_set_ops x86_arith_ops 0 1 0 0 full_machine = Some (Blocked, k') \<and>
     (\<exists>m k'' y. try_recv 0 2 k' = Some (Inr m, k'') \<and> k_tasks k'' 1 = Some y \<and> t_state y = Ready)"
proof -
  have g: "get_cpu full_machine 0 = Some (sample_cpu 0 (Some 1) [])" "k_tasks full_machine 1 = Some user_task"
    by (simp_all add: full_machine_def user_machine_def get_cpu_def)
  have r: "rq_ready full_machine 0" using g user_machine_cpu(2) by (auto simp: rq_ready_def)
  have e: "k_endpoints full_machine 1 = Some \<lparr> ep_role = Send, ep_channel = 0 \<rparr>"
    "k_endpoints full_machine 2 = Some \<lparr> ep_role = Recv, ep_channel = 0 \<rparr>"
    "k_channels full_machine 0 = Some \<lparr> ch_queue = [[9]], ch_capacity = 1, ch_send_closed = False,
       ch_recv_closed = False, ch_recv_waiters = [], ch_send_waiters = [] \<rparr>"
    by (simp_all add: full_machine_def user_machine_def)
  note b = full_send_blocks_until_receive [OF full_machine_ok g(1) user_machine_cpu(2) _ g(2) e(1,3), of 0 list_set_ops x86_arith_ops 0]
  obtain k' where "sys_channel_send list_set_ops x86_arith_ops 0 1 0 0 full_machine = Some (Blocked, k')"
    "\<forall>d e'. rq_ready full_machine d \<longrightarrow> k_endpoints full_machine e' = Some \<lparr> ep_role = Recv, ep_channel = 0 \<rparr> \<longrightarrow>
       (\<exists>m k'' y. try_recv d e' k' = Some (Inr m, k'') \<and> k_tasks k'' 1 = Some y \<and> t_state y = Ready \<and>
          mset (placed k'') = add_mset 1 (mset (placed full_machine)))"
    using b by (simp only: Channel.select_convs) auto
  then show ?thesis using r e(2) by blast
qed

end
