(* ===== verification/Services.thy ===== *)
theory Services
  imports Ipc_Syscalls
begin

text \<open>
  The service registry (\<^verbatim>\<open>service_registry.rs\<close>) and its two system calls
  (\<^verbatim>\<open>syscall_handlers/service.rs\<close>). A service name is a 64-byte array; the registry maps
  names to a send endpoint and the task that registered it.
\<close>

section \<open>Data\<close>

definition MAX_SERVICE_NAME_LEN :: nat where
  "MAX_SERVICE_NAME_LEN = 64"

definition SVC_OK :: nat where "SVC_OK = 0"
definition SVC_ERR_NOT_FOUND :: nat where "SVC_ERR_NOT_FOUND = 10"
definition SVC_ERR_ALREADY_REGISTERED :: nat where "SVC_ERR_ALREADY_REGISTERED = 11"
definition SVC_ERR_INVALID_ARGS :: nat where "SVC_ERR_INVALID_ARGS = 12"

lemmas svc_codes = SVC_OK_def SVC_ERR_NOT_FOUND_def SVC_ERR_ALREADY_REGISTERED_def SVC_ERR_INVALID_ARGS_def

record ServiceEntry =
  send_endpoint_id :: nat
  owner_task_id :: nat

record 's Svc = "'s Usr" +
  k_services :: "byte list \<rightharpoonup> ServiceEntry"

section \<open>Operations\<close>

text \<open>The name a byte string stands for: cut at 64 bytes, filled up with zeros.\<close>

definition service_name :: "byte list \<Rightarrow> byte list" where
  "service_name name_bytes =
     (let copy_len = min (length name_bytes) MAX_SERVICE_NAME_LEN
      in take copy_len name_bytes @ replicate (MAX_SERVICE_NAME_LEN - copy_len) 0)"

definition svc_register :: "byte list \<Rightarrow> nat \<Rightarrow> nat \<Rightarrow> ('s, 'z) Svc_scheme \<Rightarrow> (nat + unit) \<times> ('s, 'z) Svc_scheme" where
  "svc_register name_bytes send_ep owner k =
     (let name = service_name name_bytes
      in if k_services k name \<noteq> None then (Inl SVC_ERR_ALREADY_REGISTERED, k)
         else (Inr (), k \<lparr> k_services := (k_services k)(name \<mapsto>
                            \<lparr> send_endpoint_id = send_ep, owner_task_id = owner \<rparr>) \<rparr>))"

definition svc_lookup :: "byte list \<Rightarrow> ('s, 'z) Svc_scheme \<Rightarrow> nat option" where
  "svc_lookup name_bytes k = map_option send_endpoint_id (k_services k (service_name name_bytes))"

definition unregister_all_for_task :: "nat \<Rightarrow> ('s, 'z) Svc_scheme \<Rightarrow> ('s, 'z) Svc_scheme" where
  "unregister_all_for_task owner k =
     k \<lparr> k_services := (\<lambda>name. case k_services k name of
                          None \<Rightarrow> None
                        | Some entry \<Rightarrow> if owner_task_id entry \<noteq> owner then Some entry else None) \<rparr>"

definition sys_register_service ::
    "'s nodit_set_ops \<Rightarrow> x86_ops \<Rightarrow> nat \<Rightarrow> nat \<Rightarrow> nat \<Rightarrow> nat \<Rightarrow> ('s, 'z) Svc_scheme \<Rightarrow>
     (nat \<times> ('s, 'z) Svc_scheme) rust" where
  "sys_register_service S X c name_ptr name_len send_ep k =
     (if name_len = 0 \<or> name_len > MAX_SERVICE_NAME_LEN then Some (SVC_ERR_INVALID_ARGS, k)
      else
        do { valid \<leftarrow> validate_user_ptr S X c name_ptr name_len k;
             if \<not> valid then Some (SVC_ERR_INVALID_ARGS, k)
             else if \<not> (case k_endpoints k send_ep of Some ep \<Rightarrow> ep_role ep = Send | None \<Rightarrow> False)
             then Some (SVC_ERR_INVALID_ARGS, k)
             else
               do { name_bytes \<leftarrow> user_read c name_ptr name_len k;
                    cur \<leftarrow> current_task_and_cpu k c;
                    case cur of
                      None \<Rightarrow> Some (SVC_ERR_INVALID_ARGS, k)
                    | Some (t, cpu_id) \<Rightarrow>
                        (case svc_register name_bytes send_ep t k of
                           (Inr _, k') \<Rightarrow>
                             Some (SVC_OK, upd_task t (\<lambda>x. x \<lparr> t_inner := t_inner x \<lparr> ti_registered_services :=
                               ti_registered_services (t_inner x) @ [service_name name_bytes] \<rparr> \<rparr>) k')
                         | (Inl code, k') \<Rightarrow> Some (code, k')) } })"

definition sys_lookup_service ::
    "'s nodit_set_ops \<Rightarrow> x86_ops \<Rightarrow> nat \<Rightarrow> nat \<Rightarrow> nat \<Rightarrow> nat \<Rightarrow> ('s, 'z) Svc_scheme \<Rightarrow>
     (nat \<times> ('s, 'z) Svc_scheme) rust" where
  "sys_lookup_service S X c name_ptr name_len ep_out_ptr k =
     (if name_len = 0 \<or> name_len > MAX_SERVICE_NAME_LEN then Some (SVC_ERR_INVALID_ARGS, k)
      else
        do { v1 \<leftarrow> validate_user_ptr S X c name_ptr name_len k;
             if \<not> v1 then Some (SVC_ERR_INVALID_ARGS, k)
             else
               do { v2 \<leftarrow> validate_user_ptr S X c ep_out_ptr 8 k;
                    if \<not> v2 then Some (SVC_ERR_INVALID_ARGS, k)
                    else
                      do { name_bytes \<leftarrow> user_read c name_ptr name_len k;
                           case svc_lookup name_bytes k of
                             Some ep \<Rightarrow> do { k' \<leftarrow> user_write c ep_out_ptr (u64_bytes ep) k; Some (SVC_OK, k') }
                           | None \<Rightarrow> Some (SVC_ERR_NOT_FOUND, k) } } })"

section \<open>Lemmas\<close>

lemma length_service_name [simp]: "length (service_name n) = MAX_SERVICE_NAME_LEN"
  by (simp add: service_name_def Let_def)

text \<open>Two names are the same service exactly when one is the other followed by zero bytes.\<close>

lemma service_name_eq:
  assumes "length a \<le> length b" "length b \<le> MAX_SERVICE_NAME_LEN"
  shows "service_name a = service_name b \<longleftrightarrow> b = a @ replicate (length b - length a) 0"
proof -
  let ?N = MAX_SERVICE_NAME_LEN
  have n: "service_name a = a @ replicate (length b - length a) 0 @ replicate (?N - length b) 0"
    "service_name b = b @ replicate (?N - length b) 0"
    using assms by (simp_all add: service_name_def Let_def flip: replicate_add)
  then show ?thesis using assms(1) by (metis append.assoc append_same_eq)
qed

lemma unregistered:
  "k_services (unregister_all_for_task t k) n = Some e \<longleftrightarrow> k_services k n = Some e \<and> owner_task_id e \<noteq> t"
  by (auto simp: unregister_all_for_task_def split: option.splits if_splits)

lemma register_cases:
  "svc_register n ep t k =
     (if k_services k (service_name n) \<noteq> None then (Inl SVC_ERR_ALREADY_REGISTERED, k)
      else (Inr (), k \<lparr> k_services := (k_services k)(service_name n \<mapsto> \<lparr> send_endpoint_id = ep, owner_task_id = t \<rparr>) \<rparr>))"
  by (simp add: svc_register_def Let_def)

lemma get_cpu_cong: "k_cpus k' = k_cpus k \<Longrightarrow> get_cpu k' c = get_cpu k c"
  by (simp add: get_cpu_def)

lemma user_view_upd_task:
  assumes "\<And>x. t_kind (f x) = t_kind x" "\<And>x. ti_user_vaddr_set (t_inner (f x)) = ti_user_vaddr_set (t_inner x)"
  shows "user_view (upd_task t f k) d = user_view k d"
proof -
  have "map_option (\<lambda>x. (t_kind x, ti_user_vaddr_set (t_inner x))) (k_tasks (upd_task t f k) n)
      = map_option (\<lambda>x. (t_kind x, ti_user_vaddr_set (t_inner x))) (k_tasks k n)" for n
    using assms by (cases "k_tasks k t") (auto simp: upd_task_def)
  then show ?thesis by (simp add: user_view_def get_cpu_def upd_task_def)
qed

lemma sys_lookup_service_eq:
  assumes "user_view k d = Some (cr3, v)" "0 < m" "m \<le> MAX_SERVICE_NAME_LEN"
    "validate_user_ptr S X d ptr m k = Some True" "validate_user_ptr S X d out 8 k = Some True"
  shows "sys_lookup_service S X d ptr m out k =
    Some (case svc_lookup (mem_read ptr m (k_umem k cr3)) k of
            Some ep \<Rightarrow> (SVC_OK, k \<lparr> k_umem := (k_umem k)(cr3 := mem_write out (u64_bytes ep) (k_umem k cr3)) \<rparr>)
          | None \<Rightarrow> (SVC_ERR_NOT_FOUND, k))"
  using assms user_read_eq [OF assms(1)] user_write_eq [OF assms(1)]
  by (simp add: sys_lookup_service_def split: option.split)

lemma sys_register_service_eq:
  assumes "user_view k c = Some (cr3, v)" "get_cpu k c = Some cpu" "run_queue cpu = Some rq" "current_task rq = Some t"
    "0 < n" "n \<le> MAX_SERVICE_NAME_LEN" "validate_user_ptr S X c ptr n k = Some True"
    "k_endpoints k e = Some \<lparr> ep_role = Send, ep_channel = ch \<rparr>"
  defines "name \<equiv> service_name (mem_read ptr n (k_umem k cr3))"
  shows "sys_register_service S X c ptr n e k =
    Some (if k_services k name \<noteq> None then (SVC_ERR_ALREADY_REGISTERED, k)
          else (SVC_OK, upd_task t (\<lambda>x. x \<lparr> t_inner := t_inner x \<lparr> ti_registered_services :=
                               ti_registered_services (t_inner x) @ [name] \<rparr> \<rparr>)
                          (k \<lparr> k_services := (k_services k)(name \<mapsto> \<lparr> send_endpoint_id = e, owner_task_id = t \<rparr>) \<rparr>)))"
  using assms(2-8) user_read_eq [OF assms(1)]
  by (simp add: sys_register_service_def current_task_and_cpu_def register_cases name_def)

section \<open>Properties\<close>

text \<open>C36. A service can be found once it is registered. Registering a free name with a send endpoint
  succeeds; from then on any program that looks up a name with the same bytes up to trailing zeros,
  in whatever address space, gets that endpoint in its output word, the answers for all other names
  are as before, and a second registration of the name is refused and changes nothing.\<close>

theorem service_register_lookup:
  fixes k :: "('s, 'z) Svc_scheme"
  assumes "user_view k c = Some (cr3, v)" "get_cpu k c = Some cpu" "run_queue cpu = Some rq" "current_task rq = Some t"
    "0 < n" "n \<le> MAX_SERVICE_NAME_LEN" "validate_user_ptr S X c ptr n k = Some True"
    "k_endpoints k e = Some \<lparr> ep_role = Send, ep_channel = ch \<rparr>" "e < U64_LIMIT"
    "k_services k (service_name (mem_read ptr n (k_umem k cr3))) = None"
    "user_view k d = Some (cr3', v')" "0 < m" "m \<le> MAX_SERVICE_NAME_LEN"
    "validate_user_ptr S X d ptr' m k = Some True" "validate_user_ptr S X d out 8 k = Some True"
    "service_name (mem_read ptr' m (k_umem k cr3')) = service_name (mem_read ptr n (k_umem k cr3))"
  shows "\<exists>k1 k2. sys_register_service S X c ptr n e k = Some (SVC_OK, k1) \<and>
    sys_lookup_service S X d ptr' m out k1 = Some (SVC_OK, k2) \<and>
    bytes_nat (mem_read out 8 (k_umem k2 cr3')) = e \<and>
    (\<forall>b. service_name b \<noteq> service_name (mem_read ptr n (k_umem k cr3)) \<longrightarrow> svc_lookup b k1 = svc_lookup b k) \<and>
    sys_register_service S X c ptr n e k1 = Some (SVC_ERR_ALREADY_REGISTERED, k1)"
proof -
  let ?name = "service_name (mem_read ptr n (k_umem k cr3))"
  let ?f = "\<lambda>x. x \<lparr> t_inner := t_inner x \<lparr> ti_registered_services := ti_registered_services (t_inner x) @ [?name] \<rparr> \<rparr>"
  let ?k0 = "k \<lparr> k_services := (k_services k)(?name \<mapsto> \<lparr> send_endpoint_id = e, owner_task_id = t \<rparr>) \<rparr>"
  let ?k1 = "upd_task t ?f ?k0"
  have r: "sys_register_service S X c ptr n e k = Some (SVC_OK, ?k1)"
    using sys_register_service_eq [OF assms(1-8)] assms(10) by simp
  have f: "k_umem ?k1 = k_umem k" "k_endpoints ?k1 = k_endpoints k" "k_cpus ?k1 = k_cpus k"
      "k_services ?k1 = (k_services k)(?name \<mapsto> \<lparr> send_endpoint_id = e, owner_task_id = t \<rparr>)"
    by (simp_all add: upd_task_def)
  have view: "user_view ?k1 g = user_view k g" for g
    using user_view_upd_task [of ?f t ?k0 g] user_view_cong [of ?k0 k g] by simp
  have val: "validate_user_ptr S X g a b ?k1 = validate_user_ptr S X g a b k" if "user_view k g \<noteq> None" for g a b
    by (rule validate_user_ptr_view [OF view that])
  have g1: "get_cpu ?k1 c = Some cpu" using assms(2) get_cpu_cong [OF f(3)] by simp
  have "sys_lookup_service S X d ptr' m out ?k1
      = Some (SVC_OK, ?k1 \<lparr> k_umem := (k_umem k)(cr3' := mem_write out (u64_bytes e) (k_umem k cr3')) \<rparr>)"
    using sys_lookup_service_eq [of ?k1 d cr3' v' m S X ptr' out] assms(11-16) val view f
    by (simp add: svc_lookup_def)
  moreover have "sys_register_service S X c ptr n e ?k1 = Some (SVC_ERR_ALREADY_REGISTERED, ?k1)"
    using sys_register_service_eq [of ?k1 c cr3 v cpu rq t n S X ptr e ch] assms(1,3-8) g1 val view f by simp
  ultimately show ?thesis using r f(4) bytes_nat_u64 [OF assms(9)] by (simp add: svc_lookup_def)
qed

text \<open>The machine of the pointer checks with an empty registry.\<close>

definition svc_machine :: "(interval \<times> unit) list Svc" where
  "svc_machine = Usr.extend user_machine \<lparr> k_services = (\<lambda>_. None) \<rparr>"

lemma svc_machine_simps [simp]:
  "k_cpus svc_machine = k_cpus user_machine" "k_tasks svc_machine = k_tasks user_machine"
  "k_endpoints svc_machine = k_endpoints user_machine" "k_umem svc_machine = k_umem user_machine"
  "k_services svc_machine = (\<lambda>_. None)"
  by (simp_all add: svc_machine_def Usr.defs)

lemma user_machine_view: "user_view user_machine 0 = Some (0x1000, Some (Some (User, sample_space)))"
  using user_machine_cpu by (simp add: user_view_def user_task_def) (simp add: sample_cpu_def)

theorem service_register_lookup_witness:
  "\<exists>k1 k2. sys_register_service list_set_ops x86_arith_ops 0 0x4100 5 1 svc_machine = Some (SVC_OK, k1) \<and>
    sys_lookup_service list_set_ops x86_arith_ops 0 0x4100 5 0x6000 k1 = Some (SVC_OK, k2) \<and>
    bytes_nat (mem_read 0x6000 8 (k_umem k2 0x1000)) = 1"
proof -
  have v: "user_view svc_machine 0 = Some (0x1000, Some (Some (User, sample_space)))"
    using user_machine_view user_view_cong [of svc_machine user_machine 0] by simp
  have "validate_user_ptr S X 0 a b svc_machine = validate_user_ptr S X 0 a b user_machine" for S X a b
    by (rule validate_user_ptr_view) (simp_all add: v user_machine_view)
  note val = user_machine_valid(1,3) [folded this]
  have g: "get_cpu svc_machine 0 = Some (sample_cpu 0 (Some 1) [])" using user_machine_cpu(1) get_cpu_cong [of svc_machine user_machine 0] by simp
  have e: "k_endpoints svc_machine 1 = Some \<lparr> ep_role = Send, ep_channel = 0 \<rparr>" by (simp add: user_machine_def)
  have n: "0 < (5::nat)" "5 \<le> MAX_SERVICE_NAME_LEN" "1 < U64_LIMIT" by (simp_all add: MAX_SERVICE_NAME_LEN_def U64_LIMIT_num)
  show ?thesis
    using service_register_lookup [OF v g user_machine_cpu(2) _ n(1,2) val(1) e n(3) _ v n(1,2) val(1,2)] by auto
qed

end
