(* ===== verification/Task_Syscalls.thy ===== *)
theory Task_Syscalls
  imports Services
begin

text \<open>
  The task system calls of \<^verbatim>\<open>syscall_handlers/task.rs\<close>: exit with its clean-up, yield, and
  waiting for another task. As for channels, one definition models one iteration of a blocking loop.
  Collecting a zombie removes it from the task table. When that entry is its last reference the task
  is destroyed there, outside its own address space and stack; what the destructor does to the memory
  is \<open>drop_task\<close> of the theory \<open>Spawn\<close>, and these definitions, whose state has no page tables, do not
  repeat it. The other place where a last reference is dropped is the scheduler.
  \<^verbatim>\<open>sys_spawn\<close> is with the program loader.
\<close>

section \<open>Operations\<close>

primrec close_endpoints :: "nat list \<Rightarrow> ('s, 'z) Ipc_scheme \<Rightarrow> ('s, 'z) Ipc_scheme" where
  "close_endpoints [] k = k"
| "close_endpoints (ep # eps) k = close_endpoints eps (snd (close_endpoint ep k))"

text \<open>\<^verbatim>\<open>sys_exit\<close> does not return; the result is the state in which its CPU halts.\<close>

definition sys_exit :: "nat \<Rightarrow> nat \<Rightarrow> ('s, 'z) Svc_scheme \<Rightarrow> ('s, 'z) Svc_scheme rust" where
  "sys_exit c exit_code k =
     do { cpu \<leftarrow> get_cpu k c;
          rq \<leftarrow> unwrap (run_queue cpu);
          case current_task rq of
            None \<Rightarrow> Some k
          | Some t \<Rightarrow>
              do { x \<leftarrow> unwrap (k_tasks k t);
                   let k1 = close_endpoints (ti_owned_endpoints (t_inner x)) k;
                   let k2 = unregister_all_for_task t k1;
                   let k3 = upd_task t (\<lambda>x. x \<lparr> t_exit_code := exit_code \<rparr>) k2;
                   let k4 = set_task_state t Zombie k3;
                   case t_exit_waiter x of
                     Some (w, w_cpu) \<Rightarrow>
                       wake_task c w w_cpu (upd_task t (\<lambda>x. x \<lparr> t_exit_waiter := None \<rparr>) k4)
                   | None \<Rightarrow> Some (k4 \<lparr> k_task_table := k_task_table k4 - {t} \<rparr>) } }"

definition sys_yield :: "nat \<Rightarrow> ('s, 'z) Sched_scheme \<Rightarrow> ('s, 'z) Sched_scheme rust" where
  "sys_yield c k = set_fallback_rax c 0 k"

definition waitpid_iter ::
    "nat \<Rightarrow> nat \<Rightarrow> nat \<Rightarrow> ('s, 'z) Usr_scheme \<Rightarrow> (sys_outcome \<times> ('s, 'z) Usr_scheme) rust" where
  "waitpid_iter c target_id exit_code_out_ptr k =
     (if target_id \<notin> k_task_table k then Some (Done 1, k)
      else
        do { target \<leftarrow> unwrap (k_tasks k target_id);
             if t_state target = Zombie
             then do { let k1 = k \<lparr> k_task_table := k_task_table k - {target_id} \<rparr>;
                       k2 \<leftarrow> user_write c exit_code_out_ptr (u64_bytes (t_exit_code target)) k1;
                       Some (Done 0, k2) }
             else
               do { cur \<leftarrow> current_task_and_cpu k c;
                    Some (Blocked, case cur of
                      None \<Rightarrow> k
                    | Some (self_task, cpu_id) \<Rightarrow>
                        set_task_state self_task Sleeping
                          (upd_task target_id (\<lambda>x. x \<lparr> t_exit_waiter := Some (self_task, cpu_id) \<rparr>) k)) } })"

definition sys_waitpid ::
    "'s nodit_set_ops \<Rightarrow> x86_ops \<Rightarrow> nat \<Rightarrow> nat \<Rightarrow> nat \<Rightarrow> ('s, 'z) Usr_scheme \<Rightarrow>
     (sys_outcome \<times> ('s, 'z) Usr_scheme) rust" where
  "sys_waitpid S X c target_id exit_code_out_ptr k =
     do { valid \<leftarrow> validate_user_ptr S X c exit_code_out_ptr 8 k;
          if \<not> valid then Some (Done 1, k)
          else waitpid_iter c target_id exit_code_out_ptr k }"

section \<open>Lemmas\<close>

text \<open>Closing one endpoint changes the registry at that endpoint only, and leaves tasks, CPUs and
  everything of later components alone.\<close>

lemma close_endpoint_frame:
  fixes k :: "('s, 'z) Ipc_scheme"
  shows "\<exists>chs. snd (close_endpoint e k) = k \<lparr> k_endpoints := (k_endpoints k)(e := None), k_channels := chs \<rparr>"
proof (cases "k_endpoints k e")
  case None
  then have "(k_endpoints k)(e := None) = k_endpoints k" by auto
  then show ?thesis using None by (intro exI [of _ "k_channels k"]) (simp add: close_endpoint_def)
next
  case (Some ep)
  then show ?thesis by (cases "ep_role ep") (auto simp: close_endpoint_def upd_channel_def Let_def)
qed

lemma close_endpoints_frame:
  fixes k :: "('s, 'z) Ipc_scheme"
  shows "\<exists>chs. close_endpoints eps k = k \<lparr> k_endpoints := (k_endpoints k) |` (- set eps), k_channels := chs \<rparr>"
proof (induction eps arbitrary: k)
  case Nil
  show ?case by (intro exI [of _ "k_channels k"]) (simp add: restrict_map_def)
next
  case (Cons e eps)
  obtain c1 where 1: "snd (close_endpoint e k) = k \<lparr> k_endpoints := (k_endpoints k)(e := None), k_channels := c1 \<rparr>"
    using close_endpoint_frame by blast
  obtain c2 where 2: "close_endpoints eps (snd (close_endpoint e k)) =
      snd (close_endpoint e k) \<lparr> k_endpoints := (k_endpoints (snd (close_endpoint e k))) |` (- set eps), k_channels := c2 \<rparr>"
    using Cons.IH by blast
  have "((k_endpoints k)(e := None)) |` (- set eps) = (k_endpoints k) |` (- set (e # eps))"
    by (auto simp: restrict_map_def fun_eq_iff)
  then show ?case using 2 by (intro exI [of _ c2]) (simp add: 1)
qed

lemma close_endpoints_ok: "ipc_ok k \<Longrightarrow> ipc_ok (close_endpoints eps k)"
  by (induction eps arbitrary: k) (simp_all add: close_endpoint_ok)

text \<open>The state in which an exiting task's CPU halts, before the waiter is told.\<close>

definition exited :: "nat \<Rightarrow> 's Task \<Rightarrow> nat \<Rightarrow> ('s, 'z) Svc_scheme \<Rightarrow> ('s, 'z) Svc_scheme" where
  "exited t x code k =
     unregister_all_for_task t (close_endpoints (ti_owned_endpoints (t_inner x)) k)
       \<lparr> k_tasks := (k_tasks k)(t \<mapsto> x \<lparr> t_exit_code := code, t_state := Zombie, t_exit_waiter := None \<rparr>) \<rparr>"

lemma exited_frame:
  fixes k :: "('s, 'z) Svc_scheme"
  shows "\<exists>chs. exited t x code k = k \<lparr> k_endpoints := (k_endpoints k) |` (- set (ti_owned_endpoints (t_inner x))), k_channels := chs,
    k_services := (\<lambda>name. case k_services k name of None \<Rightarrow> None
                          | Some entry \<Rightarrow> if owner_task_id entry \<noteq> t then Some entry else None),
    k_tasks := (k_tasks k)(t \<mapsto> x \<lparr> t_exit_code := code, t_state := Zombie, t_exit_waiter := None \<rparr>) \<rparr>"
proof -
  obtain chs where "close_endpoints (ti_owned_endpoints (t_inner x)) k = k \<lparr> k_endpoints :=
      (k_endpoints k) |` (- set (ti_owned_endpoints (t_inner x))), k_channels := chs \<rparr>"
    using close_endpoints_frame by blast
  then show ?thesis by (intro exI [of _ chs]) (simp add: exited_def unregister_all_for_task_def)
qed

lemma exited_simps:
  "k_cpus (exited t x code k) = k_cpus k" "k_umem (exited t x code k) = k_umem k"
  "k_task_table (exited t x code k) = k_task_table k"
  "k_tasks (exited t x code k) = (k_tasks k)(t \<mapsto> x \<lparr> t_exit_code := code, t_state := Zombie, t_exit_waiter := None \<rparr>)"
  "k_endpoints (exited t x code k) = (k_endpoints k) |` (- set (ti_owned_endpoints (t_inner x)))"
  "k_services (exited t x code k) n = Some e \<longleftrightarrow> k_services k n = Some e \<and> owner_task_id e \<noteq> t"
proof -
  obtain chs where e: "exited t x code k = k \<lparr> k_endpoints := (k_endpoints k) |` (- set (ti_owned_endpoints (t_inner x))), k_channels := chs,
    k_services := (\<lambda>name. case k_services k name of None \<Rightarrow> None
                          | Some entry \<Rightarrow> if owner_task_id entry \<noteq> t then Some entry else None),
    k_tasks := (k_tasks k)(t \<mapsto> x \<lparr> t_exit_code := code, t_state := Zombie, t_exit_waiter := None \<rparr>) \<rparr>"
    using exited_frame by blast
  show "k_cpus (exited t x code k) = k_cpus k" "k_umem (exited t x code k) = k_umem k"
    "k_task_table (exited t x code k) = k_task_table k"
    "k_tasks (exited t x code k) = (k_tasks k)(t \<mapsto> x \<lparr> t_exit_code := code, t_state := Zombie, t_exit_waiter := None \<rparr>)"
    "k_endpoints (exited t x code k) = (k_endpoints k) |` (- set (ti_owned_endpoints (t_inner x)))"
    by (simp_all add: e)
  show "k_services (exited t x code k) n = Some e \<longleftrightarrow> k_services k n = Some e \<and> owner_task_id e \<noteq> t"
    by (auto simp: e split: option.splits if_splits)
qed

text \<open>Changing tasks without touching what the hardware sees of them keeps the invariant.\<close>

lemma ipc_ok_same:
  assumes "ipc_ok k" "same_tasks (k_tasks k) (k_tasks k')" "k_cpus k' = k_cpus k" "k_endpoints k' = k_endpoints k"
    "k_channels k' = k_channels k" "k_next_endpoint_id k' = k_next_endpoint_id k" "k_next_channel k' = k_next_channel k"
  shows "ipc_ok k'"
proof -
  have rq: "rq_ready k' d = rq_ready k d" for d by (rule rq_ready_cong) fact
  have "channel_ok k' chan" if "channel_ok k chan" for chan by (rule channel_ok_cong [OF that assms(2) rq])
  moreover have "sched_ok k'" by (rule sched_ok_same_tasks [OF ipc_okD(1) [OF assms(1)] assms(2,3)])
  ultimately show ?thesis using assms(1) unfolding ipc_ok_def assms(4-7) by blast
qed

lemma exited_ok:
  assumes "ipc_ok k" "k_tasks k t = Some x"
  shows "ipc_ok (exited t x code k)"
proof -
  let ?k1 = "close_endpoints (ti_owned_endpoints (t_inner x)) k"
  have k1: "k_tasks ?k1 = k_tasks k" using close_endpoints_frame [of "ti_owned_endpoints (t_inner x)" k] by auto
  have st: "same_tasks (k_tasks ?k1) (k_tasks (exited t x code k))"
    unfolding k1 exited_simps(4) by (rule same_tasks_one [where x = x]) (simp_all add: assms(2), simp add: t_core_def)
  show ?thesis
    by (rule ipc_ok_same [OF close_endpoints_ok [OF assms(1)] st])
      (simp_all add: exited_def unregister_all_for_task_def)
qed

lemma sys_exit_eq:
  assumes "get_cpu k c = Some cpu" "run_queue cpu = Some rq" "current_task rq = Some t" "k_tasks k t = Some x"
  shows "sys_exit c code k = (case t_exit_waiter x of
      Some (w, g) \<Rightarrow> wake_task c w g (exited t x code k)
    | None \<Rightarrow> Some (exited t x code k \<lparr> k_task_table := k_task_table k - {t} \<rparr>))"
proof -
  let ?k2 = "unregister_all_for_task t (close_endpoints (ti_owned_endpoints (t_inner x)) k)"
  have f: "k_tasks ?k2 = k_tasks k" "k_task_table ?k2 = k_task_table k"
    using close_endpoints_frame [of "ti_owned_endpoints (t_inner x)" k] by (auto simp: unregister_all_for_task_def)
  show ?thesis
  proof (cases "t_exit_waiter x")
    case None
    then have "x \<lparr> t_exit_code := code, t_state := Zombie, t_exit_waiter := None \<rparr> = x \<lparr> t_exit_code := code, t_state := Zombie \<rparr>"
      by (cases x) simp
    then have "exited t x code k = ?k2 \<lparr> k_tasks := (k_tasks k)(t \<mapsto> x \<lparr> t_exit_code := code, t_state := Zombie \<rparr>) \<rparr>"
      unfolding exited_def by (rule arg_cong)
    then show ?thesis using assms None f
      by (simp add: sys_exit_def Let_def set_task_state_def upd_task_def)
  next
    case (Some w)
    then show ?thesis using assms f
      by (cases w) (simp add: sys_exit_def exited_def Let_def set_task_state_def upd_task_def)
  qed
qed

lemma user_view_tasks:
  fixes k k' :: "('s, 'z) Sched_scheme"
  assumes "k_cpus k' = k_cpus k"
    "\<And>n. map_option (\<lambda>x. (t_kind x, ti_user_vaddr_set (t_inner x))) (k_tasks k' n)
        = map_option (\<lambda>x. (t_kind x, ti_user_vaddr_set (t_inner x))) (k_tasks k n)"
  shows "user_view k' d = user_view k d"
  using assms by (simp add: user_view_def get_cpu_def)

lemma exited_view: "k_tasks k t = Some x \<Longrightarrow> user_view (exited t x code k) d = user_view k d"
  by (rule user_view_tasks) (simp_all add: exited_simps)

lemma ipc_ok_wake:
  assumes "ipc_ok k" "rq_ready k c" "waiter_ok k (w, g)"
  shows "\<exists>k'. wake_task c w g k = Some k' \<and> ipc_ok k' \<and> mset (placed k') = add_mset w (mset (placed k))"
proof -
  from assms(2) obtain lcpu where l: "get_cpu k c = Some lcpu" by (auto simp: rq_ready_def)
  from assms(3) obtain cpu rq x where "get_cpu k g = Some cpu" "run_queue cpu = Some rq"
      "k_tasks k w = Some x" "task_ok x" by (auto simp: waiter_ok_def rq_ready_def task_live_def)
  from wake_task_ok [OF ipc_okD(1) [OF assms(1)] l this] obtain k' where
    k': "wake_task c w g k = Some k'" "sched_ok k'" "mset (placed k') = add_mset w (mset (placed k))" by blast
  note f = wake_task_frame [OF k'(1)]
  from f(1) have e: "k_endpoints k' = k_endpoints k" "k_channels k' = k_channels k"
    "k_next_endpoint_id k' = k_next_endpoint_id k" "k_next_channel k' = k_next_channel k" by auto
  have "channel_ok k' chan" if "channel_ok k chan" for chan by (rule channel_ok_cong [OF that f(3,2)])
  then have "ipc_ok k'" using assms(1) k'(2) unfolding ipc_ok_def e by blast
  then show ?thesis using k'(1,3) by blast
qed

text \<open>An exiting task with a waiter: the waiter is woken in the state the exit leaves.\<close>

lemma exit_wakes:
  assumes "ipc_ok k" "get_cpu k c = Some cpu" "run_queue cpu = Some rq" "current_task rq = Some t"
    "k_tasks k t = Some x" "t_exit_waiter x = Some (w, g)" "waiter_ok k (w, g)" "w \<noteq> t"
  shows "\<exists>k'. sys_exit c code k = Some k' \<and> ipc_ok k' \<and> wake_task c w g (exited t x code k) = Some k' \<and>
    k_tasks k' t = Some (x \<lparr> t_exit_code := code, t_state := Zombie, t_exit_waiter := None \<rparr>) \<and>
    k_task_table k' = k_task_table k \<and> k_umem k' = k_umem k \<and>
    k_endpoints k' = (k_endpoints k) |` (- set (ti_owned_endpoints (t_inner x))) \<and>
    k_services k' = k_services (exited t x code k) \<and>
    mset (placed k') = add_mset w (mset (placed k)) \<and> (\<forall>d. user_view k' d = user_view k d)"
proof -
  let ?e = "exited t x code k"
  have "rq_ready k c" using assms(2,3) by (auto simp: rq_ready_def)
  then have rq: "rq_ready ?e c" using rq_ready_cong [of ?e k c] exited_simps(1) by blast
  have "same_tasks (k_tasks k) (k_tasks ?e)"
    unfolding exited_simps(4) by (rule same_tasks_one [where x = x]) (simp_all add: assms(5), simp add: t_core_def)
  then have "waiter_ok ?e (w, g)"
    using assms(7) task_live_same rq_ready_cong [of ?e k g, OF exited_simps(1)] unfolding waiter_ok_def by auto
  from ipc_ok_wake [OF exited_ok [OF assms(1,5)] rq this] obtain k' where
    k': "wake_task c w g ?e = Some k'" "ipc_ok k'" "mset (placed k') = add_mset w (mset (placed ?e))" by blast
  have pl: "placed ?e = placed k" by (rule placed_cong) (simp add: exited_simps)
  from wake_task_frame(1) [OF k'(1)] obtain cs ms where
    f: "k' = ?e \<lparr> k_cpus := cs, k_tasks := k_tasks (set_task_state w Ready ?e), k_ipis := ms \<rparr>" by blast
  have "k_tasks (set_task_state w Ready ?e) t = k_tasks ?e t"
    using assms(8) by (simp add: set_task_state_def upd_task_def)
  then have "k_tasks k' t = Some (x \<lparr> t_exit_code := code, t_state := Zombie, t_exit_waiter := None \<rparr>)"
    by (simp add: f exited_simps)
  moreover have "k_task_table k' = k_task_table k" "k_umem k' = k_umem k" "k_services k' = k_services ?e"
    "k_endpoints k' = (k_endpoints k) |` (- set (ti_owned_endpoints (t_inner x)))"
    by (simp_all add: f exited_simps)
  moreover have "user_view k' d = user_view k d" for d
    using wake_task_view [OF k'(1)] exited_view [OF assms(5)] by simp
  ultimately show ?thesis using k' pl sys_exit_eq [OF assms(2-5), of code] assms(6) by auto
qed

lemma exit_detached:
  fixes code :: nat
  assumes "ipc_ok k" "get_cpu k c = Some cpu" "run_queue cpu = Some rq" "current_task rq = Some t"
    "k_tasks k t = Some x" "t_exit_waiter x = None"
  defines "k' \<equiv> exited t x code k \<lparr> k_task_table := k_task_table k - {t} \<rparr>"
  shows "sys_exit c code k = Some k'" "ipc_ok k'" "user_view k' d = user_view k d"
proof -
  show "sys_exit c code k = Some k'" using sys_exit_eq [OF assms(2-5), of code] assms(6) by (simp add: k'_def)
  show "ipc_ok k'" by (rule ipc_ok_same [OF exited_ok [OF assms(1,5), of code]]) (simp_all add: k'_def)
  show "user_view k' d = user_view k d"
    using exited_view [OF assms(5), of code d] user_view_cong [of k' "exited t x code k" d] by (simp add: k'_def)
qed

lemma waitpid_gone: "validate_user_ptr S X d out 8 k = Some True \<Longrightarrow> t \<notin> k_task_table k \<Longrightarrow>
  sys_waitpid S X d t out k = Some (Done 1, k)"
  by (simp add: sys_waitpid_def waitpid_iter_def)

lemma waitpid_zombie:
  assumes "user_view k d = Some (cr3, v)" "validate_user_ptr S X d out 8 k = Some True" "t \<in> k_task_table k"
    "k_tasks k t = Some y" "t_state y = Zombie"
  shows "sys_waitpid S X d t out k = Some (Done 0, k \<lparr> k_task_table := k_task_table k - {t},
    k_umem := (k_umem k)(cr3 := mem_write out (u64_bytes (t_exit_code y)) (k_umem k cr3)) \<rparr>)"
proof -
  have "user_view (k \<lparr> k_task_table := k_task_table k - {t} \<rparr>) d = Some (cr3, v)"
    using user_view_cong [of "k \<lparr> k_task_table := k_task_table k - {t} \<rparr>" k d] assms(1) by simp
  from user_write_eq [OF this] show ?thesis using assms(2-5) by (simp add: sys_waitpid_def waitpid_iter_def Let_def)
qed

section \<open>Properties\<close>

text \<open>C33. Exit releases what the task holds. It never panics and keeps the kernel's invariant; after
  it every endpoint the task owned is gone and every other endpoint is as before, no service is
  registered to the task while every other registration remains, and the task is a zombie with its
  exit code. A task that nobody waits for leaves the task table; one with a waiter stays in it, and
  the waiter is put in a run queue.\<close>

theorem exit_releases:
  assumes "ipc_ok k" "get_cpu k c = Some cpu" "run_queue cpu = Some rq" "current_task rq = Some t"
    "k_tasks k t = Some x" "\<And>w g. t_exit_waiter x = Some (w, g) \<Longrightarrow> w \<noteq> t \<and> waiter_ok k (w, g)"
  shows "\<exists>k'. sys_exit c code k = Some k' \<and> ipc_ok k' \<and>
    k_endpoints k' = (k_endpoints k) |` (- set (ti_owned_endpoints (t_inner x))) \<and>
    (\<forall>n e. k_services k' n = Some e \<longleftrightarrow> k_services k n = Some e \<and> owner_task_id e \<noteq> t) \<and>
    k_tasks k' t = Some (x \<lparr> t_exit_code := code, t_state := Zombie, t_exit_waiter := None \<rparr>) \<and>
    (case t_exit_waiter x of
       None \<Rightarrow> k_task_table k' = k_task_table k - {t} \<and> placed k' = placed k
     | Some (w, g) \<Rightarrow> k_task_table k' = k_task_table k \<and> mset (placed k') = add_mset w (mset (placed k)))"
proof (cases "t_exit_waiter x")
  case None
  note d = exit_detached [OF assms(1-5) None, of code]
  have "placed (exited t x code k \<lparr> k_task_table := k_task_table k - {t} \<rparr>) = placed k"
    by (rule placed_cong) (simp add: exited_simps)
  then show ?thesis using d None by (simp add: exited_simps)
next
  case (Some wg)
  obtain w g where wg: "wg = (w, g)" by (cases wg)
  have w: "w \<noteq> t" "waiter_ok k (w, g)" using assms(6) Some wg by auto
  from exit_wakes [OF assms(1-5) Some [unfolded wg] w(2,1), of code] obtain k' where
    k': "sys_exit c code k = Some k'" "ipc_ok k'" "mset (placed k') = add_mset w (mset (placed k))"
      "k_tasks k' t = Some (x \<lparr> t_exit_code := code, t_state := Zombie, t_exit_waiter := None \<rparr>)"
      "k_task_table k' = k_task_table k" "k_endpoints k' = (k_endpoints k) |` (- set (ti_owned_endpoints (t_inner x)))"
      "k_services k' = k_services (exited t x code k)" by blast
  then show ?thesis using Some wg by (simp add: exited_simps)
qed

text \<open>A machine with two CPUs: task 1 runs on the first, owns both ends of the channel and has
  registered a service; task 2 runs on the second.\<close>

definition exit_task :: "nat \<Rightarrow> (nat \<times> nat) option \<Rightarrow> (interval \<times> unit) list Task" where
  "exit_task i w = user_task \<lparr> t_inner := t_inner user_task \<lparr> ti_kernel_stack_top := 0x10000 * i,
       ti_owned_endpoints := [1, 2] \<rparr>, t_id := i, t_cr3 := 0x1000 * i, t_exit_waiter := w \<rparr>"

definition exit_machine :: "(nat \<times> nat) option \<Rightarrow> (interval \<times> unit) list Svc" where
  "exit_machine w = svc_machine \<lparr>
     k_cpus := [Some (sample_cpu 0 (Some 1) []), Some (sample_cpu 1 (Some 2) [])],
     k_tasks := [1 \<mapsto> exit_task 1 w, 2 \<mapsto> exit_task 2 None], k_task_table := {1, 2},
     k_services := [service_name [7] \<mapsto> \<lparr> send_endpoint_id = 1, owner_task_id = 1 \<rparr>] \<rparr>"

lemma exit_machine_cpu:
  "get_cpu (exit_machine w) 0 = Some (sample_cpu 0 (Some 1) [])"
  "get_cpu (exit_machine w) 1 = Some (sample_cpu 1 (Some 2) [])"
  "run_queue (sample_cpu i (Some n) []) = Some \<lparr> current_task = Some n, ready = [] \<rparr>"
  "k_tasks (exit_machine w) 1 = Some (exit_task 1 w)"
  by (simp_all add: get_cpu_def exit_machine_def sample_cpu_def)

lemma exit_machine_ok: "ipc_ok (exit_machine w)"
proof -
  have t: "task_ok (exit_task i v)" if "i = 1 \<or> i = 2" for i v
    using that by (auto simp: task_ok_def exit_task_def user_task_def canonical_num PHYS_LIMIT_num SIZE_4KIB_def)
  have "cpu_ok (k_tasks (exit_machine w)) i (sample_cpu i (Some (Suc i)) [])" if "i = 0 \<or> i = 1" for i
  proof (rule cpu_okI [OF _ exit_machine_cpu(3)])
    show "\<exists>x. k_tasks (exit_machine w) u = Some x \<and> task_ok x"
      if "u \<in> set (rq_tasks \<lparr> current_task = Some (Suc i), ready = [] \<rparr>)" for u
      using that \<open>i = 0 \<or> i = 1\<close> t by (auto simp: rq_tasks_def exit_machine_def)
    show "hw_cr3 (sample_cpu i (Some (Suc i)) []) = t_cr3 x \<and>
        tss_rsp0 (sample_cpu i (Some (Suc i)) []) = Some (ti_kernel_stack_top (t_inner x)) \<and>
        current_task_kernel_stack_top (sample_cpu i (Some (Suc i)) []) = ti_kernel_stack_top (t_inner x)"
      if "current_task \<lparr> current_task = Some (Suc i), ready = [] \<rparr> = Some u" "k_tasks (exit_machine w) u = Some x" for u x
      using that \<open>i = 0 \<or> i = 1\<close> by (auto simp: exit_machine_def exit_task_def sample_cpu_def)
  qed (simp_all add: sample_cpu_def)
  from this [of 0] this [of 1] have "sched_ok (exit_machine w)"
    by (auto simp: sched_ok_def exit_machine_def less_Suc_eq numeral_2_eq_2)
  then show ?thesis
    by (auto simp: ipc_ok_def exit_machine_def svc_machine_def Usr.defs user_machine_def channel_ok_def chan_ok_def
        MAX_CHANNEL_CAPACITY_def split: if_splits)
qed

lemma exit_machine_waiter: "waiter_ok (exit_machine w) (2, 1)"
proof -
  have "task_ok (exit_task 2 None)"
    by (simp add: task_ok_def exit_task_def user_task_def canonical_num PHYS_LIMIT_num SIZE_4KIB_def)
  then show ?thesis using exit_machine_cpu(2) [of w] exit_machine_cpu(3)
    by (auto simp: waiter_ok_def rq_ready_def task_live_def) (simp add: exit_machine_def)
qed

theorem exit_releases_witness:
  "(\<exists>k'. sys_exit 0 42 (exit_machine None) = Some k' \<and> k_endpoints k' = Map.empty \<and> k_task_table k' = {2}) \<and>
   (\<exists>k'. sys_exit 0 42 (exit_machine (Some (2, 1))) = Some k' \<and> k_endpoints k' = Map.empty \<and> k_task_table k' = {1, 2})"
proof -
  have e: "k_endpoints (exit_machine w) |` (- set (ti_owned_endpoints (t_inner (exit_task 1 w)))) = Map.empty" for w
    by (auto simp: exit_machine_def svc_machine_def Usr.defs user_machine_def exit_task_def restrict_map_def fun_eq_iff)
  have t: "k_task_table (exit_machine w) = {1, 2}" "t_exit_waiter (exit_task 1 w) = w" for w
    by (simp_all add: exit_machine_def exit_task_def)
  show ?thesis
    using exit_releases [OF exit_machine_ok exit_machine_cpu(1) exit_machine_cpu(3) _ exit_machine_cpu(4), of None 42]
      exit_releases [OF exit_machine_ok exit_machine_cpu(1) exit_machine_cpu(3) _ exit_machine_cpu(4), of "Some (2, 1)" 42]
      exit_machine_waiter [of "Some (2, 1)"]
    unfolding e t by auto
qed

text \<open>C34. The exit status reaches a parent only if it was waiting. When a task was waiting for the
  one that exits, a wait by any program through a valid pointer after the exit returns success, its
  output word holds the exit code, and the dead task leaves the task table. When nobody was waiting,
  the same call fails and the exit code is lost.\<close>

theorem exit_status_collected:
  assumes "ipc_ok k" "get_cpu k c = Some cpu" "run_queue cpu = Some rq" "current_task rq = Some t"
    "k_tasks k t = Some x" "\<And>w g. t_exit_waiter x = Some (w, g) \<Longrightarrow> w \<noteq> t \<and> waiter_ok k (w, g)"
    "t \<in> k_task_table k" "code < U64_LIMIT"
    "user_view k d = Some (cr3, v)" "validate_user_ptr S X d out 8 k = Some True"
  shows "\<exists>k'. sys_exit c code k = Some k' \<and>
    (if t_exit_waiter x = None then sys_waitpid S X d t out k' = Some (Done 1, k')
     else \<exists>k''. sys_waitpid S X d t out k' = Some (Done 0, k'') \<and> t \<notin> k_task_table k'' \<and>
            bytes_nat (mem_read out 8 (k_umem k'' cr3)) = code)"
proof (cases "t_exit_waiter x")
  case None
  note e = exit_detached [OF assms(1-5) None, of code]
  let ?k' = "exited t x code k \<lparr> k_task_table := k_task_table k - {t} \<rparr>"
  have "validate_user_ptr S X d out 8 ?k' = Some True"
    using validate_user_ptr_view [OF e(3)] assms(9,10) by simp
  then have "sys_waitpid S X d t out ?k' = Some (Done 1, ?k')" by (rule waitpid_gone) simp
  then show ?thesis using e(1) None by simp
next
  case (Some wg)
  obtain w g where wg: "wg = (w, g)" by (cases wg)
  have w: "w \<noteq> t" "waiter_ok k (w, g)" using assms(6) Some wg by auto
  from exit_wakes [OF assms(1-5) Some [unfolded wg] w(2,1), of code] obtain k' where
    k': "sys_exit c code k = Some k'" "k_task_table k' = k_task_table k" "user_view k' d = user_view k d"
      "k_tasks k' t = Some (x \<lparr> t_exit_code := code, t_state := Zombie, t_exit_waiter := None \<rparr>)" by blast
  have v: "validate_user_ptr S X d out 8 k' = Some True"
    using validate_user_ptr_view [OF k'(3)] assms(9,10) by simp
  have "t \<in> k_task_table k'" using assms(7) k'(2) by simp
  from waitpid_zombie [OF k'(3) [unfolded assms(9)] v this k'(4)] show ?thesis
    using k'(1) Some bytes_nat_u64 [OF assms(8)] by simp
qed

lemma exit_machine_view: "user_view (exit_machine w) 1 = Some (0x2000, Some (Some (User, sample_space)))"
  using exit_machine_cpu(2) [of w] exit_machine_cpu(3) [of 1 2]
  by (simp add: user_view_def) (simp add: sample_cpu_def exit_machine_def exit_task_def user_task_def)

lemma exit_machine_valid: "validate_user_ptr list_set_ops x86_arith_ops 1 0x6000 8 (exit_machine w) = Some True"
proof -
  have "space_used list_set_ops sample_space 0x6000 8"
    by (auto simp: space_used_def sample_space_def list_set_ops_def)
  moreover have x: "k_tasks (exit_machine w) 2 = Some (exit_task 2 None)" by (simp add: exit_machine_def)
  moreover have s: "ivls_ok (ti_user_vaddr_set (t_inner (exit_task 2 None)))"
    using sample_space_ok by (simp add: exit_task_def user_task_def)
  ultimately show ?thesis
    using validate_user_ptr_spec [OF list_space.page_space_axioms exit_machine_cpu(2,3) _ x s, of "0x6000" 8]
    by (simp add: USER_MAX_def USER_MIN_def LOWER_HALF_END_def exit_task_def user_task_def)
qed

theorem exit_status_collected_witness:
  "(\<exists>k'. sys_exit 0 42 (exit_machine None) = Some k' \<and>
      sys_waitpid list_set_ops x86_arith_ops 1 1 0x6000 k' = Some (Done 1, k')) \<and>
   (\<exists>k' k''. sys_exit 0 42 (exit_machine (Some (2, 1))) = Some k' \<and>
      sys_waitpid list_set_ops x86_arith_ops 1 1 0x6000 k' = Some (Done 0, k'') \<and>
      bytes_nat (mem_read 0x6000 8 (k_umem k'' 0x2000)) = 42)"
proof -
  have t: "1 \<in> k_task_table (exit_machine w)" "t_exit_waiter (exit_task 1 w) = w" for w
    by (simp_all add: exit_machine_def exit_task_def)
  have c: "42 < U64_LIMIT" by (simp add: U64_LIMIT_num)
  note e = exit_status_collected [OF exit_machine_ok exit_machine_cpu(1) exit_machine_cpu(3) _ exit_machine_cpu(4) _ t(1) c
      exit_machine_view exit_machine_valid]
  show ?thesis using e [of None] e [of "Some (2, 1)"] exit_machine_waiter [of "Some (2, 1)"] t(2) by auto
qed


text \<open>The machine with a third task queued behind task 1, and task 2 on no CPU.\<close>

definition queued_machine :: "(nat \<times> nat) option \<Rightarrow> (interval \<times> unit) list Svc" where
  "queued_machine w = exit_machine w \<lparr> k_cpus := [Some (sample_cpu 0 (Some 1) [3]), Some (sample_cpu 1 None [])],
     k_tasks := [1 \<mapsto> exit_task 1 w, 2 \<mapsto> exit_task 2 None, 3 \<mapsto> exit_task 3 None], k_task_table := {1, 2, 3} \<rparr>"

lemma exit_task_ok: "i \<le> 3 \<Longrightarrow> task_ok (exit_task i v)"
  by (auto simp: task_ok_def exit_task_def user_task_def canonical_num PHYS_LIMIT_num SIZE_4KIB_def)

lemma queued_machine_cpu:
  "get_cpu (queued_machine w) 0 = Some (sample_cpu 0 (Some 1) [3])" "get_cpu (queued_machine w) 1 = Some (sample_cpu 1 None [])"
  "run_queue (sample_cpu 0 (Some 1) [3]) = Some \<lparr> current_task = Some 1, ready = [3] \<rparr>"
  "run_queue (sample_cpu 1 None []) = Some \<lparr> current_task = None, ready = [] \<rparr>"
  "k_tasks (queued_machine w) 1 = Some (exit_task 1 w)" "k_tasks (queued_machine w) 2 = Some (exit_task 2 None)"
  by (simp_all add: get_cpu_def queued_machine_def sample_cpu_def)

lemma queued_machine_ok: "ipc_ok (queued_machine w)"
proof -
  have "cpu_ok (k_tasks (queued_machine w)) 0 (sample_cpu 0 (Some 1) [3])"
    by (rule cpu_okI) (auto simp: sample_cpu_def queued_machine_def rq_tasks_def U64_LIMIT_num exit_task_ok,
        simp_all add: exit_task_def)
  moreover have "cpu_ok (k_tasks (queued_machine w)) 1 (sample_cpu 1 None [])"
    by (rule cpu_okI) (auto simp: sample_cpu_def rq_tasks_def)
  ultimately have "sched_ok (queued_machine w)"
    by (auto simp: sched_ok_def queued_machine_def less_Suc_eq numeral_2_eq_2)
  then show ?thesis
    by (auto simp: ipc_ok_def queued_machine_def exit_machine_def svc_machine_def Usr.defs user_machine_def channel_ok_def
        chan_ok_def MAX_CHANNEL_CAPACITY_def split: if_splits)
qed

lemma queued_machine_waiter: "waiter_ok (queued_machine w) (2, 1)"
  using queued_machine_cpu(2,4,6) exit_task_ok [of 2] by (auto simp: waiter_ok_def rq_ready_def task_live_def)


text \<open>Waiting for a live task blocks: the caller sleeps and is recorded as the task's waiter, and
  nothing else changes. In particular a waiter recorded before is forgotten, although it still sleeps,
  and the caller's saved registers are left as they were at the system call's entry, so that the
  return value it sees when it is resumed from there is not one this call has set.\<close>

theorem waitpid_blocks:
  assumes "sched_ok k" "get_cpu k c = Some cpu" "run_queue cpu = Some rq" "current_task rq = Some t" "k_tasks k t = Some x"
    "n \<in> k_task_table k" "k_tasks k n = Some y" "t_state y \<noteq> Zombie" "n \<noteq> t"
    "validate_user_ptr S X c out 8 k = Some True"
  shows "sys_waitpid S X c n out k = Some (Blocked, k \<lparr> k_tasks := (k_tasks k)
           (n \<mapsto> y \<lparr> t_exit_waiter := Some (t, c) \<rparr>, t \<mapsto> x \<lparr> t_state := Sleeping \<rparr>) \<rparr>)"
proof -
  have "kernel_id cpu = c" using cpu_ok_id sched_okD assms(1,2) by blast
  then have "current_task_and_cpu k c = Some (Some (t, c))" using assms(2-4) by (simp add: current_task_and_cpu_def)
  then show ?thesis
    using assms(5-10) by (simp add: sys_waitpid_def waitpid_iter_def set_task_state_def upd_task_def)
qed

theorem waitpid_blocks_witness:
  "\<exists>k'. sys_waitpid list_set_ops x86_arith_ops 1 1 0x6000 (exit_machine (Some (7, 0))) = Some (Blocked, k') \<and>
     map_option t_exit_waiter (k_tasks k' 1) = Some (Some (2, 1)) \<and>
     map_option t_state (k_tasks k' 2) = Some Sleeping \<and>
     map_option (\<lambda>x. ti_context (t_inner x)) (k_tasks k' 2) = Some (ti_context (t_inner (exit_task 2 None)))"
proof -
  have x: "k_tasks (exit_machine w) 2 = Some (exit_task 2 None)" "1 \<in> k_task_table (exit_machine w)"
    "t_state (exit_task 1 w) \<noteq> Zombie" for w
    by (simp_all add: exit_machine_def exit_task_def user_task_def)
  show ?thesis
    using waitpid_blocks [OF ipc_okD(1) [OF exit_machine_ok] exit_machine_cpu(2,3) _ x(1,2) exit_machine_cpu(4) x(3) _
        exit_machine_valid, of "Some (7, 0)"]
    by (simp add: exit_task_def)
qed

end
