(* ===== verification/Ring_Buffer.thy ===== *)
theory Ring_Buffer
  imports Bounded_Queue
begin

text \<open>
  The ring buffer of the input drivers. \<^verbatim>\<open>drivers/keyboard.rs\<close> and
  \<^verbatim>\<open>drivers/mouse.rs\<close> each define a structure with an array, a head, a tail and a count, and
  the same two operations on it; they differ in the type of event and are instances of the
  definitions below.
\<close>

record 'a Ring =
  rb_buffer :: "'a list"
  rb_head :: nat
  rb_tail :: nat
  rb_count :: nat

definition ring_new :: "nat \<Rightarrow> 'a \<Rightarrow> 'a Ring" where
  "ring_new n e = \<lparr> rb_buffer = replicate n e, rb_head = 0, rb_tail = 0, rb_count = 0 \<rparr>"

definition ring_push :: "nat \<Rightarrow> 'a \<Rightarrow> 'a Ring \<Rightarrow> 'a Ring rust" where
  "ring_push n e b =
     (if rb_count b < n
      then do { buf \<leftarrow> index_set (rb_buffer b) (rb_tail b) e;
                t \<leftarrow> add_u64 (rb_tail b) 1;
                m \<leftarrow> add_u64 (rb_count b) 1;
                Some (b \<lparr> rb_buffer := buf, rb_tail := t mod n, rb_count := m \<rparr>) }
      else Some b)"

definition ring_pop :: "nat \<Rightarrow> 'a Ring \<Rightarrow> ('a option \<times> 'a Ring) rust" where
  "ring_pop n b =
     (if rb_count b = 0 then Some (None, b)
      else do { e \<leftarrow> index_get (rb_buffer b) (rb_head b);
                h \<leftarrow> add_u64 (rb_head b) 1;
                m \<leftarrow> sub_u64 (rb_count b) 1;
                Some (Some e, b \<lparr> rb_head := h mod n, rb_count := m \<rparr>) })"

section \<open>The buffer as a queue\<close>

definition ring_ok :: "nat \<Rightarrow> 'a Ring \<Rightarrow> bool" where
  "ring_ok n b \<longleftrightarrow> length (rb_buffer b) = n \<and> rb_head b < n \<and> rb_count b \<le> n \<and>
     rb_tail b = (rb_head b + rb_count b) mod n"

definition ring_contents :: "nat \<Rightarrow> 'a Ring \<Rightarrow> 'a list" where
  "ring_contents n b = map (\<lambda>i. rb_buffer b ! ((rb_head b + i) mod n)) [0..<rb_count b]"

lemma ring_new_ok: "0 < n \<Longrightarrow> ring_ok n (ring_new n e) \<and> ring_contents n (ring_new n e) = []"
  by (simp add: ring_ok_def ring_new_def ring_contents_def)

lemma length_ring_contents [simp]: "length (ring_contents n b) = rb_count b"
  by (simp add: ring_contents_def)

text \<open>The cells in use are distinct: two offsets below the size hit different cells.\<close>

lemma mod_offset_le: "(h + j) mod n = (h + i) mod n \<Longrightarrow> i \<le> j \<Longrightarrow> j < n \<Longrightarrow> i = j" for h i j n :: nat
  using mod_eq_dvd_iff_nat [of "h + i" "h + j" n] by (auto dest: dvd_imp_le)

lemma mod_offset_eq: "(h + i) mod n = (h + j) mod n \<Longrightarrow> i < n \<Longrightarrow> j < n \<Longrightarrow> i = j" for h i j n :: nat
  using mod_offset_le [of h j n i] mod_offset_le [of h i n j] by (cases "i \<le> j") auto

lemma ring_push_spec:
  assumes "ring_ok n b" "n < U64_LIMIT"
  shows "\<exists>b'. ring_push n e b = Some b' \<and> ring_ok n b' \<and>
    ring_contents n b' = (if rb_count b < n then ring_contents n b @ [e] else ring_contents n b)"
proof (cases "rb_count b < n")
  case True
  have ok: "length (rb_buffer b) = n" "rb_head b < n" "rb_tail b = (rb_head b + rb_count b) mod n"
    using assms(1) by (simp_all add: ring_ok_def)
  have t: "rb_tail b < n" using ok True by simp
  let ?b' = "b \<lparr> rb_buffer := (rb_buffer b)[rb_tail b := e], rb_tail := (rb_tail b + 1) mod n, rb_count := rb_count b + 1 \<rparr>"
  have p: "ring_push n e b = Some ?b'"
    using True t ok(1) assms(2) by (simp add: ring_push_def panic_free)
  have "ring_ok n ?b'" using ok True by (simp add: ring_ok_def mod_Suc_eq)
  moreover have "ring_contents n ?b' = ring_contents n b @ [e]"
  proof -
    have "(rb_buffer b)[rb_tail b := e] ! ((rb_head b + i) mod n) = rb_buffer b ! ((rb_head b + i) mod n)"
      if "i < rb_count b" for i
      using that True mod_offset_eq [of "rb_head b" i n "rb_count b"] ok(3) by (subst nth_list_update_neq) auto
    then show ?thesis using ok t by (simp add: ring_contents_def)
  qed
  ultimately show ?thesis using p True by simp
next
  case False
  then show ?thesis using assms(1) by (simp add: ring_push_def)
qed

lemma ring_pop_spec:
  assumes "ring_ok n b" "n < U64_LIMIT" "ring_contents n b = e # es"
  shows "\<exists>b'. ring_pop n b = Some (Some e, b') \<and> ring_ok n b' \<and> ring_contents n b' = es"
proof -
  have c: "rb_count b \<noteq> 0" using assms(3) by (metis length_ring_contents length_0_conv list.distinct(1))
  then obtain m where m: "rb_count b = Suc m" by (cases "rb_count b") auto
  have ok: "length (rb_buffer b) = n" "rb_head b < n" "rb_count b \<le> n" "rb_tail b = (rb_head b + rb_count b) mod n"
    using assms(1) by (simp_all add: ring_ok_def)
  let ?b' = "b \<lparr> rb_head := (rb_head b + 1) mod n, rb_count := m \<rparr>"
  have u: "[0..<Suc m] = 0 # map Suc [0..<m]" by (simp add: map_Suc_upt upt_conv_Cons)
  have l: "ring_contents n b = rb_buffer b ! rb_head b # ring_contents n ?b'"
    unfolding ring_contents_def m u using ok(2) by (simp add: mod_Suc_eq mod_add_left_eq)
  have "ring_pop n b = Some (Some (rb_buffer b ! rb_head b), ?b')"
    using ok m assms(2) by (simp add: ring_pop_def panic_free)
  moreover have "ring_ok n ?b'" using ok m mod_add_left_eq [of "Suc (rb_head b)" n m] by (simp add: ring_ok_def)
  ultimately show ?thesis using l assms(3) by simp
qed

lemma ring_queue: "n < U64_LIMIT \<Longrightarrow> dropping_queue (ring_ok n) (ring_contents n) n (ring_push n) (ring_pop n)"
proof
  show "length (ring_contents n q) \<le> n" if "ring_ok n q" for q :: "'a Ring" using that by (simp add: ring_ok_def)
  show "\<exists>q'. ring_push n x q = Some q' \<and> ring_ok n q' \<and> ring_contents n q' =
      (if length (ring_contents n q) < n then ring_contents n q @ [x] else ring_contents n q)"
    if "n < U64_LIMIT" "ring_ok n q" for x :: 'a and q using ring_push_spec [OF that(2,1)] by simp
  show "ring_pop n q = Some (None, q)" if "ring_ok n q" "ring_contents n q = []" for q :: "'a Ring"
    using that by (simp add: ring_pop_def flip: length_ring_contents [of n])
  show "\<exists>q'. ring_pop n q = Some (Some x, q') \<and> ring_ok n q' \<and> ring_contents n q' = xs"
    if "n < U64_LIMIT" "ring_ok n q" "ring_contents n q = x # xs" for q :: "'a Ring" and x xs
    using ring_pop_spec [OF that(2,1,3)] .
qed

end
