(* ===== verification/Keyboard.thy ===== *)
theory Keyboard
  imports Task_Syscalls Ring_Buffer
begin

unbundle bit_operations_syntax

text \<open>
  The keyboard driver (\<^verbatim>\<open>drivers/keyboard.rs\<close>) and the system call that reads keys
  (\<^verbatim>\<open>sys_read_key\<close> in \<^verbatim>\<open>syscall_handlers/misc.rs\<close>). The byte that the interrupt
  handler reads from port 0x60 is an argument.
\<close>

section \<open>Data\<close>

datatype KeyEventType =
  Char | Enter | Backspace | Tab | Escape | ArrowLeft | ArrowRight | ArrowUp | ArrowDown

record KeyEvent =
  event_type :: KeyEventType
  character :: byte

definition KeyEvent_EMPTY :: KeyEvent where
  "KeyEvent_EMPTY = \<lparr> event_type = Char, character = 0 \<rparr>"

definition KeyEvent_char :: "byte \<Rightarrow> KeyEvent" where
  "KeyEvent_char c = \<lparr> event_type = Char, character = c \<rparr>"

text \<open>The constructors of the events without a character.\<close>

definition KeyEvent_special :: "KeyEventType \<Rightarrow> KeyEvent" where
  "KeyEvent_special ty = \<lparr> event_type = ty, character = 0 \<rparr>"

definition ascii :: "string \<Rightarrow> byte list" where
  "ascii s = map of_char s"

definition NORMAL :: "byte list" where
  "NORMAL =
     [0, 27] @ ascii ''1234567890-='' @ [8] @
     [9] @ ascii ''qwertyuiop[]'' @ [10] @
     [0] @ ascii ''asdfghjkl;'' @ [0x27, 0x60] @
     [0, 0x5C] @ ascii ''zxcvbnm,./'' @ [0, 0x2A] @
     [0, 0x20]"

definition SHIFTED :: "byte list" where
  "SHIFTED =
     [0, 27] @ ascii ''!@#$%^&*()_+'' @ [8] @
     [9] @ ascii ''QWERTYUIOP{}'' @ [10] @
     [0] @ ascii ''ASDFGHJKL:'' @ [0x22, 0x7E] @
     [0, 0x7C] @ ascii ''ZXCVBNM<>?'' @ [0, 0x2A] @
     [0, 0x20]"

definition KEY_BUFFER_SIZE :: nat where
  "KEY_BUFFER_SIZE = 64"

type_synonym KeyBuffer = "KeyEvent Ring"

record 's Kbd = "'s Svc" +
  k_key_buffer :: KeyBuffer
  k_key_available :: bool
  k_keyboard_waiter :: "waiter option"
  k_shift_pressed :: bool
  k_capslock_on :: bool
  k_extended :: bool

section \<open>Operations\<close>

definition KeyBuffer_new :: KeyBuffer where
  "KeyBuffer_new = ring_new KEY_BUFFER_SIZE KeyEvent_EMPTY"

definition KeyBuffer_push :: "KeyEvent \<Rightarrow> KeyBuffer \<Rightarrow> KeyBuffer rust" where
  "KeyBuffer_push = ring_push KEY_BUFFER_SIZE"

definition KeyBuffer_pop :: "KeyBuffer \<Rightarrow> (KeyEvent option \<times> KeyBuffer) rust" where
  "KeyBuffer_pop = ring_pop KEY_BUFFER_SIZE"

definition scancode_to_ascii :: "byte \<Rightarrow> bool \<Rightarrow> byte option" where
  "scancode_to_ascii code uppercase =
     (let table = (if uppercase then SHIFTED else NORMAL)
      in if unat code < length table \<and> table ! unat code \<noteq> 0 then Some (table ! unat code) else None)"

definition push_event :: "nat \<Rightarrow> KeyEvent \<Rightarrow> ('s, 'z) Kbd_scheme \<Rightarrow> ('s, 'z) Kbd_scheme rust" where
  "push_event c event k =
     do { buf \<leftarrow> KeyBuffer_push event (k_key_buffer k);
          let k1 = k \<lparr> k_key_buffer := buf, k_key_available := True \<rparr>;
          case k_keyboard_waiter k1 of
            None \<Rightarrow> Some k1
          | Some (t, cpu_id) \<Rightarrow> wake_task c t cpu_id (k1 \<lparr> k_keyboard_waiter := None \<rparr>) }"

definition push_opt :: "nat \<Rightarrow> KeyEvent option \<Rightarrow> ('s, 'z) Kbd_scheme \<Rightarrow> ('s, 'z) Kbd_scheme rust" where
  "push_opt c event k = (case event of None \<Rightarrow> Some k | Some ev \<Rightarrow> push_event c ev k)"

definition handle_scancode :: "nat \<Rightarrow> byte \<Rightarrow> ('s, 'z) Kbd_scheme \<Rightarrow> ('s, 'z) Kbd_scheme rust" where
  "handle_scancode c scancode k =
     (if scancode = 0xE0 then Some (k \<lparr> k_extended := True \<rparr>)
      else
        let released = (scancode AND 0x80 \<noteq> 0);
            code = scancode AND 0x7F;
            pressed = (\<not> released);
            is_extended = k_extended k;
            k1 = k \<lparr> k_extended := False \<rparr>
        in if is_extended then
             if pressed then
               push_opt c (if code = 0x48 then Some (KeyEvent_special ArrowUp)
                           else if code = 0x50 then Some (KeyEvent_special ArrowDown)
                           else if code = 0x4B then Some (KeyEvent_special ArrowLeft)
                           else if code = 0x4D then Some (KeyEvent_special ArrowRight)
                           else None) k1
             else Some k1
           else if code = 0x2A \<or> code = 0x36 then Some (k1 \<lparr> k_shift_pressed := pressed \<rparr>)
           else if code = 0x3A \<and> pressed then Some (k1 \<lparr> k_capslock_on := \<not> k_capslock_on k1 \<rparr>)
           else if \<not> pressed then Some k1
           else
             push_opt c (if code = 0x01 then Some (KeyEvent_special Escape)
                         else if code = 0x0E then Some (KeyEvent_special Backspace)
                         else if code = 0x0F then Some (KeyEvent_special Tab)
                         else if code = 0x1C then Some (KeyEvent_special Enter)
                         else map_option KeyEvent_char
                                (scancode_to_ascii code (k_shift_pressed k1 \<noteq> k_capslock_on k1))) k1)"

definition try_read_key :: "('s, 'z) Kbd_scheme \<Rightarrow> (KeyEvent option \<times> ('s, 'z) Kbd_scheme) rust" where
  "try_read_key k =
     do { (result, buf) \<leftarrow> KeyBuffer_pop (k_key_buffer k);
          let k1 = k \<lparr> k_key_buffer := buf \<rparr>;
          Some (result, if result \<noteq> None \<and> rb_count (k_key_buffer k1) = 0 then k1 \<lparr> k_key_available := False \<rparr> else k1) }"

definition has_key :: "('s, 'z) Kbd_scheme \<Rightarrow> bool" where
  "has_key k = k_key_available k"

definition keyboard_reset :: "('s, 'z) Kbd_scheme \<Rightarrow> ('s, 'z) Kbd_scheme" where
  "keyboard_reset k = k \<lparr> k_key_buffer := KeyBuffer_new, k_shift_pressed := False, k_capslock_on := False,
     k_extended := False, k_key_available := False \<rparr>"

text \<open>The two bytes of an event in user memory: the discriminant of its type, and the character.\<close>

definition KeyEventType_code :: "KeyEventType \<Rightarrow> byte" where
  "KeyEventType_code ty = (case ty of Char \<Rightarrow> 0 | Enter \<Rightarrow> 1 | Backspace \<Rightarrow> 2 | Tab \<Rightarrow> 3 | Escape \<Rightarrow> 4
     | ArrowLeft \<Rightarrow> 5 | ArrowRight \<Rightarrow> 6 | ArrowUp \<Rightarrow> 7 | ArrowDown \<Rightarrow> 8)"

definition KeyEvent_bytes :: "KeyEvent \<Rightarrow> byte list" where
  "KeyEvent_bytes ev = [KeyEventType_code (event_type ev), character ev]"

definition read_key_iter :: "nat \<Rightarrow> nat \<Rightarrow> ('s, 'z) Kbd_scheme \<Rightarrow> (sys_outcome \<times> ('s, 'z) Kbd_scheme) rust" where
  "read_key_iter c out k =
     do { (result, k1) \<leftarrow> try_read_key k;
          case result of
            Some event \<Rightarrow> do { k2 \<leftarrow> user_write c out (KeyEvent_bytes event) k1; Some (Done 0, k2) }
          | None \<Rightarrow>
              do { k2 \<leftarrow> set_fallback_rax c 1 k1;
                   cur \<leftarrow> current_task_and_cpu k2 c;
                   Some (Blocked, case cur of
                     None \<Rightarrow> k2
                   | Some (t, cpu_id) \<Rightarrow> set_task_state t Sleeping (k2 \<lparr> k_keyboard_waiter := Some (t, cpu_id) \<rparr>)) } }"

definition sys_read_key ::
    "'s nodit_set_ops \<Rightarrow> x86_ops \<Rightarrow> nat \<Rightarrow> nat \<Rightarrow> ('s, 'z) Kbd_scheme \<Rightarrow> (sys_outcome \<times> ('s, 'z) Kbd_scheme) rust" where
  "sys_read_key S X c key_event_out_ptr k =
     do { valid \<leftarrow> validate_user_ptr S X c key_event_out_ptr 2 k;
          if \<not> valid then Some (Done 1, k) else read_key_iter c key_event_out_ptr k }"

section \<open>The key buffer is a queue\<close>

definition key_ok :: "KeyBuffer \<Rightarrow> bool" where
  "key_ok = ring_ok KEY_BUFFER_SIZE"

definition key_contents :: "KeyBuffer \<Rightarrow> KeyEvent list" where
  "key_contents = ring_contents KEY_BUFFER_SIZE"

interpretation keys: dropping_queue key_ok key_contents KEY_BUFFER_SIZE KeyBuffer_push KeyBuffer_pop
  unfolding key_ok_def key_contents_def KeyBuffer_push_def KeyBuffer_pop_def
  by (rule ring_queue) (simp add: KEY_BUFFER_SIZE_def U64_LIMIT_num)

lemma KeyBuffer_new_ok: "key_ok KeyBuffer_new" "key_contents KeyBuffer_new = []"
  using ring_new_ok [of KEY_BUFFER_SIZE KeyEvent_EMPTY]
  by (simp_all add: key_ok_def key_contents_def KeyBuffer_new_def KEY_BUFFER_SIZE_def)

section \<open>Typing\<close>

text \<open>The keys that produce a character: those with a table entry and no event of their own. The
  codes a key sends when it is pressed and released, with the left shift key held or not.\<close>

definition typable :: "nat \<Rightarrow> bool" where
  "typable i \<longleftrightarrow> i < length NORMAL \<and> NORMAL ! i \<noteq> 0 \<and> i \<notin> {0x01, 0x0E, 0x0F, 0x1C}"

definition key_codes :: "bool \<times> nat \<Rightarrow> byte list" where
  "key_codes p = (if fst p then [0x2A] else []) @ [word_of_nat (snd p), word_of_nat (snd p + 0x80)] @
     (if fst p then [0xAA] else [])"

definition typed :: "bool \<Rightarrow> bool \<times> nat \<Rightarrow> KeyEvent" where
  "typed caps p = KeyEvent_char (if fst p \<noteq> caps then SHIFTED ! snd p else NORMAL ! snd p)"

text \<open>The arithmetic of scan codes and the two tables, by evaluation over the 58 codes.\<close>

lemma codes_58:
  "list_all (\<lambda>i. (word_of_nat i :: byte) AND 0x80 = 0 \<and> (word_of_nat i :: byte) AND 0x7F = word_of_nat i \<and>
     unat (word_of_nat i :: byte) = i \<and> (word_of_nat (i + 0x80) :: byte) AND 0x80 \<noteq> 0 \<and>
     (word_of_nat (i + 0x80) :: byte) AND 0x7F = word_of_nat i \<and> (word_of_nat i :: byte) \<noteq> 0xE0 \<and>
     (word_of_nat (i + 0x80) :: byte) \<noteq> 0xE0) [0..<58]"
  by code_simp

lemma tables_58:
  "length NORMAL = 58" "length SHIFTED = 58"
  "list_all (\<lambda>i. NORMAL ! i \<noteq> 0 \<longrightarrow> SHIFTED ! i \<noteq> 0) [0..<58]"
  "NORMAL ! 0x2A = 0" "NORMAL ! 0x36 = 0"
  by code_simp+

lemma typableD:
  assumes "typable i"
  shows "i < 58" "(word_of_nat i :: byte) AND 0x80 = 0" "(word_of_nat i :: byte) AND 0x7F = word_of_nat i"
    "unat (word_of_nat i :: byte) = i" "(word_of_nat (i + 0x80) :: byte) AND 0x80 \<noteq> 0"
    "(word_of_nat (i + 0x80) :: byte) AND 0x7F = word_of_nat i" "(word_of_nat i :: byte) \<noteq> 0xE0"
    "(word_of_nat (i + 0x80) :: byte) \<noteq> 0xE0" "NORMAL ! i \<noteq> 0" "SHIFTED ! i \<noteq> 0"
    "i \<notin> {0x2A, 0x36, 0x3A, 0x01, 0x0E, 0x0F, 0x1C}"
proof -
  show i: "i < 58" using assms tables_58(1) by (simp add: typable_def)
  then have m: "i \<in> set [0..<58]" by simp
  show "NORMAL ! i \<noteq> 0" using assms by (simp add: typable_def)
  then show "SHIFTED ! i \<noteq> 0" using tables_58(3) m unfolding list_all_iff by blast
  show "(word_of_nat i :: byte) AND 0x80 = 0" "(word_of_nat i :: byte) AND 0x7F = word_of_nat i"
    "unat (word_of_nat i :: byte) = i" "(word_of_nat (i + 0x80) :: byte) AND 0x80 \<noteq> 0"
    "(word_of_nat (i + 0x80) :: byte) AND 0x7F = word_of_nat i" "(word_of_nat i :: byte) \<noteq> 0xE0"
    "(word_of_nat (i + 0x80) :: byte) \<noteq> 0xE0"
    using codes_58 m unfolding list_all_iff by blast+
  have "i \<noteq> 0x2A" "i \<noteq> 0x36" using \<open>NORMAL ! i \<noteq> 0\<close> tables_58(4,5) by metis+
  then show "i \<notin> {0x2A, 0x36, 0x3A, 0x01, 0x0E, 0x0F, 0x1C}" using assms i by (auto simp: typable_def)
qed

lemma code_neq: "unat (word_of_nat i :: byte) = i \<Longrightarrow> unat (w :: byte) \<noteq> i \<Longrightarrow> word_of_nat i \<noteq> w"
  by auto

lemma not_extended: "\<not> k_extended k \<Longrightarrow> k \<lparr> k_extended := False \<rparr> = k" for k :: "('s, 'z) Kbd_scheme"
  by (cases k) simp

lemma press_key:
  assumes "typable i" "\<not> k_extended k"
  shows "handle_scancode c (word_of_nat i) k
       = push_event c (KeyEvent_char (if k_shift_pressed k \<noteq> k_capslock_on k then SHIFTED ! i else NORMAL ! i)) k"
proof -
  note d = typableD [OF assms(1)]
  have n: "(word_of_nat i :: byte) \<noteq> 0x2A" "(word_of_nat i :: byte) \<noteq> 0x36" "(word_of_nat i :: byte) \<noteq> 0x3A"
    "(word_of_nat i :: byte) \<noteq> 0x01" "(word_of_nat i :: byte) \<noteq> 0x0E" "(word_of_nat i :: byte) \<noteq> 0x0F"
    "(word_of_nat i :: byte) \<noteq> 0x1C"
    using d(11) by (auto intro!: code_neq [OF d(4)])
  show ?thesis
    unfolding handle_scancode_def Let_def d(2,3) not_extended [OF assms(2)]
    using d(1,4,7,9,10) n assms(2) tables_58(1,2)
    by (simp add: scancode_to_ascii_def push_opt_def)
qed

lemma release_key:
  assumes "typable i" "\<not> k_extended k"
  shows "handle_scancode c (word_of_nat (i + 0x80)) k = Some k"
proof -
  note d = typableD [OF assms(1)]
  have n: "(word_of_nat i :: byte) \<noteq> 0x2A" "(word_of_nat i :: byte) \<noteq> 0x36"
    using d(11) by (auto intro!: code_neq [OF d(4)])
  show ?thesis
    unfolding handle_scancode_def Let_def d(6)
    using d(5,8) n assms(2) not_extended [OF assms(2)] by simp
qed

lemma shift_keys:
  "\<not> k_extended k \<Longrightarrow> handle_scancode c 0x2A k = Some (k \<lparr> k_shift_pressed := True \<rparr>)"
  "\<not> k_extended k \<Longrightarrow> handle_scancode c 0xAA k = Some (k \<lparr> k_shift_pressed := False \<rparr>)"
  using not_extended [of k] by (simp_all add: handle_scancode_def Let_def)

text \<open>An event with nobody waiting goes into the buffer if there is room, and nowhere else.\<close>

lemma push_event_quiet:
  fixes k :: "('s, 'z) Kbd_scheme"
  assumes "key_ok (k_key_buffer k)" "k_keyboard_waiter k = None"
  shows "\<exists>b. push_event c e k = Some (k \<lparr> k_key_buffer := b, k_key_available := True \<rparr>) \<and> key_ok b \<and>
    key_contents b = (if length (key_contents (k_key_buffer k)) < KEY_BUFFER_SIZE
                      then key_contents (k_key_buffer k) @ [e] else key_contents (k_key_buffer k))"
  using keys.push_total [OF assms(1), of e] assms(2) by (auto simp: push_event_def Let_def)

lemma type_one_key:
  fixes k :: "('s, 'z) Kbd_scheme"
  assumes "typable (snd p)" "key_ok (k_key_buffer k)" "k_keyboard_waiter k = None" "\<not> k_extended k" "\<not> k_shift_pressed k"
    "length (key_contents (k_key_buffer k)) < KEY_BUFFER_SIZE"
  shows "\<exists>b. fold_rust (handle_scancode c) (key_codes p) k = Some (k \<lparr> k_key_buffer := b, k_key_available := True \<rparr>) \<and>
    key_ok b \<and> key_contents b = key_contents (k_key_buffer k) @ [typed (k_capslock_on k) p]"
proof (cases "fst p")
  case False
  from push_event_quiet [OF assms(2,3), of c "typed (k_capslock_on k) p"] assms(6) obtain b where
    b: "push_event c (typed (k_capslock_on k) p) k = Some (k \<lparr> k_key_buffer := b, k_key_available := True \<rparr>)" "key_ok b"
      "key_contents b = key_contents (k_key_buffer k) @ [typed (k_capslock_on k) p]" by auto
  have "handle_scancode c (word_of_nat (snd p)) k = Some (k \<lparr> k_key_buffer := b, k_key_available := True \<rparr>)"
    using press_key [OF assms(1,4), of c] b(1) assms(5) False by (simp add: typed_def)
  then show ?thesis using b(2,3) False assms(4)
    by (intro exI [of _ b]) (simp add: key_codes_def release_key [OF assms(1), simplified])
next
  case True
  let ?k1 = "k \<lparr> k_shift_pressed := True \<rparr>"
  have "\<not> k_extended ?k1" using assms(4) by simp
  note press = press_key [OF assms(1) this, of c]
  from push_event_quiet [of ?k1 c "typed (k_capslock_on k) p"] assms(2,3,6) obtain b where
    b: "push_event c (typed (k_capslock_on k) p) ?k1 = Some (?k1 \<lparr> k_key_buffer := b, k_key_available := True \<rparr>)" "key_ok b"
      "key_contents b = key_contents (k_key_buffer k) @ [typed (k_capslock_on k) p]" by auto
  have 1: "handle_scancode c (word_of_nat (snd p)) ?k1 = Some (?k1 \<lparr> k_key_buffer := b, k_key_available := True \<rparr>)"
    using press b(1) True by (simp add: typed_def)
  have "k \<lparr> k_key_buffer := b, k_key_available := True, k_shift_pressed := False \<rparr> = k \<lparr> k_key_buffer := b, k_key_available := True \<rparr>"
    using assms(5) by (cases k) simp
  then show ?thesis
    using b(2,3) True assms(4) 1
    by (intro exI [of _ b]) (simp add: key_codes_def release_key [OF assms(1), simplified] shift_keys)
qed

text \<open>Reading keys one after the other.\<close>

primrec read_keys :: "nat \<Rightarrow> ('s, 'z) Kbd_scheme \<Rightarrow> (KeyEvent option list \<times> ('s, 'z) Kbd_scheme) rust" where
  "read_keys 0 k = Some ([], k)"
| "read_keys (Suc n) k = do { (e, k1) \<leftarrow> try_read_key k; (es, k2) \<leftarrow> read_keys n k1; Some (e # es, k2) }"

lemma try_read_key_some:
  fixes k :: "('s, 'z) Kbd_scheme"
  assumes "key_ok (k_key_buffer k)" "key_contents (k_key_buffer k) = e # es"
  shows "\<exists>k'. try_read_key k = Some (Some e, k') \<and> key_ok (k_key_buffer k') \<and> key_contents (k_key_buffer k') = es"
  using keys.pop_some [OF assms] by (auto simp: try_read_key_def Let_def)

lemma try_read_key_none:
  fixes k :: "('s, 'z) Kbd_scheme"
  assumes "key_ok (k_key_buffer k)" "key_contents (k_key_buffer k) = []"
  shows "try_read_key k = Some (None, k)"
  using keys.pop_none [OF assms] by (simp add: try_read_key_def Let_def)

lemma read_keys_all:
  fixes k :: "('s, 'z) Kbd_scheme"
  shows "key_ok (k_key_buffer k) \<Longrightarrow> key_contents (k_key_buffer k) = es \<Longrightarrow>
   \<exists>k'. read_keys (length es) k = Some (map Some es, k') \<and> key_contents (k_key_buffer k') = [] \<and>
     try_read_key k' = Some (None, k')"
proof (induction es arbitrary: k)
  case Nil
  then show ?case using try_read_key_none by simp
next
  case (Cons e es)
  from try_read_key_some [OF Cons.prems] obtain k1 where
    k1: "try_read_key k = Some (Some e, k1)" "key_ok (k_key_buffer k1)" "key_contents (k_key_buffer k1) = es" by blast
  from Cons.IH [OF k1(2,3)] show ?case using k1(1) by auto
qed

lemma type_keys:
  fixes k :: "('s, 'z) Kbd_scheme"
  assumes "\<forall>p\<in>set ps. typable (snd p)" "key_ok (k_key_buffer k)" "k_keyboard_waiter k = None" "\<not> k_extended k"
    "\<not> k_shift_pressed k" "length (key_contents (k_key_buffer k)) + length ps \<le> KEY_BUFFER_SIZE"
  shows "\<exists>k'. fold_rust (handle_scancode c) (concat (map key_codes ps)) k = Some k' \<and> key_ok (k_key_buffer k') \<and>
    key_contents (k_key_buffer k') = key_contents (k_key_buffer k) @ map (typed (k_capslock_on k)) ps"
  using assms
proof (induction ps arbitrary: k)
  case (Cons p ps)
  have t: "typable (snd p)" and r: "length (key_contents (k_key_buffer k)) < KEY_BUFFER_SIZE" using Cons.prems by auto
  from type_one_key [OF t Cons.prems(2-5) r, of c] obtain b where
    b: "fold_rust (handle_scancode c) (key_codes p) k = Some (k \<lparr> k_key_buffer := b, k_key_available := True \<rparr>)" "key_ok b"
      "key_contents b = key_contents (k_key_buffer k) @ [typed (k_capslock_on k) p]" by blast
  from Cons.IH [of "k \<lparr> k_key_buffer := b, k_key_available := True \<rparr>"] Cons.prems b(2,3) obtain k' where
    "fold_rust (handle_scancode c) (concat (map key_codes ps)) (k \<lparr> k_key_buffer := b, k_key_available := True \<rparr>) = Some k'"
    "key_ok (k_key_buffer k')"
    "key_contents (k_key_buffer k') = key_contents (k_key_buffer k) @ typed (k_capslock_on k) p # map (typed (k_capslock_on k)) ps"
    by auto
  then show ?case using b(1) by (auto simp: fold_rust_append)
qed simp

lemma sys_read_key_some:
  fixes k :: "('s, 'z) Kbd_scheme"
  assumes "user_view k c = Some (cr3, v)" "validate_user_ptr S X c out 2 k = Some True"
    "key_ok (k_key_buffer k)" "key_contents (k_key_buffer k) = e # es"
  shows "\<exists>k'. sys_read_key S X c out k = Some (Done 0, k') \<and> key_contents (k_key_buffer k') = es \<and>
    mem_read out 2 (k_umem k' cr3) = KeyEvent_bytes e"
proof -
  from keys.pop_some [OF assms(3,4)] obtain b where
    b: "KeyBuffer_pop (k_key_buffer k) = Some (Some e, b)" "key_contents b = es" by blast
  let ?k1 = "if rb_count b = 0 then k \<lparr> k_key_buffer := b, k_key_available := False \<rparr> else k \<lparr> k_key_buffer := b \<rparr>"
  have r: "try_read_key k = Some (Some e, ?k1)" using b(1) by (simp add: try_read_key_def Let_def)
  have k1: "k_umem ?k1 = k_umem k" "k_key_buffer ?k1 = b" "k_cpus ?k1 = k_cpus k" "k_tasks ?k1 = k_tasks k" by simp_all
  have "user_view ?k1 c = Some (cr3, v)" using user_view_cong [OF k1(3,4), of c] assms(1) by simp
  from user_write_eq [OF this] have
    w: "user_write c out (KeyEvent_bytes e) ?k1 = Some (?k1 \<lparr> k_umem := (k_umem k)(cr3 := mem_write out (KeyEvent_bytes e) (k_umem k cr3)) \<rparr>)"
    using k1(1) by simp
  have "sys_read_key S X c out k
      = Some (Done 0, ?k1 \<lparr> k_umem := (k_umem k)(cr3 := mem_write out (KeyEvent_bytes e) (k_umem k cr3)) \<rparr>)"
    unfolding sys_read_key_def read_key_iter_def using assms(2) r w by simp
  moreover have "length (KeyEvent_bytes e) = 2" by (simp add: KeyEvent_bytes_def)
  ultimately show ?thesis using b(2) k1(2) by simp
qed

section \<open>Properties\<close>

text \<open>C37. What is typed is what is read. From any state in which no key is half decoded, shift is up
  and nobody waits, pressing and releasing any sequence of character keys, each with or without shift,
  that fits in the buffer never panics; reading as many keys then returns what was in the buffer
  before followed by one character event per key, in order, and after that there is nothing to read.
  Each key gives its shifted character exactly when one of shift and caps lock is active.\<close>

theorem typed_is_read:
  fixes k :: "('s, 'z) Kbd_scheme"
  assumes "\<forall>p\<in>set ps. typable (snd p)" "key_ok (k_key_buffer k)" "k_keyboard_waiter k = None" "\<not> k_extended k"
    "\<not> k_shift_pressed k" "length (key_contents (k_key_buffer k)) + length ps \<le> KEY_BUFFER_SIZE"
  shows "\<exists>k1 k2. fold_rust (handle_scancode c) (concat (map key_codes ps)) k = Some k1 \<and>
    read_keys (length (key_contents (k_key_buffer k)) + length ps) k1
      = Some (map Some (key_contents (k_key_buffer k) @ map (typed (k_capslock_on k)) ps), k2) \<and>
    try_read_key k2 = Some (None, k2)"
proof -
  from type_keys [OF assms, of c] obtain k1 where
    k1: "fold_rust (handle_scancode c) (concat (map key_codes ps)) k = Some k1" "key_ok (k_key_buffer k1)"
      "key_contents (k_key_buffer k1) = key_contents (k_key_buffer k) @ map (typed (k_capslock_on k)) ps" by blast
  from read_keys_all [OF k1(2,3)] show ?thesis using k1(1) by auto
qed

definition kbd_machine :: "bool \<Rightarrow> (interval \<times> unit) list Kbd" where
  "kbd_machine caps = Svc.extend svc_machine
     \<lparr> k_key_buffer = KeyBuffer_new, k_key_available = False, k_keyboard_waiter = None,
       k_shift_pressed = False, k_capslock_on = caps, k_extended = False \<rparr>"

lemma kbd_machine_simps [simp]:
  "k_cpus (kbd_machine caps) = k_cpus user_machine" "k_tasks (kbd_machine caps) = k_tasks user_machine"
  "k_umem (kbd_machine caps) = k_umem user_machine" "k_key_buffer (kbd_machine caps) = KeyBuffer_new"
  "k_keyboard_waiter (kbd_machine caps) = None" "k_shift_pressed (kbd_machine caps) = False"
  "k_capslock_on (kbd_machine caps) = caps" "k_extended (kbd_machine caps) = False"
  by (simp_all add: kbd_machine_def Svc.defs)

text \<open>Typing \<^verbatim>\<open>Hi 2\<close> without, and the digit again with, caps lock.\<close>

theorem typed_is_read_witness:
  "(\<exists>k1 k2. fold_rust (handle_scancode 0) (concat (map key_codes [(True, 35), (False, 23), (False, 57), (False, 3)])) (kbd_machine False) = Some k1 \<and>
      read_keys 4 k1 = Some (map (\<lambda>x. Some (KeyEvent_char x)) [0x48, 0x69, 0x20, 0x32], k2)) \<and>
   (\<exists>k1 k2. fold_rust (handle_scancode 0) (key_codes (False, 3)) (kbd_machine True) = Some k1 \<and>
      read_keys 1 k1 = Some ([Some (KeyEvent_char 0x40)], k2))"
proof -
  have t: "typable 35" "typable 23" "typable 57" "typable 3" by code_simp+
  have v: "typed False (True, 35) = KeyEvent_char 0x48" "typed False (False, 23) = KeyEvent_char 0x69"
    "typed False (False, 57) = KeyEvent_char 0x20" "typed False (False, 3) = KeyEvent_char 0x32"
    "typed True (False, 3) = KeyEvent_char 0x40"
    by code_simp+
  have n: "read_keys 4 k = read_keys (Suc (Suc (Suc (Suc 0)))) k" "read_keys 1 k = read_keys (Suc 0) k" for k :: "(interval \<times> unit) list Kbd"
    by (simp_all add: eval_nat_numeral)
  show ?thesis
    unfolding n using typed_is_read [of "[(True, 35), (False, 23), (False, 57), (False, 3)]" "kbd_machine False" 0]
      typed_is_read [of "[(False, 3)]" "kbd_machine True" 0] KeyBuffer_new_ok t v
    by (auto simp: KEY_BUFFER_SIZE_def simp del: read_keys.simps)
qed

text \<open>C38. A program that reads when no key is there sleeps, and the next key wakes it and is delivered.
  The call blocks with the task recorded as the keyboard's waiter; when a character key is pressed, on
  whichever CPU the interrupt arrives, the task is made ready and put in a run queue, and its next read
  succeeds with the two bytes of the event in its memory.\<close>

theorem read_key_blocks_until_key:
  fixes k :: "('s, 'z) Kbd_scheme"
  assumes "ipc_ok k" "get_cpu k c = Some cpu" "run_queue cpu = Some rq" "current_task rq = Some t" "k_tasks k t = Some x"
    "key_ok (k_key_buffer k)" "key_contents (k_key_buffer k) = []" "validate_user_ptr S X c out 2 k = Some True"
    "\<not> k_extended k" "rq_ready k d" "typable i"
  shows "\<exists>k1 k2 k3. sys_read_key S X c out k = Some (Blocked, k1) \<and> map_option t_state (k_tasks k1 t) = Some Sleeping \<and>
    handle_scancode d (word_of_nat i) k1 = Some k2 \<and> map_option t_state (k_tasks k2 t) = Some Ready \<and>
    mset (placed k2) = add_mset t (mset (placed k)) \<and>
    sys_read_key S X c out k2 = Some (Done 0, k3) \<and>
    mem_read out 2 (k_umem k3 (hw_cr3 cpu)) = [0, if k_shift_pressed k \<noteq> k_capslock_on k then SHIFTED ! i else NORMAL ! i]"
proof -
  let ?ch = "if k_shift_pressed k \<noteq> k_capslock_on k then SHIFTED ! i else NORMAL ! i"
  have ok: "cpu_ok (k_tasks k) c cpu" using sched_okD ipc_okD(1) [OF assms(1)] assms(2) by blast
  have p: "current_context_ptr cpu = Some t" using cpu_okD(3) [OF ok assms(3)] assms(4) by simp
  let ?x1 = "x \<lparr> t_inner := t_inner x \<lparr> ti_context := ti_context (t_inner x) \<lparr> ctx_rax := 1 \<rparr> \<rparr>, t_state := Sleeping \<rparr>"
  let ?k1 = "k \<lparr> k_tasks := (k_tasks k)(t \<mapsto> ?x1), k_keyboard_waiter := Some (t, c) \<rparr>"
  have cur: "current_task_and_cpu (k \<lparr> k_tasks := ts \<rparr>) c = Some (Some (t, c))" for ts
    using assms(2-4) cpu_ok_id [OF ok] by (simp add: current_task_and_cpu_def get_cpu_tasks)
  have r1: "sys_read_key S X c out k = Some (Blocked, ?k1)"
    using assms(8) try_read_key_none [OF assms(6,7)] set_fallback_rax_eq [OF assms(2) p assms(5), of 1]
    by (simp add: sys_read_key_def read_key_iter_def cur set_task_state_def upd_task_def)
  have st: "same_tasks (k_tasks k) (k_tasks ?k1)"
    using same_tasks_one [of "k_tasks k" t x ?x1] assms(5) by (simp add: t_core_def)
  have ok1: "ipc_ok ?k1" by (rule ipc_ok_same [OF assms(1) st]) simp_all
  from keys.push_total [OF assms(6), of "KeyEvent_char ?ch"] assms(7) obtain b where
    b: "KeyBuffer_push (KeyEvent_char ?ch) (k_key_buffer k) = Some b" "key_ok b" "key_contents b = [KeyEvent_char ?ch]"
    by (auto simp: KEY_BUFFER_SIZE_def)
  let ?k1' = "?k1 \<lparr> k_key_buffer := b, k_key_available := True, k_keyboard_waiter := None \<rparr>"
  have ok1': "ipc_ok ?k1'" by (rule ipc_ok_same [OF ok1]) simp_all
  have rq1: "rq_ready ?k1' g = rq_ready k g" for g by (rule rq_ready_cong) simp
  have "task_live k t"
    using cpu_okD(4) [OF ok assms(3), of t] assms(4,5) by (auto simp: task_live_def rq_tasks_def)
  then have "task_live ?k1' t" using task_live_same [of k ?k1' t] st by simp
  then have "waiter_ok ?k1' (t, c)" using rq1 assms(2,3) by (auto simp: waiter_ok_def rq_ready_def)
  from ipc_ok_wake [OF ok1' _ this, of d] rq1 assms(10) obtain k2 where
    k2: "wake_task d t c ?k1' = Some k2" "mset (placed k2) = add_mset t (mset (placed ?k1'))" by blast
  have h: "handle_scancode d (word_of_nat i) ?k1 = Some k2"
    using press_key [OF assms(11), of ?k1 d] assms(9) b(1) k2(1) by (simp add: push_event_def Let_def)
  have pl: "placed ?k1' = placed k" by (rule placed_cong) simp
  have t2: "map_option t_state (k_tasks k2 t) = Some Ready" and kb: "k_key_buffer k2 = b"
    using wake_task_frame(1) [OF k2(1)] by (auto simp: set_task_state_def upd_task_def)
  have view: "user_view k2 c = user_view k c"
  proof -
    have "user_view ?k1' c = user_view k c" by (rule user_view_tasks) (auto simp: assms(5))
    then show ?thesis using wake_task_view [OF k2(1), of c] by simp
  qed
  obtain v where v: "user_view k c = Some (hw_cr3 cpu, v)" using assms(2-4) by (simp add: user_view_def)
  have val: "validate_user_ptr S X c out 2 k2 = Some True" using validate_user_ptr_view [OF view] v assms(8) by simp
  from sys_read_key_some [OF view [unfolded v] val, of "KeyEvent_char ?ch" "[]"] kb b(2,3) obtain k3 where
    "sys_read_key S X c out k2 = Some (Done 0, k3)" "mem_read out 2 (k_umem k3 (hw_cr3 cpu)) = KeyEvent_bytes (KeyEvent_char ?ch)"
    by auto
  then show ?thesis using r1 h t2 k2(2) pl
    by (intro exI [of _ ?k1] exI [of _ k2] exI [of _ k3])
      (simp add: KeyEvent_bytes_def KeyEvent_char_def KeyEventType_code_def)
qed

lemma kbd_machine_ok: "ipc_ok (kbd_machine caps)"
proof -
  have "sched_ok (kbd_machine caps)"
    using ipc_okD(1) [OF user_machine_ok] sched_ok_cong [of "kbd_machine caps" user_machine] by simp
  then show ?thesis
    by (auto simp: ipc_ok_def kbd_machine_def Svc.defs svc_machine_def Usr.defs user_machine_def channel_ok_def chan_ok_def
        MAX_CHANNEL_CAPACITY_def split: if_splits)
qed

theorem read_key_blocks_until_key_witness:
  "\<exists>k1 k2 k3. sys_read_key list_set_ops x86_arith_ops 0 0x5000 (kbd_machine False) = Some (Blocked, k1) \<and>
     handle_scancode 0 0x1E k1 = Some k2 \<and>
     sys_read_key list_set_ops x86_arith_ops 0 0x5000 k2 = Some (Done 0, k3) \<and> mem_read 0x5000 2 (k_umem k3 0x1000) = [0, 0x61]"
proof -
  have g: "get_cpu (kbd_machine False) 0 = Some (sample_cpu 0 (Some 1) [])"
    using user_machine_cpu(1) get_cpu_cong [of "kbd_machine False" user_machine 0] by simp
  have x: "k_tasks (kbd_machine False) 1 = Some user_task" using user_machine_cpu(3) by simp
  have r: "rq_ready (kbd_machine False) 0" using g user_machine_cpu(2) by (auto simp: rq_ready_def)
  have u: "space_used list_set_ops sample_space 0x5000 2" by (auto simp: space_used_def sample_space_def list_set_ops_def)
  have s: "ivls_ok (ti_user_vaddr_set (t_inner user_task))" using sample_space_ok by (simp add: user_task_def)
  have v: "validate_user_ptr list_set_ops x86_arith_ops 0 0x5000 2 (kbd_machine False) = Some True"
    using validate_user_ptr_spec [OF list_space.page_space_axioms g user_machine_cpu(2) _ x s, of "0x5000" 2] u
    by (simp add: USER_MAX_def USER_MIN_def LOWER_HALF_END_def user_task_def)
  have t: "typable 30" "NORMAL ! 30 = 0x61" by code_simp+
  have h: "hw_cr3 (sample_cpu 0 (Some 1) []) = 0x1000" "(word_of_nat 30 :: byte) = 0x1E" by (simp_all add: sample_cpu_def)
  from read_key_blocks_until_key [OF kbd_machine_ok g user_machine_cpu(2) _ x _ _ v _ r t(1)] show ?thesis
    unfolding h using KeyBuffer_new_ok t(2) by auto
qed

end
