(* ===== verification/Mouse.thy ===== *)
theory Mouse
  imports Keyboard
begin

text \<open>
  The mouse driver (\<^verbatim>\<open>drivers/mouse.rs\<close>) and the system call that reads mouse events
  (\<^verbatim>\<open>sys_read_mouse\<close> in \<^verbatim>\<open>syscall_handlers/misc.rs\<close>). Motion is kept as the 16-bit
  words the code computes. The initialisation talks to the PS/2 controller through two ports: what
  the controller answers is a script of bytes per port, and the answers of every possible controller
  are some script; reading past the end of a script stands for waiting for ever.
\<close>

section \<open>Data\<close>

definition MOUSE_LEFT :: byte where "MOUSE_LEFT = 1"
definition MOUSE_RIGHT :: byte where "MOUSE_RIGHT = 2"
definition MOUSE_MIDDLE :: byte where "MOUSE_MIDDLE = 4"

record MouseEvent =
  dx :: "16 word"
  dy :: "16 word"
  buttons :: byte

definition MouseEvent_EMPTY :: MouseEvent where
  "MouseEvent_EMPTY = \<lparr> dx = 0, dy = 0, buttons = 0 \<rparr>"

definition MOUSE_BUFFER_SIZE :: nat where
  "MOUSE_BUFFER_SIZE = 64"

type_synonym MouseBuffer = "MouseEvent Ring"

record 's Mse = "'s Kbd" +
  k_mouse_buffer :: MouseBuffer
  k_packet :: "byte list"
  k_packet_idx :: nat

section \<open>Operations\<close>

definition MouseBuffer_new :: MouseBuffer where
  "MouseBuffer_new = ring_new MOUSE_BUFFER_SIZE MouseEvent_EMPTY"

definition MouseBuffer_push :: "MouseEvent \<Rightarrow> MouseBuffer \<Rightarrow> MouseBuffer rust" where
  "MouseBuffer_push = ring_push MOUSE_BUFFER_SIZE"

definition MouseBuffer_pop :: "MouseBuffer \<Rightarrow> (MouseEvent option \<times> MouseBuffer) rust" where
  "MouseBuffer_pop = ring_pop MOUSE_BUFFER_SIZE"

definition try_read_mouse :: "('s, 'z) Mse_scheme \<Rightarrow> (MouseEvent option \<times> ('s, 'z) Mse_scheme) rust" where
  "try_read_mouse k = do { (r, b) \<leftarrow> MouseBuffer_pop (k_mouse_buffer k); Some (r, k \<lparr> k_mouse_buffer := b \<rparr>) }"

text \<open>Negating the least 16-bit value overflows.\<close>

definition neg_i16 :: "16 word \<Rightarrow> 16 word rust" where
  "neg_i16 w = (if w = 0x8000 then panic else Some (- w))"

definition decode_packet :: "byte \<Rightarrow> byte \<Rightarrow> byte \<Rightarrow> MouseEvent rust" where
  "decode_packet status raw_dx raw_dy =
     do { let x = ucast raw_dx OR (if status AND 0x10 \<noteq> 0 then - 256 else 0);
          let y = ucast raw_dy OR (if status AND 0x20 \<noteq> 0 then - 256 else 0);
          y' \<leftarrow> neg_i16 y;
          Some \<lparr> dx = x, dy = y',
                 buttons = (if status AND 0x01 \<noteq> 0 then MOUSE_LEFT else 0)
                   OR (if status AND 0x02 \<noteq> 0 then MOUSE_RIGHT else 0)
                   OR (if status AND 0x04 \<noteq> 0 then MOUSE_MIDDLE else 0) \<rparr> }"

definition on_mouse_interrupt :: "byte \<Rightarrow> ('s, 'z) Mse_scheme \<Rightarrow> ('s, 'z) Mse_scheme rust" where
  "on_mouse_interrupt b k =
     (if k_packet_idx k = 0 \<and> b AND 0x08 = 0 then Some k
      else
        do { pkt \<leftarrow> index_set (k_packet k) (k_packet_idx k) b;
             idx \<leftarrow> (if k_packet_idx k + 1 < 256 then Some (k_packet_idx k + 1) else panic);
             if idx = 3 then
               do { let k1 = k \<lparr> k_packet := pkt, k_packet_idx := 0 \<rparr>;
                    status \<leftarrow> index_get pkt 0;
                    raw_dx \<leftarrow> index_get pkt 1;
                    raw_dy \<leftarrow> index_get pkt 2;
                    if status AND 0xC0 \<noteq> 0 then Some k1
                    else do { ev \<leftarrow> decode_packet status raw_dx raw_dy;
                              buf \<leftarrow> MouseBuffer_push ev (k_mouse_buffer k1);
                              Some (k1 \<lparr> k_mouse_buffer := buf \<rparr>) } }
             else Some (k \<lparr> k_packet := pkt, k_packet_idx := idx \<rparr>) })"

text \<open>The five bytes of the fields in user memory; the sixth byte of the structure is padding, whose
  content \<open>pad\<close> the code does not determine.\<close>

definition MouseEvent_bytes :: "byte \<Rightarrow> MouseEvent \<Rightarrow> byte list" where
  "MouseEvent_bytes pad ev = [ucast (dx ev), ucast (drop_bit 8 (dx ev)), ucast (dy ev), ucast (drop_bit 8 (dy ev)), buttons ev, pad]"

definition sys_read_mouse ::
    "'s nodit_set_ops \<Rightarrow> x86_ops \<Rightarrow> byte \<Rightarrow> nat \<Rightarrow> nat \<Rightarrow> ('s, 'z) Mse_scheme \<Rightarrow> (nat \<times> ('s, 'z) Mse_scheme) rust" where
  "sys_read_mouse S X pad c mouse_event_out_ptr k =
     do { valid \<leftarrow> validate_user_ptr S X c mouse_event_out_ptr 6 k;
          if \<not> valid then Some (1, k)
          else do { (r, k1) \<leftarrow> try_read_mouse k;
                    case r of
                      Some event \<Rightarrow> do { k2 \<leftarrow> user_write c mouse_event_out_ptr (MouseEvent_bytes pad event) k1; Some (0, k2) }
                    | None \<Rightarrow> Some (1, k1) } }"

section \<open>Initialisation of the controller\<close>

record ports =
  in_64 :: "byte list"
  in_60 :: "byte list"
  outs :: "(nat \<times> byte) list"

definition inb_64 :: "ports \<Rightarrow> (byte \<times> ports) option" where
  "inb_64 p = (case in_64 p of [] \<Rightarrow> None | b # bs \<Rightarrow> Some (b, p \<lparr> in_64 := bs \<rparr>))"

definition inb_60 :: "ports \<Rightarrow> (byte \<times> ports) option" where
  "inb_60 p = (case in_60 p of [] \<Rightarrow> None | b # bs \<Rightarrow> Some (b, p \<lparr> in_60 := bs \<rparr>))"

definition outb :: "nat \<Rightarrow> byte \<Rightarrow> ports \<Rightarrow> ports" where
  "outb port b p = p \<lparr> outs := outs p @ [(port, b)] \<rparr>"

partial_function (option) ps2_wait_write :: "ports \<Rightarrow> ports option" where
  "ps2_wait_write p =
     Option.bind (inb_64 p) (\<lambda>r. if fst r AND 0x02 = 0 then Some (snd r) else ps2_wait_write (snd r))"

partial_function (option) ps2_wait_read :: "ports \<Rightarrow> ports option" where
  "ps2_wait_read p =
     Option.bind (inb_64 p) (\<lambda>r. if fst r AND 0x01 \<noteq> 0 then Some (snd r) else ps2_wait_read (snd r))"

definition mouse_init :: "ports \<Rightarrow> ports option" where
  "mouse_init p =
     do { p \<leftarrow> ps2_wait_write p;
          let p = outb 0x64 0xA8 p;
          p \<leftarrow> ps2_wait_write p;
          let p = outb 0x64 0x20 p;
          p \<leftarrow> ps2_wait_read p;
          (ccb, p) \<leftarrow> inb_60 p;
          let ccb = ccb OR 0x02;
          let ccb = ccb AND (NOT 0x20);
          p \<leftarrow> ps2_wait_write p;
          let p = outb 0x64 0x60 p;
          p \<leftarrow> ps2_wait_write p;
          let p = outb 0x60 ccb p;
          p \<leftarrow> ps2_wait_write p;
          let p = outb 0x64 0xD4 p;
          p \<leftarrow> ps2_wait_write p;
          let p = outb 0x60 0xF4 p;
          p \<leftarrow> ps2_wait_read p;
          (ack, p) \<leftarrow> inb_60 p;
          Some p }"

section \<open>The mouse buffer is a queue\<close>

definition mouse_ok :: "MouseBuffer \<Rightarrow> bool" where
  "mouse_ok = ring_ok MOUSE_BUFFER_SIZE"

definition mouse_contents :: "MouseBuffer \<Rightarrow> MouseEvent list" where
  "mouse_contents = ring_contents MOUSE_BUFFER_SIZE"

interpretation mice: dropping_queue mouse_ok mouse_contents MOUSE_BUFFER_SIZE MouseBuffer_push MouseBuffer_pop
  unfolding mouse_ok_def mouse_contents_def MouseBuffer_push_def MouseBuffer_pop_def
  by (rule ring_queue) (simp add: MOUSE_BUFFER_SIZE_def U64_LIMIT_num)

lemma MouseBuffer_new_ok: "mouse_ok MouseBuffer_new" "mouse_contents MouseBuffer_new = []"
  using ring_new_ok [of MOUSE_BUFFER_SIZE MouseEvent_EMPTY]
  by (simp_all add: mouse_ok_def mouse_contents_def MouseBuffer_new_def MOUSE_BUFFER_SIZE_def)

section \<open>Lemmas\<close>

text \<open>A byte with the sign bits put in front is the byte less 256; it can be negated. \<close>

definition sign_extended :: "byte \<Rightarrow> bool \<Rightarrow> 16 word" where
  "sign_extended b s = ucast b OR (if s then - 256 else 0)"

lemma sint_small: "- 32768 \<le> i \<Longrightarrow> i < 32768 \<Longrightarrow> sint (word_of_int i :: 16 word) = i"
  by (simp add: sint_sbintrunc' signed_take_bit_int_eq_self)

lemma sign_extended_int: "sign_extended b s = word_of_int (int (unat b) - (if s then 256 else 0))"
proof -
  have m: "(- 256 :: 16 word) = NOT (mask 8)" by (simp add: mask_numeral)
  have "(ucast b :: 16 word) AND NOT (mask 8) = 0"
    by (rule bit_word_eqI) (auto simp: bit_simps dest: bit_imp_le_length)
  then have "(ucast b :: 16 word) OR - 256 = ucast b + - 256" unfolding m by (rule disjunctive_add_eq_or [symmetric])
  then show ?thesis by (cases s) (simp_all add: sign_extended_def)
qed

lemma sign_extended_val:
  "sint (sign_extended b s) = int (unat b) - (if s then 256 else 0)" "sign_extended b s \<noteq> 0x8000"
  "sint (- sign_extended b s) = (if s then 256 else 0) - int (unat b)"
proof -
  have u: "int (unat b) < 256" "0 \<le> int (unat b)" using unsigned_less [of b, where 'a = int] by simp_all
  show 1: "sint (sign_extended b s) = int (unat b) - (if s then 256 else 0)"
    unfolding sign_extended_int by (rule sint_small) (use u in \<open>cases s; simp only: if_True if_False; linarith\<close>)+
  have 2: "sint (0x8000 :: 16 word) = - 32768" by simp
  show "sign_extended b s \<noteq> 0x8000"
  proof
    assume "sign_extended b s = 0x8000"
    with 1 2 have "int (unat b) - (if s then 256 else 0) = - 32768" by (simp only:)
    then show False using u by (cases s; simp only: if_True if_False; linarith)
  qed
  have "- sign_extended b s = word_of_int ((if s then 256 else 0) - int (unat b))"
    unfolding sign_extended_int by simp
  also have "sint \<dots> = (if s then 256 else 0) - int (unat b)" by (rule sint_small) (use u in \<open>cases s; simp only: if_True if_False; linarith\<close>)+
  finally show "sint (- sign_extended b s) = (if s then 256 else 0) - int (unat b)" .
qed

lemma decode_packet_ok:
  "decode_packet st x y = Some \<lparr> dx = sign_extended x (st AND 0x10 \<noteq> 0), dy = - sign_extended y (st AND 0x20 \<noteq> 0),
     buttons = (if st AND 0x01 \<noteq> 0 then MOUSE_LEFT else 0) OR (if st AND 0x02 \<noteq> 0 then MOUSE_RIGHT else 0)
       OR (if st AND 0x04 \<noteq> 0 then MOUSE_MIDDLE else 0) \<rparr>"
  using sign_extended_val(2) [of y "st AND 0x20 \<noteq> 0"]
  by (simp add: decode_packet_def neg_i16_def Let_def sign_extended_def)

definition packet_ok :: "('s, 'z) Mse_scheme \<Rightarrow> bool" where
  "packet_ok k \<longleftrightarrow> length (k_packet k) = 3 \<and> k_packet_idx k < 3 \<and> mouse_ok (k_mouse_buffer k)"

lemma on_mouse_interrupt_ok:
  assumes "packet_ok k"
  shows "\<exists>k'. on_mouse_interrupt b k = Some k' \<and> packet_ok k'"
proof (cases "k_packet_idx k = 0 \<and> b AND 0x08 = 0")
  case True
  then show ?thesis using assms by (simp add: on_mouse_interrupt_def)
next
  case False
  let ?pkt = "(k_packet k)[k_packet_idx k := b]"
  have l: "length (k_packet k) = 3" "k_packet_idx k < 3" "mouse_ok (k_mouse_buffer k)" using assms by (simp_all add: packet_ok_def)
  consider "k_packet_idx k + 1 < 3" | "k_packet_idx k + 1 = 3" using l(2) by linarith
  then show ?thesis
  proof cases
    case 1
    then show ?thesis using False l by (auto simp: on_mouse_interrupt_def panic_free packet_ok_def)
  next
    case 2
    obtain buf where buf: "MouseBuffer_push (the (decode_packet (?pkt ! 0) (?pkt ! 1) (?pkt ! 2))) (k_mouse_buffer k) = Some buf" "mouse_ok buf"
      using mice.push_total [OF l(3)] by blast
    have i: "index_set (k_packet k) (k_packet_idx k) b = Some ?pkt" "index_get ?pkt 0 = Some (?pkt ! 0)"
      "index_get ?pkt 1 = Some (?pkt ! 1)" "index_get ?pkt 2 = Some (?pkt ! 2)" using l by (simp_all add: panic_free)
    show ?thesis
    proof (cases "?pkt ! 0 AND 0xC0 \<noteq> 0")
      case True
      then show ?thesis using False 2 l i by (simp add: on_mouse_interrupt_def packet_ok_def Let_def)
    next
      case no: False
      then show ?thesis using False 2 l i buf decode_packet_ok [of "?pkt ! 0" "?pkt ! 1" "?pkt ! 2"]
        by (simp add: on_mouse_interrupt_def packet_ok_def Let_def)
    qed
  qed
qed

text \<open>The state a whole packet leaves.\<close>

lemma three_bytes:
  fixes k :: "('s, 'z) Mse_scheme"
  assumes "packet_ok k" "k_packet_idx k = 0" "st AND 0x08 \<noteq> 0" "st AND 0xC0 = 0"
  shows "\<exists>buf. fold_rust on_mouse_interrupt [st, x, y] k = Some (k \<lparr> k_packet := [st, x, y], k_packet_idx := 0, k_mouse_buffer := buf \<rparr>) \<and>
    mouse_ok buf \<and> mouse_contents buf =
      (if length (mouse_contents (k_mouse_buffer k)) < MOUSE_BUFFER_SIZE
       then mouse_contents (k_mouse_buffer k) @ [the (decode_packet st x y)] else mouse_contents (k_mouse_buffer k))"
proof -
  obtain a b c where p: "k_packet k = [a, b, c]"
    using assms(1) by (auto simp: packet_ok_def length_Suc_conv numeral_3_eq_3)
  have 1: "on_mouse_interrupt st k = Some (k \<lparr> k_packet := [st, b, c], k_packet_idx := 1 \<rparr>)"
    using assms(2,3) p by (simp add: on_mouse_interrupt_def index_set_def)
  let ?k1 = "k \<lparr> k_packet := [st, b, c], k_packet_idx := 1 \<rparr>"
  have 2: "on_mouse_interrupt x ?k1 = Some (k \<lparr> k_packet := [st, x, c], k_packet_idx := 2 \<rparr>)"
    by (simp add: on_mouse_interrupt_def index_set_def)
  let ?k2 = "k \<lparr> k_packet := [st, x, c], k_packet_idx := 2 \<rparr>"
  obtain buf where buf: "MouseBuffer_push (the (decode_packet st x y)) (k_mouse_buffer k) = Some buf" "mouse_ok buf"
    "mouse_contents buf = (if length (mouse_contents (k_mouse_buffer k)) < MOUSE_BUFFER_SIZE
       then mouse_contents (k_mouse_buffer k) @ [the (decode_packet st x y)] else mouse_contents (k_mouse_buffer k))"
    using mice.push_total assms(1) unfolding packet_ok_def by blast
  have "on_mouse_interrupt y ?k2 = Some (k \<lparr> k_packet := [st, x, y], k_packet_idx := 0, k_mouse_buffer := buf \<rparr>)"
    using assms(4) buf(1) decode_packet_ok [of st x y]
    by (simp add: on_mouse_interrupt_def index_set_def index_get_def Let_def)
  then show ?thesis using 1 2 buf(2,3) by (intro exI [of _ buf]) simp
qed

text \<open>Waiting: any number of answers without the ready bit, then one with it.\<close>

lemma wait_write_step:
  "list_all (\<lambda>b. b AND 0x02 \<noteq> 0) busy \<Longrightarrow> r AND 0x02 = 0 \<Longrightarrow> in_64 p = busy @ r # rest \<Longrightarrow>
   ps2_wait_write p = Some (p \<lparr> in_64 := rest \<rparr>)"
proof (induction busy arbitrary: p)
  case Nil
  then show ?case by (subst ps2_wait_write.simps) (simp add: inb_64_def)
next
  case (Cons b busy)
  from Cons.IH [of "p \<lparr> in_64 := busy @ r # rest \<rparr>"] Cons.prems show ?case
    by (subst ps2_wait_write.simps) (simp add: inb_64_def)
qed

lemma wait_read_step:
  "list_all (\<lambda>b. b AND 0x01 = 0) busy \<Longrightarrow> r AND 0x01 \<noteq> 0 \<Longrightarrow> in_64 p = busy @ r # rest \<Longrightarrow>
   ps2_wait_read p = Some (p \<lparr> in_64 := rest \<rparr>)"
proof (induction busy arbitrary: p)
  case Nil
  then show ?case by (subst ps2_wait_read.simps) (simp add: inb_64_def)
next
  case (Cons b busy)
  from Cons.IH [of "p \<lparr> in_64 := busy @ r # rest \<rparr>"] Cons.prems show ?case
    by (subst ps2_wait_read.simps) (simp add: inb_64_def)
qed

lemma ready_write:
  "list_all (\<lambda>b. b AND 0x02 \<noteq> 0) busy \<Longrightarrow> r AND 0x02 = 0 \<Longrightarrow>
   ps2_wait_write \<lparr> in_64 = busy @ r # rest, in_60 = ds, outs = ws \<rparr> = Some \<lparr> in_64 = rest, in_60 = ds, outs = ws \<rparr>"
  by (simp add: wait_write_step)

lemma ready_read:
  "list_all (\<lambda>b. b AND 0x01 = 0) busy \<Longrightarrow> r AND 0x01 \<noteq> 0 \<Longrightarrow>
   ps2_wait_read \<lparr> in_64 = busy @ r # rest, in_60 = ds, outs = ws \<rparr> = Some \<lparr> in_64 = rest, in_60 = ds, outs = ws \<rparr>"
  by (simp add: wait_read_step)

lemma sys_read_mouse_some:
  fixes k :: "('s, 'z) Mse_scheme"
  assumes "user_view k c = Some (cr3, v)" "validate_user_ptr S X c out 6 k = Some True"
    "mouse_ok (k_mouse_buffer k)" "mouse_contents (k_mouse_buffer k) = e # es"
  shows "\<exists>k'. sys_read_mouse S X pad c out k = Some (0, k') \<and> mouse_contents (k_mouse_buffer k') = es \<and>
    mem_read out 6 (k_umem k' cr3) = MouseEvent_bytes pad e"
proof -
  from mice.pop_some [OF assms(3,4)] obtain b where
    b: "MouseBuffer_pop (k_mouse_buffer k) = Some (Some e, b)" "mouse_contents b = es" by blast
  have "user_view (k \<lparr> k_mouse_buffer := b \<rparr>) c = Some (cr3, v)"
    using user_view_cong [of "k \<lparr> k_mouse_buffer := b \<rparr>" k c] assms(1) by simp
  from user_write_eq [OF this] have
    "sys_read_mouse S X pad c out k = Some (0, k \<lparr> k_mouse_buffer := b, k_umem := (k_umem k)(cr3 := mem_write out (MouseEvent_bytes pad e) (k_umem k cr3)) \<rparr>)"
    using assms(2) b(1) by (simp add: sys_read_mouse_def try_read_mouse_def)
  moreover have "length (MouseEvent_bytes pad e) = 6" by (simp add: MouseEvent_bytes_def)
  ultimately show ?thesis using b(2) by simp
qed

section \<open>Properties\<close>

text \<open>C39. A movement packet becomes one event with the right signed motion. When a packet starts, its
  three bytes never make the driver panic; if the status byte is valid and reports no overflow, exactly
  one event is appended to a buffer with room, its horizontal motion is the second byte less 256 when
  the sign bit is set, its vertical motion is the opposite of the third byte read the same way, and the
  driver is ready for the next packet. Stray bytes without the synchronisation bit change nothing.\<close>

theorem mouse_packet_event:
  fixes k :: "('s, 'z) Mse_scheme"
  assumes "packet_ok k" "k_packet_idx k = 0" "st AND 0x08 \<noteq> 0" "st AND 0xC0 = 0"
    "length (mouse_contents (k_mouse_buffer k)) < MOUSE_BUFFER_SIZE" "list_all (\<lambda>b. b AND 0x08 = 0) stray"
  shows "\<exists>k' ev. fold_rust on_mouse_interrupt (stray @ [st, x, y]) k = Some k' \<and> packet_ok k' \<and> k_packet_idx k' = 0 \<and>
    mouse_contents (k_mouse_buffer k') = mouse_contents (k_mouse_buffer k) @ [ev] \<and>
    sint (dx ev) = int (unat x) - (if st AND 0x10 \<noteq> 0 then 256 else 0) \<and>
    sint (dy ev) = (if st AND 0x20 \<noteq> 0 then 256 else 0) - int (unat y)"
proof -
  have "fold_rust on_mouse_interrupt stray k = Some k"
    using assms(2,6) by (induction stray) (simp_all add: on_mouse_interrupt_def)
  moreover from three_bytes [OF assms(1-4), of x y] assms(5) obtain buf where
    "fold_rust on_mouse_interrupt [st, x, y] k = Some (k \<lparr> k_packet := [st, x, y], k_packet_idx := 0, k_mouse_buffer := buf \<rparr>)"
    "mouse_ok buf" "mouse_contents buf = mouse_contents (k_mouse_buffer k) @ [the (decode_packet st x y)]" by auto
  ultimately show ?thesis
    using sign_extended_val(1) [of x "st AND 0x10 \<noteq> 0"] sign_extended_val(3) [of y "st AND 0x20 \<noteq> 0"]
      decode_packet_ok [of st x y]
    by (intro exI [of _ "k \<lparr> k_packet := [st, x, y], k_packet_idx := 0, k_mouse_buffer := buf \<rparr>"]
          exI [of _ "the (decode_packet st x y)"])
      (simp add: fold_rust_append packet_ok_def)
qed

definition mouse_machine :: "(interval \<times> unit) list Mse" where
  "mouse_machine = Kbd.extend (kbd_machine False) \<lparr> k_mouse_buffer = MouseBuffer_new, k_packet = [0, 0, 0], k_packet_idx = 0 \<rparr>"

theorem mouse_packet_event_witness:
  "\<exists>k' ev. fold_rust on_mouse_interrupt [0xF0, 0x18, 0xFE, 3] mouse_machine = Some k' \<and>
     mouse_contents (k_mouse_buffer k') = [ev] \<and> sint (dx ev) = - 2 \<and> sint (dy ev) = - 3"
proof -
  have m: "k_mouse_buffer mouse_machine = MouseBuffer_new" "k_packet mouse_machine = [0, 0, 0]" "k_packet_idx mouse_machine = 0"
    by (simp_all add: mouse_machine_def Kbd.defs)
  then have "packet_ok mouse_machine" using MouseBuffer_new_ok by (simp add: packet_ok_def)
  from mouse_packet_event [OF this m(3), of "0x18" "[0xF0]" "0xFE" 3] show ?thesis
    using m MouseBuffer_new_ok by (auto simp: MOUSE_BUFFER_SIZE_def)
qed

text \<open>C40. The driver's initialisation finishes whenever the controller becomes ready after any finite
  number of polls each time it is asked, and leaves the controller as intended: the auxiliary port is
  enabled, the configuration byte is written back with the mouse interrupt enabled, the mouse clock
  running and every other bit unchanged, streaming is switched on, and both answers of the controller,
  the configuration byte and the acknowledgement, have been taken from the data port.\<close>

theorem mouse_init_finishes:
  assumes "\<And>i. i \<in> {0, 1, 3, 4, 5, 6} \<Longrightarrow> list_all (\<lambda>b. b AND 0x02 \<noteq> 0) (busy i) \<and> rdy i AND 0x02 = 0"
    "\<And>i. i \<in> {2, 7} \<Longrightarrow> list_all (\<lambda>b. b AND 0x01 = 0) (busy i) \<and> rdy i AND 0x01 \<noteq> (0 :: byte)"
    "in_64 p = concat (map (\<lambda>i. busy i @ [rdy i]) [0, 1, 2, 3, 4, 5, 6, 7])" "in_60 p = [ccb, ack]"
  shows "mouse_init p = Some \<lparr> in_64 = [], in_60 = [],
    outs = outs p @ [(0x64, 0xA8), (0x64, 0x20), (0x64, 0x60), (0x60, (ccb OR 0x02) AND NOT 0x20), (0x64, 0xD4), (0x60, 0xF4)] \<rparr>"
proof -
  have p: "p = \<lparr> in_64 = busy 0 @ rdy 0 # busy 1 @ rdy 1 # busy 2 @ rdy 2 # busy 3 @ rdy 3 # busy 4 @ rdy 4 #
      busy 5 @ rdy 5 # busy 6 @ rdy 6 # busy 7 @ rdy 7 # [], in_60 = [ccb, ack], outs = outs p \<rparr>"
    using assms(3,4) by (cases p) simp
  note w = ready_write [OF conjunct1 [OF assms(1)] conjunct2 [OF assms(1)]]
  note r = ready_read [OF conjunct1 [OF assms(2)] conjunct2 [OF assms(2)]]
  show ?thesis
    by (subst p, unfold mouse_init_def Let_def outb_def inb_60_def)
      (simp add: w [of 0] w [of 1] w [of 3] w [of 4] w [of 5] w [of 6] r [of 2] r [of 7])
qed

theorem mouse_init_finishes_witness:
  "mouse_init \<lparr> in_64 = [2, 0, 0, 0, 1, 0, 0, 2, 2, 0, 0, 1], in_60 = [0x61, 0xFA], outs = [] \<rparr>
     = Some \<lparr> in_64 = [], in_60 = [], outs = [(0x64, 0xA8), (0x64, 0x20), (0x64, 0x60), (0x60, 0x43), (0x64, 0xD4), (0x60, 0xF4)] \<rparr>"
proof -
  define busy :: "nat \<Rightarrow> byte list" where "busy = (\<lambda>i. if i = 0 then [2] else if i = 2 then [0] else if i = 5 then [2, 2] else [])"
  define rdy :: "nat \<Rightarrow> byte" where "rdy = (\<lambda>i. if i = 2 \<or> i = 7 then 1 else 0)"
  have a: "list_all (\<lambda>b. b AND 0x02 \<noteq> 0) (busy i) \<and> rdy i AND 0x02 = 0" if "i \<in> {0, 1, 3, 4, 5, 6}" for i
    using that by (auto simp: busy_def rdy_def)
  have b: "list_all (\<lambda>b. b AND 0x01 = 0) (busy i) \<and> rdy i AND 0x01 \<noteq> 0" if "i \<in> {2, 7}" for i
    using that by (auto simp: busy_def rdy_def)
  show ?thesis
    using mouse_init_finishes [where busy = busy and rdy = rdy and ccb = "0x61" and ack = "0xFA" and
        p = "\<lparr> in_64 = [2, 0, 0, 0, 1, 0, 0, 2, 2, 0, 0, 1], in_60 = [0x61, 0xFA], outs = [] \<rparr>", OF a b]
    by (simp add: busy_def rdy_def)
qed

end
