(* ===== verification/Asm.thy ===== *)
theory Asm
  imports Prelude
begin

unbundle bit_operations_syntax

text \<open>
  The fragment of x86-64 that the kernel's naked functions are written in. Memory is a map from
  addresses to 64-bit cells; the code accesses it in aligned 8-byte units only, and an access that is
  not aligned is outside the model and stops the execution. The per-CPU fields that the code reaches
  through the GS segment are fields of the state, and they can be reached only while GS points at the
  kernel's data, so that a missing or superfluous \<^verbatim>\<open>swapgs\<close> stops the execution too. All
  jumps of the naked functions are forward, to a numbered label.
\<close>

section \<open>Machine\<close>

type_synonym u64 = "64 word"

datatype reg = RAX | RBX | RCX | RDX | RSI | RDI | RBP | RSP | R8 | R9 | R10 | R11 | R12 | R13 | R14 | R15

record asm_state =
  regs :: "reg \<Rightarrow> u64"
  mem :: "u64 \<Rightarrow> u64"
  zf :: bool
  gs_kernel :: bool
  gs_ctx :: u64
  gs_in_syscall :: "8 word"
  gs_scratch :: u64
  gs_stack_top :: u64

datatype gs_field = GsCtx | GsScratch | GsStackTop

datatype instr =
    PUSH reg
  | POP reg
  | PUSH_GS gs_field
  | MOV reg reg
  | MOV_I reg u64
  | LOAD reg reg u64
  | STORE reg u64 reg
  | GS_LOAD reg gs_field
  | GS_STORE gs_field reg
  | GS_SET_IN_SYSCALL "8 word"
  | GS_CMP_IN_SYSCALL "8 word"
  | TEST reg reg
  | TEST_I reg u64
  | AND_I reg u64
  | OR_I reg u64
  | CMP_I reg u64
  | ADD_I reg u64
  | SUB_I reg u64
  | SWAPGS
  | LABEL nat
  | JMP nat
  | JZ nat
  | JNE nat
  | CALL nat
  | IRETQ

text \<open>The outcome of a run: the processor state after \<^verbatim>\<open>iretq\<close>, a call that does not return,
  or an execution that left the model.\<close>

datatype outcome =
    Iret (o_rip: u64) (o_cs: u64) (o_rflags: u64) (o_ss: u64) (o_state: asm_state)
  | NoReturn nat asm_state
  | Stuck

definition get_gs :: "gs_field \<Rightarrow> asm_state \<Rightarrow> u64" where
  "get_gs f s = (case f of GsCtx \<Rightarrow> gs_ctx s | GsScratch \<Rightarrow> gs_scratch s | GsStackTop \<Rightarrow> gs_stack_top s)"

definition set_gs :: "gs_field \<Rightarrow> u64 \<Rightarrow> asm_state \<Rightarrow> asm_state" where
  "set_gs f v s = (case f of GsCtx \<Rightarrow> s \<lparr> gs_ctx := v \<rparr> | GsScratch \<Rightarrow> s \<lparr> gs_scratch := v \<rparr> | GsStackTop \<Rightarrow> s \<lparr> gs_stack_top := v \<rparr>)"

definition set_reg :: "reg \<Rightarrow> u64 \<Rightarrow> asm_state \<Rightarrow> asm_state" where
  "set_reg r v s = s \<lparr> regs := (regs s)(r := v) \<rparr>"

definition aligned :: "u64 \<Rightarrow> bool" where
  "aligned a \<longleftrightarrow> uint a mod 8 = 0"

definition load :: "u64 \<Rightarrow> asm_state \<Rightarrow> u64 option" where
  "load a s = (if aligned a then Some (mem s a) else None)"

definition store :: "u64 \<Rightarrow> u64 \<Rightarrow> asm_state \<Rightarrow> asm_state option" where
  "store a v s = (if aligned a then Some (s \<lparr> mem := (mem s)(a := v) \<rparr>) else None)"

definition push :: "u64 \<Rightarrow> asm_state \<Rightarrow> asm_state option" where
  "push v s = store (regs s RSP - 8) v (set_reg RSP (regs s RSP - 8) s)"

text \<open>The instructions that only compute.\<close>

fun step :: "instr \<Rightarrow> asm_state \<Rightarrow> asm_state option" where
  "step (PUSH r) s = push (regs s r) s"
| "step (POP r) s = do { v \<leftarrow> load (regs s RSP) s; Some (set_reg r v (set_reg RSP (regs s RSP + 8) s)) }"
| "step (PUSH_GS f) s = (if gs_kernel s then push (get_gs f s) s else None)"
| "step (MOV d r) s = Some (set_reg d (regs s r) s)"
| "step (MOV_I d v) s = Some (set_reg d v s)"
| "step (LOAD d b off) s = do { v \<leftarrow> load (regs s b + off) s; Some (set_reg d v s) }"
| "step (STORE b off r) s = store (regs s b + off) (regs s r) s"
| "step (GS_LOAD d f) s = (if gs_kernel s then Some (set_reg d (get_gs f s) s) else None)"
| "step (GS_STORE f r) s = (if gs_kernel s then Some (set_gs f (regs s r) s) else None)"
| "step (GS_SET_IN_SYSCALL v) s = (if gs_kernel s then Some (s \<lparr> gs_in_syscall := v \<rparr>) else None)"
| "step (GS_CMP_IN_SYSCALL v) s = (if gs_kernel s then Some (s \<lparr> zf := (gs_in_syscall s = v) \<rparr>) else None)"
| "step (TEST a b) s = Some (s \<lparr> zf := (regs s a AND regs s b = 0) \<rparr>)"
| "step (TEST_I a v) s = Some (s \<lparr> zf := (regs s a AND v = 0) \<rparr>)"
| "step (AND_I a v) s = Some (set_reg a (regs s a AND v) s \<lparr> zf := (regs s a AND v = 0) \<rparr>)"
| "step (OR_I a v) s = Some (set_reg a (regs s a OR v) s \<lparr> zf := (regs s a OR v = 0) \<rparr>)"
| "step (CMP_I a v) s = Some (s \<lparr> zf := (regs s a = v) \<rparr>)"
| "step (ADD_I a v) s = Some (set_reg a (regs s a + v) s \<lparr> zf := (regs s a + v = 0) \<rparr>)"
| "step (SUB_I a v) s = Some (set_reg a (regs s a - v) s \<lparr> zf := (regs s a - v = 0) \<rparr>)"
| "step SWAPGS s = Some (s \<lparr> gs_kernel := \<not> gs_kernel s \<rparr>)"
| "step (LABEL l) s = Some s"
| "step _ s = None"

definition jump :: "nat \<Rightarrow> instr list \<Rightarrow> instr list" where
  "jump l is = dropWhile (\<lambda>i. i \<noteq> LABEL l) is"

definition iretq :: "asm_state \<Rightarrow> outcome" where
  "iretq s =
     (let a = regs s RSP
      in if aligned a
         then Iret (mem s a) (mem s (8 + a)) (mem s (16 + a)) (mem s (32 + a)) (set_reg RSP (mem s (24 + a)) s)
         else Stuck)"

lemma length_jump: "length (jump l is) \<le> length is"
  by (simp add: jump_def length_dropWhile_le)

text \<open>Executing code, given what the called functions do to the machine: \<open>None\<close> when a call does not
  return.\<close>

function exec :: "(nat \<Rightarrow> asm_state \<Rightarrow> asm_state option) \<Rightarrow> instr list \<Rightarrow> asm_state \<Rightarrow> outcome" where
  "exec F [] s = Stuck"
| "exec F (i # is) s =
     (case i of
        JMP l \<Rightarrow> exec F (jump l is) s
      | JZ l \<Rightarrow> if zf s then exec F (jump l is) s else exec F is s
      | JNE l \<Rightarrow> if zf s then exec F is s else exec F (jump l is) s
      | CALL f \<Rightarrow> (case F f s of None \<Rightarrow> NoReturn f s | Some s' \<Rightarrow> exec F is s')
      | IRETQ \<Rightarrow> iretq s
      | _ \<Rightarrow> (case step i s of None \<Rightarrow> Stuck | Some s' \<Rightarrow> exec F is s'))"
  by pat_completeness auto
termination
  by (relation "measure (\<lambda>(F, is, s). length is)") (auto simp: less_Suc_eq_le length_jump)

declare exec.simps [simp del]

section \<open>Straight-line code\<close>

fun straight :: "instr \<Rightarrow> bool" where
  "straight (JMP _) = False"
| "straight (JZ _) = False"
| "straight (JNE _) = False"
| "straight (CALL _) = False"
| "straight IRETQ = False"
| "straight _ = True"

primrec run :: "instr list \<Rightarrow> asm_state \<Rightarrow> asm_state option" where
  "run [] s = Some s"
| "run (i # is) s = do { s' \<leftarrow> step i s; run is s' }"

lemma exec_straight: "straight i \<Longrightarrow> exec F (i # is) s = (case step i s of None \<Rightarrow> Stuck | Some s' \<Rightarrow> exec F is s')"
  by (cases i) (simp_all add: exec.simps)

lemma exec_run:
  "list_all straight is \<Longrightarrow> run is s = Some s' \<Longrightarrow> exec F (is @ js) s = exec F js s'"
proof (induction "is" arbitrary: s)
  case (Cons i "is")
  then obtain s1 where "step i s = Some s1" "run is s1 = Some s'" by (auto simp: bind_eq_Some_conv)
  then show ?case using Cons.IH [of s1] Cons.prems(1) exec_straight [of i F "is @ js" s] by simp
qed simp

lemmas asm_defs = get_gs_def set_gs_def set_reg_def load_def store_def push_def

text \<open>Alignment is kept by adding multiples of eight.\<close>

lemma aligned_add: "aligned a \<Longrightarrow> aligned b \<Longrightarrow> aligned (a + b)"
proof -
  assume "aligned a" "aligned b"
  then have "8 dvd uint a + uint b" by (auto simp: aligned_def mod_eq_0_iff_dvd)
  then have "8 dvd (uint a + uint b) mod 2 ^ 64" by (rule dvd_mod) simp
  then show ?thesis by (simp add: aligned_def uint_word_ariths mod_eq_0_iff_dvd)
qed

lemma aligned_diff: "aligned a \<Longrightarrow> aligned b \<Longrightarrow> aligned (a - b)"
proof -
  assume "aligned a" "aligned b"
  then have "8 dvd uint a - uint b" by (auto simp: aligned_def mod_eq_0_iff_dvd)
  then have "8 dvd (uint a - uint b) mod 2 ^ 64" by (rule dvd_mod) simp
  then show ?thesis by (simp add: aligned_def uint_word_ariths mod_eq_0_iff_dvd)
qed

lemma aligned_num [simp]:
  "aligned a \<Longrightarrow> uint (numeral n :: u64) mod 8 = 0 \<Longrightarrow> aligned (a + numeral n)"
  "aligned a \<Longrightarrow> uint (numeral n :: u64) mod 8 = 0 \<Longrightarrow> aligned (numeral n + a)"
  "aligned a \<Longrightarrow> uint (numeral n :: u64) mod 8 = 0 \<Longrightarrow> aligned (a - numeral n)"
  by (simp_all add: aligned_add aligned_diff aligned_def [of "numeral n"])

text \<open>What evaluates a run symbolically.\<close>

lemmas exec_simps = exec.simps asm_defs jump_def iretq_def Let_def

end
