(* ===== verification/Interrupt_Entry.thy ===== *)
theory Interrupt_Entry
  imports Asm
begin

unbundle bit_operations_syntax

text \<open>
  The naked functions through which the kernel is entered and left: the timer, keyboard, mouse and
  reschedule interrupt handlers and the first switch to a task (\<^verbatim>\<open>interrupt/handlers.rs\<close>),
  and the entry of system calls (\<^verbatim>\<open>raw_syscall_handler.rs\<close>). Each definition lists the
  instructions in the order of the source; a called function is a number, and what it does to the
  machine is an argument of the execution.
\<close>

section \<open>Layout of a saved context\<close>

definition CTX_R15 :: u64 where "CTX_R15 = 0"
definition CTX_R14 :: u64 where "CTX_R14 = 8"
definition CTX_R13 :: u64 where "CTX_R13 = 16"
definition CTX_R12 :: u64 where "CTX_R12 = 24"
definition CTX_R11 :: u64 where "CTX_R11 = 32"
definition CTX_R10 :: u64 where "CTX_R10 = 40"
definition CTX_R9 :: u64 where "CTX_R9 = 48"
definition CTX_R8 :: u64 where "CTX_R8 = 56"
definition CTX_RDI :: u64 where "CTX_RDI = 64"
definition CTX_RSI :: u64 where "CTX_RSI = 72"
definition CTX_RBP :: u64 where "CTX_RBP = 80"
definition CTX_RBX :: u64 where "CTX_RBX = 88"
definition CTX_RDX :: u64 where "CTX_RDX = 96"
definition CTX_RCX :: u64 where "CTX_RCX = 104"
definition CTX_RAX :: u64 where "CTX_RAX = 112"
definition CTX_RIP :: u64 where "CTX_RIP = 120"
definition CTX_CS :: u64 where "CTX_CS = 128"
definition CTX_RFLAGS :: u64 where "CTX_RFLAGS = 136"
definition CTX_RSP :: u64 where "CTX_RSP = 144"
definition CTX_SS :: u64 where "CTX_SS = 152"

lemmas ctx_offsets =
  CTX_R15_def CTX_R14_def CTX_R13_def CTX_R12_def CTX_R11_def CTX_R10_def CTX_R9_def CTX_R8_def CTX_RDI_def
  CTX_RSI_def CTX_RBP_def CTX_RBX_def CTX_RDX_def CTX_RCX_def CTX_RAX_def CTX_RIP_def CTX_CS_def CTX_RFLAGS_def
  CTX_RSP_def CTX_SS_def

section \<open>Code\<close>

text \<open>The keyboard, mouse and reschedule handlers are the same code around a different function.\<close>

definition isr_entry :: "instr list" where
  "isr_entry =
     [PUSH R11, LOAD R11 RSP 16, TEST_I R11 3, JZ 4, SWAPGS, LABEL 4, POP R11,
      PUSH RAX, PUSH RCX, PUSH RDX, PUSH RSI, PUSH RDI, PUSH R8, PUSH R9, PUSH R10, PUSH R11]"

definition isr_exit :: "instr list" where
  "isr_exit =
     [POP R11, POP R10, POP R9, POP R8, POP RDI, POP RSI, POP RDX, POP RCX,
      LOAD RAX RSP 16, AND_I RAX 3, CMP_I RAX 3, JNE 2,
      LOAD RAX RSP 40, OR_I RAX 3, STORE RSP 40 RAX, LABEL 2,
      LOAD RAX RSP 16, TEST_I RAX 3, JZ 5, SWAPGS, LABEL 5, POP RAX, IRETQ]"

definition KEYBOARD_INNER :: nat where "KEYBOARD_INNER = 0"
definition MOUSE_INNER :: nat where "MOUSE_INNER = 1"
definition RESCHEDULE_EOI :: nat where "RESCHEDULE_EOI = 2"
definition TIMER_INNER :: nat where "TIMER_INNER = 3"
definition TIMER_BOOTSTRAP :: nat where "TIMER_BOOTSTRAP = 4"
definition TIMER_EARLY_EOI :: nat where "TIMER_EARLY_EOI = 5"
definition SYSCALL_HANDLER :: nat where "SYSCALL_HANDLER = 6"

definition keyboard_interrupt_handler :: "instr list" where
  "keyboard_interrupt_handler = isr_entry @ [CALL KEYBOARD_INNER] @ isr_exit"

definition mouse_interrupt_handler :: "instr list" where
  "mouse_interrupt_handler = isr_entry @ [CALL MOUSE_INNER] @ isr_exit"

definition reschedule_ipi_handler :: "instr list" where
  "reschedule_ipi_handler = isr_entry @ [CALL RESCHEDULE_EOI] @ isr_exit"

text \<open>The timer handler: entry, saving the interrupted context, choosing the next one, restoring it,
  and the early exit when there is no task.\<close>

definition timer_entry :: "instr list" where
  "timer_entry =
     [PUSH R11, LOAD R11 RSP 16, TEST_I R11 3, JZ 9, SWAPGS, LABEL 9,
      GS_LOAD R11 GsCtx, TEST R11 R11, JZ 2, GS_CMP_IN_SYSCALL 0, JNE 6]"

definition timer_save :: "instr list" where
  "timer_save =
     [STORE R11 CTX_RAX RAX, STORE R11 CTX_R15 R15, STORE R11 CTX_R14 R14, STORE R11 CTX_R13 R13,
      STORE R11 CTX_R12 R12, LOAD RAX RSP 0, STORE R11 CTX_R11 RAX, STORE R11 CTX_R10 R10,
      STORE R11 CTX_R9 R9, STORE R11 CTX_R8 R8, STORE R11 CTX_RDI RDI, STORE R11 CTX_RSI RSI,
      STORE R11 CTX_RBP RBP, STORE R11 CTX_RBX RBX, STORE R11 CTX_RDX RDX, STORE R11 CTX_RCX RCX,
      LOAD RAX RSP 8, STORE R11 CTX_RIP RAX, LOAD RAX RSP 16, STORE R11 CTX_CS RAX,
      LOAD RAX RSP 24, STORE R11 CTX_RFLAGS RAX, LOAD RAX RSP 32, STORE R11 CTX_RSP RAX,
      LOAD RAX RSP 40, STORE R11 CTX_SS RAX]"

definition timer_select :: "instr list" where
  "timer_select =
     [CALL TIMER_INNER, JMP 5,
      LABEL 6, GS_SET_IN_SYSCALL 0, CALL TIMER_INNER, JMP 5,
      LABEL 2, CALL TIMER_BOOTSTRAP, TEST RAX RAX, JZ 4]"

definition timer_restore :: "instr list" where
  "timer_restore =
     [LABEL 5, GS_STORE GsCtx RAX, MOV R11 RAX,
      LOAD RAX R11 CTX_RIP, STORE RSP 8 RAX, LOAD RAX R11 CTX_CS, STORE RSP 16 RAX,
      LOAD RAX R11 CTX_RFLAGS, STORE RSP 24 RAX, LOAD RAX R11 CTX_RSP, STORE RSP 32 RAX,
      LOAD RAX R11 CTX_SS, STORE RSP 40 RAX,
      LOAD RAX RSP 16, AND_I RAX 3, CMP_I RAX 3, JNE 3,
      LOAD RAX RSP 40, OR_I RAX 3, STORE RSP 40 RAX, LABEL 3,
      LOAD RAX RSP 16, TEST_I RAX 3, JZ 8, SWAPGS, LABEL 8,
      LOAD R15 R11 CTX_R15, LOAD R14 R11 CTX_R14, LOAD R13 R11 CTX_R13, LOAD R12 R11 CTX_R12,
      LOAD R10 R11 CTX_R10, LOAD R9 R11 CTX_R9, LOAD R8 R11 CTX_R8, LOAD RDI R11 CTX_RDI,
      LOAD RSI R11 CTX_RSI, LOAD RBP R11 CTX_RBP, LOAD RBX R11 CTX_RBX, LOAD RDX R11 CTX_RDX,
      LOAD RCX R11 CTX_RCX, LOAD RAX R11 CTX_RAX, LOAD R11 R11 CTX_R11,
      ADD_I RSP 8, IRETQ]"

definition timer_early_exit :: "instr list" where
  "timer_early_exit =
     [LABEL 4, POP R11, CALL TIMER_EARLY_EOI, LOAD RAX RSP 8, TEST_I RAX 3, JZ 7, SWAPGS, LABEL 7, IRETQ]"

definition timer_interrupt_handler :: "instr list" where
  "timer_interrupt_handler = timer_entry @ timer_save @ timer_select @ timer_restore @ timer_early_exit"

text \<open>The first switch to a task; \<^verbatim>\<open>rdi\<close> holds the pointer to the context.\<close>

definition load_context_and_iretq :: "instr list" where
  "load_context_and_iretq =
     [MOV R11 RDI, SUB_I RSP 40,
      LOAD RAX R11 CTX_RIP, STORE RSP 0 RAX, LOAD RAX R11 CTX_CS, STORE RSP 8 RAX,
      LOAD RAX R11 CTX_RFLAGS, STORE RSP 16 RAX, LOAD RAX R11 CTX_RSP, STORE RSP 24 RAX,
      LOAD RAX R11 CTX_SS,
      LOAD RCX RSP 8, AND_I RCX 3, CMP_I RCX 3, JNE 4, OR_I RAX 3, LABEL 4, STORE RSP 32 RAX,
      LOAD RCX RSP 8, TEST_I RCX 3, JZ 5, SWAPGS, LABEL 5,
      LOAD R15 R11 CTX_R15, LOAD R14 R11 CTX_R14, LOAD R13 R11 CTX_R13, LOAD R12 R11 CTX_R12,
      LOAD R10 R11 CTX_R10, LOAD R9 R11 CTX_R9, LOAD R8 R11 CTX_R8, LOAD RDI R11 CTX_RDI,
      LOAD RSI R11 CTX_RSI, LOAD RBP R11 CTX_RBP, LOAD RBX R11 CTX_RBX, LOAD RDX R11 CTX_RDX,
      LOAD RCX R11 CTX_RCX, LOAD RAX R11 CTX_RAX, LOAD R11 R11 CTX_R11,
      IRETQ]"

text \<open>The entry of system calls: the processor has put the return address in \<^verbatim>\<open>rcx\<close> and the
  flags in \<^verbatim>\<open>r11\<close>.\<close>

definition syscall_save :: "instr list" where
  "syscall_save =
     [STORE RAX CTX_RBX RBX, STORE RAX CTX_RCX RCX, STORE RAX CTX_RDX RDX, STORE RAX CTX_RSI RSI,
      STORE RAX CTX_RDI RDI, STORE RAX CTX_RBP RBP, STORE RAX CTX_R8 R8, STORE RAX CTX_R9 R9,
      STORE RAX CTX_R10 R10, STORE RAX CTX_R11 R11, STORE RAX CTX_R12 R12, STORE RAX CTX_R13 R13,
      STORE RAX CTX_R14 R14, STORE RAX CTX_R15 R15,
      LOAD RBX RSP 0, STORE RAX CTX_RAX RBX,
      STORE RAX CTX_RIP RCX, MOV_I RBX 0x23, STORE RAX CTX_CS RBX, STORE RAX CTX_RFLAGS R11,
      GS_LOAD RBX GsScratch, STORE RAX CTX_RSP RBX, MOV_I RBX 0x1B, STORE RAX CTX_SS RBX,
      GS_SET_IN_SYSCALL 1, LOAD RBX RAX CTX_RBX]"

definition raw_syscall_handler :: "instr list" where
  "raw_syscall_handler =
     [SWAPGS, GS_STORE GsScratch RSP, GS_LOAD RSP GsStackTop,
      PUSH RAX, GS_LOAD RAX GsCtx, TEST RAX RAX, JZ 2] @
     syscall_save @
     [LABEL 2, POP RAX,
      PUSH_GS GsScratch, PUSH RCX, PUSH R11, PUSH RAX,
      MOV RCX R10,
      CALL SYSCALL_HANDLER]"

section \<open>What a called function keeps\<close>

text \<open>The System V calling convention, for the functions the handlers call: callee-saved registers and
  the stack pointer are kept, as are the stack cells at and above the stack pointer that belong to the
  caller; GS is as it was.\<close>

definition abi_call :: "u64 set \<Rightarrow> (asm_state \<Rightarrow> asm_state option) \<Rightarrow> bool" where
  "abi_call cells f \<longleftrightarrow> (\<forall>s. \<exists>s'. f s = Some s' \<and>
     (\<forall>r\<in>{RBX, RBP, RSP, R12, R13, R14, R15}. regs s' r = regs s r) \<and>
     (\<forall>a\<in>cells. mem s' a = mem s a) \<and> gs_kernel s' = gs_kernel s)"

section \<open>Transparent interrupts\<close>

text \<open>The interrupt frame the processor has pushed.\<close>

abbreviation frame_rip :: "asm_state \<Rightarrow> u64" where "frame_rip s \<equiv> mem s (regs s RSP)"
abbreviation frame_cs :: "asm_state \<Rightarrow> u64" where "frame_cs s \<equiv> mem s (8 + regs s RSP)"
abbreviation frame_rflags :: "asm_state \<Rightarrow> u64" where "frame_rflags s \<equiv> mem s (16 + regs s RSP)"
abbreviation frame_rsp :: "asm_state \<Rightarrow> u64" where "frame_rsp s \<equiv> mem s (24 + regs s RSP)"
abbreviation frame_ss :: "asm_state \<Rightarrow> u64" where "frame_ss s \<equiv> mem s (32 + regs s RSP)"

text \<open>An interrupt has just been taken: the stack is aligned and GS is the kernel's exactly when the
  interrupted code ran in ring 0.\<close>

definition interrupted :: "asm_state \<Rightarrow> bool" where
  "interrupted s \<longleftrightarrow> aligned (regs s RSP) \<and> (gs_kernel s \<longleftrightarrow> frame_cs s AND 3 = 0)"

definition fixed_ss :: "u64 \<Rightarrow> u64 \<Rightarrow> u64" where
  "fixed_ss cs ss = (if cs AND 3 = 3 then ss OR 3 else ss)"

definition pushed :: "asm_state \<Rightarrow> u64 \<Rightarrow> u64 \<Rightarrow> u64" where
  "pushed s a = (mem s)(a - 8 := regs s RAX, a - 16 := regs s RCX, a - 24 := regs s RDX, a - 32 := regs s RSI,
     a - 40 := regs s RDI, a - 48 := regs s R8, a - 56 := regs s R9, a - 64 := regs s R10, a - 72 := regs s R11)"

definition isr_cells :: "u64 \<Rightarrow> u64 set" where
  "isr_cells a = {a - 72, a - 64, a - 56, a - 48, a - 40, a - 32, a - 24, a - 16, a - 8, a, 8 + a, 16 + a, 24 + a, 32 + a}"

lemma isr_entry_exec:
  assumes "interrupted s"
  shows "exec F (isr_entry @ js) s = exec F js (s \<lparr> regs := (regs s)(RSP := regs s RSP - 72), mem := pushed s (regs s RSP),
           zf := (frame_cs s AND 3 = 0), gs_kernel := True \<rparr>)"
  unfolding isr_entry_def using assms
  by (cases "frame_cs s AND 3 = 0"; cases s) (simp_all add: interrupted_def exec_simps pushed_def)

lemma isr_exit_exec:
  assumes "regs s RSP = a - 72" "aligned a" "gs_kernel s"
  shows "\<exists>s'. exec F isr_exit s = Iret (mem s a) (mem s (8 + a)) (mem s (16 + a)) (fixed_ss (mem s (8 + a)) (mem s (32 + a))) s' \<and>
    regs s' = (regs s)(RSP := mem s (24 + a), RAX := mem s (a - 8), RCX := mem s (a - 16), RDX := mem s (a - 24),
      RSI := mem s (a - 32), RDI := mem s (a - 40), R8 := mem s (a - 48), R9 := mem s (a - 56), R10 := mem s (a - 64),
      R11 := mem s (a - 72)) \<and> gs_kernel s' = (mem s (8 + a) AND 3 = 0)"
proof -
  consider "mem s (8 + a) AND 3 = 3" | "mem s (8 + a) AND 3 = 0" | "mem s (8 + a) AND 3 \<noteq> 0" "mem s (8 + a) AND 3 \<noteq> 3"
    by blast
  then show ?thesis
    unfolding isr_exit_def using assms
    by cases (simp_all add: exec_simps fixed_ss_def fun_upd_twist)
qed

text \<open>The three handlers around an ABI-conforming function.\<close>

lemma isr_transparent:
  assumes "interrupted s" "abi_call (isr_cells (regs s RSP)) (F f)"
  shows "\<exists>s'. exec F (isr_entry @ [CALL f] @ isr_exit) s
      = Iret (frame_rip s) (frame_cs s) (frame_rflags s) (fixed_ss (frame_cs s) (frame_ss s)) s' \<and>
    regs s' = (regs s)(RSP := frame_rsp s) \<and> gs_kernel s' = gs_kernel s"
proof -
  let ?a = "regs s RSP"
  let ?s1 = "s \<lparr> regs := (regs s)(RSP := ?a - 72), mem := pushed s ?a, zf := (frame_cs s AND 3 = 0), gs_kernel := True \<rparr>"
  from assms(2) obtain s2 where s2: "F f ?s1 = Some s2"
      "\<forall>r\<in>{RBX, RBP, RSP, R12, R13, R14, R15}. regs s2 r = regs ?s1 r"
      "\<forall>a\<in>isr_cells ?a. mem s2 a = mem ?s1 a" "gs_kernel s2 = gs_kernel ?s1" unfolding abi_call_def by blast
  have al: "aligned ?a" and gs: "gs_kernel s \<longleftrightarrow> frame_cs s AND 3 = 0" using assms(1) by (simp_all add: interrupted_def)
  have m: "mem s2 ?a = frame_rip s" "mem s2 (8 + ?a) = frame_cs s" "mem s2 (16 + ?a) = frame_rflags s"
    "mem s2 (24 + ?a) = frame_rsp s" "mem s2 (32 + ?a) = frame_ss s"
    "mem s2 (?a - 8) = regs s RAX" "mem s2 (?a - 16) = regs s RCX" "mem s2 (?a - 24) = regs s RDX" "mem s2 (?a - 32) = regs s RSI"
    "mem s2 (?a - 40) = regs s RDI" "mem s2 (?a - 48) = regs s R8" "mem s2 (?a - 56) = regs s R9" "mem s2 (?a - 64) = regs s R10"
    "mem s2 (?a - 72) = regs s R11"
    using s2(3) by (simp_all add: isr_cells_def pushed_def)
  have rsp: "regs s2 RSP = ?a - 72" "gs_kernel s2" using s2(2,4) by simp_all
  from isr_exit_exec [OF rsp(1) al rsp(2), of F] obtain s' where
    s': "exec F isr_exit s2 = Iret (frame_rip s) (frame_cs s) (frame_rflags s) (fixed_ss (frame_cs s) (frame_ss s)) s'"
      "regs s' = (regs s2)(RSP := frame_rsp s, RAX := regs s RAX, RCX := regs s RCX, RDX := regs s RDX, RSI := regs s RSI,
        RDI := regs s RDI, R8 := regs s R8, R9 := regs s R9, R10 := regs s R10, R11 := regs s R11)"
      "gs_kernel s' = (frame_cs s AND 3 = 0)" unfolding m by blast
  have "regs s' r = ((regs s)(RSP := frame_rsp s)) r" for r
    using s2(2) unfolding s'(2) by (cases r) simp_all
  then have "regs s' = (regs s)(RSP := frame_rsp s)" by (rule ext)
  moreover have "exec F (isr_entry @ [CALL f] @ isr_exit) s = exec F isr_exit s2"
    using isr_entry_exec [OF assms(1), of F "[CALL f] @ isr_exit"] s2(1) by (simp add: exec.simps)
  ultimately show ?thesis using s'(1,3) gs by auto
qed

section \<open>Saving and restoring a context\<close>

definition CTX_CELLS :: "u64 list" where
  "CTX_CELLS = [0, 8, 16, 24, 32, 40, 48, 56, 64, 72, 80, 88, 96, 104, 112, 120, 128, 136, 144, 152]"

definition ctx_cells :: "u64 \<Rightarrow> u64 set" where
  "ctx_cells p = (\<lambda>off. p + off) ` set CTX_CELLS"

text \<open>The stack cells the timer handler uses: the saved \<^verbatim>\<open>r11\<close> and the interrupt frame.\<close>

definition timer_cells :: "u64 \<Rightarrow> u64 set" where
  "timer_cells a = {a - 8, a, 8 + a, 16 + a, 24 + a, 32 + a}"

text \<open>A context in memory that agrees with registers and an interrupt frame.\<close>

definition ctx_holds :: "(u64 \<Rightarrow> u64) \<Rightarrow> u64 \<Rightarrow> (reg \<Rightarrow> u64) \<Rightarrow> u64 \<Rightarrow> u64 \<Rightarrow> u64 \<Rightarrow> u64 \<Rightarrow> u64 \<Rightarrow> bool" where
  "ctx_holds m p g rip cs fl sp ss \<longleftrightarrow>
     m p = g R15 \<and> m (p + 8) = g R14 \<and> m (p + 16) = g R13 \<and> m (p + 24) = g R12 \<and> m (p + 32) = g R11 \<and>
     m (p + 40) = g R10 \<and> m (p + 48) = g R9 \<and> m (p + 56) = g R8 \<and> m (p + 64) = g RDI \<and> m (p + 72) = g RSI \<and>
     m (p + 80) = g RBP \<and> m (p + 88) = g RBX \<and> m (p + 96) = g RDX \<and> m (p + 104) = g RCX \<and> m (p + 112) = g RAX \<and>
     m (p + 120) = rip \<and> m (p + 128) = cs \<and> m (p + 136) = fl \<and> m (p + 144) = sp \<and> m (p + 152) = ss"

lemma read_beside_ctx:
  "x \<notin> ctx_cells p \<Longrightarrow> (m(p := v)) x = m x"
  "x \<notin> ctx_cells p \<Longrightarrow> numeral k \<in> set CTX_CELLS \<Longrightarrow> (m(p + numeral k := v)) x = m x"
  by (auto simp: ctx_cells_def CTX_CELLS_def)

lemma read_ctx_beside:
  "y \<notin> ctx_cells p \<Longrightarrow> (m(y := v)) p = m p"
  "y \<notin> ctx_cells p \<Longrightarrow> numeral k \<in> set CTX_CELLS \<Longrightarrow> (m(y := v)) (p + numeral k) = m (p + numeral k)"
  by (auto simp: ctx_cells_def CTX_CELLS_def)

lemma ctx_cell_set:
  "set CTX_CELLS = {0, 8, 16, 24, 32, 40, 48, 56, 64, 72, 80, 88, 96, 104, 112, 120, 128, 136, 144, 152}"
  by (simp add: CTX_CELLS_def)

lemma timer_cells_beside:
  assumes "ctx_cells p \<inter> timer_cells a = {}"
  shows "a - 8 \<notin> ctx_cells p" "a \<notin> ctx_cells p" "8 + a \<notin> ctx_cells p" "16 + a \<notin> ctx_cells p"
    "24 + a \<notin> ctx_cells p" "32 + a \<notin> ctx_cells p"
  using assms by (auto simp: timer_cells_def)

lemmas ctx_run = exec_simps ctx_offsets ctx_holds_def read_beside_ctx read_ctx_beside ctx_cell_set fun_upd_same fun_upd_other

lemma timer_save_run:
  assumes "regs s R11 = p" "regs s RSP = a - 8" "aligned a" "aligned p" "ctx_cells p \<inter> timer_cells a = {}"
  shows "\<exists>s'. run timer_save s = Some s' \<and>
    ctx_holds (mem s') p ((regs s)(R11 := mem s (a - 8))) (mem s a) (mem s (8 + a)) (mem s (16 + a)) (mem s (24 + a)) (mem s (32 + a)) \<and>
    regs s' RSP = regs s RSP \<and> gs_kernel s' = gs_kernel s \<and> (\<forall>x. x \<notin> ctx_cells p \<longrightarrow> mem s' x = mem s x) \<and>
    gs_ctx s' = gs_ctx s \<and> gs_in_syscall s' = gs_in_syscall s"
  unfolding timer_save_def using assms(1-4) timer_cells_beside [OF assms(5)]
  by (simp add: ctx_run del: fun_upd_apply)

lemma all_reg: "(\<forall>r. P r) \<longleftrightarrow> P RAX \<and> P RBX \<and> P RCX \<and> P RDX \<and> P RSI \<and> P RDI \<and> P RBP \<and> P RSP \<and>
    P R8 \<and> P R9 \<and> P R10 \<and> P R11 \<and> P R12 \<and> P R13 \<and> P R14 \<and> P R15"
  by (blast intro: reg.induct [of P])

lemma timer_restore_exec:
  assumes "regs s RAX = p" "regs s RSP = a - 8" "aligned a" "aligned p" "ctx_cells p \<inter> timer_cells a = {}"
    "gs_kernel s" "ctx_holds (mem s) p g rip cs fl sp ss"
  shows "\<exists>s'. exec F (timer_restore @ js) s = Iret rip cs fl (fixed_ss cs ss) s' \<and> regs s' = g(RSP := sp) \<and>
    gs_kernel s' = (cs AND 3 = 0) \<and> gs_ctx s' = p"
proof -
  consider "cs AND 3 = 3" | "cs AND 3 = 0" | "cs AND 3 \<noteq> 0" "cs AND 3 \<noteq> 3" by blast
  then have "\<exists>s'. exec F (timer_restore @ js) s = Iret rip cs fl (fixed_ss cs ss) s' \<and>
      (\<forall>r. regs s' r = (g(RSP := sp)) r) \<and> gs_kernel s' = (cs AND 3 = 0) \<and> gs_ctx s' = p"
    unfolding timer_restore_def using assms(1-4,6,7) timer_cells_beside [OF assms(5)]
    by cases (simp_all add: ctx_run fixed_ss_def all_reg del: fun_upd_apply)
  then show ?thesis by blast
qed

text \<open>The first switch to a task, and the entry of a system call.\<close>

definition load_cells :: "u64 \<Rightarrow> u64 set" where
  "load_cells a = {a - 40, a - 32, a - 24, a - 16, a - 8}"

lemma load_context_exec:
  assumes "regs s RDI = p" "regs s RSP = a" "aligned a" "aligned p" "ctx_cells p \<inter> load_cells a = {}"
    "gs_kernel s" "ctx_holds (mem s) p g rip cs fl sp ss"
  shows "\<exists>s'. exec F load_context_and_iretq s = Iret rip cs fl (fixed_ss cs ss) s' \<and> regs s' = g(RSP := sp) \<and>
    gs_kernel s' = (cs AND 3 = 0)"
proof -
  have n: "a - 40 \<notin> ctx_cells p" "a - 32 \<notin> ctx_cells p" "a - 24 \<notin> ctx_cells p" "a - 16 \<notin> ctx_cells p" "a - 8 \<notin> ctx_cells p"
    using assms(5) by (auto simp: load_cells_def)
  consider "cs AND 3 = 3" | "cs AND 3 = 0" | "cs AND 3 \<noteq> 0" "cs AND 3 \<noteq> 3" by blast
  then have "\<exists>s'. exec F load_context_and_iretq s = Iret rip cs fl (fixed_ss cs ss) s' \<and>
      (\<forall>r. regs s' r = (g(RSP := sp)) r) \<and> gs_kernel s' = (cs AND 3 = 0)"
    unfolding load_context_and_iretq_def using assms(1-4,6,7) n
    by cases (simp_all add: ctx_run fixed_ss_def all_reg del: fun_upd_apply)
  then show ?thesis by blast
qed

lemma syscall_save_run:
  assumes "regs s RAX = p" "regs s RSP = a" "aligned a" "aligned p" "a \<notin> ctx_cells p" "gs_kernel s"
  shows "\<exists>s'. run syscall_save s = Some s' \<and>
    ctx_holds (mem s') p ((regs s)(RAX := mem s a)) (regs s RCX) 0x23 (regs s R11) (gs_scratch s) 0x1B \<and>
    regs s' = regs s \<and> gs_kernel s' \<and> gs_in_syscall s' = 1 \<and> mem s' a = mem s a \<and>
    gs_scratch s' = gs_scratch s \<and> gs_ctx s' = gs_ctx s"
proof -
  have "\<exists>s'. run syscall_save s = Some s' \<and>
    ctx_holds (mem s') p ((regs s)(RAX := mem s a)) (regs s RCX) 0x23 (regs s R11) (gs_scratch s) 0x1B \<and>
    (\<forall>r. regs s' r = regs s r) \<and> gs_kernel s' \<and> gs_in_syscall s' = 1 \<and> mem s' a = mem s a \<and>
    gs_scratch s' = gs_scratch s \<and> gs_ctx s' = gs_ctx s"
    unfolding syscall_save_def using assms
    by (simp add: ctx_run all_reg del: fun_upd_apply)
  then show ?thesis by blast
qed

section \<open>Properties\<close>

text \<open>C20. The keyboard, mouse and reschedule interrupts are transparent. Whatever the called function
  does within the calling convention, the interrupted code resumes at its own instruction with its own
  flags and stack and with every general register as it was, in the privilege level it had, and GS is
  switched exactly when it must be. Only the privilege bits of the stack selector may differ: they are
  set when the code returns to ring 3.\<close>

theorem interrupts_transparent:
  assumes "interrupted s" "h \<in> {(keyboard_interrupt_handler, KEYBOARD_INNER), (mouse_interrupt_handler, MOUSE_INNER),
      (reschedule_ipi_handler, RESCHEDULE_EOI)}" "abi_call (isr_cells (regs s RSP)) (F (snd h))"
  shows "\<exists>s'. exec F (fst h) s = Iret (frame_rip s) (frame_cs s) (frame_rflags s) (fixed_ss (frame_cs s) (frame_ss s)) s' \<and>
    regs s' = (regs s)(RSP := frame_rsp s) \<and> gs_kernel s' = gs_kernel s"
  using isr_transparent [of s F "snd h"] assms
  by (auto simp: keyboard_interrupt_handler_def mouse_interrupt_handler_def reschedule_ipi_handler_def)

text \<open>An interrupt of a user program, and a function that clobbers every register it may.\<close>

definition sample_asm :: asm_state where
  "sample_asm = \<lparr> regs = (\<lambda>r. if r = RSP then 0x8000 else 7), mem = (\<lambda>a. if a = 0x8008 then 0x23 else if a = 0x8020 then 0x18 else a),
     zf = False, gs_kernel = False, gs_ctx = 0x4000, gs_in_syscall = 0, gs_scratch = 0, gs_stack_top = 0x9000 \<rparr>"

definition clobber :: "asm_state \<Rightarrow> asm_state option" where
  "clobber s = Some (s \<lparr> regs := (\<lambda>r. if r \<in> {RBX, RBP, RSP, R12, R13, R14, R15} then regs s r else 0) \<rparr>)"

lemma clobber_abi: "abi_call c clobber"
  by (simp add: abi_call_def clobber_def)

lemma sample_asm_interrupted: "interrupted sample_asm"
  by (simp add: interrupted_def sample_asm_def aligned_def)

theorem interrupts_transparent_witness:
  "\<exists>s'. exec (\<lambda>_. clobber) keyboard_interrupt_handler sample_asm = Iret 0x8000 0x23 0x8010 0x1B s' \<and>
     regs s' RCX = 7 \<and> regs s' RAX = 7 \<and> regs s' RSP = 0x8018"
proof -
  have "abi_call (isr_cells (regs sample_asm RSP)) ((\<lambda>_. clobber) (snd (keyboard_interrupt_handler, KEYBOARD_INNER)))"
    using clobber_abi by simp
  from interrupts_transparent [where F = "\<lambda>_. clobber" and h = "(keyboard_interrupt_handler, KEYBOARD_INNER)", OF sample_asm_interrupted _ this] obtain s' where
    "exec (\<lambda>_. clobber) keyboard_interrupt_handler sample_asm = Iret (frame_rip sample_asm) (frame_cs sample_asm)
       (frame_rflags sample_asm) (fixed_ss (frame_cs sample_asm) (frame_ss sample_asm)) s'"
    "regs s' = (regs sample_asm)(RSP := frame_rsp sample_asm)" by auto
  then show ?thesis by (simp add: sample_asm_def fixed_ss_def)
qed

text \<open>C19. A task that the timer interrupts and later resumes continues exactly where it was. When the
  timer fires outside a system call, the handler stores the interrupted registers and frame in the
  current context before it calls the scheduler; and when the scheduler returns a context, the handler
  returns to precisely that context: its instruction, flags, stack, privilege level and all registers,
  with GS switched accordingly and the context recorded as the current one.\<close>

theorem timer_switch_exact:
  assumes "interrupted s" "gs_ctx s = p" "p \<noteq> 0" "gs_in_syscall s = 0" "aligned p" "ctx_cells p \<inter> timer_cells (regs s RSP) = {}"
    "\<And>s1. gs_kernel s1 \<Longrightarrow> ctx_holds (mem s1) p (regs s) (frame_rip s) (frame_cs s) (frame_rflags s) (frame_rsp s) (frame_ss s) \<Longrightarrow>
       \<exists>s2. F TIMER_INNER s1 = Some s2 \<and> regs s2 RSP = regs s1 RSP \<and> gs_kernel s2 \<and> regs s2 RAX = q \<and>
         ctx_holds (mem s2) q g rip cs fl sp ss"
    "aligned q" "ctx_cells q \<inter> timer_cells (regs s RSP) = {}"
  shows "\<exists>s'. exec F timer_interrupt_handler s = Iret rip cs fl (fixed_ss cs ss) s' \<and> regs s' = g(RSP := sp) \<and>
    gs_kernel s' = (cs AND 3 = 0) \<and> gs_ctx s' = q"
proof -
  let ?a = "regs s RSP"
  let ?s1 = "s \<lparr> regs := (regs s)(RSP := ?a - 8, R11 := p), mem := (mem s)(?a - 8 := regs s R11), zf := True, gs_kernel := True \<rparr>"
  have al: "aligned ?a" using assms(1) by (simp add: interrupted_def)
  have e: "exec F (timer_entry @ js) s = exec F js ?s1" for js
    unfolding timer_entry_def using assms(1-4)
    by (cases "frame_cs s AND 3 = 0"; cases s) (simp_all add: interrupted_def exec_simps)
  have r1: "regs ?s1 R11 = p" "regs ?s1 RSP = ?a - 8" by simp_all
  from timer_save_run [OF r1 al assms(5,6)] obtain s2 where
    s2: "run timer_save ?s1 = Some s2" "regs s2 RSP = ?a - 8" "gs_kernel s2"
      "ctx_holds (mem s2) p ((regs ?s1)(R11 := regs s R11)) (frame_rip s) (frame_cs s) (frame_rflags s) (frame_rsp s) (frame_ss s)"
    by auto
  have h: "ctx_holds (mem s2) p (regs s) (frame_rip s) (frame_cs s) (frame_rflags s) (frame_rsp s) (frame_ss s)"
    using s2(4) by (simp add: ctx_holds_def)
  from assms(7) [OF s2(3) h] obtain s3 where s3: "F TIMER_INNER s2 = Some s3" "regs s3 RSP = ?a - 8" "gs_kernel s3" "regs s3 RAX = q"
      "ctx_holds (mem s3) q g rip cs fl sp ss" using s2(2) by auto
  have st: "list_all straight timer_save" by (simp add: timer_save_def)
  have j: "exec F (timer_select @ timer_restore @ timer_early_exit) s2 = exec F (timer_restore @ timer_early_exit) s3"
    using s3(1) by (simp add: timer_select_def exec.simps jump_def timer_restore_def)
  have "exec F timer_interrupt_handler s = exec F (timer_restore @ timer_early_exit) s3"
    unfolding timer_interrupt_handler_def e exec_run [OF st s2(1)] j ..
  then show ?thesis using timer_restore_exec [OF s3(4,2) al assms(8,9) s3(3,5), of F timer_early_exit] by simp
qed

definition resume_ctx :: "u64 \<Rightarrow> asm_state \<Rightarrow> asm_state option" where
  "resume_ctx q s = Some (set_reg RAX q s)"

lemma sample_asm_ctx:
  "ctx_cells 0x4000 \<inter> timer_cells 0x8000 = {}" "aligned 0x4000" "aligned 0x8000"
  by (simp_all add: ctx_cells_def CTX_CELLS_def timer_cells_def aligned_def)

theorem timer_switch_exact_witness:
  "\<exists>s'. exec (\<lambda>_. resume_ctx 0x4000) timer_interrupt_handler sample_asm = Iret 0x8000 0x23 0x8010 0x1B s' \<and>
     regs s' RBX = 7 \<and> regs s' RSP = 0x8018 \<and> gs_ctx s' = 0x4000"
proof -
  have a: "gs_ctx sample_asm = 0x4000" "gs_in_syscall sample_asm = 0" "regs sample_asm RSP = 0x8000" "(0x4000 :: u64) \<noteq> 0"
    by (simp_all add: sample_asm_def)
  note d = sample_asm_ctx(1) [folded a(3)]
  have r: "\<exists>s2. (\<lambda>_. resume_ctx 0x4000) TIMER_INNER s1 = Some s2 \<and> regs s2 RSP = regs s1 RSP \<and> gs_kernel s2 \<and> regs s2 RAX = 0x4000 \<and>
      ctx_holds (mem s2) 0x4000 (regs sample_asm) (frame_rip sample_asm) (frame_cs sample_asm) (frame_rflags sample_asm)
        (frame_rsp sample_asm) (frame_ss sample_asm)"
    if "gs_kernel s1" "ctx_holds (mem s1) 0x4000 (regs sample_asm) (frame_rip sample_asm) (frame_cs sample_asm)
        (frame_rflags sample_asm) (frame_rsp sample_asm) (frame_ss sample_asm)" for s1
    using that by (simp add: resume_ctx_def set_reg_def)
  from timer_switch_exact [where F = "\<lambda>_. resume_ctx 0x4000", OF sample_asm_interrupted a(1,4,2) sample_asm_ctx(2) d r sample_asm_ctx(2) d]
  obtain s' where "exec (\<lambda>_. resume_ctx 0x4000) timer_interrupt_handler sample_asm = Iret (frame_rip sample_asm) (frame_cs sample_asm)
      (frame_rflags sample_asm) (fixed_ss (frame_cs sample_asm) (frame_ss sample_asm)) s'"
    "regs s' = (regs sample_asm)(RSP := frame_rsp sample_asm)" "gs_ctx s' = 0x4000"
    by blast
  then show ?thesis by (simp add: sample_asm_def fixed_ss_def)
qed

text \<open>C21. Entering a system call saves the whole user context and hands the arguments over. From ring 3
  with a current context, the entry code stores every user register, the return address, the flags and
  the user stack pointer in that context with the selectors of user mode, so that the task can be
  resumed from it; it switches to the task's kernel stack and to the kernel's GS, marks the CPU as
  inside a system call, and calls the handler with the six register arguments and the four stack
  arguments in the order its signature declares, all registers a callee must keep being the user's.\<close>

theorem syscall_entry_saves:
  assumes "\<not> gs_kernel s" "gs_ctx s = p" "p \<noteq> 0" "gs_stack_top s = a" "aligned a" "aligned p" "a - 8 \<notin> ctx_cells p"
    "a - 16 \<notin> ctx_cells p" "a - 24 \<notin> ctx_cells p" "a - 32 \<notin> ctx_cells p" "\<And>s. F SYSCALL_HANDLER s = None"
  shows "\<exists>s'. exec F raw_syscall_handler s = NoReturn SYSCALL_HANDLER s' \<and>
    ctx_holds (mem s') p (regs s) (regs s RCX) 0x23 (regs s R11) (regs s RSP) 0x1B \<and>
    regs s' = (regs s)(RSP := a - 32, RCX := regs s R10) \<and> gs_kernel s' \<and> gs_in_syscall s' = 1 \<and>
    mem s' (a - 32) = regs s RAX \<and> mem s' (a - 24) = regs s R11 \<and> mem s' (a - 16) = regs s RCX \<and> mem s' (a - 8) = regs s RSP"
proof -
  let ?s1 = "s \<lparr> regs := (regs s)(RSP := a - 8, RAX := p), mem := (mem s)(a - 8 := regs s RAX), zf := False, gs_kernel := True, gs_scratch := regs s RSP \<rparr>"
  have 1: "exec F ([SWAPGS, GS_STORE GsScratch RSP, GS_LOAD RSP GsStackTop, PUSH RAX, GS_LOAD RAX GsCtx, TEST RAX RAX, JZ 2] @ js) s = exec F js ?s1" for js
    using assms(1-5) by (cases s) (simp add: exec_simps)
  have r: "regs ?s1 RAX = p" "regs ?s1 RSP = a - 8" "aligned (a - 8)" "gs_kernel ?s1" using assms(5) by simp_all
  from syscall_save_run [OF r(1-3) assms(6,7) r(4)] obtain s2 where
    s2: "run syscall_save ?s1 = Some s2" "ctx_holds (mem s2) p (regs s) (regs s RCX) 0x23 (regs s R11) (regs s RSP) 0x1B"
      "regs s2 = (regs s)(RSP := a - 8, RAX := p)" "gs_kernel s2" "gs_in_syscall s2 = 1" "mem s2 (a - 8) = regs s RAX"
      "gs_scratch s2 = regs s RSP"
    by (auto simp: ctx_holds_def)
  let ?m = "(mem s2)(a - 8 := regs s RSP, a - 16 := regs s RCX, a - 24 := regs s R11, a - 32 := regs s RAX)"
  let ?s3 = "s2 \<lparr> regs := (regs s)(RSP := a - 32, RCX := regs s R10), mem := ?m \<rparr>"
  have 3: "exec F [LABEL 2, POP RAX, PUSH_GS GsScratch, PUSH RCX, PUSH R11, PUSH RAX, MOV RCX R10, CALL SYSCALL_HANDLER] s2
      = NoReturn SYSCALL_HANDLER ?s3"
    using s2(3-7) assms(5,11) by (cases s2) (simp add: exec_simps fun_upd_twist)
  have st: "list_all straight syscall_save" by (simp add: syscall_save_def)
  have "exec F raw_syscall_handler s = NoReturn SYSCALL_HANDLER ?s3"
    unfolding raw_syscall_handler_def 1 exec_run [OF st s2(1)] 3 ..
  moreover have "ctx_holds ?m p (regs s) (regs s RCX) 0x23 (regs s R11) (regs s RSP) 0x1B"
    using s2(2) assms(7-10) by (simp add: ctx_holds_def read_ctx_beside ctx_cell_set del: fun_upd_apply)
  ultimately show ?thesis using s2(4,5) by (intro exI [of _ ?s3]) simp
qed

theorem syscall_entry_saves_witness:
  "\<exists>s'. exec (\<lambda>_ _. None) raw_syscall_handler sample_asm = NoReturn SYSCALL_HANDLER s' \<and>
     mem s' (0x4000 + 144) = 0x8000 \<and> mem s' (0x4000 + 128) = 0x23 \<and> regs s' RSP = 0x8FE0"
proof -
  have c: "(0x9000 :: u64) - 8 \<notin> ctx_cells 0x4000" "(0x9000 :: u64) - 16 \<notin> ctx_cells 0x4000"
    "(0x9000 :: u64) - 24 \<notin> ctx_cells 0x4000" "(0x9000 :: u64) - 32 \<notin> ctx_cells 0x4000"
    by (simp_all add: ctx_cells_def CTX_CELLS_def)
  have a: "\<not> gs_kernel sample_asm" "gs_ctx sample_asm = 0x4000" "gs_stack_top sample_asm = 0x9000" "aligned 0x9000" "(0x4000 :: u64) \<noteq> 0"
    "regs sample_asm RSP = 0x8000"
    by (simp_all add: sample_asm_def aligned_def)
  from syscall_entry_saves [OF a(1,2,5,3,4) sample_asm_ctx(2) c, of "\<lambda>_ _. None"] show ?thesis
    using a(6) by (auto simp: ctx_holds_def)
qed

text \<open>Before the first task runs, the timer corrupts the code it interrupts: whatever register
  \<^verbatim>\<open>rax\<close> held, the interrupted code resumes with its own code selector in it. The early exit
  path loads the selector into \<^verbatim>\<open>rax\<close> for the privilege test and never restores the register.\<close>

theorem timer_early_exit_clobbers_rax:
  assumes "interrupted s" "gs_ctx s = 0" "abi_call (timer_cells (regs s RSP)) (F TIMER_EARLY_EOI)"
    "\<And>s1. \<exists>s2. F TIMER_BOOTSTRAP s1 = Some s2 \<and> regs s2 RAX = 0 \<and> regs s2 RSP = regs s1 RSP \<and> gs_kernel s2 = gs_kernel s1 \<and>
       (\<forall>x\<in>timer_cells (regs s RSP). mem s2 x = mem s1 x)"
  shows "\<exists>s'. exec F timer_interrupt_handler s = Iret (frame_rip s) (frame_cs s) (frame_rflags s) (frame_ss s) s' \<and>
    regs s' RAX = frame_cs s \<and> gs_kernel s' = gs_kernel s"
proof -
  let ?a = "regs s RSP"
  let ?s1 = "s \<lparr> regs := (regs s)(RSP := ?a - 8, R11 := 0), mem := (mem s)(?a - 8 := regs s R11), zf := True, gs_kernel := True \<rparr>"
  have al: "aligned ?a" and gs: "gs_kernel s \<longleftrightarrow> frame_cs s AND 3 = 0" using assms(1) by (simp_all add: interrupted_def)
  have e: "exec F (timer_entry @ js) s = exec F (jump 2 (drop 9 timer_entry @ js)) ?s1" for js
    unfolding timer_entry_def using assms(1,2)
    by (cases "frame_cs s AND 3 = 0"; cases s) (simp_all add: interrupted_def exec_simps)
  have j2: "jump 2 (drop 9 timer_entry @ timer_save @ timer_select @ js) = LABEL 2 # CALL TIMER_BOOTSTRAP # TEST RAX RAX # JZ 4 # js" for js
    by (simp add: jump_def timer_entry_def timer_save_def timer_select_def)
  obtain s2 where s2: "F TIMER_BOOTSTRAP ?s1 = Some s2" "regs s2 RAX = 0" "regs s2 RSP = ?a - 8" "gs_kernel s2"
      "\<forall>x\<in>timer_cells ?a. mem s2 x = mem ?s1 x" using assms(4) [of ?s1] by auto
  have m: "mem s2 ?a = frame_rip s" "mem s2 (8 + ?a) = frame_cs s" "mem s2 (16 + ?a) = frame_rflags s" "mem s2 (32 + ?a) = frame_ss s"
    using s2(5) by (simp_all add: timer_cells_def)
  have j4: "jump 4 (timer_restore @ js) = jump 4 js" for js by (simp add: jump_def timer_restore_def)
  let ?s3 = "s2 \<lparr> zf := True, regs := (regs s2)(RSP := ?a, R11 := mem s2 (?a - 8)) \<rparr>"
  obtain s4 where s4: "F TIMER_EARLY_EOI ?s3 = Some s4" "regs s4 RSP = ?a" "gs_kernel s4" "\<forall>x\<in>timer_cells ?a. mem s4 x = mem s2 x"
    using assms(3) s2(4) unfolding abi_call_def by force
  have m4: "mem s4 ?a = frame_rip s" "mem s4 (8 + ?a) = frame_cs s" "mem s4 (16 + ?a) = frame_rflags s" "mem s4 (32 + ?a) = frame_ss s"
    using s4(4) m by (simp_all add: timer_cells_def)
  have m4': "mem s4 (?a + 8) = frame_cs s" using m4(2) by (simp add: add.commute)
  have x: "\<exists>s'. exec F timer_early_exit s2' = Iret (frame_rip s) (frame_cs s) (frame_rflags s) (frame_ss s) s' \<and>
      regs s' RAX = frame_cs s \<and> gs_kernel s' = (frame_cs s AND 3 = 0)" if "s2' = s2 \<lparr> zf := True \<rparr>" for s2'
    unfolding timer_early_exit_def using that s2(3) s4(1-3) al m4 m4'
    by (cases "frame_cs s AND 3 = 0") (simp_all add: exec_simps)
  have "exec F timer_interrupt_handler s = exec F timer_early_exit (s2 \<lparr> zf := True \<rparr>)"
    unfolding timer_interrupt_handler_def e j2 using s2(1,2) j4 [of timer_early_exit]
    by (simp add: exec.simps) (simp add: jump_def timer_early_exit_def)
  then show ?thesis using x gs by simp
qed

definition boot_asm :: asm_state where
  "boot_asm = sample_asm \<lparr> gs_ctx := 0, gs_kernel := True, mem := (\<lambda>a. if a = 0x8008 then 0x08 else a) \<rparr>"

theorem timer_early_exit_clobbers_rax_witness:
  "\<exists>s'. exec (\<lambda>_. clobber) timer_interrupt_handler boot_asm = Iret 0x8000 0x08 0x8010 0x8020 s' \<and>
     regs boot_asm RAX = 7 \<and> regs s' RAX = 0x08"
proof -
  have i: "interrupted boot_asm" "gs_ctx boot_asm = 0" by (simp_all add: boot_asm_def interrupted_def sample_asm_def aligned_def)
  have b: "\<exists>s2. (\<lambda>_. clobber) TIMER_BOOTSTRAP s1 = Some s2 \<and> regs s2 RAX = 0 \<and> regs s2 RSP = regs s1 RSP \<and> gs_kernel s2 = gs_kernel s1 \<and>
      (\<forall>x\<in>timer_cells (regs boot_asm RSP). mem s2 x = mem s1 x)" for s1
    by (simp add: clobber_def)
  from timer_early_exit_clobbers_rax [where F = "\<lambda>_. clobber", OF i clobber_abi b] show ?thesis
    by (auto simp: boot_asm_def sample_asm_def)
qed

end
