(* ===== verification/Pixels.thy ===== *)
theory Pixels
  imports Prelude
begin

text \<open>
  The vocabulary of the graphics code in user space: signed 32-bit coordinates, the pixel encoding of
  \<^verbatim>\<open>kernel_api_types/src/graphics.rs\<close>, the dirty rectangles of
  \<^verbatim>\<open>kernel_api_types/src/window.rs\<close>, and the pixel memory of a process.

  Pixel memory maps the base address of a mapped region to its pixels, and a raw pointer into it is a
  base and a number of pixels; \<^verbatim>\<open>ptr.add(n)\<close> moves the second part. An access through a null
  pointer, outside a region or, for \<^verbatim>\<open>copy_nonoverlapping\<close>, between overlapping ranges has no
  meaning in Rust: it is \<open>None\<close>, like a panic, so that a theorem that says the code completes
  also says that it is memory safe.
\<close>

unbundle bit_operations_syntax

section \<open>Signed coordinates\<close>

definition I32_LIMIT :: int where
  "I32_LIMIT = 2 ^ 31"

lemma I32_LIMIT_num: "I32_LIMIT = 2147483648"
  by (simp add: I32_LIMIT_def)

text \<open>The cast \<^verbatim>\<open>n as i32\<close> of a \<^verbatim>\<open>u32\<close> keeps the bits.\<close>

definition i32_of_u32 :: "nat \<Rightarrow> int" where
  "i32_of_u32 n = (if int n < I32_LIMIT then int n else int n - 2 * I32_LIMIT)"

definition add_i32 :: "int \<Rightarrow> int \<Rightarrow> int rust" where
  "add_i32 a b = (if - I32_LIMIT \<le> a + b \<and> a + b < I32_LIMIT then Some (a + b) else panic)"

definition sub_i32 :: "int \<Rightarrow> int \<Rightarrow> int rust" where
  "sub_i32 a b = (if - I32_LIMIT \<le> a - b \<and> a - b < I32_LIMIT then Some (a - b) else panic)"

definition mul_u32 :: "nat \<Rightarrow> nat \<Rightarrow> nat rust" where
  "mul_u32 a b = (if a * b < U32_LIMIT then Some (a * b) else panic)"

definition shl_u32 :: "32 word \<Rightarrow> nat \<Rightarrow> 32 word rust" where
  "shl_u32 a s = (if s < 32 then Some (push_bit s a) else panic)"

lemmas [rust_arith] = add_i32_def sub_i32_def mul_u32_def shl_u32_def

lemma i32_of_u32_small [simp]: "int n < I32_LIMIT \<Longrightarrow> i32_of_u32 n = int n"
  by (simp add: i32_of_u32_def)

lemma i32_ok [panic_free]:
  "- I32_LIMIT \<le> a + b \<Longrightarrow> a + b < I32_LIMIT \<Longrightarrow> add_i32 a b = Some (a + b)"
  "- I32_LIMIT \<le> a - b \<Longrightarrow> a - b < I32_LIMIT \<Longrightarrow> sub_i32 a b = Some (a - b)"
  by (simp_all add: rust_arith)

lemma u32_ok [panic_free]:
  "m + n < U32_LIMIT \<Longrightarrow> add_u32 m n = Some (m + n)"
  "n \<le> m \<Longrightarrow> sub_u32 m n = Some (m - n)"
  "m * n < U32_LIMIT \<Longrightarrow> mul_u32 m n = Some (m * n)"
  by (simp_all add: rust_arith)

section \<open>The encoding of pixels\<close>

record DisplayInfo =
  di_width :: nat
  di_height :: nat
  red_mask_size :: nat
  red_mask_shift :: nat
  green_mask_size :: nat
  green_mask_shift :: nat
  blue_mask_size :: nat
  blue_mask_shift :: nat

definition channel_bits :: "8 word \<Rightarrow> nat \<Rightarrow> nat \<Rightarrow> 32 word rust" where
  "channel_bits v bits shift =
     do { one \<leftarrow> shl_u32 1 bits; shl_u32 (ucast v AND (one - 1)) shift }"

definition build_pixel :: "DisplayInfo \<Rightarrow> 8 word \<Rightarrow> 8 word \<Rightarrow> 8 word \<Rightarrow> 32 word rust" where
  "build_pixel info r g b =
     do { nr \<leftarrow> channel_bits r (red_mask_size info) (red_mask_shift info);
          ng \<leftarrow> channel_bits g (green_mask_size info) (green_mask_shift info);
          nb \<leftarrow> channel_bits b (blue_mask_size info) (blue_mask_shift info);
          Some (((0 OR nr) OR ng) OR nb) }"

definition masks_ok :: "DisplayInfo \<Rightarrow> bool" where
  "masks_ok info \<longleftrightarrow> red_mask_size info < 32 \<and> red_mask_shift info < 32 \<and> green_mask_size info < 32 \<and>
     green_mask_shift info < 32 \<and> blue_mask_size info < 32 \<and> blue_mask_shift info < 32"

lemma build_pixel_ok [panic_free]: "masks_ok info \<Longrightarrow> \<exists>p. build_pixel info r g b = Some p"
  by (simp add: build_pixel_def channel_bits_def masks_ok_def shl_u32_def)

section \<open>Dirty rectangles\<close>

record DirtyRect =
  r_x :: nat
  r_y :: nat
  r_w :: nat
  r_h :: nat

definition mk_rect :: "nat \<Rightarrow> nat \<Rightarrow> nat \<Rightarrow> nat \<Rightarrow> DirtyRect" where
  "mk_rect x y w h = \<lparr> r_x = x, r_y = y, r_w = w, r_h = h \<rparr>"

definition DirtyRect_expand :: "DirtyRect \<Rightarrow> nat \<Rightarrow> nat \<Rightarrow> nat \<Rightarrow> nat \<Rightarrow> DirtyRect rust" where
  "DirtyRect_expand d x y w h =
     do { x2 \<leftarrow> add_u32 (r_x d) (r_w d);
          y2 \<leftarrow> add_u32 (r_y d) (r_h d);
          xw \<leftarrow> add_u32 x w;
          yh \<leftarrow> add_u32 y h;
          let nx = min (r_x d) x;
          let ny = min (r_y d) y;
          nw \<leftarrow> sub_u32 (max xw x2) nx;
          nh \<leftarrow> sub_u32 (max yh y2) ny;
          Some (mk_rect nx ny nw nh) }"

text \<open>The pixels of a rectangle, and rectangles that lie inside a screen.\<close>

definition rect_has :: "DirtyRect \<Rightarrow> nat \<Rightarrow> nat \<Rightarrow> bool" where
  "rect_has d x y \<longleftrightarrow> r_x d \<le> x \<and> x < r_x d + r_w d \<and> r_y d \<le> y \<and> y < r_y d + r_h d"

definition rect_in :: "nat \<Rightarrow> nat \<Rightarrow> DirtyRect \<Rightarrow> bool" where
  "rect_in W H d \<longleftrightarrow> 0 < r_w d \<and> 0 < r_h d \<and> r_x d + r_w d \<le> W \<and> r_y d + r_h d \<le> H"

lemma mk_rect_sel [simp]:
  "r_x (mk_rect x y w h) = x" "r_y (mk_rect x y w h) = y"
  "r_w (mk_rect x y w h) = w" "r_h (mk_rect x y w h) = h"
  by (simp_all add: mk_rect_def)

lemma rect_eta [simp]: "mk_rect (r_x d) (r_y d) (r_w d) (r_h d) = d"
  by (simp add: mk_rect_def)

lemma DirtyRect_expand_ok:
  assumes "rect_in W H d" "rect_in W H e" "W < U32_LIMIT" "H < U32_LIMIT"
  obtains d' where "DirtyRect_expand d (r_x e) (r_y e) (r_w e) (r_h e) = Some d'" "rect_in W H d'"
    "\<And>x y. rect_has d x y \<Longrightarrow> rect_has d' x y" "\<And>x y. rect_has e x y \<Longrightarrow> rect_has d' x y"
proof -
  let ?d' = "mk_rect (min (r_x d) (r_x e)) (min (r_y d) (r_y e))
               (max (r_x e + r_w e) (r_x d + r_w d) - min (r_x d) (r_x e))
               (max (r_y e + r_h e) (r_y d + r_h d) - min (r_y d) (r_y e))"
  have "DirtyRect_expand d (r_x e) (r_y e) (r_w e) (r_h e) = Some ?d'"
    using assms by (simp add: DirtyRect_expand_def rect_in_def panic_free Let_def le_max_iff_disj min_le_iff_disj)
  moreover have "rect_in W H ?d'" using assms(1,2) by (auto simp: rect_in_def min_def max_def)
  moreover have "rect_has d x y \<Longrightarrow> rect_has ?d' x y" for x y
    by (auto simp: rect_has_def min_def max_def)
  moreover have "rect_has e x y \<Longrightarrow> rect_has ?d' x y" for x y
    by (auto simp: rect_has_def min_def max_def)
  ultimately show ?thesis by (rule that)
qed

section \<open>Pixel memory\<close>

type_synonym pixmem = "nat \<rightharpoonup> 32 word list"
type_synonym pixptr = "nat \<times> nat"

definition ptr_add :: "pixptr \<Rightarrow> nat \<Rightarrow> pixptr" where
  "ptr_add p n = (fst p, snd p + n)"

definition is_null :: "pixptr \<Rightarrow> bool" where
  "is_null p \<longleftrightarrow> fst p = 0"

definition write_px :: "pixptr \<Rightarrow> 32 word \<Rightarrow> pixmem \<Rightarrow> pixmem rust" where
  "write_px p v m =
     do { d \<leftarrow> m (fst p);
          if snd p < length d then Some (m(fst p \<mapsto> d[snd p := v])) else None }"

definition copy_nonoverlapping :: "pixptr \<Rightarrow> pixptr \<Rightarrow> nat \<Rightarrow> pixmem \<Rightarrow> pixmem rust" where
  "copy_nonoverlapping src dst n m =
     do { s \<leftarrow> m (fst src);
          d \<leftarrow> m (fst dst);
          if snd src + n \<le> length s \<and> snd dst + n \<le> length d \<and>
             (fst src \<noteq> fst dst \<or> snd src + n \<le> snd dst \<or> snd dst + n \<le> snd src)
          then Some (m(fst dst \<mapsto> take (snd dst) d @ take n (drop (snd src) s) @ drop (snd dst + n) d))
          else None }"

lemma ptr_simps [simp]:
  "ptr_add (b, i) n = (b, i + n)" "is_null (b, i) \<longleftrightarrow> b = 0"
  by (simp_all add: ptr_add_def is_null_def)

lemma nth_patch:
  assumes "length ys = n" "a + n \<le> length d" "i < length d"
  shows "(take a d @ ys @ drop (a + n) d) ! i = (if a \<le> i \<and> i < a + n then ys ! (i - a) else d ! i)"
  using assms by (auto simp: nth_append min_def)

lemma copy_nonoverlapping_ok:
  assumes "m sb = Some s" "m db = Some d" "sb \<noteq> db" "so + n \<le> length s" "off + n \<le> length d"
  obtains d' where "copy_nonoverlapping (sb, so) (db, off) n m = Some (m(db \<mapsto> d'))" "length d' = length d"
    "\<And>i. i < length d \<Longrightarrow> d' ! i = (if off \<le> i \<and> i < off + n then s ! (so + (i - off)) else d ! i)"
proof -
  let ?d' = "take off d @ take n (drop so s) @ drop (off + n) d"
  have "copy_nonoverlapping (sb, so) (db, off) n m = Some (m(db \<mapsto> ?d'))"
    using assms by (simp add: copy_nonoverlapping_def)
  moreover have "length ?d' = length d" using assms(4,5) by simp
  moreover have "?d' ! i = (if off \<le> i \<and> i < off + n then s ! (so + (i - off)) else d ! i)" if "i < length d" for i
    using assms(4,5) that by (subst nth_patch) auto
  ultimately show ?thesis by (rule that)
qed

text \<open>A loop that copies the rows of a rectangle into a surface of width \<open>W\<close> changes exactly the
  pixels of the rectangle.\<close>

lemma row_index:
  fixes W :: nat
  assumes "x < W" "x0 + cw \<le> W"
  shows "(r * W + x0 \<le> y * W + x \<and> y * W + x < r * W + x0 + cw) \<longleftrightarrow> (y = r \<and> x0 \<le> x \<and> x < x0 + cw)"
proof (cases y r rule: linorder_cases)
  case less
  then have "y * W + W \<le> r * W" by (metis Suc_leI mult_Suc add.commute mult_le_mono1)
  then show ?thesis using less assms by auto
next
  case greater
  then have "r * W + W \<le> y * W" by (metis Suc_leI mult_Suc add.commute mult_le_mono1)
  then show ?thesis using greater assms by auto
qed auto

lemma index_in_surface:
  fixes W H :: nat
  assumes "x < W" "y < H"
  shows "y * W + x < W * H"
proof -
  have "y * W + W \<le> H * W" using assms(2) by (metis Suc_leI mult_Suc add.commute mult_le_mono1)
  then show ?thesis using assms(1) by (simp add: mult.commute)
qed

text \<open>The row that ends at \<open>x0 + cw\<close> in the last line still lies inside the surface.\<close>

lemma row_in_surface:
  fixes W H :: nat
  assumes "x0 + cw \<le> W" "y < H"
  shows "y * W + x0 + cw \<le> W * H"
proof -
  have "y * W + W \<le> H * W" using assms(2) by (metis Suc_leI mult_Suc add.commute mult_le_mono1)
  then show ?thesis using assms(1) by (simp add: mult.commute)
qed

lemma copy_rows_upto:
  assumes "m sb = Some s" "m db = Some d" "sb \<noteq> db" "W * H \<le> length d" "x0 + cw \<le> W"
    "\<And>r m'. r < h \<Longrightarrow> body r m' = copy_nonoverlapping (sb, f r) (db, (y0 + r) * W + x0) cw m'"
    "\<And>r. r < h \<Longrightarrow> f r + cw \<le> length s" "y0 + h \<le> H" "n \<le> h"
  shows "\<exists>d'. fold_rust body [0..<n] m = Some (m(db \<mapsto> d')) \<and> length d' = length d \<and>
    (\<forall>x y. x < W \<longrightarrow> y < H \<longrightarrow> d' ! (y * W + x) =
       (if x0 \<le> x \<and> x < x0 + cw \<and> y0 \<le> y \<and> y < y0 + n then s ! (f (y - y0) + (x - x0)) else d ! (y * W + x)))"
  using assms(9)
proof (induction n)
  case 0
  have "m(db \<mapsto> d) = m" using assms(2) by auto
  then show ?case using assms(4) by (intro exI [of _ d]) auto
next
  case (Suc n)
  from Suc.IH [OF Suc_leD [OF Suc.prems]] obtain d1 where d1: "fold_rust body [0..<n] m = Some (m(db \<mapsto> d1))" "length d1 = length d"
    "\<And>x y. x < W \<Longrightarrow> y < H \<Longrightarrow> d1 ! (y * W + x) =
       (if x0 \<le> x \<and> x < x0 + cw \<and> y0 \<le> y \<and> y < y0 + n then s ! (f (y - y0) + (x - x0)) else d ! (y * W + x))"
    by blast
  have row: "(y0 + n) * W + x0 + cw \<le> length d1"
    using row_in_surface [OF assms(5), of "y0 + n" H] Suc.prems assms(4,8) d1(2) by simp
  obtain d2 where d2: "copy_nonoverlapping (sb, f n) (db, (y0 + n) * W + x0) cw (m(db \<mapsto> d1)) = Some ((m(db \<mapsto> d1))(db \<mapsto> d2))"
    "length d2 = length d1"
    "\<And>i. i < length d1 \<Longrightarrow> d2 ! i = (if (y0 + n) * W + x0 \<le> i \<and> i < (y0 + n) * W + x0 + cw
                             then s ! (f n + (i - ((y0 + n) * W + x0))) else d1 ! i)"
    using copy_nonoverlapping_ok [of "m(db \<mapsto> d1)" sb s db d1 "f n" cw "(y0 + n) * W + x0"]
      assms(1,3) assms(7) [of n] Suc.prems row by auto
  have "fold_rust body [0..<Suc n] m = Some (m(db \<mapsto> d2))"
    using d1(1) d2(1) assms(6) [of n "m(db \<mapsto> d1)"] Suc.prems by (simp add: fold_rust_append)
  moreover have "d2 ! (y * W + x) = (if x0 \<le> x \<and> x < x0 + cw \<and> y0 \<le> y \<and> y < y0 + Suc n
      then s ! (f (y - y0) + (x - x0)) else d ! (y * W + x))" if "x < W" "y < H" for x y
    using d2(3) [of "y * W + x"] d1(3) [OF that] index_in_surface [OF that] d1(2) assms(4)
      row_index [OF that(1) assms(5), of "y0 + n" y] by auto
  ultimately show ?case using d2(2) d1(2) by (intro exI [of _ d2]) (simp add: fun_eq_iff)
qed

lemmas copy_rows = copy_rows_upto [OF _ _ _ _ _ _ _ _ le_refl]

section \<open>Clipping\<close>

text \<open>The pixels that a \<open>w\<close> by \<open>h\<close> image placed at a signed position covers.\<close>

definition covers :: "int \<Rightarrow> int \<Rightarrow> nat \<Rightarrow> nat \<Rightarrow> nat \<Rightarrow> nat \<Rightarrow> bool" where
  "covers px py w h x y \<longleftrightarrow> px \<le> int x \<and> int x < px + int w \<and> py \<le> int y \<and> int y < py + int h"

text \<open>Positions at which the signed arithmetic of the clipping code does not overflow.\<close>

definition place_ok :: "int \<Rightarrow> nat \<Rightarrow> bool" where
  "place_ok p n \<longleftrightarrow> - I32_LIMIT \<le> p \<and> p + int n < I32_LIMIT \<and> int n < I32_LIMIT"

lemma clip_nothing:
  assumes "nat (max p 0) \<ge> min (nat (max (p + int n) 0)) W"
  shows "\<not> (p \<le> int x \<and> int x < p + int n \<and> x < W)"
  using assms by linarith

lemma clip_range:
  assumes "nat (max p 0) < min (nat (max (p + int n) 0)) W" "x < W"
  shows "(nat (max p 0) \<le> x \<and> x < min (nat (max (p + int n) 0)) W) \<longleftrightarrow> (p \<le> int x \<and> int x < p + int n)"
  using assms by linarith

lemma clip_size:
  assumes "nat (max p 0) < min (nat (max (p + int n) 0)) W"
  shows "nat (int (nat (max p 0)) - p) + (min (nat (max (p + int n) 0)) W - nat (max p 0)) \<le> n"
  using assms by linarith

lemma clip_add: "place_ok p n \<Longrightarrow> add_i32 p (i32_of_u32 n) = Some (p + int n)"
  by (simp add: place_ok_def panic_free I32_LIMIT_num)

lemma clip_sub:
  assumes "place_ok p n" "nat (max p 0) < min (nat (max (p + int n) 0)) W" "int W < I32_LIMIT"
  shows "sub_i32 (i32_of_u32 (nat (max p 0))) p = Some (int (nat (max p 0)) - p)"
proof -
  have "int (nat (max p 0)) < I32_LIMIT" using assms(2,3) by linarith
  moreover have "int (nat (max p 0)) - p < I32_LIMIT" "- I32_LIMIT \<le> int (nat (max p 0)) - p"
    using assms(1,2) by (auto simp: place_ok_def I32_LIMIT_num)
  ultimately show ?thesis by (simp add: panic_free)
qed

text \<open>The part of an image that is visible on a \<open>W\<close> by \<open>H\<close> surface, as the blitting code
  computes it.\<close>

definition visible :: "int \<Rightarrow> nat \<Rightarrow> nat \<Rightarrow> nat \<Rightarrow> nat \<Rightarrow> bool" where
  "visible p n W a b \<longleftrightarrow> a = nat (max p 0) \<and> b = min (nat (max (p + int n) 0)) W \<and> a < b"

lemma visibleI: "\<not> min (nat (max (p + int n) 0)) W \<le> nat (max p 0) \<Longrightarrow>
    visible p n W (nat (max p 0)) (min (nat (max (p + int n) 0)) W)"
  unfolding visible_def by (simp only: not_le simp_thms)

lemma visibleD:
  assumes "visible p n W a b"
  shows "a = nat (max p 0)" "b = min (nat (max (p + int n) 0)) W" "nat (max p 0) < min (nat (max (p + int n) 0)) W"
  using assms unfolding visible_def by (elim conjE, simp only:)+

lemma covers_visible:
  assumes "visible px w W x0 x1" "visible py h H y0 y1" "x < W" "y < H"
  shows "covers px py w h x y \<longleftrightarrow> x0 \<le> x \<and> x < x1 \<and> y0 \<le> y \<and> y < y1"
proof -
  have "x0 \<le> x \<and> x < x1 \<longleftrightarrow> px \<le> int x \<and> int x < px + int w"
    unfolding visibleD(1,2) [OF assms(1)] by (rule clip_range [OF visibleD(3) [OF assms(1)] assms(3)])
  moreover have "y0 \<le> y \<and> y < y1 \<longleftrightarrow> py \<le> int y \<and> int y < py + int h"
    unfolding visibleD(1,2) [OF assms(2)] by (rule clip_range [OF visibleD(3) [OF assms(2)] assms(4)])
  ultimately show ?thesis unfolding covers_def by blast
qed

lemma visible_bounds:
  assumes "visible p n W a b"
  shows "a < b" "b \<le> W" "nat (int a - p) + (b - a) \<le> n" "int (nat (int a - p)) = int a - p"
proof -
  note a = visibleD(1,2) [OF assms] and lt = visibleD(3) [OF assms]
  show "a < b" "b \<le> W" unfolding a by (rule lt, rule min.cobounded2)
  show "nat (int a - p) + (b - a) \<le> n" unfolding a by (rule clip_size [OF lt])
  show "int (nat (int a - p)) = int a - p" unfolding a(1) by linarith
qed

lemma blit_rows:
  assumes "m sb = Some s" "m db = Some b" "sb \<noteq> db" "W * H \<le> length b"
    and vis: "visible px w W x0 x1" "visible py h H y0 y1"
    and body: "\<And>r m'. r < y1 - y0 \<Longrightarrow> body r m' = copy_nonoverlapping
      (sb, so + ((nat (int y0 - py) + r) * sw + nat (int x0 - px))) (db, (y0 + r) * W + x0) (x1 - x0) m'"
    and src: "\<And>r. r < h \<Longrightarrow> so + r * sw + w \<le> length s"
  obtains b' where "fold_rust body [0..<y1 - y0] m = Some (m(db \<mapsto> b'))" "length b' = length b"
    "\<And>x y. x < W \<Longrightarrow> y < H \<Longrightarrow> b' ! (y * W + x) =
       (if covers px py w h x y then s ! (so + (nat (int y - py) * sw + nat (int x - px))) else b ! (y * W + x))"
proof -
  define sx sy where sxy: "sx = nat (int x0 - px)" "sy = nat (int y0 - py)"
  let ?f = "\<lambda>r. so + ((sy + r) * sw + sx)"
  note bx = visible_bounds [OF vis(1), folded sxy] and by' = visible_bounds [OF vis(2), folded sxy]
  have row: "?f r + (x1 - x0) \<le> length s" if "r < y1 - y0" for r
    using src [of "sy + r"] bx(3) by'(3) that by simp
  have "\<exists>b'. fold_rust body [0..<y1 - y0] m = Some (m(db \<mapsto> b')) \<and> length b' = length b \<and>
    (\<forall>x y. x < W \<longrightarrow> y < H \<longrightarrow> b' ! (y * W + x) =
       (if x0 \<le> x \<and> x < x0 + (x1 - x0) \<and> y0 \<le> y \<and> y < y0 + (y1 - y0) then s ! (?f (y - y0) + (x - x0)) else b ! (y * W + x)))"
    by (rule copy_rows [where f = ?f, OF assms(1-4) _ body [folded sxy] row]) (use bx by' in auto)
  then obtain b' where b': "fold_rust body [0..<y1 - y0] m = Some (m(db \<mapsto> b'))" "length b' = length b"
    "\<And>x y. x < W \<Longrightarrow> y < H \<Longrightarrow> b' ! (y * W + x) =
       (if x0 \<le> x \<and> x < x0 + (x1 - x0) \<and> y0 \<le> y \<and> y < y0 + (y1 - y0) then s ! (?f (y - y0) + (x - x0)) else b ! (y * W + x))"
    by blast
  show ?thesis
  proof (rule that [OF b'(1,2)])
    fix x y assume lt: "x < W" "y < H"
    note cov = covers_visible [OF vis lt]
    have "b' ! (y * W + x) = s ! (so + (nat (int y - py) * sw + nat (int x - px)))" if c: "covers px py w h x y"
    proof -
      have "nat (int y - py) = sy + (y - y0)" "nat (int x - px) = sx + (x - x0)"
        using c bx(4) by'(4) cov by auto
      then show ?thesis using b'(3) [OF lt] cov c by (simp add: add.assoc)
    qed
    then show "b' ! (y * W + x) =
        (if covers px py w h x y then s ! (so + (nat (int y - py) * sw + nat (int x - px))) else b ! (y * W + x))"
      using b'(3) [OF lt] cov by auto
  qed
qed

end
