(* ===== verification/User_World.thy ===== *)
theory User_World
  imports Pixels
begin

text \<open>
  The kernel as a graphics program of user space sees it, through the wrappers of
  \<^verbatim>\<open>userspace/ulib/src/lib.rs\<close>: the memory it may touch, what the kernel will answer to
  its next system calls, and the calls that have an effect on others. The answers are part of the
  state, so that a theorem about a program that holds in every world holds for every behaviour of the
  kernel; what a call does to the memory of the caller is the behaviour the kernel documents: a
  successful mapping is zeroed and as large as the pages of the request.
\<close>

datatype sys_event =
  Sent nat "byte list"
| Closed nat
| Unmapped nat nat
| Destroyed nat
| Yielded

record World =
  w_pix :: pixmem
  w_info :: DisplayInfo
  w_mmaps :: "nat list"
  w_shared :: "(nat \<times> nat) list"
  w_recv :: "(nat \<times> byte list) list"
  w_mouse :: "(int \<times> int) list"
  w_log :: "sys_event list"

definition zero_pages :: "nat \<Rightarrow> 32 word list" where
  "zero_pages bytes = replicate (1024 * div_ceil bytes 4096) 0"

definition log_event :: "sys_event \<Rightarrow> World \<Rightarrow> World" where
  "log_event e w = w \<lparr> w_log := w_log w @ [e] \<rparr>"

definition sys_mmap_w :: "nat \<Rightarrow> World \<Rightarrow> nat \<times> World" where
  "sys_mmap_w bytes w =
     (case w_mmaps w of
        [] \<Rightarrow> (0, w)
      | a # as \<Rightarrow> if a = 0 then (0, w \<lparr> w_mmaps := as \<rparr>)
                else (a, w \<lparr> w_mmaps := as, w_pix := (w_pix w)(a \<mapsto> zero_pages bytes) \<rparr>))"

text \<open>A failed creation leaves the output word at the zero the wrapper put there.\<close>

definition sys_create_shared_buf_w :: "nat \<Rightarrow> World \<Rightarrow> (nat \<times> nat) \<times> World" where
  "sys_create_shared_buf_w bytes w =
     (case w_shared w of
        [] \<Rightarrow> ((u64_MAX, 0), w)
      | (i, a) # as \<Rightarrow>
          if i = u64_MAX \<or> a = 0 then ((i, a), w \<lparr> w_shared := as \<rparr>)
          else ((i, a), w \<lparr> w_shared := as, w_pix := (w_pix w)(a \<mapsto> zero_pages bytes) \<rparr>))"

definition sys_munmap_w :: "nat \<Rightarrow> nat \<Rightarrow> World \<Rightarrow> World" where
  "sys_munmap_w a bytes w = log_event (Unmapped a bytes) (w \<lparr> w_pix := (w_pix w)(a := None) \<rparr>)"

definition sys_destroy_shared_buf_w :: "nat \<Rightarrow> World \<Rightarrow> World" where
  "sys_destroy_shared_buf_w i w = log_event (Destroyed i) w"

definition sys_channel_send_w :: "nat \<Rightarrow> byte list \<Rightarrow> World \<Rightarrow> World" where
  "sys_channel_send_w ep bytes w = log_event (Sent ep bytes) w"

definition sys_channel_close_w :: "nat \<Rightarrow> World \<Rightarrow> World" where
  "sys_channel_close_w ep w = log_event (Closed ep) w"

text \<open>A receive that finds nothing comes back with the error for a channel that is not ready.\<close>

definition sys_channel_recv_w :: "World \<Rightarrow> (nat \<times> byte list) \<times> World" where
  "sys_channel_recv_w w =
     (case w_recv w of [] \<Rightarrow> ((4, []), w) | r # rs \<Rightarrow> (r, w \<lparr> w_recv := rs \<rparr>))"

definition sys_read_mouse_w :: "World \<Rightarrow> (int \<times> int) option \<times> World" where
  "sys_read_mouse_w w =
     (case w_mouse w of [] \<Rightarrow> (None, w) | e # es \<Rightarrow> (Some e, w \<lparr> w_mouse := es \<rparr>))"

definition sys_yield_w :: "World \<Rightarrow> World" where
  "sys_yield_w w = log_event Yielded w"

lemmas user_calls = sys_munmap_w_def sys_destroy_shared_buf_w_def sys_channel_send_w_def
  sys_channel_close_w_def sys_yield_w_def log_event_def

end
