(* ===== verification/Display.thy ===== *)
theory Display
  imports User_World
begin

text \<open>
  The double-buffered display of \<^verbatim>\<open>userspace/ulib/src/display.rs\<close>. Drawing goes to a back
  buffer in the memory of the program and grows a dirty rectangle; \<^verbatim>\<open>present\<close> copies the
  dirty rectangle to the frame buffer. The lemmas describe every drawing operation pixel by pixel and
  show that, for a display whose buffers are mapped, none of them panics or leaves its buffer.
\<close>

section \<open>The display\<close>

definition FRAMEBUFFER_USER_VADDR :: nat where
  "FRAMEBUFFER_USER_VADDR = 0x7F0000000000"

record Display =
  back_buffer :: nat
  back_len :: nat
  front_buffer :: nat
  d_width :: nat
  d_height :: nat
  d_info :: DisplayInfo
  d_dirty :: "DirtyRect option"

definition Display_new :: "World \<Rightarrow> (Display \<times> World) rust" where
  "Display_new w =
     do { let info = w_info w;
          area \<leftarrow> mul_u64 (di_width info) (di_height info);
          buf_size \<leftarrow> mul_u64 area 4;
          let (back_ptr, w1) = sys_mmap_w buf_size w;
          Some (\<lparr> back_buffer = back_ptr, back_len = buf_size div 4,
                  front_buffer = FRAMEBUFFER_USER_VADDR, d_width = di_width info,
                  d_height = di_height info, d_info = info, d_dirty = None \<rparr>, w1) }"

definition expand_dirty :: "nat \<Rightarrow> nat \<Rightarrow> nat \<Rightarrow> nat \<Rightarrow> Display \<Rightarrow> Display rust" where
  "expand_dirty x y w h dp =
     (case d_dirty dp of
        Some d \<Rightarrow> do { d' \<leftarrow> DirtyRect_expand d x y w h; Some (dp \<lparr> d_dirty := Some d' \<rparr>) }
      | None \<Rightarrow> Some (dp \<lparr> d_dirty := Some (mk_rect x y w h) \<rparr>))"

definition present :: "Display \<Rightarrow> pixmem \<Rightarrow> (Display \<times> pixmem) rust" where
  "present dp m =
     (case d_dirty dp of
        None \<Rightarrow> Some (dp, m)
      | Some dirty \<Rightarrow>
          do { m' \<leftarrow> fold_rust (\<lambda>row m.
                 do { current_y \<leftarrow> add_u64 (r_y dirty) row;
                      line \<leftarrow> mul_u64 current_y (d_width dp);
                      offset \<leftarrow> add_u64 line (r_x dirty);
                      copy_nonoverlapping (back_buffer dp, offset) (front_buffer dp, offset) (r_w dirty) m })
                 [0..<r_h dirty] m;
               Some (dp \<lparr> d_dirty := None \<rparr>, m') })"

definition blit_raw :: "pixptr \<Rightarrow> nat \<Rightarrow> int \<Rightarrow> int \<Rightarrow> nat \<Rightarrow> nat \<Rightarrow> Display \<Rightarrow> pixmem \<Rightarrow> (Display \<times> pixmem) rust" where
  "blit_raw src src_width dst_x dst_y w h dp m =
     do { let x0 = nat (max dst_x 0);
          let y0 = nat (max dst_y 0);
          xe \<leftarrow> add_i32 dst_x (i32_of_u32 w);
          ye \<leftarrow> add_i32 dst_y (i32_of_u32 h);
          let x1 = min (nat (max xe 0)) (d_width dp);
          let y1 = min (nat (max ye 0)) (d_height dp);
          if x0 \<ge> x1 \<or> y0 \<ge> y1 then Some (dp, m)
          else do {
            clipped_w \<leftarrow> sub_u32 x1 x0;
            sx \<leftarrow> sub_i32 (i32_of_u32 x0) dst_x;
            sy \<leftarrow> sub_i32 (i32_of_u32 y0) dst_y;
            rows \<leftarrow> sub_u32 y1 y0;
            m' \<leftarrow> fold_rust (\<lambda>row m.
                 do { sr \<leftarrow> add_u32 (nat sy) row;
                      sl \<leftarrow> mul_u32 sr src_width;
                      src_offset \<leftarrow> add_u32 sl (nat sx);
                      dr \<leftarrow> add_u32 y0 row;
                      dl \<leftarrow> mul_u64 dr (d_width dp);
                      dst_offset \<leftarrow> add_u64 dl x0;
                      copy_nonoverlapping (ptr_add src src_offset) (back_buffer dp, dst_offset) clipped_w m })
                 [0..<rows] m;
            dp' \<leftarrow> expand_dirty x0 y0 clipped_w rows dp;
            Some (dp', m') } }"

text \<open>A write through the slice \<^verbatim>\<open>back_buffer\<close> is checked against its length.\<close>

definition back_set :: "Display \<Rightarrow> nat \<Rightarrow> 32 word \<Rightarrow> pixmem \<Rightarrow> pixmem rust" where
  "back_set dp off pixel m = (if off < back_len dp then write_px (back_buffer dp, off) pixel m else panic)"

text \<open>\<^verbatim>\<open>(row >> (15 - col)) & 1\<close> on the \<^verbatim>\<open>u16\<close> of a cursor row. For a column above
  15 the shift amount is negative, and the checked shift panics.\<close>

definition cursor_bit :: "16 word \<Rightarrow> nat \<Rightarrow> bool" where
  "cursor_bit row col = bit row (15 - col)"

definition cursor_pixel :: "int \<Rightarrow> int \<Rightarrow> 16 word \<Rightarrow> 16 word \<Rightarrow> 32 word \<Rightarrow> 32 word \<Rightarrow> Display \<Rightarrow> nat \<Rightarrow> pixmem \<Rightarrow> pixmem rust" where
  "cursor_pixel cx sy row_mask row_image black white dp col m =
     (if 15 < col then panic
      else if \<not> cursor_bit row_mask col then Some m
      else do {
        sx \<leftarrow> add_i32 cx (int col);
        if sx < 0 \<or> sx \<ge> i32_of_u32 (d_width dp) then Some m
        else do {
          let pixel = (if cursor_bit row_image col then white else black);
          line \<leftarrow> mul_u64 (nat sy) (d_width dp);
          off \<leftarrow> add_u64 line (nat sx);
          back_set dp off pixel m } })"

definition cursor_row :: "int \<Rightarrow> int \<Rightarrow> 16 word list \<Rightarrow> 16 word list \<Rightarrow> nat \<Rightarrow> 32 word \<Rightarrow> 32 word \<Rightarrow> Display \<Rightarrow> nat \<Rightarrow> pixmem \<Rightarrow> pixmem rust" where
  "cursor_row cx cy cmask cimage w black white dp row m =
     do { sy \<leftarrow> add_i32 cy (int row);
          if sy < 0 \<or> sy \<ge> i32_of_u32 (d_height dp) then Some m
          else do {
            row_mask \<leftarrow> index_get cmask row;
            row_image \<leftarrow> index_get cimage row;
            fold_rust (cursor_pixel cx sy row_mask row_image black white dp) [0..<w] m } }"

definition blit_cursor ::
  "int \<Rightarrow> int \<Rightarrow> 16 word list \<Rightarrow> 16 word list \<Rightarrow> nat \<Rightarrow> nat \<Rightarrow> 32 word \<Rightarrow> 32 word \<Rightarrow> Display \<Rightarrow> pixmem \<Rightarrow> (Display \<times> pixmem) rust" where
  "blit_cursor cx cy cmask cimage w h black white dp m =
     do { let x0 = nat (max cx 0);
          let y0 = nat (max cy 0);
          xe \<leftarrow> add_i32 cx (i32_of_u32 w);
          ye \<leftarrow> add_i32 cy (i32_of_u32 h);
          let x1 = nat (min (max xe 0) (i32_of_u32 (d_width dp)));
          let y1 = nat (min (max ye 0) (i32_of_u32 (d_height dp)));
          dp' \<leftarrow> (if x0 < x1 \<and> y0 < y1 then expand_dirty x0 y0 (x1 - x0) (y1 - y0) dp else Some dp);
          m' \<leftarrow> fold_rust (cursor_row cx cy cmask cimage w black white dp') [0..<h] m;
          Some (dp', m') }"

text \<open>\<^verbatim>\<open>draw_iter\<close> takes points and colours of the graphics library; \<^verbatim>\<open>fill_solid\<close>
  a rectangle given by its top left corner and size.\<close>

type_synonym rgb = "8 word \<times> 8 word \<times> 8 word"

definition draw_pixel :: "(int \<times> int) \<times> rgb \<Rightarrow> Display \<times> pixmem \<Rightarrow> (Display \<times> pixmem) rust" where
  "draw_pixel px s =
     (let ((x, y), (r, g, b)) = px; (dp, m) = s
      in if x < 0 \<or> y < 0 \<or> x \<ge> i32_of_u32 (d_width dp) \<or> y \<ge> i32_of_u32 (d_height dp) then Some s
         else do {
           pixel \<leftarrow> build_pixel (d_info dp) r g b;
           line \<leftarrow> mul_u64 (nat y) (d_width dp);
           offset \<leftarrow> add_u64 line (nat x);
           m' \<leftarrow> back_set dp offset pixel m;
           dp' \<leftarrow> expand_dirty (nat x) (nat y) 1 1 dp;
           Some (dp', m') })"

definition draw_iter :: "((int \<times> int) \<times> rgb) list \<Rightarrow> Display \<Rightarrow> pixmem \<Rightarrow> (Display \<times> pixmem) rust" where
  "draw_iter pixels dp m = fold_rust draw_pixel pixels (dp, m)"

definition fill_back :: "Display \<Rightarrow> nat \<Rightarrow> nat \<Rightarrow> 32 word \<Rightarrow> pixmem \<Rightarrow> pixmem rust" where
  "fill_back dp start len pixel m =
     (if start + len \<le> back_len dp
      then fold_rust (\<lambda>i. write_px (back_buffer dp, start + i) pixel) [0..<len] m else panic)"

definition fill_solid :: "int \<times> int \<Rightarrow> nat \<times> nat \<Rightarrow> rgb \<Rightarrow> Display \<Rightarrow> pixmem \<Rightarrow> (Display \<times> pixmem) rust" where
  "fill_solid top_left area_size color dp m =
     (let (tx, ty) = top_left; (w, h) = area_size; (r, g, b) = color in
      do { pixel \<leftarrow> build_pixel (d_info dp) r g b;
           let x0 = min (nat (max tx 0)) (d_width dp);
           let y0 = min (nat (max ty 0)) (d_height dp);
           xe \<leftarrow> add_i32 tx (i32_of_u32 w);
           ye \<leftarrow> add_i32 ty (i32_of_u32 h);
           let x1 = min (nat (max xe 0)) (d_width dp);
           let y1 = min (nat (max ye 0)) (d_height dp);
           if x0 \<ge> x1 \<or> y0 \<ge> y1 then Some (dp, m)
           else do {
             let width = x1 - x0;
             m' \<leftarrow> fold_rust (\<lambda>y m.
                  do { line \<leftarrow> mul_u64 y (d_width dp);
                       row_start \<leftarrow> add_u64 line x0;
                       fill_back dp row_start width pixel m })
                  [y0..<y1] m;
             dp' \<leftarrow> expand_dirty x0 y0 (x1 - x0) (y1 - y0) dp;
             Some (dp', m') } })"

section \<open>Displays whose buffers are mapped\<close>

definition display_ok :: "Display \<Rightarrow> pixmem \<Rightarrow> bool" where
  "display_ok dp m \<longleftrightarrow>
     int (d_width dp) < I32_LIMIT \<and> int (d_height dp) < I32_LIMIT \<and>
     d_width dp * d_height dp < U32_LIMIT \<and> back_len dp = d_width dp * d_height dp \<and>
     back_buffer dp \<noteq> front_buffer dp \<and>
     (\<exists>b. m (back_buffer dp) = Some b \<and> d_width dp * d_height dp \<le> length b) \<and>
     (\<exists>f. m (front_buffer dp) = Some f \<and> d_width dp * d_height dp \<le> length f) \<and>
     (\<forall>d. d_dirty dp = Some d \<longrightarrow> rect_in (d_width dp) (d_height dp) d)"

lemma expand_dirty_ok:
  assumes "rect_in (d_width dp) (d_height dp) (mk_rect x y w h)" "int (d_width dp) < I32_LIMIT"
    "int (d_height dp) < I32_LIMIT" "\<And>d. d_dirty dp = Some d \<Longrightarrow> rect_in (d_width dp) (d_height dp) d"
  obtains d where "expand_dirty x y w h dp = Some (dp \<lparr> d_dirty := Some d \<rparr>)"
    "rect_in (d_width dp) (d_height dp) d" "\<And>a b. rect_has (mk_rect x y w h) a b \<Longrightarrow> rect_has d a b"
    "\<And>e a b. d_dirty dp = Some e \<Longrightarrow> rect_has e a b \<Longrightarrow> rect_has d a b"
proof (cases "d_dirty dp")
  case None
  show ?thesis by (rule that [of "mk_rect x y w h"]) (use None assms(1) in \<open>simp_all add: expand_dirty_def\<close>)
next
  case (Some e)
  have "d_width dp < U32_LIMIT" "d_height dp < U32_LIMIT"
    using assms(2,3) by (simp_all add: U32_LIMIT_num I32_LIMIT_num)
  from DirtyRect_expand_ok [OF assms(4) [OF Some] assms(1) this]
  obtain d where "DirtyRect_expand e x y w h = Some d" "rect_in (d_width dp) (d_height dp) d"
    "\<And>a b. rect_has e a b \<Longrightarrow> rect_has d a b" "\<And>a b. rect_has (mk_rect x y w h) a b \<Longrightarrow> rect_has d a b"
    by (simp only: mk_rect_sel) blast
  then show ?thesis by (intro that [of d]) (simp_all add: expand_dirty_def Some)
qed

text \<open>Presenting copies the dirty rectangle to the frame buffer and nothing else.\<close>

lemma present_ok:
  assumes "display_ok dp m" "d_dirty dp = Some d" "m (back_buffer dp) = Some b" "m (front_buffer dp) = Some f"
  obtains f' where "present dp m = Some (dp \<lparr> d_dirty := None \<rparr>, m(front_buffer dp \<mapsto> f'))" "length f' = length f"
    "\<And>x y. x < d_width dp \<Longrightarrow> y < d_height dp \<Longrightarrow>
       f' ! (y * d_width dp + x) = (if rect_has d x y then b ! (y * d_width dp + x) else f ! (y * d_width dp + x))"
proof -
  let ?W = "d_width dp" and ?H = "d_height dp"
  note ok = assms(1) [unfolded display_ok_def]
  have d: "rect_in ?W ?H d" using ok assms(2) by blast
  have small: "?W * ?H < U64_LIMIT" using ok by (simp add: limits)
  let ?body = "\<lambda>row m. do { current_y \<leftarrow> add_u64 (r_y d) row; line \<leftarrow> mul_u64 current_y ?W;
      offset \<leftarrow> add_u64 line (r_x d);
      copy_nonoverlapping (back_buffer dp, offset) (front_buffer dp, offset) (r_w d) m }"
  have off: "(r_y d + r) * ?W + r_x d + r_w d \<le> ?W * ?H" if "r < r_h d" for r
    using d that by (intro row_in_surface) (auto simp: rect_in_def)
  have body: "?body r m' = copy_nonoverlapping (back_buffer dp, (r_y d + r) * ?W + r_x d)
      (front_buffer dp, (r_y d + r) * ?W + r_x d) (r_w d) m'" if "r < r_h d" for r m'
  proof -
    have "r_y d + r < U64_LIMIT" using d that ok by (simp add: rect_in_def limits I32_LIMIT_num)
    moreover have "(r_y d + r) * ?W + r_x d < U64_LIMIT" using off [OF that] small by linarith
    ultimately show ?thesis by (simp add: panic_free)
  qed
  have "\<exists>f'. fold_rust ?body [0..<r_h d] m = Some (m(front_buffer dp \<mapsto> f')) \<and> length f' = length f \<and>
    (\<forall>x y. x < ?W \<longrightarrow> y < ?H \<longrightarrow> f' ! (y * ?W + x) =
       (if r_x d \<le> x \<and> x < r_x d + r_w d \<and> r_y d \<le> y \<and> y < r_y d + r_h d
        then b ! ((r_y d + (y - r_y d)) * ?W + r_x d + (x - r_x d)) else f ! (y * ?W + x)))"
    by (rule copy_rows [where f = "\<lambda>r. (r_y d + r) * ?W + r_x d", OF assms(3,4) _ _ _ body])
      (use ok assms(3,4) d off in \<open>force simp: rect_in_def\<close>)+
  then obtain f' where f': "fold_rust ?body [0..<r_h d] m = Some (m(front_buffer dp \<mapsto> f'))" "length f' = length f"
    "\<And>x y. x < ?W \<Longrightarrow> y < ?H \<Longrightarrow> f' ! (y * ?W + x) =
       (if r_x d \<le> x \<and> x < r_x d + r_w d \<and> r_y d \<le> y \<and> y < r_y d + r_h d
        then b ! ((r_y d + (y - r_y d)) * ?W + r_x d + (x - r_x d)) else f ! (y * ?W + x))" by blast
  show ?thesis
    by (rule that [OF _ f'(2)]) (use f'(1,3) in \<open>simp_all add: present_def assms(2) rect_has_def\<close>)
qed

text \<open>A raw blit replaces the covered pixels of the back buffer by those of the image and marks its
  visible part dirty.\<close>

lemma blit_raw_ok:
  assumes "display_ok dp m" "m (back_buffer dp) = Some b" "m sb = Some s" "sb \<noteq> back_buffer dp"
    "place_ok px w" "place_ok py h" "w \<le> sw" "sw * h < U32_LIMIT"
    "\<And>r. r < h \<Longrightarrow> so + r * sw + w \<le> length s"
  obtains dp' b' where "blit_raw (sb, so) sw px py w h dp m = Some (dp', m(back_buffer dp \<mapsto> b'))"
    "length b' = length b"
    "\<exists>q. dp' = dp \<lparr> d_dirty := q \<rparr>" "\<And>d. d_dirty dp' = Some d \<Longrightarrow> rect_in (d_width dp) (d_height dp) d"
    "\<And>x y. x < d_width dp \<Longrightarrow> y < d_height dp \<Longrightarrow> covers px py w h x y \<Longrightarrow> \<exists>d. d_dirty dp' = Some d \<and> rect_has d x y"
    "\<And>x y. x < d_width dp \<Longrightarrow> y < d_height dp \<Longrightarrow> b' ! (y * d_width dp + x) =
       (if covers px py w h x y then s ! (so + (nat (int y - py) * sw + nat (int x - px))) else b ! (y * d_width dp + x))"
proof -
  let ?W = "d_width dp" and ?H = "d_height dp"
  define x0 y0 x1 y1 where xy: "x0 = nat (max px 0)" "y0 = nat (max py 0)"
    "x1 = min (nat (max (px + int w) 0)) ?W" "y1 = min (nat (max (py + int h) 0)) ?H"
  note ok = assms(1) [unfolded display_ok_def]
  note add = clip_add [OF assms(5)] clip_add [OF assms(6)]
  have lim: "?H < 2147483648" "h < 2147483648"
    using ok assms(6) by (simp_all add: place_ok_def I32_LIMIT_num)
  show ?thesis
  proof (cases "x0 \<ge> x1 \<or> y0 \<ge> y1")
    case True
    then have none: "\<not> covers px py w h x y" if "x < ?W" "y < ?H" for x y
      using clip_nothing [of px w ?W x] clip_nothing [of py h ?H y] that by (auto simp: covers_def xy)
    have upd: "m(back_buffer dp \<mapsto> b) = m" using assms(2) by auto
    have "blit_raw (sb, so) sw px py w h dp m = Some (dp, m(back_buffer dp \<mapsto> b))"
      unfolding upd using True by (simp add: blit_raw_def add xy Let_def)
    then show ?thesis by (rule that) (use none ok in \<open>auto intro: exI [of _ "d_dirty dp"]\<close>)
  next
    case False
    then have vis: "visible px w ?W x0 x1" "visible py h ?H y0 y1" 
      unfolding xy by (blast intro: visibleI)+
    define sx sy where sxy: "sx = nat (int x0 - px)" "sy = nat (int y0 - py)"
    note bx = visible_bounds [OF vis(1), folded sxy] and by' = visible_bounds [OF vis(2), folded sxy]
    let ?body = "\<lambda>row m. do { sr \<leftarrow> add_u32 sy row; sl \<leftarrow> mul_u32 sr sw; src_offset \<leftarrow> add_u32 sl sx;
        dr \<leftarrow> add_u32 y0 row; dl \<leftarrow> mul_u64 dr ?W; dst_offset \<leftarrow> add_u64 dl x0;
        copy_nonoverlapping (ptr_add (sb, so) src_offset) (back_buffer dp, dst_offset) (x1 - x0) m }"
    have body: "?body r m' = copy_nonoverlapping (sb, so + ((sy + r) * sw + sx)) (back_buffer dp, (y0 + r) * ?W + x0) (x1 - x0) m'"
      if r: "r < y1 - y0" for r m'
    proof -
      have "(sy + r) * sw + sx < sw * h" using r bx by' assms(7) by (intro index_in_surface) auto
      moreover have "(y0 + r) * ?W + x0 < ?W * ?H" using r bx by' by (intro index_in_surface) auto
      moreover have "sy + r < U32_LIMIT" "y0 + r < U32_LIMIT"
        using r by'(2,3) lim unfolding U32_LIMIT_num by linarith+
      ultimately show ?thesis using assms(8) ok by (simp add: panic_free limits)
    qed
    obtain b' where b': "fold_rust ?body [0..<y1 - y0] m = Some (m(back_buffer dp \<mapsto> b'))" "length b' = length b"
      "\<And>x y. x < ?W \<Longrightarrow> y < ?H \<Longrightarrow> b' ! (y * ?W + x) =
         (if covers px py w h x y then s ! (so + (nat (int y - py) * sw + nat (int x - px))) else b ! (y * ?W + x))"
      by (rule blit_rows [OF assms(3,2,4) _ vis body [unfolded sxy] assms(9)]) (use ok assms(2) in \<open>auto simp: sxy\<close>)
    obtain d where d: "expand_dirty x0 y0 (x1 - x0) (y1 - y0) dp = Some (dp \<lparr> d_dirty := Some d \<rparr>)" "rect_in ?W ?H d"
      "\<And>a b. rect_has (mk_rect x0 y0 (x1 - x0) (y1 - y0)) a b \<Longrightarrow> rect_has d a b"
      by (rule expand_dirty_ok [of dp x0 y0 "x1 - x0" "y1 - y0"]) (use ok bx by' in \<open>auto simp: rect_in_def\<close>)
    have sub: "sub_i32 (i32_of_u32 x0) px = Some (int x0 - px)" "sub_i32 (i32_of_u32 y0) py = Some (int y0 - py)"
      using clip_sub [OF assms(5) bx(1) [unfolded xy]] clip_sub [OF assms(6) by'(1) [unfolded xy]] ok by (simp_all only: xy simp_thms)
    have "blit_raw (sb, so) sw px py w h dp m = Some (dp \<lparr> d_dirty := Some d \<rparr>, m(back_buffer dp \<mapsto> b'))"
      using bx(1) by'(1) b'(1) d(1) sub by (simp add: blit_raw_def add Let_def xy [symmetric] panic_free sxy)
    then show ?thesis
      by (rule that [OF _ b'(2)]) (use d bx by' covers_visible [OF vis] b'(3) in \<open>auto simp: rect_has_def\<close>)
  qed
qed

text \<open>What the cursor sprite shows at a pixel, if anything.\<close>

definition cursor_shade ::
  "int \<Rightarrow> int \<Rightarrow> 16 word list \<Rightarrow> 16 word list \<Rightarrow> nat \<Rightarrow> nat \<Rightarrow> 32 word \<Rightarrow> 32 word \<Rightarrow> nat \<Rightarrow> nat \<Rightarrow> 32 word option" where
  "cursor_shade cx cy cmask cimage w h black white x y =
     (let row = nat (int y - cy); col = nat (int x - cx) in
      if covers cx cy w h x y \<and> cursor_bit (cmask ! row) col
      then Some (if cursor_bit (cimage ! row) col then white else black) else None)"

definition over :: "'a option \<Rightarrow> 'a \<Rightarrow> 'a" where
  "over shade below = (case shade of Some v \<Rightarrow> v | None \<Rightarrow> below)"

lemma cursor_pixel_ok:
  assumes "display_ok dp m" "m (back_buffer dp) = Some b" "0 \<le> sy" "sy < int (d_height dp)"
    "- I32_LIMIT \<le> cx + int col" "cx + int col < I32_LIMIT" "col \<le> 15"
  shows "cursor_pixel cx sy rm ri black white dp col m =
    Some (m(back_buffer dp \<mapsto>
      (if cursor_bit rm col \<and> 0 \<le> cx + int col \<and> cx + int col < int (d_width dp)
       then b[nat sy * d_width dp + nat (cx + int col) := if cursor_bit ri col then white else black] else b)))"
proof -
  have upd: "m(back_buffer dp \<mapsto> b) = m" using assms(2) by auto
  have dim: "d_width dp * d_height dp < U64_LIMIT" "i32_of_u32 (d_width dp) = int (d_width dp)"
    "d_width dp * d_height dp \<le> length b" "back_len dp = d_width dp * d_height dp"
    using assms(1,2) by (auto simp: display_ok_def limits)
  have add: "add_i32 cx (int col) = Some (cx + int col)" using assms(5,6) by (simp add: panic_free)
  show ?thesis
  proof (cases "cursor_bit rm col \<and> 0 \<le> cx + int col \<and> cx + int col < int (d_width dp)")
    case True
    then have "nat (cx + int col) < d_width dp" "nat sy < d_height dp" using assms(3,4) by linarith+
    then have "nat sy * d_width dp + nat (cx + int col) < d_width dp * d_height dp" by (rule index_in_surface)
    then show ?thesis using True dim assms(7)
      by (simp add: cursor_pixel_def add assms(2) back_set_def write_px_def panic_free Let_def)
  next
    case False
    then show ?thesis unfolding if_not_P [OF False] upd using assms(7) by (auto simp: cursor_pixel_def add dim(2))
  qed
qed

lemma display_ok_draw:
  assumes "display_ok dp m" "m (back_buffer dp) = Some b" "length b' = length b"
  shows "display_ok dp (m(back_buffer dp \<mapsto> b'))"
  using assms unfolding display_ok_def by auto

lemma surface_index_eq:
  fixes W :: nat
  assumes "x < W" "a < W"
  shows "r * W + a = y * W + x \<longleftrightarrow> r = y \<and> a = x"
  using row_index [of x W a 1 r y] assms by auto

lemma cursor_row_upto:
  assumes "display_ok dp m" "m (back_buffer dp) = Some b" "0 \<le> sy" "sy < int (d_height dp)"
    "- I32_LIMIT \<le> cx" "cx + int w < I32_LIMIT" "n \<le> w" "w \<le> 16"
  shows "\<exists>b'. fold_rust (cursor_pixel cx sy rm ri black white dp) [0..<n] m = Some (m(back_buffer dp \<mapsto> b')) \<and>
    length b' = length b \<and>
    (\<forall>x y. x < d_width dp \<longrightarrow> y < d_height dp \<longrightarrow> b' ! (y * d_width dp + x) =
       (if int y = sy \<and> cx \<le> int x \<and> int x < cx + int n \<and> cursor_bit rm (nat (int x - cx))
        then (if cursor_bit ri (nat (int x - cx)) then white else black) else b ! (y * d_width dp + x)))"
  using assms(7)
proof (induction n)
  case 0
  have "m(back_buffer dp \<mapsto> b) = m" using assms(2) by auto
  then show ?case by (intro exI [of _ b]) auto
next
  case (Suc n)
  let ?W = "d_width dp" and ?H = "d_height dp"
  from Suc.IH [OF Suc_leD [OF Suc.prems]] obtain b1 where
    b1: "fold_rust (cursor_pixel cx sy rm ri black white dp) [0..<n] m = Some (m(back_buffer dp \<mapsto> b1))" "length b1 = length b"
    "\<And>x y. x < ?W \<Longrightarrow> y < ?H \<Longrightarrow> b1 ! (y * ?W + x) =
       (if int y = sy \<and> cx \<le> int x \<and> int x < cx + int n \<and> cursor_bit rm (nat (int x - cx))
        then (if cursor_bit ri (nat (int x - cx)) then white else black) else b ! (y * ?W + x))"
    by blast
  define m1 where "m1 = m(back_buffer dp \<mapsto> b1)"
  define b2 where "b2 = (if cursor_bit rm n \<and> 0 \<le> cx + int n \<and> cx + int n < int ?W
       then b1[nat sy * ?W + nat (cx + int n) := if cursor_bit ri n then white else black] else b1)"
  have "display_ok dp m1" unfolding m1_def by (rule display_ok_draw [OF assms(1,2) b1(2)])
  moreover have "m1 (back_buffer dp) = Some b1" by (simp add: m1_def)
  moreover have "- I32_LIMIT \<le> cx + int n" "cx + int n < I32_LIMIT" "n \<le> 15" using assms(5,6,8) Suc.prems by linarith+
  ultimately have "cursor_pixel cx sy rm ri black white dp n m1 = Some (m1(back_buffer dp \<mapsto> b2))"
    unfolding b2_def using assms(3,4) by (intro cursor_pixel_ok)
  then have "fold_rust (cursor_pixel cx sy rm ri black white dp) [0..<Suc n] m = Some (m(back_buffer dp \<mapsto> b2))"
    using b1(1) by (simp add: fold_rust_append m1_def)
  moreover have "b2 ! (y * ?W + x) =
       (if int y = sy \<and> cx \<le> int x \<and> int x < cx + int (Suc n) \<and> cursor_bit rm (nat (int x - cx))
        then (if cursor_bit ri (nat (int x - cx)) then white else black) else b ! (y * ?W + x))"
    if xy: "x < ?W" "y < ?H" for x y
  proof (cases "int y = sy \<and> int x = cx + int n")
    case True
    then have "nat sy = y" "nat (cx + int n) = x" "nat (int x - cx) = n" by linarith+
    moreover have "y * ?W + x < length b1"
      using index_in_surface [OF xy] assms(1,2) b1(2) by (auto simp: display_ok_def)
    ultimately show ?thesis using True b1(3) [OF xy] xy by (auto simp: b2_def)
  next
    case False
    then have "nat sy * ?W + nat (cx + int n) \<noteq> y * ?W + x" if r: "0 \<le> cx + int n" "cx + int n < int ?W"
      using surface_index_eq [OF xy(1) nat_less_iff [THEN iffD2, OF r], of "nat sy" y] r assms(3) by auto
    then have "b2 ! (y * ?W + x) = b1 ! (y * ?W + x)" by (auto simp: b2_def)
    moreover have "int x < cx + int (Suc n) \<longleftrightarrow> int x < cx + int n" if "int y = sy" using False that by auto
    ultimately show ?thesis using b1(3) [OF xy] by auto
  qed
  moreover have "length b2 = length b" using b1(2) by (simp add: b2_def)
  ultimately show ?case by blast
qed

lemma cursor_row_ok:
  assumes "display_ok dp m" "m (back_buffer dp) = Some b" "place_ok cx w" "place_ok cy h"
    "length cmask = h" "length cimage = h" "row < h" "w \<le> 16"
  shows "\<exists>b'. cursor_row cx cy cmask cimage w black white dp row m = Some (m(back_buffer dp \<mapsto> b')) \<and> length b' = length b \<and>
    (\<forall>x y. x < d_width dp \<longrightarrow> y < d_height dp \<longrightarrow> b' ! (y * d_width dp + x) =
       (if int y = cy + int row \<and> cx \<le> int x \<and> int x < cx + int w \<and> cursor_bit (cmask ! row) (nat (int x - cx))
        then (if cursor_bit (cimage ! row) (nat (int x - cx)) then white else black) else b ! (y * d_width dp + x)))"
proof -
  have upd: "m(back_buffer dp \<mapsto> b) = m" using assms(2) by auto
  have dim: "i32_of_u32 (d_height dp) = int (d_height dp)" using assms(1) by (auto simp: display_ok_def)
  have add: "add_i32 cy (int row) = Some (cy + int row)"
    using assms(4,7) by (simp add: panic_free place_ok_def)
  show ?thesis
  proof (cases "cy + int row < 0 \<or> cy + int row \<ge> int (d_height dp)")
    case True
    then have "cursor_row cx cy cmask cimage w black white dp row m = Some (m(back_buffer dp \<mapsto> b))"
      unfolding upd by (simp add: cursor_row_def add dim)
    then show ?thesis using True by (intro exI [of _ b]) auto
  next
    case False
    then have "cursor_row cx cy cmask cimage w black white dp row m =
        fold_rust (cursor_pixel cx (cy + int row) (cmask ! row) (cimage ! row) black white dp) [0..<w] m"
      using assms(5-7) by (simp add: cursor_row_def add dim panic_free)
    then show ?thesis
      using cursor_row_upto [OF assms(1,2), of "cy + int row" cx w w "cmask ! row" "cimage ! row" black white] False assms(3,8)
      by (simp add: place_ok_def)
  qed
qed

lemma cursor_rows_upto:
  assumes "display_ok dp m" "m (back_buffer dp) = Some b" "place_ok cx w" "place_ok cy h"
    "length cmask = h" "length cimage = h" "n \<le> h" "w \<le> 16"
  shows "\<exists>b'. fold_rust (cursor_row cx cy cmask cimage w black white dp) [0..<n] m = Some (m(back_buffer dp \<mapsto> b')) \<and>
    length b' = length b \<and>
    (\<forall>x y. x < d_width dp \<longrightarrow> y < d_height dp \<longrightarrow> b' ! (y * d_width dp + x) =
       over (cursor_shade cx cy cmask cimage w n black white x y) (b ! (y * d_width dp + x)))"
  using assms(7)
proof (induction n)
  case 0
  have "m(back_buffer dp \<mapsto> b) = m" using assms(2) by auto
  moreover have "\<not> covers cx cy w 0 x y" for x y by (simp add: covers_def)
  ultimately show ?case by (intro exI [of _ b]) (simp add: over_def cursor_shade_def)
next
  case (Suc n)
  let ?W = "d_width dp" and ?H = "d_height dp" and ?row = "cursor_row cx cy cmask cimage w black white dp"
  from Suc.IH [OF Suc_leD [OF Suc.prems]] obtain b1 where
    b1: "fold_rust ?row [0..<n] m = Some (m(back_buffer dp \<mapsto> b1))" "length b1 = length b"
    "\<And>x y. x < ?W \<Longrightarrow> y < ?H \<Longrightarrow> b1 ! (y * ?W + x) = over (cursor_shade cx cy cmask cimage w n black white x y) (b ! (y * ?W + x))"
    by blast
  define m1 where "m1 = m(back_buffer dp \<mapsto> b1)"
  have m1: "display_ok dp m1" "m1 (back_buffer dp) = Some b1"
    using display_ok_draw [OF assms(1,2) b1(2)] by (simp_all add: m1_def)
  from cursor_row_ok [OF m1 assms(3-6) Suc_le_lessD [OF Suc.prems] assms(8), of black white] obtain b2 where
    b2: "?row n m1 = Some (m1(back_buffer dp \<mapsto> b2))" "length b2 = length b1"
    "\<And>x y. x < ?W \<Longrightarrow> y < ?H \<Longrightarrow> b2 ! (y * ?W + x) =
       (if int y = cy + int n \<and> cx \<le> int x \<and> int x < cx + int w \<and> cursor_bit (cmask ! n) (nat (int x - cx))
        then (if cursor_bit (cimage ! n) (nat (int x - cx)) then white else black) else b1 ! (y * ?W + x))"
    by blast
  have "fold_rust ?row [0..<Suc n] m = Some (m(back_buffer dp \<mapsto> b2))"
    using b1(1) b2(1) by (simp add: fold_rust_append m1_def)
  moreover have "b2 ! (y * ?W + x) = over (cursor_shade cx cy cmask cimage w (Suc n) black white x y) (b ! (y * ?W + x))"
    if "x < ?W" "y < ?H" for x y
  proof (cases "int y = cy + int n")
    case True
    then have "nat (int y - cy) = n" by simp
    then show ?thesis using True b2(3) [OF that] b1(3) [OF that]
      by (simp add: cursor_shade_def covers_def over_def Let_def)
  next
    case False
    then have "covers cx cy w (Suc n) x y \<longleftrightarrow> covers cx cy w n x y" by (auto simp: covers_def)
    then show ?thesis using False b2(3) [OF that] b1(3) [OF that] by (simp add: cursor_shade_def)
  qed
  ultimately show ?case using b1(2) b2(2) by metis
qed

text \<open>Drawing the cursor changes exactly the opaque pixels of the sprite that are on the screen, and the
  dirty rectangle covers the sprite.\<close>

lemma blit_cursor_ok:
  assumes "display_ok dp m" "m (back_buffer dp) = Some b" "place_ok cx w" "place_ok cy h"
    "length cmask = h" "length cimage = h" "w \<le> 16"
  obtains dp' b' where "blit_cursor cx cy cmask cimage w h black white dp m = Some (dp', m(back_buffer dp \<mapsto> b'))"
    "length b' = length b" "\<exists>q. dp' = dp \<lparr> d_dirty := q \<rparr>"
    "\<And>d. d_dirty dp' = Some d \<Longrightarrow> rect_in (d_width dp) (d_height dp) d"
    "\<And>x y e. d_dirty dp = Some e \<Longrightarrow> rect_has e x y \<Longrightarrow> \<exists>d. d_dirty dp' = Some d \<and> rect_has d x y"
    "\<And>x y. x < d_width dp \<Longrightarrow> y < d_height dp \<Longrightarrow> covers cx cy w h x y \<Longrightarrow> \<exists>d. d_dirty dp' = Some d \<and> rect_has d x y"
    "\<And>x y. x < d_width dp \<Longrightarrow> y < d_height dp \<Longrightarrow> b' ! (y * d_width dp + x) =
       over (cursor_shade cx cy cmask cimage w h black white x y) (b ! (y * d_width dp + x))"
proof -
  let ?W = "d_width dp" and ?H = "d_height dp"
  define x0 y0 x1 y1 where xy: "x0 = nat (max cx 0)" "y0 = nat (max cy 0)"
    "x1 = min (nat (max (cx + int w) 0)) ?W" "y1 = min (nat (max (cy + int h) 0)) ?H"
  note ok = assms(1) [unfolded display_ok_def]
  note add = clip_add [OF assms(3)] clip_add [OF assms(4)]
  have clamp: "nat (min (max (cx + int w) 0) (i32_of_u32 ?W)) = x1" "nat (min (max (cy + int h) 0) (i32_of_u32 ?H)) = y1"
    using ok unfolding xy by (simp_all only: i32_of_u32_small)
  define dp' where "dp' = (if x0 < x1 \<and> y0 < y1 then the (expand_dirty x0 y0 (x1 - x0) (y1 - y0) dp) else dp)"
  have dirty: "(if x0 < x1 \<and> y0 < y1 then expand_dirty x0 y0 (x1 - x0) (y1 - y0) dp else Some dp) = Some dp' \<and>
     (\<exists>q. dp' = dp \<lparr> d_dirty := q \<rparr>) \<and> (\<forall>d. d_dirty dp' = Some d \<longrightarrow> rect_in ?W ?H d) \<and>
     (\<forall>x y e. d_dirty dp = Some e \<longrightarrow> rect_has e x y \<longrightarrow> (\<exists>d. d_dirty dp' = Some d \<and> rect_has d x y)) \<and>
     (\<forall>x y. x < ?W \<longrightarrow> y < ?H \<longrightarrow> covers cx cy w h x y \<longrightarrow> (\<exists>d. d_dirty dp' = Some d \<and> rect_has d x y))"
  proof (cases "x0 < x1 \<and> y0 < y1")
    case True
    then have vis: "visible cx w ?W x0 x1" "visible cy h ?H y0 y1"
      unfolding xy not_le [symmetric] by (blast intro: visibleI)+
    obtain d where d: "expand_dirty x0 y0 (x1 - x0) (y1 - y0) dp = Some (dp \<lparr> d_dirty := Some d \<rparr>)" "rect_in ?W ?H d"
      "\<And>a b. rect_has (mk_rect x0 y0 (x1 - x0) (y1 - y0)) a b \<Longrightarrow> rect_has d a b"
      "\<And>e a b. d_dirty dp = Some e \<Longrightarrow> rect_has e a b \<Longrightarrow> rect_has d a b"
      by (rule expand_dirty_ok [of dp x0 y0 "x1 - x0" "y1 - y0"])
        (use ok visible_bounds [OF vis(1)] visible_bounds [OF vis(2)] in \<open>auto simp: rect_in_def\<close>)
    then show ?thesis using True covers_visible [OF vis] by (auto simp: dp'_def rect_has_def)
  next
    case False
    then have "\<not> covers cx cy w h x y" if "x < ?W" "y < ?H" for x y
      using clip_nothing [of cx w ?W x] clip_nothing [of cy h ?H y] that by (auto simp: covers_def xy not_less)
    then show ?thesis using False ok by (auto simp: dp'_def intro: exI [of _ "d_dirty dp"])
  qed
  then have same: "d_width dp' = ?W" "d_height dp' = ?H" "back_buffer dp' = back_buffer dp" by auto
  have "display_ok dp' m" using assms(1) dirty by (auto simp: display_ok_def)
  from cursor_rows_upto [OF this, of b cx w cy h cmask cimage h black white] assms(2-7) obtain b' where
    b': "fold_rust (cursor_row cx cy cmask cimage w black white dp') [0..<h] m = Some (m(back_buffer dp \<mapsto> b'))" "length b' = length b"
    "\<And>x y. x < ?W \<Longrightarrow> y < ?H \<Longrightarrow> b' ! (y * ?W + x) = over (cursor_shade cx cy cmask cimage w h black white x y) (b ! (y * ?W + x))"
    unfolding same by blast
  have "blit_cursor cx cy cmask cimage w h black white dp m = Some (dp', m(back_buffer dp \<mapsto> b'))"
    using b'(1) dirty by (simp only: blit_cursor_def Let_def xy(1,2) [symmetric] add clamp bind.bind_lunit)
  then show ?thesis by (rule that [OF _ b'(2)]) (use dirty b'(3) in blast)+
qed

end
