(* ===== verification/Window_Protocol.thy ===== *)
theory Window_Protocol
  imports Display
begin

text \<open>
  The messages between window clients and the display server
  (\<^verbatim>\<open>kernel_api_types/src/window.rs\<close>): the requests with their \<^verbatim>\<open>repr(C)\<close>
  layout, as the clients write them and the server reads them, and the response to a creation.
\<close>

section \<open>Message types and results\<close>

datatype WindowMessageType =
  CreateWindow | UpdateWindow | CloseWindow | MoveWindow | ResizeWindow | RaiseWindow | LowerWindow

definition WindowMessageType_code :: "WindowMessageType \<Rightarrow> byte" where
  "WindowMessageType_code t =
     (case t of CreateWindow \<Rightarrow> 0 | UpdateWindow \<Rightarrow> 1 | CloseWindow \<Rightarrow> 2 | MoveWindow \<Rightarrow> 3 |
        ResizeWindow \<Rightarrow> 4 | RaiseWindow \<Rightarrow> 5 | LowerWindow \<Rightarrow> 6)"

datatype WindowResult =
  Ok | ErrorInvalidWindowId | ErrorOutOfMemory | ErrorInvalidDimensions | ErrorBufferTooLarge | ErrorInvalidMessage

definition WindowResult_code :: "WindowResult \<Rightarrow> nat" where
  "WindowResult_code r =
     (case r of Ok \<Rightarrow> 0 | ErrorInvalidWindowId \<Rightarrow> 1 | ErrorOutOfMemory \<Rightarrow> 2 | ErrorInvalidDimensions \<Rightarrow> 3 |
        ErrorBufferTooLarge \<Rightarrow> 4 | ErrorInvalidMessage \<Rightarrow> 5)"

definition WindowResult_from_u64 :: "nat \<Rightarrow> WindowResult" where
  "WindowResult_from_u64 v =
     (if v = 0 then Ok else if v = 1 then ErrorInvalidWindowId else if v = 2 then ErrorOutOfMemory
      else if v = 3 then ErrorInvalidDimensions else if v = 4 then ErrorBufferTooLarge
      else ErrorInvalidMessage)"

lemma WindowResult_roundtrip [simp]: "WindowResult_from_u64 (WindowResult_code r) = r"
  by (cases r) (simp_all add: WindowResult_from_u64_def WindowResult_code_def)

section \<open>Requests\<close>

record CreateWindowRequest =
  cw_width :: nat
  cw_height :: nat
  cw_x :: int
  cw_y :: int

record UpdateWindowRequest =
  uw_window_id :: nat
  dirty_x :: nat
  dirty_y :: nat
  dirty_width :: nat
  dirty_height :: nat

record MoveWindowRequest =
  mw_window_id :: nat
  mw_x :: int
  mw_y :: int

text \<open>The requests to close, raise and lower hold one field, the window.\<close>

record CloseWindowRequest = xw_window_id :: nat
record RaiseWindowRequest = rw_window_id :: nat
record LowerWindowRequest = lw_window_id :: nat

record CreateWindowResponse =
  cr_result :: WindowResult
  cr_window_id :: nat
  cr_shared_buf_id :: nat

text \<open>Fields in memory: a \<^verbatim>\<open>u32\<close>, a \<^verbatim>\<open>u64\<close> and an \<^verbatim>\<open>i32\<close> at an offset.\<close>

definition i32_bytes :: "int \<Rightarrow> byte list" where
  "i32_bytes x = u32_bytes (nat (x mod (2 * I32_LIMIT)))"

definition field_u32 :: "byte list \<Rightarrow> nat \<Rightarrow> nat" where
  "field_u32 bs off = bytes_nat (take 4 (drop off bs))"

definition field_u64 :: "byte list \<Rightarrow> nat \<Rightarrow> nat" where
  "field_u64 bs off = bytes_nat (take 8 (drop off bs))"

definition field_i32 :: "byte list \<Rightarrow> nat \<Rightarrow> int" where
  "field_i32 bs off = i32_of_u32 (field_u32 bs off)"

definition CreateWindowRequest_bytes :: "CreateWindowRequest \<Rightarrow> byte list" where
  "CreateWindowRequest_bytes r = u32_bytes (cw_width r) @ u32_bytes (cw_height r) @ i32_bytes (cw_x r) @ i32_bytes (cw_y r)"

definition CreateWindowRequest_read :: "byte list \<Rightarrow> CreateWindowRequest" where
  "CreateWindowRequest_read bs =
     \<lparr> cw_width = field_u32 bs 0, cw_height = field_u32 bs 4, cw_x = field_i32 bs 8, cw_y = field_i32 bs 12 \<rparr>"

definition UpdateWindowRequest_bytes :: "UpdateWindowRequest \<Rightarrow> byte list" where
  "UpdateWindowRequest_bytes r = u64_bytes (uw_window_id r) @ u32_bytes (dirty_x r) @ u32_bytes (dirty_y r) @
     u32_bytes (dirty_width r) @ u32_bytes (dirty_height r)"

definition UpdateWindowRequest_read :: "byte list \<Rightarrow> UpdateWindowRequest" where
  "UpdateWindowRequest_read bs =
     \<lparr> uw_window_id = field_u64 bs 0, dirty_x = field_u32 bs 8, dirty_y = field_u32 bs 12,
       dirty_width = field_u32 bs 16, dirty_height = field_u32 bs 20 \<rparr>"

definition MoveWindowRequest_bytes :: "MoveWindowRequest \<Rightarrow> byte list" where
  "MoveWindowRequest_bytes r = u64_bytes (mw_window_id r) @ i32_bytes (mw_x r) @ i32_bytes (mw_y r)"

definition MoveWindowRequest_read :: "byte list \<Rightarrow> MoveWindowRequest" where
  "MoveWindowRequest_read bs =
     \<lparr> mw_window_id = field_u64 bs 0, mw_x = field_i32 bs 8, mw_y = field_i32 bs 12 \<rparr>"

definition CreateWindowResponse_bytes :: "CreateWindowResponse \<Rightarrow> byte list" where
  "CreateWindowResponse_bytes r = u64_bytes (WindowResult_code (cr_result r)) @ u64_bytes (cr_window_id r) @
     u64_bytes (cr_shared_buf_id r)"

definition CreateWindowResponse_read :: "byte list \<Rightarrow> CreateWindowResponse" where
  "CreateWindowResponse_read bs =
     \<lparr> cr_result = WindowResult_from_u64 (field_u64 bs 0), cr_window_id = field_u64 bs 8,
       cr_shared_buf_id = field_u64 bs 16 \<rparr>"

section \<open>Reading back what was written\<close>

named_theorems layout \<open>fields of laid out structures\<close>

lemma length_i32_bytes [simp]: "length (i32_bytes x) = 4"
  by (simp add: i32_bytes_def)

lemma field_u32_u32 [layout]: "n < U32_LIMIT \<Longrightarrow> field_u32 (u32_bytes n @ bs) 0 = n"
  by (simp add: field_u32_def bytes_nat_u32)

lemma field_u64_u64 [layout]: "n < U64_LIMIT \<Longrightarrow> field_u64 (u64_bytes n @ bs) 0 = n"
  by (simp add: field_u64_def bytes_nat_u64)

definition is_i32 :: "int \<Rightarrow> bool" where
  "is_i32 x \<longleftrightarrow> - I32_LIMIT \<le> x \<and> x < I32_LIMIT"

lemma field_i32_i32 [layout]: "is_i32 x \<Longrightarrow> field_i32 (i32_bytes x @ bs) 0 = x"
proof -
  assume x: "is_i32 x"
  define n where "n = nat (x mod (2 * I32_LIMIT))"
  have n: "int n = (if x < 0 then x + 2 * I32_LIMIT else x)"
  proof (cases "x < 0")
    case True
    then have "(x + 2 * I32_LIMIT) mod (2 * I32_LIMIT) = x + 2 * I32_LIMIT"
      using x by (intro mod_pos_pos_trivial) (auto simp: is_i32_def I32_LIMIT_num)
    then show ?thesis using True x by (simp add: n_def is_i32_def)
  next
    case False
    then show ?thesis using x by (simp add: n_def is_i32_def mod_pos_pos_trivial)
  qed
  then have "n < U32_LIMIT" using x by (auto simp: is_i32_def I32_LIMIT_num U32_LIMIT_num split: if_splits)
  then have "field_i32 (i32_bytes x @ bs) 0 = i32_of_u32 n"
    by (simp add: field_i32_def i32_bytes_def n_def [symmetric] layout)
  also have "\<dots> = x" using n x by (auto simp: i32_of_u32_def is_i32_def split: if_splits)
  finally show ?thesis .
qed

lemma field_skip [layout]:
  "length as \<le> off \<Longrightarrow> field_u32 (as @ bs) off = field_u32 bs (off - length as)"
  "length as \<le> off \<Longrightarrow> field_u64 (as @ bs) off = field_u64 bs (off - length as)"
  "length as \<le> off \<Longrightarrow> field_i32 (as @ bs) off = field_i32 bs (off - length as)"
  by (simp_all add: field_u32_def field_u64_def field_i32_def)

lemmas layout_last [layout] =
  field_u32_u32 [of _ "[]", simplified] field_u64_u64 [of _ "[]", simplified] field_i32_i32 [of _ "[]", simplified]

lemma CreateWindowRequest_roundtrip:
  assumes "cw_width r < U32_LIMIT" "cw_height r < U32_LIMIT" "is_i32 (cw_x r)" "is_i32 (cw_y r)"
  shows "CreateWindowRequest_read (CreateWindowRequest_bytes r @ bs) = r"
  using assms by (simp add: CreateWindowRequest_read_def CreateWindowRequest_bytes_def layout)

lemma UpdateWindowRequest_roundtrip:
  assumes "uw_window_id r < U64_LIMIT" "dirty_x r < U32_LIMIT" "dirty_y r < U32_LIMIT"
    "dirty_width r < U32_LIMIT" "dirty_height r < U32_LIMIT"
  shows "UpdateWindowRequest_read (UpdateWindowRequest_bytes r) = r"
  using assms by (simp add: UpdateWindowRequest_read_def UpdateWindowRequest_bytes_def layout)

lemma MoveWindowRequest_roundtrip:
  assumes "mw_window_id r < U64_LIMIT" "is_i32 (mw_x r)" "is_i32 (mw_y r)"
  shows "MoveWindowRequest_read (MoveWindowRequest_bytes r) = r"
  using assms by (simp add: MoveWindowRequest_read_def MoveWindowRequest_bytes_def layout)

lemma CreateWindowResponse_roundtrip:
  assumes "cr_window_id r < U64_LIMIT" "cr_shared_buf_id r < U64_LIMIT"
  shows "CreateWindowResponse_read (CreateWindowResponse_bytes r) = r"
proof -
  have "WindowResult_code (cr_result r) < U64_LIMIT" by (cases "cr_result r") (simp_all add: WindowResult_code_def U64_LIMIT_num)
  then show ?thesis using assms by (simp add: CreateWindowResponse_read_def CreateWindowResponse_bytes_def layout)
qed

end
