(* ===== verification/Compositor.thy ===== *)
theory Compositor
  imports Window_Protocol
begin

text \<open>
  The display server: \<^verbatim>\<open>userspace/display_server/src/compositor.rs\<close> with
  \<^verbatim>\<open>window.rs\<close> and \<^verbatim>\<open>cursor.rs\<close>. The state of the compositor is one record; an
  operation takes it and the world of the process and returns both. This theory holds the operations,
  the order of windows and the invariant of the window table; what the screen shows is the subject of
  \<^verbatim>\<open>Compositor_Scene\<close>.
\<close>

section \<open>Windows and the compositor\<close>

definition MAX_WINDOWS :: nat where "MAX_WINDOWS = 32"
definition CURSOR_W :: nat where "CURSOR_W = 14"
definition CURSOR_H :: nat where "CURSOR_H = 20"

definition CURSOR_MASK :: "16 word list" where
  "CURSOR_MASK =
     [0x8000, 0xC000, 0xE000, 0xF000, 0xF800, 0xFC00, 0xFE00, 0xFF00, 0xFF80, 0xFFC0,
      0xFFE0, 0xFFF0, 0xFFF8, 0xFFFC, 0xFF00, 0xF780, 0xE780, 0xC3C0, 0x03C0, 0x0180]"

definition CURSOR_IMAGE :: "16 word list" where
  "CURSOR_IMAGE =
     [0x0000, 0x0000, 0x4000, 0x6000, 0x7000, 0x7800, 0x7C00, 0x7E00, 0x7F00, 0x7F80,
      0x7FC0, 0x7FE0, 0x7FF0, 0x7E00, 0x7600, 0x6300, 0x4300, 0x0180, 0x0180, 0x0000]"

record Window =
  win_id :: nat
  win_x :: int
  win_y :: int
  win_width :: nat
  win_height :: nat
  win_buffer :: nat
  win_shared_buf_id :: nat
  win_buf_size :: nat

definition Window_new :: "nat \<Rightarrow> int \<Rightarrow> int \<Rightarrow> nat \<Rightarrow> nat \<Rightarrow> World \<Rightarrow> (Window option \<times> World) rust" where
  "Window_new i x y width height w =
     do { area \<leftarrow> mul_u64 width height;
          buf_size \<leftarrow> mul_u64 area 4;
          let ((shared_buf_id, buffer_ptr), w1) = sys_create_shared_buf_w buf_size w;
          if buffer_ptr = 0 \<or> shared_buf_id = u64_MAX then Some (None, w1)
          else Some (Some \<lparr> win_id = i, win_x = x, win_y = y, win_width = width, win_height = height,
                       win_buffer = buffer_ptr, win_shared_buf_id = shared_buf_id, win_buf_size = buf_size \<rparr>, w1) }"

record Compositor =
  c_display :: Display
  display_info :: DisplayInfo
  windows :: "Window option list"
  next_window_id :: nat
  recv_endpoint :: nat
  z_order :: "nat list"
  n_windows :: nat
  background_buf :: nat
  scene_buf :: nat
  cursor_x :: int
  cursor_y :: int
  cursor_black :: "32 word"
  cursor_white :: "32 word"
  pending_damage :: "DirtyRect option"
  pending_scene_update :: bool
  pending_full_redraw :: bool

text \<open>The gradient of the background, line by line.\<close>

definition gradient :: "nat \<Rightarrow> nat \<Rightarrow> nat \<Rightarrow> 8 word rust" where
  "gradient a b t =
     do { u \<leftarrow> sub_u32 255 t;
          p \<leftarrow> mul_u32 a u;
          q \<leftarrow> mul_u32 b t;
          s \<leftarrow> add_u32 p q;
          Some (word_of_nat (s div 255)) }"

definition background_line :: "DisplayInfo \<Rightarrow> nat \<Rightarrow> nat \<Rightarrow> pixmem \<Rightarrow> pixmem rust" where
  "background_line info buf y m =
     do { t \<leftarrow> (if di_height info > 1 then do { p \<leftarrow> mul_u64 y 255; Some (p div (di_height info - 1)) } else Some 0);
          r \<leftarrow> gradient 0x1e 0x0a (t mod U32_LIMIT);
          g \<leftarrow> gradient 0x3a 0x0a (t mod U32_LIMIT);
          b \<leftarrow> gradient 0x5f 0x0f (t mod U32_LIMIT);
          pixel \<leftarrow> build_pixel info r g b;
          fold_rust (\<lambda>x m. do { line \<leftarrow> mul_u64 y (di_width info); off \<leftarrow> add_u64 line x; write_px (buf, off) pixel m })
            [0..<di_width info] m }"

text \<open>Signed division by two rounds towards zero.\<close>

definition half_i32 :: "int \<Rightarrow> int" where
  "half_i32 x = (if x < 0 then - ((- x) div 2) else x div 2)"

definition Compositor_new :: "nat \<Rightarrow> World \<Rightarrow> (Compositor \<times> World) rust" where
  "Compositor_new recv_ep w =
     do { (display, w1) \<leftarrow> Display_new w;
          let info = w_info w1;
          screen_pixels \<leftarrow> mul_u64 (di_width info) (di_height info);
          bg_bytes \<leftarrow> mul_u64 screen_pixels 4;
          let (bg, w2) = sys_mmap_w bg_bytes w1;
          m3 \<leftarrow> (if bg \<noteq> 0 then fold_rust (background_line info bg) [0..<di_height info] (w_pix w2) else Some (w_pix w2));
          let (scene, w4) = sys_mmap_w bg_bytes (w2 \<lparr> w_pix := m3 \<rparr>);
          m5 \<leftarrow> (if scene \<noteq> 0 \<and> bg \<noteq> 0 then copy_nonoverlapping (bg, 0) (scene, 0) screen_pixels (w_pix w4)
                 else Some (w_pix w4));
          black \<leftarrow> build_pixel info 0 0 0;
          white \<leftarrow> build_pixel info 255 255 255;
          Some (\<lparr> c_display = display, display_info = info, windows = replicate MAX_WINDOWS None,
                  next_window_id = 1, recv_endpoint = recv_ep, z_order = replicate MAX_WINDOWS 0, n_windows = 0,
                  background_buf = bg, scene_buf = scene,
                  cursor_x = half_i32 (i32_of_u32 (di_width info)), cursor_y = half_i32 (i32_of_u32 (di_height info)),
                  cursor_black = black, cursor_white = white, pending_damage = None,
                  pending_scene_update = False, pending_full_redraw = False \<rparr>, w4 \<lparr> w_pix := m5 \<rparr>) }"

section \<open>The order of windows\<close>

text \<open>\<^verbatim>\<open>iter().position(p)\<close>.\<close>

primrec position :: "('a \<Rightarrow> bool) \<Rightarrow> 'a list \<Rightarrow> nat option" where
  "position p [] = None"
| "position p (x # xs) = (if p x then Some 0 else map_option Suc (position p xs))"

definition z_push :: "nat \<Rightarrow> Compositor \<Rightarrow> Compositor rust" where
  "z_push i c =
     (if n_windows c < MAX_WINDOWS
      then do { z \<leftarrow> index_set (z_order c) (n_windows c) i;
                Some (c \<lparr> z_order := z, n_windows := n_windows c + 1 \<rparr>) }
      else Some c)"

definition z_remove :: "nat \<Rightarrow> Compositor \<Rightarrow> Compositor rust" where
  "z_remove i c =
     (if n_windows c > length (z_order c) then panic
      else case position (\<lambda>x. x = i) (take (n_windows c) (z_order c)) of
        Some pos \<Rightarrow>
          do { z \<leftarrow> fold_rust (\<lambda>k z. do { v \<leftarrow> index_get z (k + 1); index_set z k v })
                      [pos..<n_windows c - 1] (z_order c);
               Some (c \<lparr> z_order := z, n_windows := n_windows c - 1 \<rparr>) }
      | None \<Rightarrow> Some c)"

definition z_raise :: "nat \<Rightarrow> Compositor \<Rightarrow> Compositor rust" where
  "z_raise i c = do { c1 \<leftarrow> z_remove i c; z_push i c1 }"

definition z_lower :: "nat \<Rightarrow> Compositor \<Rightarrow> Compositor rust" where
  "z_lower i c =
     do { c1 \<leftarrow> z_remove i c;
          if n_windows c1 < MAX_WINDOWS
          then do { z \<leftarrow> fold_rust (\<lambda>k z. do { v \<leftarrow> index_get z k; index_set z (k + 1) v })
                           (rev [0..<n_windows c1]) (z_order c1);
                    z' \<leftarrow> index_set z 0 i;
                    Some (c1 \<lparr> z_order := z', n_windows := n_windows c1 + 1 \<rparr>) }
          else Some c1 }"

section \<open>Damage\<close>

definition screen_rect :: "int \<Rightarrow> int \<Rightarrow> nat \<Rightarrow> nat \<Rightarrow> Compositor \<Rightarrow> DirtyRect option rust" where
  "screen_rect x y w h c =
     do { let x0 = nat (max x 0);
          let y0 = nat (max y 0);
          xe \<leftarrow> add_i32 x (i32_of_u32 w);
          let x1 = min (nat (max xe 0)) (di_width (display_info c));
          ye \<leftarrow> add_i32 y (i32_of_u32 h);
          let y1 = min (nat (max ye 0)) (di_height (display_info c));
          Some (if x0 < x1 \<and> y0 < y1 then Some (mk_rect x0 y0 (x1 - x0) (y1 - y0)) else None) }"

definition cursor_rect :: "Compositor \<Rightarrow> DirtyRect option rust" where
  "cursor_rect c = screen_rect (cursor_x c) (cursor_y c) CURSOR_W CURSOR_H c"

definition rect_expand :: "DirtyRect \<Rightarrow> DirtyRect \<Rightarrow> DirtyRect rust" where
  "rect_expand d r = DirtyRect_expand d (r_x r) (r_y r) (r_w r) (r_h r)"

definition expand_pending :: "DirtyRect \<Rightarrow> Compositor \<Rightarrow> Compositor rust" where
  "expand_pending rect c =
     (case pending_damage c of
        Some d \<Rightarrow> do { d' \<leftarrow> rect_expand d rect; Some (c \<lparr> pending_damage := Some d' \<rparr>) }
      | None \<Rightarrow> Some (c \<lparr> pending_damage := Some rect \<rparr>))"

definition mark_full_redraw :: "Compositor \<Rightarrow> Compositor" where
  "mark_full_redraw c = c \<lparr> pending_full_redraw := True, pending_scene_update := True, pending_damage := None \<rparr>"

definition mark_damage :: "DirtyRect \<Rightarrow> Compositor \<Rightarrow> Compositor rust" where
  "mark_damage rect c = do { c1 \<leftarrow> expand_pending rect c; Some (c1 \<lparr> pending_scene_update := True \<rparr>) }"

section \<open>The scene\<close>

definition blit_to_scene :: "pixptr \<Rightarrow> nat \<Rightarrow> int \<Rightarrow> int \<Rightarrow> nat \<Rightarrow> nat \<Rightarrow> Compositor \<Rightarrow> pixmem \<Rightarrow> pixmem rust" where
  "blit_to_scene src src_width dst_x dst_y w h c m =
     (if scene_buf c = 0 then Some m
      else do {
        let screen_w = di_width (display_info c);
        let screen_h = di_height (display_info c);
        let x0 = nat (max dst_x 0);
        let y0 = nat (max dst_y 0);
        xe \<leftarrow> add_i32 dst_x (i32_of_u32 w);
        let x1 = min (nat (max xe 0)) screen_w;
        ye \<leftarrow> add_i32 dst_y (i32_of_u32 h);
        let y1 = min (nat (max ye 0)) screen_h;
        if x0 \<ge> x1 \<or> y0 \<ge> y1 then Some m
        else do {
          let clipped_w = x1 - x0;
          sx \<leftarrow> sub_i32 (i32_of_u32 x0) dst_x;
          let src_x_off = nat (max sx 0);
          sy \<leftarrow> sub_i32 (i32_of_u32 y0) dst_y;
          let src_y_off = nat (max sy 0);
          fold_rust (\<lambda>row m.
              do { sr \<leftarrow> add_u64 src_y_off row;
                   sl \<leftarrow> mul_u64 sr src_width;
                   src_off \<leftarrow> add_u64 sl src_x_off;
                   dr \<leftarrow> add_u64 y0 row;
                   dl \<leftarrow> mul_u64 dr screen_w;
                   dst_off \<leftarrow> add_u64 dl x0;
                   copy_nonoverlapping (ptr_add src src_off) (scene_buf c, dst_off) clipped_w m })
            [0..<y1 - y0] m } })"

definition find_window :: "nat \<Rightarrow> Compositor \<Rightarrow> Window option" where
  "find_window i c = find (\<lambda>w. win_id w = i) (List.map_filter (\<lambda>w. w) (windows c))"

definition blit_window_region :: "DirtyRect \<Rightarrow> nat \<Rightarrow> Compositor \<Rightarrow> pixmem \<Rightarrow> pixmem rust" where
  "blit_window_region damage k c m =
     do { i \<leftarrow> index_get (z_order c) k;
          case find_window i c of
            None \<Rightarrow> Some m
          | Some w \<Rightarrow>
              do { wx1 \<leftarrow> add_i32 (win_x w) (i32_of_u32 (win_width w));
                   wy1 \<leftarrow> add_i32 (win_y w) (i32_of_u32 (win_height w));
                   dx1 \<leftarrow> add_i32 (i32_of_u32 (r_x damage)) (i32_of_u32 (r_w damage));
                   dy1 \<leftarrow> add_i32 (i32_of_u32 (r_y damage)) (i32_of_u32 (r_h damage));
                   if win_x w \<ge> dx1 \<or> wx1 \<le> i32_of_u32 (r_x damage) \<or> win_y w \<ge> dy1 \<or> wy1 \<le> i32_of_u32 (r_y damage)
                   then Some m
                   else blit_to_scene (win_buffer w, 0) (win_width w) (win_x w) (win_y w) (win_width w) (win_height w) c m } }"

definition update_scene_region :: "DirtyRect \<Rightarrow> Compositor \<Rightarrow> pixmem \<Rightarrow> pixmem rust" where
  "update_scene_region damage c m =
     do { m1 \<leftarrow> (if background_buf c \<noteq> 0
                 then do { line \<leftarrow> mul_u64 (r_y damage) (di_width (display_info c));
                           off \<leftarrow> add_u64 line (r_x damage);
                           blit_to_scene (ptr_add (background_buf c, 0) off) (di_width (display_info c))
                             (i32_of_u32 (r_x damage)) (i32_of_u32 (r_y damage)) (r_w damage) (r_h damage) c m }
                 else Some m);
          fold_rust (\<lambda>k. blit_window_region damage k c) [0..<n_windows c] m1 }"

definition blit_window_full :: "nat \<Rightarrow> Compositor \<Rightarrow> pixmem \<Rightarrow> pixmem rust" where
  "blit_window_full k c m =
     do { i \<leftarrow> index_get (z_order c) k;
          case find_window i c of
            None \<Rightarrow> Some m
          | Some w \<Rightarrow>
              blit_to_scene (win_buffer w, 0) (win_width w) (win_x w) (win_y w) (win_width w) (win_height w) c m }"

definition update_scene_full :: "Compositor \<Rightarrow> pixmem \<Rightarrow> pixmem rust" where
  "update_scene_full c m =
     (if scene_buf c = 0 then Some m
      else do {
        m1 \<leftarrow> (if background_buf c \<noteq> 0
               then do { n \<leftarrow> mul_u64 (di_width (display_info c)) (di_height (display_info c));
                         copy_nonoverlapping (background_buf c, 0) (scene_buf c, 0) n m }
               else Some m);
        fold_rust (\<lambda>k. blit_window_full k c) [0..<n_windows c] m1 })"

text \<open>The display after the scene has been blitted and, where it is needed, the cursor drawn.\<close>

definition draw_region :: "DirtyRect \<Rightarrow> Compositor \<Rightarrow> pixmem \<Rightarrow> (Display \<times> pixmem) rust" where
  "draw_region damage c m =
     do { (dp1, m1) \<leftarrow> (if scene_buf c \<noteq> 0
            then do { line \<leftarrow> mul_u64 (r_y damage) (di_width (display_info c));
                      off \<leftarrow> add_u64 line (r_x damage);
                      blit_raw (ptr_add (scene_buf c, 0) off) (di_width (display_info c))
                        (i32_of_u32 (r_x damage)) (i32_of_u32 (r_y damage)) (r_w damage) (r_h damage) (c_display c) m }
            else Some (c_display c, m));
          cr \<leftarrow> cursor_rect c;
          case cr of
             None \<Rightarrow> Some (dp1, m1)
           | Some r \<Rightarrow>
               do { dx1 \<leftarrow> add_u32 (r_x damage) (r_w damage);
                    dy1 \<leftarrow> add_u32 (r_y damage) (r_h damage);
                    cx1 \<leftarrow> add_u32 (r_x r) (r_w r);
                    cy1 \<leftarrow> add_u32 (r_y r) (r_h r);
                    if r_x r < dx1 \<and> cx1 > r_x damage \<and> r_y r < dy1 \<and> cy1 > r_y damage
                    then blit_cursor (cursor_x c) (cursor_y c) CURSOR_MASK CURSOR_IMAGE CURSOR_W CURSOR_H
                           (cursor_black c) (cursor_white c) dp1 m1
                    else Some (dp1, m1) } }"

definition present_region :: "DirtyRect \<Rightarrow> Compositor \<Rightarrow> pixmem \<Rightarrow> (Compositor \<times> pixmem) rust" where
  "present_region damage c m =
     do { (dp2, m2) \<leftarrow> draw_region damage c m;
          (dp3, m3) \<leftarrow> present dp2 m2;
          Some (c \<lparr> c_display := dp3 \<rparr>, m3) }"

definition flush :: "Compositor \<Rightarrow> pixmem \<Rightarrow> (Compositor \<times> pixmem) rust" where
  "flush c m =
     (if pending_full_redraw c
      then do {
        let c1 = c \<lparr> pending_full_redraw := False, pending_scene_update := False, pending_damage := None \<rparr>;
        m1 \<leftarrow> update_scene_full c1 m;
        present_region (mk_rect 0 0 (di_width (display_info c1)) (di_height (display_info c1))) c1 m1 }
      else case pending_damage c of
        None \<Rightarrow> Some (c, m)
      | Some damage \<Rightarrow>
          do { let c1 = c \<lparr> pending_damage := None \<rparr>;
               (c2, m2) \<leftarrow> (if pending_scene_update c1
                 then do { let c2 = c1 \<lparr> pending_scene_update := False \<rparr>;
                           m2 \<leftarrow> update_scene_region damage c2 m;
                           Some (c2, m2) }
                 else Some (c1, m));
               present_region damage c2 m2 })"

section \<open>Requests\<close>

definition send_response :: "nat \<Rightarrow> CreateWindowResponse \<Rightarrow> World \<Rightarrow> World" where
  "send_response reply_ep response w =
     sys_channel_close_w reply_ep (sys_channel_send_w reply_ep (CreateWindowResponse_bytes response) w)"

definition create_error :: "WindowResult \<Rightarrow> CreateWindowResponse" where
  "create_error r = \<lparr> cr_result = r, cr_window_id = 0, cr_shared_buf_id = 0 \<rparr>"

definition handle_create_window :: "CreateWindowRequest \<Rightarrow> nat \<Rightarrow> Compositor \<Rightarrow> World \<Rightarrow> (Compositor \<times> World) rust" where
  "handle_create_window req reply_ep c w =
     (if cw_width req = 0 \<or> cw_height req = 0 \<or> cw_width req > 4096 \<or> cw_height req > 4096
      then Some (c, send_response reply_ep (create_error ErrorInvalidDimensions) w)
      else case position (\<lambda>s. s = None) (windows c) of
        None \<Rightarrow> Some (c, send_response reply_ep (create_error ErrorOutOfMemory) w)
      | Some slot_idx \<Rightarrow>
          do { let window_id = next_window_id c;
               next \<leftarrow> add_u64 window_id 1;
               let c1 = c \<lparr> next_window_id := next \<rparr>;
               (created, w1) \<leftarrow> Window_new window_id (cw_x req) (cw_y req) (cw_width req) (cw_height req) w;
               case created of
                 Some window \<Rightarrow>
                   do { ws \<leftarrow> index_set (windows c1) slot_idx (Some window);
                        c2 \<leftarrow> z_push window_id (c1 \<lparr> windows := ws \<rparr>);
                        let w2 = send_response reply_ep
                          \<lparr> cr_result = Ok, cr_window_id = window_id, cr_shared_buf_id = win_shared_buf_id window \<rparr> w1;
                        Some (mark_full_redraw c2, w2) }
               | None \<Rightarrow> Some (c1, send_response reply_ep (create_error ErrorOutOfMemory) w1) })"

definition handle_update_window :: "UpdateWindowRequest \<Rightarrow> Compositor \<Rightarrow> Compositor rust" where
  "handle_update_window header c =
     (case find_window (uw_window_id header) c of
        None \<Rightarrow> Some c
      | Some window \<Rightarrow>
          do { right \<leftarrow> add_u32 (dirty_x header) (dirty_width header);
               outside \<leftarrow> (if right > win_width window then Some True
                 else do { bottom \<leftarrow> add_u32 (dirty_y header) (dirty_height header);
                           Some (bottom > win_height window) });
               if outside then Some c
               else do {
                 r \<leftarrow> screen_rect (win_x window) (win_y window) (win_width window) (win_height window) c;
                 case r of Some rect \<Rightarrow> mark_damage rect c | None \<Rightarrow> Some c } })"

definition slot_has :: "nat \<Rightarrow> Window option \<Rightarrow> bool" where
  "slot_has i s = (case s of Some w \<Rightarrow> win_id w = i | None \<Rightarrow> False)"

definition handle_close_window :: "CloseWindowRequest \<Rightarrow> Compositor \<Rightarrow> World \<Rightarrow> (Compositor \<times> World) rust" where
  "handle_close_window req c w =
     (case position (slot_has (xw_window_id req)) (windows c) of
        None \<Rightarrow> Some (c, w)
      | Some k \<Rightarrow>
          (case windows c ! k of
             None \<Rightarrow> Some (c, w)
           | Some window \<Rightarrow>
               do { let w1 = sys_munmap_w (win_buffer window) (win_buf_size window) w;
                    c1 \<leftarrow> z_remove (win_id window) (c \<lparr> windows := (windows c)[k := None] \<rparr>);
                    let w2 = sys_destroy_shared_buf_w (win_shared_buf_id window) w1;
                    Some (mark_full_redraw c1, w2) }))"

definition handle_move_window :: "MoveWindowRequest \<Rightarrow> Compositor \<Rightarrow> Compositor rust" where
  "handle_move_window req c =
     (case position (slot_has (mw_window_id req)) (windows c) of
        None \<Rightarrow> Some c
      | Some k \<Rightarrow>
          (case windows c ! k of
             None \<Rightarrow> Some c
           | Some window \<Rightarrow>
               do { let c1 = c \<lparr> windows := (windows c)[k := Some (window \<lparr> win_x := mw_x req, win_y := mw_y req \<rparr>)] \<rparr>;
                    old \<leftarrow> screen_rect (win_x window) (win_y window) (win_width window) (win_height window) c1;
                    new \<leftarrow> screen_rect (mw_x req) (mw_y req) (win_width window) (win_height window) c1;
                    damage \<leftarrow> (case new of
                        None \<Rightarrow> Some old
                      | Some new_rect \<Rightarrow>
                          (case old of
                             Some d \<Rightarrow> do { d' \<leftarrow> rect_expand d new_rect; Some (Some d') }
                           | None \<Rightarrow> Some (Some new_rect)));
                    case damage of Some d \<Rightarrow> mark_damage d c1 | None \<Rightarrow> Some c1 }))"

definition handle_raise_window :: "RaiseWindowRequest \<Rightarrow> Compositor \<Rightarrow> Compositor rust" where
  "handle_raise_window req c = do { c1 \<leftarrow> z_raise (rw_window_id req) c; Some (mark_full_redraw c1) }"

definition handle_lower_window :: "LowerWindowRequest \<Rightarrow> Compositor \<Rightarrow> Compositor rust" where
  "handle_lower_window req c = do { c1 \<leftarrow> z_lower (lw_window_id req) c; Some (mark_full_redraw c1) }"

text \<open>The requests are read from the message at offset 1. For \<^verbatim>\<open>CreateWindow\<close> and
  \<^verbatim>\<open>CloseWindow\<close> the code uses \<^verbatim>\<open>ptr::read\<close>, which requires alignment the message
  does not have; the model takes the bytes that are there, as the other kinds of request do with
  \<^verbatim>\<open>read_unaligned\<close> and as the processor does.\<close>

definition process_message :: "byte list \<Rightarrow> Compositor \<Rightarrow> World \<Rightarrow> (Compositor \<times> World) rust" where
  "process_message msg c w =
     (case msg of
        [] \<Rightarrow> Some (c, w)
      | t # body \<Rightarrow>
          if t = WindowMessageType_code CreateWindow then
            (if length msg < 1 + 16 + 8 then Some (c, w)
             else handle_create_window (CreateWindowRequest_read body) (field_u64 body 16) c w)
          else if t = WindowMessageType_code UpdateWindow then
            (if length msg < 1 + 24 then Some (c, w)
             else do { c1 \<leftarrow> handle_update_window (UpdateWindowRequest_read body) c; Some (c1, w) })
          else if t = WindowMessageType_code CloseWindow then
            (if length msg < 1 + 8 then Some (c, w)
             else handle_close_window \<lparr> xw_window_id = field_u64 body 0 \<rparr> c w)
          else if t = WindowMessageType_code MoveWindow then
            (if length msg < 1 + 16 then Some (c, w)
             else do { c1 \<leftarrow> handle_move_window (MoveWindowRequest_read body) c; Some (c1, w) })
          else if t = WindowMessageType_code RaiseWindow then
            (if length msg < 1 + 8 then Some (c, w)
             else do { c1 \<leftarrow> handle_raise_window \<lparr> rw_window_id = field_u64 body 0 \<rparr> c; Some (c1, w) })
          else if t = WindowMessageType_code LowerWindow then
            (if length msg < 1 + 8 then Some (c, w)
             else do { c1 \<leftarrow> handle_lower_window \<lparr> lw_window_id = field_u64 body 0 \<rparr> c; Some (c1, w) })
          else Some (c, w))"

section \<open>The main loop\<close>

text \<open>All messages that wait are handled before anything is drawn; a receive that fails or brings
  nothing ends the round.\<close>

fun drain_messages :: "(nat \<times> byte list) list \<Rightarrow> Compositor \<Rightarrow> World \<Rightarrow> (Compositor \<times> World) rust" where
  "drain_messages [] c w = Some (c, w \<lparr> w_recv := [] \<rparr>)"
| "drain_messages ((res, msg) # rs) c w =
     (if res \<noteq> 0 \<or> msg = [] then Some (c, w \<lparr> w_recv := rs \<rparr>)
      else do { (c1, w1) \<leftarrow> process_message msg c w; drain_messages rs c1 w1 })"

definition drain_mouse :: "World \<Rightarrow> ((int \<times> int) \<times> World) rust" where
  "drain_mouse w =
     do { t \<leftarrow> fold_rust (\<lambda>ev t. do { x \<leftarrow> add_i32 (fst t) (fst ev); y \<leftarrow> add_i32 (snd t) (snd ev); Some (x, y) })
                 (w_mouse w) (0, 0);
          Some (t, w \<lparr> w_mouse := [] \<rparr>) }"

text \<open>\<^verbatim>\<open>i32::clamp\<close> panics on an empty range.\<close>

definition clamp_i32 :: "int \<Rightarrow> int \<Rightarrow> int \<Rightarrow> int rust" where
  "clamp_i32 v lo hi = (if lo \<le> hi then Some (max lo (min v hi)) else panic)"

definition move_cursor :: "int \<Rightarrow> int \<Rightarrow> Compositor \<Rightarrow> Compositor rust" where
  "move_cursor total_dx total_dy c =
     (if total_dx \<noteq> 0 \<or> total_dy \<noteq> 0
      then do {
        old_rect \<leftarrow> cursor_rect c;
        x \<leftarrow> add_i32 (cursor_x c) total_dx;
        mx \<leftarrow> sub_i32 (i32_of_u32 (di_width (display_info c))) 1;
        x' \<leftarrow> clamp_i32 x 0 mx;
        y \<leftarrow> add_i32 (cursor_y c) total_dy;
        my \<leftarrow> sub_i32 (i32_of_u32 (di_height (display_info c))) 1;
        y' \<leftarrow> clamp_i32 y 0 my;
        let c1 = c \<lparr> cursor_x := x', cursor_y := y' \<rparr>;
        new_rect \<leftarrow> cursor_rect c1;
        cursor_damage \<leftarrow> (case (old_rect, new_rect) of
            (Some a, Some b) \<Rightarrow> do { a' \<leftarrow> rect_expand a b; Some (Some a') }
          | (Some a, None) \<Rightarrow> Some (Some a)
          | (None, Some b) \<Rightarrow> Some (Some b)
          | (None, None) \<Rightarrow> Some None);
        case cursor_damage of Some cd \<Rightarrow> expand_pending cd c1 | None \<Rightarrow> Some c1 }
      else Some c)"

definition run_iteration :: "Compositor \<Rightarrow> World \<Rightarrow> (Compositor \<times> World) rust" where
  "run_iteration c w =
     do { (c1, w1) \<leftarrow> drain_messages (w_recv w) c w;
          ((total_dx, total_dy), w2) \<leftarrow> drain_mouse w1;
          c2 \<leftarrow> move_cursor total_dx total_dy c1;
          (c3, m3) \<leftarrow> flush c2 (w_pix w2);
          Some (c3, sys_yield_w (w2 \<lparr> w_pix := m3 \<rparr>)) }"

section \<open>The order of windows is a list\<close>

text \<open>The windows from bottom to top, and the tables that represent such a list.\<close>

definition zs :: "Compositor \<Rightarrow> nat list" where
  "zs c = take (n_windows c) (z_order c)"

definition z_ok :: "Compositor \<Rightarrow> bool" where
  "z_ok c \<longleftrightarrow> length (z_order c) = MAX_WINDOWS \<and> n_windows c \<le> MAX_WINDOWS"

lemma zs_upd [simp]: "zs (c \<lparr> z_order := z, n_windows := n \<rparr>) = take n z"
  by (simp add: zs_def)

lemma length_zs: "z_ok c \<Longrightarrow> length (zs c) = n_windows c"
  by (simp add: z_ok_def zs_def)

lemma position_Some:
  "position p xs = Some k \<Longrightarrow> k < length xs \<and> p (xs ! k) \<and> (\<forall>j<k. \<not> p (xs ! j))"
proof (induction xs arbitrary: k)
  case (Cons x xs)
  show ?case
  proof (cases "p x")
    case False
    then obtain l where "position p xs = Some l" "k = Suc l" using Cons.prems by auto
    then show ?thesis using Cons.IH False by (auto simp: less_Suc_eq_0_disj)
  qed (use Cons.prems in auto)
qed simp

lemma position_None: "position p xs = None \<longleftrightarrow> (\<forall>x\<in>set xs. \<not> p x)"
  by (induction xs) auto

lemma remove1_position:
  "position (\<lambda>x. x = i) xs = Some k \<Longrightarrow> remove1 i xs = take k xs @ drop (Suc k) xs"
  by (induction xs arbitrary: k) (auto split: if_splits)

lemma shift_down:
  assumes "q < length z" "p \<le> q"
  shows "fold_rust (\<lambda>k z. do { v \<leftarrow> index_get z (k + 1); index_set z k v }) [p..<q] z
       = Some (take p z @ take (q - p) (drop (Suc p) z) @ drop q z)"
  using assms
proof (induction q)
  case (Suc q)
  show ?case
  proof (cases "p \<le> q")
    case True
    let ?z = "take p z @ take (q - p) (drop (Suc p) z) @ drop q z"
    have len: "length ?z = length z" using Suc.prems True by simp
    have "?z ! Suc q = z ! Suc q" using Suc.prems True by (auto simp: nth_append)
    moreover have "?z[q := z ! Suc q] = take p z @ take (Suc q - p) (drop (Suc p) z) @ drop (Suc q) z"
      using Suc.prems True
      by (intro nth_equalityI) (auto simp: nth_append nth_list_update len Suc_diff_le)
    ultimately show ?thesis using Suc True len by (simp add: fold_rust_append index_get_def index_set_def)
  next
    case False
    then have "p = Suc q" using Suc.prems by simp
    then show ?thesis by simp
  qed
qed simp

lemma shift_up:
  assumes "n < length z"
  shows "fold_rust (\<lambda>k z. do { v \<leftarrow> index_get z k; index_set z (k + 1) v }) (rev [0..<n]) z
       = Some (z ! 0 # take n z @ drop (Suc n) z)"
  using assms
proof (induction n arbitrary: z)
  case 0
  then show ?case by (cases z) simp_all
next
  case (Suc n)
  let ?z = "z[Suc n := z ! n]"
  have "?z ! 0 # take n ?z @ drop (Suc n) ?z = z ! 0 # take (Suc n) z @ drop (Suc (Suc n)) z"
    using Suc.prems by (simp add: take_Suc_conv_app_nth Cons_nth_drop_Suc [symmetric] del: drop_Suc_Cons)
  then show ?case using Suc.IH [of ?z] Suc.prems by (simp add: index_get_def index_set_def)
qed

lemma z_push_ok:
  assumes "z_ok c"
  obtains z n where "z_push i c = Some (c \<lparr> z_order := z, n_windows := n \<rparr>)" "z_ok (c \<lparr> z_order := z, n_windows := n \<rparr>)"
    "take n z = (if length (zs c) < MAX_WINDOWS then zs c @ [i] else zs c)"
proof (cases "n_windows c < MAX_WINDOWS")
  case True
  show ?thesis
    by (rule that [of "n_windows c + 1" "(z_order c)[n_windows c := i]"])
      (use assms True length_zs [OF assms] in \<open>simp_all add: z_push_def index_set_def z_ok_def zs_def take_Suc_conv_app_nth\<close>)
next
  case False
  show ?thesis
    by (rule that [of "n_windows c" "z_order c"]) (use assms False length_zs [OF assms] in \<open>simp_all add: z_push_def zs_def\<close>)
qed

lemma z_remove_ok:
  assumes "z_ok c"
  obtains z n where "z_remove i c = Some (c \<lparr> z_order := z, n_windows := n \<rparr>)" "z_ok (c \<lparr> z_order := z, n_windows := n \<rparr>)"
    "take n z = remove1 i (zs c)"
proof (cases "position (\<lambda>x. x = i) (zs c)")
  case None
  then have "i \<notin> set (zs c)" by (auto simp: position_None)
  then show ?thesis
    by (intro that [of "n_windows c" "z_order c"]) (use assms None in \<open>simp_all add: z_remove_def zs_def z_ok_def remove1_idem\<close>)
next
  case (Some k)
  let ?n = "n_windows c" and ?z = "z_order c"
  have k: "k < ?n" "?n \<le> length ?z" using position_Some [OF Some] assms by (auto simp: z_ok_def zs_def)
  let ?z' = "take k ?z @ take (?n - 1 - k) (drop (Suc k) ?z) @ drop (?n - 1) ?z"
  have "z_remove i c = Some (c \<lparr> z_order := ?z', n_windows := ?n - 1 \<rparr>)"
    using shift_down [of "?n - 1" ?z k] k Some by (simp add: z_remove_def zs_def)
  moreover have "z_ok (c \<lparr> z_order := ?z', n_windows := ?n - 1 \<rparr>)" using assms k by (auto simp: z_ok_def min_def)
  moreover have "take (?n - 1) ?z' = remove1 i (zs c)"
    using remove1_position [OF Some] k by (simp add: zs_def drop_take)
  ultimately show ?thesis by (rule that)
qed

lemma z_raise_ok:
  assumes "z_ok c"
  obtains z n where "z_raise i c = Some (c \<lparr> z_order := z, n_windows := n \<rparr>)" "z_ok (c \<lparr> z_order := z, n_windows := n \<rparr>)"
    "take n z = (if length (remove1 i (zs c)) < MAX_WINDOWS then remove1 i (zs c) @ [i] else remove1 i (zs c))"
proof -
  obtain z n where r: "z_remove i c = Some (c \<lparr> z_order := z, n_windows := n \<rparr>)"
    "z_ok (c \<lparr> z_order := z, n_windows := n \<rparr>)" "take n z = remove1 i (zs c)" by (rule z_remove_ok [OF assms])
  show ?thesis
  proof (rule z_push_ok [OF r(2), of i, unfolded zs_upd r(3)])
    fix z2 n2
    assume p: "z_push i (c \<lparr> z_order := z, n_windows := n \<rparr>) = Some (c \<lparr> z_order := z, n_windows := n, z_order := z2, n_windows := n2 \<rparr>)"
      "z_ok (c \<lparr> z_order := z, n_windows := n, z_order := z2, n_windows := n2 \<rparr>)"
      "take n2 z2 = (if length (remove1 i (zs c)) < MAX_WINDOWS then remove1 i (zs c) @ [i] else remove1 i (zs c))"
    show ?thesis by (rule that [OF _ _ p(3)]) (use p r(1) in \<open>simp_all add: z_raise_def\<close>)
  qed
qed

lemma z_lower_ok:
  assumes "z_ok c"
  obtains z n where "z_lower i c = Some (c \<lparr> z_order := z, n_windows := n \<rparr>)" "z_ok (c \<lparr> z_order := z, n_windows := n \<rparr>)"
    "take n z = (if length (remove1 i (zs c)) < MAX_WINDOWS then i # remove1 i (zs c) else remove1 i (zs c))"
proof -
  obtain z n where r: "z_remove i c = Some (c \<lparr> z_order := z, n_windows := n \<rparr>)"
    "z_ok (c \<lparr> z_order := z, n_windows := n \<rparr>)" "take n z = remove1 i (zs c)" by (rule z_remove_ok [OF assms])
  then have len: "length z = MAX_WINDOWS" "n \<le> MAX_WINDOWS" "length (remove1 i (zs c)) = n"
    by (auto simp: z_ok_def simp flip: r(3))
  show ?thesis
  proof (cases "n < MAX_WINDOWS")
    case True
    let ?z = "i # take n z @ drop (Suc n) z"
    have "z_lower i c = Some (c \<lparr> z_order := ?z, n_windows := n + 1 \<rparr>)"
    proof -
      have "index_set (z ! 0 # xs) 0 i = Some (i # xs)" for xs by (simp add: index_set_def)
      then show ?thesis using True len shift_up [of n z] by (simp add: z_lower_def r(1))
    qed
    moreover have "z_ok (c \<lparr> z_order := ?z, n_windows := n + 1 \<rparr>)" using True len by (simp add: z_ok_def)
    ultimately show ?thesis by (rule that) (use True len r(3) in simp)
  next
    case False
    then show ?thesis by (intro that [of n z]) (use r len in \<open>simp_all add: z_lower_def\<close>)
  qed
qed

section \<open>The table of windows\<close>

definition open_windows :: "Compositor \<Rightarrow> Window list" where
  "open_windows c = List.map_filter (\<lambda>w. w) (windows c)"

definition ids :: "Compositor \<Rightarrow> nat list" where
  "ids c = map win_id (open_windows c)"

definition table_ok :: "Compositor \<Rightarrow> bool" where
  "table_ok c \<longleftrightarrow> length (windows c) = MAX_WINDOWS \<and> z_ok c \<and> distinct (ids c) \<and>
     (\<forall>i\<in>set (ids c). i < next_window_id c)"

text \<open>Every open window has its place in the order, and nothing else has.\<close>

definition shown :: "Compositor \<Rightarrow> bool" where
  "shown c \<longleftrightarrow> distinct (zs c) \<and> set (zs c) = set (ids c)"

lemma map_filter_append: "List.map_filter f (xs @ ys) = List.map_filter f xs @ List.map_filter f ys"
  by (simp add: List.map_filter_def)

lemma open_windows_split:
  assumes "k < length (windows c)"
  shows "open_windows c = List.map_filter (\<lambda>w. w) (take k (windows c)) @
      (case windows c ! k of None \<Rightarrow> [] | Some w \<Rightarrow> [w]) @ List.map_filter (\<lambda>w. w) (drop (Suc k) (windows c))"
    "open_windows (c \<lparr> windows := (windows c)[k := v] \<rparr>) = List.map_filter (\<lambda>w. w) (take k (windows c)) @
      (case v of None \<Rightarrow> [] | Some w \<Rightarrow> [w]) @ List.map_filter (\<lambda>w. w) (drop (Suc k) (windows c))"
proof -
  show "open_windows c = List.map_filter (\<lambda>w. w) (take k (windows c)) @
      (case windows c ! k of None \<Rightarrow> [] | Some w \<Rightarrow> [w]) @ List.map_filter (\<lambda>w. w) (drop (Suc k) (windows c))"
    unfolding open_windows_def
    by (subst id_take_nth_drop [OF assms]) (auto simp: map_filter_append map_filter_simps split: option.splits)
  show "open_windows (c \<lparr> windows := (windows c)[k := v] \<rparr>) = List.map_filter (\<lambda>w. w) (take k (windows c)) @
      (case v of None \<Rightarrow> [] | Some w \<Rightarrow> [w]) @ List.map_filter (\<lambda>w. w) (drop (Suc k) (windows c))"
    unfolding open_windows_def
    by (auto simp: upd_conv_take_nth_drop [OF assms] map_filter_append map_filter_simps split: option.splits)
qed

lemma slot_fill:
  assumes "k < length (windows c)" "windows c ! k = None" "distinct (ids c)" "win_id w \<notin> set (ids c)"
  shows "distinct (ids (c \<lparr> windows := (windows c)[k := Some w] \<rparr>))"
    "set (ids (c \<lparr> windows := (windows c)[k := Some w] \<rparr>)) = insert (win_id w) (set (ids c))"
  using assms open_windows_split [OF assms(1)] by (auto simp: ids_def)

lemma slot_clear:
  assumes "k < length (windows c)" "windows c ! k = Some w" "distinct (ids c)"
  shows "distinct (ids (c \<lparr> windows := (windows c)[k := None] \<rparr>))"
    "set (ids (c \<lparr> windows := (windows c)[k := None] \<rparr>)) = set (ids c) - {win_id w}"
  using assms open_windows_split [OF assms(1)] by (auto simp: ids_def)

lemma slot_change:
  assumes "k < length (windows c)" "windows c ! k = Some w" "win_id w' = win_id w"
  shows "ids (c \<lparr> windows := (windows c)[k := Some w'] \<rparr>) = ids c"
  using assms open_windows_split [OF assms(1)] by (auto simp: ids_def)

text \<open>A table with a free slot has fewer windows than slots.\<close>

lemma free_slot_room:
  assumes "length (windows c) = MAX_WINDOWS" "k < length (windows c)" "windows c ! k = None"
  shows "length (ids c) < MAX_WINDOWS"
proof -
  have mf: "length (List.map_filter (\<lambda>w. w) xs) \<le> length xs" for xs :: "Window option list"
    by (simp add: List.map_filter_def)
  have "length (ids c) = length (List.map_filter (\<lambda>w. w) (take k (windows c))) + length (List.map_filter (\<lambda>w. w) (drop (Suc k) (windows c)))"
    using open_windows_split(1) [OF assms(2)] assms(3) by (simp add: ids_def)
  also have "\<dots> \<le> length (take k (windows c)) + length (drop (Suc k) (windows c))" by (rule add_mono [OF mf mf])
  finally show ?thesis using assms(1,2) by simp
qed

lemma table_ok_cong:
  assumes "windows c' = windows c" "z_order c' = z_order c" "n_windows c' = n_windows c" "next_window_id c' = next_window_id c"
  shows "table_ok c' = table_ok c" "shown c' = shown c" "zs c' = zs c" "ids c' = ids c"
  using assms by (simp_all add: table_ok_def shown_def zs_def ids_def open_windows_def z_ok_def)

lemma mark_full_redraw_table [simp]:
  "table_ok (mark_full_redraw c) = table_ok c" "shown (mark_full_redraw c) = shown c"
  by (rule table_ok_cong; simp add: mark_full_redraw_def)+

lemma mark_damage_table:
  "mark_damage r c = Some c' \<Longrightarrow> table_ok c' = table_ok c \<and> shown c' = shown c"
  using table_ok_cong [of c' c]
  by (auto simp: mark_damage_def expand_pending_def rust_SomeD split: option.splits)

lemma Window_new_SomeD:
  assumes "Window_new i x y wd ht w = Some (r, w')"
  shows "case r of None \<Rightarrow> True | Some win \<Rightarrow> win_id win = i \<and> win_x win = x \<and> win_y win = y \<and>
    win_width win = wd \<and> win_height win = ht"
  using assms by (auto simp: Window_new_def rust_SomeD case_prod_unfold Let_def split: if_splits)

lemma handle_create_cases:
  assumes "handle_create_window req ep c w = Some (c', w')"
  obtains (same) "c' = c"
  | (failed) "c' = c \<lparr> next_window_id := next_window_id c + 1 \<rparr>"
  | (created) k win c2 where "position (\<lambda>s. s = None) (windows c) = Some k" "win_id win = next_window_id c"
      "z_push (next_window_id c) (c \<lparr> next_window_id := next_window_id c + 1, windows := (windows c)[k := Some win] \<rparr>) = Some c2"
      "c' = mark_full_redraw c2"
proof (cases "cw_width req = 0 \<or> cw_height req = 0 \<or> cw_width req > 4096 \<or> cw_height req > 4096 \<or>
    position (\<lambda>s. s = None) (windows c) = None")
  case True
  then have "c' = c" using assms by (auto simp: handle_create_window_def split: if_splits)
  then show ?thesis by (rule same)
next
  case False
  then obtain k where k: "position (\<lambda>s. s = None) (windows c) = Some k" by auto
  let ?i = "next_window_id c"
  note eq = assms [unfolded handle_create_window_def k, simplified False Let_def, simplified]
  from eq False have add: "add_u64 ?i 1 = Some (?i + 1)" by (auto simp: rust_SomeD add_u64_def split: if_splits)
  show ?thesis
  proof (cases "Window_new ?i (cw_x req) (cw_y req) (cw_width req) (cw_height req) w")
    case None
    then show ?thesis using eq False add by simp
  next
    case (Some rw)
    obtain r w1 where rw: "rw = (r, w1)" by (cases rw)
    show ?thesis
    proof (cases r)
      case None
      then show ?thesis using eq False add Some rw by (intro failed) simp
    next
      case win: (Some win)
      have i: "win_id win = ?i" using Window_new_SomeD [of ?i] Some rw win by fastforce
      have "k < length (windows c)" using position_Some [OF k] by simp
      then obtain c2 where "z_push ?i (c \<lparr> next_window_id := ?i + 1, windows := (windows c)[k := Some win] \<rparr>) = Some c2"
        "c' = mark_full_redraw c2"
        using eq False add Some rw win by (auto simp: rust_SomeD index_set_def)
      then show ?thesis by (rule created [OF k i])
    qed
  qed
qed

lemma handle_create_keeps:
  assumes "table_ok c" "handle_create_window req ep c w = Some (c', w')"
  shows "table_ok c' \<and> (shown c \<longrightarrow> shown c')"
  using assms(2)
proof (cases rule: handle_create_cases)
  case failed
  then show ?thesis using assms(1)
    by (auto simp: table_ok_def shown_def zs_def ids_def open_windows_def z_ok_def)
next
  case (created k win c2)
  let ?i = "next_window_id c"
  let ?c1 = "c \<lparr> next_window_id := ?i + 1, windows := (windows c)[k := Some win] \<rparr>"
  from position_Some [OF created(1)] have k: "k < length (windows c)" "windows c ! k = None" by auto
  have fresh: "?i \<notin> set (ids c)" using assms(1) by (auto simp: table_ok_def)
  have ids: "distinct (ids ?c1)" "set (ids ?c1) = insert ?i (set (ids c))"
    using slot_fill [OF k, of win] assms(1) fresh created(2)
    by (auto simp: table_ok_def ids_def open_windows_def)
  have z: "z_ok ?c1" "zs ?c1 = zs c" using assms(1) by (auto simp: table_ok_def z_ok_def zs_def)
  obtain z n where p: "z_push ?i ?c1 = Some (?c1 \<lparr> z_order := z, n_windows := n \<rparr>)"
    "z_ok (?c1 \<lparr> z_order := z, n_windows := n \<rparr>)" "take n z = (if length (zs c) < MAX_WINDOWS then zs c @ [?i] else zs c)"
    by (rule z_push_ok [OF z(1), of ?i, unfolded z(2)])
  let ?c2 = "?c1 \<lparr> z_order := z, n_windows := n \<rparr>"
  have c2: "c2 = ?c2" using created(3) p(1) by simp
  have same: "ids ?c2 = ids ?c1" by (simp add: ids_def open_windows_def)
  have "shown ?c2" if sh: "shown c"
  proof -
    have "card (set (zs c)) = card (set (ids c))" using sh by (simp add: shown_def)
    then have "length (zs c) = length (ids c)" 
      using assms(1) sh distinct_card [of "zs c"] distinct_card [of "ids c"] by (simp add: table_ok_def shown_def)
    then have "length (zs c) < MAX_WINDOWS" using free_slot_room [OF _ k] assms(1) by (simp add: table_ok_def)
    then show ?thesis using sh fresh ids(2) p(3) same by (simp add: shown_def)
  qed
  moreover have "table_ok ?c2"
    using p(2) ids same assms(1) by (auto simp: table_ok_def)
  ultimately show ?thesis by (simp add: created(4) c2)
qed (use assms(1) in simp)

lemma handle_close_keeps:
  assumes "table_ok c" "handle_close_window req c w = Some (c', w')"
  shows "table_ok c' \<and> (shown c \<longrightarrow> shown c')"
proof (cases "position (slot_has (xw_window_id req)) (windows c)")
  case None
  then show ?thesis using assms by (simp add: handle_close_window_def)
next
  case (Some k)
  from position_Some [OF Some] obtain win where k: "k < length (windows c)" "windows c ! k = Some win"
    by (auto simp: slot_has_def split: option.splits)
  let ?c1 = "c \<lparr> windows := (windows c)[k := None] \<rparr>"
  have z: "z_ok ?c1" "zs ?c1 = zs c" using assms(1) by (auto simp: table_ok_def z_ok_def zs_def)
  obtain z n where r: "z_remove (win_id win) ?c1 = Some (?c1 \<lparr> z_order := z, n_windows := n \<rparr>)"
    "z_ok (?c1 \<lparr> z_order := z, n_windows := n \<rparr>)" "take n z = remove1 (win_id win) (zs c)"
    by (rule z_remove_ok [OF z(1), of "win_id win", unfolded z(2)])
  let ?c2 = "?c1 \<lparr> z_order := z, n_windows := n \<rparr>"
  have c': "c' = mark_full_redraw ?c2" using assms(2) Some k r(1) by (simp add: handle_close_window_def)
  have same: "ids ?c2 = ids ?c1" by (simp add: ids_def open_windows_def)
  note ids = slot_clear [OF k]
  have "table_ok ?c2" using r(2) ids same assms(1) by (auto simp: table_ok_def)
  moreover have "shown ?c2" if "shown c"
    using that r(3) ids assms(1) by (auto simp: shown_def same table_ok_def)
  ultimately show ?thesis by (simp add: c')
qed

lemma handle_move_keeps:
  assumes "table_ok c" "handle_move_window req c = Some c'"
  shows "table_ok c' \<and> (shown c \<longrightarrow> shown c')"
proof (cases "position (slot_has (mw_window_id req)) (windows c)")
  case None
  then show ?thesis using assms by (simp add: handle_move_window_def)
next
  case (Some k)
  from position_Some [OF Some] obtain win where k: "k < length (windows c)" "windows c ! k = Some win"
    by (auto simp: slot_has_def split: option.splits)
  let ?c1 = "c \<lparr> windows := (windows c)[k := Some (win \<lparr> win_x := mw_x req, win_y := mw_y req \<rparr>)] \<rparr>"
  have ids: "ids ?c1 = ids c" by (rule slot_change [OF k]) simp
  have c1: "table_ok ?c1 \<and> (shown c \<longrightarrow> shown ?c1)"
    using assms(1) ids by (simp add: table_ok_def shown_def z_ok_def zs_def)
  have "c' = ?c1 \<or> (\<exists>d. mark_damage d ?c1 = Some c')"
    using assms(2) Some k by (auto simp: handle_move_window_def rust_SomeD Let_def split: option.splits)
  then show ?thesis using c1 mark_damage_table by blast
qed

lemma handle_update_keeps:
  assumes "table_ok c" "handle_update_window req c = Some c'"
  shows "table_ok c' \<and> (shown c \<longrightarrow> shown c')"
proof -
  have "c' = c \<or> (\<exists>d. mark_damage d c = Some c')"
    using assms(2) by (auto simp: handle_update_window_def rust_SomeD split: option.splits if_splits)
  then show ?thesis using assms(1) mark_damage_table by blast
qed

text \<open>Raising and lowering keep the table; the order stays right when the window is open.\<close>

lemma reorder_keeps:
  assumes "table_ok c" "z_ok (c \<lparr> z_order := z, n_windows := n \<rparr>)"
    "take n z = (if length (remove1 i (zs c)) < MAX_WINDOWS then xs else remove1 i (zs c))"
    "xs = remove1 i (zs c) @ [i] \<or> xs = i # remove1 i (zs c)"
  shows "table_ok (c \<lparr> z_order := z, n_windows := n \<rparr>) \<and>
    (shown c \<and> i \<in> set (ids c) \<longrightarrow> shown (c \<lparr> z_order := z, n_windows := n \<rparr>))"
proof -
  have ids: "ids (c \<lparr> z_order := z, n_windows := n \<rparr>) = ids c" by (simp add: ids_def open_windows_def)
  have "shown (c \<lparr> z_order := z, n_windows := n \<rparr>)" if "shown c" "i \<in> set (ids c)"
  proof -
    have i: "i \<in> set (zs c)" "distinct (zs c)" using that by (auto simp: shown_def)
    moreover have "0 < length (zs c)" using i by (auto simp: length_greater_0_conv)
    moreover have "length (zs c) \<le> MAX_WINDOWS" using assms(1) length_zs [of c] by (auto simp: table_ok_def z_ok_def)
    ultimately have "length (remove1 i (zs c)) < MAX_WINDOWS" by (simp add: length_remove1 MAX_WINDOWS_def)
    then have "take n z = xs" using assms(3) by simp
    moreover have "distinct xs \<and> set xs = set (zs c)" using assms(4) i by auto
    ultimately show ?thesis using that(1) by (simp add: shown_def ids)
  qed
  moreover have "table_ok (c \<lparr> z_order := z, n_windows := n \<rparr>)" using assms(1,2) ids by (simp add: table_ok_def)
  ultimately show ?thesis by blast
qed

lemma handle_raise_keeps:
  assumes "table_ok c" "handle_raise_window req c = Some c'"
  shows "table_ok c' \<and> (shown c \<and> rw_window_id req \<in> set (ids c) \<longrightarrow> shown c')"
proof -
  have "z_ok c" using assms(1) by (simp add: table_ok_def)
  then obtain z n where r: "z_raise (rw_window_id req) c = Some (c \<lparr> z_order := z, n_windows := n \<rparr>)"
    "z_ok (c \<lparr> z_order := z, n_windows := n \<rparr>)"
    "take n z = (if length (remove1 (rw_window_id req) (zs c)) < MAX_WINDOWS
       then remove1 (rw_window_id req) (zs c) @ [rw_window_id req] else remove1 (rw_window_id req) (zs c))"
    by (rule z_raise_ok)
  then show ?thesis using reorder_keeps [OF assms(1) r(2,3)] assms(2) by (auto simp: handle_raise_window_def)
qed

lemma handle_lower_keeps:
  assumes "table_ok c" "handle_lower_window req c = Some c'"
  shows "table_ok c' \<and> (shown c \<and> lw_window_id req \<in> set (ids c) \<longrightarrow> shown c')"
proof -
  have "z_ok c" using assms(1) by (simp add: table_ok_def)
  then obtain z n where r: "z_lower (lw_window_id req) c = Some (c \<lparr> z_order := z, n_windows := n \<rparr>)"
    "z_ok (c \<lparr> z_order := z, n_windows := n \<rparr>)"
    "take n z = (if length (remove1 (lw_window_id req) (zs c)) < MAX_WINDOWS
       then lw_window_id req # remove1 (lw_window_id req) (zs c) else remove1 (lw_window_id req) (zs c))"
    by (rule z_lower_ok)
  then show ?thesis using reorder_keeps [OF assms(1) r(2,3)] assms(2) by (auto simp: handle_lower_window_def)
qed

text \<open>The requests that name the window to raise or lower name an open one.\<close>

definition names_open :: "byte list \<Rightarrow> Compositor \<Rightarrow> bool" where
  "names_open msg c \<longleftrightarrow> (case msg of [] \<Rightarrow> True | t # body \<Rightarrow>
     t = WindowMessageType_code RaiseWindow \<or> t = WindowMessageType_code LowerWindow \<longrightarrow> field_u64 body 0 \<in> set (ids c))"

lemma process_message_keeps:
  assumes "table_ok c" "process_message msg c w = Some (c', w')"
  shows "table_ok c' \<and> (shown c \<and> names_open msg c \<longrightarrow> shown c')"
proof (cases msg)
  case (Cons t body)
  note keeps = handle_create_keeps handle_close_keeps handle_update_keeps handle_move_keeps
  have raise: ?thesis if "t = WindowMessageType_code RaiseWindow" "handle_raise_window \<lparr> rw_window_id = field_u64 body 0 \<rparr> c = Some c'"
    using handle_raise_keeps [OF assms(1) that(2)] that(1) Cons by (simp add: names_open_def)
  have lower: ?thesis if "t = WindowMessageType_code LowerWindow" "handle_lower_window \<lparr> lw_window_id = field_u64 body 0 \<rparr> c = Some c'"
    using handle_lower_keeps [OF assms(1) that(2)] that(1) Cons by (simp add: names_open_def)
  show ?thesis
    using assms keeps [OF assms(1)] raise lower
    by (auto simp: process_message_def Cons rust_SomeD split: if_splits)
qed (use assms in \<open>simp add: process_message_def\<close>)

section \<open>What the server does to its windows\<close>

text \<open>The states a server reaches by handling messages, each of which raises or lowers only open windows.\<close>

inductive served :: "Compositor \<Rightarrow> World \<Rightarrow> Compositor \<Rightarrow> World \<Rightarrow> bool" where
  served_none: "served c w c w"
| served_step: "served c w c1 w1 \<Longrightarrow> names_open msg c1 \<Longrightarrow> process_message msg c1 w1 = Some (c2, w2) \<Longrightarrow> served c w c2 w2"

lemma served_keeps: "served c w c' w' \<Longrightarrow> table_ok c \<Longrightarrow> shown c \<Longrightarrow> table_ok c' \<and> shown c'"
  by (induction rule: served.induct) (auto dest: process_message_keeps)

lemma Compositor_new_table:
  assumes "Compositor_new ep w = Some (c, w')"
  shows "table_ok c \<and> shown c \<and> zs c = []"
proof -
  have "windows c = replicate MAX_WINDOWS None" "z_order c = replicate MAX_WINDOWS 0" "n_windows c = 0"
    using assms by (auto simp: Compositor_new_def rust_SomeD Let_def case_prod_unfold)
  moreover have "List.map_filter (\<lambda>w. w) (replicate n (None :: Window option)) = []" for n
    by (simp add: List.map_filter_def)
  ultimately show ?thesis by (simp add: table_ok_def shown_def zs_def ids_def open_windows_def z_ok_def)
qed

text \<open>C25. The stacking order always lists the open windows. From the start of the server, and after any
  sequence of messages of any content that raises and lowers only open windows, the identifiers of the
  open windows are distinct and have all been given out, and the stacking order holds each of them
  exactly once and nothing else.\<close>

theorem order_lists_windows:
  assumes "Compositor_new ep w = Some (c0, w0)" "served c0 w0 c w'"
  shows "distinct (ids c) \<and> (\<forall>i\<in>set (ids c). i < next_window_id c) \<and>
    distinct (zs c) \<and> set (zs c) = set (ids c)"
proof -
  have "table_ok c \<and> shown c" using served_keeps [OF assms(2)] Compositor_new_table [OF assms(1)] by blast
  then show ?thesis by (simp add: table_ok_def shown_def)
qed

definition tiny_world :: World where
  "tiny_world = \<lparr> w_pix = Map.empty, w_info = \<lparr> di_width = 1, di_height = 1, red_mask_size = 8, red_mask_shift = 16,
     green_mask_size = 8, green_mask_shift = 8, blue_mask_size = 8, blue_mask_shift = 0 \<rparr>,
     w_mmaps = [0x1000, 0x2000, 0x3000], w_shared = [(5, 0x4000)], w_recv = [], w_mouse = [], w_log = [] \<rparr>"

lemma tiny_new: "Compositor_new 7 tiny_world \<noteq> panic"
  by (simp add: Compositor_new_def Display_new_def sys_mmap_w_def tiny_world_def Let_def rust_arith limits
      background_line_def gradient_def build_pixel_def channel_bits_def write_px_def copy_nonoverlapping_def
      zero_pages_def div_ceil_def)

lemma tiny_create:
  assumes "Compositor_new 7 tiny_world = Some (c0, w0)"
  shows "\<exists>c w. process_message (WindowMessageType_code CreateWindow # CreateWindowRequest_bytes
      \<lparr> cw_width = 1, cw_height = 1, cw_x = 0, cw_y = 0 \<rparr> @ u64_bytes 9) c0 w0 = Some (c, w) \<and> zs c = [1]"
proof -
  have w0: "w_shared w0 = [(5, 0x4000)]" and c0: "windows c0 = replicate MAX_WINDOWS None" "z_order c0 = replicate MAX_WINDOWS 0"
    "n_windows c0 = 0" "next_window_id c0 = 1"
    using assms by (auto simp: Compositor_new_def Display_new_def sys_mmap_w_def tiny_world_def Let_def rust_SomeD)
  have "CreateWindowRequest_read (CreateWindowRequest_bytes \<lparr> cw_width = 1, cw_height = 1, cw_x = 0, cw_y = 0 \<rparr> @ u64_bytes 9) =
      \<lparr> cw_width = 1, cw_height = 1, cw_x = 0, cw_y = 0 \<rparr>"
    by (rule CreateWindowRequest_roundtrip) (simp_all add: limits is_i32_def I32_LIMIT_num)
  moreover have "position (\<lambda>s. s = None) (windows c0) = Some 0"
    by (simp add: c0(1) MAX_WINDOWS_def numeral_eq_Suc)
  moreover have "length (CreateWindowRequest_bytes r) = 16" for r by (simp add: CreateWindowRequest_bytes_def)
  moreover have "take (Suc 0) ((replicate 32 0)[0 := Suc 0]) = [Suc 0]" by (simp add: numeral_eq_Suc)
  ultimately show ?thesis
    by (simp add: process_message_def handle_create_window_def c0(2-4) Let_def Window_new_def sys_create_shared_buf_w_def
        w0 rust_arith limits)
      (simp add: c0(1) index_set_def MAX_WINDOWS_def z_push_def c0(2,3) zs_def mark_full_redraw_def)
qed

theorem order_lists_windows_witness:
  "\<exists>c0 w0 c w. Compositor_new 7 tiny_world = Some (c0, w0) \<and> served c0 w0 c w \<and> zs c = [1] \<and> set (ids c) = {1}"
proof -
  obtain c0 w0 where c0: "Compositor_new 7 tiny_world = Some (c0, w0)" using tiny_new by auto
  obtain c w where c: "process_message (WindowMessageType_code CreateWindow # CreateWindowRequest_bytes
        \<lparr> cw_width = 1, cw_height = 1, cw_x = 0, cw_y = 0 \<rparr> @ u64_bytes 9) c0 w0 = Some (c, w)" "zs c = [1]"
    using tiny_create [OF c0] by blast
  have run: "served c0 w0 c w"
    by (rule served_step [OF served_none _ c(1)]) (simp add: names_open_def WindowMessageType_code_def)
  have "set (ids c) = {1}" using order_lists_windows [OF c0 run] c(2) by simp
  then show ?thesis using c0 c(2) run by blast
qed

text \<open>C26. The arrays behind the stacking order behave as a list. Raising a window moves it to the top,
  lowering it moves it to the bottom, adding one puts it on top and removing one closes the gap; none of
  the four panics, and the other windows keep their relative order.\<close>

theorem stacking_refines_list:
  assumes "z_ok c"
  shows "\<exists>c1 c2 c3 c4. z_push i c = Some c1 \<and> z_remove i c = Some c2 \<and> z_raise i c = Some c3 \<and> z_lower i c = Some c4 \<and>
    z_ok c1 \<and> z_ok c2 \<and> z_ok c3 \<and> z_ok c4 \<and>
    zs c1 = (if length (zs c) < MAX_WINDOWS then zs c @ [i] else zs c) \<and>
    zs c2 = remove1 i (zs c) \<and>
    (length (remove1 i (zs c)) < MAX_WINDOWS \<longrightarrow> zs c3 = remove1 i (zs c) @ [i] \<and> zs c4 = i # remove1 i (zs c))"
proof -
  obtain z1 n1 where p: "z_push i c = Some (c \<lparr> z_order := z1, n_windows := n1 \<rparr>)" "z_ok (c \<lparr> z_order := z1, n_windows := n1 \<rparr>)"
    "take n1 z1 = (if length (zs c) < MAX_WINDOWS then zs c @ [i] else zs c)" by (rule z_push_ok [OF assms])
  obtain z2 n2 where r: "z_remove i c = Some (c \<lparr> z_order := z2, n_windows := n2 \<rparr>)" "z_ok (c \<lparr> z_order := z2, n_windows := n2 \<rparr>)"
    "take n2 z2 = remove1 i (zs c)" by (rule z_remove_ok [OF assms])
  obtain z3 n3 where u: "z_raise i c = Some (c \<lparr> z_order := z3, n_windows := n3 \<rparr>)" "z_ok (c \<lparr> z_order := z3, n_windows := n3 \<rparr>)"
    "take n3 z3 = (if length (remove1 i (zs c)) < MAX_WINDOWS then remove1 i (zs c) @ [i] else remove1 i (zs c))"
    by (rule z_raise_ok [OF assms])
  obtain z4 n4 where d: "z_lower i c = Some (c \<lparr> z_order := z4, n_windows := n4 \<rparr>)" "z_ok (c \<lparr> z_order := z4, n_windows := n4 \<rparr>)"
    "take n4 z4 = (if length (remove1 i (zs c)) < MAX_WINDOWS then i # remove1 i (zs c) else remove1 i (zs c))"
    by (rule z_lower_ok [OF assms])
  show ?thesis
    by (intro exI conjI, rule p, rule r, rule u, rule d, rule p, rule r, rule u, rule d)
      (use p(3) r(3) u(3) d(3) in simp_all)
qed

lemma raise_unknown:
  assumes "z_ok c" "i \<notin> set (zs c)" "length (zs c) < MAX_WINDOWS"
  obtains c' where "handle_raise_window \<lparr> rw_window_id = i \<rparr> c = Some c'" "z_ok c'" "zs c' = zs c @ [i]"
    "windows c' = windows c" "next_window_id c' = next_window_id c"
proof (rule z_raise_ok [OF assms(1), of i])
  fix z n
  assume r: "z_raise i c = Some (c \<lparr> z_order := z, n_windows := n \<rparr>)" "z_ok (c \<lparr> z_order := z, n_windows := n \<rparr>)"
    "take n z = (if length (remove1 i (zs c)) < MAX_WINDOWS then remove1 i (zs c) @ [i] else remove1 i (zs c))"
  show ?thesis
    by (rule that [of "mark_full_redraw (c \<lparr> z_order := z, n_windows := n \<rparr>)"])
      (use r assms in \<open>simp_all add: handle_raise_window_def mark_full_redraw_def remove1_idem z_ok_def zs_def\<close>)
qed

lemma raise_unknowns:
  assumes "z_ok c" "distinct gs" "set gs \<inter> set (zs c) = {}" "length (zs c) + length gs \<le> MAX_WINDOWS"
  shows "\<exists>c'. fold_rust (\<lambda>i. handle_raise_window \<lparr> rw_window_id = i \<rparr>) gs c = Some c' \<and> z_ok c' \<and> zs c' = zs c @ gs \<and>
    windows c' = windows c \<and> next_window_id c' = next_window_id c"
  using assms
proof (induction gs arbitrary: c)
  case (Cons g gs)
  obtain c1 where c1: "handle_raise_window \<lparr> rw_window_id = g \<rparr> c = Some c1" "z_ok c1" "zs c1 = zs c @ [g]"
    "windows c1 = windows c" "next_window_id c1 = next_window_id c"
    by (rule raise_unknown [of c g]) (use Cons.prems in auto)
  have "\<exists>c'. fold_rust (\<lambda>i. handle_raise_window \<lparr> rw_window_id = i \<rparr>) gs c1 = Some c' \<and> z_ok c' \<and> zs c' = zs c1 @ gs \<and>
    windows c' = windows c1 \<and> next_window_id c' = next_window_id c1"
    by (rule Cons.IH) (use Cons.prems c1(2,3) in auto)
  then show ?case using c1 by auto
qed simp

text \<open>A client can hide the windows of others. Requests to raise windows that do not exist are not
  refused: each puts an identifier into the stacking order. Once they have filled it, the next window that
  is created is in the table of windows, but not in the stacking order, so it is never drawn.\<close>

theorem ghosts_hide_windows:
  assumes "table_ok c" "zs c = []" "distinct gs" "length gs = MAX_WINDOWS" "next_window_id c \<notin> set gs"
  shows "\<exists>c1. fold_rust (\<lambda>i. handle_raise_window \<lparr> rw_window_id = i \<rparr>) gs c = Some c1 \<and>
    (\<forall>req ep w c2 w2. handle_create_window req ep c1 w = Some (c2, w2) \<longrightarrow> zs c2 = gs)"
proof -
  have "z_ok c" using assms(1) by (simp add: table_ok_def)
  then have "\<exists>c1. fold_rust (\<lambda>i. handle_raise_window \<lparr> rw_window_id = i \<rparr>) gs c = Some c1 \<and> z_ok c1 \<and> zs c1 = zs c @ gs \<and>
      windows c1 = windows c \<and> next_window_id c1 = next_window_id c"
    by (rule raise_unknowns) (use assms in auto)
  then obtain c1 where c1: "fold_rust (\<lambda>i. handle_raise_window \<lparr> rw_window_id = i \<rparr>) gs c = Some c1" "z_ok c1" "zs c1 = gs"
    using assms(2) by auto
  have "zs c2 = gs" if "handle_create_window req ep c1 w = Some (c2, w2)" for req ep w c2 w2
    using that
  proof (cases rule: handle_create_cases)
    case failed
    then show ?thesis using c1(3) by (simp add: zs_def)
  next
    case (created k win c3)
    then have "n_windows c1 = MAX_WINDOWS" using length_zs [OF c1(2)] c1(3) assms(4) by simp
    then show ?thesis using created c1(3) by (auto simp: z_push_def mark_full_redraw_def zs_def)
  qed (use c1(3) in simp)
  then show ?thesis using c1(1) by blast
qed

theorem ghosts_hide_windows_witness:
  "\<exists>c0 w0 c1. Compositor_new 7 tiny_world = Some (c0, w0) \<and>
    fold_rust (\<lambda>i. handle_raise_window \<lparr> rw_window_id = i \<rparr>) [100..<132] c0 = Some c1 \<and>
    (\<forall>req ep w c2 w2. handle_create_window req ep c1 w = Some (c2, w2) \<longrightarrow> zs c2 = [100..<132])"
proof -
  obtain c0 w0 where c0: "Compositor_new 7 tiny_world = Some (c0, w0)" using tiny_new by auto
  have "next_window_id c0 = 1" using c0 by (auto simp: Compositor_new_def rust_SomeD Let_def case_prod_unfold)
  then show ?thesis
    using ghosts_hide_windows [of c0 "[100..<132]"] Compositor_new_table [OF c0] c0 by (auto simp: MAX_WINDOWS_def)
qed

theorem stacking_refines_list_witness:
  "\<exists>c0 w0 c1. Compositor_new 7 tiny_world = Some (c0, w0) \<and> z_ok c0 \<and> z_push 4 c0 = Some c1 \<and> zs c1 = [4]"
proof -
  obtain c0 w0 where c0: "Compositor_new 7 tiny_world = Some (c0, w0)" using tiny_new by auto
  have "z_ok c0" "zs c0 = []" using Compositor_new_table [OF c0] by (simp_all add: table_ok_def)
  then show ?thesis using stacking_refines_list [of c0 4] c0 by (auto simp: MAX_WINDOWS_def)
qed

end
