(* ===== verification/Compositor_Scene.thy ===== *)
theory Compositor_Scene
  imports Compositor
begin

text \<open>
  What the display server shows. The picture a stack of windows stands for is defined pixel by pixel:
  the background, then the windows from bottom to top, then the cursor. The theorems relate it to the
  blitting code: a full redraw and a redraw of a damaged region put it on the screen, on the whole
  screen and inside the region respectively, without a panic and without touching any memory but the
  three buffers of the server.
\<close>

section \<open>The picture of a stack of windows\<close>

definition win_shade :: "pixmem \<Rightarrow> Window \<Rightarrow> nat \<Rightarrow> nat \<Rightarrow> 32 word option" where
  "win_shade m w x y =
     (if covers (win_x w) (win_y w) (win_width w) (win_height w) x y
      then Some (the (m (win_buffer w)) ! (nat (int y - win_y w) * win_width w + nat (int x - win_x w))) else None)"

definition paint :: "pixmem \<Rightarrow> Compositor \<Rightarrow> nat \<Rightarrow> nat \<Rightarrow> nat \<Rightarrow> 32 word \<Rightarrow> 32 word" where
  "paint m c x y i below = (case find_window i c of None \<Rightarrow> below | Some w \<Rightarrow> over (win_shade m w x y) below)"

definition stack_pixel :: "pixmem \<Rightarrow> Compositor \<Rightarrow> nat \<Rightarrow> nat \<Rightarrow> nat list \<Rightarrow> 32 word \<Rightarrow> 32 word" where
  "stack_pixel m c x y zl below = foldl (\<lambda>v i. paint m c x y i v) below zl"

text \<open>The pixel of the buffer at \<open>b\<close> that belongs to a position on the screen.\<close>

definition screen_px :: "pixmem \<Rightarrow> nat \<Rightarrow> Compositor \<Rightarrow> nat \<Rightarrow> nat \<Rightarrow> 32 word" where
  "screen_px m b c x y = the (m b) ! (y * di_width (display_info c) + x)"

text \<open>Without a background the windows are painted over the old scene.\<close>

definition base_pixel :: "pixmem \<Rightarrow> Compositor \<Rightarrow> nat \<Rightarrow> nat \<Rightarrow> 32 word" where
  "base_pixel m c x y = screen_px m (if background_buf c \<noteq> 0 then background_buf c else scene_buf c) c x y"

definition scene_pixel :: "pixmem \<Rightarrow> Compositor \<Rightarrow> nat \<Rightarrow> nat \<Rightarrow> 32 word" where
  "scene_pixel m c x y = stack_pixel m c x y (zs c) (base_pixel m c x y)"

definition cursor_over :: "Compositor \<Rightarrow> nat \<Rightarrow> nat \<Rightarrow> 32 word option" where
  "cursor_over c x y = cursor_shade (cursor_x c) (cursor_y c) CURSOR_MASK CURSOR_IMAGE CURSOR_W CURSOR_H
     (cursor_black c) (cursor_white c) x y"

definition on_screen :: "Compositor \<Rightarrow> nat \<Rightarrow> nat \<Rightarrow> bool" where
  "on_screen c x y \<longleftrightarrow> x < di_width (display_info c) \<and> y < di_height (display_info c)"

section \<open>Servers whose buffers are mapped\<close>

definition window_ok :: "pixmem \<Rightarrow> Compositor \<Rightarrow> Window \<Rightarrow> bool" where
  "window_ok m c w \<longleftrightarrow> place_ok (win_x w) (win_width w) \<and> place_ok (win_y w) (win_height w) \<and>
     win_width w * win_height w < U64_LIMIT \<and> win_buffer w \<noteq> scene_buf c \<and>
     (\<exists>p. m (win_buffer w) = Some p \<and> win_width w * win_height w \<le> length p)"

definition scene_ok :: "pixmem \<Rightarrow> Compositor \<Rightarrow> bool" where
  "scene_ok m c \<longleftrightarrow> (let W = di_width (display_info c); H = di_height (display_info c) in
     int W < I32_LIMIT \<and> int H < I32_LIMIT \<and> W * H < U32_LIMIT \<and> z_ok c \<and> scene_buf c \<noteq> 0 \<and>
     (\<exists>s. m (scene_buf c) = Some s \<and> W * H \<le> length s) \<and>
     (background_buf c \<noteq> 0 \<longrightarrow> background_buf c \<noteq> scene_buf c \<and> (\<exists>b. m (background_buf c) = Some b \<and> W * H \<le> length b)) \<and>
     (\<forall>w\<in>set (open_windows c). window_ok m c w))"

lemma find_window_open: "find_window i c = Some w \<Longrightarrow> w \<in> set (open_windows c)"
  by (auto simp: find_window_def open_windows_def dest: find_SomeD)

lemma scene_ok_draw:
  assumes "scene_ok m c" "m (scene_buf c) = Some s" "length s' = length s"
  shows "scene_ok (m(scene_buf c \<mapsto> s')) c"
  using assms by (auto simp: scene_ok_def Let_def window_ok_def)

lemma win_shade_scene:
  "window_ok m c w \<Longrightarrow> win_shade (m(scene_buf c \<mapsto> s)) w = win_shade m w"
  by (auto simp: win_shade_def window_ok_def fun_eq_iff)

lemma paint_scene:
  "scene_ok m c \<Longrightarrow> paint (m(scene_buf c \<mapsto> s)) c x y i v = paint m c x y i v"
  using win_shade_scene [of m c _ s] find_window_open [of i c]
  by (auto simp: paint_def scene_ok_def Let_def split: option.splits)

section \<open>Blitting into the scene\<close>

lemma blit_to_scene_ok:
  fixes c m
  defines "W \<equiv> di_width (display_info c)" and "H \<equiv> di_height (display_info c)"
  assumes "scene_ok m c" "m (scene_buf c) = Some s" "m sb = Some p" "sb \<noteq> scene_buf c"
    "place_ok px w" "place_ok py h" "w \<le> sw" "sw * h < U64_LIMIT"
    "\<And>r. r < h \<Longrightarrow> so + r * sw + w \<le> length p"
  obtains s' where "blit_to_scene (sb, so) sw px py w h c m = Some (m(scene_buf c \<mapsto> s'))" "length s' = length s"
    "\<And>x y. x < W \<Longrightarrow> y < H \<Longrightarrow> s' ! (y * W + x) =
       (if covers px py w h x y then p ! (so + (nat (int y - py) * sw + nat (int x - px))) else s ! (y * W + x))"
proof -
  define x0 y0 x1 y1 where xy: "x0 = nat (max px 0)" "y0 = nat (max py 0)"
    "x1 = min (nat (max (px + int w) 0)) W" "y1 = min (nat (max (py + int h) 0)) H"
  have ok: "int W < I32_LIMIT" "int H < I32_LIMIT" "W * H < U32_LIMIT" "scene_buf c \<noteq> 0" "W * H \<le> length s"
    using assms(3,4) by (auto simp: scene_ok_def Let_def W_def H_def)
  note add = clip_add [OF assms(7)] clip_add [OF assms(8)]
  have lim: "H < 2147483648" "h < 2147483648" using ok assms(8) by (simp_all add: place_ok_def I32_LIMIT_num)
  show ?thesis
  proof (cases "x0 \<ge> x1 \<or> y0 \<ge> y1")
    case True
    then have none: "\<not> covers px py w h x y" if "x < W" "y < H" for x y
      using clip_nothing [of px w W x] clip_nothing [of py h H y] that by (auto simp: covers_def xy)
    have upd: "m(scene_buf c \<mapsto> s) = m" using assms(4) by auto
    have "blit_to_scene (sb, so) sw px py w h c m = Some (m(scene_buf c \<mapsto> s))"
      unfolding upd using True ok(4) by (simp add: blit_to_scene_def add xy Let_def W_def H_def)
    then show ?thesis by (rule that) (use none in auto)
  next
    case False
    then have vis: "visible px w W x0 x1" "visible py h H y0 y1" unfolding xy by (blast intro: visibleI)+
    define sx sy where sxy: "sx = nat (int x0 - px)" "sy = nat (int y0 - py)"
    note bx = visible_bounds [OF vis(1), folded sxy] and by' = visible_bounds [OF vis(2), folded sxy]
    let ?body = "\<lambda>row m. do { sr \<leftarrow> add_u64 sy row; sl \<leftarrow> mul_u64 sr sw; src_off \<leftarrow> add_u64 sl sx;
        dr \<leftarrow> add_u64 y0 row; dl \<leftarrow> mul_u64 dr W; dst_off \<leftarrow> add_u64 dl x0;
        copy_nonoverlapping (ptr_add (sb, so) src_off) (scene_buf c, dst_off) (x1 - x0) m }"
    have body: "?body r m' = copy_nonoverlapping (sb, so + ((sy + r) * sw + sx)) (scene_buf c, (y0 + r) * W + x0) (x1 - x0) m'"
      if r: "r < y1 - y0" for r m'
    proof -
      have "(sy + r) * sw + sx < sw * h" using r bx by' assms(9) by (intro index_in_surface) auto
      moreover have "(y0 + r) * W + x0 < W * H" using r bx by' by (intro index_in_surface) auto
      moreover have "sy + r < U64_LIMIT" "y0 + r < U64_LIMIT"
        using r by'(2,3) lim unfolding U64_LIMIT_num by linarith+
      ultimately show ?thesis using assms(10) ok(3) by (simp add: panic_free limits)
    qed
    obtain s' where s': "fold_rust ?body [0..<y1 - y0] m = Some (m(scene_buf c \<mapsto> s'))" "length s' = length s"
      "\<And>x y. x < W \<Longrightarrow> y < H \<Longrightarrow> s' ! (y * W + x) =
         (if covers px py w h x y then p ! (so + (nat (int y - py) * sw + nat (int x - px))) else s ! (y * W + x))"
      by (rule blit_rows [OF assms(5,4,6) ok(5) vis body [unfolded sxy] assms(11)]) (auto simp: sxy)
    have sub: "sub_i32 (i32_of_u32 x0) px = Some (int x0 - px)" "sub_i32 (i32_of_u32 y0) py = Some (int y0 - py)"
      using clip_sub [OF assms(7) bx(1) [unfolded xy]] clip_sub [OF assms(8) by'(1) [unfolded xy]] ok(1,2) by (simp_all only: xy simp_thms)
    have off: "nat (max (int x0 - px) 0) = sx" "nat (max (int y0 - py) 0) = sy" by (simp_all add: sxy)
    have "blit_to_scene (sb, so) sw px py w h c m = Some (m(scene_buf c \<mapsto> s'))"
      using bx(1) by'(1) s'(1) sub ok(4)
      by (simp add: blit_to_scene_def add Let_def xy [symmetric] W_def [symmetric] H_def [symmetric] off)
    then show ?thesis by (rule that [OF _ s'(2,3)])
  qed
qed

lemma blit_window_ok:
  assumes "scene_ok m c" "m (scene_buf c) = Some s" "w \<in> set (open_windows c)"
  obtains s' where
    "blit_to_scene (win_buffer w, 0) (win_width w) (win_x w) (win_y w) (win_width w) (win_height w) c m = Some (m(scene_buf c \<mapsto> s'))"
    "length s' = length s"
    "\<And>x y. on_screen c x y \<Longrightarrow> s' ! (y * di_width (display_info c) + x) =
       over (win_shade m w x y) (s ! (y * di_width (display_info c) + x))"
proof -
  have w: "window_ok m c w" using assms(1,3) by (auto simp: scene_ok_def Let_def)
  then obtain p where p: "m (win_buffer w) = Some p" "win_width w * win_height w \<le> length p" by (auto simp: window_ok_def)
  have rows: "0 + r * win_width w + win_width w \<le> length p" if "r < win_height w" for r
    using row_in_surface [of 0 "win_width w" "win_width w" r "win_height w"] that p(2) by simp
  show ?thesis
  proof (rule blit_to_scene_ok [OF assms(1,2) p(1), of "win_x w" "win_width w" "win_y w" "win_height w" "win_width w" 0])
    fix s' assume s': "blit_to_scene (win_buffer w, 0) (win_width w) (win_x w) (win_y w) (win_width w) (win_height w) c m = Some (m(scene_buf c \<mapsto> s'))"
      "length s' = length s"
      "\<And>x y. x < di_width (display_info c) \<Longrightarrow> y < di_height (display_info c) \<Longrightarrow> s' ! (y * di_width (display_info c) + x) =
       (if covers (win_x w) (win_y w) (win_width w) (win_height w) x y then p ! (0 + (nat (int y - win_y w) * win_width w + nat (int x - win_x w)))
        else s ! (y * di_width (display_info c) + x))"
    show ?thesis by (rule that [OF s'(1,2)]) (use s'(3) p(1) in \<open>auto simp: on_screen_def win_shade_def over_def\<close>)
  qed (use w rows in \<open>auto simp: window_ok_def\<close>)
qed

lemma blit_window_full_ok:
  assumes "scene_ok m c" "m (scene_buf c) = Some s" "k < n_windows c"
  obtains s' where "blit_window_full k c m = Some (m(scene_buf c \<mapsto> s'))" "length s' = length s"
    "\<And>x y. on_screen c x y \<Longrightarrow> s' ! (y * di_width (display_info c) + x) =
       paint m c x y (zs c ! k) (s ! (y * di_width (display_info c) + x))"
proof -
  have z: "index_get (z_order c) k = Some (zs c ! k)"
    using assms(1,3) by (simp add: scene_ok_def Let_def z_ok_def index_get_def zs_def)
  show ?thesis
  proof (cases "find_window (zs c ! k) c")
    case None
    have upd: "m(scene_buf c \<mapsto> s) = m" using assms(2) by auto
    show ?thesis by (rule that [of s]) (use z None upd in \<open>simp_all add: blit_window_full_def paint_def\<close>)
  next
    case (Some w)
    obtain s' where s': "blit_to_scene (win_buffer w, 0) (win_width w) (win_x w) (win_y w) (win_width w) (win_height w) c m = Some (m(scene_buf c \<mapsto> s'))"
      "length s' = length s" "\<And>x y. on_screen c x y \<Longrightarrow> s' ! (y * di_width (display_info c) + x) =
       over (win_shade m w x y) (s ! (y * di_width (display_info c) + x))"
      by (rule blit_window_ok [OF assms(1,2) find_window_open [OF Some]]) blast
    show ?thesis by (rule that [of s']) (use s' z Some in \<open>simp_all add: blit_window_full_def paint_def\<close>)
  qed
qed

text \<open>Inside the damage, skipping the windows that do not meet it makes no difference.\<close>

lemma blit_window_region_ok:
  assumes "scene_ok m c" "m (scene_buf c) = Some s" "k < n_windows c"
    "rect_in (di_width (display_info c)) (di_height (display_info c)) d"
  obtains s' where "blit_window_region d k c m = Some (m(scene_buf c \<mapsto> s'))" "length s' = length s"
    "\<And>x y. on_screen c x y \<Longrightarrow> rect_has d x y \<Longrightarrow> s' ! (y * di_width (display_info c) + x) =
       paint m c x y (zs c ! k) (s ! (y * di_width (display_info c) + x))"
proof -
  have z: "index_get (z_order c) k = Some (zs c ! k)"
    using assms(1,3) by (simp add: scene_ok_def Let_def z_ok_def index_get_def zs_def)
  have upd: "m(scene_buf c \<mapsto> s) = m" using assms(2) by auto
  show ?thesis
  proof (cases "find_window (zs c ! k) c")
    case None
    show ?thesis by (rule that [of s]) (use z None upd in \<open>simp_all add: blit_window_region_def paint_def\<close>)
  next
    case (Some w)
    have w: "place_ok (win_x w) (win_width w)" "place_ok (win_y w) (win_height w)"
      using assms(1) find_window_open [OF Some] by (auto simp: scene_ok_def Let_def window_ok_def)
    have d: "int (r_x d + r_w d) < I32_LIMIT" "int (r_y d + r_h d) < I32_LIMIT"
      using assms(1,4) by (auto simp: scene_ok_def Let_def rect_in_def)
    then have dx: "add_i32 (int (r_x d)) (i32_of_u32 (r_w d)) = Some (int (r_x d + r_w d))"
      "add_i32 (int (r_y d)) (i32_of_u32 (r_h d)) = Some (int (r_y d + r_h d))"
      "i32_of_u32 (r_x d) = int (r_x d)" "i32_of_u32 (r_y d) = int (r_y d)"
      by (simp_all add: panic_free I32_LIMIT_num)
    note eq = blit_window_region_def z Some clip_add [OF w(1)] clip_add [OF w(2)] dx
    show ?thesis
    proof (cases "win_x w \<ge> int (r_x d + r_w d) \<or> win_x w + int (win_width w) \<le> int (r_x d) \<or>
        win_y w \<ge> int (r_y d + r_h d) \<or> win_y w + int (win_height w) \<le> int (r_y d)")
      case True
      then have "\<not> covers (win_x w) (win_y w) (win_width w) (win_height w) x y" if "rect_has d x y" for x y
        using that by (auto simp: covers_def rect_has_def)
      then show ?thesis
        by (intro that [of s]) (use True upd in \<open>simp_all add: eq paint_def win_shade_def over_def\<close>)
    next
      case False
      then have call: "blit_window_region d k c m =
          blit_to_scene (win_buffer w, 0) (win_width w) (win_x w) (win_y w) (win_width w) (win_height w) c m"
        by (simp add: eq)
      obtain s' where s': "blit_to_scene (win_buffer w, 0) (win_width w) (win_x w) (win_y w) (win_width w) (win_height w) c m = Some (m(scene_buf c \<mapsto> s'))"
        "length s' = length s" "\<And>x y. on_screen c x y \<Longrightarrow> s' ! (y * di_width (display_info c) + x) =
         over (win_shade m w x y) (s ! (y * di_width (display_info c) + x))"
        by (rule blit_window_ok [OF assms(1,2) find_window_open [OF Some]]) blast
      show ?thesis by (rule that [of s']) (use s' call Some in \<open>simp_all add: paint_def\<close>)
    qed
  qed
qed

text \<open>A loop that paints the windows one after the other, on the pixels \<open>P\<close> selects, leaves the
  picture of the stack there.\<close>

lemma blit_stack:
  assumes "scene_ok m c" "m (scene_buf c) = Some s" "n \<le> n_windows c"
    and step: "\<And>k m s. scene_ok m c \<Longrightarrow> m (scene_buf c) = Some s \<Longrightarrow> k < n_windows c \<Longrightarrow>
      \<exists>s'. body k m = Some (m(scene_buf c \<mapsto> s')) \<and> length s' = length s \<and>
        (\<forall>x y. on_screen c x y \<longrightarrow> P x y \<longrightarrow> s' ! (y * di_width (display_info c) + x) =
          paint m c x y (zs c ! k) (s ! (y * di_width (display_info c) + x)))"
  shows "\<exists>s'. fold_rust body [0..<n] m = Some (m(scene_buf c \<mapsto> s')) \<and> length s' = length s \<and>
    (\<forall>x y. on_screen c x y \<longrightarrow> P x y \<longrightarrow> s' ! (y * di_width (display_info c) + x) =
      stack_pixel m c x y (take n (zs c)) (s ! (y * di_width (display_info c) + x)))"
  using assms(3)
proof (induction n)
  case 0
  have "m(scene_buf c \<mapsto> s) = m" using assms(2) by auto
  then show ?case by (intro exI [of _ s]) (simp add: stack_pixel_def)
next
  case (Suc n)
  let ?W = "di_width (display_info c)"
  from Suc.IH [OF Suc_leD [OF Suc.prems]] obtain s1 where s1: "fold_rust body [0..<n] m = Some (m(scene_buf c \<mapsto> s1))"
    "length s1 = length s" "\<And>x y. on_screen c x y \<Longrightarrow> P x y \<Longrightarrow> s1 ! (y * ?W + x) =
      stack_pixel m c x y (take n (zs c)) (s ! (y * ?W + x))" by blast
  define m1 where "m1 = m(scene_buf c \<mapsto> s1)"
  have m1: "scene_ok m1 c" "m1 (scene_buf c) = Some s1"
    using scene_ok_draw [OF assms(1,2) s1(2)] by (simp_all add: m1_def)
  from step [OF m1] Suc.prems obtain s2 where s2: "body n m1 = Some (m1(scene_buf c \<mapsto> s2))" "length s2 = length s1"
    "\<And>x y. on_screen c x y \<Longrightarrow> P x y \<Longrightarrow> s2 ! (y * ?W + x) = paint m1 c x y (zs c ! n) (s1 ! (y * ?W + x))"
    by (metis Suc_le_eq)
  have "fold_rust body [0..<Suc n] m = Some (m(scene_buf c \<mapsto> s2))"
    using s1(1) s2(1) by (simp add: fold_rust_append m1_def)
  moreover have "n < length (zs c)" using Suc.prems assms(1) by (simp add: length_zs scene_ok_def Let_def)
  then have "s2 ! (y * ?W + x) = stack_pixel m c x y (take (Suc n) (zs c)) (s ! (y * ?W + x))"
    if "on_screen c x y" "P x y" for x y
    using s2(3) [OF that] s1(3) [OF that] paint_scene [OF assms(1), of s1]
    by (simp add: m1_def stack_pixel_def take_Suc_conv_app_nth)
  ultimately show ?case using s1(2) s2(2) by metis
qed

lemma take_zs [simp]: "take (n_windows c) (zs c) = zs c"
  by (simp add: zs_def)

lemma update_scene_full_ok:
  assumes "scene_ok m c" "m (scene_buf c) = Some s"
  obtains s' where "update_scene_full c m = Some (m(scene_buf c \<mapsto> s'))" "length s' = length s"
    "\<And>x y. on_screen c x y \<Longrightarrow> s' ! (y * di_width (display_info c) + x) = scene_pixel m c x y"
proof -
  let ?W = "di_width (display_info c)" and ?H = "di_height (display_info c)"
  have ok: "scene_buf c \<noteq> 0" "?W * ?H \<le> length s" "mul_u64 ?W ?H = Some (?W * ?H)"
    using assms by (auto simp: scene_ok_def Let_def panic_free limits)
  obtain s1 where s1: "(if background_buf c \<noteq> 0
      then do { n \<leftarrow> mul_u64 ?W ?H; copy_nonoverlapping (background_buf c, 0) (scene_buf c, 0) n m } else Some m) = Some (m(scene_buf c \<mapsto> s1))"
    "length s1 = length s" "\<And>x y. on_screen c x y \<Longrightarrow> s1 ! (y * ?W + x) = base_pixel m c x y"
  proof (cases "background_buf c = 0")
    case True
    have upd: "m(scene_buf c \<mapsto> s) = m" using assms(2) by auto
    show ?thesis by (rule that [of s]) (use True upd assms(2) in \<open>simp_all add: base_pixel_def screen_px_def\<close>)
  next
    case False
    then obtain b where b: "m (background_buf c) = Some b" "?W * ?H \<le> length b" "background_buf c \<noteq> scene_buf c"
      using assms(1) by (auto simp: scene_ok_def Let_def)
    obtain s1 where s1: "copy_nonoverlapping (background_buf c, 0) (scene_buf c, 0) (?W * ?H) m = Some (m(scene_buf c \<mapsto> s1))"
      "length s1 = length s"
      "\<And>i. i < length s \<Longrightarrow> s1 ! i = (if 0 \<le> i \<and> i < 0 + ?W * ?H then b ! (0 + (i - 0)) else s ! i)"
      by (rule copy_nonoverlapping_ok [OF b(1) assms(2) b(3), of 0 "?W * ?H" 0]) (use b(2) ok(2) in auto)
    have "s1 ! (y * ?W + x) = base_pixel m c x y" if "on_screen c x y" for x y
      using that index_in_surface [of x ?W y ?H] s1(3) [of "y * ?W + x"] ok(2) b(1) False
      by (simp add: on_screen_def base_pixel_def screen_px_def)
    then show ?thesis by (intro that [of s1]) (use s1 False ok(3) in simp_all)
  qed
  define m1 where "m1 = m(scene_buf c \<mapsto> s1)"
  have m1: "scene_ok m1 c" "m1 (scene_buf c) = Some s1"
    using scene_ok_draw [OF assms s1(2)] by (simp_all add: m1_def)
  have "\<exists>s'. fold_rust (\<lambda>k. blit_window_full k c) [0..<n_windows c] m1 = Some (m1(scene_buf c \<mapsto> s')) \<and> length s' = length s1 \<and>
    (\<forall>x y. on_screen c x y \<longrightarrow> True \<longrightarrow> s' ! (y * ?W + x) = stack_pixel m1 c x y (take (n_windows c) (zs c)) (s1 ! (y * ?W + x)))"
    by (rule blit_stack [OF m1 le_refl]) (rule blit_window_full_ok, assumption+, blast)
  then obtain s' where s': "fold_rust (\<lambda>k. blit_window_full k c) [0..<n_windows c] m1 = Some (m1(scene_buf c \<mapsto> s'))" "length s' = length s1"
    "\<And>x y. on_screen c x y \<Longrightarrow> s' ! (y * ?W + x) = stack_pixel m1 c x y (zs c) (s1 ! (y * ?W + x))" by auto
  have "update_scene_full c m = Some (m(scene_buf c \<mapsto> s'))"
    using s1(1) s'(1) ok(1) by (simp add: update_scene_full_def m1_def)
  moreover have "stack_pixel m1 c x y zl v = stack_pixel m c x y zl v" for x y zl v
    by (simp add: stack_pixel_def m1_def paint_scene [OF assms(1)])
  ultimately show ?thesis using s'(2,3) s1(2,3) by (intro that [of s']) (simp_all add: scene_pixel_def)
qed

text \<open>A rectangle of the screen, copied from a buffer of the same size, keeps its place.\<close>

lemma covers_rect: "covers (int (r_x d)) (int (r_y d)) (r_w d) (r_h d) x y \<longleftrightarrow> rect_has d x y"
  by (auto simp: covers_def rect_has_def)

lemma rect_offset:
  assumes "rect_has d x y"
  shows "r_y d * W + r_x d + (nat (int y - int (r_y d)) * W + nat (int x - int (r_x d))) = y * W + x"
proof -
  have le: "r_y d \<le> y" "r_x d \<le> x" using assms by (auto simp: rect_has_def)
  then have "nat (int y - int (r_y d)) = y - r_y d" "nat (int x - int (r_x d)) = x - r_x d" by simp_all
  moreover have "r_y d * W + (y - r_y d) * W = y * W" using le by (metis add_mult_distrib le_add_diff_inverse)
  ultimately show ?thesis using le by simp
qed

lemma rect_rows:
  assumes "rect_in W H d" "W * H \<le> n" "r < r_h d"
  shows "r_y d * W + r_x d + r * W + r_w d \<le> n"
proof -
  have "(r_y d + r) * W + r_x d + r_w d \<le> W * H" using assms by (intro row_in_surface) (auto simp: rect_in_def)
  then show ?thesis using assms(2) by (simp add: algebra_simps)
qed

lemma rect_limits:
  assumes "scene_ok m c" "rect_in (di_width (display_info c)) (di_height (display_info c)) d"
  shows "place_ok (int (r_x d)) (r_w d)" "place_ok (int (r_y d)) (r_h d)"
    "i32_of_u32 (r_x d) = int (r_x d)" "i32_of_u32 (r_y d) = int (r_y d)" "r_w d \<le> di_width (display_info c)"
    "di_width (display_info c) * r_h d < U32_LIMIT"
    "mul_u64 (r_y d) (di_width (display_info c)) = Some (r_y d * di_width (display_info c))"
    "add_u64 (r_y d * di_width (display_info c)) (r_x d) = Some (r_y d * di_width (display_info c) + r_x d)"
proof -
  let ?W = "di_width (display_info c)" and ?H = "di_height (display_info c)"
  have ok: "int ?W < I32_LIMIT" "int ?H < I32_LIMIT" "?W * ?H < U32_LIMIT" using assms(1) by (auto simp: scene_ok_def Let_def)
  have d: "0 < r_w d" "0 < r_h d" "r_x d + r_w d \<le> ?W" "r_y d + r_h d \<le> ?H" using assms(2) by (auto simp: rect_in_def)
  show "place_ok (int (r_x d)) (r_w d)" "place_ok (int (r_y d)) (r_h d)"
    using ok(1,2) d(3,4) by (auto simp: place_ok_def I32_LIMIT_num)
  show "i32_of_u32 (r_x d) = int (r_x d)" "i32_of_u32 (r_y d) = int (r_y d)" "r_w d \<le> ?W" using ok(1,2) d by auto
  have "?W * r_h d \<le> ?W * ?H" using d(4) by simp
  then show "?W * r_h d < U32_LIMIT" using ok(3) by linarith
  have "r_y d * ?W + r_x d < ?W * ?H" using d by (intro index_in_surface) auto
  then show "mul_u64 (r_y d) ?W = Some (r_y d * ?W)" "add_u64 (r_y d * ?W) (r_x d) = Some (r_y d * ?W + r_x d)"
    using ok(3) by (simp_all add: panic_free limits)
qed

lemma update_scene_region_ok:
  assumes "scene_ok m c" "m (scene_buf c) = Some s"
    "rect_in (di_width (display_info c)) (di_height (display_info c)) d"
  obtains s' where "update_scene_region d c m = Some (m(scene_buf c \<mapsto> s'))" "length s' = length s"
    "\<And>x y. on_screen c x y \<Longrightarrow> rect_has d x y \<Longrightarrow> s' ! (y * di_width (display_info c) + x) = scene_pixel m c x y"
proof -
  let ?W = "di_width (display_info c)" and ?H = "di_height (display_info c)"
  note lim = rect_limits [OF assms(1,3)]
  obtain s1 where s1: "(if background_buf c \<noteq> 0
      then do { line \<leftarrow> mul_u64 (r_y d) ?W; off \<leftarrow> add_u64 line (r_x d);
        blit_to_scene (ptr_add (background_buf c, 0) off) ?W (i32_of_u32 (r_x d)) (i32_of_u32 (r_y d)) (r_w d) (r_h d) c m }
      else Some m) = Some (m(scene_buf c \<mapsto> s1))"
    "length s1 = length s" "\<And>x y. on_screen c x y \<Longrightarrow> rect_has d x y \<Longrightarrow> s1 ! (y * ?W + x) = base_pixel m c x y"
  proof (cases "background_buf c = 0")
    case True
    have upd: "m(scene_buf c \<mapsto> s) = m" using assms(2) by auto
    show ?thesis by (rule that [of s]) (use True upd assms(2) in \<open>simp_all add: base_pixel_def screen_px_def\<close>)
  next
    case False
    then obtain b where b: "m (background_buf c) = Some b" "?W * ?H \<le> length b" "background_buf c \<noteq> scene_buf c"
      using assms(1) by (auto simp: scene_ok_def Let_def)
    have u64: "?W * r_h d < U64_LIMIT" using lim(6) by (simp add: limits)
    obtain s1 where s1: "blit_to_scene (background_buf c, r_y d * ?W + r_x d) ?W (int (r_x d)) (int (r_y d)) (r_w d) (r_h d) c m
        = Some (m(scene_buf c \<mapsto> s1))" "length s1 = length s"
      "\<And>x y. x < ?W \<Longrightarrow> y < ?H \<Longrightarrow> s1 ! (y * ?W + x) = (if covers (int (r_x d)) (int (r_y d)) (r_w d) (r_h d) x y
         then b ! (r_y d * ?W + r_x d + (nat (int y - int (r_y d)) * ?W + nat (int x - int (r_x d)))) else s ! (y * ?W + x))"
      by (rule blit_to_scene_ok [OF assms(1,2) b(1,3) lim(1,2,5) u64 rect_rows [OF assms(3) b(2)]], assumption, rule that)
    have "s1 ! (y * ?W + x) = base_pixel m c x y" if "on_screen c x y" "rect_has d x y" for x y
      using s1(3) [of x y] that b(1) False unfolding covers_rect rect_offset [OF that(2)]
      by (simp add: on_screen_def base_pixel_def screen_px_def)
    then show ?thesis by (intro that [of s1]) (use s1(1,2) False lim in simp_all)
  qed
  define m1 where "m1 = m(scene_buf c \<mapsto> s1)"
  have m1: "scene_ok m1 c" "m1 (scene_buf c) = Some s1"
    using scene_ok_draw [OF assms(1,2) s1(2)] by (simp_all add: m1_def)
  have "\<exists>s'. fold_rust (\<lambda>k. blit_window_region d k c) [0..<n_windows c] m1 = Some (m1(scene_buf c \<mapsto> s')) \<and> length s' = length s1 \<and>
    (\<forall>x y. on_screen c x y \<longrightarrow> rect_has d x y \<longrightarrow> s' ! (y * ?W + x) = stack_pixel m1 c x y (take (n_windows c) (zs c)) (s1 ! (y * ?W + x)))"
    by (rule blit_stack [OF m1 le_refl]) (rule blit_window_region_ok [OF _ _ _ assms(3)], assumption+, blast)
  then obtain s' where s': "fold_rust (\<lambda>k. blit_window_region d k c) [0..<n_windows c] m1 = Some (m1(scene_buf c \<mapsto> s'))" "length s' = length s1"
    "\<And>x y. on_screen c x y \<Longrightarrow> rect_has d x y \<Longrightarrow> s' ! (y * ?W + x) = stack_pixel m1 c x y (zs c) (s1 ! (y * ?W + x))" by auto
  have "update_scene_region d c m = Some (m(scene_buf c \<mapsto> s'))"
    using s1(1) s'(1) by (simp add: update_scene_region_def m1_def)
  moreover have "stack_pixel m1 c x y zl v = stack_pixel m c x y zl v" for x y zl v
    by (simp add: stack_pixel_def m1_def paint_scene [OF assms(1)])
  ultimately show ?thesis using s'(2,3) s1(2,3) by (intro that [of s']) (simp_all add: scene_pixel_def)
qed

section \<open>Presenting\<close>

definition render_ok :: "pixmem \<Rightarrow> Compositor \<Rightarrow> bool" where
  "render_ok m c \<longleftrightarrow> scene_ok m c \<and> display_ok (c_display c) m \<and>
     d_width (c_display c) = di_width (display_info c) \<and> d_height (c_display c) = di_height (display_info c) \<and>
     0 < di_width (display_info c) \<and> 0 < di_height (display_info c) \<and>
     scene_buf c \<noteq> back_buffer (c_display c) \<and> scene_buf c \<noteq> front_buffer (c_display c) \<and>
     place_ok (cursor_x c) CURSOR_W \<and> place_ok (cursor_y c) CURSOR_H \<and>
     (\<forall>d. pending_damage c = Some d \<longrightarrow> rect_in (di_width (display_info c)) (di_height (display_info c)) d)"

lemma screen_rect_ok:
  assumes "place_ok x w" "place_ok y h"
  obtains r where "screen_rect x y w h c = Some r"
    "\<And>a b. on_screen c a b \<Longrightarrow> covers x y w h a b \<longleftrightarrow> (\<exists>d. r = Some d \<and> rect_has d a b)"
    "\<And>d. r = Some d \<Longrightarrow> rect_in (di_width (display_info c)) (di_height (display_info c)) d"
proof -
  let ?W = "di_width (display_info c)" and ?H = "di_height (display_info c)"
  define x0 y0 x1 y1 where xy: "x0 = nat (max x 0)" "y0 = nat (max y 0)"
    "x1 = min (nat (max (x + int w) 0)) ?W" "y1 = min (nat (max (y + int h) 0)) ?H"
  define r where "r = (if x0 < x1 \<and> y0 < y1 then Some (mk_rect x0 y0 (x1 - x0) (y1 - y0)) else None)"
  have "screen_rect x y w h c = Some r"
    unfolding r_def xy by (simp only: screen_rect_def clip_add [OF assms(1)] clip_add [OF assms(2)] Let_def bind.bind_lunit)
  moreover have "covers x y w h a b \<longleftrightarrow> (\<exists>d. r = Some d \<and> rect_has d a b)" if ab: "on_screen c a b" for a b
  proof (cases "x0 < x1 \<and> y0 < y1")
    case True
    then have vis: "visible x w ?W x0 x1" "visible y h ?H y0 y1"
      unfolding xy not_le [symmetric] by (blast intro: visibleI)+
    show ?thesis using covers_visible [OF vis, of a b] ab True by (auto simp: r_def rect_has_def on_screen_def)
  next
    case False
    then have "\<not> covers x y w h a b"
      using clip_nothing [of x w ?W a] clip_nothing [of y h ?H b] ab by (auto simp: covers_def xy not_less on_screen_def)
    then show ?thesis using False by (auto simp: r_def)
  qed
  moreover have "rect_in ?W ?H d" if "r = Some d" for d
    using that by (auto simp: r_def rect_in_def xy split: if_splits)
  ultimately show ?thesis by (rule that)
qed

lemma cursor_sprite [simp]: "length CURSOR_MASK = CURSOR_H" "length CURSOR_IMAGE = CURSOR_H"
  by (simp_all add: CURSOR_MASK_def CURSOR_IMAGE_def CURSOR_H_def)

lemma display_ok_dirty:
  assumes "display_ok dp m" "\<And>d. q = Some d \<Longrightarrow> rect_in (d_width dp) (d_height dp) d"
  shows "display_ok (dp \<lparr> d_dirty := q \<rparr>) m"
  using assms by (auto simp: display_ok_def)

lemma draw_region_ok:
  assumes "render_ok m c" "m (back_buffer (c_display c)) = Some b" "m (scene_buf c) = Some s"
    "rect_in (di_width (display_info c)) (di_height (display_info c)) d"
  obtains b' q where "draw_region d c m = Some (c_display c \<lparr> d_dirty := Some q \<rparr>, m(back_buffer (c_display c) \<mapsto> b'))"
    "length b' = length b" "rect_in (di_width (display_info c)) (di_height (display_info c)) q"
    "\<And>x y. on_screen c x y \<Longrightarrow> rect_has d x y \<Longrightarrow> rect_has q x y \<and>
       b' ! (y * di_width (display_info c) + x) = over (cursor_over c x y) (s ! (y * di_width (display_info c) + x))"
proof -
  let ?W = "di_width (display_info c)" and ?H = "di_height (display_info c)" and ?dp = "c_display c"
  let ?cur = "blit_cursor (cursor_x c) (cursor_y c) CURSOR_MASK CURSOR_IMAGE CURSOR_W CURSOR_H (cursor_black c) (cursor_white c)"
  note ok = assms(1) [unfolded render_ok_def]
  then have sc: "scene_ok m c" and dp: "display_ok ?dp m" and dim: "d_width ?dp = ?W" "d_height ?dp = ?H" by auto
  note lim = rect_limits [OF sc assms(4)]
  have slen: "?W * ?H \<le> length s" "scene_buf c \<noteq> 0" using sc assms(3) by (auto simp: scene_ok_def Let_def)
  have ne: "scene_buf c \<noteq> back_buffer ?dp" using ok by blast
  obtain dp1 b1 where r: "blit_raw (scene_buf c, r_y d * ?W + r_x d) ?W (int (r_x d)) (int (r_y d)) (r_w d) (r_h d) ?dp m
      = Some (dp1, m(back_buffer ?dp \<mapsto> b1))" "length b1 = length b" "\<exists>q. dp1 = ?dp \<lparr> d_dirty := q \<rparr>"
    "\<And>e. d_dirty dp1 = Some e \<Longrightarrow> rect_in ?W ?H e"
    "\<And>x y. x < ?W \<Longrightarrow> y < ?H \<Longrightarrow> rect_has d x y \<Longrightarrow> \<exists>e. d_dirty dp1 = Some e \<and> rect_has e x y"
    "\<And>x y. x < ?W \<Longrightarrow> y < ?H \<Longrightarrow> b1 ! (y * ?W + x) = (if rect_has d x y
       then s ! (r_y d * ?W + r_x d + (nat (int y - int (r_y d)) * ?W + nat (int x - int (r_x d)))) else b ! (y * ?W + x))"
    by (rule blit_raw_ok [OF dp assms(2,3) ne lim(1,2,5,6) rect_rows [OF assms(4) slen(1)], unfolded dim covers_rect], assumption, rule that)
  define m1 where "m1 = m(back_buffer ?dp \<mapsto> b1)"
  have dp1: "display_ok dp1 m1" "m1 (back_buffer dp1) = Some b1" "d_width dp1 = ?W" "d_height dp1 = ?H" "back_buffer dp1 = back_buffer ?dp"
    using r(3,4) display_ok_draw [OF dp assms(2) r(2)] dim by (auto simp: m1_def intro!: display_ok_dirty)
  have s1: "b1 ! (y * ?W + x) = s ! (y * ?W + x)" if "on_screen c x y" "rect_has d x y" for x y
    using r(6) [of x y] that unfolding rect_offset [OF that(2)] by (simp add: on_screen_def)
  obtain cr where cr: "cursor_rect c = Some cr"
    "\<And>x y. on_screen c x y \<Longrightarrow> covers (cursor_x c) (cursor_y c) CURSOR_W CURSOR_H x y \<longleftrightarrow> (\<exists>e. cr = Some e \<and> rect_has e x y)"
    "\<And>e. cr = Some e \<Longrightarrow> rect_in ?W ?H e"
    unfolding cursor_rect_def by (rule screen_rect_ok [of "cursor_x c" CURSOR_W "cursor_y c" CURSOR_H c]) (use ok in auto)
  have corner: "r_x d < ?W" "r_y d < ?H" "rect_has d (r_x d) (r_y d)" using assms(4) by (auto simp: rect_in_def rect_has_def)
  obtain e where e: "d_dirty dp1 = Some e" using r(5) [OF corner] by blast
  have d32: "r_x f + r_w f < U32_LIMIT" "r_y f + r_h f < U32_LIMIT" if "rect_in ?W ?H f" for f
    using that sc by (auto simp: rect_in_def scene_ok_def Let_def limits I32_LIMIT_num)
  define meets where "meets = (\<exists>f. cr = Some f \<and> r_x f < r_x d + r_w d \<and> r_x f + r_w f > r_x d \<and>
      r_y f < r_y d + r_h d \<and> r_y f + r_h f > r_y d)"
  have call: "draw_region d c m = (if meets then ?cur dp1 m1 else Some (dp1, m1))"
  proof (cases cr)
    case None
    then show ?thesis using r(1) cr(1) slen(2) lim by (simp add: draw_region_def meets_def m1_def)
  next
    case (Some f)
    then show ?thesis using r(1) cr(1) slen(2) lim d32 [OF assms(4)] d32 [OF cr(3) [OF Some]]
      by (simp add: draw_region_def meets_def m1_def panic_free)
  qed
  show ?thesis
  proof (cases meets)
    case True
    have pl: "place_ok (cursor_x c) CURSOR_W" "place_ok (cursor_y c) CURSOR_H" using ok by auto
    have narrow: "CURSOR_W \<le> 16" by (simp add: CURSOR_W_def)
    obtain dp2 b2 where b2: "?cur dp1 m1 = Some (dp2, m1(back_buffer dp1 \<mapsto> b2))" "length b2 = length b1"
      "\<exists>q. dp2 = dp1 \<lparr> d_dirty := q \<rparr>" "\<And>f. d_dirty dp2 = Some f \<Longrightarrow> rect_in ?W ?H f"
      "\<And>x y f. d_dirty dp1 = Some f \<Longrightarrow> rect_has f x y \<Longrightarrow> \<exists>g. d_dirty dp2 = Some g \<and> rect_has g x y"
      "\<And>x y. x < ?W \<Longrightarrow> y < ?H \<Longrightarrow> b2 ! (y * ?W + x) = over (cursor_over c x y) (b1 ! (y * ?W + x))"
      by (rule blit_cursor_ok [OF dp1(1,2) pl cursor_sprite narrow, of "cursor_black c" "cursor_white c",
          unfolded dp1(3,4), folded cursor_over_def], rule that)
    obtain g where g: "d_dirty dp2 = Some g" using b2(5) [OF e] r(5) [OF corner] e by auto
    have eq: "dp2 = ?dp \<lparr> d_dirty := Some g \<rparr>" using b2(3) r(3) g by auto
    show ?thesis
      by (rule that [of g b2])
        (use call True b2 r(2,5) eq g s1 e dp1(5) in \<open>auto simp: m1_def on_screen_def\<close>)
  next
    case False
    have eq: "dp1 = ?dp \<lparr> d_dirty := Some e \<rparr>" using r(3) e by auto
    have none: "cursor_over c x y = None" if xy: "on_screen c x y" "rect_has d x y" for x y
    proof -
      have "\<not> covers (cursor_x c) (cursor_y c) CURSOR_W CURSOR_H x y"
        using cr(2) [OF xy(1)] False xy(2) by (auto simp: meets_def rect_has_def)
      then show ?thesis by (simp add: cursor_over_def cursor_shade_def)
    qed
    show ?thesis
      by (rule that [of e b1])
        (use call False r(2,4,5) eq s1 e none in \<open>auto simp: m1_def on_screen_def over_def\<close>)
  qed
qed

lemma present_region_ok:
  assumes "render_ok m c" "m (scene_buf c) = Some s" "m (front_buffer (c_display c)) = Some f"
    "m (back_buffer (c_display c)) = Some b" "rect_in (di_width (display_info c)) (di_height (display_info c)) d"
  obtains b' f' where "present_region d c m =
      Some (c \<lparr> c_display := c_display c \<lparr> d_dirty := None \<rparr> \<rparr>, m(back_buffer (c_display c) \<mapsto> b', front_buffer (c_display c) \<mapsto> f'))"
    "length b' = length b" "length f' = length f"
    "\<And>x y. on_screen c x y \<Longrightarrow> rect_has d x y \<Longrightarrow> f' ! (y * di_width (display_info c) + x) =
       over (cursor_over c x y) (s ! (y * di_width (display_info c) + x))"
proof -
  let ?W = "di_width (display_info c)" and ?H = "di_height (display_info c)" and ?dp = "c_display c"
  obtain b' q where q: "draw_region d c m = Some (?dp \<lparr> d_dirty := Some q \<rparr>, m(back_buffer ?dp \<mapsto> b'))"
    "length b' = length b" "rect_in ?W ?H q"
    "\<And>x y. on_screen c x y \<Longrightarrow> rect_has d x y \<Longrightarrow> rect_has q x y \<and> b' ! (y * ?W + x) = over (cursor_over c x y) (s ! (y * ?W + x))"
    by (rule draw_region_ok [OF assms(1,4,2,5)], rule that)
  define dp1 m1 where dm: "dp1 = ?dp \<lparr> d_dirty := Some q \<rparr>" "m1 = m(back_buffer ?dp \<mapsto> b')"
  have ne: "back_buffer ?dp \<noteq> front_buffer ?dp" and dim: "d_width ?dp = ?W" "d_height ?dp = ?H" and dp: "display_ok ?dp m"
    using assms(1) by (auto simp: render_ok_def display_ok_def)
  have "display_ok ?dp m1" unfolding dm by (rule display_ok_draw [OF dp assms(4) q(2)])
  then have ok1: "display_ok dp1 m1" unfolding dm(1) by (rule display_ok_dirty) (use q(3) dim in auto)
  have sel: "d_dirty dp1 = Some q" "m1 (back_buffer dp1) = Some b'" "m1 (front_buffer dp1) = Some f"
    "d_width dp1 = ?W" "d_height dp1 = ?H" using assms(3) ne dim by (auto simp: dm)
  obtain f' where f': "present dp1 m1 = Some (dp1 \<lparr> d_dirty := None \<rparr>, m1(front_buffer dp1 \<mapsto> f'))" "length f' = length f"
    "\<And>x y. x < ?W \<Longrightarrow> y < ?H \<Longrightarrow> f' ! (y * ?W + x) = (if rect_has q x y then b' ! (y * ?W + x) else f ! (y * ?W + x))"
    by (rule present_ok [OF ok1 sel(1-3), unfolded sel(4,5)], rule that)
  have "present_region d c m =
      Some (c \<lparr> c_display := ?dp \<lparr> d_dirty := None \<rparr> \<rparr>, m(back_buffer ?dp \<mapsto> b', front_buffer ?dp \<mapsto> f'))"
    using q(1) f'(1) by (simp add: present_region_def dm)
  then show ?thesis by (rule that [OF _ q(2) f'(2)]) (use f'(3) q(4) in \<open>simp add: on_screen_def\<close>)
qed

section \<open>Flushing\<close>

text \<open>The bookkeeping of damage plays no part in what the buffers must be.\<close>

lemma pending_irrelevant:
  fixes c f u p
  defines "c' \<equiv> c \<lparr> pending_full_redraw := f, pending_scene_update := u, pending_damage := p \<rparr>"
  shows "scene_ok m c' = scene_ok m c" "on_screen c' = on_screen c" "scene_pixel m c' = scene_pixel m c"
    "cursor_over c' = cursor_over c" "render_ok m c \<Longrightarrow> p = None \<Longrightarrow> render_ok m c'"
proof -
  have w: "open_windows c' = open_windows c" "window_ok m c' = window_ok m c" "z_ok c' = z_ok c" "zs c' = zs c"
    by (simp_all add: c'_def open_windows_def window_ok_def fun_eq_iff z_ok_def zs_def)
  show ok: "scene_ok m c' = scene_ok m c" unfolding scene_ok_def w by (simp add: c'_def)
  show "on_screen c' = on_screen c" "cursor_over c' = cursor_over c"
    by (simp_all add: c'_def on_screen_def cursor_over_def fun_eq_iff)
  have "find_window i c' = find_window i c" for i by (simp add: c'_def find_window_def)
  then show "scene_pixel m c' = scene_pixel m c"
    by (simp add: scene_pixel_def stack_pixel_def base_pixel_def screen_px_def paint_def w fun_eq_iff) (simp add: c'_def)
  show "render_ok m c'" if "render_ok m c" "p = None"
    using that unfolding render_ok_def ok by (auto simp: c'_def)
qed

definition due :: "Compositor \<Rightarrow> nat \<Rightarrow> nat \<Rightarrow> bool" where
  "due c x y \<longleftrightarrow> pending_full_redraw c \<or> (\<exists>d. pending_damage c = Some d \<and> rect_has d x y)"

definition due_pixel :: "pixmem \<Rightarrow> Compositor \<Rightarrow> nat \<Rightarrow> nat \<Rightarrow> 32 word" where
  "due_pixel m c x y = over (cursor_over c x y)
     (if pending_full_redraw c \<or> pending_scene_update c then scene_pixel m c x y else screen_px m (scene_buf c) c x y)"

lemma render_ok_draw:
  assumes "render_ok m c" "m (scene_buf c) = Some s" "length s' = length s"
  shows "render_ok (m(scene_buf c \<mapsto> s')) c"
  using assms scene_ok_draw [of m c s s'] by (auto simp: render_ok_def display_ok_def)

lemma present_after:
  fixes c m p1 p2
  defines "back \<equiv> back_buffer (c_display c)" and "front \<equiv> front_buffer (c_display c)" and "scene \<equiv> scene_buf c"
    and "c1 \<equiv> c \<lparr> pending_full_redraw := p1, pending_scene_update := p2, pending_damage := None \<rparr>"
  assumes "render_ok m c" "m scene = Some s" "m back = Some b" "m front = Some f" "length s1 = length s"
    "rect_in (di_width (display_info c)) (di_height (display_info c)) d"
  obtains b' f' where "present_region d c1 (m(scene \<mapsto> s1)) =
      Some (c1 \<lparr> c_display := c_display c \<lparr> d_dirty := None \<rparr> \<rparr>, m(scene \<mapsto> s1, back \<mapsto> b', front \<mapsto> f'))"
    "length b' = length b" "length f' = length f"
    "\<And>x y. on_screen c x y \<Longrightarrow> rect_has d x y \<Longrightarrow> f' ! (y * di_width (display_info c) + x) =
       over (cursor_over c x y) (s1 ! (y * di_width (display_info c) + x))"
proof -
  let ?m = "m(scene \<mapsto> s1)"
  have "render_ok ?m c" using render_ok_draw [OF assms(5) assms(6) [unfolded scene_def] assms(9)] by (simp add: scene_def)
  then have ok: "render_ok ?m c1" unfolding c1_def by (rule pending_irrelevant(5)) simp
  have ne: "scene \<noteq> back" "scene \<noteq> front" using assms(5) by (auto simp: render_ok_def scene_def back_def front_def)
  have sel: "scene_buf c1 = scene" "c_display c1 = c_display c" "display_info c1 = display_info c"
    by (simp_all add: c1_def scene_def)
  have mem: "?m (scene_buf c1) = Some s1" "?m (front_buffer (c_display c1)) = Some f" "?m (back_buffer (c_display c1)) = Some b"
    using ne assms(7,8) by (auto simp: sel front_def back_def)
  have d: "rect_in (di_width (display_info c1)) (di_height (display_info c1)) d" using assms(10) by (simp add: sel)
  have irr: "on_screen c1 = on_screen c" "cursor_over c1 = cursor_over c" unfolding c1_def by (rule pending_irrelevant)+
  show ?thesis
    by (rule present_region_ok [OF ok mem d, unfolded sel irr, folded back_def front_def], rule that)
qed

lemma full_rect: "render_ok m c \<Longrightarrow>
    rect_in (di_width (display_info c)) (di_height (display_info c)) (mk_rect 0 0 (di_width (display_info c)) (di_height (display_info c)))"
  "on_screen c x y \<Longrightarrow> rect_has (mk_rect 0 0 (di_width (display_info c)) (di_height (display_info c))) x y"
  by (auto simp: render_ok_def rect_in_def rect_has_def on_screen_def)

lemma flush_ok:
  fixes c m
  defines "back \<equiv> back_buffer (c_display c)" and "front \<equiv> front_buffer (c_display c)" and "scene \<equiv> scene_buf c"
  assumes "render_ok m c" "m scene = Some s" "m back = Some b" "m front = Some f"
  shows "\<exists>c' s' b' f' q u. flush c m = Some (c', m(scene \<mapsto> s', back \<mapsto> b', front \<mapsto> f')) \<and>
    length s' = length s \<and> length b' = length b \<and> length f' = length f \<and>
    c' = c \<lparr> pending_full_redraw := False, pending_scene_update := u, pending_damage := None, c_display := c_display c \<lparr> d_dirty := q \<rparr> \<rparr> \<and>
    (q = None \<or> q = d_dirty (c_display c)) \<and>
    (\<forall>x y. on_screen c x y \<longrightarrow> due c x y \<longrightarrow> f' ! (y * di_width (display_info c) + x) = due_pixel m c x y)"
proof -
  let ?W = "di_width (display_info c)" and ?H = "di_height (display_info c)"
  have sc: "scene_ok m c" using assms(4) by (simp add: render_ok_def)
  note after = present_after [OF assms(4), folded back_def front_def scene_def, OF assms(5-7)]
  consider (full) "pending_full_redraw c" | (none) "\<not> pending_full_redraw c" "pending_damage c = None"
    | (update) d where "\<not> pending_full_redraw c" "pending_damage c = Some d" "pending_scene_update c"
    | (cursor) d where "\<not> pending_full_redraw c" "pending_damage c = Some d" "\<not> pending_scene_update c"
    by (cases "pending_damage c") auto
  then show ?thesis
  proof cases
    case full
    let ?c1 = "c \<lparr> pending_full_redraw := False, pending_scene_update := False, pending_damage := None \<rparr>"
    have irr: "scene_buf ?c1 = scene" "display_info ?c1 = display_info c" "on_screen ?c1 = on_screen c" "scene_pixel m ?c1 = scene_pixel m c"
      by (simp_all add: scene_def pending_irrelevant)
    have sc1: "scene_ok m ?c1" using sc pending_irrelevant(1) by blast
    obtain s1 where s1: "update_scene_full ?c1 m = Some (m(scene \<mapsto> s1))" "length s1 = length s"
      "\<And>x y. on_screen c x y \<Longrightarrow> s1 ! (y * ?W + x) = scene_pixel m c x y"
      by (rule update_scene_full_ok [OF sc1, unfolded irr, OF assms(5)], rule that)
    obtain b' f' where p: "present_region (mk_rect 0 0 ?W ?H) ?c1 (m(scene \<mapsto> s1)) =
        Some (?c1 \<lparr> c_display := c_display c \<lparr> d_dirty := None \<rparr> \<rparr>, m(scene \<mapsto> s1, back \<mapsto> b', front \<mapsto> f'))"
      "length b' = length b" "length f' = length f"
      "\<And>x y. on_screen c x y \<Longrightarrow> rect_has (mk_rect 0 0 ?W ?H) x y \<Longrightarrow> f' ! (y * ?W + x) = over (cursor_over c x y) (s1 ! (y * ?W + x))"
      by (rule after [OF s1(2) full_rect(1) [OF assms(4)]], rule that)
    have "flush c m = Some (?c1 \<lparr> c_display := c_display c \<lparr> d_dirty := None \<rparr> \<rparr>, m(scene \<mapsto> s1, back \<mapsto> b', front \<mapsto> f'))"
      using full s1(1) p(1) by (simp add: flush_def Let_def)
    moreover have "f' ! (y * ?W + x) = due_pixel m c x y" if "on_screen c x y" "due c x y" for x y
      using that full s1(3) p(4) full_rect(2) by (auto simp: due_pixel_def due_def)
    ultimately show ?thesis using s1(2) p(2,3) by blast
  next
    case none
    have "m(scene \<mapsto> s, back \<mapsto> b, front \<mapsto> f) = m" using assms(5-7) by auto
    then have "flush c m = Some (c \<lparr> pending_full_redraw := False, pending_scene_update := pending_scene_update c, pending_damage := None,
        c_display := c_display c \<lparr> d_dirty := d_dirty (c_display c) \<rparr> \<rparr>, m(scene \<mapsto> s, back \<mapsto> b, front \<mapsto> f))"
      using none by (simp add: flush_def)
    moreover have "\<not> due c x y" for x y using none by (simp add: due_def)
    ultimately show ?thesis by blast
  next
    case (update d)
    let ?c1 = "c \<lparr> pending_full_redraw := False, pending_scene_update := False, pending_damage := None \<rparr>"
    have d: "rect_in ?W ?H d" using assms(4) update(2) by (simp add: render_ok_def)
    have irr: "scene_buf ?c1 = scene" "display_info ?c1 = display_info c" "on_screen ?c1 = on_screen c" "scene_pixel m ?c1 = scene_pixel m c"
      by (simp_all add: scene_def pending_irrelevant)
    have sc1: "scene_ok m ?c1" using sc pending_irrelevant(1) by blast
    obtain s1 where s1: "update_scene_region d ?c1 m = Some (m(scene \<mapsto> s1))" "length s1 = length s"
      "\<And>x y. on_screen c x y \<Longrightarrow> rect_has d x y \<Longrightarrow> s1 ! (y * ?W + x) = scene_pixel m c x y"
      by (rule update_scene_region_ok [OF sc1, unfolded irr, OF assms(5) d], rule that)
    obtain b' f' where p: "present_region d ?c1 (m(scene \<mapsto> s1)) =
        Some (?c1 \<lparr> c_display := c_display c \<lparr> d_dirty := None \<rparr> \<rparr>, m(scene \<mapsto> s1, back \<mapsto> b', front \<mapsto> f'))"
      "length b' = length b" "length f' = length f"
      "\<And>x y. on_screen c x y \<Longrightarrow> rect_has d x y \<Longrightarrow> f' ! (y * ?W + x) = over (cursor_over c x y) (s1 ! (y * ?W + x))"
      by (rule after [OF s1(2) d], rule that)
    have c1: "c \<lparr> pending_damage := None, pending_scene_update := False \<rparr> = ?c1" using update(1) by simp
    have "flush c m = Some (?c1 \<lparr> c_display := c_display c \<lparr> d_dirty := None \<rparr> \<rparr>, m(scene \<mapsto> s1, back \<mapsto> b', front \<mapsto> f'))"
      using update s1(1) p(1) by (simp add: flush_def Let_def c1)
    moreover have "f' ! (y * ?W + x) = due_pixel m c x y" if "on_screen c x y" "due c x y" for x y
      using that update s1(3) p(4) by (auto simp: due_pixel_def due_def)
    ultimately show ?thesis using s1(2) p(2,3) by blast
  next
    case (cursor d)
    let ?c1 = "c \<lparr> pending_full_redraw := False, pending_scene_update := False, pending_damage := None \<rparr>"
    have d: "rect_in ?W ?H d" using assms(4) cursor(2) by (simp add: render_ok_def)
    obtain b' f' where p: "present_region d ?c1 (m(scene \<mapsto> s)) =
        Some (?c1 \<lparr> c_display := c_display c \<lparr> d_dirty := None \<rparr> \<rparr>, m(scene \<mapsto> s, back \<mapsto> b', front \<mapsto> f'))"
      "length b' = length b" "length f' = length f"
      "\<And>x y. on_screen c x y \<Longrightarrow> rect_has d x y \<Longrightarrow> f' ! (y * ?W + x) = over (cursor_over c x y) (s ! (y * ?W + x))"
      by (rule after [OF refl d], rule that)
    have upd: "m(scene \<mapsto> s) = m" using assms(5) by auto
    have c1: "c \<lparr> pending_damage := None \<rparr> = ?c1" using cursor(1,3) by simp
    have "flush c m = Some (?c1 \<lparr> c_display := c_display c \<lparr> d_dirty := None \<rparr> \<rparr>, m(scene \<mapsto> s, back \<mapsto> b', front \<mapsto> f'))"
      using cursor p(1) unfolding upd by (simp add: flush_def Let_def c1)
    moreover have "f' ! (y * ?W + x) = due_pixel m c x y" if "on_screen c x y" "due c x y" for x y
      using that cursor p(4) assms(5) by (auto simp: due_pixel_def due_def screen_px_def scene_def)
    ultimately show ?thesis using p(2,3) by blast
  qed
qed

text \<open>Only the sizes of the buffers matter for being well formed.\<close>

lemma render_ok_sizes:
  assumes "\<And>a. map_option length (m' a) = map_option length (m a)" "render_ok m c"
  shows "render_ok m' c"
proof -
  have mapped: "(\<exists>p. m' a = Some p \<and> n \<le> length p) = (\<exists>p. m a = Some p \<and> n \<le> length p)" for a n
    using assms(1) [of a] by (cases "m a"; cases "m' a") auto
  have w: "window_ok m' c w = window_ok m c w" for w unfolding window_ok_def mapped ..
  have "scene_ok m' c = scene_ok m c" unfolding scene_ok_def mapped w ..
  moreover have "display_ok (c_display c) m' = display_ok (c_display c) m" unfolding display_ok_def mapped ..
  ultimately show ?thesis using assms(2) unfolding render_ok_def by simp
qed

section \<open>Theorems\<close>

text \<open>A screen of four pixels with three windows: the first is covered on the right by the second and on
  the left by the third.\<close>

definition demo_window :: "nat \<Rightarrow> int \<Rightarrow> nat \<Rightarrow> Window" where
  "demo_window i x w = \<lparr> win_id = i, win_x = x, win_y = 0, win_width = w, win_height = 1,
     win_buffer = 1000 + i, win_shared_buf_id = i, win_buf_size = 4 * w \<rparr>"

definition demo_info :: DisplayInfo where
  "demo_info = \<lparr> di_width = 4, di_height = 1, red_mask_size = 8, red_mask_shift = 16, green_mask_size = 8,
     green_mask_shift = 8, blue_mask_size = 8, blue_mask_shift = 0 \<rparr>"

definition demo_compositor :: Compositor where
  "demo_compositor =
     \<lparr> c_display = \<lparr> back_buffer = 3000, back_len = 4, front_buffer = 4000, d_width = 4, d_height = 1,
         d_info = demo_info, d_dirty = None \<rparr>,
       display_info = demo_info,
       windows = [Some (demo_window 1 0 3), Some (demo_window 2 2 2), Some (demo_window 3 0 1)] @ replicate 29 None,
       next_window_id = 4, recv_endpoint = 7, z_order = [1, 2, 3] @ replicate 29 0, n_windows = 3,
       background_buf = 500, scene_buf = 2000, cursor_x = 3, cursor_y = 0, cursor_black = 8, cursor_white = 9,
       pending_damage = Some (mk_rect 0 0 1 1), pending_scene_update = True, pending_full_redraw = False \<rparr>"

definition demo_pixels :: pixmem where
  "demo_pixels = [500 \<mapsto> [0, 0, 0, 0], 2000 \<mapsto> [3, 1, 2, 2], 3000 \<mapsto> [0, 0, 0, 0], 4000 \<mapsto> [0, 0, 0, 0],
     1001 \<mapsto> [1, 1, 1], 1002 \<mapsto> [2, 2], 1003 \<mapsto> [3]]"

lemma demo_simps:
  "open_windows demo_compositor = [demo_window 1 0 3, demo_window 2 2 2, demo_window 3 0 1]"
  "zs demo_compositor = [1, 2, 3]" "display_info demo_compositor = demo_info" "scene_buf demo_compositor = 2000"
  "background_buf demo_compositor = 500"
  "pending_damage demo_compositor = Some (mk_rect 0 0 1 1)" "pending_scene_update demo_compositor" "\<not> pending_full_redraw demo_compositor"
  by (simp_all add: demo_compositor_def open_windows_def zs_def List.map_filter_def)

lemma demo_render_ok: "render_ok demo_pixels demo_compositor"
  by (simp add: render_ok_def scene_ok_def demo_simps display_ok_def)
    (simp add: demo_compositor_def demo_pixels_def demo_info_def demo_window_def window_ok_def place_ok_def z_ok_def MAX_WINDOWS_def
      I32_LIMIT_num limits CURSOR_W_def CURSOR_H_def rect_in_def)

text \<open>C22. What a flush shows. Flushing never panics, and afterwards no redraw is pending. Due are all
  pixels after a request for a full redraw, and the pixels of the damaged rectangle otherwise. When a full
  redraw or an update of the scene was pending, every pixel due shows the cursor where the sprite is opaque,
  otherwise the topmost window there, otherwise the background. When only the cursor moved, every pixel due
  shows the cursor over the scene as it was last drawn, whatever the windows have become since.\<close>

theorem flush_shows_windows:
  assumes "render_ok m c"
  shows "\<exists>c' m'. flush c m = Some (c', m') \<and> \<not> pending_full_redraw c' \<and> pending_damage c' = None \<and>
    (\<forall>x y. on_screen c x y \<and> due c x y \<longrightarrow>
       screen_px m' (front_buffer (c_display c)) c x y = over (cursor_over c x y)
         (if pending_full_redraw c \<or> pending_scene_update c then scene_pixel m c x y else screen_px m (scene_buf c) c x y))"
proof -
  obtain s b f where mem: "m (scene_buf c) = Some s" "m (back_buffer (c_display c)) = Some b" "m (front_buffer (c_display c)) = Some f"
    using assms(1) by (auto simp: render_ok_def scene_ok_def display_ok_def Let_def)
  from flush_ok [OF assms(1) mem] obtain c' s' b' f' u q where
    fl: "flush c m = Some (c', m(scene_buf c \<mapsto> s', back_buffer (c_display c) \<mapsto> b', front_buffer (c_display c) \<mapsto> f'))"
    "c' = c \<lparr> pending_full_redraw := False, pending_scene_update := u, pending_damage := None, c_display := c_display c \<lparr> d_dirty := q \<rparr> \<rparr>"
    "\<And>x y. on_screen c x y \<Longrightarrow> due c x y \<Longrightarrow> f' ! (y * di_width (display_info c) + x) = due_pixel m c x y"
    by blast
  let ?m' = "m(scene_buf c \<mapsto> s', back_buffer (c_display c) \<mapsto> b', front_buffer (c_display c) \<mapsto> f')"
  have "screen_px ?m' (front_buffer (c_display c)) c x y = due_pixel m c x y" if "on_screen c x y \<and> due c x y" for x y
    using fl(3) that by (simp add: screen_px_def)
  moreover have "\<not> pending_full_redraw c'" "pending_damage c' = None" by (simp_all add: fl(2))
  ultimately show ?thesis unfolding due_pixel_def [symmetric] using fl(1) by (intro exI [of _ c'] exI [of _ ?m']) simp
qed

theorem flush_shows_windows_witness:
  "\<exists>c' m'. flush demo_compositor demo_pixels = Some (c', m') \<and>
    screen_px m' 4000 demo_compositor 0 0 = over (cursor_over demo_compositor 0 0) (scene_pixel demo_pixels demo_compositor 0 0)"
proof -
  have "on_screen demo_compositor 0 0" "due demo_compositor 0 0" "front_buffer (c_display demo_compositor) = 4000"
    by (simp_all add: on_screen_def due_def demo_simps rect_has_def demo_info_def) (simp add: demo_compositor_def)
  moreover from flush_shows_windows [OF demo_render_ok] obtain c' m' where
    "flush demo_compositor demo_pixels = Some (c', m')"
    "\<forall>x y. on_screen demo_compositor x y \<and> due demo_compositor x y \<longrightarrow>
       screen_px m' (front_buffer (c_display demo_compositor)) demo_compositor x y = over (cursor_over demo_compositor x y)
         (if pending_full_redraw demo_compositor \<or> pending_scene_update demo_compositor then scene_pixel demo_pixels demo_compositor x y
          else screen_px demo_pixels (scene_buf demo_compositor) demo_compositor x y)"
    by (elim exE conjE) (rule that)
  ultimately show ?thesis using demo_simps(7) by (intro exI [of _ c'] exI [of _ m']) simp
qed

text \<open>C23. Drawing stays in the buffers of the server. Flushing a server whose buffers are mapped completes
  whatever windows, damage and cursor position it has, changes no memory but the scene, the back buffer and
  the frame buffer, keeps the size of every buffer, and leaves a server that can be flushed again.\<close>

theorem flush_stays_in_buffers:
  assumes "render_ok m c"
  shows "\<exists>c' m'. flush c m = Some (c', m') \<and> render_ok m' c' \<and>
    (\<forall>a. map_option length (m' a) = map_option length (m a)) \<and>
    {a. m' a \<noteq> m a} \<subseteq> {scene_buf c, back_buffer (c_display c), front_buffer (c_display c)}"
proof -
  obtain s b f where mem: "m (scene_buf c) = Some s" "m (back_buffer (c_display c)) = Some b" "m (front_buffer (c_display c)) = Some f"
    using assms(1) by (auto simp: render_ok_def scene_ok_def display_ok_def Let_def)
  from flush_ok [OF assms(1) mem] obtain c' s' b' f' u q where
    fl: "flush c m = Some (c', m(scene_buf c \<mapsto> s', back_buffer (c_display c) \<mapsto> b', front_buffer (c_display c) \<mapsto> f'))"
    "length s' = length s" "length b' = length b" "length f' = length f"
    "c' = c \<lparr> pending_full_redraw := False, pending_scene_update := u, pending_damage := None, c_display := c_display c \<lparr> d_dirty := q \<rparr> \<rparr>"
    "q = None \<or> q = d_dirty (c_display c)"
    by blast
  let ?m' = "m(scene_buf c \<mapsto> s', back_buffer (c_display c) \<mapsto> b', front_buffer (c_display c) \<mapsto> f')"
  have sizes: "map_option length (?m' a) = map_option length (m a)" for a using fl(2-4) mem by auto
  have ok: "render_ok ?m' c" by (rule render_ok_sizes [OF sizes assms])
  let ?c1 = "c \<lparr> pending_full_redraw := False, pending_scene_update := u, pending_damage := None \<rparr>"
  have "render_ok ?m' ?c1" using ok by (rule pending_irrelevant(5)) simp
  moreover have "scene_ok ?m' (?c1 \<lparr> c_display := d \<rparr>) = scene_ok ?m' ?c1" for d
    by (simp add: scene_ok_def window_ok_def open_windows_def z_ok_def)
  ultimately have "render_ok ?m' c'" using fl(5,6) assms by (auto simp: render_ok_def display_ok_def)
  moreover have "{a. ?m' a \<noteq> m a} \<subseteq> {scene_buf c, back_buffer (c_display c), front_buffer (c_display c)}"
    by (auto split: if_splits)
  ultimately show ?thesis using fl(1) sizes by blast
qed

theorem flush_stays_in_buffers_witness:
  "\<exists>c' m'. flush demo_compositor demo_pixels = Some (c', m') \<and> render_ok m' c' \<and> m' 500 = demo_pixels 500"
proof -
  have "500 \<notin> {scene_buf demo_compositor, back_buffer (c_display demo_compositor), front_buffer (c_display demo_compositor)}"
    by (simp add: demo_compositor_def)
  then show ?thesis using flush_stays_in_buffers [OF demo_render_ok] by blast
qed

text \<open>C24. Redrawing a region is as good as redrawing everything, where it counts. Updating the scene for a
  damaged rectangle, which skips the windows that do not meet it, gives inside the rectangle the same pixels
  as rebuilding the whole scene, and both are the picture of the stack of windows.\<close>

theorem region_equals_full:
  assumes "scene_ok m c" "rect_in (di_width (display_info c)) (di_height (display_info c)) d" "on_screen c x y" "rect_has d x y"
  shows "\<exists>m1 m2. update_scene_region d c m = Some m1 \<and> update_scene_full c m = Some m2 \<and>
    screen_px m1 (scene_buf c) c x y = screen_px m2 (scene_buf c) c x y \<and>
    screen_px m1 (scene_buf c) c x y = scene_pixel m c x y"
proof -
  obtain s where s: "m (scene_buf c) = Some s" using assms(1) by (auto simp: scene_ok_def Let_def)
  obtain s1 where "update_scene_region d c m = Some (m(scene_buf c \<mapsto> s1))"
    "\<And>x y. on_screen c x y \<Longrightarrow> rect_has d x y \<Longrightarrow> s1 ! (y * di_width (display_info c) + x) = scene_pixel m c x y"
    by (rule update_scene_region_ok [OF assms(1) s assms(2)], rule that)
  moreover obtain s2 where "update_scene_full c m = Some (m(scene_buf c \<mapsto> s2))"
    "\<And>x y. on_screen c x y \<Longrightarrow> s2 ! (y * di_width (display_info c) + x) = scene_pixel m c x y"
    by (rule update_scene_full_ok [OF assms(1) s], rule that)
  ultimately show ?thesis using assms(3,4) by (simp add: screen_px_def)
qed

theorem region_equals_full_witness:
  "\<exists>m1. update_scene_region (mk_rect 0 0 1 1) demo_compositor demo_pixels = Some m1 \<and>
    screen_px m1 2000 demo_compositor 0 0 = scene_pixel demo_pixels demo_compositor 0 0"
proof -
  have "scene_ok demo_pixels demo_compositor" using demo_render_ok by (simp add: render_ok_def)
  then show ?thesis using region_equals_full [of demo_pixels demo_compositor "mk_rect 0 0 1 1" 0 0]
    by (auto simp: demo_simps rect_in_def on_screen_def rect_has_def demo_info_def)
qed

text \<open>Outside the region a redraw may break the scene. Updating the scene for the damage of the third
  window of the example redraws the whole of the first window, which lies under the damage, but not the
  second, which does not meet the damage although it covers the first: the scene was right on every pixel
  before and shows the covered window on the third pixel afterwards.\<close>

theorem region_update_breaks_stacking:
  "\<exists>m'. map (\<lambda>x. screen_px demo_pixels 2000 demo_compositor x 0) [0, 1, 2, 3] =
        map (\<lambda>x. scene_pixel demo_pixels demo_compositor x 0) [0, 1, 2, 3] \<and>
    update_scene_region (mk_rect 0 0 1 1) demo_compositor demo_pixels = Some m' \<and>
    scene_pixel m' demo_compositor 2 0 = 2 \<and> screen_px m' 2000 demo_compositor 2 0 = 1"
proof -
  have find: "find_window (Suc 0) demo_compositor = Some (demo_window 1 0 3)" "find_window 2 demo_compositor = Some (demo_window 2 2 2)"
    "find_window 3 demo_compositor = Some (demo_window 3 0 1)"
    by (simp_all add: find_window_def demo_compositor_def List.map_filter_def demo_window_def)
  have px: "demo_pixels 500 = Some [0, 0, 0, 0]" "demo_pixels 2000 = Some [3, 1, 2, 2]" "demo_pixels 1001 = Some [1, 1, 1]"
    "demo_pixels 1002 = Some [2, 2]" "demo_pixels 1003 = Some [3]"
    by (simp_all add: demo_pixels_def)
  have z: "index_get (z_order demo_compositor) 0 = Some (Suc 0)" "index_get (z_order demo_compositor) (Suc 0) = Some 2"
      "index_get (z_order demo_compositor) 2 = Some 3" "n_windows demo_compositor = 3"
    by (simp_all add: demo_compositor_def index_get_def)
  have ks: "[0..<3] = [0, Suc 0, 2]" by (simp add: upt_rec)
  note eval = scene_pixel_def stack_pixel_def paint_def demo_simps find base_pixel_def screen_px_def demo_info_def win_shade_def
    demo_window_def covers_def over_def px
  note run = demo_simps demo_info_def demo_window_def rust_arith limits I32_LIMIT_num i32_of_u32_def copy_nonoverlapping_def px
  have blits: "blit_to_scene (500, 0) 4 0 0 (Suc 0) (Suc 0) demo_compositor demo_pixels = Some (demo_pixels(2000 \<mapsto> [0, 1, 2, 2]))"
    "blit_to_scene (1001, 0) 3 0 0 3 (Suc 0) demo_compositor (demo_pixels(2000 \<mapsto> [0, 1, 2, 2])) = Some (demo_pixels(2000 \<mapsto> [1, 1, 1, 2]))"
    "blit_to_scene (1003, 0) (Suc 0) 0 0 (Suc 0) (Suc 0) demo_compositor (demo_pixels(2000 \<mapsto> [1, 1, 1, 2])) = Some (demo_pixels(2000 \<mapsto> [3, 1, 1, 2]))"
    by (simp_all add: blit_to_scene_def run)
  have "update_scene_region (mk_rect 0 0 1 1) demo_compositor demo_pixels = Some (demo_pixels(2000 \<mapsto> [3, 1, 1, 2]))"
    by (simp add: update_scene_region_def z ks demo_simps demo_info_def rust_arith limits i32_of_u32_def I32_LIMIT_num blits(1))
      (simp add: blit_window_region_def z find demo_window_def rust_arith I32_LIMIT_num i32_of_u32_def blits)
  moreover have "map (\<lambda>x. screen_px demo_pixels 2000 demo_compositor x 0) [0, 1, 2, 3] =
      map (\<lambda>x. scene_pixel demo_pixels demo_compositor x 0) [0, 1, 2, 3]"
    by (simp add: eval)
  moreover have "scene_pixel (demo_pixels(2000 \<mapsto> [3, 1, 1, 2])) demo_compositor 2 0 = 2"
    "screen_px (demo_pixels(2000 \<mapsto> [3, 1, 1, 2])) 2000 demo_compositor 2 0 = 1"
    by (simp_all add: eval)
  ultimately show ?thesis by blast
qed

end
