(* ===== verification/Page_Tables.thy ===== *)
theory Page_Tables
  imports X86_Interface
begin

text \<open>
  Four-level page tables, and the contract of the part of the \<^verbatim>\<open>x86_64\<close> crate that edits
  them. A page table is an array of 512 entries in a physical frame, each an address with flags; the
  kernel reads and copies such arrays itself (\<^verbatim>\<open>memory/page_tables.rs\<close>,
  \<^verbatim>\<open>task/task.rs\<close>), so they are concrete here. \<open>walk\<close> is the translation the
  processor performs. \<^verbatim>\<open>OffsetPageTable::map_to\<close> and \<^verbatim>\<open>unmap\<close> are the external
  code: a record of operations with the locale \<open>page_mapper\<close> that states what they do to the walk and
  to the set of frames used as tables. The theory ends with an implementation of the contract.
\<close>

section \<open>Entries and tables\<close>

record PageTableFlags =
  pf_present :: bool
  pf_writable :: bool
  pf_user_accessible :: bool
  pf_huge_page :: bool
  pf_no_execute :: bool

record PageTableEntry =
  pe_addr :: nat
  pe_flags :: PageTableFlags

definition no_flags :: PageTableFlags where
  "no_flags = \<lparr> pf_present = False, pf_writable = False, pf_user_accessible = False,
                pf_huge_page = False, pf_no_execute = False \<rparr>"

definition unused_entry :: PageTableEntry where
  "unused_entry = \<lparr> pe_addr = 0, pe_flags = no_flags \<rparr>"

type_synonym PageTable = "nat \<Rightarrow> PageTableEntry"

text \<open>\<^verbatim>\<open>PageTable::new()\<close>: every entry unused.\<close>

definition PageTable_new :: PageTable where
  "PageTable_new = (\<lambda>_. unused_entry)"

text \<open>The contents of the frames that hold tables.\<close>

type_synonym page_memory = "nat \<Rightarrow> PageTable"

definition set_entry :: "page_memory \<Rightarrow> nat \<Rightarrow> nat \<Rightarrow> PageTableEntry \<Rightarrow> page_memory" where
  "set_entry t tbl i e = t(tbl := (t tbl)(i := e))"

definition entry_present :: "PageTableEntry \<Rightarrow> bool" where
  "entry_present e \<longleftrightarrow> pf_present (pe_flags e)"

text \<open>An entry that leads to a table of the next level.\<close>

definition links :: "PageTableEntry \<Rightarrow> bool" where
  "links e \<longleftrightarrow> entry_present e \<and> \<not> pf_huge_page (pe_flags e)"

section \<open>The translation\<close>

text \<open>Level 0 is the table of 4 KiB pages, level 3 the root. \<open>page_low l\<close> is the part of an address
  that a walk from level \<open>l\<close> looks at; at the root it identifies a canonical page.\<close>

definition page_index :: "nat \<Rightarrow> nat \<Rightarrow> nat" where
  "page_index l a = a div SIZE_4KIB div 512 ^ l mod 512"

definition page_low :: "nat \<Rightarrow> nat \<Rightarrow> nat" where
  "page_low l a = a div SIZE_4KIB mod 512 ^ Suc l"

primrec walk :: "page_memory \<Rightarrow> nat \<Rightarrow> nat \<Rightarrow> nat \<Rightarrow> PageTableEntry option" where
  "walk t 0 tbl a = (if entry_present (t tbl (page_index 0 a)) then Some (t tbl (page_index 0 a)) else None)"
| "walk t (Suc l) tbl a =
     (if links (t tbl (page_index (Suc l) a)) then walk t l (pe_addr (t tbl (page_index (Suc l) a))) a else None)"

text \<open>The number of tables below a table that a walk passes.\<close>

primrec walk_depth :: "page_memory \<Rightarrow> nat \<Rightarrow> nat \<Rightarrow> nat \<Rightarrow> nat" where
  "walk_depth t 0 tbl a = 0"
| "walk_depth t (Suc l) tbl a =
     (if links (t tbl (page_index (Suc l) a)) then Suc (walk_depth t l (pe_addr (t tbl (page_index (Suc l) a))) a) else 0)"

definition translate :: "page_memory \<Rightarrow> nat \<Rightarrow> nat \<Rightarrow> PageTableEntry option" where
  "translate t root a = walk t 3 root a"

section \<open>The tree of tables\<close>

text \<open>The frames used as tables below a table of level \<open>l\<close>. At the root only the entries \<open>R\<close> count:
  the lower half of the address space belongs to a task, the upper half is shared with the kernel.\<close>

definition slots :: "nat set \<Rightarrow> nat \<Rightarrow> nat set" where
  "slots R l = (if l = 3 then R else {..<512})"

primrec tables :: "nat set \<Rightarrow> page_memory \<Rightarrow> nat \<Rightarrow> nat \<Rightarrow> nat set" where
  "tables R t 0 tbl = {tbl}"
| "tables R t (Suc l) tbl =
     insert tbl (\<Union>i\<in>{i \<in> slots R (Suc l). links (t tbl i)}. tables R t l (pe_addr (t tbl i)))"

text \<open>The tables form a tree: no frame is used twice, every entry is unused or in use, and no entry
  above level 0 maps a huge page.\<close>

primrec tree :: "nat set \<Rightarrow> page_memory \<Rightarrow> nat \<Rightarrow> nat \<Rightarrow> bool" where
  "tree R t 0 tbl \<longleftrightarrow> (\<forall>i\<in>slots R 0. t tbl i = unused_entry \<or> entry_present (t tbl i))"
| "tree R t (Suc l) tbl \<longleftrightarrow>
     (\<forall>i\<in>slots R (Suc l). t tbl i = unused_entry \<or>
        links (t tbl i) \<and> tree R t l (pe_addr (t tbl i)) \<and> tbl \<notin> tables R t l (pe_addr (t tbl i))) \<and>
     (\<forall>i\<in>slots R (Suc l). \<forall>j\<in>slots R (Suc l). i \<noteq> j \<longrightarrow> links (t tbl i) \<longrightarrow> links (t tbl j) \<longrightarrow>
        tables R t l (pe_addr (t tbl i)) \<inter> tables R t l (pe_addr (t tbl j)) = {})"

definition user_slots :: "nat set" where
  "user_slots = {..<256}"

definition kernel_slots :: "nat set" where
  "kernel_slots = {256..<512}"

lemma unused_entry_simps [simp]: "\<not> entry_present unused_entry" "\<not> links unused_entry"
  by (simp_all add: entry_present_def links_def unused_entry_def no_flags_def)

lemma links_present: "links e \<Longrightarrow> entry_present e"
  by (simp add: links_def)

lemma set_entry_same [simp]: "set_entry t tbl i e tbl = (t tbl)(i := e)"
  by (simp add: set_entry_def)

lemma set_entry_other [simp]: "g \<noteq> tbl \<Longrightarrow> set_entry t tbl i e g = t g"
  by (simp add: set_entry_def)

lemma page_index_less [simp]: "page_index l a < 512"
  by (simp add: page_index_def)

lemma page_low_0: "page_low 0 a = page_index 0 a"
  by (simp add: page_low_def page_index_def)

lemma page_low_Suc:
  "page_low (Suc l) a = page_low (Suc l) b \<longleftrightarrow> page_index (Suc l) a = page_index (Suc l) b \<and> page_low l a = page_low l b"
proof -
  have d: "page_low (Suc l) x = 512 ^ Suc l * page_index (Suc l) x + page_low l x" for x
    using mod_mult2_eq [of "x div SIZE_4KIB" "512 ^ Suc l" 512] by (simp add: page_low_def page_index_def mult.commute)
  have b: "page_low l x < 512 ^ Suc l" for x by (simp add: page_low_def)
  show ?thesis
  proof
    assume e: "page_low (Suc l) a = page_low (Suc l) b"
    have "page_low (Suc l) x div 512 ^ Suc l = page_index (Suc l) x" "page_low (Suc l) x mod 512 ^ Suc l = page_low l x" for x
      unfolding d using b [of x] by (simp_all del: power_Suc)
    with e show "page_index (Suc l) a = page_index (Suc l) b \<and> page_low l a = page_low l b" by metis
  qed (simp add: d)
qed

lemma page_index_slots: "l \<noteq> 3 \<Longrightarrow> page_index l a \<in> slots R l"
  by (simp add: slots_def)

lemma root_in_tables [simp]: "tbl \<in> tables R t l tbl"
  by (cases l) auto

lemma tables_link: "i \<in> slots R (Suc l) \<Longrightarrow> links (t tbl i) \<Longrightarrow> tables R t l (pe_addr (t tbl i)) \<subseteq> tables R t (Suc l) tbl"
  by auto

text \<open>The tables and the walk depend on the tables of the tree only.\<close>

lemma tables_frame: "\<forall>g\<in>tables R t l tbl. t' g = t g \<Longrightarrow> tables R t' l tbl = tables R t l tbl"
proof (induction l arbitrary: tbl)
  case (Suc l)
  have e: "t' tbl = t tbl" using Suc.prems by simp
  have "tables R t' l (pe_addr (t tbl i)) = tables R t l (pe_addr (t tbl i))"
    if "i \<in> slots R (Suc l)" "links (t tbl i)" for i
    using Suc.prems tables_link [where t = t and tbl = tbl, OF that] by (intro Suc.IH) blast
  then show ?case using e by auto
qed simp

lemma tree_frame: "\<forall>g\<in>tables R t l tbl. t' g = t g \<Longrightarrow> tree R t' l tbl \<longleftrightarrow> tree R t l tbl"
proof (induction l arbitrary: tbl)
  case (Suc l)
  have e: "t' tbl = t tbl" using Suc.prems by simp
  have g: "\<forall>g\<in>tables R t l (pe_addr (t tbl i)). t' g = t g" if "i \<in> slots R (Suc l)" "links (t tbl i)" for i
    using Suc.prems tables_link [where t = t and tbl = tbl, OF that] by blast
  have r: "tree R t' l (pe_addr (t tbl i)) \<longleftrightarrow> tree R t l (pe_addr (t tbl i))"
      "tables R t' l (pe_addr (t tbl i)) = tables R t l (pe_addr (t tbl i))"
    if "i \<in> slots R (Suc l)" "links (t tbl i)" for i
    using Suc.IH [OF g [OF that]] tables_frame [OF g [OF that]] by auto
  show ?case by (simp add: e r cong: conj_cong imp_cong ball_cong)
qed simp

lemma walk_frame:
  "\<forall>g\<in>tables R t l tbl. t' g = t g \<Longrightarrow> page_index l a \<in> slots R l \<Longrightarrow> l \<le> 3 \<Longrightarrow> walk t' l tbl a = walk t l tbl a"
proof (induction l arbitrary: tbl)
  case (Suc l)
  have e: "t' tbl = t tbl" using Suc.prems(1) by simp
  have "walk t' l (pe_addr (t tbl i)) a = walk t l (pe_addr (t tbl i)) a"
    if "i = page_index (Suc l) a" "links (t tbl i)" for i
  proof -
    have "i \<in> slots R (Suc l)" using Suc.prems(2) that(1) by simp
    from Suc.prems(1,3) tables_link [where t = t and tbl = tbl, OF this that(2)] show ?thesis
      by (intro Suc.IH page_index_slots) auto
  qed
  then show ?case by (simp add: e)
qed simp

lemma walk_depth_frame:
  "\<forall>g\<in>tables R t l tbl. t' g = t g \<Longrightarrow> page_index l a \<in> slots R l \<Longrightarrow> l \<le> 3 \<Longrightarrow> walk_depth t' l tbl a = walk_depth t l tbl a"
proof (induction l arbitrary: tbl)
  case (Suc l)
  have e: "t' tbl = t tbl" using Suc.prems(1) by simp
  have "walk_depth t' l (pe_addr (t tbl i)) a = walk_depth t l (pe_addr (t tbl i)) a"
    if "i = page_index (Suc l) a" "links (t tbl i)" for i
  proof -
    have "i \<in> slots R (Suc l)" using Suc.prems(2) that(1) by simp
    from Suc.prems(1,3) tables_link [where t = t and tbl = tbl, OF this that(2)] show ?thesis
      by (intro Suc.IH page_index_slots) auto
  qed
  then show ?case by (simp add: e)
qed simp

lemma fresh_table:
  assumes "t f = PageTable_new"
  shows "tables R t l f = {f}" "tree R t l f" "walk t l f a = None"
  using assms by (cases l; simp add: PageTable_new_def)+

text \<open>Replacing what one entry leads to, with the rest of the tree as it was.\<close>

lemma replace_child:
  assumes tr: "tree R t (Suc l) tbl" and i: "i \<in> slots R (Suc l)"
    and t': "t' tbl = (t tbl)(i := e)" and e: "links e"
    and c: "tree R t' l (pe_addr e)" "tbl \<notin> tables R t' l (pe_addr e)"
    and sep: "\<And>j. j \<in> slots R (Suc l) \<Longrightarrow> j \<noteq> i \<Longrightarrow> links (t tbl j) \<Longrightarrow>
        tables R t l (pe_addr (t tbl j)) \<inter> tables R t' l (pe_addr e) = {}"
    and fr: "\<And>g. g \<noteq> tbl \<Longrightarrow> g \<notin> tables R t' l (pe_addr e) \<Longrightarrow> g \<in> tables R t (Suc l) tbl \<Longrightarrow>
        (\<And>j. j \<in> slots R (Suc l) \<Longrightarrow> j = i \<Longrightarrow> links (t tbl j) \<Longrightarrow> g \<notin> tables R t l (pe_addr (t tbl j))) \<Longrightarrow> t' g = t g"
  shows "tree R t' (Suc l) tbl"
    and "tables R t' (Suc l) tbl = insert tbl (tables R t' l (pe_addr e) \<union>
           (\<Union>j\<in>{j \<in> slots R (Suc l). j \<noteq> i \<and> links (t tbl j)}. tables R t l (pe_addr (t tbl j))))"
proof -
  let ?J = "{j \<in> slots R (Suc l). j \<noteq> i \<and> links (t tbl j)}"
  have o: "\<forall>g\<in>tables R t l (pe_addr (t tbl j)). t' g = t g" if "j \<in> ?J" for j
  proof
    fix g assume g: "g \<in> tables R t l (pe_addr (t tbl j))"
    have j: "j \<in> slots R (Suc l)" "j \<noteq> i" "links (t tbl j)" using that by auto
    then have "t tbl j \<noteq> unused_entry" by auto
    then have "tbl \<notin> tables R t l (pe_addr (t tbl j))" using tr j by (meson tree.simps(2))
    then have ne: "g \<noteq> tbl" using g by auto
    show "t' g = t g"
    proof (rule fr)
      show "g \<noteq> tbl" by (rule ne)
      show "g \<notin> tables R t' l (pe_addr e)" using sep [OF j] g by blast
      show "g \<in> tables R t (Suc l) tbl" using tables_link [of j R l t tbl] j g by blast
    next
      fix m assume m: "m \<in> slots R (Suc l)" "m = i" "links (t tbl m)"
      then have "tables R t l (pe_addr (t tbl j)) \<inter> tables R t l (pe_addr (t tbl m)) = {}" using tr j by auto
      then show "g \<notin> tables R t l (pe_addr (t tbl m))" using g by blast
    qed
  qed
  have same: "tables R t' l (pe_addr (t tbl j)) = tables R t l (pe_addr (t tbl j))"
      "tree R t' l (pe_addr (t tbl j)) = tree R t l (pe_addr (t tbl j))" if "j \<in> ?J" for j
    using tables_frame [OF o [OF that]] tree_frame [OF o [OF that]] by auto
  show "tables R t' (Suc l) tbl = insert tbl (tables R t' l (pe_addr e) \<union>
           (\<Union>j\<in>{j \<in> slots R (Suc l). j \<noteq> i \<and> links (t tbl j)}. tables R t l (pe_addr (t tbl j))))"
  proof -
    have "{j \<in> slots R (Suc l). links (t' tbl j)} = insert i ?J" using i e t' by auto
    then show ?thesis using t' same(1) by auto
  qed
  show "tree R t' (Suc l) tbl"
  proof (unfold tree.simps, intro conjI ballI impI)
    fix j assume j: "j \<in> slots R (Suc l)"
    show "t' tbl j = unused_entry \<or> links (t' tbl j) \<and> tree R t' l (pe_addr (t' tbl j)) \<and> tbl \<notin> tables R t' l (pe_addr (t' tbl j))"
    proof (cases "j = i")
      case False
      then show ?thesis using tr j t' same [of j] by (cases "links (t tbl j)") auto
    qed (use t' e c in simp)
  next
    fix j m assume jm: "j \<in> slots R (Suc l)" "m \<in> slots R (Suc l)" "j \<noteq> m" "links (t' tbl j)" "links (t' tbl m)"
    consider "j = i" | "m = i" | "j \<in> ?J" "m \<in> ?J" using jm t' by fastforce
    then show "tables R t' l (pe_addr (t' tbl j)) \<inter> tables R t' l (pe_addr (t' tbl m)) = {}"
    proof cases
      case 1
      then have "m \<in> ?J" using jm t' by auto
      then show ?thesis using 1 t' same(1) [of m] sep [of m] jm by auto
    next
      case 2
      then have "j \<in> ?J" using jm t' by auto
      then show ?thesis using 2 t' same(1) [of j] sep [of j] jm by auto
    next
      case 3
      then have "t' tbl j = t tbl j" "t' tbl m = t tbl m" using t' by auto
      then show ?thesis using same(1) [OF 3(1)] same(1) [OF 3(2)] tr 3 jm(3) by auto
    qed
  qed
qed

section \<open>The contract of the mapper\<close>

text \<open>The mapper calls the frame allocator it is given as often as it needs tables.
  \<open>alloc_run\<close> is a sequence of such calls, with the frames they returned.\<close>

inductive alloc_run :: "('p \<Rightarrow> (nat option \<times> 'p) rust) \<Rightarrow> 'p \<Rightarrow> nat list \<Rightarrow> 'p \<Rightarrow> bool"
  for alloc :: "'p \<Rightarrow> (nat option \<times> 'p) rust" where
  no_call: "alloc_run alloc p [] p"
| frame: "alloc p = Some (Some f, p1) \<Longrightarrow> alloc_run alloc p1 fs p2 \<Longrightarrow> alloc_run alloc p (f # fs) p2"
| exhausted: "alloc p = Some (None, p1) \<Longrightarrow> alloc_run alloc p1 fs p2 \<Longrightarrow> alloc_run alloc p fs p2"

text \<open>The caller's side of the contract: however often the allocator is called, it does not panic
  and returns frames that are no tables of the tree, and none of them twice.\<close>

definition alloc_safe :: "('p \<Rightarrow> (nat option \<times> 'p) rust) \<Rightarrow> nat set \<Rightarrow> 'p \<Rightarrow> bool" where
  "alloc_safe alloc used p \<longleftrightarrow>
     (\<forall>fs p'. alloc_run alloc p fs p' \<longrightarrow> alloc p' \<noteq> panic \<and> distinct fs \<and> set fs \<inter> used = {})"

text \<open>What an edit of the tree does: it stays a tree, gains the tables \<open>fs\<close>, touches no other
  frame and no entry of the other half of the root, and changes the translation of one page only.\<close>

definition map_effect ::
    "nat set \<Rightarrow> nat \<Rightarrow> nat \<Rightarrow> nat \<Rightarrow> PageTableEntry option \<Rightarrow> page_memory \<Rightarrow> page_memory \<Rightarrow> nat set \<Rightarrow> bool" where
  "map_effect R l tbl a new t t' fs \<longleftrightarrow>
     tree R t' l tbl \<and> tables R t' l tbl = tables R t l tbl \<union> fs \<and>
     (\<forall>g. g \<notin> tables R t l tbl \<union> fs \<longrightarrow> t' g = t g) \<and>
     (\<forall>i. i \<notin> slots R l \<longrightarrow> t' tbl i = t tbl i) \<and>
     (\<forall>b. page_index l b \<in> slots R l \<longrightarrow>
        walk t' l tbl b = (if page_low l b = page_low l a then new else walk t l tbl b))"

datatype MapToError = FrameAllocationFailed | ParentEntryHugePage | PageAlreadyMapped nat

datatype UnmapError = UnmapParentEntryHugePage | PageNotMapped | InvalidFrameAddress

text \<open>Mapping a page takes a frame only for a level that has no table yet. It either adds exactly that translation, or
  fails and changes no translation: the page was mapped before, or the last call of the allocator
  found no frame.\<close>

definition map_outcome ::
    "nat set \<Rightarrow> nat \<Rightarrow> nat \<Rightarrow> nat \<Rightarrow> PageTableEntry \<Rightarrow> ('p \<Rightarrow> (nat option \<times> 'p) rust) \<Rightarrow> page_memory \<Rightarrow> 'p \<Rightarrow> nat list \<Rightarrow>
     MapToError + unit \<Rightarrow> page_memory \<Rightarrow> 'p \<Rightarrow> bool" where
  "map_outcome R l tbl page e alloc t p fs r t' p' \<longleftrightarrow> alloc_run alloc p fs p' \<and> length fs + walk_depth t l tbl page \<le> l \<and>
     (case r of
        Inr _ \<Rightarrow> walk t l tbl page = None \<and> map_effect R l tbl page (Some e) t t' (set fs)
      | Inl err \<Rightarrow> map_effect R l tbl page (walk t l tbl page) t t' (set fs) \<and>
          (if walk t l tbl page = None
           then err = FrameAllocationFailed \<and> (\<exists>p0. alloc_run alloc p fs p0 \<and> alloc p0 = Some (None, p'))
           else \<exists>f. err = PageAlreadyMapped f))"

record 'p mapper_ops =
  map_to :: "('p \<Rightarrow> (nat option \<times> 'p) rust) \<Rightarrow> nat \<Rightarrow> nat \<Rightarrow> nat \<Rightarrow> PageTableFlags \<Rightarrow> page_memory \<Rightarrow> 'p \<Rightarrow>
               ((MapToError + unit) \<times> page_memory \<times> 'p) rust"
  unmap :: "nat \<Rightarrow> nat \<Rightarrow> page_memory \<Rightarrow> (UnmapError + nat) \<times> page_memory"

locale page_mapper =
  fixes M :: "'p mapper_ops"
  assumes map_to_spec:
      "tree R t 3 root \<Longrightarrow> page_index 3 page \<in> R \<Longrightarrow> page mod SIZE_4KIB = 0 \<Longrightarrow>
       frame mod SIZE_4KIB = 0 \<Longrightarrow> frame < PHYS_LIMIT \<Longrightarrow> pf_present fl \<Longrightarrow> \<not> pf_huge_page fl \<Longrightarrow>
       alloc_safe alloc (tables R t 3 root) p \<Longrightarrow>
       \<exists>r t' p' fs. map_to M alloc root page frame fl t p = Some (r, t', p') \<and>
         map_outcome R 3 root page \<lparr> pe_addr = frame, pe_flags = fl \<rparr> alloc t p fs r t' p'"
    and unmap_spec:
      "tree R t 3 root \<Longrightarrow> page_index 3 page \<in> R \<Longrightarrow> page mod SIZE_4KIB = 0 \<Longrightarrow>
       case translate t root page of
         None \<Rightarrow> \<exists>err. unmap M root page t = (Inl err, t)
       | Some e \<Rightarrow> \<exists>t'. unmap M root page t = (Inr (pe_addr e), t') \<and> map_effect R 3 root page None t t' {}"

section \<open>An implementation of the contract\<close>

definition table_flags :: "PageTableFlags \<Rightarrow> PageTableFlags" where
  "table_flags fl = no_flags \<lparr> pf_present := True, pf_writable := pf_writable fl, pf_user_accessible := pf_user_accessible fl \<rparr>"

definition add_table_flags :: "PageTableFlags \<Rightarrow> PageTableFlags \<Rightarrow> PageTableFlags" where
  "add_table_flags fl old =
     old \<lparr> pf_writable := pf_writable old \<or> pf_writable fl,
           pf_user_accessible := pf_user_accessible old \<or> pf_user_accessible fl \<rparr>"

primrec map_walk ::
    "('p \<Rightarrow> (nat option \<times> 'p) rust) \<Rightarrow> nat \<Rightarrow> nat \<Rightarrow> PageTableFlags \<Rightarrow> nat \<Rightarrow> nat \<Rightarrow> page_memory \<Rightarrow> 'p \<Rightarrow>
     ((MapToError + unit) \<times> page_memory \<times> 'p) rust" where
  "map_walk alloc page frame fl 0 tbl t p =
     (if t tbl (page_index 0 page) = unused_entry
      then Some (Inr (), set_entry t tbl (page_index 0 page) \<lparr> pe_addr = frame, pe_flags = fl \<rparr>, p)
      else Some (Inl (PageAlreadyMapped (pe_addr (t tbl (page_index 0 page)))), t, p))"
| "map_walk alloc page frame fl (Suc l) tbl t p =
     (let i = page_index (Suc l) page; e = t tbl i in
      if e = unused_entry then
        do { (r, p1) \<leftarrow> alloc p;
             case r of
               None \<Rightarrow> Some (Inl FrameAllocationFailed, t, p1)
             | Some f \<Rightarrow> map_walk alloc page frame fl l f
                 ((set_entry t tbl i \<lparr> pe_addr = f, pe_flags = table_flags fl \<rparr>)(f := PageTable_new)) p1 }
      else if pf_huge_page (pe_flags e) then Some (Inl ParentEntryHugePage, t, p)
      else map_walk alloc page frame fl l (pe_addr e)
             (set_entry t tbl i (e \<lparr> pe_flags := add_table_flags fl (pe_flags e) \<rparr>)) p)"

primrec unmap_walk :: "nat \<Rightarrow> nat \<Rightarrow> nat \<Rightarrow> page_memory \<Rightarrow> (UnmapError + nat) \<times> page_memory" where
  "unmap_walk page 0 tbl t =
     (if entry_present (t tbl (page_index 0 page))
      then (Inr (pe_addr (t tbl (page_index 0 page))), set_entry t tbl (page_index 0 page) unused_entry)
      else (Inl PageNotMapped, t))"
| "unmap_walk page (Suc l) tbl t =
     (let e = t tbl (page_index (Suc l) page) in
      if \<not> entry_present e then (Inl PageNotMapped, t)
      else if pf_huge_page (pe_flags e) then (Inl UnmapParentEntryHugePage, t)
      else unmap_walk page l (pe_addr e) t)"

definition walk_mapper :: "'p mapper_ops" where
  "walk_mapper =
     \<lparr> map_to = (\<lambda>alloc root page frame fl t p. map_walk alloc page frame fl 3 root t p),
       unmap = (\<lambda>root page t. unmap_walk page 3 root t) \<rparr>"

lemma walk_low: "page_low l b = page_low l a \<Longrightarrow> walk t l tbl b = walk t l tbl a"
proof (induction l arbitrary: tbl)
  case (Suc l)
  then show ?case using page_low_Suc [of l b a] by simp
qed (simp add: page_low_0)

lemma map_effect_refl: "tree R t l tbl \<Longrightarrow> map_effect R l tbl a (walk t l tbl a) t t {}"
proof (unfold map_effect_def, intro conjI allI impI)
  fix b
  show "walk t l tbl b = (if page_low l b = page_low l a then walk t l tbl a else walk t l tbl b)"
    using walk_low [of l b a t tbl] by presburger
qed simp_all

lemma effect_leaf:
  assumes "tree R t 0 tbl" "e = unused_entry \<or> entry_present e"
  shows "map_effect R 0 tbl a (if entry_present e then Some e else None) t (set_entry t tbl (page_index 0 a) e) {}"
  using assms unfolding map_effect_def by (simp add: page_low_0 slots_def) blast

text \<open>An edit below one entry is an edit of the table above it.\<close>

lemma effect_step:
  assumes tr: "tree R t (Suc l) tbl" and l: "l < 3"
    and i: "i = page_index (Suc l) a" "i \<in> slots R (Suc l)"
    and t1: "s tbl = (t tbl)(i := e)" "links e"
    and eff: "map_effect R l (pe_addr e) a new s t' fs"
    and C: "C = tables R s l (pe_addr e) \<union> fs" "tbl \<notin> C"
      "C = (if links (t tbl i) then tables R t l (pe_addr (t tbl i)) else {}) \<union> fs'"
    and fs': "fs' \<inter> tables R t (Suc l) tbl = {}"
    and fr: "\<And>g. g \<noteq> tbl \<Longrightarrow> g \<notin> C \<Longrightarrow> s g = t g"
    and w: "\<And>b. walk s l (pe_addr e) b = (if links (t tbl i) then walk t l (pe_addr (t tbl i)) b else None)"
  shows "map_effect R (Suc l) tbl a new t t' fs'"
proof -
  have E: "tree R t' l (pe_addr e)" "tables R t' l (pe_addr e) = C"
      "\<And>g. g \<notin> C \<Longrightarrow> t' g = s g"
      "\<And>b. walk t' l (pe_addr e) b = (if page_low l b = page_low l a then new else walk s l (pe_addr e) b)"
    using eff l by (auto simp: map_effect_def C(1) page_index_slots)
  have tb: "t' tbl = (t tbl)(i := e)" using E(3) [OF C(2)] t1(1) by simp
  have f: "t' g = t g" if "g \<noteq> tbl" "g \<notin> C" for g using E(3) fr that by simp
  have sep: "tables R t l (pe_addr (t tbl j)) \<inter> C = {}"
    if "j \<in> slots R (Suc l)" "j \<noteq> i" "links (t tbl j)" for j
  proof -
    have "tables R t l (pe_addr (t tbl j)) \<inter> fs' = {}"
      using fs' tables_link [OF that(1), of t tbl] that(3) by blast
    moreover have "tables R t l (pe_addr (t tbl j)) \<inter> tables R t l (pe_addr (t tbl i)) = {}" if "links (t tbl i)"
      using conjunct2 [OF tr [unfolded tree.simps]] \<open>j \<in> slots R (Suc l)\<close> \<open>j \<noteq> i\<close> \<open>links (t tbl j)\<close> i(2) that by blast
    ultimately show ?thesis by (simp add: C(3) Int_Un_distrib)
  qed
  note rc = replace_child [OF tr i(2) tb t1(2) E(1), unfolded E(2), OF C(2) sep f]
  have T: "tree R t' (Suc l) tbl"
    and S: "tables R t' (Suc l) tbl = insert tbl (C \<union>
           (\<Union>j\<in>{j \<in> slots R (Suc l). j \<noteq> i \<and> links (t tbl j)}. tables R t l (pe_addr (t tbl j))))"
    by (rule rc; assumption)+
  have S': "tables R t' (Suc l) tbl = tables R t (Suc l) tbl \<union> fs'"
    unfolding S C(3) using i(2) by (cases "links (t tbl i)") auto
  have W: "walk t' (Suc l) tbl b = (if page_low (Suc l) b = page_low (Suc l) a then new else walk t (Suc l) tbl b)"
    if b: "page_index (Suc l) b \<in> slots R (Suc l)" for b
  proof (cases "page_index (Suc l) b = i")
    case True
    then show ?thesis using tb t1(2) E(4) w page_low_Suc [of l b a] i(1) by simp
  next
    case False
    have "walk t' l (pe_addr (t tbl j)) b = walk t l (pe_addr (t tbl j)) b"
      if "j = page_index (Suc l) b" "links (t tbl j)" for j
    proof (rule walk_frame [where R = R])
      have j: "j \<in> slots R (Suc l)" "j \<noteq> i" using that b False by auto
      moreover have "t tbl j \<noteq> unused_entry" using that(2) by auto
      ultimately have "tbl \<notin> tables R t l (pe_addr (t tbl j))" using conjunct1 [OF tr [unfolded tree.simps]] by blast
      with sep [OF j that(2)] show "\<forall>g\<in>tables R t l (pe_addr (t tbl j)). t' g = t g" by (intro ballI f) auto
    qed (use l in \<open>simp_all add: page_index_slots\<close>)
    then show ?thesis using False tb page_low_Suc [of l b a] i(1) by simp
  qed
  show ?thesis unfolding map_effect_def
  proof (intro conjI allI impI)
    fix g assume "g \<notin> tables R t (Suc l) tbl \<union> fs'"
    then show "t' g = t g" unfolding S' [symmetric] S by (intro f) auto
  next
    fix j assume "j \<notin> slots R (Suc l)"
    then show "t' tbl j = t tbl j" using tb i(2) by auto
  qed (rule T, rule S', rule W)
qed

lemma outcome_step:
  assumes o: "map_outcome R l (pe_addr e) a new alloc s p1 fs r t' p'"
    and run: "\<And>q. alloc_run alloc p1 fs q \<Longrightarrow> alloc_run alloc p fs' q"
    and len: "length fs' + walk_depth t (Suc l) tbl a \<le> Suc (length fs + walk_depth s l (pe_addr e) a)"
    and w: "walk s l (pe_addr e) a = walk t (Suc l) tbl a"
    and eff: "\<And>n. map_effect R l (pe_addr e) a n s t' (set fs) \<Longrightarrow> map_effect R (Suc l) tbl a n t t' (set fs')"
  shows "map_outcome R (Suc l) tbl a new alloc t p fs' r t' p'"
  using o run len eff unfolding map_outcome_def w by (cases r) (auto split: if_splits)

lemma alloc_safe_run:
  "alloc_safe alloc U p \<Longrightarrow> alloc_run alloc p fs p' \<Longrightarrow> alloc p' \<noteq> panic \<and> distinct fs \<and> set fs \<inter> U = {}"
  by (simp add: alloc_safe_def)

lemma alloc_safe_frame:
  assumes "alloc_safe alloc U p" "alloc p = Some (Some f, p1)"
  shows "f \<notin> U" "alloc_safe alloc (insert f U) p1"
proof -
  show "f \<notin> U" using alloc_safe_run [OF assms(1) alloc_run.frame [where alloc = alloc, OF assms(2) alloc_run.no_call]] by simp
  show "alloc_safe alloc (insert f U) p1" unfolding alloc_safe_def
  proof (intro allI impI)
    fix fs p' assume "alloc_run alloc p1 fs p'"
    from alloc_safe_run [OF assms(1) alloc_run.frame [where alloc = alloc, OF assms(2) this]]
    show "alloc p' \<noteq> panic \<and> distinct fs \<and> set fs \<inter> insert f U = {}" by auto
  qed
qed

lemma alloc_safe_mono: "alloc_safe alloc U p \<Longrightarrow> V \<subseteq> U \<Longrightarrow> alloc_safe alloc V p"
  unfolding alloc_safe_def by blast

lemma map_walk_spec:
  "tree R t l tbl \<Longrightarrow> l \<le> 3 \<Longrightarrow> page_index l page \<in> slots R l \<Longrightarrow> pf_present fl \<Longrightarrow>
   alloc_safe alloc (tables R t l tbl) p \<Longrightarrow>
   \<exists>r t' p' fs. map_walk alloc page frame fl l tbl t p = Some (r, t', p') \<and>
     map_outcome R l tbl page \<lparr> pe_addr = frame, pe_flags = fl \<rparr> alloc t p fs r t' p'"
proof (induction l arbitrary: t tbl p)
  case 0
  let ?e = "\<lparr> pe_addr = frame, pe_flags = fl \<rparr>"
  have fl: "entry_present ?e" using 0 by (simp add: entry_present_def)
  have "t tbl (page_index 0 page) = unused_entry \<or> entry_present (t tbl (page_index 0 page))"
    using 0(1,3) by simp
  then show ?case
    using effect_leaf [OF 0(1), of ?e page] map_effect_refl [OF 0(1), of page] fl
    by (auto simp: map_outcome_def intro!: exI [of _ "[]"] intro: alloc_run.no_call simp del: tree.simps tables.simps)
next
  case (Suc l)
  let ?i = "page_index (Suc l) page"
  have l: "l < 3" "l \<le> 3" "page_index l page \<in> slots R l" using Suc.prems(2) by (auto simp: page_index_slots)
  note tr = Suc.prems(1) and i = Suc.prems(3)
  show ?case
  proof (cases "t tbl ?i = unused_entry")
    case True
    obtain r0 p1 where a: "alloc p = Some (r0, p1)"
      using alloc_safe_run [OF Suc.prems(5) alloc_run.no_call] by (cases "alloc p") auto
    show ?thesis
    proof (cases r0)
      case None
      have "alloc_run alloc p [] p1" using a None by (auto intro: alloc_run.intros)
      then show ?thesis
        using True a None map_effect_refl [OF tr, of page] alloc_run.no_call [of alloc p]
        by (auto simp: map_outcome_def simp del: tree.simps tables.simps intro!: exI [of _ "[]"] exI [of _ p])
    next
      case (Some f)
      let ?e = "\<lparr> pe_addr = f, pe_flags = table_flags fl \<rparr>"
      let ?t1 = "(set_entry t tbl ?i ?e)(f := PageTable_new)"
      have f: "f \<notin> tables R t (Suc l) tbl" "alloc_safe alloc (insert f (tables R t (Suc l) tbl)) p1"
        using alloc_safe_frame [OF Suc.prems(5)] a Some by auto
      have ne: "f \<noteq> tbl" using f(1) by auto
      have t1: "?t1 f = PageTable_new" "?t1 tbl = (t tbl)(?i := ?e)" "links ?e" "pe_addr ?e = f"
        using ne by (simp_all add: links_def entry_present_def table_flags_def no_flags_def)
      have ft: "tables R ?t1 l f = {f}" "tree R ?t1 l f" "\<And>b. walk ?t1 l f b = None"
        by (rule fresh_table, rule t1(1))+
      have safe: "alloc_safe alloc (tables R ?t1 l f) p1" unfolding ft(1) by (rule alloc_safe_mono [OF f(2)]) simp
      obtain r t' p' fs where m: "map_walk alloc page frame fl l f ?t1 p1 = Some (r, t', p')"
          "map_outcome R l f page \<lparr> pe_addr = frame, pe_flags = fl \<rparr> alloc ?t1 p1 fs r t' p'"
        using Suc.IH [OF ft(2) l(2,3) Suc.prems(4) safe] by blast
      have s: "set fs \<inter> insert f (tables R t (Suc l) tbl) = {}"
        using alloc_safe_run [OF f(2)] m(2) by (auto simp: map_outcome_def simp del: tables.simps)
      have "map_outcome R (Suc l) tbl page \<lparr> pe_addr = frame, pe_flags = fl \<rparr> alloc t p (f # fs) r t' p'"
      proof (rule outcome_step [where e = ?e and s = ?t1])
        show "map_outcome R l (pe_addr ?e) page \<lparr> pe_addr = frame, pe_flags = fl \<rparr> alloc ?t1 p1 fs r t' p'"
          using m(2) by simp
        show "alloc_run alloc p1 fs q \<Longrightarrow> alloc_run alloc p (f # fs) q" for q
          using a Some by (auto intro: alloc_run.frame)
        show "length (f # fs) + walk_depth t (Suc l) tbl page \<le> Suc (length fs + walk_depth ?t1 l (pe_addr ?e) page)" using True by simp
        show "walk ?t1 l (pe_addr ?e) page = walk t (Suc l) tbl page" using True ft(3) t1(4) by simp
        fix n assume "map_effect R l (pe_addr ?e) page n ?t1 t' (set fs)"
        then show "map_effect R (Suc l) tbl page n t t' (set (f # fs))"
          by (rule effect_step [where C = "insert f (set fs)" and s = ?t1 and t = t, OF tr l(1) refl i t1(2,3)])
            (use s f(1) ft ne t1(4) True in \<open>auto simp del: tables.simps\<close>)
      qed
      then show ?thesis using m(1) True a Some by (auto simp: Let_def)
    qed
  next
    case False
    let ?c = "pe_addr (t tbl ?i)"
    let ?e = "(t tbl ?i) \<lparr> pe_flags := add_table_flags fl (pe_flags (t tbl ?i)) \<rparr>"
    let ?t1 = "set_entry t tbl ?i ?e"
    have c: "links (t tbl ?i)" "tree R t l ?c" "tbl \<notin> tables R t l ?c"
      using conjunct1 [OF tr [unfolded tree.simps]] i False by auto
    have t1: "?t1 tbl = (t tbl)(?i := ?e)" "links ?e" "pe_addr ?e = ?c" "\<not> pf_huge_page (pe_flags (t tbl ?i))"
      using c(1) by (simp_all add: links_def entry_present_def add_table_flags_def)
    have same: "\<forall>g\<in>tables R t l ?c. ?t1 g = t g" using c(3) by (metis set_entry_other)
    note fr = tables_frame [OF same] tree_frame [OF same]
    have safe: "alloc_safe alloc (tables R ?t1 l ?c) p"
      using alloc_safe_mono [OF Suc.prems(5)] tables_link [where t = t and tbl = tbl, OF i c(1)] fr(1) by simp
    obtain r t' p' fs where m: "map_walk alloc page frame fl l ?c ?t1 p = Some (r, t', p')"
        "map_outcome R l ?c page \<lparr> pe_addr = frame, pe_flags = fl \<rparr> alloc ?t1 p fs r t' p'"
      using Suc.IH [OF _ l(2,3) Suc.prems(4) safe] fr(2) c(2) by blast
    have s: "set fs \<inter> tables R t (Suc l) tbl = {}"
      using alloc_safe_run [OF Suc.prems(5)] m(2) by (auto simp: map_outcome_def simp del: tables.simps)
    have wk: "walk ?t1 l ?c b = walk t l ?c b" for b
      using walk_frame [OF same page_index_slots l(2)] l(1) by simp
    have "map_outcome R (Suc l) tbl page \<lparr> pe_addr = frame, pe_flags = fl \<rparr> alloc t p fs r t' p'"
    proof (rule outcome_step [where e = ?e and s = ?t1])
      show "map_outcome R l (pe_addr ?e) page \<lparr> pe_addr = frame, pe_flags = fl \<rparr> alloc ?t1 p fs r t' p'"
        using m(2) by simp
      show "alloc_run alloc p fs q \<Longrightarrow> alloc_run alloc p fs q" for q .
      show "length fs + walk_depth t (Suc l) tbl page \<le> Suc (length fs + walk_depth ?t1 l (pe_addr ?e) page)"
        using walk_depth_frame [OF same page_index_slots l(2)] l(1) by simp
      show "walk ?t1 l (pe_addr ?e) page = walk t (Suc l) tbl page" using c(1) wk by simp
      fix n assume "map_effect R l (pe_addr ?e) page n ?t1 t' (set fs)"
      then show "map_effect R (Suc l) tbl page n t t' (set fs)"
        by (rule effect_step [where C = "tables R t l ?c \<union> set fs" and s = ?t1 and t = t, OF tr l(1) refl i t1(1,2)])
          (use s c fr(1) wk in \<open>auto simp del: tables.simps\<close>)
    qed
    then show ?thesis using m(1) False t1(4) by (auto simp: Let_def)
  qed
qed

lemma unmap_walk_spec:
  "tree R t l tbl \<Longrightarrow> l \<le> 3 \<Longrightarrow> page_index l page \<in> slots R l \<Longrightarrow>
   case walk t l tbl page of
     None \<Rightarrow> \<exists>err. unmap_walk page l tbl t = (Inl err, t)
   | Some e \<Rightarrow> \<exists>t'. unmap_walk page l tbl t = (Inr (pe_addr e), t') \<and> map_effect R l tbl page None t t' {}"
proof (induction l arbitrary: tbl)
  case 0
  then show ?case using effect_leaf [OF 0(1), of unused_entry page] by (simp del: tree.simps)
next
  case (Suc l)
  let ?e = "t tbl (page_index (Suc l) page)"
  have l: "l < 3" "l \<le> 3" "page_index l page \<in> slots R l" using Suc.prems(2) by (auto simp: page_index_slots)
  note tr = Suc.prems(1) and i = Suc.prems(3)
  show ?case
  proof (cases "links ?e")
    case True
    then have ne: "?e \<noteq> unused_entry" by auto
    have c: "tree R t l (pe_addr ?e)" "tbl \<notin> tables R t l (pe_addr ?e)"
      using conjunct1 [OF tr [unfolded tree.simps]] i ne by auto
    have "map_effect R (Suc l) tbl page None t t' {}" if "map_effect R l (pe_addr ?e) page None t t' {}" for t'
      by (rule effect_step [where C = "tables R t l (pe_addr ?e)" and s = t and t = t and e = ?e, OF tr l(1) refl i _ True that])
        (use True c(2) in \<open>auto simp del: tables.simps\<close>)
    then show ?thesis using Suc.IH [OF c(1) l(2,3)] True
      by (cases "walk t l (pe_addr ?e) page") (auto simp: links_def Let_def)
  next
    case False
    then show ?thesis by (auto simp: links_def Let_def)
  qed
qed

interpretation tables: page_mapper "walk_mapper :: 'p mapper_ops"
proof
  fix R t root page frame and fl :: PageTableFlags and alloc :: "'p \<Rightarrow> (nat option \<times> 'p) rust" and p
  assume "tree R t 3 root" "page_index 3 page \<in> R" "pf_present fl" "alloc_safe alloc (tables R t 3 root) p"
  then show "\<exists>r t' p' fs. map_to walk_mapper alloc root page frame fl t p = Some (r, t', p') \<and>
      map_outcome R 3 root page \<lparr> pe_addr = frame, pe_flags = fl \<rparr> alloc t p fs r t' p'"
    using map_walk_spec [of R t 3 root page fl alloc p frame] by (simp add: walk_mapper_def slots_def)
next
  fix R t root page
  assume "tree R t 3 root" "page_index 3 page \<in> R"
  then show "case translate t root page of
      None \<Rightarrow> \<exists>err. unmap (walk_mapper :: 'p mapper_ops) root page t = (Inl err, t)
    | Some e \<Rightarrow> \<exists>t'. unmap (walk_mapper :: 'p mapper_ops) root page t = (Inr (pe_addr e), t') \<and>
        map_effect R 3 root page None t t' {}"
    using unmap_walk_spec [of R t 3 root page] by (simp add: walk_mapper_def slots_def translate_def split: option.splits)
qed

section \<open>Canonical addresses\<close>

lemma user_page_index: "a < 2 ^ 47 \<Longrightarrow> page_index 3 a \<in> user_slots"
  by (simp add: page_index_def user_slots_def SIZE_4KIB_def)

lemma page_low_inj:
  assumes "page_low 3 a = page_low 3 b" "a < 2 ^ 47" "b < 2 ^ 47" "a mod SIZE_4KIB = 0" "b mod SIZE_4KIB = 0"
  shows "a = b"
proof -
  have "x div SIZE_4KIB mod 512 ^ Suc 3 = x div SIZE_4KIB" if "x < 2 ^ 47" for x
    using that by (intro mod_less) (simp add: SIZE_4KIB_def)
  then have "a div SIZE_4KIB = b div SIZE_4KIB" using assms(1-3) by (simp add: page_low_def)
  then show ?thesis using assms(4,5) by (metis div_mult_mod_eq)
qed

text \<open>What an edit of one half of one root means for the translations of all roots.\<close>

lemma effect_translate:
  "map_effect R 3 root a new t t' fs \<Longrightarrow> page_index 3 b \<in> R \<Longrightarrow>
   translate t' root b = (if page_low 3 b = page_low 3 a then new else translate t root b)"
  by (simp add: map_effect_def slots_def translate_def)

lemma effect_other_root:
  assumes "map_effect R 3 root a new t t' fs" "tables Q t 3 other \<inter> (tables R t 3 root \<union> fs) = {}"
  shows "tables Q t' 3 other = tables Q t 3 other" "tree Q t' 3 other = tree Q t 3 other"
    and "page_index 3 b \<in> Q \<Longrightarrow> translate t' other b = translate t other b"
proof -
  have f: "\<forall>g\<in>tables Q t 3 other. t' g = t g" using assms unfolding map_effect_def by blast
  show "tables Q t' 3 other = tables Q t 3 other" "tree Q t' 3 other = tree Q t 3 other"
    using tables_frame [OF f] tree_frame [OF f] by auto
  show "translate t' other b = translate t other b" if "page_index 3 b \<in> Q"
    using walk_frame [OF f, of b] that by (simp add: translate_def slots_def)
qed

end
