(* ===== verification/User_Mappings.thy ===== *)
theory User_Mappings
  imports Virtual_Memory Page_Tables
begin

text \<open>
  The steps the kernel takes to map and unmap pages of user tasks: the code that
  \<^verbatim>\<open>syscall_handlers/memory.rs\<close>, \<^verbatim>\<open>shared_buf.rs\<close> and the program loader share. The
  state \<open>Mmu\<close> is what the lock on \<^verbatim>\<open>physical_memory\<close> and the mapper give access to: the
  types of the frames, the page tables and the bytes of the frames. The mapper is the external code
  of \<open>Page_Tables\<close>. Flushing a translation from the TLB has no effect on this state.

  \<open>spaces_ok\<close> is the isolation of the user address spaces with the given roots: the
  tables of each form a tree, no two share a table, and a frame for private use is mapped once.
\<close>

section \<open>State\<close>

record 'm Mmu =
  mu_pm :: "'m PhysicalMemory"
  mu_tables :: page_memory
  mu_bytes :: "nat \<Rightarrow> 8 word"

section \<open>Steps\<close>

text \<open>The mapper of the address space with root \<open>cr3\<close>: the frame of its root table, reached
  through the higher-half mapping at \<open>hhdm\<close>.\<close>

definition open_mapper :: "x86_ops \<Rightarrow> nat \<Rightarrow> nat \<Rightarrow> nat rust" where
  "open_mapper X hhdm cr3 =
     do { p \<leftarrow> phys_addr_new X cr3;
          let l4_frame = frame_containing_address X p;
          v \<leftarrow> add_u64 hhdm l4_frame;
          _ \<leftarrow> virt_addr_new X v;
          _ \<leftarrow> virt_addr_new X hhdm;
          Some l4_frame }"

text \<open>The page \<open>i\<close> of a range that starts at \<open>start_vaddr\<close>.\<close>

definition page_of_range :: "x86_ops \<Rightarrow> nat \<Rightarrow> nat \<Rightarrow> nat rust" where
  "page_of_range X start_vaddr i =
     do { b \<leftarrow> mul_u64 i SIZE_4KIB;
          a \<leftarrow> add_u64 start_vaddr b;
          vaddr \<leftarrow> virt_addr_new X a;
          Some (page_containing_address X vaddr) }"

definition zero_frame :: "x86_ops \<Rightarrow> nat \<Rightarrow> nat \<Rightarrow> 'm Mmu \<Rightarrow> 'm Mmu rust" where
  "zero_frame X hhdm frame u =
     do { _ \<leftarrow> phys_offset_mapped X hhdm frame;
          Some (u \<lparr> mu_bytes := (\<lambda>a. if in_frame frame a then 0 else mu_bytes u a) \<rparr>) }"

definition map_user_page ::
    "x86_ops \<Rightarrow> ('m, MemoryType) nodit_map_ops \<Rightarrow> 'm PhysicalMemoryFrameAllocator mapper_ops \<Rightarrow> nat \<Rightarrow> nat \<Rightarrow> nat \<Rightarrow>
     PageTableFlags \<Rightarrow> 'm Mmu \<Rightarrow> ((MapToError + unit) \<times> 'm Mmu) rust" where
  "map_user_page X N M root page frame fl u =
     do { (r, t, fa) \<leftarrow> map_to M (allocate_frame_4kib X N) root page frame fl (mu_tables u)
                         (get_user_mode_frame_allocator (mu_pm u));
          Some (r, u \<lparr> mu_pm := fa_physical_memory fa, mu_tables := t \<rparr>) }"

text \<open>Unmapping one page, and freeing its frame when a type to free it as is given. An error of
  either step is ignored.\<close>

definition unmap_page ::
    "('m, MemoryType) nodit_map_ops \<Rightarrow> 'm PhysicalMemoryFrameAllocator mapper_ops \<Rightarrow> MemoryType option \<Rightarrow> nat \<Rightarrow> nat \<Rightarrow>
     'm Mmu \<Rightarrow> 'm Mmu rust" where
  "unmap_page N M free_as root page u =
     (case unmap M root page (mu_tables u) of
        (Inl _, t) \<Rightarrow> Some (u \<lparr> mu_tables := t \<rparr>)
      | (Inr frame, t) \<Rightarrow>
          (case free_as of
             None \<Rightarrow> Some (u \<lparr> mu_tables := t \<rparr>)
           | Some memory_type \<Rightarrow>
               do { (_, pm) \<leftarrow> free_frame N (mu_pm u) frame memory_type;
                    Some (u \<lparr> mu_pm := pm, mu_tables := t \<rparr>) }))"

definition unmap_pages ::
    "x86_ops \<Rightarrow> ('m, MemoryType) nodit_map_ops \<Rightarrow> 'm PhysicalMemoryFrameAllocator mapper_ops \<Rightarrow> MemoryType option \<Rightarrow> nat \<Rightarrow>
     nat \<Rightarrow> nat \<Rightarrow> 'm Mmu \<Rightarrow> 'm Mmu rust" where
  "unmap_pages X N M free_as root start_vaddr count =
     fold_rust (\<lambda>j u. do { page \<leftarrow> page_of_range X start_vaddr j; unmap_page N M free_as root page u }) [0..<count]"

section \<open>Frames and their types\<close>

definition frame_has :: "('m, MemoryType) nodit_map_ops \<Rightarrow> 'm PhysicalMemory \<Rightarrow> nat \<Rightarrow> MemoryType \<Rightarrow> bool" where
  "frame_has N pm f t \<longleftrightarrow> f mod SIZE_4KIB = 0 \<and> (\<forall>a. in_frame f a \<longrightarrow> type_at N pm a = Some t)"

definition retyped_frames ::
    "('m, MemoryType) nodit_map_ops \<Rightarrow> 'm PhysicalMemory \<Rightarrow> nat set \<Rightarrow> MemoryType \<Rightarrow> 'm PhysicalMemory \<Rightarrow> bool" where
  "retyped_frames N pm F t pm' \<longleftrightarrow>
     (\<forall>a. type_at N pm' a = (if \<exists>f\<in>F. in_frame f a then Some t else type_at N pm a))"

lemma in_frame_start [simp]: "in_frame f f"
  by (simp add: in_frame_def)

lemma in_frame_div:
  assumes "f mod SIZE_4KIB = 0"
  shows "in_frame f a \<longleftrightarrow> a div SIZE_4KIB * SIZE_4KIB = f"
proof -
  obtain k where f: "f = k * SIZE_4KIB" using assms by (metis mod_0_imp_dvd dvd_def mult.commute)
  have "in_frame f a \<longleftrightarrow> a div SIZE_4KIB = k"
    unfolding f in_frame_def by (auto intro!: div_nat_eqI simp: algebra_simps div_times_less_eq_dividend)
      (metis SIZE_4KIB_pos add.commute dividend_less_div_times mult.commute)
  then show ?thesis by (simp add: f SIZE_4KIB_def)
qed

lemma frames_disjoint:
  "f mod SIZE_4KIB = 0 \<Longrightarrow> g mod SIZE_4KIB = 0 \<Longrightarrow> in_frame f a \<Longrightarrow> in_frame g a \<Longrightarrow> f = g"
  by (simp add: in_frame_div)

lemma frame_has_type_at: "frame_has N pm f t \<Longrightarrow> type_at N pm f = Some t"
  using in_frame_start [of f] unfolding frame_has_def by blast

lemma frame_has_unique: "frame_has N pm f t \<Longrightarrow> frame_has N pm f t' \<Longrightarrow> t = t'"
  using frame_has_type_at [of N pm f t] frame_has_type_at [of N pm f t'] by simp

lemma frame_has_aligned: "frame_has N pm f t \<Longrightarrow> f mod SIZE_4KIB = 0"
  by (simp add: frame_has_def)

lemma available_has: "frame_available N pm f \<Longrightarrow> frame_has N pm f Usable"
  by (auto simp: frame_available_def frame_has_def in_frame_def)

lemma retyped_frames_empty [simp]: "retyped_frames N pm {} t pm"
  by (simp add: retyped_frames_def)

lemma retyped_one: "retyped N pm f t pm' \<longleftrightarrow> retyped_frames N pm {f} t pm'"
  by (simp add: retyped_def retyped_frames_def)

lemma retyped_frames_Un:
  "retyped_frames N pm F t pm1 \<Longrightarrow> retyped_frames N pm1 G t pm2 \<Longrightarrow> retyped_frames N pm (F \<union> G) t pm2"
  unfolding retyped_frames_def by auto

text \<open>Retyping some frames leaves the type of every other frame.\<close>

lemma retyped_has:
  assumes "retyped_frames N pm F t pm'" "\<forall>f\<in>F. f mod SIZE_4KIB = 0"
  shows "frame_has N pm' g t' \<longleftrightarrow> (if g \<in> F then g mod SIZE_4KIB = 0 \<and> t' = t else frame_has N pm g t')"
proof (cases "g \<in> F")
  case True
  then have "\<forall>a. in_frame g a \<longrightarrow> type_at N pm' a = Some t" using assms(1) by (auto simp: retyped_frames_def)
  then have "frame_has N pm' g t \<longleftrightarrow> g mod SIZE_4KIB = 0" by (simp add: frame_has_def)
  then show ?thesis using True frame_has_unique [of N pm' g t t'] frame_has_aligned [of N pm' g t'] by auto
next
  case False
  have "type_at N pm' a = type_at N pm a" if "g mod SIZE_4KIB = 0" "in_frame g a" for a
  proof -
    have "\<not> in_frame f a" if "f \<in> F" for f
      using frames_disjoint [of f g a] assms(2) that False \<open>g mod SIZE_4KIB = 0\<close> \<open>in_frame g a\<close> by metis
    then show ?thesis using assms(1) by (simp add: retyped_frames_def)
  qed
  then have "frame_has N pm' g t' \<longleftrightarrow> frame_has N pm g t'" unfolding frame_has_def by (metis (no_types))
  then show ?thesis using False by simp
qed

text \<open>Allocation takes the lowest available frame, so exactly that frame stops being available.\<close>

definition available_frames :: "('m, MemoryType) nodit_map_ops \<Rightarrow> 'm PhysicalMemory \<Rightarrow> nat set" where
  "available_frames N pm = {f. frame_available N pm f}"

lemma available_after_alloc:
  assumes "frame_available N pm f" "\<forall>g. frame_available N pm g \<longrightarrow> f \<le> g" "retyped N pm f t pm'" "t \<noteq> Usable"
  shows "available_frames N pm' = available_frames N pm - {f}"
proof -
  have ty: "type_at N pm' a = Some Usable \<longleftrightarrow> type_at N pm a = Some Usable \<and> \<not> in_frame f a" for a
    using assms(3,4) by (simp add: retyped_def)
  have "\<not> in_frame f a" if "frame_available N pm g" "g \<noteq> f" "g \<le> a" for g a
  proof
    assume "in_frame f a"
    moreover have "f \<le> g" using assms(2) that(1) by blast
    ultimately have "in_frame f g" using that(3) by (simp add: in_frame_def)
    then show False using frames_disjoint [of f g g] assms(1) that by (simp add: frame_available_def)
  qed
  moreover have "\<not> frame_available N pm' f"
    unfolding frame_available_def ty using in_frame_start [of f] by (metis le_add1 order_refl)
  ultimately show ?thesis unfolding available_frames_def
    by (auto simp: frame_available_def ty)
qed

section \<open>Isolation of the user address spaces\<close>

definition USER_LIMIT :: nat where
  "USER_LIMIT = 2 ^ 47"

definition mapped :: "nat set \<Rightarrow> page_memory \<Rightarrow> nat \<Rightarrow> nat \<Rightarrow> PageTableEntry \<Rightarrow> bool" where
  "mapped roots t r a e \<longleftrightarrow> r \<in> roots \<and> a < USER_LIMIT \<and> translate t r a = Some e"

definition user_tables :: "page_memory \<Rightarrow> nat \<Rightarrow> nat set" where
  "user_tables t r = tables user_slots t 3 r"

definition user_typed :: "('m, MemoryType) nodit_map_ops \<Rightarrow> 'm PhysicalMemory \<Rightarrow> nat \<Rightarrow> bool" where
  "user_typed N pm f \<longleftrightarrow> frame_has N pm f UsedByUserMode \<or> frame_has N pm f SharedBuffer"

definition spaces_ok :: "('m, MemoryType) nodit_map_ops \<Rightarrow> nat set \<Rightarrow> 'm PhysicalMemory \<Rightarrow> page_memory \<Rightarrow> bool" where
  "spaces_ok N roots pm t \<longleftrightarrow>
     (\<forall>r\<in>roots. tree user_slots t 3 r) \<and>
     (\<forall>r\<in>roots. \<forall>r'\<in>roots. r \<noteq> r' \<longrightarrow> user_tables t r \<inter> user_tables t r' = {}) \<and>
     (\<forall>r\<in>roots. \<forall>f\<in>user_tables t r. frame_has N pm f UsedByUserMode) \<and>
     (\<forall>r a e. mapped roots t r a e \<longrightarrow> user_typed N pm (pe_addr e) \<and> (\<forall>r'\<in>roots. pe_addr e \<notin> user_tables t r')) \<and>
     (\<forall>r a e r' a' e'. mapped roots t r a e \<longrightarrow> mapped roots t r' a' e' \<longrightarrow> pe_addr e = pe_addr e' \<longrightarrow>
        frame_has N pm (pe_addr e) UsedByUserMode \<longrightarrow> r = r' \<and> page_low 3 a = page_low 3 a')"

lemma spaces_tree: "spaces_ok N roots pm t \<Longrightarrow> r \<in> roots \<Longrightarrow> tree user_slots t 3 r"
  unfolding spaces_ok_def by blast

lemma spaces_tables: "spaces_ok N roots pm t \<Longrightarrow> r \<in> roots \<Longrightarrow> f \<in> user_tables t r \<Longrightarrow> frame_has N pm f UsedByUserMode"
  unfolding spaces_ok_def by blast

lemma spaces_mapped:
  "spaces_ok N roots pm t \<Longrightarrow> mapped roots t r a e \<Longrightarrow> user_typed N pm (pe_addr e)"
  "spaces_ok N roots pm t \<Longrightarrow> mapped roots t r a e \<Longrightarrow> r' \<in> roots \<Longrightarrow> pe_addr e \<notin> user_tables t r'"
  unfolding spaces_ok_def by blast+

lemma spaces_private:
  "spaces_ok N roots pm t \<Longrightarrow> mapped roots t r a e \<Longrightarrow> mapped roots t r' a' e' \<Longrightarrow> pe_addr e = pe_addr e' \<Longrightarrow>
   frame_has N pm (pe_addr e) UsedByUserMode \<Longrightarrow> r = r' \<and> page_low 3 a = page_low 3 a'"
  unfolding spaces_ok_def by blast

lemma page_low_in_frame:
  assumes "page < USER_LIMIT" "page mod SIZE_4KIB = 0" "a < USER_LIMIT"
  shows "page_low 3 a = page_low 3 page \<longleftrightarrow> in_frame page a"
proof -
  have "x div SIZE_4KIB mod 512 ^ Suc 3 = x div SIZE_4KIB" if "x < USER_LIMIT" for x
    using that by (intro mod_less) (simp add: SIZE_4KIB_def USER_LIMIT_def)
  then have "page_low 3 a = page_low 3 page \<longleftrightarrow> a div SIZE_4KIB = page div SIZE_4KIB"
    using assms by (simp add: page_low_def)
  also have "\<dots> \<longleftrightarrow> a div SIZE_4KIB * SIZE_4KIB = page div SIZE_4KIB * SIZE_4KIB" by (simp add: SIZE_4KIB_def)
  also have "page div SIZE_4KIB * SIZE_4KIB = page" using assms(2) by (metis add.right_neutral div_mult_mod_eq)
  finally show ?thesis using in_frame_div [OF assms(2)] by simp
qed

lemma user_limit_slot: "a < USER_LIMIT \<Longrightarrow> page_index 3 a \<in> user_slots"
  using user_page_index by (simp add: USER_LIMIT_def)

text \<open>Which translations an edit of one space changes.\<close>

lemma effect_mapped:
  assumes ok: "spaces_ok N roots pm t" and root: "root \<in> roots"
    and eff: "map_effect user_slots 3 root page new t t' fs"
    and page: "page < USER_LIMIT" "page mod SIZE_4KIB = 0"
    and fs: "\<forall>r\<in>roots. fs \<inter> user_tables t r = {}"
  shows "r \<in> roots \<Longrightarrow> a < USER_LIMIT \<Longrightarrow>
           translate t' r a = (if r = root \<and> in_frame page a then new else translate t r a)"
    and "r \<in> roots \<Longrightarrow> user_tables t' r = (if r = root then user_tables t root \<union> fs else user_tables t r)"
    and "r \<in> roots \<Longrightarrow> tree user_slots t' 3 r"
proof -
  have o: "tables user_slots t 3 r \<inter> (tables user_slots t 3 root \<union> fs) = {}" if "r \<in> roots" "r \<noteq> root" for r
    using ok root fs that unfolding spaces_ok_def user_tables_def by blast
  note other = effect_other_root [OF eff o]
  show "translate t' r a = (if r = root \<and> in_frame page a then new else translate t r a)"
    if "r \<in> roots" "a < USER_LIMIT" for r a
    using effect_translate [OF eff user_limit_slot [OF that(2)]] page_low_in_frame [OF page that(2)]
      other(3) [OF that(1) _ user_limit_slot [OF that(2)]]
    by (cases "r = root") simp_all
  show "user_tables t' r = (if r = root then user_tables t root \<union> fs else user_tables t r)" if "r \<in> roots" for r
    using eff other(1) [OF that] by (cases "r = root") (simp_all add: user_tables_def map_effect_def)
  show "tree user_slots t' 3 r" if "r \<in> roots" for r
    using eff other(2) [OF that] ok that unfolding spaces_ok_def map_effect_def by (cases "r = root") auto
qed

lemma effect_spaces:
  assumes ok: "spaces_ok N roots pm t" and root: "root \<in> roots"
    and eff: "map_effect user_slots 3 root page new t t' fs"
    and page: "page < USER_LIMIT" "page mod SIZE_4KIB = 0"
    and fs: "\<forall>r\<in>roots. fs \<inter> user_tables t r = {}" "\<forall>f\<in>fs. frame_has N pm' f UsedByUserMode"
      "\<forall>r a e. mapped roots t r a e \<longrightarrow> pe_addr e \<notin> fs"
    and tb: "\<forall>r\<in>roots. \<forall>f\<in>user_tables t r. frame_has N pm' f UsedByUserMode"
    and same: "\<And>r a e ty. mapped roots t r a e \<Longrightarrow> \<not> (r = root \<and> in_frame page a) \<Longrightarrow>
        frame_has N pm' (pe_addr e) ty \<longleftrightarrow> frame_has N pm (pe_addr e) ty"
    and new: "\<And>e. new = Some e \<Longrightarrow> user_typed N pm' (pe_addr e) \<and> pe_addr e \<notin> fs \<and>
        (\<forall>r\<in>roots. pe_addr e \<notin> user_tables t r) \<and>
        (frame_has N pm' (pe_addr e) UsedByUserMode \<longrightarrow> (\<forall>r a e'. mapped roots t r a e' \<longrightarrow> pe_addr e' = pe_addr e \<longrightarrow>
           r = root \<and> in_frame page a))"
  shows "spaces_ok N roots pm' t'"
proof -
  note E = effect_mapped [OF ok root eff page fs(1)]
  have m: "if r = root \<and> in_frame page a then new = Some e else mapped roots t r a e" if "mapped roots t' r a e" for r a e
    using that E(1) [of r a] by (auto simp: mapped_def split: if_splits)
  have u: "mapped roots t' r a e \<Longrightarrow> r \<in> roots \<and> a < USER_LIMIT" for r a e by (simp add: mapped_def)
  have O: "\<And>r a e. mapped roots t r a e \<Longrightarrow> user_typed N pm (pe_addr e) \<and> (\<forall>r'\<in>roots. pe_addr e \<notin> user_tables t r')"
      "\<And>r a e r' a' e'. mapped roots t r a e \<Longrightarrow> mapped roots t r' a' e' \<Longrightarrow> pe_addr e = pe_addr e' \<Longrightarrow>
        frame_has N pm (pe_addr e) UsedByUserMode \<Longrightarrow> r = r' \<and> page_low 3 a = page_low 3 a'"
    using ok unfolding spaces_ok_def by blast+
  have T: "f \<in> user_tables t r \<or> r = root \<and> f \<in> fs" if "r \<in> roots" "f \<in> user_tables t' r" for r f
    using E(2) [OF that(1)] that(2) by (simp split: if_splits)
  have 1: "user_typed N pm' (pe_addr e) \<and> (\<forall>r'\<in>roots. pe_addr e \<notin> user_tables t' r')" if "mapped roots t' r a e" for r a e
  proof (cases "r = root \<and> in_frame page a")
    case True
    then have "new = Some e" using m [OF that] by simp
    from new [OF this] show ?thesis using T by blast
  next
    case False
    then have M: "mapped roots t r a e" using m [OF that] by (simp split: if_splits)
    have "user_typed N pm' (pe_addr e)" using O(1) [OF M] same [OF M False] unfolding user_typed_def by blast
    moreover have "\<forall>r'\<in>roots. pe_addr e \<notin> user_tables t' r'" using O(1) [OF M] fs(3) M T by blast
    ultimately show ?thesis by blast
  qed
  have 2: "r = r' \<and> page_low 3 a = page_low 3 a'"
    if M: "mapped roots t' r a e" "mapped roots t' r' a' e'" and f: "pe_addr e = pe_addr e'" "frame_has N pm' (pe_addr e) UsedByUserMode"
    for r a e r' a' e'
  proof -
    have p: "page_low 3 a = page_low 3 page \<longleftrightarrow> in_frame page a" "page_low 3 a' = page_low 3 page \<longleftrightarrow> in_frame page a'"
      using page_low_in_frame [OF page] u [OF M(1)] u [OF M(2)] by auto
    consider "r = root \<and> in_frame page a" "r' = root \<and> in_frame page a'"
      | "r = root \<and> in_frame page a" "\<not> (r' = root \<and> in_frame page a')" | "\<not> (r = root \<and> in_frame page a)" "r' = root \<and> in_frame page a'"
      | "\<not> (r = root \<and> in_frame page a)" "\<not> (r' = root \<and> in_frame page a')" by blast
    then show ?thesis
    proof cases
      case 1
      then show ?thesis using p by simp
    next
      case 2
      then have "new = Some e" "mapped roots t r' a' e'" using m [OF M(1)] m [OF M(2)] by auto
      then show ?thesis using new [of e] f 2 by auto
    next
      case 3
      then have "new = Some e'" "mapped roots t r a e" using m [OF M(1)] m [OF M(2)] by auto
      then show ?thesis using new [of e'] f 3 by auto
    next
      case 4
      then have "mapped roots t r a e" "mapped roots t r' a' e'" using m [OF M(1)] m [OF M(2)] by (simp_all split: if_splits)
      then show ?thesis using O(2) same [of r a e] 4 f by blast
    qed
  qed
  have "user_tables t' r \<inter> user_tables t' r' = {}" if "r \<in> roots" "r' \<in> roots" "r \<noteq> r'" for r r'
  proof -
    have d: "user_tables t r \<inter> user_tables t r' = {}" using ok that unfolding spaces_ok_def by blast
    show ?thesis using T [OF that(1)] T [OF that(2)] d that fs(1) by blast
  qed
  moreover have "frame_has N pm' f UsedByUserMode" if "r \<in> roots" "f \<in> user_tables t' r" for r f
    using T [OF that] that(1) fs(2) tb by blast
  ultimately show ?thesis unfolding spaces_ok_def using E(3) 1 2 by blast
qed

section \<open>What the steps do\<close>

text \<open>The result of mapping or unmapping the page \<open>page\<close> of one space, for all spaces: the entry of
  that page becomes \<open>new\<close>, the space gains the tables \<open>fs\<close>.\<close>

definition page_changed ::
    "nat set \<Rightarrow> nat \<Rightarrow> nat \<Rightarrow> PageTableEntry option \<Rightarrow> page_memory \<Rightarrow> nat set \<Rightarrow> page_memory \<Rightarrow> bool" where
  "page_changed roots root page new t fs t' \<longleftrightarrow>
     (\<forall>r\<in>roots. \<forall>a<USER_LIMIT. translate t' r a = (if r = root \<and> in_frame page a then new else translate t r a)) \<and>
     (\<forall>r\<in>roots. user_tables t' r = (if r = root then user_tables t root \<union> fs else user_tables t r))"

text \<open>The frames that unmapping a range frees, and the condition that nothing else maps them.\<close>

definition freed_frames ::
    "('m, MemoryType) nodit_map_ops \<Rightarrow> 'm PhysicalMemory \<Rightarrow> page_memory \<Rightarrow> MemoryType option \<Rightarrow> nat \<Rightarrow> nat \<Rightarrow> nat \<Rightarrow> nat set" where
  "freed_frames N pm t free_as root start n =
     {f. \<exists>ty a e. free_as = Some ty \<and> start \<le> a \<and> a < start + n * SIZE_4KIB \<and> translate t root a = Some e \<and>
        pe_addr e = f \<and> frame_has N pm f ty}"

definition sole_user ::
    "('m, MemoryType) nodit_map_ops \<Rightarrow> nat set \<Rightarrow> 'm PhysicalMemory \<Rightarrow> page_memory \<Rightarrow> MemoryType option \<Rightarrow> nat \<Rightarrow> nat \<Rightarrow> nat \<Rightarrow> bool" where
  "sole_user N roots pm t free_as root start n \<longleftrightarrow>
     (\<forall>ty a e r a' e'. free_as = Some ty \<longrightarrow> start \<le> a \<longrightarrow> a < start + n * SIZE_4KIB \<longrightarrow> mapped roots t root a e \<longrightarrow>
        frame_has N pm (pe_addr e) ty \<longrightarrow> mapped roots t r a' e' \<longrightarrow> pe_addr e' = pe_addr e \<longrightarrow>
        r = root \<and> page_low 3 a' = page_low 3 a)"

definition range_unmapped :: "nat set \<Rightarrow> nat \<Rightarrow> nat \<Rightarrow> nat \<Rightarrow> page_memory \<Rightarrow> page_memory \<Rightarrow> bool" where
  "range_unmapped roots root start n t t' \<longleftrightarrow>
     (\<forall>r\<in>roots. \<forall>a<USER_LIMIT. translate t' r a =
        (if r = root \<and> start \<le> a \<and> a < start + n * SIZE_4KIB then None else translate t r a)) \<and>
     (\<forall>r\<in>roots. user_tables t' r = user_tables t r)"

lemma private_sole_user: "spaces_ok N roots pm t \<Longrightarrow> sole_user N roots pm t (Some UsedByUserMode) root start n"
  unfolding sole_user_def by (metis option.inject spaces_private)

lemma none_sole_user: "sole_user N roots pm t None root start n"
  by (simp add: sole_user_def)

text \<open>The bootloader's higher-half offset leaves room for all of physical memory.\<close>

definition hhdm_fits :: "('m, MemoryType) nodit_map_ops \<Rightarrow> nat \<Rightarrow> 'm PhysicalMemory \<Rightarrow> bool" where
  "hhdm_fits N hhdm pm \<longleftrightarrow> HIGHER_HALF_START \<le> hhdm \<and> hhdm < U64_LIMIT \<and> (\<forall>a. type_at N pm a \<noteq> None \<longrightarrow> hhdm + a < U64_LIMIT)"

locale user_mappings = frame_memory N wfN X + page_mapper M
  for N :: "('m, MemoryType) nodit_map_ops" and wfN :: "'m \<Rightarrow> bool" and X :: x86_ops
    and M :: "'m PhysicalMemoryFrameAllocator mapper_ops"
begin

lemma frame_has_bound: "pm_ok N wfN pm \<Longrightarrow> frame_has N pm f t \<Longrightarrow> f + SIZE_4KIB \<le> PHYS_LIMIT \<and> f < PHYS_LIMIT"
proof -
  assume a: "pm_ok N wfN pm" "frame_has N pm f t"
  have "in_frame f (f + (SIZE_4KIB - 1))" by (simp add: in_frame_def SIZE_4KIB_def)
  then have "type_at N pm (f + (SIZE_4KIB - 1)) \<noteq> None" using a(2) unfolding frame_has_def by blast
  then show ?thesis using a(1) by (auto simp: pm_ok_def SIZE_4KIB_def)
qed

lemma alloc_run_frames:
  assumes "alloc_run (allocate_frame_4kib X N) fa fs fa'"
    and "pm_ok N wfN (fa_physical_memory fa)" "fa_memory_type fa \<noteq> Usable"
  shows "pm_ok N wfN (fa_physical_memory fa') \<and> fa_memory_type fa' = fa_memory_type fa \<and> distinct fs \<and>
    (\<forall>f\<in>set fs. frame_has N (fa_physical_memory fa) f Usable) \<and>
    retyped_frames N (fa_physical_memory fa) (set fs) (fa_memory_type fa) (fa_physical_memory fa') \<and>
    available_frames N (fa_physical_memory fa') = available_frames N (fa_physical_memory fa) - set fs"
  using assms
proof (induction rule: alloc_run.induct)
  case (frame p f p1 fs p2)
  let ?pm = "fa_physical_memory p" and ?pm1 = "fa_physical_memory p1" and ?pm2 = "fa_physical_memory p2" and ?t = "fa_memory_type p"
  have a: "frame_available N ?pm f" "pm_ok N wfN ?pm1" "retyped N ?pm f ?t ?pm1" "fa_memory_type p1 = ?t"
      "\<forall>g. frame_available N ?pm g \<longrightarrow> f \<le> g"
    using frame(1) allocate_frame_spec [OF frame(4), of ?t] by (auto simp: allocate_frame_4kib_def)
  have I: "pm_ok N wfN ?pm2" "fa_memory_type p2 = ?t" "distinct fs" "\<forall>g\<in>set fs. frame_has N ?pm1 g Usable"
      "retyped_frames N ?pm1 (set fs) ?t ?pm2" "available_frames N ?pm2 = available_frames N ?pm1 - set fs"
    using frame.IH a(2,4) frame(5) by auto
  have rt: "retyped_frames N ?pm {f} ?t ?pm1" "\<forall>g\<in>{f}. g mod SIZE_4KIB = 0"
    using a(1,3) by (simp_all add: retyped_one frame_available_def)
  have "g \<noteq> f \<and> frame_has N ?pm g Usable" if "g \<in> set fs" for g
    using I(4) that retyped_has [OF rt, of g Usable] frame(5) by (auto split: if_splits)
  moreover have "retyped_frames N ?pm (set (f # fs)) ?t ?pm2"
    using retyped_frames_Un [OF rt(1) I(5)] by simp
  moreover have "available_frames N ?pm2 = available_frames N ?pm - set (f # fs)"
    using I(6) available_after_alloc [OF a(1,5,3) frame(5)] by auto
  ultimately show ?case using I(1,2,3) available_has [OF a(1)] by auto
next
  case (exhausted p p1 fs p2)
  then show ?case using allocate_frame_spec [OF exhausted(4), of "fa_memory_type p"] by (auto simp: allocate_frame_4kib_def)
qed simp

lemma user_alloc_safe:
  assumes "pm_ok N wfN pm" "\<forall>f\<in>U. frame_has N pm f UsedByUserMode"
  shows "alloc_safe (allocate_frame_4kib X N) U (get_user_mode_frame_allocator pm)"
  unfolding alloc_safe_def
proof (intro allI impI)
  fix fs fa' assume "alloc_run (allocate_frame_4kib X N) (get_user_mode_frame_allocator pm) fs fa'"
  from alloc_run_frames [OF this] assms(1)
  have "pm_ok N wfN (fa_physical_memory fa')" "distinct fs" "\<forall>f\<in>set fs. frame_has N pm f Usable"
    by (simp_all add: get_user_mode_frame_allocator_def)
  moreover from this(1) have "allocate_frame_4kib X N fa' \<noteq> panic"
    using allocate_frame_spec [of "fa_physical_memory fa'" "fa_memory_type fa'"] by (auto simp: allocate_frame_4kib_def)
  moreover have "set fs \<inter> U = {}" using assms(2) calculation(3) frame_has_unique by fastforce
  ultimately show "allocate_frame_4kib X N fa' \<noteq> panic \<and> distinct fs \<and> set fs \<inter> U = {}" by blast
qed

lemma map_user_page_ok:
  assumes ok: "spaces_ok N roots (mu_pm u) (mu_tables u)" "pm_ok N wfN (mu_pm u)" and root: "root \<in> roots"
    and page: "page < USER_LIMIT" "page mod SIZE_4KIB = 0" and fl: "pf_present fl" "\<not> pf_huge_page fl"
    and frame: "user_typed N (mu_pm u) frame" "\<forall>r\<in>roots. frame \<notin> user_tables (mu_tables u) r"
      "frame_has N (mu_pm u) frame UsedByUserMode \<longrightarrow> (\<forall>r a e. mapped roots (mu_tables u) r a e \<longrightarrow> pe_addr e \<noteq> frame)"
  obtains r pm t fs where "map_user_page X N M root page frame fl u = Some (r, u \<lparr> mu_pm := pm, mu_tables := t \<rparr>)"
    "spaces_ok N roots pm t" "pm_ok N wfN pm" "retyped_frames N (mu_pm u) fs UsedByUserMode pm"
    "\<forall>f\<in>fs. frame_has N (mu_pm u) f Usable"
    "available_frames N pm = available_frames N (mu_pm u) - fs" "finite fs" "card fs \<le> 3"
    "case r of
       Inr _ \<Rightarrow> translate (mu_tables u) root page = None \<and>
         page_changed roots root page (Some \<lparr> pe_addr = frame, pe_flags = fl \<rparr>) (mu_tables u) fs t
     | Inl _ \<Rightarrow> page_changed roots root page (translate (mu_tables u) root page) (mu_tables u) fs t \<and>
         (translate (mu_tables u) root page = None \<longrightarrow> (\<forall>g. \<not> frame_available N pm g))"
proof -
  let ?t = "mu_tables u" and ?pm = "mu_pm u" and ?al = "allocate_frame_4kib X N"
  let ?fa = "get_user_mode_frame_allocator ?pm" and ?e = "\<lparr> pe_addr = frame, pe_flags = fl \<rparr>"
  have tr: "tree user_slots ?t 3 root" and tb: "\<forall>r\<in>roots. \<forall>f\<in>user_tables ?t r. frame_has N ?pm f UsedByUserMode"
    using ok(1) root unfolding spaces_ok_def by blast+
  have safe: "alloc_safe ?al (tables user_slots ?t 3 root) ?fa"
    by (rule user_alloc_safe [OF ok(2)]) (use tb root in \<open>simp add: user_tables_def\<close>)
  have fr: "frame mod SIZE_4KIB = 0" "frame < PHYS_LIMIT"
    using frame(1) frame_has_bound [OF ok(2)] frame_has_aligned unfolding user_typed_def by blast+
  obtain r t fa' fsl where m: "map_to M ?al root page frame fl ?t ?fa = Some (r, t, fa')"
      "map_outcome user_slots 3 root page ?e ?al ?t ?fa fsl r t fa'"
    using map_to_spec [OF tr user_limit_slot [OF page(1)] page(2) fr fl safe] by blast
  let ?pm' = "fa_physical_memory fa'" and ?fs = "set fsl"
  have run: "alloc_run ?al ?fa fsl fa'" using m(2) by (simp add: map_outcome_def)
  have R: "pm_ok N wfN ?pm'" "\<forall>f\<in>?fs. frame_has N ?pm f Usable" "retyped_frames N ?pm ?fs UsedByUserMode ?pm'"
      "available_frames N ?pm' = available_frames N ?pm - ?fs"
    using alloc_run_frames [OF run] ok(2) by (simp_all add: get_user_mode_frame_allocator_def)
  have C: "finite ?fs" "card ?fs \<le> 3"
    using m(2) card_length [of fsl] by (simp_all add: map_outcome_def)
  have al: "\<forall>f\<in>?fs. f mod SIZE_4KIB = 0" using R(2) frame_has_aligned by blast
  have keep: "frame_has N ?pm' g ty \<longleftrightarrow> frame_has N ?pm g ty" if "g \<notin> ?fs" for g ty
    using retyped_has [OF R(3) al, of g ty] that by simp
  have nfs: "g \<notin> ?fs" if "frame_has N ?pm g UsedByUserMode \<or> user_typed N ?pm g" for g
    using that R(2) frame_has_unique unfolding user_typed_def by blast
  have new_ty: "\<forall>f\<in>?fs. frame_has N ?pm' f UsedByUserMode" using retyped_has [OF R(3) al] al by simp
  have mt: "user_typed N ?pm (pe_addr e)" if "mapped roots ?t q a e" for q a e
    using ok(1) that unfolding spaces_ok_def by blast
  have d: "\<forall>r\<in>roots. ?fs \<inter> user_tables ?t r = {}" using tb nfs by blast
  have tb': "\<forall>r\<in>roots. \<forall>f\<in>user_tables ?t r. frame_has N ?pm' f UsedByUserMode" using tb keep nfs by blast
  have nm: "\<forall>q a e. mapped roots ?t q a e \<longrightarrow> pe_addr e \<notin> ?fs" using mt nfs by blast
  have same: "frame_has N ?pm' (pe_addr e) ty \<longleftrightarrow> frame_has N ?pm (pe_addr e) ty" if "mapped roots ?t q a e" for q a e ty
    using keep nm that by blast
  let ?new = "case r of Inr _ \<Rightarrow> Some ?e | Inl _ \<Rightarrow> translate ?t root page"
  have eff: "map_effect user_slots 3 root page ?new ?t t ?fs"
    using m(2) by (cases r) (simp_all add: map_outcome_def translate_def)
  have ft: "frame \<notin> ?fs" using nfs frame(1) by blast
  have "spaces_ok N roots ?pm' t"
  proof (rule effect_spaces [OF ok(1) root eff page d new_ty nm tb' same])
    fix e assume e: "?new = Some e"
    show "user_typed N ?pm' (pe_addr e) \<and> pe_addr e \<notin> ?fs \<and> (\<forall>r\<in>roots. pe_addr e \<notin> user_tables ?t r) \<and>
      (frame_has N ?pm' (pe_addr e) UsedByUserMode \<longrightarrow> (\<forall>r a e'. mapped roots ?t r a e' \<longrightarrow> pe_addr e' = pe_addr e \<longrightarrow>
        r = root \<and> in_frame page a))"
    proof (cases r)
      case (Inr x)
      then have "pe_addr e = frame" using e by auto
      then show ?thesis using frame ft keep [OF ft] unfolding user_typed_def by metis
    next
      case (Inl x)
      then have M: "mapped roots ?t root page e" using e root page(1) by (simp add: mapped_def)
      have U: "mapped roots ?t q a e' \<Longrightarrow> pe_addr e' = pe_addr e \<Longrightarrow> frame_has N ?pm (pe_addr e) UsedByUserMode \<Longrightarrow>
          q = root \<and> in_frame page a" for q a e'
        using ok(1) M page_low_in_frame [OF page, of a] unfolding spaces_ok_def mapped_def by metis
      have "user_typed N ?pm' (pe_addr e)" using mt [OF M] same [OF M] unfolding user_typed_def by simp
      moreover have "\<forall>r\<in>roots. pe_addr e \<notin> user_tables ?t r" using ok(1) M unfolding spaces_ok_def by blast
      ultimately show ?thesis using nm M U same [OF M] by blast
    qed
  qed simp_all
  moreover have "page_changed roots root page ?new ?t ?fs t"
    unfolding page_changed_def using effect_mapped(1,2) [OF ok(1) root eff page d] by blast
  moreover have "\<forall>g. \<not> frame_available N ?pm' g" if h: "r = Inl err" "translate ?t root page = None" for err
  proof -
    obtain fa0 where f0: "alloc_run ?al ?fa fsl fa0" "?al fa0 = Some (None, fa')"
      using m(2) h by (auto simp: map_outcome_def translate_def)
    have "pm_ok N wfN (fa_physical_memory fa0)"
      using alloc_run_frames [OF f0(1)] ok(2) by (simp add: get_user_mode_frame_allocator_def)
    from allocate_frame_spec [OF this, of "fa_memory_type fa0"] f0(2)
    show ?thesis by (auto simp: allocate_frame_4kib_def)
  qed
  moreover have "translate ?t root page = None" if "r = Inr x" for x
    using m(2) that by (simp add: map_outcome_def translate_def)
  moreover have "map_user_page X N M root page frame fl u = Some (r, u \<lparr> mu_pm := ?pm', mu_tables := t \<rparr>)"
    by (simp add: map_user_page_def m(1))
  ultimately show ?thesis using R C by (intro that [of r t ?pm' ?fs]) (auto split: sum.splits)
qed

lemma unmap_page_ok:
  assumes ok: "spaces_ok N roots (mu_pm u) (mu_tables u)" "pm_ok N wfN (mu_pm u)" and root: "root \<in> roots"
    and page: "page < USER_LIMIT" "page mod SIZE_4KIB = 0"
    and sole: "sole_user N roots (mu_pm u) (mu_tables u) free_as root page 1"
  obtains pm t where "unmap_page N M free_as root page u = Some (u \<lparr> mu_pm := pm, mu_tables := t \<rparr>)"
    "spaces_ok N roots pm t" "pm_ok N wfN pm" "page_changed roots root page None (mu_tables u) {} t"
    "retyped_frames N (mu_pm u) (freed_frames N (mu_pm u) (mu_tables u) free_as root page 1) Usable pm"
proof -
  let ?t = "mu_tables u" and ?pm = "mu_pm u"
  let ?F = "freed_frames N ?pm ?t free_as root page 1"
  have tr: "tree user_slots ?t 3 root" using ok(1) root unfolding spaces_ok_def by blast
  have same_page: "translate ?t root a = translate ?t root page" if "page \<le> a" "a < page + 1 * SIZE_4KIB" for a
  proof -
    have "a div SIZE_4KIB = page div SIZE_4KIB"
      using that page(2) in_frame_div [OF page(2), of a] in_frame_div [OF page(2), of page] by (simp add: in_frame_def SIZE_4KIB_def)
    then show ?thesis unfolding translate_def by (intro walk_low) (simp add: page_low_def)
  qed
  have F: "?F = (case translate ?t root page of None \<Rightarrow> {} | Some e \<Rightarrow>
      {f. f = pe_addr e \<and> (\<exists>ty. free_as = Some ty \<and> frame_has N ?pm f ty)})"
  proof (rule set_eqI)
    fix f
    have "page \<le> page \<and> page < page + 1 * SIZE_4KIB" by simp
    then have "f \<in> ?F \<longleftrightarrow> (\<exists>ty e. free_as = Some ty \<and> translate ?t root page = Some e \<and> pe_addr e = f \<and> frame_has N ?pm f ty)"
      unfolding freed_frames_def mem_Collect_eq using same_page by metis
    then show "f \<in> ?F \<longleftrightarrow> f \<in> (case translate ?t root page of None \<Rightarrow> {} | Some e \<Rightarrow>
      {f. f = pe_addr e \<and> (\<exists>ty. free_as = Some ty \<and> frame_has N ?pm f ty)})"
      by (cases "translate ?t root page") auto
  qed
  show ?thesis
  proof (cases "translate ?t root page")
    case None
    then obtain err where e: "unmap M root page ?t = (Inl err, ?t)"
      using unmap_spec [OF tr user_limit_slot [OF page(1)] page(2)] by auto
    have same: "translate ?t root a = None" if "in_frame page a" for a
      using same_page [of a] that None by (simp add: in_frame_def)
    show ?thesis
    proof (rule that [of ?t ?pm])
      show "unmap_page N M free_as root page u = Some (u \<lparr> mu_pm := ?pm, mu_tables := ?t \<rparr>)" by (simp add: unmap_page_def e)
      show "page_changed roots root page None ?t {} ?t" using same by (auto simp: page_changed_def)
      show "retyped_frames N ?pm ?F Usable ?pm" unfolding F None option.case by (rule retyped_frames_empty)
    qed (rule ok)+
  next
    case (Some e)
    then obtain t where un: "unmap M root page ?t = (Inr (pe_addr e), t)" and eff: "map_effect user_slots 3 root page None ?t t {}"
      using unmap_spec [OF tr user_limit_slot [OF page(1)] page(2)] by auto
    have M: "mapped roots ?t root page e" using Some root page(1) by (simp add: mapped_def)
    have uty: "user_typed N ?pm (pe_addr e)" "\<forall>r\<in>roots. pe_addr e \<notin> user_tables ?t r"
      using ok(1) M unfolding spaces_ok_def by blast+
    have b: "pe_addr e + SIZE_4KIB \<le> PHYS_LIMIT" "pe_addr e mod SIZE_4KIB = 0"
      using uty(1) frame_has_bound [OF ok(2)] frame_has_aligned unfolding user_typed_def by blast+
    obtain pm where pm: "unmap_page N M free_as root page u = Some (u \<lparr> mu_pm := pm, mu_tables := t \<rparr>)"
      "pm_ok N wfN pm" "retyped_frames N ?pm ?F Usable pm"
    proof (cases "\<exists>ty. free_as = Some ty \<and> frame_has N ?pm (pe_addr e) ty")
      case True
      then obtain ty where ty: "free_as = Some ty" "frame_has N ?pm (pe_addr e) ty" by blast
      then obtain pm where "free_frame N ?pm (pe_addr e) ty = Some (Inr (), pm)" "pm_ok N wfN pm" "retyped N ?pm (pe_addr e) Usable pm"
        using free_frame_spec(1) [OF ok(2) b(1)] unfolding frame_has_def by blast
      moreover have "?F = {pe_addr e}" unfolding F using Some True by auto
      ultimately show ?thesis by (intro that [of pm]) (simp_all add: unmap_page_def un ty(1) retyped_one)
    next
      case False
      have "free_frame N ?pm (pe_addr e) ty \<noteq> panic \<and> (\<forall>r pm. free_frame N ?pm (pe_addr e) ty = Some (r, pm) \<longrightarrow> pm = ?pm)"
        if "free_as = Some ty" for ty
      proof -
        obtain ty' where "frame_has N ?pm (pe_addr e) ty'" using uty(1) unfolding user_typed_def by blast
        moreover from this have "ty' \<noteq> ty" using False that by blast
        ultimately show ?thesis using free_frame_spec(2) [OF ok(2) b(1), of ty' ty] unfolding frame_has_def by simp
      qed
      then have "unmap_page N M free_as root page u = Some (u \<lparr> mu_pm := ?pm, mu_tables := t \<rparr>)"
        by (cases free_as) (auto simp: unmap_page_def un)
      moreover have "?F = {}" unfolding F using Some False by auto
      ultimately show ?thesis using ok(2) by (intro that [of ?pm]) simp_all
    qed
    have al: "\<forall>f\<in>?F. f mod SIZE_4KIB = 0" unfolding F Some using b(2) by auto
    have Fe: "f = pe_addr e" if "f \<in> ?F" for f using that unfolding F Some by simp
    have keep: "frame_has N pm g ty \<longleftrightarrow> frame_has N ?pm g ty" if "g \<notin> ?F" for g ty
      using retyped_has [OF pm(3) al, of g ty] that by simp
    have "spaces_ok N roots pm t"
    proof (rule effect_spaces [OF ok(1) root eff page])
      show "\<forall>r\<in>roots. \<forall>f\<in>user_tables ?t r. frame_has N pm f UsedByUserMode"
        using spaces_tables [OF ok(1)] uty(2) keep Fe by metis
      fix r a e' ty assume m: "mapped roots ?t r a e'" and ne: "\<not> (r = root \<and> in_frame page a)"
      have "pe_addr e' \<notin> ?F"
      proof
        assume f: "pe_addr e' \<in> ?F"
        then obtain ty' where "free_as = Some ty'" "frame_has N ?pm (pe_addr e) ty'" "pe_addr e' = pe_addr e"
          unfolding F Some by auto
        then have "r = root \<and> page_low 3 a = page_low 3 page"
          using sole M m unfolding sole_user_def by (auto simp: SIZE_4KIB_def)
        then show False using ne page_low_in_frame [OF page] m by (simp add: mapped_def)
      qed
      then show "frame_has N pm (pe_addr e') ty \<longleftrightarrow> frame_has N ?pm (pe_addr e') ty" by (rule keep)
    qed simp_all
    moreover have "page_changed roots root page None ?t {} t"
      unfolding page_changed_def using effect_mapped(1,2) [OF ok(1) root eff page] by simp
    ultimately show ?thesis using pm by (intro that [of t pm])
  qed
qed

lemma page_of_range_ok:
  assumes "start mod SIZE_4KIB = 0" "start + i * SIZE_4KIB < USER_LIMIT"
  shows "page_of_range X start i = Some (start + i * SIZE_4KIB)"
proof -
  have "i * SIZE_4KIB < U64_LIMIT" "start + i * SIZE_4KIB < U64_LIMIT" "canonical (start + i * SIZE_4KIB)"
    using assms(2) by (simp_all add: USER_LIMIT_def U64_LIMIT_num canonical_def)
  moreover have "(start + i * SIZE_4KIB) mod SIZE_4KIB = 0" using assms(1) by simp
  ultimately show ?thesis by (simp add: page_of_range_def mul_u64_def add_u64_def virt_new page_containing)
qed

text \<open>One more page of the range.\<close>

lemma freed_frames_Suc:
  assumes pm1: "retyped_frames N pm (freed_frames N pm t free_as root start n) Usable pm1"
    and t1: "range_unmapped roots root start n t t1" and root: "root \<in> roots"
    and lim: "start + Suc n * SIZE_4KIB \<le> USER_LIMIT" and ne: "free_as \<noteq> Some Usable"
  shows "freed_frames N pm t free_as root start (Suc n) =
    freed_frames N pm t free_as root start n \<union> freed_frames N pm1 t1 free_as root (start + n * SIZE_4KIB) 1"
    (is "?F' = ?F \<union> ?G")
proof -
  have al: "\<forall>f\<in>?F. f mod SIZE_4KIB = 0" unfolding freed_frames_def by (auto simp: frame_has_def)
  note has = retyped_has [OF pm1 al]
  have tr: "translate t1 root a = translate t root a" if "start + n * SIZE_4KIB \<le> a" "a < start + Suc n * SIZE_4KIB" for a
  proof -
    have "a < USER_LIMIT" using lim that(2) by (rule less_le_trans [rotated])
    then show ?thesis using t1 root that(1) by (simp add: range_unmapped_def)
  qed
  have e: "start + Suc n * SIZE_4KIB = start + n * SIZE_4KIB + 1 * SIZE_4KIB" by simp
  show ?thesis
  proof (intro set_eqI iffI)
    fix f assume "f \<in> ?F'"
    then obtain ty a e where h: "free_as = Some ty" "start \<le> a" "a < start + Suc n * SIZE_4KIB" "translate t root a = Some e"
        "pe_addr e = f" "frame_has N pm f ty" unfolding freed_frames_def by blast
    show "f \<in> ?F \<union> ?G"
    proof (cases "a < start + n * SIZE_4KIB \<or> f \<in> ?F")
      case True
      then show ?thesis using h unfolding freed_frames_def by blast
    next
      case False
      then have "start + n * SIZE_4KIB \<le> a" "frame_has N pm1 f ty" using h(6) has [of f ty] by auto
      then have "f \<in> ?G" using h tr [of a] unfolding freed_frames_def e [symmetric] by auto
      then show ?thesis by blast
    qed
  next
    fix f assume "f \<in> ?F \<union> ?G"
    then consider "f \<in> ?F" | "f \<in> ?G" by blast
    then show "f \<in> ?F'"
    proof cases
      case 1
      have "a < start + n * SIZE_4KIB \<Longrightarrow> a < start + Suc n * SIZE_4KIB" for a by simp
      then show ?thesis using 1 unfolding freed_frames_def mem_Collect_eq by fast
    next
      case 2
      then obtain ty a e where h: "free_as = Some ty" "start + n * SIZE_4KIB \<le> a" "a < start + Suc n * SIZE_4KIB"
          "translate t1 root a = Some e" "pe_addr e = f" "frame_has N pm1 f ty" unfolding freed_frames_def e [symmetric] by blast
      have "frame_has N pm f ty" using has [of f ty] h(1,6) ne by (auto split: if_splits)
      moreover have "start \<le> a" "translate t root a = Some e" using h(2,4) tr [OF h(2,3)] by auto
      ultimately show ?thesis using h(1,3,5) unfolding freed_frames_def by blast
    qed
  qed
qed

lemma unmap_pages_ok:
  assumes ok: "spaces_ok N roots (mu_pm u) (mu_tables u)" "pm_ok N wfN (mu_pm u)" and root: "root \<in> roots"
    and start: "start mod SIZE_4KIB = 0" "start + n * SIZE_4KIB \<le> USER_LIMIT"
    and sole: "sole_user N roots (mu_pm u) (mu_tables u) free_as root start n" and ne: "free_as \<noteq> Some Usable"
  shows "\<exists>pm t. unmap_pages X N M free_as root start n u = Some (u \<lparr> mu_pm := pm, mu_tables := t \<rparr>) \<and>
    spaces_ok N roots pm t \<and> pm_ok N wfN pm \<and> range_unmapped roots root start n (mu_tables u) t \<and>
    retyped_frames N (mu_pm u) (freed_frames N (mu_pm u) (mu_tables u) free_as root start n) Usable pm"
  using start(2) sole
proof (induction n)
  case 0
  have "freed_frames N (mu_pm u) (mu_tables u) free_as root start 0 = {}" by (auto simp: freed_frames_def)
  then show ?case using ok by (intro exI [of _ "mu_pm u"] exI [of _ "mu_tables u"]) (auto simp: unmap_pages_def range_unmapped_def)
next
  case (Suc n)
  let ?F = "freed_frames N (mu_pm u) (mu_tables u) free_as root start n" and ?p = "start + n * SIZE_4KIB"
  have l: "start + n * SIZE_4KIB \<le> USER_LIMIT" "?p < USER_LIMIT" "?p mod SIZE_4KIB = 0"
      "?p + 1 * SIZE_4KIB = start + Suc n * SIZE_4KIB"
    using Suc.prems(1) start(1) by (simp_all add: SIZE_4KIB_def)
  have "sole_user N roots (mu_pm u) (mu_tables u) free_as root start n"
    unfolding sole_user_def
  proof (intro allI impI)
    fix ty a e r a' e'
    assume h: "free_as = Some ty" "start \<le> a" "a < start + n * SIZE_4KIB" "mapped roots (mu_tables u) root a e"
      "frame_has N (mu_pm u) (pe_addr e) ty" "mapped roots (mu_tables u) r a' e'" "pe_addr e' = pe_addr e"
    have "a < start + Suc n * SIZE_4KIB" using h(3) by simp
    then show "r = root \<and> page_low 3 a' = page_low 3 a" using Suc.prems(2) h unfolding sole_user_def by blast
  qed
  from Suc.IH [OF l(1) this] obtain pm1 t1 where
    1: "unmap_pages X N M free_as root start n u = Some (u \<lparr> mu_pm := pm1, mu_tables := t1 \<rparr>)"
      "spaces_ok N roots pm1 t1" "pm_ok N wfN pm1" "range_unmapped roots root start n (mu_tables u) t1"
      "retyped_frames N (mu_pm u) ?F Usable pm1" by blast
  let ?u1 = "u \<lparr> mu_pm := pm1, mu_tables := t1 \<rparr>"
  have al: "\<forall>f\<in>?F. f mod SIZE_4KIB = 0" unfolding freed_frames_def by (auto simp: frame_has_def)
  have sub: "mapped roots (mu_tables u) r a e" if "mapped roots t1 r a e" for r a e
    using 1(4) that unfolding range_unmapped_def mapped_def by (metis option.distinct(1))
  have sole1: "sole_user N roots pm1 t1 free_as root ?p 1"
    unfolding sole_user_def l(4)
  proof (intro allI impI)
    fix ty a e r a' e'
    assume h: "free_as = Some ty" "?p \<le> a" "a < start + Suc n * SIZE_4KIB" "mapped roots t1 root a e"
      "frame_has N pm1 (pe_addr e) ty" "mapped roots t1 r a' e'" "pe_addr e' = pe_addr e"
    have "frame_has N (mu_pm u) (pe_addr e) ty"
      using retyped_has [OF 1(5) al, of "pe_addr e" ty] h(1,5) ne by (auto split: if_splits)
    moreover have "start \<le> a" using h(2) by simp
    ultimately show "r = root \<and> page_low 3 a' = page_low 3 a"
      using Suc.prems(2) h(1,3,7) sub [OF h(4)] sub [OF h(6)] unfolding sole_user_def by blast
  qed
  have u1: "mu_pm ?u1 = pm1" "mu_tables ?u1 = t1" by simp_all
  obtain pm t where
    2: "unmap_page N M free_as root ?p ?u1 = Some (?u1 \<lparr> mu_pm := pm, mu_tables := t \<rparr>)"
      "spaces_ok N roots pm t" "pm_ok N wfN pm" "page_changed roots root ?p None t1 {} t"
      "retyped_frames N pm1 (freed_frames N pm1 t1 free_as root ?p 1) Usable pm"
    by (rule unmap_page_ok [of roots ?u1 root ?p free_as, unfolded u1, OF 1(2,3) root l(2,3) sole1], rule that)
  have "unmap_pages X N M free_as root start (Suc n) u = Some (u \<lparr> mu_pm := pm, mu_tables := t \<rparr>)"
    using 1(1) 2(1) page_of_range_ok [OF start(1) l(2)] by (simp add: unmap_pages_def fold_rust_append)
  moreover have "range_unmapped roots root start (Suc n) (mu_tables u) t"
  proof (unfold range_unmapped_def, intro conjI ballI allI impI)
    fix r a assume r: "r \<in> roots" "a < USER_LIMIT"
    have "start \<le> a \<and> a < start + Suc n * SIZE_4KIB \<longleftrightarrow> in_frame ?p a \<or> start \<le> a \<and> a < ?p" by (auto simp: in_frame_def)
    moreover have "translate t r a = (if r = root \<and> in_frame ?p a then None else translate t1 r a)"
      using 2(4) r unfolding page_changed_def by blast
    moreover have "translate t1 r a = (if r = root \<and> start \<le> a \<and> a < ?p then None else translate (mu_tables u) r a)"
      using 1(4) r unfolding range_unmapped_def by blast
    ultimately show "translate t r a = (if r = root \<and> start \<le> a \<and> a < start + Suc n * SIZE_4KIB then None else translate (mu_tables u) r a)"
      by (cases "r = root") (simp_all del: mult_Suc)
  next
    fix r assume "r \<in> roots"
    then show "user_tables t r = user_tables (mu_tables u) r" using 1(4) 2(4) root unfolding range_unmapped_def page_changed_def by simp
  qed
  moreover have "retyped_frames N (mu_pm u) (freed_frames N (mu_pm u) (mu_tables u) free_as root start (Suc n)) Usable pm"
    unfolding freed_frames_Suc [OF 1(5,4) root Suc.prems(1) ne] by (rule retyped_frames_Un [OF 1(5) 2(5)])
  ultimately show ?case using 2(2,3) by blast
qed

end

interpretation list_mappings: user_mappings list_map_ops ivls_ok x86_arith_ops walk_mapper
  by standard

end
