(* ===== verification/Fresh_Pages.thy ===== *)
theory Fresh_Pages
  imports User_Mappings
begin

text \<open>
  Mapping a run of pages to fresh, zeroed frames: the loop of \<^verbatim>\<open>sys_mmap\<close> and the one of
  \<^verbatim>\<open>create_shared_buf\<close>, with their roll-backs. The two differ in the type the frames get
  and in the second collecting the frames; \<open>fresh_pages\<close> is their common form, about which the lemmas
  are proved.
\<close>

section \<open>The loops\<close>

definition rollback_mmap ::
    "x86_ops \<Rightarrow> ('m, MemoryType) nodit_map_ops \<Rightarrow> 'm PhysicalMemoryFrameAllocator mapper_ops \<Rightarrow> nat \<Rightarrow> nat \<Rightarrow> nat \<Rightarrow>
     'm Mmu \<Rightarrow> 'm Mmu rust" where
  "rollback_mmap X N M root start_vaddr count = unmap_pages X N M (Some UsedByUserMode) root start_vaddr count"

text \<open>The loop of \<^verbatim>\<open>sys_mmap\<close>; the result says whether all pages were mapped.\<close>

primrec mmap_pages ::
    "x86_ops \<Rightarrow> ('m, MemoryType) nodit_map_ops \<Rightarrow> 'm PhysicalMemoryFrameAllocator mapper_ops \<Rightarrow> nat \<Rightarrow> nat \<Rightarrow> nat \<Rightarrow>
     PageTableFlags \<Rightarrow> nat list \<Rightarrow> 'm Mmu \<Rightarrow> (bool \<times> 'm Mmu) rust" where
  "mmap_pages X N M hhdm root start_vaddr page_flags [] u = Some (True, u)"
| "mmap_pages X N M hhdm root start_vaddr page_flags (i # is) u =
     do { page \<leftarrow> page_of_range X start_vaddr i;
          (f, pm) \<leftarrow> allocate_frame_with_type X N (mu_pm u) UsedByUserMode;
          case f of
            None \<Rightarrow> do { u1 \<leftarrow> rollback_mmap X N M root start_vaddr i (u \<lparr> mu_pm := pm \<rparr>); Some (False, u1) }
          | Some frame \<Rightarrow>
              do { u1 \<leftarrow> zero_frame X hhdm frame (u \<lparr> mu_pm := pm \<rparr>);
                   (map_result, u2) \<leftarrow> map_user_page X N M root page frame page_flags u1;
                   case map_result of
                     Inl _ \<Rightarrow>
                       do { (_, pm2) \<leftarrow> free_frame N (mu_pm u2) frame UsedByUserMode;
                            u3 \<leftarrow> rollback_mmap X N M root start_vaddr i (u2 \<lparr> mu_pm := pm2 \<rparr>);
                            Some (False, u3) }
                   | Inr _ \<Rightarrow> mmap_pages X N M hhdm root start_vaddr page_flags is u2 } }"

text \<open>\<^verbatim>\<open>rollback\<close> of \<^verbatim>\<open>shared_buf.rs\<close>.\<close>

definition rollback ::
    "x86_ops \<Rightarrow> ('m, MemoryType) nodit_map_ops \<Rightarrow> 'm PhysicalMemoryFrameAllocator mapper_ops \<Rightarrow> nat \<Rightarrow> nat \<Rightarrow> nat \<Rightarrow> bool \<Rightarrow>
     'm Mmu \<Rightarrow> 'm Mmu rust" where
  "rollback X N M root start_vaddr count free_frames =
     unmap_pages X N M (if free_frames then Some SharedBuffer else None) root start_vaddr count"

text \<open>The loop of \<^verbatim>\<open>create_shared_buf\<close>; \<open>None\<close> is the early return.\<close>

primrec create_shared_pages ::
    "x86_ops \<Rightarrow> ('m, MemoryType) nodit_map_ops \<Rightarrow> 'm PhysicalMemoryFrameAllocator mapper_ops \<Rightarrow> nat \<Rightarrow> nat \<Rightarrow> nat \<Rightarrow>
     PageTableFlags \<Rightarrow> nat list \<Rightarrow> nat list \<Rightarrow> 'm Mmu \<Rightarrow> (nat list option \<times> 'm Mmu) rust" where
  "create_shared_pages X N M hhdm root start_vaddr page_flags [] frames u = Some (Some frames, u)"
| "create_shared_pages X N M hhdm root start_vaddr page_flags (i # is) frames u =
     do { page \<leftarrow> page_of_range X start_vaddr i;
          (f, pm) \<leftarrow> allocate_frame_with_type X N (mu_pm u) SharedBuffer;
          case f of
            None \<Rightarrow> do { u1 \<leftarrow> rollback X N M root start_vaddr i True (u \<lparr> mu_pm := pm \<rparr>); Some (None, u1) }
          | Some frame \<Rightarrow>
              do { u1 \<leftarrow> zero_frame X hhdm frame (u \<lparr> mu_pm := pm \<rparr>);
                   (result, u2) \<leftarrow> map_user_page X N M root page frame page_flags u1;
                   case result of
                     Inl _ \<Rightarrow>
                       do { (_, pm2) \<leftarrow> free_frame N (mu_pm u2) frame SharedBuffer;
                            u3 \<leftarrow> rollback X N M root start_vaddr i True (u2 \<lparr> mu_pm := pm2 \<rparr>);
                            Some (None, u3) }
                   | Inr _ \<Rightarrow> create_shared_pages X N M hhdm root start_vaddr page_flags is (frames @ [frame]) u2 } }"

section \<open>Their common form\<close>

primrec fresh_pages ::
    "x86_ops \<Rightarrow> ('m, MemoryType) nodit_map_ops \<Rightarrow> 'm PhysicalMemoryFrameAllocator mapper_ops \<Rightarrow> nat \<Rightarrow> MemoryType \<Rightarrow> nat \<Rightarrow> nat \<Rightarrow>
     PageTableFlags \<Rightarrow> nat list \<Rightarrow> nat list \<Rightarrow> 'm Mmu \<Rightarrow> (nat list option \<times> 'm Mmu) rust" where
  "fresh_pages X N M hhdm ty root start fl [] frames u = Some (Some frames, u)"
| "fresh_pages X N M hhdm ty root start fl (i # is) frames u =
     do { page \<leftarrow> page_of_range X start i;
          (f, pm) \<leftarrow> allocate_frame_with_type X N (mu_pm u) ty;
          case f of
            None \<Rightarrow> do { u1 \<leftarrow> unmap_pages X N M (Some ty) root start i (u \<lparr> mu_pm := pm \<rparr>); Some (None, u1) }
          | Some frame \<Rightarrow>
              do { u1 \<leftarrow> zero_frame X hhdm frame (u \<lparr> mu_pm := pm \<rparr>);
                   (r, u2) \<leftarrow> map_user_page X N M root page frame fl u1;
                   case r of
                     Inl _ \<Rightarrow>
                       do { (_, pm2) \<leftarrow> free_frame N (mu_pm u2) frame ty;
                            u3 \<leftarrow> unmap_pages X N M (Some ty) root start i (u2 \<lparr> mu_pm := pm2 \<rparr>);
                            Some (None, u3) }
                   | Inr _ \<Rightarrow> fresh_pages X N M hhdm ty root start fl is (frames @ [frame]) u2 } }"

lemma create_shared_pages_fresh: "create_shared_pages X N M hhdm root start fl = fresh_pages X N M hhdm SharedBuffer root start fl"
proof (intro ext)
  fix "is" frames u
  show "create_shared_pages X N M hhdm root start fl is frames u = fresh_pages X N M hhdm SharedBuffer root start fl is frames u"
    by (induction "is" arbitrary: frames u) (simp_all add: rollback_def cong: option.case_cong sum.case_cong)
qed

lemma mmap_pages_fresh:
  "mmap_pages X N M hhdm root start fl is u =
     do { (r, u') \<leftarrow> fresh_pages X N M hhdm UsedByUserMode root start fl is frames u; Some (r \<noteq> None, u') }"
proof (induction "is" arbitrary: frames u)
  case (Cons i "is")
  show ?case
    by (auto simp: rollback_mmap_def split: option.splits sum.splits intro!: bind_option_cong Cons.IH [simplified])
qed simp

section \<open>A run of fresh pages\<close>

text \<open>Frames \<open>fr\<close> given the type \<open>ty\<close>, frames \<open>fs\<close> used as tables, every other address as before.\<close>

definition typed_as ::
    "('m, MemoryType) nodit_map_ops \<Rightarrow> 'm PhysicalMemory \<Rightarrow> nat set \<Rightarrow> nat set \<Rightarrow> MemoryType \<Rightarrow> 'm PhysicalMemory \<Rightarrow> bool" where
  "typed_as N pm0 fs fr ty pm \<longleftrightarrow>
     (\<forall>x. type_at N pm x = (if \<exists>f\<in>fr. in_frame f x then Some ty
        else if \<exists>f\<in>fs. in_frame f x then Some UsedByUserMode else type_at N pm0 x))"

text \<open>The state after the pages from \<open>start\<close> on have been mapped to the frames \<open>fr\<close>, relative to the
  state \<open>u0\<close> before: the frames were free, are zeroed and appear at these pages of this space only;
  bytes that were not free are as they were.\<close>

definition run_entry :: "nat \<Rightarrow> PageTableFlags \<Rightarrow> nat list \<Rightarrow> nat \<Rightarrow> PageTableEntry" where
  "run_entry start fl fr a = \<lparr> pe_addr = fr ! ((a - start) div SIZE_4KIB), pe_flags = fl \<rparr>"

definition run_mapped ::
    "nat set \<Rightarrow> nat \<Rightarrow> nat \<Rightarrow> PageTableFlags \<Rightarrow> nat list \<Rightarrow> page_memory \<Rightarrow> nat set \<Rightarrow> page_memory \<Rightarrow> bool" where
  "run_mapped roots root start fl fr t0 fs t \<longleftrightarrow>
     (\<forall>r\<in>roots. \<forall>a<USER_LIMIT. translate t r a =
        (if r = root \<and> start \<le> a \<and> a < start + length fr * SIZE_4KIB then Some (run_entry start fl fr a) else translate t0 r a)) \<and>
     (\<forall>r\<in>roots. user_tables t r = (if r = root then user_tables t0 root \<union> fs else user_tables t0 r))"

definition fresh_run ::
    "('m, MemoryType) nodit_map_ops \<Rightarrow> ('m \<Rightarrow> bool) \<Rightarrow> nat set \<Rightarrow> nat \<Rightarrow> nat \<Rightarrow> PageTableFlags \<Rightarrow> MemoryType \<Rightarrow>
     'm Mmu \<Rightarrow> nat set \<Rightarrow> nat list \<Rightarrow> 'm Mmu \<Rightarrow> bool" where
  "fresh_run N wfN roots root start fl ty u0 fs fr u \<longleftrightarrow>
     spaces_ok N roots (mu_pm u) (mu_tables u) \<and> pm_ok N wfN (mu_pm u) \<and>
     run_mapped roots root start fl fr (mu_tables u0) fs (mu_tables u) \<and>
     typed_as N (mu_pm u0) fs (set fr) ty (mu_pm u) \<and>
     (\<forall>f\<in>set fr \<union> fs. frame_has N (mu_pm u0) f Usable) \<and> distinct fr \<and> set fr \<inter> fs = {} \<and>
     (\<forall>f\<in>set fr. \<forall>x. in_frame f x \<longrightarrow> mu_bytes u x = 0) \<and>
     (\<forall>x. type_at N (mu_pm u0) x \<noteq> Some Usable \<longrightarrow> mu_bytes u x = mu_bytes u0 x)"

lemma typed_as_has:
  assumes "typed_as N pm0 fs fr ty pm" "\<forall>f\<in>fr \<union> fs. f mod SIZE_4KIB = 0" "fr \<inter> fs = {}"
  shows "frame_has N pm g t \<longleftrightarrow> (if g \<in> fr then t = ty else if g \<in> fs then t = UsedByUserMode else frame_has N pm0 g t)"
proof -
  have one: "(\<exists>f\<in>F. in_frame f a) \<longleftrightarrow> g \<in> F" if "\<forall>f\<in>F. f mod SIZE_4KIB = 0" "g mod SIZE_4KIB = 0" "in_frame g a" for F a
    using that frames_disjoint [of _ g a] by metis
  have "type_at N pm a = (if g \<in> fr then Some ty else if g \<in> fs then Some UsedByUserMode else type_at N pm0 a)"
    if "g mod SIZE_4KIB = 0" "in_frame g a" for a
    using assms(1) one [of fr a] one [of fs a] assms(2) that unfolding typed_as_def by simp
  then show ?thesis using assms(2) in_frame_start [of g] unfolding frame_has_def
    by (smt (verit) Un_iff option.inject)
qed

lemma spaces_disjoint:
  "spaces_ok N roots pm t \<Longrightarrow> r \<in> roots \<Longrightarrow> r' \<in> roots \<Longrightarrow> r \<noteq> r' \<Longrightarrow> user_tables t r \<inter> user_tables t r' = {}"
  unfolding spaces_ok_def by blast

lemma spaces_okI:
  assumes "\<And>r. r \<in> roots \<Longrightarrow> tree user_slots t 3 r"
    and "\<And>r r'. r \<in> roots \<Longrightarrow> r' \<in> roots \<Longrightarrow> r \<noteq> r' \<Longrightarrow> user_tables t r \<inter> user_tables t r' = {}"
    and "\<And>r f. r \<in> roots \<Longrightarrow> f \<in> user_tables t r \<Longrightarrow> frame_has N pm f UsedByUserMode"
    and "\<And>r a e. mapped roots t r a e \<Longrightarrow> user_typed N pm (pe_addr e)"
    and "\<And>r a e r'. mapped roots t r a e \<Longrightarrow> r' \<in> roots \<Longrightarrow> pe_addr e \<notin> user_tables t r'"
    and "\<And>r a e r' a' e'. mapped roots t r a e \<Longrightarrow> mapped roots t r' a' e' \<Longrightarrow> pe_addr e = pe_addr e' \<Longrightarrow>
      frame_has N pm (pe_addr e) UsedByUserMode \<Longrightarrow> r = r' \<and> page_low 3 a = page_low 3 a'"
  shows "spaces_ok N roots pm t"
  unfolding spaces_ok_def
  by (intro conjI ballI allI impI)
    (rule assms(1-5) assms(6) [THEN conjunct1] assms(6) [THEN conjunct2]; assumption)+

lemma typed_as_frame: "typed_as N pm0 fs fr ty pm \<Longrightarrow> retyped_frames N pm {f} ty pm' \<Longrightarrow> typed_as N pm0 fs (insert f fr) ty pm'"
  unfolding typed_as_def retyped_frames_def by simp

lemma typed_as_tables:
  assumes "typed_as N pm0 fs fr ty pm" "retyped_frames N pm fs' UsedByUserMode pm'"
    and "\<forall>f\<in>fr \<union> fs'. f mod SIZE_4KIB = 0" "fr \<inter> fs' = {}"
  shows "typed_as N pm0 (fs \<union> fs') fr ty pm'"
proof -
  have "\<not> (\<exists>g\<in>fs'. in_frame g x)" if "f \<in> fr" "in_frame f x" for f x
    using frames_disjoint [of f _ x] that assms(3,4) by (metis UnI1 UnI2 disjoint_iff)
  then show ?thesis using assms(1,2) unfolding typed_as_def retyped_frames_def by auto
qed

lemma typed_as_unframe:
  assumes "typed_as N pm0 fs (insert f fr) ty pm" "retyped_frames N pm {f} Usable pm'"
    and "\<forall>g\<in>fr \<union> fs. g mod SIZE_4KIB = 0" "f \<notin> fr \<union> fs" "frame_has N pm0 f Usable"
  shows "typed_as N pm0 fs fr ty pm'"
proof -
  have "\<not> (\<exists>g\<in>fr \<union> fs. in_frame g x) \<and> type_at N pm0 x = Some Usable" if "in_frame f x" for x
    using frames_disjoint [of f _ x] that assms(3-5) unfolding frame_has_def by metis
  then show ?thesis using assms(1,2) unfolding typed_as_def retyped_frames_def by auto
qed

text \<open>Giving another type to frames that no space uses keeps the isolation.\<close>

lemma spaces_retype:
  assumes ok: "spaces_ok N roots pm t" and rt: "retyped_frames N pm F ty pm'" "\<forall>f\<in>F. f mod SIZE_4KIB = 0"
    and un: "\<forall>r\<in>roots. F \<inter> user_tables t r = {}" "\<forall>r a e. mapped roots t r a e \<longrightarrow> pe_addr e \<notin> F"
  shows "spaces_ok N roots pm' t"
proof -
  have keep: "frame_has N pm' g t' \<longleftrightarrow> frame_has N pm g t'" if "g \<notin> F" for g t'
    using retyped_has [OF rt, of g t'] that by simp
  have m: "frame_has N pm' (pe_addr e) t' \<longleftrightarrow> frame_has N pm (pe_addr e) t'" if "mapped roots t r a e" for r a e t'
    using keep un(2) that by blast
  have "frame_has N pm' f UsedByUserMode" if "r \<in> roots" "f \<in> user_tables t r" for r f
    using keep [of f] un(1) spaces_tables [OF ok that] that by blast
  moreover have "user_typed N pm' (pe_addr e)" if "mapped roots t r a e" for r a e
    using spaces_mapped(1) [OF ok that] m [OF that] unfolding user_typed_def by simp
  moreover have "r = r' \<and> page_low 3 a = page_low 3 a'" if "mapped roots t r a e" "mapped roots t r' a' e'"
      "pe_addr e = pe_addr e'" "frame_has N pm' (pe_addr e) UsedByUserMode" for r a e r' a' e'
    using spaces_private [OF ok that(1-3)] m [OF that(1)] that(4) by blast
  ultimately show ?thesis
    using spaces_tree [OF ok] spaces_disjoint [OF ok] spaces_mapped(2) [OF ok] by (intro spaces_okI)
qed

lemma usable_not_used:
  assumes "spaces_ok N roots pm t" "frame_has N pm f Usable"
  shows "r \<in> roots \<Longrightarrow> f \<notin> user_tables t r" "mapped roots t r a e \<Longrightarrow> pe_addr e \<noteq> f"
  using spaces_tables [OF assms(1)] spaces_mapped(1) [OF assms(1)] frame_has_unique [OF assms(2)]
  unfolding user_typed_def by fastforce+

lemma hhdm_retype:
  assumes "hhdm_fits N hhdm pm" "retyped_frames N pm F ty pm'" "\<forall>f\<in>F. \<exists>t. frame_has N pm f t"
  shows "hhdm_fits N hhdm pm'"
  using assms unfolding hhdm_fits_def retyped_frames_def frame_has_def by (metis option.distinct(1))

lemma hhdm_typed_as:
  assumes "hhdm_fits N hhdm pm0" "typed_as N pm0 fs fr ty pm" "\<forall>f\<in>fr \<union> fs. frame_has N pm0 f Usable"
  shows "hhdm_fits N hhdm pm"
  using assms unfolding hhdm_fits_def typed_as_def frame_has_def by (metis UnI1 UnI2 option.distinct(1))

lemma range_index:
  assumes "start mod SIZE_4KIB = 0" "start \<le> a"
  shows "a div SIZE_4KIB = start div SIZE_4KIB + (a - start) div SIZE_4KIB"
proof -
  have "a = start div SIZE_4KIB * SIZE_4KIB + (a - start)" using assms by (metis add.right_neutral div_mult_mod_eq le_add_diff_inverse)
  then show ?thesis by (metis SIZE_4KIB_pos div_mult_self3 add.commute less_numeral_extra(3))
qed

lemma range_index_less: "start \<le> a \<Longrightarrow> a < start + n * SIZE_4KIB \<Longrightarrow> (a - start) div SIZE_4KIB < n"
  by (simp add: less_mult_imp_div_less)

text \<open>The state before the first page is a run of no pages.\<close>

lemma fresh_run_start:
  "spaces_ok N roots (mu_pm u) (mu_tables u) \<Longrightarrow> pm_ok N wfN (mu_pm u) \<Longrightarrow> fresh_run N wfN roots root start fl ty u {} [] u"
  by (auto simp: fresh_run_def run_mapped_def typed_as_def)

lemma fresh_run_has:
  assumes "fresh_run N wfN roots root start fl ty u0 fs fr u"
  shows "frame_has N (mu_pm u) g t \<longleftrightarrow>
    (if g \<in> set fr then t = ty else if g \<in> fs then t = UsedByUserMode else frame_has N (mu_pm u0) g t)"
  using assms frame_has_aligned unfolding fresh_run_def by (intro typed_as_has) blast+

lemma fresh_run_mapped:
  assumes "fresh_run N wfN roots root start fl ty u0 fs fr u" "mapped roots (mu_tables u) r a e"
  shows "r = root \<and> start \<le> a \<and> a < start + length fr * SIZE_4KIB \<and> e = run_entry start fl fr a \<or> mapped roots (mu_tables u0) r a e"
proof -
  have "translate (mu_tables u) r a = (if r = root \<and> start \<le> a \<and> a < start + length fr * SIZE_4KIB
      then Some (run_entry start fl fr a) else translate (mu_tables u0) r a)"
    using assms unfolding fresh_run_def run_mapped_def mapped_def by blast
  then show ?thesis using assms(2) unfolding mapped_def by (auto split: if_splits)
qed

context user_mappings
begin

lemma zero_frame_ok:
  assumes "hhdm_fits N hhdm (mu_pm u)" "frame_has N (mu_pm u) f t"
  shows "zero_frame X hhdm f u = Some (u \<lparr> mu_bytes := (\<lambda>a. if in_frame f a then 0 else mu_bytes u a) \<rparr>)"
proof -
  have b: "hhdm + f < U64_LIMIT" "HIGHER_HALF_START \<le> hhdm"
    using assms frame_has_type_at [OF assms(2)] unfolding hhdm_fits_def by auto
  then have "canonical (f + hhdm)" by (simp add: canonical_num HIGHER_HALF_START_def U64_LIMIT_num)
  then show ?thesis using b(1) by (simp add: zero_frame_def phys_offset_mapped_def add_u64_def virt_new add.commute)
qed

lemma fresh_rollback:
  assumes run: "fresh_run N wfN roots root start fl ty u0 fs fr u" and ok0: "spaces_ok N roots (mu_pm u0) (mu_tables u0)"
    and root: "root \<in> roots" and start: "start mod SIZE_4KIB = 0" "start + length fr * SIZE_4KIB \<le> USER_LIMIT"
    and free: "\<forall>a. start \<le> a \<and> a < start + length fr * SIZE_4KIB \<longrightarrow> translate (mu_tables u0) root a = None"
    and ty: "ty \<noteq> Usable"
  shows "\<exists>u'. unmap_pages X N M (Some ty) root start (length fr) u = Some u' \<and> fresh_run N wfN roots root start fl ty u0 fs [] u'"
proof -
  let ?n = "length fr" and ?pm = "mu_pm u" and ?t = "mu_tables u"
  have R: "spaces_ok N roots ?pm ?t" "pm_ok N wfN ?pm" "run_mapped roots root start fl fr (mu_tables u0) fs ?t"
      "typed_as N (mu_pm u0) fs (set fr) ty ?pm" "\<forall>f\<in>set fr \<union> fs. frame_has N (mu_pm u0) f Usable" "distinct fr" "set fr \<inter> fs = {}"
      "\<forall>x. type_at N (mu_pm u0) x \<noteq> Some Usable \<longrightarrow> mu_bytes u x = mu_bytes u0 x"
    using run by (simp_all add: fresh_run_def)
  have tr: "translate ?t root a = Some (run_entry start fl fr a)" "pe_addr (run_entry start fl fr a) = fr ! ((a - start) div SIZE_4KIB)"
      "(a - start) div SIZE_4KIB < ?n" if "start \<le> a" "a < start + ?n * SIZE_4KIB" for a
    using R(3) root that start(2) range_index_less [OF that] by (auto simp: run_mapped_def run_entry_def)
  have F: "freed_frames N ?pm ?t (Some ty) root start ?n = set fr"
  proof (intro set_eqI iffI)
    fix f assume "f \<in> set fr"
    then obtain j where j: "j < ?n" "f = fr ! j" by (metis in_set_conv_nth)
    let ?a = "start + j * SIZE_4KIB"
    have a: "start \<le> ?a" "?a < start + ?n * SIZE_4KIB" using j(1) by simp_all
    have "pe_addr (run_entry start fl fr ?a) = f" using tr(2) [OF a] j(2) by (simp add: SIZE_4KIB_def)
    moreover have "frame_has N ?pm f ty" using fresh_run_has [OF run, of f ty] \<open>f \<in> set fr\<close> by simp
    ultimately show "f \<in> freed_frames N ?pm ?t (Some ty) root start ?n"
      unfolding freed_frames_def using a tr(1) [OF a] by blast
  next
    fix f assume "f \<in> freed_frames N ?pm ?t (Some ty) root start ?n"
    then obtain a e where "start \<le> a" "a < start + ?n * SIZE_4KIB" "translate ?t root a = Some e" "pe_addr e = f"
      unfolding freed_frames_def by blast
    then show "f \<in> set fr" using tr [of a] by auto
  qed
  have sole: "sole_user N roots ?pm ?t (Some ty) root start ?n"
    unfolding sole_user_def
  proof (intro allI impI)
    fix ty' a e r a' e'
    assume a: "start \<le> a" "a < start + ?n * SIZE_4KIB" and m: "mapped roots ?t root a e" "mapped roots ?t r a' e'" "pe_addr e' = pe_addr e"
    have e: "pe_addr e = fr ! ((a - start) div SIZE_4KIB)" using m(1) tr(1,2) [OF a] by (simp add: mapped_def)
    then have "frame_has N (mu_pm u0) (pe_addr e) Usable" using R(5) tr(3) [OF a] by simp
    then have "\<not> mapped roots (mu_tables u0) r a' e'" using usable_not_used(2) [OF ok0] m(3) by metis
    then have r: "r = root" "start \<le> a'" "a' < start + ?n * SIZE_4KIB" "e' = run_entry start fl fr a'"
      using fresh_run_mapped [OF run m(2)] by auto
    then have "(a' - start) div SIZE_4KIB = (a - start) div SIZE_4KIB"
      using m(3) e tr(2,3) [OF a] tr(2,3) [OF r(2,3)] R(6) by (simp add: nth_eq_iff_index_eq)
    then show "r = root \<and> page_low 3 a' = page_low 3 a"
      using r(1) range_index [OF start(1) a(1)] range_index [OF start(1) r(2)] by (simp add: page_low_def)
  qed
  obtain pm t where
    U: "unmap_pages X N M (Some ty) root start ?n u = Some (u \<lparr> mu_pm := pm, mu_tables := t \<rparr>)" "spaces_ok N roots pm t" "pm_ok N wfN pm"
      "range_unmapped roots root start ?n ?t t" "retyped_frames N ?pm (set fr) Usable pm"
    using unmap_pages_ok [OF R(1,2) root start sole] ty unfolding F by blast
  have "run_mapped roots root start fl [] (mu_tables u0) fs t"
  proof (unfold run_mapped_def, intro conjI ballI allI impI)
    fix r a assume r: "r \<in> roots" "a < USER_LIMIT"
    have "translate t r a = (if r = root \<and> start \<le> a \<and> a < start + ?n * SIZE_4KIB then None else translate ?t r a)"
      using U(4) r unfolding range_unmapped_def by blast
    also have "\<dots> = translate (mu_tables u0) r a" using R(3) r free unfolding run_mapped_def by auto
    finally show "translate t r a = (if r = root \<and> start \<le> a \<and> a < start + length [] * SIZE_4KIB then Some (run_entry start fl [] a)
        else translate (mu_tables u0) r a)" by auto
  next
    fix r assume "r \<in> roots"
    then show "user_tables t r = (if r = root then user_tables (mu_tables u0) root \<union> fs else user_tables (mu_tables u0) r)"
      using U(4) R(3) unfolding range_unmapped_def run_mapped_def by auto
  qed
  moreover have "typed_as N (mu_pm u0) fs (set []) ty pm"
  proof (unfold typed_as_def, intro allI)
    fix x
    have "\<not> (\<exists>f\<in>fs. in_frame f x) \<and> type_at N (mu_pm u0) x = Some Usable" if f: "f \<in> set fr" "in_frame f x" for f
    proof -
      have al: "\<forall>g\<in>set fr \<union> fs. g mod SIZE_4KIB = 0" using R(5) frame_has_aligned by blast
      have "g \<notin> fs" if "in_frame g x" for g
        using frames_disjoint [of f g x] f that al R(7) by (metis Un_iff disjoint_iff)
      then show ?thesis using R(5) f unfolding frame_has_def by blast
    qed
    then show "type_at N pm x = (if \<exists>f\<in>set []. in_frame f x then Some ty
        else if \<exists>f\<in>fs. in_frame f x then Some UsedByUserMode else type_at N (mu_pm u0) x)"
      using U(5) R(4) unfolding retyped_frames_def typed_as_def by auto
  qed
  ultimately have "fresh_run N wfN roots root start fl ty u0 fs [] (u \<lparr> mu_pm := pm, mu_tables := t \<rparr>)"
    using U(2,3) R(5,8) by (simp add: fresh_run_def)
  then show ?thesis using U(1) by blast
qed

text \<open>One more page of the run: the frame is allocated and zeroed, then mapped.\<close>

lemma fresh_frame:
  assumes run: "fresh_run N wfN roots root start fl ty u0 fs fr u" and ty: "ty = UsedByUserMode \<or> ty = SharedBuffer"
    and f: "frame_available N (mu_pm u) f" "retyped N (mu_pm u) f ty pm1"
  shows "spaces_ok N roots pm1 (mu_tables u)" "frame_has N pm1 f ty" "user_typed N pm1 f" "f \<notin> set fr \<union> fs"
    "\<forall>r\<in>roots. f \<notin> user_tables (mu_tables u) r" "\<forall>r a e. mapped roots (mu_tables u) r a e \<longrightarrow> pe_addr e \<noteq> f"
    "frame_has N (mu_pm u0) f Usable" "typed_as N (mu_pm u0) fs (insert f (set fr)) ty pm1"
proof -
  have ok: "spaces_ok N roots (mu_pm u) (mu_tables u)" using run by (simp add: fresh_run_def)
  have us: "frame_has N (mu_pm u) f Usable" by (rule available_has [OF f(1)])
  have rt: "retyped_frames N (mu_pm u) {f} ty pm1" "\<forall>g\<in>{f}. g mod SIZE_4KIB = 0"
    using f(2) frame_has_aligned [OF us] by (simp_all add: retyped_one)
  show nt: "\<forall>r\<in>roots. f \<notin> user_tables (mu_tables u) r" and nm: "\<forall>r a e. mapped roots (mu_tables u) r a e \<longrightarrow> pe_addr e \<noteq> f"
    using usable_not_used [OF ok us] by blast+
  show "spaces_ok N roots pm1 (mu_tables u)" by (rule spaces_retype [OF ok rt]) (use nt nm in auto)
  show h: "frame_has N pm1 f ty" using retyped_has [OF rt, of f ty] frame_has_aligned [OF us] by simp
  show "user_typed N pm1 f" using h ty unfolding user_typed_def by blast
  show "f \<notin> set fr \<union> fs" "frame_has N (mu_pm u0) f Usable"
    using us fresh_run_has [OF run, of f Usable] ty by (auto split: if_splits)
  show "typed_as N (mu_pm u0) fs (insert f (set fr)) ty pm1"
    using run rt(1) by (intro typed_as_frame [of N _ fs "set fr" ty "mu_pm u"]) (simp_all add: fresh_run_def)
qed

lemma run_mapped_Suc:
  assumes run: "run_mapped roots root start fl fr t0 fs t" and ch: "page_changed roots root (start + length fr * SIZE_4KIB) new t fs' t'"
    and root: "root \<in> roots"
  shows "new = Some \<lparr> pe_addr = f, pe_flags = fl \<rparr> \<Longrightarrow> run_mapped roots root start fl (fr @ [f]) t0 (fs \<union> fs') t'"
    and "new = None \<Longrightarrow> (\<And>a. in_frame (start + length fr * SIZE_4KIB) a \<Longrightarrow> translate t0 root a = None) \<Longrightarrow>
           run_mapped roots root start fl fr t0 (fs \<union> fs') t'"
proof -
  let ?p = "start + length fr * SIZE_4KIB"
  have T: "translate t' r a = (if r = root \<and> in_frame ?p a then new else if r = root \<and> start \<le> a \<and> a < ?p
      then Some (run_entry start fl fr a) else translate t0 r a)" if "r \<in> roots" "a < USER_LIMIT" for r a
  proof -
    have "translate t' r a = (if r = root \<and> in_frame ?p a then new else translate t r a)"
      using ch that unfolding page_changed_def by blast
    moreover have "translate t r a = (if r = root \<and> start \<le> a \<and> a < ?p then Some (run_entry start fl fr a) else translate t0 r a)"
      using run that unfolding run_mapped_def by blast
    ultimately show ?thesis by (cases "r = root") auto
  qed
  have U: "user_tables t' r = (if r = root then user_tables t0 root \<union> (fs \<union> fs') else user_tables t0 r)" if "r \<in> roots" for r
    using run ch that root unfolding run_mapped_def page_changed_def by auto
  have rng: "start \<le> a \<and> a < start + length (fr @ [f]) * SIZE_4KIB \<longleftrightarrow> in_frame ?p a \<or> start \<le> a \<and> a < ?p" for a
    by (auto simp: in_frame_def)
  have ent: "run_entry start fl (fr @ [f]) a = (if in_frame ?p a then \<lparr> pe_addr = f, pe_flags = fl \<rparr> else run_entry start fl fr a)"
    if "in_frame ?p a \<or> start \<le> a \<and> a < ?p" for a
  proof (cases "in_frame ?p a")
    case True
    then have "(a - start) div SIZE_4KIB = length fr" by (intro div_nat_eqI) (auto simp: in_frame_def algebra_simps)
    then show ?thesis using True by (simp add: run_entry_def)
  next
    case False
    then have "(a - start) div SIZE_4KIB < length fr" using that range_index_less by blast
    then show ?thesis using False by (simp add: run_entry_def nth_append)
  qed
  show "run_mapped roots root start fl (fr @ [f]) t0 (fs \<union> fs') t'" if n: "new = Some \<lparr> pe_addr = f, pe_flags = fl \<rparr>"
    unfolding run_mapped_def
  proof (intro conjI ballI allI impI)
    fix r a assume ra: "r \<in> roots" "a < USER_LIMIT"
    show "translate t' r a = (if r = root \<and> start \<le> a \<and> a < start + length (fr @ [f]) * SIZE_4KIB
        then Some (run_entry start fl (fr @ [f]) a) else translate t0 r a)"
      unfolding T [OF ra] rng n using ent [of a] by (cases "r = root") auto
  qed (rule U)
  show "run_mapped roots root start fl fr t0 (fs \<union> fs') t'"
    if n: "new = None" and fr: "\<And>a. in_frame ?p a \<Longrightarrow> translate t0 root a = None"
    unfolding run_mapped_def
  proof (intro conjI ballI allI impI)
    fix r a assume ra: "r \<in> roots" "a < USER_LIMIT"
    have "\<not> (in_frame ?p a \<and> a < ?p)" by (auto simp: in_frame_def)
    then show "translate t' r a = (if r = root \<and> start \<le> a \<and> a < ?p then Some (run_entry start fl fr a) else translate t0 r a)"
      unfolding T [OF ra] n using fr [of a] by auto
  qed (rule U)
qed

text \<open>The three ways one turn of the loop can go: no frame, a failed mapping (both only when memory
  has run out), or one more page of the run.\<close>

lemma fresh_page_step:
  assumes run: "fresh_run N wfN roots root start fl ty u0 fs fr u"
    and ty: "ty = UsedByUserMode \<or> ty = SharedBuffer" and root: "root \<in> roots"
    and start: "start mod SIZE_4KIB = 0" "start + Suc (length fr) * SIZE_4KIB \<le> USER_LIMIT"
    and free: "\<forall>a. in_frame (start + length fr * SIZE_4KIB) a \<longrightarrow> translate (mu_tables u0) root a = None"
    and hhdm: "hhdm_fits N hhdm (mu_pm u0)" and fl: "pf_present fl" "\<not> pf_huge_page fl"
  obtains (no_frame) "allocate_frame_with_type X N (mu_pm u) ty = Some (None, mu_pm u)" "available_frames N (mu_pm u) = {}"
  | (not_mapped) f pm u1 u2 err v pm2 fs' where "allocate_frame_with_type X N (mu_pm u) ty = Some (Some f, pm)"
      "zero_frame X hhdm f (u \<lparr> mu_pm := pm \<rparr>) = Some u1"
      "map_user_page X N M root (start + length fr * SIZE_4KIB) f fl u1 = Some (Inl err, u2)"
      "free_frame N (mu_pm u2) f ty = Some (v, pm2)" "fresh_run N wfN roots root start fl ty u0 (fs \<union> fs') fr (u2 \<lparr> mu_pm := pm2 \<rparr>)"
      "available_frames N (mu_pm u) \<subseteq> insert f fs'" "finite fs'" "card fs' \<le> 3"
  | (page_mapped) f pm u1 u2 v fs' where "allocate_frame_with_type X N (mu_pm u) ty = Some (Some f, pm)"
      "zero_frame X hhdm f (u \<lparr> mu_pm := pm \<rparr>) = Some u1"
      "map_user_page X N M root (start + length fr * SIZE_4KIB) f fl u1 = Some (Inr v, u2)"
      "fresh_run N wfN roots root start fl ty u0 (fs \<union> fs') (fr @ [f]) u2"
      "available_frames N (mu_pm u2) = available_frames N (mu_pm u) - insert f fs'" "finite fs'" "card fs' \<le> 3"
proof -
  let ?p = "start + length fr * SIZE_4KIB" and ?t = "mu_tables u"
  have R: "spaces_ok N roots (mu_pm u) ?t" "pm_ok N wfN (mu_pm u)" "run_mapped roots root start fl fr (mu_tables u0) fs ?t"
      "typed_as N (mu_pm u0) fs (set fr) ty (mu_pm u)" "\<forall>f\<in>set fr \<union> fs. frame_has N (mu_pm u0) f Usable" "distinct fr" "set fr \<inter> fs = {}"
      "\<forall>f\<in>set fr. \<forall>x. in_frame f x \<longrightarrow> mu_bytes u x = 0"
      "\<forall>x. type_at N (mu_pm u0) x \<noteq> Some Usable \<longrightarrow> mu_bytes u x = mu_bytes u0 x"
    using run by (simp_all add: fresh_run_def)
  have p: "?p < USER_LIMIT" "?p mod SIZE_4KIB = 0" using start by (simp_all add: SIZE_4KIB_def)
  from allocate_frame_spec [OF R(2), of ty]
  consider "allocate_frame_with_type X N (mu_pm u) ty = Some (None, mu_pm u)" "\<forall>g. \<not> frame_available N (mu_pm u) g"
    | f pm where "allocate_frame_with_type X N (mu_pm u) ty = Some (Some f, pm)" "frame_available N (mu_pm u) f"
        "\<forall>g. frame_available N (mu_pm u) g \<longrightarrow> f \<le> g" "pm_ok N wfN pm" "retyped N (mu_pm u) f ty pm" by blast
  then show ?thesis
  proof cases
    case 1
    then show ?thesis using no_frame by (simp add: available_frames_def)
  next
    case (2 f pm)
    note F = fresh_frame [OF run ty 2(2,5)]
    have av: "available_frames N pm = available_frames N (mu_pm u) - {f}"
      using available_after_alloc [OF 2(2,3,5)] ty by auto
    have usb: "\<forall>g\<in>insert f (set fr) \<union> fs. frame_has N (mu_pm u0) g Usable" using R(5) F(7) by blast
    have hh: "hhdm_fits N hhdm pm" by (rule hhdm_typed_as [OF hhdm F(8) usb])
    let ?u1 = "u \<lparr> mu_pm := pm, mu_bytes := (\<lambda>a. if in_frame f a then 0 else mu_bytes u a) \<rparr>"
    have z: "zero_frame X hhdm f (u \<lparr> mu_pm := pm \<rparr>) = Some ?u1"
      using zero_frame_ok [of hhdm "u \<lparr> mu_pm := pm \<rparr>" f ty] hh F(2) by (simp cong: if_cong)
    have u1: "mu_pm ?u1 = pm" "mu_tables ?u1 = ?t" by simp_all
    obtain r t2 pm2 fs' where
      m: "map_user_page X N M root ?p f fl ?u1 = Some (r, ?u1 \<lparr> mu_pm := pm2, mu_tables := t2 \<rparr>)"
        "spaces_ok N roots pm2 t2" "pm_ok N wfN pm2" "retyped_frames N pm fs' UsedByUserMode pm2"
        "\<forall>g\<in>fs'. frame_has N pm g Usable" "available_frames N pm2 = available_frames N pm - fs'" "finite fs'" "card fs' \<le> 3"
        "case r of
           Inr _ \<Rightarrow> translate ?t root ?p = None \<and> page_changed roots root ?p (Some \<lparr> pe_addr = f, pe_flags = fl \<rparr>) ?t fs' t2
         | Inl _ \<Rightarrow> page_changed roots root ?p (translate ?t root ?p) ?t fs' t2 \<and>
             (translate ?t root ?p = None \<longrightarrow> (\<forall>g. \<not> frame_available N pm2 g))"
    proof (rule map_user_page_ok [of roots ?u1 root ?p fl f, unfolded u1])
      show "frame_has N pm f UsedByUserMode \<longrightarrow> (\<forall>r a e. mapped roots ?t r a e \<longrightarrow> pe_addr e \<noteq> f)" using F(6) by blast
    qed (rule F(1) 2(4) root p fl F(3) F(5) that; assumption?)+
    have nf: "g \<notin> insert f (set fr) \<union> fs" "frame_has N (mu_pm u0) g Usable" if "g \<in> fs'" for g
    proof -
      have al0: "\<forall>g\<in>insert f (set fr) \<union> fs. g mod SIZE_4KIB = 0"
        by (rule ballI, rule frame_has_aligned, erule bspec [OF usb])
      have d0: "insert f (set fr) \<inter> fs = {}" using F(4) R(7) by blast
      have "frame_has N pm g Usable" using m(5) that by blast
      then show "g \<notin> insert f (set fr) \<union> fs" "frame_has N (mu_pm u0) g Usable"
        using typed_as_has [OF F(8) al0 d0, of g Usable] ty by (auto split: if_splits)
    qed
    have al: "\<forall>g\<in>insert f (set fr) \<union> fs'. g mod SIZE_4KIB = 0" "\<forall>g\<in>set fr \<union> (fs \<union> fs'). g mod SIZE_4KIB = 0"
      using usb nf(2) by (auto intro!: frame_has_aligned simp del: mod_0_imp_dvd mod_eq_0_iff_dvd simp flip: mod_eq_0_iff_dvd)
    have ty2: "typed_as N (mu_pm u0) (fs \<union> fs') (insert f (set fr)) ty pm2"
      by (rule typed_as_tables [OF F(8) m(4) al(1)]) (use nf(1) in blast)
    have tp: "translate ?t root ?p = None"
      using R(3) root p(1) free [rule_format, of ?p] unfolding run_mapped_def by simp
    let ?u2 = "?u1 \<lparr> mu_pm := pm2, mu_tables := t2 \<rparr>"
    have b: "\<forall>x. type_at N (mu_pm u0) x \<noteq> Some Usable \<longrightarrow> mu_bytes ?u2 x = mu_bytes u0 x"
      using R(9) F(7) unfolding frame_has_def by auto
    show ?thesis
    proof (cases r)
      case (Inr v)
      then have ch: "page_changed roots root ?p (Some \<lparr> pe_addr = f, pe_flags = fl \<rparr>) ?t fs' t2" using m(9) by simp
      have run2: "fresh_run N wfN roots root start fl ty u0 (fs \<union> fs') (fr @ [f]) ?u2"
        unfolding fresh_run_def
        using m(2,3) run_mapped_Suc(1) [OF R(3) ch root refl] ty2 usb nf R(6,7,8) F(4) b by (auto simp: Un_commute)
      have "available_frames N (mu_pm ?u2) = available_frames N (mu_pm u) - insert f fs'" using m(6) av by auto
      then show ?thesis by (rule page_mapped [OF 2(1) z m(1) [unfolded Inr] run2 _ m(7,8)])
    next
      case (Inl err)
      have ch: "page_changed roots root ?p None ?t fs' t2" using m(9) Inl tp by simp
      have fh: "frame_has N pm2 f ty"
        using typed_as_has [OF ty2, of f ty] al R(7) F(4) nf(1) by auto
      obtain pm3 where fr3: "free_frame N pm2 f ty = Some (Inr (), pm3)" "pm_ok N wfN pm3" "retyped_frames N pm2 {f} Usable pm3"
        using free_frame_spec(1) [OF m(3)] frame_has_bound [OF m(3) fh] fh unfolding frame_has_def retyped_one by blast
      have ty3: "typed_as N (mu_pm u0) (fs \<union> fs') (set fr) ty pm3"
        by (rule typed_as_unframe [OF ty2 fr3(3) al(2) _ F(7)]) (use F(4) nf(1) in blast)
      have rm: "run_mapped roots root start fl fr (mu_tables u0) (fs \<union> fs') t2"
        using run_mapped_Suc(2) [OF R(3) ch root refl] free by blast
      have sp: "spaces_ok N roots pm3 t2"
      proof (rule spaces_retype [OF m(2) fr3(3)])
        show "\<forall>r\<in>roots. {f} \<inter> user_tables t2 r = {}"
          using F(5) ch nf(1) root unfolding page_changed_def by auto
        have "mapped roots ?t r a e" if "mapped roots t2 r a e" for r a e
          using ch that unfolding page_changed_def mapped_def by (metis option.distinct(1))
        then show "\<forall>r a e. mapped roots t2 r a e \<longrightarrow> pe_addr e \<notin> {f}" using F(6) by blast
      qed (use al(1) in simp)
      have run3: "fresh_run N wfN roots root start fl ty u0 (fs \<union> fs') fr (?u2 \<lparr> mu_pm := pm3 \<rparr>)"
        unfolding fresh_run_def using sp fr3(2) rm ty3 R(5-8) nf b by auto
      have fr4: "free_frame N (mu_pm ?u2) f ty = Some (Inr (), pm3)" using fr3(1) by simp
      have "available_frames N pm2 = {}" using m(9) Inl tp by (simp add: available_frames_def)
      then have "available_frames N (mu_pm u) \<subseteq> insert f fs'" using m(6) av by auto
      then show ?thesis by (rule not_mapped [OF 2(1) z m(1) [unfolded Inl] fr4 run3 _ m(7,8)])
    qed
  qed
qed

lemma fresh_pages_ok:
  assumes ok0: "spaces_ok N roots (mu_pm u0) (mu_tables u0)" and ty: "ty = UsedByUserMode \<or> ty = SharedBuffer"
    and root: "root \<in> roots" and start: "start mod SIZE_4KIB = 0" "start + n * SIZE_4KIB \<le> USER_LIMIT"
    and free: "\<forall>a. start \<le> a \<and> a < start + n * SIZE_4KIB \<longrightarrow> translate (mu_tables u0) root a = None"
    and hhdm: "hhdm_fits N hhdm (mu_pm u0)" and fl: "pf_present fl" "\<not> pf_huge_page fl"
    and run: "fresh_run N wfN roots root start fl ty u0 fs fr u" and i: "length fr \<le> n"
    and av: "available_frames N (mu_pm u) = available_frames N (mu_pm u0) - (set fr \<union> fs)" "finite fs" "card fs \<le> 3 * length fr"
  shows "\<exists>r u'. fresh_pages X N M hhdm ty root start fl [length fr..<n] fr u = Some (r, u') \<and>
    (case r of
       Some fr' \<Rightarrow> length fr' = n \<and> (\<exists>fs'. fresh_run N wfN roots root start fl ty u0 fs' fr' u')
     | None \<Rightarrow> (\<exists>fs'. fresh_run N wfN roots root start fl ty u0 fs' [] u') \<and> card (available_frames N (mu_pm u0)) \<le> 4 * n)"
  using run i av
proof (induction "n - length fr" arbitrary: fs fr u)
  case 0
  then show ?case by auto
next
  case (Suc d)
  let ?i = "length fr" and ?p = "start + length fr * SIZE_4KIB"
  have lt: "?i < n" using Suc.hyps(2) by simp
  have k: "Suc ?i * SIZE_4KIB \<le> n * SIZE_4KIB" by (rule mult_le_mono1) (use lt in simp)
  have lim: "start + Suc ?i * SIZE_4KIB \<le> USER_LIMIT" "start + ?i * SIZE_4KIB \<le> USER_LIMIT" "?p < USER_LIMIT"
    using start(2) k by (simp_all add: SIZE_4KIB_def)
  have fp: "\<forall>a. in_frame ?p a \<longrightarrow> translate (mu_tables u0) root a = None"
    using free k by (auto simp: in_frame_def)
  have fb: "\<forall>a. start \<le> a \<and> a < start + ?i * SIZE_4KIB \<longrightarrow> translate (mu_tables u0) root a = None"
    using free k by auto
  have pg: "page_of_range X start ?i = Some ?p" by (rule page_of_range_ok [OF start(1) lim(3)])
  have up: "[?i..<n] = ?i # [Suc ?i..<n]" using lt by (simp add: upt_conv_Cons)
  have tyU: "ty \<noteq> Usable" using ty by auto
  have few: "card (available_frames N (mu_pm u0)) \<le> 4 * n" if "available_frames N (mu_pm u) \<subseteq> G" "finite G" "card G \<le> 4" for G
  proof -
    have "available_frames N (mu_pm u0) \<subseteq> set fr \<union> fs \<union> G" using that(1) Suc.prems(3) by blast
    then have "card (available_frames N (mu_pm u0)) \<le> card (set fr \<union> fs \<union> G)"
      using that(2) Suc.prems(4) by (intro card_mono) auto
    also have "\<dots> \<le> card (set fr) + card fs + card G"
      using card_Un_le [of "set fr \<union> fs" G] card_Un_le [of "set fr" fs] by linarith
    finally show ?thesis using card_length [of fr] Suc.prems(5) that(3) lt by linarith
  qed
  show ?case
  proof (rule fresh_page_step [OF Suc.prems(1) ty root start(1) lim(1) fp hhdm fl])
    assume a: "allocate_frame_with_type X N (mu_pm u) ty = Some (None, mu_pm u)" "available_frames N (mu_pm u) = {}"
    obtain u' where "unmap_pages X N M (Some ty) root start ?i u = Some u'" "fresh_run N wfN roots root start fl ty u0 fs [] u'"
      using fresh_rollback [OF Suc.prems(1) ok0 root start(1) lim(2) fb tyU] by blast
    then show ?thesis using few [of "{}"] a pg unfolding up by auto
  next
    fix f pm u1 u2 err v pm2 fs'
    assume a: "allocate_frame_with_type X N (mu_pm u) ty = Some (Some f, pm)" "zero_frame X hhdm f (u \<lparr> mu_pm := pm \<rparr>) = Some u1"
      "map_user_page X N M root ?p f fl u1 = Some (Inl err, u2)" "free_frame N (mu_pm u2) f ty = Some (v, pm2)"
      and r: "fresh_run N wfN roots root start fl ty u0 (fs \<union> fs') fr (u2 \<lparr> mu_pm := pm2 \<rparr>)"
      and g: "available_frames N (mu_pm u) \<subseteq> insert f fs'" "finite fs'" "card fs' \<le> 3"
    obtain u' where "unmap_pages X N M (Some ty) root start ?i (u2 \<lparr> mu_pm := pm2 \<rparr>) = Some u'"
        "fresh_run N wfN roots root start fl ty u0 (fs \<union> fs') [] u'"
      using fresh_rollback [OF r ok0 root start(1) lim(2) fb tyU] by blast
    moreover have "card (insert f fs') \<le> 4" using g(3) card_insert_le_m1 [of 4 fs' f] by simp
    ultimately show ?thesis using few [OF g(1)] g(2) a pg unfolding up by auto
  next
    fix f pm u1 u2 v fs'
    assume a: "allocate_frame_with_type X N (mu_pm u) ty = Some (Some f, pm)" "zero_frame X hhdm f (u \<lparr> mu_pm := pm \<rparr>) = Some u1"
      "map_user_page X N M root ?p f fl u1 = Some (Inr v, u2)"
      and r: "fresh_run N wfN roots root start fl ty u0 (fs \<union> fs') (fr @ [f]) u2"
      and g: "available_frames N (mu_pm u2) = available_frames N (mu_pm u) - insert f fs'" "finite fs'" "card fs' \<le> 3"
    have "card (fs \<union> fs') \<le> 3 * length (fr @ [f])" using card_Un_le [of fs fs'] Suc.prems(5) g(3) by simp
    moreover have "available_frames N (mu_pm u2) = available_frames N (mu_pm u0) - (set (fr @ [f]) \<union> (fs \<union> fs'))"
      using g(1) Suc.prems(3) by auto
    moreover have "d = n - length (fr @ [f])" "length (fr @ [f]) \<le> n" using Suc.hyps(2) lt by simp_all
    ultimately have "\<exists>r u'. fresh_pages X N M hhdm ty root start fl [length (fr @ [f])..<n] (fr @ [f]) u2 = Some (r, u') \<and>
      (case r of
         Some fr' \<Rightarrow> length fr' = n \<and> (\<exists>fs'. fresh_run N wfN roots root start fl ty u0 fs' fr' u')
       | None \<Rightarrow> (\<exists>fs'. fresh_run N wfN roots root start fl ty u0 fs' [] u') \<and> card (available_frames N (mu_pm u0)) \<le> 4 * n)"
      using Suc.hyps(1) [OF _ r] Suc.prems(4) g(2) by blast
    then show ?thesis using a pg unfolding up by simp
  qed
qed

end

end
