(* ===== verification/Memory_Syscalls.thy ===== *)
theory Memory_Syscalls
  imports Dispatch Fresh_Pages
begin

text \<open>
  The system calls that change the calling task's address space: \<^verbatim>\<open>sys_mmap\<close> and
  \<^verbatim>\<open>sys_munmap\<close> of \<^verbatim>\<open>syscall_handlers/memory.rs\<close>. The kernel state adds to the
  scheduler's the memory subsystem (\<^verbatim>\<open>MEMORY\<close>), the higher-half offset and the registry of
  shared buffers.

  What a task can observe of these calls is \<open>user_byte\<close>: the byte its page tables lead to. The lemmas
  say exactly how each call changes it, for every task, and that the calls keep \<open>mem_ok\<close>: the address
  spaces stay isolated from each other and every mapped page lies in the task's recorded ranges.
\<close>

unbundle bit_operations_syntax

section \<open>State\<close>

record ('s, 'm) Mem = "'s Sched" +
  k_hhdm :: nat
  k_mmu :: "'m Mmu"
  k_virtual_memory :: "'s VirtualMemoryAllocator"
  k_new_kernel_cr3 :: nat
  k_shared_bufs :: "nat \<rightharpoonup> nat list"
  k_next_buf_id :: nat

definition MMAP_WRITE :: nat where
  "MMAP_WRITE = 1"

definition MMAP_EXEC :: nat where
  "MMAP_EXEC = 2"

section \<open>Operations\<close>

text \<open>The running task, when it is a user task.\<close>

definition current_user_task :: "nat \<Rightarrow> ('s, 'z) Sched_scheme \<Rightarrow> (nat \<times> 's Task) option rust" where
  "current_user_task c k =
     do { cpu \<leftarrow> get_cpu k c;
          rq \<leftarrow> unwrap (run_queue cpu);
          case current_task rq of
            None \<Rightarrow> Some None
          | Some t \<Rightarrow> do { task \<leftarrow> unwrap (k_tasks k t); Some (if t_kind task = User then Some (t, task) else None) } }"

definition set_vaddr_set :: "nat \<Rightarrow> 's \<Rightarrow> ('s, 'z) Sched_scheme \<Rightarrow> ('s, 'z) Sched_scheme" where
  "set_vaddr_set t vset = upd_task t (\<lambda>x. x \<lparr> t_inner := t_inner x \<lparr> ti_user_vaddr_set := vset \<rparr> \<rparr>)"

definition mmap_flags :: "nat \<Rightarrow> PageTableFlags" where
  "mmap_flags flags =
     no_flags \<lparr> pf_present := True, pf_user_accessible := True, pf_writable := (flags AND MMAP_WRITE \<noteq> 0),
                pf_no_execute := (flags AND MMAP_EXEC = 0) \<rparr>"

definition sys_mmap ::
    "'s nodit_set_ops \<Rightarrow> x86_ops \<Rightarrow> ('m, MemoryType) nodit_map_ops \<Rightarrow> 'm PhysicalMemoryFrameAllocator mapper_ops \<Rightarrow>
     nat \<Rightarrow> nat \<Rightarrow> nat \<Rightarrow> ('s, 'm, 'z) Mem_scheme \<Rightarrow> (nat \<times> ('s, 'm, 'z) Mem_scheme) rust" where
  "sys_mmap S X N M c size_bytes flags k =
     (if size_bytes = 0 then Some (0, k)
      else
        let n_pages = div_ceil size_bytes SIZE_4KIB in
        do { cur \<leftarrow> current_user_task c k;
             case cur of
               None \<Rightarrow> Some (0, k)
             | Some (t, task) \<Rightarrow>
                 do { (a, vset) \<leftarrow> allocate_user_pages S (ti_user_vaddr_set (t_inner task)) n_pages;
                      case a of
                        None \<Rightarrow> Some (0, k)
                      | Some start_vaddr \<Rightarrow>
                          do { root \<leftarrow> open_mapper X (k_hhdm k) (t_cr3 task);
                               (mapped_all, u) \<leftarrow> mmap_pages X N M (k_hhdm k) root start_vaddr (mmap_flags flags)
                                                   [0..<n_pages] (k_mmu k);
                               if mapped_all then Some (start_vaddr, set_vaddr_set t vset (k \<lparr> k_mmu := u \<rparr>))
                               else
                                 do { b \<leftarrow> mul_u64 n_pages SIZE_4KIB;
                                      (_, vset') \<leftarrow> free_user_pages S vset start_vaddr b;
                                      Some (0, set_vaddr_set t vset' (k \<lparr> k_mmu := u \<rparr>)) } } } })"

definition sys_munmap ::
    "'s nodit_set_ops \<Rightarrow> x86_ops \<Rightarrow> ('m, MemoryType) nodit_map_ops \<Rightarrow> 'm PhysicalMemoryFrameAllocator mapper_ops \<Rightarrow>
     nat \<Rightarrow> nat \<Rightarrow> nat \<Rightarrow> ('s, 'm, 'z) Mem_scheme \<Rightarrow> (nat \<times> ('s, 'm, 'z) Mem_scheme) rust" where
  "sys_munmap S X N M c addr size_bytes k =
     (if size_bytes = 0 \<or> addr mod SIZE_4KIB \<noteq> 0 then Some (u64_MAX, k)
      else
        let n_pages = div_ceil size_bytes SIZE_4KIB in
        do { cur \<leftarrow> current_user_task c k;
             case cur of
               None \<Rightarrow> Some (u64_MAX, k)
             | Some (t, task) \<Rightarrow>
                 do { total_size \<leftarrow> mul_u64 n_pages SIZE_4KIB;
                      (freed, vset) \<leftarrow> free_user_pages S (ti_user_vaddr_set (t_inner task)) addr total_size;
                      if \<not> freed then Some (u64_MAX, k)
                      else
                        do { root \<leftarrow> open_mapper X (k_hhdm k) (t_cr3 task);
                             u \<leftarrow> unmap_pages X N M (Some UsedByUserMode) root addr n_pages (k_mmu k);
                             Some (0, set_vaddr_set t vset (k \<lparr> k_mmu := u \<rparr>)) } } })"

section \<open>Well-formed memory and what tasks see of it\<close>

definition is_user_task :: "('s, 'z) Sched_scheme \<Rightarrow> nat \<Rightarrow> 's Task \<Rightarrow> bool" where
  "is_user_task k t task \<longleftrightarrow> k_tasks k t = Some task \<and> t_kind task = User"

definition user_roots :: "('s, 'z) Sched_scheme \<Rightarrow> nat set" where
  "user_roots k = {t_cr3 task | t task. is_user_task k t task}"

definition mmu_ok :: "('m, MemoryType) nodit_map_ops \<Rightarrow> ('m \<Rightarrow> bool) \<Rightarrow> nat \<Rightarrow> nat set \<Rightarrow> 'm Mmu \<Rightarrow> bool" where
  "mmu_ok N wfN hhdm roots u \<longleftrightarrow>
     pm_ok N wfN (mu_pm u) \<and> hhdm_fits N hhdm (mu_pm u) \<and> spaces_ok N roots (mu_pm u) (mu_tables u)"

text \<open>The buffers in the registry are the same, and frames of shared memory still are.\<close>

definition bufs_kept :: "('m, MemoryType) nodit_map_ops \<Rightarrow> ('s, 'm, 'z) Mem_scheme \<Rightarrow> ('s, 'm, 'z) Mem_scheme \<Rightarrow> bool" where
  "bufs_kept N k k' \<longleftrightarrow> k_shared_bufs k' = k_shared_bufs k \<and> k_next_buf_id k' = k_next_buf_id k \<and>
     (\<forall>f. frame_has N (mu_pm (k_mmu k)) f SharedBuffer \<longrightarrow> frame_has N (mu_pm (k_mmu k')) f SharedBuffer)"

text \<open>A task's recorded ranges: they lie in the lower half and hold every mapped page.\<close>

definition vset_ok :: "'s nodit_set_ops \<Rightarrow> ('s \<Rightarrow> bool) \<Rightarrow> page_memory \<Rightarrow> nat \<Rightarrow> 's \<Rightarrow> bool" where
  "vset_ok S wfS t cr3 vset \<longleftrightarrow> wfS vset \<and> (\<forall>a. covered (ns_iter S vset) a \<longrightarrow> a < USER_LIMIT) \<and>
     (\<forall>a<USER_LIMIT. translate t cr3 a \<noteq> None \<longrightarrow> covered (ns_iter S vset) a)"

definition mem_ok ::
    "'s nodit_set_ops \<Rightarrow> ('s \<Rightarrow> bool) \<Rightarrow> ('m, MemoryType) nodit_map_ops \<Rightarrow> ('m \<Rightarrow> bool) \<Rightarrow> ('s, 'm, 'z) Mem_scheme \<Rightarrow> bool" where
  "mem_ok S wfS N wfN k \<longleftrightarrow>
     mmu_ok N wfN (k_hhdm k) (user_roots k) (k_mmu k) \<and>
     (\<forall>t task. is_user_task k t task \<longrightarrow> vset_ok S wfS (mu_tables (k_mmu k)) (t_cr3 task) (ti_user_vaddr_set (t_inner task))) \<and>
     (\<forall>t task t' task'. is_user_task k t task \<longrightarrow> is_user_task k t' task' \<longrightarrow> t_cr3 task = t_cr3 task' \<longrightarrow> t = t')"

definition user_byte :: "'m Mmu \<Rightarrow> nat \<Rightarrow> nat \<Rightarrow> 8 word option" where
  "user_byte u r a = map_option (\<lambda>e. mu_bytes u (pe_addr e + a mod SIZE_4KIB)) (translate (mu_tables u) r a)"

text \<open>Every task sees the same memory as before, except that the range of \<open>len\<close> bytes at \<open>lo\<close> in the
  space \<open>cr3\<close> now reads as \<open>v\<close>.\<close>

definition sees :: "nat set \<Rightarrow> nat \<Rightarrow> nat \<Rightarrow> nat \<Rightarrow> 8 word option \<Rightarrow> 'm Mmu \<Rightarrow> 'm Mmu \<Rightarrow> bool" where
  "sees roots cr3 lo len v u u' \<longleftrightarrow>
     (\<forall>r\<in>roots. \<forall>a<USER_LIMIT. user_byte u' r a = (if r = cr3 \<and> lo \<le> a \<and> a < lo + len then v else user_byte u r a))"

text \<open>The addresses recorded for a task.\<close>

definition task_covers :: "'s nodit_set_ops \<Rightarrow> ('s, 'z) Sched_scheme \<Rightarrow> nat \<Rightarrow> nat \<Rightarrow> bool" where
  "task_covers S k t a \<longleftrightarrow> (\<exists>task. k_tasks k t = Some task \<and> covered (ns_iter S (ti_user_vaddr_set (t_inner task))) a)"

definition page_flags_in :: "'m Mmu \<Rightarrow> nat \<Rightarrow> nat \<Rightarrow> nat \<Rightarrow> PageTableFlags \<Rightarrow> bool" where
  "page_flags_in u cr3 lo len fl \<longleftrightarrow>
     (\<forall>a. lo \<le> a \<and> a < lo + len \<longrightarrow> (\<exists>e. translate (mu_tables u) cr3 a = Some e \<and> pe_flags e = fl))"

lemma current_user_task_user: "current_user_task c k = Some (Some (t, task)) \<Longrightarrow> is_user_task k t task"
  by (auto simp: current_user_task_def is_user_task_def rust_SomeD unwrap_def split: option.splits if_splits)

lemma user_task_root: "is_user_task k t task \<Longrightarrow> t_cr3 task \<in> user_roots k"
  by (auto simp: user_roots_def)

lemma set_vaddr_set_sel [simp]:
  "k_hhdm (set_vaddr_set t vset k) = k_hhdm k" "k_mmu (set_vaddr_set t vset k) = k_mmu k"
  "k_shared_bufs (set_vaddr_set t vset k) = k_shared_bufs k" "k_next_buf_id (set_vaddr_set t vset k) = k_next_buf_id k"
  "k_cpus (set_vaddr_set t vset k) = k_cpus k"
  by (simp_all add: set_vaddr_set_def upd_task_def)

lemma is_user_task_set_vaddr:
  "is_user_task (set_vaddr_set t vset k) t' task' \<longleftrightarrow>
     (\<exists>task. is_user_task k t' task \<and> task' = (if t' = t then task \<lparr> t_inner := t_inner task \<lparr> ti_user_vaddr_set := vset \<rparr> \<rparr> else task))"
  by (auto simp: is_user_task_def set_vaddr_set_def upd_task_def)

lemma user_roots_set_vaddr [simp]: "user_roots (set_vaddr_set t vset k) = user_roots k"
proof -
  have "\<exists>t' task'. t_cr3 task = t_cr3 task' \<and> is_user_task (set_vaddr_set t vset k) t' task'" if "is_user_task k t0 task" for t0 task
    unfolding is_user_task_set_vaddr using that
    by (intro exI [of _ t0] exI [of _ "if t0 = t then task \<lparr> t_inner := t_inner task \<lparr> ti_user_vaddr_set := vset \<rparr> \<rparr> else task"]) auto
  moreover have "\<exists>t' task'. t_cr3 task = t_cr3 task' \<and> is_user_task k t' task'" if "is_user_task (set_vaddr_set t vset k) t0 task" for t0 task
  proof -
    from that obtain x where "is_user_task k t0 x" "t_cr3 task = t_cr3 x" unfolding is_user_task_set_vaddr by auto
    then show ?thesis by blast
  qed
  ultimately show ?thesis unfolding user_roots_def by blast
qed

lemma user_roots_mmu [simp]: "user_roots (k \<lparr> k_mmu := u \<rparr>) = user_roots k" "is_user_task (k \<lparr> k_mmu := u \<rparr>) = is_user_task k"
  by (simp_all add: user_roots_def is_user_task_def fun_eq_iff)

lemma mem_ok_update:
  assumes ok: "mem_ok S wfS N wfN k" and t: "is_user_task k t task" and u: "mmu_ok N wfN (k_hhdm k) (user_roots k) u"
    and v: "vset_ok S wfS (mu_tables u) (t_cr3 task) vset"
    and o: "\<And>r a. r \<in> user_roots k \<Longrightarrow> r \<noteq> t_cr3 task \<Longrightarrow> a < USER_LIMIT \<Longrightarrow> translate (mu_tables u) r a = translate (mu_tables (k_mmu k)) r a"
  shows "mem_ok S wfS N wfN (set_vaddr_set t vset (k \<lparr> k_mmu := u \<rparr>))"
proof -
  have "vset_ok S wfS (mu_tables u) (t_cr3 task') (ti_user_vaddr_set (t_inner task'))"
    if t': "is_user_task (set_vaddr_set t vset (k \<lparr> k_mmu := u \<rparr>)) t' task'" for t' task'
  proof -
    obtain x where x: "is_user_task k t' x" "task' = (if t' = t then x \<lparr> t_inner := t_inner x \<lparr> ti_user_vaddr_set := vset \<rparr> \<rparr> else x)"
      using t' unfolding is_user_task_set_vaddr by auto
    show ?thesis
    proof (cases "t' = t")
      case True
      then have "x = task" using x(1) t by (simp add: is_user_task_def)
      then show ?thesis using x(2) True v by simp
    next
      case False
      then have "t_cr3 x \<noteq> t_cr3 task" using ok x(1) t unfolding mem_ok_def by blast
      then show ?thesis using ok x False o user_task_root [OF x(1)] unfolding mem_ok_def vset_ok_def by simp
    qed
  qed
  moreover have "t' = t''" if "is_user_task (set_vaddr_set t vset (k \<lparr> k_mmu := u \<rparr>)) t' a" "is_user_task (set_vaddr_set t vset (k \<lparr> k_mmu := u \<rparr>)) t'' b"
      "t_cr3 a = t_cr3 b" for t' t'' a b
    using that ok unfolding is_user_task_set_vaddr mem_ok_def by (auto split: if_splits)
  ultimately show ?thesis using u unfolding mem_ok_def by simp
qed

text \<open>A run of fresh pages reads as zero, and nothing else changes for any task.\<close>

lemma fresh_run_sees:
  assumes run: "fresh_run N wfN roots root start fl ty u0 fs fr u" and ok0: "spaces_ok N roots (mu_pm u0) (mu_tables u0)"
    and start: "start mod SIZE_4KIB = 0"
  shows "sees roots root start (length fr * SIZE_4KIB) (Some 0) u0 u"
  unfolding sees_def
proof (intro ballI allI impI)
  fix r a assume r: "r \<in> roots" "a < USER_LIMIT"
  have R: "run_mapped roots root start fl fr (mu_tables u0) fs (mu_tables u)" "\<forall>f\<in>set fr. \<forall>x. in_frame f x \<longrightarrow> mu_bytes u x = 0"
      "\<forall>x. type_at N (mu_pm u0) x \<noteq> Some Usable \<longrightarrow> mu_bytes u x = mu_bytes u0 x"
    using run by (simp_all add: fresh_run_def)
  have inf: "in_frame f (f + a mod SIZE_4KIB)" for f by (simp add: in_frame_def)
  show "user_byte u r a = (if r = root \<and> start \<le> a \<and> a < start + length fr * SIZE_4KIB then Some 0 else user_byte u0 r a)"
  proof (cases "r = root \<and> start \<le> a \<and> a < start + length fr * SIZE_4KIB")
    case True
    then have "translate (mu_tables u) r a = Some (run_entry start fl fr a)" using R(1) r unfolding run_mapped_def by simp
    moreover have "pe_addr (run_entry start fl fr a) \<in> set fr" using True range_index_less [of start a "length fr"] by (simp add: run_entry_def)
    ultimately show ?thesis using True R(2) inf by (simp add: user_byte_def)
  next
    case False
    then have t: "translate (mu_tables u) r a = translate (mu_tables u0) r a" using R(1) r unfolding run_mapped_def by auto
    have "mu_bytes u (pe_addr e + a mod SIZE_4KIB) = mu_bytes u0 (pe_addr e + a mod SIZE_4KIB)"
      if "translate (mu_tables u0) r a = Some e" for e
    proof -
      have "user_typed N (mu_pm u0) (pe_addr e)" using spaces_mapped(1) [OF ok0] r that by (simp add: mapped_def)
      then have "type_at N (mu_pm u0) (pe_addr e + a mod SIZE_4KIB) \<noteq> Some Usable"
        using inf unfolding user_typed_def frame_has_def by fastforce
      then show ?thesis using R(3) by blast
    qed
    then show ?thesis using t False by (cases "translate (mu_tables u0) r a") (auto simp: user_byte_def)
  qed
qed

locale user_memory = user_mappings N wfN X M + sp: page_space S wfS X
  for N :: "('m, MemoryType) nodit_map_ops" and wfN :: "'m \<Rightarrow> bool" and X :: x86_ops
    and M :: "'m PhysicalMemoryFrameAllocator mapper_ops" and S :: "'s nodit_set_ops" and wfS :: "'s \<Rightarrow> bool"
begin

lemma open_mapper_ok:
  assumes "mmu_ok N wfN hhdm roots u" "root \<in> roots"
  shows "open_mapper X hhdm root = Some root"
proof -
  have pm: "pm_ok N wfN (mu_pm u)" and h: "hhdm_fits N hhdm (mu_pm u)" and s: "spaces_ok N roots (mu_pm u) (mu_tables u)"
    using assms(1) by (simp_all add: mmu_ok_def)
  have "frame_has N (mu_pm u) root UsedByUserMode"
    using spaces_tables [OF s assms(2), of root] by (simp add: user_tables_def)
  then have f: "root < PHYS_LIMIT" "root mod SIZE_4KIB = 0" "hhdm + root < U64_LIMIT"
    using frame_has_bound [OF pm] frame_has_aligned frame_has_type_at h unfolding hhdm_fits_def by fastforce+
  moreover have "canonical (hhdm + root)" "canonical hhdm"
    using h f(3) by (simp_all add: hhdm_fits_def canonical_num HIGHER_HALF_START_def U64_LIMIT_num)
  ultimately show ?thesis by (simp add: open_mapper_def phys_new virt_new frame_aligned add_u64_def)
qed

text \<open>The number of pages of a request that fits the lower half.\<close>

lemma page_count:
  assumes "0 < b" "b \<le> LOWER_HALF_END + 1"
  shows "0 < div_ceil b SIZE_4KIB" "div_ceil b SIZE_4KIB * SIZE_4KIB \<le> LOWER_HALF_END + 1" "b \<le> div_ceil b SIZE_4KIB * SIZE_4KIB"
proof -
  let ?n = "div_ceil b SIZE_4KIB"
  note d = div_ceil_bounds [OF SIZE_4KIB_pos, of b]
  show "0 < ?n" by (rule div_ceil_pos) (use assms in simp_all)
  show "b \<le> ?n * SIZE_4KIB" using d by simp
  have k: "LOWER_HALF_END + 1 = 34359738368 * SIZE_4KIB" by (simp add: LOWER_HALF_END_def SIZE_4KIB_def)
  have "?n * SIZE_4KIB < (34359738368 + 1) * SIZE_4KIB" using d assms(2) unfolding k distrib_right by linarith
  then have "?n \<le> 34359738368" by (simp only: mult_less_cancel2) simp
  then show "?n * SIZE_4KIB \<le> LOWER_HALF_END + 1" unfolding k by simp
qed

lemma mmu_ok_fresh_run:
  assumes "mmu_ok N wfN hhdm roots u0" "fresh_run N wfN roots root start fl ty u0 fs fr u"
  shows "mmu_ok N wfN hhdm roots u"
  using assms hhdm_typed_as [of N hhdm "mu_pm u0" fs "set fr" ty "mu_pm u"] by (simp add: mmu_ok_def fresh_run_def)

lemma vset_ok_fresh_run:
  assumes v: "vset_ok S wfS (mu_tables u0) root vset" and run: "fresh_run N wfN roots root start fl ty u0 fs fr u" and root: "root \<in> roots"
    and vset': "wfS vset'" "\<forall>a. covered (ns_iter S vset') a \<longleftrightarrow> covered (ns_iter S vset) a \<or> start \<le> a \<and> a < start + length fr * SIZE_4KIB"
    and lim: "start + length fr * SIZE_4KIB \<le> USER_LIMIT"
  shows "vset_ok S wfS (mu_tables u) root vset'"
proof -
  have "translate (mu_tables u) root a = (if start \<le> a \<and> a < start + length fr * SIZE_4KIB then Some (run_entry start fl fr a)
      else translate (mu_tables u0) root a)" if "a < USER_LIMIT" for a
    using run root that unfolding fresh_run_def run_mapped_def by auto
  then show ?thesis using v vset' lim unfolding vset_ok_def by auto
qed

lemma fresh_run_other:
  "fresh_run N wfN roots root start fl ty u0 fs fr u \<Longrightarrow> r \<in> roots \<Longrightarrow> r \<noteq> root \<Longrightarrow> a < USER_LIMIT \<Longrightarrow>
   translate (mu_tables u) r a = translate (mu_tables u0) r a"
  unfolding fresh_run_def run_mapped_def by auto

lemma fresh_run_bufs:
  fixes k :: "('s, 'm, 'z) Mem_scheme"
  assumes "fresh_run N wfN roots root start fl UsedByUserMode (k_mmu k) fs fr u" "k' = set_vaddr_set t s (k \<lparr> k_mmu := u \<rparr>)"
  shows "bufs_kept N k k'"
proof -
  have "frame_has N (mu_pm u) g SharedBuffer" if g: "frame_has N (mu_pm (k_mmu k)) g SharedBuffer" for g
  proof -
    have "\<forall>h\<in>set fr \<union> fs. frame_has N (mu_pm (k_mmu k)) h Usable" using assms(1) by (simp add: fresh_run_def)
    then have "g \<notin> set fr \<union> fs" using frame_has_unique [OF g] by blast
    then show ?thesis using fresh_run_has [OF assms(1), of g SharedBuffer] g by simp
  qed
  then show ?thesis using assms(2) by (simp add: bufs_kept_def)
qed

lemma sys_mmap_ok:
  fixes k :: "('s, 'm, 'z) Mem_scheme"
  assumes ok: "mem_ok S wfS N wfN k" and cur: "current_user_task c k = Some (Some (t, task))"
    and b: "0 < b" "b \<le> LOWER_HALF_END + 1" and n: "n = div_ceil b SIZE_4KIB"
  shows "\<exists>v k'. sys_mmap S X N M c b flags k = Some (v, k') \<and> mem_ok S wfS N wfN k' \<and> bufs_kept N k k' \<and>
    (if v = 0
     then sees (user_roots k) (t_cr3 task) 0 0 None (k_mmu k) (k_mmu k') \<and> task_covers S k' t = task_covers S k t \<and>
       (card (available_frames N (mu_pm (k_mmu k))) \<le> 4 * n \<or>
        \<not> (\<exists>a. a mod SIZE_4KIB = 0 \<and> USER_MIN \<le> a \<and> a + n * SIZE_4KIB \<le> USER_LIMIT \<and>
             (\<forall>x. a \<le> x \<and> x < a + n * SIZE_4KIB \<longrightarrow> \<not> task_covers S k t x)))
     else v mod SIZE_4KIB = 0 \<and> USER_MIN \<le> v \<and> v + n * SIZE_4KIB \<le> USER_LIMIT \<and>
       (\<forall>x. v \<le> x \<and> x < v + n * SIZE_4KIB \<longrightarrow> \<not> task_covers S k t x) \<and>
       (\<forall>x. task_covers S k' t x \<longleftrightarrow> task_covers S k t x \<or> v \<le> x \<and> x < v + n * SIZE_4KIB) \<and>
       sees (user_roots k) (t_cr3 task) v (n * SIZE_4KIB) (Some 0) (k_mmu k) (k_mmu k') \<and>
       page_flags_in (k_mmu k') (t_cr3 task) v (n * SIZE_4KIB) (mmap_flags flags))"
proof -
  let ?vset = "ti_user_vaddr_set (t_inner task)" and ?root = "t_cr3 task" and ?u = "k_mmu k" and ?hhdm = "k_hhdm k"
  have ut: "is_user_task k t task" by (rule current_user_task_user [OF cur])
  then have tk: "k_tasks k t = Some task" by (simp add: is_user_task_def)
  have root: "?root \<in> user_roots k" by (rule user_task_root [OF ut])
  have mmu: "mmu_ok N wfN ?hhdm (user_roots k) ?u" and vs: "vset_ok S wfS (mu_tables ?u) ?root ?vset"
    using ok ut unfolding mem_ok_def by blast+
  have sp: "spaces_ok N (user_roots k) (mu_pm ?u) (mu_tables ?u)" "pm_ok N wfN (mu_pm ?u)" "hhdm_fits N ?hhdm (mu_pm ?u)"
    using mmu by (simp_all add: mmu_ok_def)
  have wf: "wfS ?vset" using vs by (simp add: vset_ok_def)
  have n': "0 < n" "n * SIZE_4KIB \<le> LOWER_HALF_END + 1" using page_count [OF b] n by simp_all
  have lim: "USER_LIMIT = LOWER_HALF_END + 1" "USER_MAX = LOWER_HALF_END" by (simp_all add: USER_LIMIT_def LOWER_HALF_END_def USER_MAX_def)
  have tc: "task_covers S k t x \<longleftrightarrow> covered (ns_iter S ?vset) x" for x by (simp add: task_covers_def tk)
  have fl: "pf_present (mmap_flags flags)" "\<not> pf_huge_page (mmap_flags flags)" by (simp_all add: mmap_flags_def no_flags_def)
  have le: "a + n * SIZE_4KIB - 1 \<le> USER_MAX \<longleftrightarrow> a + n * SIZE_4KIB \<le> USER_LIMIT" for a
    using n'(1) unfolding lim by (cases n) (simp_all add: SIZE_4KIB_def)
  have tc': "task_covers S (set_vaddr_set t s (k \<lparr> k_mmu := u \<rparr>)) t x \<longleftrightarrow> covered (ns_iter S s) x" for s u x
    by (simp add: task_covers_def set_vaddr_set_def upd_task_def tk)
  from sp.allocate_user_pages_spec [OF wf n'] show ?thesis
  proof
    assume h: "allocate_user_pages S ?vset n = Some (None, ?vset) \<and>
            \<not> (\<exists>a. a mod SIZE_4KIB = 0 \<and> USER_MIN \<le> a \<and> a + n * SIZE_4KIB - 1 \<le> USER_MAX \<and> space_free S ?vset a (n * SIZE_4KIB))"
    have "sys_mmap S X N M c b flags k = Some (0, k)" using h b(1) cur unfolding n by (simp add: sys_mmap_def)
    moreover have "sees (user_roots k) ?root 0 0 None ?u ?u" by (simp add: sees_def)
    ultimately show ?thesis using ok h unfolding le space_free_def by (intro exI [of _ 0] exI [of _ k]) (simp add: tc bufs_kept_def)
  next
    assume "\<exists>a s'. allocate_user_pages S ?vset n = Some (Some a, s') \<and> a mod SIZE_4KIB = 0 \<and> USER_MIN \<le> a \<and>
            a + n * SIZE_4KIB - 1 \<le> USER_MAX \<and> space_free S ?vset a (n * SIZE_4KIB) \<and> wfS s' \<and> space_added S ?vset a (n * SIZE_4KIB) s' \<and>
            (\<forall>b. b mod SIZE_4KIB = 0 \<and> USER_MIN \<le> b \<and> b + n * SIZE_4KIB - 1 \<le> USER_MAX \<and> space_free S ?vset b (n * SIZE_4KIB) \<longrightarrow> a \<le> b)"
    then obtain a s' where al: "allocate_user_pages S ?vset n = Some (Some a, s')" "a mod SIZE_4KIB = 0" "USER_MIN \<le> a"
        "a + n * SIZE_4KIB \<le> USER_LIMIT" "space_free S ?vset a (n * SIZE_4KIB)" "wfS s'" "space_added S ?vset a (n * SIZE_4KIB) s'"
      unfolding le by (elim exE conjE) (rule that)
    have free: "\<forall>x. a \<le> x \<and> x < a + n * SIZE_4KIB \<longrightarrow> translate (mu_tables ?u) ?root x = None"
      using vs al(4,5) unfolding vset_ok_def space_free_def by (meson less_le_trans)
    obtain r u' where m: "fresh_pages X N M ?hhdm UsedByUserMode ?root a (mmap_flags flags) [0..<n] [] ?u = Some (r, u')"
        "case r of
           Some fr' \<Rightarrow> length fr' = n \<and> (\<exists>fs'. fresh_run N wfN (user_roots k) ?root a (mmap_flags flags) UsedByUserMode ?u fs' fr' u')
         | None \<Rightarrow> (\<exists>fs'. fresh_run N wfN (user_roots k) ?root a (mmap_flags flags) UsedByUserMode ?u fs' [] u') \<and>
             card (available_frames N (mu_pm ?u)) \<le> 4 * n"
      using fresh_pages_ok [OF sp(1) _ root al(2,4) free sp(3) fl fresh_run_start [OF sp(1,2)], of UsedByUserMode] by auto
    have mp: "mmap_pages X N M ?hhdm ?root a (mmap_flags flags) [0..<n] ?u = Some (r \<noteq> None, u')"
      by (simp add: mmap_pages_fresh [where frames = "[]"] m(1))
    note run_sys = sys_mmap_def cur al(1) open_mapper_ok [OF mmu root] mp n [symmetric]
    show ?thesis
    proof (cases r)
      case (Some fr')
      then obtain fs' where f: "length fr' = n" "fresh_run N wfN (user_roots k) ?root a (mmap_flags flags) UsedByUserMode ?u fs' fr' u'"
        using m(2) by auto
      let ?k' = "set_vaddr_set t s' (k \<lparr> k_mmu := u' \<rparr>)"
      have "sys_mmap S X N M c b flags k = Some (a, ?k')" using b(1) Some by (simp add: run_sys)
      moreover have "vset_ok S wfS (mu_tables u') ?root s'"
        by (rule vset_ok_fresh_run [OF vs f(2) root al(6)]) (use al(4,7) f(1) in \<open>simp_all add: space_added_def\<close>)
      then have "mem_ok S wfS N wfN ?k'"
        by (rule mem_ok_update [OF ok ut mmu_ok_fresh_run [OF mmu f(2)] _ fresh_run_other [OF f(2)]])
      moreover have "sees (user_roots k) ?root a (n * SIZE_4KIB) (Some 0) ?u (k_mmu ?k')"
        using fresh_run_sees [OF f(2) sp(1) al(2)] f(1) by simp
      moreover have "bufs_kept N k ?k'" by (rule fresh_run_bufs [OF f(2)]) simp
      moreover have "page_flags_in (k_mmu ?k') ?root a (n * SIZE_4KIB) (mmap_flags flags)"
        using f root al(4) unfolding page_flags_in_def fresh_run_def run_mapped_def by (auto simp: run_entry_def)
      moreover have "a \<noteq> 0" using al(3) by (simp add: USER_MIN_def)
      ultimately show ?thesis using al(2-5,7) unfolding space_free_def space_added_def
        by (intro exI [of _ a] exI [of _ ?k']) (simp add: tc tc')
    next
      case None
      then obtain fs' where f: "fresh_run N wfN (user_roots k) ?root a (mmap_flags flags) UsedByUserMode ?u fs' [] u'"
          "card (available_frames N (mu_pm ?u)) \<le> 4 * n" using m(2) by auto
      have "space_used S s' a (n * SIZE_4KIB)" using al(7) by (simp add: space_added_def space_used_def)
      then obtain s2 where s2: "free_user_pages S s' a (n * SIZE_4KIB) = Some (True, s2)" "wfS s2" "space_removed S s' a (n * SIZE_4KIB) s2"
        using sp.free_user_pages_spec [OF al(6), of "n * SIZE_4KIB" a] n' al(4) by (auto simp: USER_LIMIT_def U64_LIMIT_num SIZE_4KIB_def)
      have cov: "covered (ns_iter S s2) x \<longleftrightarrow> covered (ns_iter S ?vset) x" for x
        using s2(3) al(5,7) unfolding space_removed_def space_added_def space_free_def by blast
      let ?k' = "set_vaddr_set t s2 (k \<lparr> k_mmu := u' \<rparr>)"
      have "mul_u64 n SIZE_4KIB = Some (n * SIZE_4KIB)" using n'(2) by (simp add: mul_u64_def LOWER_HALF_END_def U64_LIMIT_num)
      then have "sys_mmap S X N M c b flags k = Some (0, ?k')" using b(1) None s2(1) by (simp add: run_sys)
      moreover have "\<forall>x. covered (ns_iter S s2) x \<longleftrightarrow> covered (ns_iter S ?vset) x \<or> a \<le> x \<and> x < a + length ([] :: nat list) * SIZE_4KIB"
        unfolding cov by auto
      then have "vset_ok S wfS (mu_tables u') ?root s2"
        by (rule vset_ok_fresh_run [OF vs f(1) root s2(2)]) (use al(4) in simp)
      then have "mem_ok S wfS N wfN ?k'"
        by (rule mem_ok_update [OF ok ut mmu_ok_fresh_run [OF mmu f(1)] _ fresh_run_other [OF f(1)]])
      moreover have "sees (user_roots k) ?root 0 0 None ?u (k_mmu ?k')"
        using fresh_run_sees [OF f(1) sp(1) al(2)] unfolding sees_def by auto
      moreover have "bufs_kept N k ?k'" by (rule fresh_run_bufs [OF f(1)]) simp
      moreover have "task_covers S ?k' t = task_covers S k t" by (rule ext) (simp add: tc tc' cov)
      ultimately show ?thesis using f(2) by (intro exI [of _ 0] exI [of _ ?k']) simp
    qed
  qed
qed

lemma unmapped_sees:
  assumes "range_unmapped roots root start n (mu_tables u) t"
  shows "sees roots root start (n * SIZE_4KIB) None u (u \<lparr> mu_pm := pm, mu_tables := t \<rparr>)"
  using assms unfolding sees_def range_unmapped_def user_byte_def by simp

lemma sys_munmap_ok:
  fixes k :: "('s, 'm, 'z) Mem_scheme"
  assumes ok: "mem_ok S wfS N wfN k" and cur: "current_user_task c k = Some (Some (t, task))"
    and b: "0 < b" "addr mod SIZE_4KIB = 0" and n: "n = div_ceil b SIZE_4KIB" and lim: "addr + n * SIZE_4KIB < U64_LIMIT"
  shows "if \<forall>x. addr \<le> x \<and> x < addr + n * SIZE_4KIB \<longrightarrow> task_covers S k t x
    then \<exists>k'. sys_munmap S X N M c addr b k = Some (0, k') \<and> mem_ok S wfS N wfN k' \<and>
      (\<forall>x. task_covers S k' t x \<longleftrightarrow> task_covers S k t x \<and> \<not> (addr \<le> x \<and> x < addr + n * SIZE_4KIB)) \<and>
      sees (user_roots k) (t_cr3 task) addr (n * SIZE_4KIB) None (k_mmu k) (k_mmu k') \<and>
      retyped_frames N (mu_pm (k_mmu k)) (freed_frames N (mu_pm (k_mmu k)) (mu_tables (k_mmu k)) (Some UsedByUserMode) (t_cr3 task) addr n)
        Usable (mu_pm (k_mmu k'))
    else sys_munmap S X N M c addr b k = Some (u64_MAX, k)"
proof -
  let ?vset = "ti_user_vaddr_set (t_inner task)" and ?root = "t_cr3 task" and ?u = "k_mmu k" and ?len = "n * SIZE_4KIB"
  have ut: "is_user_task k t task" by (rule current_user_task_user [OF cur])
  then have tk: "k_tasks k t = Some task" by (simp add: is_user_task_def)
  have root: "?root \<in> user_roots k" by (rule user_task_root [OF ut])
  have mmu: "mmu_ok N wfN (k_hhdm k) (user_roots k) ?u" and vs: "vset_ok S wfS (mu_tables ?u) ?root ?vset"
    using ok ut unfolding mem_ok_def by blast+
  have sp: "spaces_ok N (user_roots k) (mu_pm ?u) (mu_tables ?u)" "pm_ok N wfN (mu_pm ?u)" "hhdm_fits N (k_hhdm k) (mu_pm ?u)"
    using mmu by (simp_all add: mmu_ok_def)
  have wf: "wfS ?vset" using vs by (simp add: vset_ok_def)
  have np: "0 < n" using div_ceil_pos [OF SIZE_4KIB_pos b(1)] n by simp
  then have len: "0 < ?len" "mul_u64 n SIZE_4KIB = Some ?len" using lim by (simp_all add: mul_u64_def)
  have tc: "task_covers S k t x \<longleftrightarrow> covered (ns_iter S ?vset) x" for x by (simp add: task_covers_def tk)
  note fp = sp.free_user_pages_spec [OF wf len(1), of addr]
  note run_sys = sys_munmap_def cur n [symmetric] len(2)
  show ?thesis
  proof (cases "\<forall>x. addr \<le> x \<and> x < addr + ?len \<longrightarrow> task_covers S k t x")
    case True
    then have "space_used S ?vset addr ?len" by (simp add: space_used_def tc)
    then obtain s' where s': "free_user_pages S ?vset addr ?len = Some (True, s')" "wfS s'" "space_removed S ?vset addr ?len s'"
      using fp lim by auto
    have "task_covers S k t (addr + (?len - 1))" using True len(1) by simp
    then have "addr + (?len - 1) < USER_LIMIT" using vs tc unfolding vset_ok_def by blast
    then have l: "addr + ?len \<le> USER_LIMIT" using len(1) by simp
    obtain pm t' where
      un: "unmap_pages X N M (Some UsedByUserMode) ?root addr n ?u = Some (?u \<lparr> mu_pm := pm, mu_tables := t' \<rparr>)"
        "spaces_ok N (user_roots k) pm t'" "pm_ok N wfN pm" "range_unmapped (user_roots k) ?root addr n (mu_tables ?u) t'"
        "retyped_frames N (mu_pm ?u) (freed_frames N (mu_pm ?u) (mu_tables ?u) (Some UsedByUserMode) ?root addr n) Usable pm"
      using unmap_pages_ok [OF sp(1,2) root b(2) l private_sole_user [OF sp(1)]] by blast
    let ?u' = "?u \<lparr> mu_pm := pm, mu_tables := t' \<rparr>" let ?k' = "set_vaddr_set t s' (k \<lparr> k_mmu := ?u' \<rparr>)"
    have e1: "sys_munmap S X N M c addr b k = Some (0, ?k')"
      using b s'(1) un(1) open_mapper_ok [OF mmu root] by (simp add: run_sys)
    have "hhdm_fits N (k_hhdm k) pm"
      by (rule hhdm_retype [OF sp(3) un(5)]) (auto simp: freed_frames_def)
    then have "mmu_ok N wfN (k_hhdm k) (user_roots k) ?u'" using un(2,3) by (simp add: mmu_ok_def)
    then have e2: "mem_ok S wfS N wfN ?k'"
    proof (rule mem_ok_update [OF ok ut])
      show "vset_ok S wfS (mu_tables ?u') ?root s'"
        using vs s'(2,3) un(4) root unfolding vset_ok_def range_unmapped_def space_removed_def by auto
    qed (use un(4) in \<open>simp add: range_unmapped_def\<close>)
    have e3: "task_covers S ?k' t x \<longleftrightarrow> task_covers S k t x \<and> \<not> (addr \<le> x \<and> x < addr + ?len)" for x
      unfolding tc using s'(3) by (simp add: task_covers_def set_vaddr_set_def upd_task_def tk space_removed_def)
    have e4: "sees (user_roots k) ?root addr ?len None ?u (k_mmu ?k')" using unmapped_sees [OF un(4)] by simp
    have e5: "mu_pm (k_mmu ?k') = pm" by simp
    show ?thesis unfolding if_P [OF True]
      by (intro exI [of _ ?k'] conjI allI, rule e1, rule e2, rule e3, rule e4, unfold e5, rule un(5))
  next
    case False
    then have "free_user_pages S ?vset addr ?len = Some (False, ?vset)" using fp lim by (auto simp: space_used_def tc)
    then show ?thesis using b unfolding if_not_P [OF False] by (simp add: run_sys)
  qed
qed

end

interpretation list_user_memory: user_memory list_map_ops ivls_ok x86_arith_ops walk_mapper list_set_ops ivls_ok
  by standard

section \<open>A machine with two user tasks\<close>

text \<open>Task 1 runs on CPU 0 and task 2 on CPU 1, each with an empty page table and one recorded range.
  Frames 0x1000 and 0x2000 hold the tables, the frames from 0x3000 on are free.\<close>

definition pages_task :: "nat \<Rightarrow> (interval \<times> unit) list Task" where
  "pages_task i =
     \<lparr> t_inner = \<lparr> ti_context = CpuContext_default \<lparr> ctx_cs := 0x23 \<rparr>,
                   ti_kernel_stack = \<lparr> gs_top = 0, gs_guard_page = 0, gs_n_virtual_pages = 0 \<rparr>,
                   ti_kernel_stack_top = 0x10000 * i, ti_user_page_table = Some (0x1000 * i),
                   ti_user_vaddr_set = [((0x1000, 0x1FFF), ())], ti_owned_endpoints = [], ti_registered_services = [] \<rparr>,
       t_id = i, t_state = Running, t_kind = User, t_cr3 = 0x1000 * i, t_exit_code = 0,
       t_exit_waiter = None, t_cpu_ticks = 0 \<rparr>"

definition pages_mmu :: "(interval \<times> MemoryType) list Mmu" where
  "pages_mmu =
     \<lparr> mu_pm = \<lparr> pm_map = [((0x1000, 0x2FFF), UsedByUserMode), ((0x3000, 0xFFFFF), Usable)] \<rparr>,
       mu_tables = (\<lambda>_. PageTable_new), mu_bytes = (\<lambda>a. word_of_nat a) \<rparr>"

definition pages_machine :: "((interval \<times> unit) list, (interval \<times> MemoryType) list) Mem" where
  "pages_machine =
     \<lparr> k_cpus = [Some (sample_cpu 0 (Some 1) []), Some (sample_cpu 1 (Some 2) [])],
       k_tasks = [1 \<mapsto> pages_task 1, 2 \<mapsto> pages_task 2], k_task_table = {1, 2},
       k_next_spawn_cpu = 0, k_next_task_id = 3, k_ipis = [],
       k_hhdm = HIGHER_HALF_START, k_mmu = pages_mmu,
       k_virtual_memory = \<lparr> vm_set = [], vm_l4_phys_frame = 0 \<rparr>, k_new_kernel_cr3 = 0,
       k_shared_bufs = Map.empty, k_next_buf_id = 1 \<rparr>"

lemma empty_space: "tree user_slots (\<lambda>_. PageTable_new) 3 r" "user_tables (\<lambda>_. PageTable_new) r = {r}"
  "translate (\<lambda>_. PageTable_new) r a = None"
  unfolding user_tables_def translate_def by (rule fresh_table, rule refl)+

lemma pages_machine_types:
  "type_at list_map_ops (mu_pm pages_mmu) a =
     (if 0x1000 \<le> a \<and> a \<le> 0x2FFF then Some UsedByUserMode else if 0x3000 \<le> a \<and> a \<le> 0xFFFFF then Some Usable else None)"
  by (simp add: type_at_def pages_mmu_def list_map_ops_def)

lemma pages_machine_user: "is_user_task pages_machine t task \<longleftrightarrow> t = 1 \<and> task = pages_task 1 \<or> t = 2 \<and> task = pages_task 2"
  by (auto simp: is_user_task_def pages_machine_def pages_task_def)

lemma pages_machine_roots: "user_roots pages_machine = {0x1000, 0x2000}"
proof -
  have "user_roots pages_machine = {t_cr3 (pages_task 1), t_cr3 (pages_task 2)}"
    unfolding user_roots_def pages_machine_user by blast
  then show ?thesis by (simp add: pages_task_def)
qed

lemma pages_machine_ok: "mem_ok list_set_ops ivls_ok list_map_ops ivls_ok pages_machine"
proof -
  have "pm_ok list_map_ops ivls_ok (mu_pm pages_mmu)"
    by (auto simp: pm_ok_def pages_machine_types split: if_splits)
      (auto simp: pages_mmu_def ivls_ok_def ivl_before_def U64_LIMIT_num PHYS_LIMIT_num)
  moreover have "hhdm_fits list_map_ops HIGHER_HALF_START (mu_pm pages_mmu)"
    by (auto simp: hhdm_fits_def pages_machine_types HIGHER_HALF_START_def U64_LIMIT_num split: if_splits)
  moreover have "spaces_ok list_map_ops {0x1000, 0x2000} (mu_pm pages_mmu) (\<lambda>_. PageTable_new)"
    by (rule spaces_okI) (auto simp: empty_space mapped_def frame_has_def pages_machine_types in_frame_def SIZE_4KIB_def)
  moreover have "vset_ok list_set_ops ivls_ok (\<lambda>_. PageTable_new) r [((0x1000, 0x1FFF), ())]" for r
    by (auto simp: vset_ok_def empty_space ivls_ok_def list_set_ops_def USER_LIMIT_def U64_LIMIT_num)
  ultimately show ?thesis
    by (auto simp: mem_ok_def mmu_ok_def pages_machine_roots pages_machine_user pages_task_def)
      (auto simp: pages_machine_def pages_mmu_def)
qed

lemma pages_machine_current:
  "current_user_task 0 pages_machine = Some (Some (1, pages_task 1))" "current_user_task 1 pages_machine = Some (Some (2, pages_task 2))"
  by (simp_all add: current_user_task_def get_cpu_def pages_machine_def sample_cpu_def pages_task_def)

lemma pages_machine_frames: "9 \<le> card (available_frames list_map_ops (mu_pm pages_mmu))"
proof -
  have "(\<lambda>i. (i + 3) * 4096) ` {..<9} \<subseteq> available_frames list_map_ops (mu_pm pages_mmu)"
    by (auto simp: available_frames_def frame_available_def pages_machine_types SIZE_4KIB_def)
  moreover have "available_frames list_map_ops (mu_pm pages_mmu) \<subseteq> {..0xFFFFF}"
    by (auto simp: available_frames_def frame_available_def pages_machine_types split: if_splits)
  then have "finite (available_frames list_map_ops (mu_pm pages_mmu))" by (rule finite_subset) simp
  ultimately have "card ((\<lambda>i. (i + 3) * 4096 :: nat) ` {..<9}) \<le> card (available_frames list_map_ops (mu_pm pages_mmu))"
    by (intro card_mono)
  moreover have "card ((\<lambda>i. (i + 3) * 4096 :: nat) ` {..<9}) = 9" by (subst card_image) (auto simp: inj_on_def)
  ultimately show ?thesis by simp
qed

lemma pages_machine_covers: "task_covers list_set_ops pages_machine 1 x \<longleftrightarrow> 0x1000 \<le> x \<and> x \<le> 0x1FFF"
  by (simp add: task_covers_def pages_machine_def pages_task_def list_set_ops_def)

section \<open>Properties\<close>

text \<open>C10. \<^verbatim>\<open>sys_mmap\<close> never panics for a request that fits the lower half. When it
  returns an address, that address is page aligned, the range was free, every byte of it reads as zero
  with exactly the requested permissions, and every other byte of every task's memory reads as before.
  When it returns 0, no task sees any change and the task's recorded ranges are as before; this happens
  only when there is no free range of that size or at most four frames per page are available. In both
  cases the address spaces stay isolated and the shared buffers are untouched.\<close>

theorem mmap_adds_zeroed_pages:
  fixes k :: "('s, 'm, 'z) Mem_scheme"
  assumes "user_memory N wfN X M S wfS" "mem_ok S wfS N wfN k" "current_user_task c k = Some (Some (t, task))"
    and "0 < b" "b \<le> LOWER_HALF_END + 1" "n = div_ceil b SIZE_4KIB"
  shows "\<exists>v k'. sys_mmap S X N M c b flags k = Some (v, k') \<and> mem_ok S wfS N wfN k' \<and> bufs_kept N k k' \<and>
    (if v = 0
     then sees (user_roots k) (t_cr3 task) 0 0 None (k_mmu k) (k_mmu k') \<and> task_covers S k' t = task_covers S k t \<and>
       (card (available_frames N (mu_pm (k_mmu k))) \<le> 4 * n \<or>
        \<not> (\<exists>a. a mod SIZE_4KIB = 0 \<and> USER_MIN \<le> a \<and> a + n * SIZE_4KIB \<le> USER_LIMIT \<and>
             (\<forall>x. a \<le> x \<and> x < a + n * SIZE_4KIB \<longrightarrow> \<not> task_covers S k t x)))
     else v mod SIZE_4KIB = 0 \<and> USER_MIN \<le> v \<and> v + n * SIZE_4KIB \<le> USER_LIMIT \<and>
       (\<forall>x. v \<le> x \<and> x < v + n * SIZE_4KIB \<longrightarrow> \<not> task_covers S k t x) \<and>
       (\<forall>x. task_covers S k' t x \<longleftrightarrow> task_covers S k t x \<or> v \<le> x \<and> x < v + n * SIZE_4KIB) \<and>
       sees (user_roots k) (t_cr3 task) v (n * SIZE_4KIB) (Some 0) (k_mmu k) (k_mmu k') \<and>
       page_flags_in (k_mmu k') (t_cr3 task) v (n * SIZE_4KIB) (mmap_flags flags))"
  by (rule user_memory.sys_mmap_ok [OF assms])

theorem mmap_adds_zeroed_pages_witness:
  "\<exists>v k'. sys_mmap list_set_ops x86_arith_ops list_map_ops walk_mapper 0 5000 MMAP_WRITE pages_machine = Some (v, k') \<and>
     mem_ok list_set_ops ivls_ok list_map_ops ivls_ok k' \<and>
     v \<noteq> 0 \<and> sees {0x1000, 0x2000} 0x1000 v 0x2000 (Some 0) pages_mmu (k_mmu k')"
proof -
  have n: "div_ceil 5000 SIZE_4KIB = 2" by (simp add: div_ceil_def SIZE_4KIB_def)
  have b: "0 < (5000 :: nat)" "5000 \<le> LOWER_HALF_END + 1" by (simp_all add: LOWER_HALF_END_def)
  have c: "t_cr3 (pages_task 1) = 0x1000" "k_mmu pages_machine = pages_mmu" "2 * SIZE_4KIB = 0x2000"
    by (simp_all add: pages_task_def pages_machine_def SIZE_4KIB_def)
  have "\<not> card (available_frames list_map_ops (mu_pm pages_mmu)) \<le> 4 * 2" using pages_machine_frames by simp
  moreover have "\<exists>a. a mod SIZE_4KIB = 0 \<and> USER_MIN \<le> a \<and> a + 0x2000 \<le> USER_LIMIT \<and>
      (\<forall>x. a \<le> x \<and> x < a + 0x2000 \<longrightarrow> \<not> task_covers list_set_ops pages_machine 1 x)"
    unfolding pages_machine_covers by (rule exI [of _ "0x2000"]) (simp add: SIZE_4KIB_def USER_MIN_def USER_LIMIT_def)
  moreover have "\<exists>v k'. sys_mmap list_set_ops x86_arith_ops list_map_ops walk_mapper 0 5000 MMAP_WRITE pages_machine = Some (v, k') \<and>
      mem_ok list_set_ops ivls_ok list_map_ops ivls_ok k' \<and>
      (v = 0 \<longrightarrow> card (available_frames list_map_ops (mu_pm pages_mmu)) \<le> 4 * 2 \<or>
          \<not> (\<exists>a. a mod SIZE_4KIB = 0 \<and> USER_MIN \<le> a \<and> a + 0x2000 \<le> USER_LIMIT \<and>
             (\<forall>x. a \<le> x \<and> x < a + 0x2000 \<longrightarrow> \<not> task_covers list_set_ops pages_machine 1 x))) \<and>
      (v \<noteq> 0 \<longrightarrow> sees {0x1000, 0x2000} 0x1000 v 0x2000 (Some 0) pages_mmu (k_mmu k'))"
    using mmap_adds_zeroed_pages [where flags = MMAP_WRITE, OF list_user_memory.user_memory_axioms pages_machine_ok pages_machine_current(1) b n [symmetric]]
    unfolding c pages_machine_roots
    by (elim exE conjE) (intro exI conjI, assumption, assumption, simp_all only: if_True if_False simp_thms split: if_splits)
  ultimately show ?thesis by meson
qed

text \<open>C11. \<^verbatim>\<open>sys_munmap\<close> of an aligned range refuses a range that is not wholly recorded for the
  task and changes nothing. Otherwise the range is no longer readable by the task or recorded for it,
  the private frames it was mapped to become free, and every other byte of every task's memory reads
  as before; the address spaces stay isolated.\<close>

theorem munmap_removes_pages:
  fixes k :: "('s, 'm, 'z) Mem_scheme"
  assumes "user_memory N wfN X M S wfS" "mem_ok S wfS N wfN k" "current_user_task c k = Some (Some (t, task))"
    and "0 < b" "addr mod SIZE_4KIB = 0" "n = div_ceil b SIZE_4KIB" "addr + n * SIZE_4KIB < U64_LIMIT"
  shows "if \<forall>x. addr \<le> x \<and> x < addr + n * SIZE_4KIB \<longrightarrow> task_covers S k t x
    then \<exists>k'. sys_munmap S X N M c addr b k = Some (0, k') \<and> mem_ok S wfS N wfN k' \<and>
      (\<forall>x. task_covers S k' t x \<longleftrightarrow> task_covers S k t x \<and> \<not> (addr \<le> x \<and> x < addr + n * SIZE_4KIB)) \<and>
      sees (user_roots k) (t_cr3 task) addr (n * SIZE_4KIB) None (k_mmu k) (k_mmu k') \<and>
      retyped_frames N (mu_pm (k_mmu k)) (freed_frames N (mu_pm (k_mmu k)) (mu_tables (k_mmu k)) (Some UsedByUserMode) (t_cr3 task) addr n)
        Usable (mu_pm (k_mmu k'))
    else sys_munmap S X N M c addr b k = Some (u64_MAX, k)"
  by (rule user_memory.sys_munmap_ok [OF assms])

theorem munmap_removes_pages_witness:
  "sys_munmap list_set_ops x86_arith_ops list_map_ops walk_mapper 0 0x5000 100 pages_machine = Some (u64_MAX, pages_machine) \<and>
   (\<exists>k'. sys_munmap list_set_ops x86_arith_ops list_map_ops walk_mapper 0 0x1000 100 pages_machine = Some (0, k') \<and>
     mem_ok list_set_ops ivls_ok list_map_ops ivls_ok k')"
proof -
  have n: "div_ceil 100 SIZE_4KIB = 1" by (simp add: div_ceil_def SIZE_4KIB_def)
  have p: "0 < (100 :: nat)" "(0x5000 :: nat) mod SIZE_4KIB = 0" "0x5000 + div_ceil 100 SIZE_4KIB * SIZE_4KIB < U64_LIMIT"
      "(0x1000 :: nat) mod SIZE_4KIB = 0" "0x1000 + div_ceil 100 SIZE_4KIB * SIZE_4KIB < U64_LIMIT"
    unfolding n by (simp_all add: SIZE_4KIB_def U64_LIMIT_num)
  note tc = pages_machine_covers
  have no: "\<not> (\<forall>x. 0x5000 \<le> x \<and> x < 0x5000 + div_ceil 100 SIZE_4KIB * SIZE_4KIB \<longrightarrow> task_covers list_set_ops pages_machine 1 x)"
    unfolding tc n by (auto simp: SIZE_4KIB_def)
  have yes: "\<forall>x. 0x1000 \<le> x \<and> x < 0x1000 + div_ceil 100 SIZE_4KIB * SIZE_4KIB \<longrightarrow> task_covers list_set_ops pages_machine 1 x"
    unfolding tc n by (auto simp: SIZE_4KIB_def)
  note m = munmap_removes_pages [OF list_user_memory.user_memory_axioms pages_machine_ok pages_machine_current(1) p(1)]
  show ?thesis using m [OF p(2) refl p(3), unfolded if_not_P [OF no]] m [OF p(4) refl p(5), unfolded if_P [OF yes]] by blast
qed

text \<open>A request whose size rounds up to the whole 64-bit address space makes the kernel panic: the
  number of bytes overflows in the search for a range. Any user task can make that request.\<close>

theorem mmap_huge_panics:
  fixes k :: "('s, 'm, 'z) Mem_scheme"
  assumes "current_user_task c k = Some (Some (t, task))" "U64_LIMIT - SIZE_4KIB < b" "b < U64_LIMIT"
  shows "sys_mmap S X N M c b flags k = panic"
proof -
  have "U64_LIMIT \<le> div_ceil b SIZE_4KIB * SIZE_4KIB"
  proof (rule ccontr)
    assume "\<not> ?thesis"
    then have "div_ceil b SIZE_4KIB * SIZE_4KIB \<le> U64_LIMIT - SIZE_4KIB"
      using mult_le_cancel2 [of _ SIZE_4KIB "4503599627370495"] by (simp add: U64_LIMIT_num SIZE_4KIB_def)
    then show False using div_ceil_bounds [OF SIZE_4KIB_pos, of b] assms(2) by linarith
  qed
  then have "allocate_user_pages S (ti_user_vaddr_set (t_inner task)) (div_ceil b SIZE_4KIB) = panic"
    by (simp add: allocate_user_pages_def mul_u64_def)
  then show ?thesis using assms by (simp add: sys_mmap_def U64_LIMIT_num SIZE_4KIB_def)
qed

theorem mmap_huge_panics_witness:
  "sys_mmap list_set_ops x86_arith_ops list_map_ops walk_mapper 0 u64_MAX MMAP_WRITE pages_machine = panic"
  by (rule mmap_huge_panics [OF pages_machine_current(1)]) (simp_all add: u64_MAX_num U64_LIMIT_num SIZE_4KIB_def)

end
