(* ===== verification/Shared_Buffers.thy ===== *)
theory Shared_Buffers
  imports Memory_Syscalls Syscall_Base
begin

text \<open>
  Buffers of physical memory shared between tasks: \<^verbatim>\<open>shared_buf.rs\<close> and the three system
  calls on them in \<^verbatim>\<open>syscall_handlers/memory.rs\<close>. A buffer is a list of frames in a global
  registry. Creating one maps fresh frames into the caller; mapping one maps the same frames into
  another task, so that both tasks reach the same bytes; destroying one frees the frames.

  The system call that returns an address through a pointer stores it through the caller's page
  tables: \<open>store_bytes\<close> stops with a panic at a byte that is not mapped or not writable, which is what
  the page-fault handler makes of such a fault in the kernel.
\<close>

section \<open>Operations\<close>

definition shared_flags :: PageTableFlags where
  "shared_flags = no_flags \<lparr> pf_present := True, pf_writable := True, pf_user_accessible := True, pf_no_execute := True \<rparr>"

definition create_shared_buf ::
    "'s nodit_set_ops \<Rightarrow> x86_ops \<Rightarrow> ('m, MemoryType) nodit_map_ops \<Rightarrow> 'm PhysicalMemoryFrameAllocator mapper_ops \<Rightarrow>
     nat \<Rightarrow> 's Task \<Rightarrow> nat \<Rightarrow> ('s, 'm, 'z) Mem_scheme \<Rightarrow> ((nat \<times> nat) option \<times> ('s, 'm, 'z) Mem_scheme) rust" where
  "create_shared_buf S X N M t task n_pages k =
     do { (a, vset) \<leftarrow> allocate_user_pages S (ti_user_vaddr_set (t_inner task)) n_pages;
          case a of
            None \<Rightarrow> Some (None, k)
          | Some start_vaddr \<Rightarrow>
              do { root \<leftarrow> open_mapper X (k_hhdm k) (t_cr3 task);
                   (r, u) \<leftarrow> create_shared_pages X N M (k_hhdm k) root start_vaddr shared_flags [0..<n_pages] [] (k_mmu k);
                   case r of
                     None \<Rightarrow>
                       do { b \<leftarrow> mul_u64 n_pages SIZE_4KIB;
                            (_, vset') \<leftarrow> free_user_pages S vset start_vaddr b;
                            Some (None, set_vaddr_set t vset' (k \<lparr> k_mmu := u \<rparr>)) }
                   | Some frames \<Rightarrow>
                       Some (Some (k_next_buf_id k, start_vaddr),
                         (set_vaddr_set t vset (k \<lparr> k_mmu := u \<rparr>))
                           \<lparr> k_shared_bufs := (k_shared_bufs k)(k_next_buf_id k \<mapsto> frames),
                             k_next_buf_id := fetch_add_1 (k_next_buf_id k) \<rparr>) } }"

text \<open>The loop of \<^verbatim>\<open>map_shared_buf\<close>.\<close>

primrec map_shared_pages ::
    "x86_ops \<Rightarrow> ('m, MemoryType) nodit_map_ops \<Rightarrow> 'm PhysicalMemoryFrameAllocator mapper_ops \<Rightarrow> nat \<Rightarrow> nat \<Rightarrow>
     PageTableFlags \<Rightarrow> (nat \<times> nat) list \<Rightarrow> 'm Mmu \<Rightarrow> (bool \<times> 'm Mmu) rust" where
  "map_shared_pages X N M root start_vaddr page_flags [] u = Some (True, u)"
| "map_shared_pages X N M root start_vaddr page_flags (e # es) u =
     do { page \<leftarrow> page_of_range X start_vaddr (fst e);
          (r, u1) \<leftarrow> map_user_page X N M root page (snd e) page_flags u;
          case r of
            Inl _ \<Rightarrow> do { u2 \<leftarrow> rollback X N M root start_vaddr (fst e) False u1; Some (False, u2) }
          | Inr _ \<Rightarrow> map_shared_pages X N M root start_vaddr page_flags es u1 }"

definition map_shared_buf ::
    "'s nodit_set_ops \<Rightarrow> x86_ops \<Rightarrow> ('m, MemoryType) nodit_map_ops \<Rightarrow> 'm PhysicalMemoryFrameAllocator mapper_ops \<Rightarrow>
     nat \<Rightarrow> nat \<Rightarrow> 's Task \<Rightarrow> ('s, 'm, 'z) Mem_scheme \<Rightarrow> (nat option \<times> ('s, 'm, 'z) Mem_scheme) rust" where
  "map_shared_buf S X N M buf_id t task k =
     (case k_shared_bufs k buf_id of
        None \<Rightarrow> Some (None, k)
      | Some frames \<Rightarrow>
          let n_pages = length frames in
          do { (a, vset) \<leftarrow> allocate_user_pages S (ti_user_vaddr_set (t_inner task)) n_pages;
               case a of
                 None \<Rightarrow> Some (None, k)
               | Some start_vaddr \<Rightarrow>
                   do { root \<leftarrow> open_mapper X (k_hhdm k) (t_cr3 task);
                        (mapped_all, u) \<leftarrow> map_shared_pages X N M root start_vaddr shared_flags (enumerate 0 frames) (k_mmu k);
                        if mapped_all then Some (Some start_vaddr, set_vaddr_set t vset (k \<lparr> k_mmu := u \<rparr>))
                        else
                          do { b \<leftarrow> mul_u64 n_pages SIZE_4KIB;
                               (_, vset') \<leftarrow> free_user_pages S vset start_vaddr b;
                               Some (None, set_vaddr_set t vset' (k \<lparr> k_mmu := u \<rparr>)) } } })"

definition free_shared_frame ::
    "('m, MemoryType) nodit_map_ops \<Rightarrow> nat \<Rightarrow> 'm PhysicalMemory \<Rightarrow> 'm PhysicalMemory rust" where
  "free_shared_frame N frame pm = do { (_, pm') \<leftarrow> free_frame N pm frame SharedBuffer; Some pm' }"

definition destroy_shared_buf ::
    "('m, MemoryType) nodit_map_ops \<Rightarrow> nat \<Rightarrow> ('s, 'm, 'z) Mem_scheme \<Rightarrow> ('s, 'm, 'z) Mem_scheme rust" where
  "destroy_shared_buf N buf_id k =
     (case k_shared_bufs k buf_id of
        None \<Rightarrow> Some k
      | Some frames \<Rightarrow>
          do { pm \<leftarrow> fold_rust (free_shared_frame N) frames (mu_pm (k_mmu k));
               Some (k \<lparr> k_mmu := (k_mmu k) \<lparr> mu_pm := pm \<rparr>, k_shared_bufs := (k_shared_bufs k)(buf_id := None) \<rparr>) })"

primrec store_bytes :: "nat \<Rightarrow> nat \<Rightarrow> byte list \<Rightarrow> 'm Mmu \<Rightarrow> 'm Mmu rust" where
  "store_bytes cr3 a [] u = Some u"
| "store_bytes cr3 a (b # bs) u =
     do { e \<leftarrow> translate (mu_tables u) cr3 a;
          assert_that (pf_writable (pe_flags e));
          store_bytes cr3 (a + 1) bs (u \<lparr> mu_bytes := (mu_bytes u)(pe_addr e + a mod SIZE_4KIB := b) \<rparr>) }"

definition sys_create_shared_buf ::
    "'s nodit_set_ops \<Rightarrow> x86_ops \<Rightarrow> ('m, MemoryType) nodit_map_ops \<Rightarrow> 'm PhysicalMemoryFrameAllocator mapper_ops \<Rightarrow>
     nat \<Rightarrow> nat \<Rightarrow> nat \<Rightarrow> ('s, 'm, 'z) Mem_scheme \<Rightarrow> (nat \<times> ('s, 'm, 'z) Mem_scheme) rust" where
  "sys_create_shared_buf S X N M c size_bytes vaddr_out_ptr k =
     (if size_bytes = 0 then Some (u64_MAX, k)
      else
        do { valid \<leftarrow> validate_user_ptr S X c vaddr_out_ptr 8 k;
             if \<not> valid then Some (u64_MAX, k)
             else
               do { cur \<leftarrow> current_user_task c k;
                    case cur of
                      None \<Rightarrow> Some (u64_MAX, k)
                    | Some (t, task) \<Rightarrow>
                        do { (r, k1) \<leftarrow> create_shared_buf S X N M t task (div_ceil size_bytes SIZE_4KIB) k;
                             case r of
                               None \<Rightarrow> Some (u64_MAX, k1)
                             | Some (buf_id, vaddr) \<Rightarrow>
                                 do { cpu \<leftarrow> get_cpu k1 c;
                                      u \<leftarrow> store_bytes (hw_cr3 cpu) vaddr_out_ptr (u64_bytes vaddr) (k_mmu k1);
                                      Some (buf_id, k1 \<lparr> k_mmu := u \<rparr>) } } } })"

definition sys_map_shared_buf ::
    "'s nodit_set_ops \<Rightarrow> x86_ops \<Rightarrow> ('m, MemoryType) nodit_map_ops \<Rightarrow> 'm PhysicalMemoryFrameAllocator mapper_ops \<Rightarrow>
     nat \<Rightarrow> nat \<Rightarrow> ('s, 'm, 'z) Mem_scheme \<Rightarrow> (nat \<times> ('s, 'm, 'z) Mem_scheme) rust" where
  "sys_map_shared_buf S X N M c buf_id k =
     do { cur \<leftarrow> current_user_task c k;
          case cur of
            None \<Rightarrow> Some (0, k)
          | Some (t, task) \<Rightarrow>
              do { (r, k1) \<leftarrow> map_shared_buf S X N M buf_id t task k;
                   Some (case r of None \<Rightarrow> 0 | Some vaddr \<Rightarrow> vaddr, k1) } }"

definition sys_destroy_shared_buf ::
    "('m, MemoryType) nodit_map_ops \<Rightarrow> nat \<Rightarrow> ('s, 'm, 'z) Mem_scheme \<Rightarrow> (nat \<times> ('s, 'm, 'z) Mem_scheme) rust" where
  "sys_destroy_shared_buf N buf_id k = do { k1 \<leftarrow> destroy_shared_buf N buf_id k; Some (0, k1) }"

section \<open>The registry\<close>

text \<open>Buffers have ids below the next one, which has not wrapped; they fit the lower half, their frames
  are shared memory, and no frame belongs to two places.\<close>

definition buffers_ok :: "('m, MemoryType) nodit_map_ops \<Rightarrow> ('s, 'm, 'z) Mem_scheme \<Rightarrow> bool" where
  "buffers_ok N k \<longleftrightarrow> k_next_buf_id k < U64_LIMIT \<and>
     (\<forall>buf_id frames. k_shared_bufs k buf_id = Some frames \<longrightarrow> buf_id < k_next_buf_id k \<and> frames \<noteq> [] \<and> distinct frames \<and>
        length frames * SIZE_4KIB \<le> LOWER_HALF_END + 1 \<and> (\<forall>f\<in>set frames. frame_has N (mu_pm (k_mmu k)) f SharedBuffer)) \<and>
     (\<forall>buf_id frames buf_id' frames'. k_shared_bufs k buf_id = Some frames \<longrightarrow> k_shared_bufs k buf_id' = Some frames' \<longrightarrow> buf_id \<noteq> buf_id' \<longrightarrow>
        set frames \<inter> set frames' = {})"

text \<open>There are too few frames, or there is no free range of \<open>n\<close> pages.\<close>

definition out_of_room ::
    "'s nodit_set_ops \<Rightarrow> ('m, MemoryType) nodit_map_ops \<Rightarrow> ('s, 'm, 'z) Mem_scheme \<Rightarrow> 's Task \<Rightarrow> nat \<Rightarrow> nat \<Rightarrow> bool" where
  "out_of_room S N k task n frames_needed \<longleftrightarrow> card (available_frames N (mu_pm (k_mmu k))) \<le> frames_needed \<or>
     \<not> (\<exists>a. a mod SIZE_4KIB = 0 \<and> USER_MIN \<le> a \<and> a + n * SIZE_4KIB \<le> USER_LIMIT \<and>
          space_free S (ti_user_vaddr_set (t_inner task)) a (n * SIZE_4KIB))"

section \<open>Mapping a buffer\<close>

definition shared_run ::
    "('m, MemoryType) nodit_map_ops \<Rightarrow> ('m \<Rightarrow> bool) \<Rightarrow> nat set \<Rightarrow> nat \<Rightarrow> nat \<Rightarrow> PageTableFlags \<Rightarrow>
     'm Mmu \<Rightarrow> nat set \<Rightarrow> nat list \<Rightarrow> 'm Mmu \<Rightarrow> bool" where
  "shared_run N wfN roots root start fl u0 fs fr u \<longleftrightarrow>
     spaces_ok N roots (mu_pm u) (mu_tables u) \<and> pm_ok N wfN (mu_pm u) \<and>
     run_mapped roots root start fl fr (mu_tables u0) fs (mu_tables u) \<and>
     retyped_frames N (mu_pm u0) fs UsedByUserMode (mu_pm u) \<and> (\<forall>f\<in>fs. frame_has N (mu_pm u0) f Usable) \<and>
     available_frames N (mu_pm u) = available_frames N (mu_pm u0) - fs \<and> finite fs \<and> mu_bytes u = mu_bytes u0"

lemma shared_run_start:
  "spaces_ok N roots (mu_pm u) (mu_tables u) \<Longrightarrow> pm_ok N wfN (mu_pm u) \<Longrightarrow> shared_run N wfN roots root start fl u {} [] u"
  by (auto simp: shared_run_def run_mapped_def)

lemma shared_run_has:
  assumes "shared_run N wfN roots root start fl u0 fs fr u" "frame_has N (mu_pm u0) f ty" "ty \<noteq> Usable"
  shows "frame_has N (mu_pm u) f ty"
proof -
  have fs: "\<forall>g\<in>fs. frame_has N (mu_pm u0) g Usable" "retyped_frames N (mu_pm u0) fs UsedByUserMode (mu_pm u)"
    using assms(1) by (simp_all add: shared_run_def)
  have "f \<notin> fs" using fs(1) assms(2,3) frame_has_unique by blast
  moreover have "\<forall>g\<in>fs. g mod SIZE_4KIB = 0" by (rule ballI, rule frame_has_aligned, erule bspec [OF fs(1)])
  ultimately show ?thesis using retyped_has [OF fs(2), of f ty] assms(2) by simp
qed

context user_mappings
begin

lemma shared_rollback:
  assumes run: "shared_run N wfN roots root start fl u0 fs fr u"
    and root: "root \<in> roots" and start: "start mod SIZE_4KIB = 0" "start + length fr * SIZE_4KIB \<le> USER_LIMIT"
    and free: "\<forall>a. start \<le> a \<and> a < start + length fr * SIZE_4KIB \<longrightarrow> translate (mu_tables u0) root a = None"
  shows "\<exists>u'. rollback X N M root start (length fr) False u = Some u' \<and> shared_run N wfN roots root start fl u0 fs [] u'"
proof -
  let ?n = "length fr" and ?pm = "mu_pm u" and ?t = "mu_tables u"
  have R: "spaces_ok N roots ?pm ?t" "pm_ok N wfN ?pm" "run_mapped roots root start fl fr (mu_tables u0) fs ?t"
      "retyped_frames N (mu_pm u0) fs UsedByUserMode ?pm"
    using run by (simp_all add: shared_run_def)
  have F: "freed_frames N ?pm ?t None root start ?n = {}" by (simp add: freed_frames_def)
  obtain pm t where
    U: "unmap_pages X N M None root start ?n u = Some (u \<lparr> mu_pm := pm, mu_tables := t \<rparr>)" "spaces_ok N roots pm t" "pm_ok N wfN pm"
      "range_unmapped roots root start ?n ?t t" "retyped_frames N ?pm {} Usable pm"
    using unmap_pages_ok [OF R(1,2) root start none_sole_user] unfolding F by auto
  have "run_mapped roots root start fl [] (mu_tables u0) fs t"
  proof (unfold run_mapped_def, intro conjI ballI allI impI)
    fix r a assume r: "r \<in> roots" "a < USER_LIMIT"
    have "translate t r a = (if r = root \<and> start \<le> a \<and> a < start + ?n * SIZE_4KIB then None else translate ?t r a)"
      using U(4) r unfolding range_unmapped_def by blast
    also have "\<dots> = translate (mu_tables u0) r a" using R(3) r free unfolding run_mapped_def by auto
    finally show "translate t r a = (if r = root \<and> start \<le> a \<and> a < start + length [] * SIZE_4KIB then Some (run_entry start fl [] a)
        else translate (mu_tables u0) r a)" by auto
  next
    fix r assume "r \<in> roots"
    then show "user_tables t r = (if r = root then user_tables (mu_tables u0) root \<union> fs else user_tables (mu_tables u0) r)"
      using U(4) R(3) unfolding range_unmapped_def run_mapped_def by auto
  qed
  moreover have "retyped_frames N (mu_pm u0) fs UsedByUserMode pm" using U(5) R(4) unfolding retyped_frames_def by simp
  moreover have "available_frames N pm = available_frames N ?pm"
    using U(5) by (simp add: available_frames_def frame_available_def retyped_frames_def)
  ultimately have "shared_run N wfN roots root start fl u0 fs [] (u \<lparr> mu_pm := pm, mu_tables := t \<rparr>)"
    using U(2,3) run by (simp add: shared_run_def)
  then show ?thesis using U(1) by (simp add: rollback_def)
qed

lemma map_shared_pages_ok:
  assumes root: "root \<in> roots" and start: "start mod SIZE_4KIB = 0" "start + length frames * SIZE_4KIB \<le> USER_LIMIT"
    and free: "\<forall>a. start \<le> a \<and> a < start + length frames * SIZE_4KIB \<longrightarrow> translate (mu_tables u0) root a = None"
    and fl: "pf_present fl" "\<not> pf_huge_page fl" and fr: "\<forall>f\<in>set frames. frame_has N (mu_pm u0) f SharedBuffer"
    and run: "shared_run N wfN roots root start fl u0 fs done u" "card fs \<le> 3 * length done" and split: "frames = done @ rest"
  shows "\<exists>ok u' fs'. map_shared_pages X N M root start fl (enumerate (length done) rest) u = Some (ok, u') \<and>
    shared_run N wfN roots root start fl u0 fs' (if ok then frames else []) u' \<and>
    (\<not> ok \<longrightarrow> card (available_frames N (mu_pm u0)) \<le> 3 * length frames)"
  using run split
proof (induction rest arbitrary: "done" fs u)
  case Nil
  then show ?case by auto
next
  case (Cons f rest)
  let ?i = "length done" and ?p = "start + length done * SIZE_4KIB" and ?pm = "mu_pm u" and ?t = "mu_tables u"
  have R: "spaces_ok N roots ?pm ?t" "pm_ok N wfN ?pm" "run_mapped roots root start fl done (mu_tables u0) fs ?t"
      "retyped_frames N (mu_pm u0) fs UsedByUserMode ?pm" "\<forall>f\<in>fs. frame_has N (mu_pm u0) f Usable" "mu_bytes u = mu_bytes u0"
      "available_frames N ?pm = available_frames N (mu_pm u0) - fs" "finite fs"
    using Cons.prems(1) by (simp_all add: shared_run_def)
  have k: "Suc ?i * SIZE_4KIB \<le> length frames * SIZE_4KIB" by (rule mult_le_mono1) (use Cons.prems(3) in simp)
  have p: "?p < USER_LIMIT" "?p mod SIZE_4KIB = 0" "start + ?i * SIZE_4KIB \<le> USER_LIMIT" using start k by (simp_all add: SIZE_4KIB_def)
  have fp: "translate (mu_tables u0) root a = None" if "in_frame ?p a" for a using free k that by (auto simp: in_frame_def)
  have fb: "\<forall>a. start \<le> a \<and> a < start + ?i * SIZE_4KIB \<longrightarrow> translate (mu_tables u0) root a = None" using free k by auto
  have sb: "frame_has N ?pm f SharedBuffer" using shared_run_has [OF Cons.prems(1), of f SharedBuffer] fr Cons.prems(3) by simp
  have nt: "\<forall>r\<in>roots. f \<notin> user_tables ?t r" using spaces_tables [OF R(1)] frame_has_unique [OF sb] by blast
  have nu: "frame_has N ?pm f UsedByUserMode \<longrightarrow> (\<forall>r a e. mapped roots ?t r a e \<longrightarrow> pe_addr e \<noteq> f)"
    using frame_has_unique [OF sb] by blast
  have ut: "user_typed N ?pm f" using sb by (simp add: user_typed_def)
  obtain r t2 pm2 fs' where
    m: "map_user_page X N M root ?p f fl u = Some (r, u \<lparr> mu_pm := pm2, mu_tables := t2 \<rparr>)"
      "spaces_ok N roots pm2 t2" "pm_ok N wfN pm2" "retyped_frames N ?pm fs' UsedByUserMode pm2"
      "\<forall>g\<in>fs'. frame_has N ?pm g Usable" "available_frames N pm2 = available_frames N ?pm - fs'" "finite fs'" "card fs' \<le> 3"
      "case r of
         Inr _ \<Rightarrow> translate ?t root ?p = None \<and> page_changed roots root ?p (Some \<lparr> pe_addr = f, pe_flags = fl \<rparr>) ?t fs' t2
       | Inl _ \<Rightarrow> page_changed roots root ?p (translate ?t root ?p) ?t fs' t2 \<and>
           (translate ?t root ?p = None \<longrightarrow> (\<forall>g. \<not> frame_available N pm2 g))"
    by (rule map_user_page_ok [OF R(1,2) root p(1,2) fl ut nt nu], rule that)
  have al: "\<forall>g\<in>fs. g mod SIZE_4KIB = 0" by (rule ballI, rule frame_has_aligned, erule bspec [OF R(5)])
  have us: "\<forall>g\<in>fs \<union> fs'. frame_has N (mu_pm u0) g Usable"
    using R(5) m(5) retyped_has [OF R(4) al, of _ Usable] by (auto split: if_splits)
  have rt: "retyped_frames N (mu_pm u0) (fs \<union> fs') UsedByUserMode pm2" by (rule retyped_frames_Un [OF R(4) m(4)])
  have cd: "card (fs \<union> fs') \<le> 3 * Suc ?i" "finite (fs \<union> fs')" "available_frames N pm2 = available_frames N (mu_pm u0) - (fs \<union> fs')"
    using card_Un_le [of fs fs'] Cons.prems(2) m(6-8) R(7,8) by (auto simp del: Un_iff)
  let ?u2 = "u \<lparr> mu_pm := pm2, mu_tables := t2 \<rparr>"
  have pg: "page_of_range X start ?i = Some ?p" by (rule page_of_range_ok [OF start(1) p(1)])
  have tp: "translate ?t root ?p = None" using R(3) root p(1) fp [of ?p] unfolding run_mapped_def by simp
  show ?case
  proof (cases r)
    case (Inr v)
    then have "page_changed roots root ?p (Some \<lparr> pe_addr = f, pe_flags = fl \<rparr>) ?t fs' t2" using m(9) by simp
    from run_mapped_Suc(1) [OF R(3) this root refl]
    have "shared_run N wfN roots root start fl u0 (fs \<union> fs') (done @ [f]) ?u2"
      using m(2,3) rt us R(6) cd(2,3) by (simp add: shared_run_def)
    from Cons.IH [OF this] cd(1) Cons.prems(3) show ?thesis using m(1) Inr pg by simp
  next
    case (Inl err)
    then have "page_changed roots root ?p None ?t fs' t2" using m(9) tp by simp
    from run_mapped_Suc(2) [OF R(3) this root refl fp]
    have "shared_run N wfN roots root start fl u0 (fs \<union> fs') done ?u2"
      using m(2,3) rt us R(6) cd(2,3) by (simp add: shared_run_def)
    from shared_rollback [OF this root start(1) p(3) fb] obtain u3 where
      "rollback X N M root start ?i False ?u2 = Some u3" "shared_run N wfN roots root start fl u0 (fs \<union> fs') [] u3" by blast
    moreover have "available_frames N pm2 = {}" using m(9) Inl tp by (simp add: available_frames_def)
    then have "available_frames N (mu_pm u0) \<subseteq> fs \<union> fs'" using cd(3) by blast
    from card_mono [OF cd(2) this] cd(1) Cons.prems(3) have "card (available_frames N (mu_pm u0)) \<le> 3 * length frames" by simp
    ultimately show ?thesis using m(1) Inl pg by auto
  qed
qed

end

section \<open>The operations as a whole\<close>

text \<open>The range of the frames' pages at \<open>lo\<close> in the space \<open>cr3\<close> leads to the frames; every other
  address of every space leads where it did.\<close>

definition leads_to :: "nat set \<Rightarrow> nat \<Rightarrow> nat \<Rightarrow> nat list \<Rightarrow> 'm Mmu \<Rightarrow> 'm Mmu \<Rightarrow> bool" where
  "leads_to roots cr3 lo frames u u' \<longleftrightarrow>
     (\<forall>r\<in>roots. \<forall>a<USER_LIMIT. translate (mu_tables u') r a =
        (if r = cr3 \<and> lo \<le> a \<and> a < lo + length frames * SIZE_4KIB then Some (run_entry lo shared_flags frames a)
         else translate (mu_tables u) r a))"

lemma mem_ok_bufs [simp]: "mem_ok S wfS N wfN (k \<lparr> k_shared_bufs := b, k_next_buf_id := i \<rparr>) = mem_ok S wfS N wfN k"
proof -
  have "user_roots (k \<lparr> k_shared_bufs := b, k_next_buf_id := i \<rparr>) = user_roots k"
    "is_user_task (k \<lparr> k_shared_bufs := b, k_next_buf_id := i \<rparr>) = is_user_task k"
    by (simp_all add: user_roots_def is_user_task_def fun_eq_iff)
  then show ?thesis by (simp add: mem_ok_def)
qed

lemma run_leads_to:
  "run_mapped roots root start shared_flags fr (mu_tables u0) fs (mu_tables u) \<Longrightarrow> leads_to roots root start fr u0 u"
  by (simp add: leads_to_def run_mapped_def)

lemma leads_to_sees:
  "leads_to roots cr3 lo [] u u' \<Longrightarrow> mu_bytes u' = mu_bytes u \<Longrightarrow> sees roots cr3 0 0 None u u'"
  by (auto simp: sees_def leads_to_def user_byte_def)

text \<open>Buffers keep their frames when the types of other frames change.\<close>

lemma buffers_ok_update:
  fixes k k' :: "('s, 'm, 'z) Mem_scheme"
  assumes "buffers_ok N k" "k_shared_bufs k' = k_shared_bufs k" "k_next_buf_id k' = k_next_buf_id k"
    and "\<And>f. frame_has N (mu_pm (k_mmu k)) f SharedBuffer \<Longrightarrow> frame_has N (mu_pm (k_mmu k')) f SharedBuffer"
  shows "buffers_ok N k'"
  using assms unfolding buffers_ok_def by metis

context user_memory
begin

text \<open>Allocating a range for \<open>n\<close> pages, with what the mapping loops need to know about it.\<close>

lemma reserve_range:
  fixes k :: "('s, 'm, 'z) Mem_scheme"
  assumes ok: "mem_ok S wfS N wfN k" and ut: "is_user_task k t task" and n: "0 < n" "n * SIZE_4KIB \<le> LOWER_HALF_END + 1"
  obtains "allocate_user_pages S (ti_user_vaddr_set (t_inner task)) n = Some (None, ti_user_vaddr_set (t_inner task))"
      "\<And>b. out_of_room S N k task n b"
  | a s' s2 where "allocate_user_pages S (ti_user_vaddr_set (t_inner task)) n = Some (Some a, s')" "a mod SIZE_4KIB = 0" "USER_MIN \<le> a"
      "a + n * SIZE_4KIB \<le> USER_LIMIT" "\<forall>x. a \<le> x \<and> x < a + n * SIZE_4KIB \<longrightarrow> translate (mu_tables (k_mmu k)) (t_cr3 task) x = None"
      "wfS s'" "\<forall>x. covered (ns_iter S s') x \<longleftrightarrow> covered (ns_iter S (ti_user_vaddr_set (t_inner task))) x \<or> a \<le> x \<and> x < a + n * SIZE_4KIB"
      "free_user_pages S s' a (n * SIZE_4KIB) = Some (True, s2)" "wfS s2"
      "\<forall>x. covered (ns_iter S s2) x \<longleftrightarrow> covered (ns_iter S (ti_user_vaddr_set (t_inner task))) x"
      "mul_u64 n SIZE_4KIB = Some (n * SIZE_4KIB)"
proof -
  let ?vset = "ti_user_vaddr_set (t_inner task)" and ?len = "n * SIZE_4KIB"
  have vs: "vset_ok S wfS (mu_tables (k_mmu k)) (t_cr3 task) ?vset" using ok ut unfolding mem_ok_def by blast
  then have wf: "wfS ?vset" by (simp add: vset_ok_def)
  have lim: "USER_LIMIT = LOWER_HALF_END + 1" "USER_MAX = LOWER_HALF_END" by (simp_all add: USER_LIMIT_def LOWER_HALF_END_def USER_MAX_def)
  have le: "a + ?len - 1 \<le> USER_MAX \<longleftrightarrow> a + ?len \<le> USER_LIMIT" for a
    using n(1) unfolding lim by (cases n) (simp_all add: SIZE_4KIB_def)
  from sp.allocate_user_pages_spec [OF wf n] show ?thesis
  proof
    assume "\<exists>a s'. allocate_user_pages S ?vset n = Some (Some a, s') \<and> a mod SIZE_4KIB = 0 \<and> USER_MIN \<le> a \<and>
            a + ?len - 1 \<le> USER_MAX \<and> space_free S ?vset a ?len \<and> wfS s' \<and> space_added S ?vset a ?len s' \<and>
            (\<forall>b. b mod SIZE_4KIB = 0 \<and> USER_MIN \<le> b \<and> b + ?len - 1 \<le> USER_MAX \<and> space_free S ?vset b ?len \<longrightarrow> a \<le> b)"
    then obtain a s' where al: "allocate_user_pages S ?vset n = Some (Some a, s')" "a mod SIZE_4KIB = 0" "USER_MIN \<le> a"
        "a + ?len \<le> USER_LIMIT" "space_free S ?vset a ?len" "wfS s'" "space_added S ?vset a ?len s'"
      unfolding le by (elim exE conjE) (rule that)
    have free: "\<forall>x. a \<le> x \<and> x < a + ?len \<longrightarrow> translate (mu_tables (k_mmu k)) (t_cr3 task) x = None"
      using vs al(4,5) unfolding vset_ok_def space_free_def by (meson less_le_trans)
    have "space_used S s' a ?len" using al(7) by (simp add: space_added_def space_used_def)
    then obtain s2 where s2: "free_user_pages S s' a ?len = Some (True, s2)" "wfS s2" "space_removed S s' a ?len s2"
      using sp.free_user_pages_spec [OF al(6), of ?len a] n al(4) by (auto simp: USER_LIMIT_def U64_LIMIT_num SIZE_4KIB_def)
    have cov: "\<forall>x. covered (ns_iter S s2) x \<longleftrightarrow> covered (ns_iter S ?vset) x"
      using s2(3) al(5,7) unfolding space_removed_def space_added_def space_free_def by blast
    have "mul_u64 n SIZE_4KIB = Some ?len" using n(2) by (simp add: mul_u64_def LOWER_HALF_END_def U64_LIMIT_num)
    with al(7) that(2) [OF al(1-4) free al(6) _ s2(1,2) cov] show ?thesis by (simp add: space_added_def)
  next
    assume "allocate_user_pages S ?vset n = Some (None, ?vset) \<and>
      \<not> (\<exists>a. a mod SIZE_4KIB = 0 \<and> USER_MIN \<le> a \<and> a + ?len - 1 \<le> USER_MAX \<and> space_free S ?vset a ?len)"
    then show ?thesis unfolding le by (intro that(1)) (simp_all only: out_of_room_def simp_thms)
  qed
qed

lemma vset_ok_run:
  assumes v: "vset_ok S wfS (mu_tables u0) root vset" and run: "run_mapped roots root start fl fr (mu_tables u0) fs (mu_tables u)"
    and root: "root \<in> roots" and wf: "wfS vset'"
    and cov: "\<forall>a. covered (ns_iter S vset') a \<longleftrightarrow> covered (ns_iter S vset) a \<or> start \<le> a \<and> a < start + length fr * SIZE_4KIB"
    and lim: "start + length fr * SIZE_4KIB \<le> USER_LIMIT"
  shows "vset_ok S wfS (mu_tables u) root vset'"
proof -
  have "translate (mu_tables u) root a = (if start \<le> a \<and> a < start + length fr * SIZE_4KIB then Some (run_entry start fl fr a)
      else translate (mu_tables u0) root a)" if "a < USER_LIMIT" for a
    using run root that unfolding run_mapped_def by auto
  then show ?thesis using v wf cov lim unfolding vset_ok_def by auto
qed

lemma run_mem_ok:
  fixes k :: "('s, 'm, 'z) Mem_scheme"
  assumes ok: "mem_ok S wfS N wfN k" and ut: "is_user_task k t task"
    and run: "run_mapped (user_roots k) (t_cr3 task) start fl fr (mu_tables (k_mmu k)) fs (mu_tables u)"
    and u: "mmu_ok N wfN (k_hhdm k) (user_roots k) u" and wf: "wfS vset'"
    and cov: "\<forall>a. covered (ns_iter S vset') a \<longleftrightarrow>
      covered (ns_iter S (ti_user_vaddr_set (t_inner task))) a \<or> start \<le> a \<and> a < start + length fr * SIZE_4KIB"
    and lim: "start + length fr * SIZE_4KIB \<le> USER_LIMIT"
  shows "mem_ok S wfS N wfN (set_vaddr_set t vset' (k \<lparr> k_mmu := u \<rparr>))"
proof (rule mem_ok_update [OF ok ut u])
  have "vset_ok S wfS (mu_tables (k_mmu k)) (t_cr3 task) (ti_user_vaddr_set (t_inner task))" using ok ut unfolding mem_ok_def by blast
  from vset_ok_run [OF this run user_task_root [OF ut] wf cov lim] show "vset_ok S wfS (mu_tables u) (t_cr3 task) vset'" .
qed (use run in \<open>simp add: run_mapped_def\<close>)

lemma create_shared_buf_ok:
  fixes k :: "('s, 'm, 'z) Mem_scheme"
  assumes ok: "mem_ok S wfS N wfN k" and buf: "buffers_ok N k" and ut: "is_user_task k t task"
    and n: "0 < n" "n * SIZE_4KIB \<le> LOWER_HALF_END + 1" and nx: "k_next_buf_id k < u64_MAX"
  obtains k' where "create_shared_buf S X N M t task n k = Some (None, k')" "mem_ok S wfS N wfN k'" "buffers_ok N k'"
      "sees (user_roots k) (t_cr3 task) 0 0 None (k_mmu k) (k_mmu k')" "out_of_room S N k task n (4 * n)"
  | v k' frames where "create_shared_buf S X N M t task n k = Some (Some (k_next_buf_id k, v), k')" "mem_ok S wfS N wfN k'" "buffers_ok N k'"
      "v mod SIZE_4KIB = 0" "USER_MIN \<le> v" "v + n * SIZE_4KIB \<le> USER_LIMIT" "length frames = n"
      "k_shared_bufs k' = (k_shared_bufs k)(k_next_buf_id k \<mapsto> frames)" "user_roots k' = user_roots k"
      "\<forall>x. v \<le> x \<and> x < v + n * SIZE_4KIB \<longrightarrow> translate (mu_tables (k_mmu k)) (t_cr3 task) x = None"
      "leads_to (user_roots k) (t_cr3 task) v frames (k_mmu k) (k_mmu k')"
      "sees (user_roots k) (t_cr3 task) v (n * SIZE_4KIB) (Some 0) (k_mmu k) (k_mmu k')"
proof -
  let ?vset = "ti_user_vaddr_set (t_inner task)" and ?root = "t_cr3 task" and ?u = "k_mmu k" and ?hhdm = "k_hhdm k"
  have root: "?root \<in> user_roots k" by (rule user_task_root [OF ut])
  have mmu: "mmu_ok N wfN ?hhdm (user_roots k) ?u" using ok unfolding mem_ok_def by blast
  have sps: "spaces_ok N (user_roots k) (mu_pm ?u) (mu_tables ?u)" "pm_ok N wfN (mu_pm ?u)" "hhdm_fits N ?hhdm (mu_pm ?u)"
    using mmu by (simp_all add: mmu_ok_def)
  have fl: "pf_present shared_flags" "\<not> pf_huge_page shared_flags" by (simp_all add: shared_flags_def no_flags_def)
  show ?thesis
  proof (rule reserve_range [OF ok ut n])
    assume "allocate_user_pages S ?vset n = Some (None, ?vset)" and room: "\<And>b. out_of_room S N k task n b"
    then have "create_shared_buf S X N M t task n k = Some (None, k)" by (simp add: create_shared_buf_def)
    then show ?thesis using ok buf room by (intro that(1)) (auto simp: sees_def)
  next
    fix a s' s2
    assume al: "allocate_user_pages S ?vset n = Some (Some a, s')" "a mod SIZE_4KIB = 0" "USER_MIN \<le> a" "a + n * SIZE_4KIB \<le> USER_LIMIT"
      and free: "\<forall>x. a \<le> x \<and> x < a + n * SIZE_4KIB \<longrightarrow> translate (mu_tables ?u) ?root x = None"
      and s': "wfS s'" "\<forall>x. covered (ns_iter S s') x \<longleftrightarrow> covered (ns_iter S ?vset) x \<or> a \<le> x \<and> x < a + n * SIZE_4KIB"
      and s2: "free_user_pages S s' a (n * SIZE_4KIB) = Some (True, s2)" "wfS s2" "\<forall>x. covered (ns_iter S s2) x \<longleftrightarrow> covered (ns_iter S ?vset) x"
      and mul: "mul_u64 n SIZE_4KIB = Some (n * SIZE_4KIB)"
    have "\<exists>r u'. fresh_pages X N M ?hhdm SharedBuffer ?root a shared_flags [0..<n] [] ?u = Some (r, u') \<and>
        (case r of
           Some fr' \<Rightarrow> length fr' = n \<and> (\<exists>fs'. fresh_run N wfN (user_roots k) ?root a shared_flags SharedBuffer ?u fs' fr' u')
         | None \<Rightarrow> (\<exists>fs'. fresh_run N wfN (user_roots k) ?root a shared_flags SharedBuffer ?u fs' [] u') \<and>
             card (available_frames N (mu_pm ?u)) \<le> 4 * n)"
      using fresh_pages_ok [OF sps(1) _ root al(2,4) free sps(3) fl fresh_run_start [OF sps(1,2)], of SharedBuffer] by simp
    then obtain r u' where m: "fresh_pages X N M ?hhdm SharedBuffer ?root a shared_flags [0..<n] [] ?u = Some (r, u')"
        "case r of
           Some fr' \<Rightarrow> length fr' = n \<and> (\<exists>fs'. fresh_run N wfN (user_roots k) ?root a shared_flags SharedBuffer ?u fs' fr' u')
         | None \<Rightarrow> (\<exists>fs'. fresh_run N wfN (user_roots k) ?root a shared_flags SharedBuffer ?u fs' [] u') \<and>
             card (available_frames N (mu_pm ?u)) \<le> 4 * n" by blast
    note run = create_shared_buf_def al(1) open_mapper_ok [OF mmu root] create_shared_pages_fresh m(1)
    show ?thesis
    proof (cases r)
      case None
      then obtain fs' where f: "fresh_run N wfN (user_roots k) ?root a shared_flags SharedBuffer ?u fs' [] u'" using m(2) by auto
      let ?k' = "set_vaddr_set t s2 (k \<lparr> k_mmu := u' \<rparr>)"
      have rm: "run_mapped (user_roots k) ?root a shared_flags [] (mu_tables ?u) fs' (mu_tables u')" using f by (simp add: fresh_run_def)
      have cov: "\<forall>x. covered (ns_iter S s2) x \<longleftrightarrow> covered (ns_iter S ?vset) x \<or> a \<le> x \<and> x < a + length ([] :: nat list) * SIZE_4KIB"
        using s2(3) by fastforce
      have "frame_has N (mu_pm u') g SharedBuffer" if "frame_has N (mu_pm ?u) g SharedBuffer" for g
      proof -
        have "\<forall>h\<in>fs'. frame_has N (mu_pm ?u) h Usable" using f by (simp add: fresh_run_def)
        then have "g \<notin> fs'" using frame_has_unique [OF that] by blast
        then show ?thesis using fresh_run_has [OF f, of g SharedBuffer] that by simp
      qed
      then have "buffers_ok N ?k'" by (intro buffers_ok_update [OF buf]) simp_all
      moreover have "mem_ok S wfS N wfN ?k'"
        by (rule run_mem_ok [OF ok ut rm mmu_ok_fresh_run [OF mmu f] s2(2) cov]) (use al(4) in simp)
      moreover have "create_shared_buf S X N M t task n k = Some (None, ?k')" using None s2(1) mul by (simp add: run)
      moreover have "sees (user_roots k) ?root 0 0 None ?u (k_mmu ?k')"
        using fresh_run_sees [OF f sps(1) al(2)] by (simp add: sees_def) (metis leD)
      moreover have "out_of_room S N k task n (4 * n)" using m(2) None by (simp add: out_of_room_def)
      ultimately show ?thesis by (intro that(1)) auto
    next
      case (Some frames)
      then obtain fs' where f: "length frames = n" "fresh_run N wfN (user_roots k) ?root a shared_flags SharedBuffer ?u fs' frames u'"
        using m(2) by auto
      let ?k1 = "set_vaddr_set t s' (k \<lparr> k_mmu := u' \<rparr>)"
      let ?k' = "?k1 \<lparr> k_shared_bufs := (k_shared_bufs k)(k_next_buf_id k \<mapsto> frames), k_next_buf_id := fetch_add_1 (k_next_buf_id k) \<rparr>"
      have rm: "run_mapped (user_roots k) ?root a shared_flags frames (mu_tables ?u) fs' (mu_tables u')" using f(2) by (simp add: fresh_run_def)
      have m1: "mem_ok S wfS N wfN ?k1"
        by (rule run_mem_ok [OF ok ut rm mmu_ok_fresh_run [OF mmu f(2)] s'(1)]) (use s'(2) al(4) f(1) in simp_all)
      have fu: "\<forall>g\<in>set frames \<union> fs'. frame_has N (mu_pm ?u) g Usable" "distinct frames" using f(2) by (simp_all add: fresh_run_def)
      have old: "g \<notin> set frames" "frame_has N (mu_pm u') g SharedBuffer" if g: "frame_has N (mu_pm ?u) g SharedBuffer" for g
      proof -
        have "g \<notin> set frames \<union> fs'" using fu(1) frame_has_unique [OF g] by blast
        then show "g \<notin> set frames" "frame_has N (mu_pm u') g SharedBuffer" using fresh_run_has [OF f(2), of g SharedBuffer] g by auto
      qed
      have new: "\<forall>g\<in>set frames. frame_has N (mu_pm u') g SharedBuffer" using fresh_run_has [OF f(2), of _ SharedBuffer] by simp
      have ne: "frames \<noteq> []" using f(1) n(1) by auto
      have nid: "fetch_add_1 (k_next_buf_id k) = k_next_buf_id k + 1" "k_next_buf_id k + 1 < U64_LIMIT"
        using nx by (simp_all add: fetch_add_1_def u64_MAX_num U64_LIMIT_num)
      have B: "i < k_next_buf_id k \<and> fr \<noteq> [] \<and> distinct fr \<and> length fr * SIZE_4KIB \<le> LOWER_HALF_END + 1 \<and> (\<forall>g\<in>set fr. frame_has N (mu_pm ?u) g SharedBuffer)"
        if "k_shared_bufs k i = Some fr" for i fr using buf that unfolding buffers_ok_def by blast
      have D: "set fr \<inter> set fr' = {}" if "k_shared_bufs k i = Some fr" "k_shared_bufs k i' = Some fr'" "i \<noteq> i'" for i i' fr fr'
        using buf that unfolding buffers_ok_def by blast
      have "buffers_ok N ?k'"
        unfolding buffers_ok_def
      proof (intro conjI allI impI)
        show "k_next_buf_id ?k' < U64_LIMIT" using nid by simp
        fix i fr assume i: "k_shared_bufs ?k' i = Some fr"
        show "i < k_next_buf_id ?k'" using i B [of i fr] nid(1) by (auto split: if_splits)
        show "fr \<noteq> []" "distinct fr" "length fr * SIZE_4KIB \<le> LOWER_HALF_END + 1"
          using i B [of i fr] ne fu(2) f(1) n(2) by (auto split: if_splits)
        show "\<forall>g\<in>set fr. frame_has N (mu_pm (k_mmu ?k')) g SharedBuffer" using i B [of i fr] old(2) new by (auto split: if_splits)
      next
        fix i fr i' fr' assume "k_shared_bufs ?k' i = Some fr" "k_shared_bufs ?k' i' = Some fr'" "i \<noteq> i'"
        then show "set fr \<inter> set fr' = {}" using D [of i fr i' fr'] B [of i fr] B [of i' fr'] old(1) by (auto split: if_splits)
      qed
      moreover have "mem_ok S wfS N wfN ?k'" using m1 by simp
      moreover have "create_shared_buf S X N M t task n k = Some (Some (k_next_buf_id k, a), ?k')" using Some by (simp add: run)
      moreover have "user_roots ?k' = user_roots ?k1" by (simp add: user_roots_def is_user_task_def)
      moreover have "leads_to (user_roots k) ?root a frames ?u (k_mmu ?k')" using run_leads_to [OF rm] by simp
      moreover have "sees (user_roots k) ?root a (n * SIZE_4KIB) (Some 0) ?u (k_mmu ?k')"
        using fresh_run_sees [OF f(2) sps(1) al(2)] f(1) by simp
      moreover have "user_roots ?k1 = user_roots k" "k_shared_bufs ?k' = (k_shared_bufs k)(k_next_buf_id k \<mapsto> frames)" by simp_all
      ultimately show ?thesis using al(2-4) free f(1) by (intro that(2) [of a ?k' frames]) simp_all
    qed
  qed
qed

lemma mmu_ok_shared_run:
  assumes "mmu_ok N wfN hhdm roots u0" "shared_run N wfN roots root start fl u0 fs fr u"
  shows "mmu_ok N wfN hhdm roots u"
  using assms hhdm_retype [of N hhdm "mu_pm u0" fs UsedByUserMode "mu_pm u"]
  unfolding mmu_ok_def shared_run_def by blast

lemma map_shared_buf_ok:
  fixes k :: "('s, 'm, 'z) Mem_scheme"
  assumes ok: "mem_ok S wfS N wfN k" and buf: "buffers_ok N k" and ut: "is_user_task k t task"
    and id: "k_shared_bufs k buf_id = Some frames"
  obtains k' where "map_shared_buf S X N M buf_id t task k = Some (None, k')" "mem_ok S wfS N wfN k'" "buffers_ok N k'"
      "sees (user_roots k) (t_cr3 task) 0 0 None (k_mmu k) (k_mmu k')" "out_of_room S N k task (length frames) (3 * length frames)"
  | v k' where "map_shared_buf S X N M buf_id t task k = Some (Some v, k')" "mem_ok S wfS N wfN k'" "buffers_ok N k'"
      "v mod SIZE_4KIB = 0" "USER_MIN \<le> v" "v + length frames * SIZE_4KIB \<le> USER_LIMIT"
      "\<forall>x. v \<le> x \<and> x < v + length frames * SIZE_4KIB \<longrightarrow> translate (mu_tables (k_mmu k)) (t_cr3 task) x = None"
      "leads_to (user_roots k) (t_cr3 task) v frames (k_mmu k) (k_mmu k')" "mu_bytes (k_mmu k') = mu_bytes (k_mmu k)"
proof -
  let ?vset = "ti_user_vaddr_set (t_inner task)" and ?root = "t_cr3 task" and ?u = "k_mmu k" and ?hhdm = "k_hhdm k" and ?n = "length frames"
  have root: "?root \<in> user_roots k" by (rule user_task_root [OF ut])
  have mmu: "mmu_ok N wfN ?hhdm (user_roots k) ?u" using ok unfolding mem_ok_def by blast
  have sps: "spaces_ok N (user_roots k) (mu_pm ?u) (mu_tables ?u)" "pm_ok N wfN (mu_pm ?u)" using mmu by (simp_all add: mmu_ok_def)
  have fl: "pf_present shared_flags" "\<not> pf_huge_page shared_flags" by (simp_all add: shared_flags_def no_flags_def)
  have B: "frames \<noteq> []" "\<forall>f\<in>set frames. frame_has N (mu_pm ?u) f SharedBuffer" and n: "?n * SIZE_4KIB \<le> LOWER_HALF_END + 1"
    using buf id unfolding buffers_ok_def by blast+
  have n0: "0 < ?n" using B(1) by simp
  have bufs: "buffers_ok N (set_vaddr_set t s (k \<lparr> k_mmu := u' \<rparr>))"
    if "shared_run N wfN (user_roots k) ?root a shared_flags ?u fs' fr u'" for s a fs' fr u'
    by (rule buffers_ok_update [OF buf]) (use shared_run_has [OF that] in simp_all)
  show ?thesis
  proof (rule reserve_range [OF ok ut n0 n])
    assume "allocate_user_pages S ?vset ?n = Some (None, ?vset)" and room: "\<And>b. out_of_room S N k task ?n b"
    then have "map_shared_buf S X N M buf_id t task k = Some (None, k)" by (simp add: map_shared_buf_def id)
    then show ?thesis using ok buf room by (intro that(1)) (auto simp: sees_def)
  next
    fix a s' s2
    assume al: "allocate_user_pages S ?vset ?n = Some (Some a, s')" "a mod SIZE_4KIB = 0" "USER_MIN \<le> a" "a + ?n * SIZE_4KIB \<le> USER_LIMIT"
      and free: "\<forall>x. a \<le> x \<and> x < a + ?n * SIZE_4KIB \<longrightarrow> translate (mu_tables ?u) ?root x = None"
      and s': "wfS s'" "\<forall>x. covered (ns_iter S s') x \<longleftrightarrow> covered (ns_iter S ?vset) x \<or> a \<le> x \<and> x < a + ?n * SIZE_4KIB"
      and s2: "free_user_pages S s' a (?n * SIZE_4KIB) = Some (True, s2)" "wfS s2" "\<forall>x. covered (ns_iter S s2) x \<longleftrightarrow> covered (ns_iter S ?vset) x"
      and mul: "mul_u64 ?n SIZE_4KIB = Some (?n * SIZE_4KIB)"
    obtain all u' fs' where m: "map_shared_pages X N M ?root a shared_flags (enumerate 0 frames) ?u = Some (all, u')"
        "shared_run N wfN (user_roots k) ?root a shared_flags ?u fs' (if all then frames else []) u'"
        "\<not> all \<longrightarrow> card (available_frames N (mu_pm ?u)) \<le> 3 * ?n"
      using map_shared_pages_ok [OF root al(2,4) free fl B(2) shared_run_start [OF sps], of frames] by auto
    note run = map_shared_buf_def id al(1) open_mapper_ok [OF mmu root] m(1)
    have f: "run_mapped (user_roots k) ?root a shared_flags (if all then frames else []) (mu_tables ?u) fs' (mu_tables u')"
        "mu_bytes u' = mu_bytes ?u" using m(2) by (simp_all add: shared_run_def)
    note mmu' = mmu_ok_shared_run [OF mmu m(2)]
    show ?thesis
    proof (cases all)
      case False
      let ?k' = "set_vaddr_set t s2 (k \<lparr> k_mmu := u' \<rparr>)"
      have rm: "run_mapped (user_roots k) ?root a shared_flags [] (mu_tables ?u) fs' (mu_tables u')" using f(1) False by simp
      have cov: "\<forall>x. covered (ns_iter S s2) x \<longleftrightarrow> covered (ns_iter S ?vset) x \<or> a \<le> x \<and> x < a + length ([] :: nat list) * SIZE_4KIB"
        using s2(3) by fastforce
      have "mem_ok S wfS N wfN ?k'" by (rule run_mem_ok [OF ok ut rm mmu' s2(2) cov]) (use al(4) in simp)
      moreover have "map_shared_buf S X N M buf_id t task k = Some (None, ?k')" using False s2(1) mul by (simp add: run)
      moreover have "sees (user_roots k) ?root 0 0 None ?u (k_mmu ?k')"
        using leads_to_sees [OF run_leads_to [OF rm]] f(2) by simp
      moreover have "out_of_room S N k task ?n (3 * ?n)" using m(3) False by (simp add: out_of_room_def)
      ultimately show ?thesis using bufs [OF m(2)] by (intro that(1)) auto
    next
      case True
      let ?k' = "set_vaddr_set t s' (k \<lparr> k_mmu := u' \<rparr>)"
      have rm: "run_mapped (user_roots k) ?root a shared_flags frames (mu_tables ?u) fs' (mu_tables u')" using f(1) True by simp
      have "mem_ok S wfS N wfN ?k'" by (rule run_mem_ok [OF ok ut rm mmu' s'(1)]) (use s'(2) al(4) in simp_all)
      moreover have "map_shared_buf S X N M buf_id t task k = Some (Some a, ?k')" using True by (simp add: run)
      moreover have "leads_to (user_roots k) ?root a frames ?u (k_mmu ?k')" "mu_bytes (k_mmu ?k') = mu_bytes ?u"
        using run_leads_to [OF rm] f(2) by simp_all
      ultimately show ?thesis using bufs [OF m(2)] al(2-4) free by (intro that(2) [of a ?k']) simp_all
    qed
  qed
qed

lemma destroy_shared_frames:
  assumes "pm_ok N wfN pm" "distinct fr" "\<forall>f\<in>set fr. frame_has N pm f SharedBuffer"
  shows "\<exists>pm'. fold_rust (free_shared_frame N) fr pm = Some pm' \<and> pm_ok N wfN pm' \<and> retyped_frames N pm (set fr) Usable pm'"
  using assms
proof (induction fr arbitrary: pm)
  case Nil
  then show ?case by simp
next
  case (Cons f fr)
  have f: "frame_has N pm f SharedBuffer" using Cons.prems(3) by simp
  then obtain pm1 where p: "free_frame N pm f SharedBuffer = Some (Inr (), pm1)" "pm_ok N wfN pm1" "retyped_frames N pm {f} Usable pm1"
    using free_frame_spec(1) [OF Cons.prems(1), of f SharedBuffer] frame_has_bound [OF Cons.prems(1) f] retyped_one
    unfolding frame_has_def by metis
  have "\<forall>g\<in>set fr. frame_has N pm1 g SharedBuffer"
    using Cons.prems(2,3) retyped_has [OF p(3), of _ SharedBuffer] frame_has_aligned [OF f] by auto
  then obtain pm' where q: "fold_rust (free_shared_frame N) fr pm1 = Some pm'" "pm_ok N wfN pm'" "retyped_frames N pm1 (set fr) Usable pm'"
    using Cons.IH [OF p(2)] Cons.prems(2) by auto
  have "retyped_frames N pm (set (f # fr)) Usable pm'" using retyped_frames_Un [OF p(3) q(3)] by simp
  moreover have "free_shared_frame N f pm = Some pm1" by (simp add: free_shared_frame_def p(1))
  ultimately show ?case using q by simp
qed

lemma destroy_shared_buf_ok:
  fixes k :: "('s, 'm, 'z) Mem_scheme"
  assumes ok: "mem_ok S wfS N wfN k" and buf: "buffers_ok N k" and id: "k_shared_bufs k buf_id = Some frames"
  obtains pm where "destroy_shared_buf N buf_id k =
      Some (k \<lparr> k_mmu := (k_mmu k) \<lparr> mu_pm := pm \<rparr>, k_shared_bufs := (k_shared_bufs k)(buf_id := None) \<rparr>)"
    "pm_ok N wfN pm" "retyped_frames N (mu_pm (k_mmu k)) (set frames) Usable pm"
proof -
  have "pm_ok N wfN (mu_pm (k_mmu k))" using ok by (simp add: mem_ok_def mmu_ok_def)
  moreover have "distinct frames" "\<forall>f\<in>set frames. frame_has N (mu_pm (k_mmu k)) f SharedBuffer" using buf id unfolding buffers_ok_def by blast+
  ultimately obtain pm where "fold_rust (free_shared_frame N) frames (mu_pm (k_mmu k)) = Some pm" "pm_ok N wfN pm"
      "retyped_frames N (mu_pm (k_mmu k)) (set frames) Usable pm" using destroy_shared_frames by blast
  then show ?thesis by (intro that [of pm]) (simp_all add: destroy_shared_buf_def id)
qed

end

section \<open>Sharing\<close>

lemma run_entry_write:
  assumes "translate (mu_tables u) r a = Some (run_entry lo shared_flags fr a)"
  shows "store_bytes r a [b] u =
    Some (u \<lparr> mu_bytes := (mu_bytes u)(fr ! ((a - lo) div SIZE_4KIB) + a mod SIZE_4KIB := b) \<rparr>)"
  using assms by (simp add: run_entry_def shared_flags_def no_flags_def assert_that_def)

lemma leads_to_at:
  assumes "leads_to roots cr3 lo fr u u'" "cr3 \<in> roots" "x < length fr * SIZE_4KIB" "lo + length fr * SIZE_4KIB \<le> USER_LIMIT"
  shows "translate (mu_tables u') cr3 (lo + x) = Some (run_entry lo shared_flags fr (lo + x))"
  using assms unfolding leads_to_def by auto

lemma aligned_offset: "lo mod SIZE_4KIB = 0 \<Longrightarrow> (lo + x) mod SIZE_4KIB = x mod SIZE_4KIB"
  by (metis add_0 mod_add_left_eq)

text \<open>Two ranges that lead to the same frames: a byte stored through one is read through the other.\<close>

lemma shared_store:
  assumes "translate (mu_tables u) r (lo + x) = Some (run_entry lo shared_flags fr (lo + x))"
    and "translate (mu_tables u) r' (lo' + x) = Some (run_entry lo' shared_flags fr (lo' + x))"
    and "lo mod SIZE_4KIB = 0" "lo' mod SIZE_4KIB = 0"
  shows "\<exists>u'. store_bytes r (lo + x) [b] u = Some u' \<and> user_byte u' r' (lo' + x) = Some b"
  using run_entry_write [OF assms(1)] assms(2) by (simp add: user_byte_def run_entry_def aligned_offset [OF assms(3)] aligned_offset [OF assms(4)])

lemma other_range_kept:
  assumes "leads_to roots cr3 lo fr u u'" "r \<in> roots" "a < USER_LIMIT" "translate (mu_tables u) r a = Some e"
    and "\<forall>x. lo \<le> x \<and> x < lo + length fr * SIZE_4KIB \<longrightarrow> translate (mu_tables u) cr3 x = None"
  shows "translate (mu_tables u') r a = Some e"
proof -
  have "\<not> (r = cr3 \<and> lo \<le> a \<and> a < lo + length fr * SIZE_4KIB)" using assms(4,5) by auto
  moreover have "translate (mu_tables u') r a =
      (if r = cr3 \<and> lo \<le> a \<and> a < lo + length fr * SIZE_4KIB then Some (run_entry lo shared_flags fr a) else translate (mu_tables u) r a)"
    using assms(1-3) unfolding leads_to_def by blast
  ultimately show ?thesis using assms(4) by (simp only: if_False)
qed

section \<open>Sequences of calls\<close>

text \<open>The memory calls a task can make on a CPU.\<close>

datatype mem_call = Mmap nat nat | Munmap nat nat | CreateSharedBuf nat nat | MapSharedBuf nat | DestroySharedBuf nat

fun call_fits :: "nat \<times> mem_call \<Rightarrow> bool" where
  "call_fits (c, Mmap b flags) \<longleftrightarrow> b \<le> LOWER_HALF_END + 1"
| "call_fits (c, Munmap addr b) \<longleftrightarrow> addr + div_ceil b SIZE_4KIB * SIZE_4KIB < U64_LIMIT"
| "call_fits (c, CreateSharedBuf b out) \<longleftrightarrow> b \<le> LOWER_HALF_END + 1"
| "call_fits (c, MapSharedBuf i) \<longleftrightarrow> True"
| "call_fits (c, DestroySharedBuf i) \<longleftrightarrow> True"

fun memory_call ::
    "'s nodit_set_ops \<Rightarrow> x86_ops \<Rightarrow> ('m, MemoryType) nodit_map_ops \<Rightarrow> 'm PhysicalMemoryFrameAllocator mapper_ops \<Rightarrow>
     nat \<times> mem_call \<Rightarrow> ('s, 'm, 'z) Mem_scheme \<Rightarrow> ('s, 'm, 'z) Mem_scheme rust" where
  "memory_call S X N M (c, Mmap b flags) k = do { (_, k') \<leftarrow> sys_mmap S X N M c b flags k; Some k' }"
| "memory_call S X N M (c, Munmap addr b) k = do { (_, k') \<leftarrow> sys_munmap S X N M c addr b k; Some k' }"
| "memory_call S X N M (c, CreateSharedBuf b out) k = do { (_, k') \<leftarrow> sys_create_shared_buf S X N M c b out k; Some k' }"
| "memory_call S X N M (c, MapSharedBuf i) k = do { (_, k') \<leftarrow> sys_map_shared_buf S X N M c i k; Some k' }"
| "memory_call S X N M (c, DestroySharedBuf i) k = do { (_, k') \<leftarrow> sys_destroy_shared_buf N i k; Some k' }"

text \<open>A buffer is destroyed safely when no task maps a frame of it any more. The system call does not
  check this.\<close>

fun call_safe :: "nat \<times> mem_call \<Rightarrow> ('s, 'm, 'z) Mem_scheme \<Rightarrow> bool" where
  "call_safe (c, DestroySharedBuf i) k \<longleftrightarrow>
     (\<forall>frames r a e. k_shared_bufs k i = Some frames \<longrightarrow> mapped (user_roots k) (mu_tables (k_mmu k)) r a e \<longrightarrow> pe_addr e \<notin> set frames)"
| "call_safe (c, Mmap b flags) k \<longleftrightarrow> True"
| "call_safe (c, Munmap addr b) k \<longleftrightarrow> True"
| "call_safe (c, CreateSharedBuf b out) k \<longleftrightarrow> True"
| "call_safe (c, MapSharedBuf i) k \<longleftrightarrow> True"

primrec calls_safe ::
    "'s nodit_set_ops \<Rightarrow> x86_ops \<Rightarrow> ('m, MemoryType) nodit_map_ops \<Rightarrow> 'm PhysicalMemoryFrameAllocator mapper_ops \<Rightarrow>
     (nat \<times> mem_call) list \<Rightarrow> ('s, 'm, 'z) Mem_scheme \<Rightarrow> bool" where
  "calls_safe S X N M [] k \<longleftrightarrow> True"
| "calls_safe S X N M (cc # ccs) k \<longleftrightarrow> call_safe cc k \<and> (\<forall>k1. memory_call S X N M cc k = Some k1 \<longrightarrow> calls_safe S X N M ccs k1)"

lemma store_bytes_frame:
  "store_bytes r a bs u = Some u' \<Longrightarrow> mu_pm u' = mu_pm u \<and> mu_tables u' = mu_tables u"
proof (induction bs arbitrary: a u)
  case (Cons b bs)
  from Cons.prems obtain e :: PageTableEntry where "store_bytes r (Suc a) bs (u \<lparr> mu_bytes := (mu_bytes u)(pe_addr e + a mod SIZE_4KIB := b) \<rparr>) = Some u'"
    by (auto simp: rust_SomeD)
  from Cons.IH [OF this] show ?case by simp
qed simp

lemma mem_ok_bytes:
  fixes k :: "('s, 'm, 'z) Mem_scheme"
  assumes "mu_pm u = mu_pm (k_mmu k)" "mu_tables u = mu_tables (k_mmu k)"
  shows "mem_ok S wfS N wfN (k \<lparr> k_mmu := u \<rparr>) = mem_ok S wfS N wfN k" "buffers_ok N (k \<lparr> k_mmu := u \<rparr>) = buffers_ok N k"
proof -
  have "user_roots (k \<lparr> k_mmu := u \<rparr>) = user_roots k" "is_user_task (k \<lparr> k_mmu := u \<rparr>) = is_user_task k"
    by (simp_all add: user_roots_def is_user_task_def fun_eq_iff)
  then show "mem_ok S wfS N wfN (k \<lparr> k_mmu := u \<rparr>) = mem_ok S wfS N wfN k" "buffers_ok N (k \<lparr> k_mmu := u \<rparr>) = buffers_ok N k"
    using assms by (simp_all add: mem_ok_def mmu_ok_def buffers_ok_def)
qed

lemma bufs_kept_ok: "buffers_ok N k \<Longrightarrow> bufs_kept N k k' \<Longrightarrow> buffers_ok N k'"
  unfolding bufs_kept_def by (elim conjE) (erule buffers_ok_update, simp_all)

definition calls_ok ::
    "'s nodit_set_ops \<Rightarrow> ('s \<Rightarrow> bool) \<Rightarrow> ('m, MemoryType) nodit_map_ops \<Rightarrow> ('m \<Rightarrow> bool) \<Rightarrow> nat \<Rightarrow> ('s, 'm, 'z) Mem_scheme \<Rightarrow> bool" where
  "calls_ok S wfS N wfN n k \<longleftrightarrow> mem_ok S wfS N wfN k \<and> buffers_ok N k \<and> k_next_buf_id k + n < U64_LIMIT"

context user_memory
begin

lemma sys_mmap_calls:
  fixes k :: "('s, 'm, 'z) Mem_scheme"
  assumes ok: "calls_ok S wfS N wfN (Suc n) k" and b: "b \<le> LOWER_HALF_END + 1" and run: "sys_mmap S X N M c b flags k = Some (v, k')"
  shows "calls_ok S wfS N wfN n k'"
proof (cases "b = 0 \<or> current_user_task c k = Some None")
  case True
  then show ?thesis using run ok by (auto simp: sys_mmap_def Let_def calls_ok_def split: if_splits)
next
  case False
  then obtain t task where cur: "current_user_task c k = Some (Some (t, task))" using run by (auto simp: sys_mmap_def Let_def rust_SomeD)
  have "mem_ok S wfS N wfN k' \<and> bufs_kept N k k'"
    using sys_mmap_ok [where flags = flags, OF _ cur _ b refl] ok False run by (auto simp: calls_ok_def)
  then show ?thesis using ok bufs_kept_ok [of N k k'] by (simp add: calls_ok_def bufs_kept_def)
qed

lemma sys_munmap_calls:
  fixes k :: "('s, 'm, 'z) Mem_scheme"
  assumes ok: "calls_ok S wfS N wfN (Suc n) k" and b: "addr + div_ceil b SIZE_4KIB * SIZE_4KIB < U64_LIMIT"
    and run: "sys_munmap S X N M c addr b k = Some (v, k')"
  shows "calls_ok S wfS N wfN n k'"
proof (cases "b = 0 \<or> addr mod SIZE_4KIB \<noteq> 0 \<or> current_user_task c k = Some None")
  case True
  then show ?thesis using run ok by (auto simp: sys_munmap_def Let_def calls_ok_def split: if_splits)
next
  case False
  then obtain t task where cur: "current_user_task c k = Some (Some (t, task))" using run by (auto simp: sys_munmap_def Let_def rust_SomeD)
  let ?F = "freed_frames N (mu_pm (k_mmu k)) (mu_tables (k_mmu k)) (Some UsedByUserMode) (t_cr3 task) addr (div_ceil b SIZE_4KIB)"
  have m: "k' = k \<or> mem_ok S wfS N wfN k' \<and> retyped_frames N (mu_pm (k_mmu k)) ?F Usable (mu_pm (k_mmu k'))"
    using sys_munmap_ok [OF _ cur _ _ refl b] ok False run by (auto simp: calls_ok_def split: if_splits)
  have reg: "k_shared_bufs k' = k_shared_bufs k \<and> k_next_buf_id k' = k_next_buf_id k"
    using run by (auto simp: sys_munmap_def cur Let_def rust_SomeD split: if_splits)
  have "frame_has N (mu_pm (k_mmu k')) f SharedBuffer"
    if "retyped_frames N (mu_pm (k_mmu k)) ?F Usable (mu_pm (k_mmu k'))" and f: "frame_has N (mu_pm (k_mmu k)) f SharedBuffer" for f
  proof -
    have F: "\<forall>g\<in>?F. frame_has N (mu_pm (k_mmu k)) g UsedByUserMode" by (auto simp: freed_frames_def)
    then have "f \<notin> ?F" using frame_has_unique [OF f] by blast
    moreover have "\<forall>g\<in>?F. g mod SIZE_4KIB = 0" by (rule ballI, rule frame_has_aligned, erule bspec [OF F])
    ultimately show ?thesis using retyped_has [OF that(1), of f SharedBuffer] f by simp
  qed
  then have "mem_ok S wfS N wfN k' \<and> bufs_kept N k k'" using m reg ok by (auto simp: bufs_kept_def calls_ok_def)
  then show ?thesis using ok bufs_kept_ok [of N k k'] by (simp add: calls_ok_def bufs_kept_def)
qed

lemma sys_create_calls:
  fixes k :: "('s, 'm, 'z) Mem_scheme"
  assumes ok: "calls_ok S wfS N wfN (Suc n) k" and b: "b \<le> LOWER_HALF_END + 1"
    and run: "sys_create_shared_buf S X N M c b out k = Some (v, k')"
  shows "calls_ok S wfS N wfN n k'"
proof (cases "b = 0 \<or> validate_user_ptr S X c out 8 k = Some False \<or> current_user_task c k = Some None")
  case True
  then show ?thesis using run ok by (auto simp: sys_create_shared_buf_def calls_ok_def rust_SomeD split: if_splits)
next
  case False
  then obtain t task where cur: "current_user_task c k = Some (Some (t, task))" "validate_user_ptr S X c out 8 k = Some True"
    using run by (auto simp: sys_create_shared_buf_def rust_SomeD split: if_splits)
  let ?n = "div_ceil b SIZE_4KIB"
  have n: "0 < ?n" "?n * SIZE_4KIB \<le> LOWER_HALF_END + 1" using page_count [OF _ b] False by simp_all
  have k: "mem_ok S wfS N wfN k" "buffers_ok N k" "k_next_buf_id k < u64_MAX"
    using ok by (simp_all add: calls_ok_def u64_MAX_num U64_LIMIT_num)
  note sys = run [unfolded sys_create_shared_buf_def] cur False
  show ?thesis
  proof (rule create_shared_buf_ok [OF k(1,2) current_user_task_user [OF cur(1)] n k(3)])
    fix k1 assume "create_shared_buf S X N M t task ?n k = Some (None, k1)" "mem_ok S wfS N wfN k1" "buffers_ok N k1"
    moreover from this have "k_next_buf_id k1 = k_next_buf_id k"
      by (auto simp: create_shared_buf_def Let_def rust_SomeD split: option.splits)
    ultimately show ?thesis using sys ok by (simp add: calls_ok_def)
  next
    fix a k1 fr
    assume c: "create_shared_buf S X N M t task ?n k = Some (Some (k_next_buf_id k, a), k1)" "mem_ok S wfS N wfN k1" "buffers_ok N k1"
    moreover from this have "k_next_buf_id k1 = fetch_add_1 (k_next_buf_id k)"
      by (auto simp: create_shared_buf_def Let_def rust_SomeD split: option.splits)
    then have "k_next_buf_id k1 = k_next_buf_id k + 1" using k(3) by (simp add: fetch_add_1_def u64_MAX_num U64_LIMIT_num)
    moreover obtain r u where "store_bytes r out (u64_bytes a) (k_mmu k1) = Some u" "k' = k1 \<lparr> k_mmu := u \<rparr>"
      using sys c(1) by (auto simp: rust_SomeD)
    ultimately show ?thesis using ok store_bytes_frame [of r out _ "k_mmu k1" u] mem_ok_bytes [of u k1] by (simp add: calls_ok_def)
  qed
qed

lemma sys_map_calls:
  fixes k :: "('s, 'm, 'z) Mem_scheme"
  assumes ok: "calls_ok S wfS N wfN (Suc n) k" and run: "sys_map_shared_buf S X N M c i k = Some (v, k')"
  shows "calls_ok S wfS N wfN n k'"
proof -
  have k: "mem_ok S wfS N wfN k" "buffers_ok N k" "k_next_buf_id k + n < U64_LIMIT" using ok by (simp_all add: calls_ok_def)
  consider "k' = k" | t task r where "current_user_task c k = Some (Some (t, task))" "map_shared_buf S X N M i t task k = Some (r, k')"
    using run by (auto simp: sys_map_shared_buf_def rust_SomeD split: option.splits)
  then show ?thesis
  proof cases
    case 1
    then show ?thesis using k by (simp add: calls_ok_def)
  next
    case 2
    show ?thesis
    proof (cases "k_shared_bufs k i")
      case None
      then show ?thesis using 2(2) k by (simp add: map_shared_buf_def calls_ok_def)
    next
      case (Some frames)
      have "k_next_buf_id k' = k_next_buf_id k"
        using 2(2) Some by (auto simp: map_shared_buf_def Let_def rust_SomeD split: option.splits if_splits)
      moreover have "mem_ok S wfS N wfN k' \<and> buffers_ok N k'"
        by (rule map_shared_buf_ok [OF k(1,2) current_user_task_user [OF 2(1)] Some]) (simp_all add: 2(2))
      ultimately show ?thesis using k(3) by (simp add: calls_ok_def)
    qed
  qed
qed

lemma sys_destroy_calls:
  fixes k :: "('s, 'm, 'z) Mem_scheme"
  assumes ok: "calls_ok S wfS N wfN (Suc n) k" and safe: "call_safe (c, DestroySharedBuf i) k"
    and run: "sys_destroy_shared_buf N i k = Some (v, k')"
  shows "calls_ok S wfS N wfN n k'"
proof (cases "k_shared_bufs k i")
  case None
  then show ?thesis using run ok by (simp add: sys_destroy_shared_buf_def destroy_shared_buf_def calls_ok_def)
next
  case (Some frames)
  let ?u = "k_mmu k"
  have k: "mem_ok S wfS N wfN k" "buffers_ok N k" using ok by (simp_all add: calls_ok_def)
  obtain pm where d: "destroy_shared_buf N i k =
      Some (k \<lparr> k_mmu := ?u \<lparr> mu_pm := pm \<rparr>, k_shared_bufs := (k_shared_bufs k)(i := None) \<rparr>)"
      "pm_ok N wfN pm" "retyped_frames N (mu_pm ?u) (set frames) Usable pm"
    by (rule destroy_shared_buf_ok [OF k Some])
  let ?k = "k \<lparr> k_mmu := ?u \<lparr> mu_pm := pm \<rparr>, k_shared_bufs := (k_shared_bufs k)(i := None) \<rparr>"
  have k': "k' = ?k" using run d(1) by (simp add: sys_destroy_shared_buf_def)
  have sh: "\<forall>f\<in>set frames. frame_has N (mu_pm ?u) f SharedBuffer" using k(2) Some unfolding buffers_ok_def by blast
  then have al: "\<forall>f\<in>set frames. f mod SIZE_4KIB = 0" using frame_has_aligned by blast
  have roots: "user_roots ?k = user_roots k" "is_user_task ?k = is_user_task k" by (simp_all add: user_roots_def is_user_task_def fun_eq_iff)
  have mmu: "spaces_ok N (user_roots k) (mu_pm ?u) (mu_tables ?u)" "hhdm_fits N (k_hhdm k) (mu_pm ?u)"
    using k(1) by (simp_all add: mem_ok_def mmu_ok_def)
  have "set frames \<inter> user_tables (mu_tables ?u) r = {}" if "r \<in> user_roots k" for r
    using spaces_tables [OF mmu(1) that] sh frame_has_unique [of N "mu_pm ?u"] by blast
  moreover have "\<forall>r a e. mapped (user_roots k) (mu_tables ?u) r a e \<longrightarrow> pe_addr e \<notin> set frames" using safe Some by simp
  ultimately have "spaces_ok N (user_roots k) pm (mu_tables ?u)" using spaces_retype [OF mmu(1) d(3) al] by blast
  moreover have "hhdm_fits N (k_hhdm k) pm" using hhdm_retype [OF mmu(2) d(3)] sh by blast
  ultimately have m: "mem_ok S wfS N wfN ?k" using k(1) d(2) by (simp add: mem_ok_def mmu_ok_def roots)
  have "buffers_ok N ?k"
    unfolding buffers_ok_def
  proof (intro conjI allI impI)
    show "k_next_buf_id ?k < U64_LIMIT" using k(2) by (simp add: buffers_ok_def)
  next
    fix j fr assume "k_shared_bufs ?k j = Some fr"
    then have j: "k_shared_bufs k j = Some fr" "j \<noteq> i" by (simp_all split: if_splits)
    then have "set fr \<inter> set frames = {}" using k(2) Some unfolding buffers_ok_def by blast
    then have "frame_has N pm f SharedBuffer" if "f \<in> set fr" for f
      using retyped_has [OF d(3) al, of f SharedBuffer] that k(2) j(1) unfolding buffers_ok_def by auto
    then show "j < k_next_buf_id ?k" "fr \<noteq> []" "distinct fr" "length fr * SIZE_4KIB \<le> LOWER_HALF_END + 1"
        "\<forall>f\<in>set fr. frame_has N (mu_pm (k_mmu ?k)) f SharedBuffer"
      using k(2) j(1) by (auto simp: buffers_ok_def)
  next
    fix j fr j' fr' assume "k_shared_bufs ?k j = Some fr" "k_shared_bufs ?k j' = Some fr'" "j \<noteq> j'"
    then show "set fr \<inter> set fr' = {}" using k(2) by (auto simp: buffers_ok_def split: if_splits)
  qed
  then show ?thesis using m ok unfolding k' by (simp add: calls_ok_def)
qed

lemma memory_call_ok:
  assumes "calls_ok S wfS N wfN (Suc n) k" "call_fits cc" "call_safe cc k" "memory_call S X N M cc k = Some k'"
  shows "calls_ok S wfS N wfN n k'"
proof -
  obtain c call where "cc = (c, call)" by (cases cc)
  then show ?thesis
    using assms by (cases call) (auto simp del: call_safe.simps simp: rust_SomeD
        intro: sys_mmap_calls sys_munmap_calls sys_create_calls sys_map_calls sys_destroy_calls)
qed

lemma memory_calls_ok:
  "calls_ok S wfS N wfN (length ccs) k \<Longrightarrow> \<forall>cc\<in>set ccs. call_fits cc \<Longrightarrow> calls_safe S X N M ccs k \<Longrightarrow>
   fold_rust (memory_call S X N M) ccs k = Some k' \<Longrightarrow> calls_ok S wfS N wfN 0 k'"
proof (induction ccs arbitrary: k)
  case (Cons cc ccs)
  then obtain k1 where "memory_call S X N M cc k = Some k1" "fold_rust (memory_call S X N M) ccs k1 = Some k'" by (auto simp: rust_SomeD)
  then show ?case using Cons.IH [of k1] memory_call_ok [of "length ccs" k cc k1] Cons.prems by simp
qed simp

end

section \<open>Properties\<close>

lemma pages_machine_buffers: "buffers_ok list_map_ops pages_machine"
  by (simp add: buffers_ok_def pages_machine_def U64_LIMIT_num)

lemma pages_machine_create:
  "\<exists>v k1. create_shared_buf list_set_ops x86_arith_ops list_map_ops walk_mapper 1 (pages_task 1) 2 pages_machine = Some (Some (1, v), k1)"
proof -
  have n: "0 < (2::nat)" "2 * SIZE_4KIB \<le> LOWER_HALF_END + 1" "k_next_buf_id pages_machine < u64_MAX"
    by (simp_all add: SIZE_4KIB_def LOWER_HALF_END_def pages_machine_def u64_MAX_num)
  have ut: "is_user_task pages_machine 1 (pages_task 1)" by (simp add: pages_machine_user)
  have "space_free list_set_ops (ti_user_vaddr_set (t_inner (pages_task 1))) 0x2000 (2 * SIZE_4KIB)"
    by (auto simp: space_free_def pages_task_def list_set_ops_def SIZE_4KIB_def)
  then have "\<exists>a. a mod SIZE_4KIB = 0 \<and> USER_MIN \<le> a \<and> a + 2 * SIZE_4KIB \<le> USER_LIMIT \<and>
      space_free list_set_ops (ti_user_vaddr_set (t_inner (pages_task 1))) a (2 * SIZE_4KIB)"
    by (intro exI [of _ "0x2000"]) (simp add: SIZE_4KIB_def USER_MIN_def USER_LIMIT_def)
  moreover have "k_mmu pages_machine = pages_mmu" "k_next_buf_id pages_machine = 1" by (simp_all add: pages_machine_def)
  moreover note pages_machine_frames
  ultimately have room: "\<not> out_of_room list_set_ops list_map_ops pages_machine (pages_task 1) 2 (4 * 2)" "k_next_buf_id pages_machine = 1"
    unfolding out_of_room_def by auto
  show ?thesis
    by (rule list_user_memory.create_shared_buf_ok [OF pages_machine_ok pages_machine_buffers ut n]) (use room in \<open>auto simp only:\<close>)
qed

text \<open>C14. A sequence of memory calls by any tasks on any CPUs - mapping and unmapping pages, creating,
  mapping and destroying shared buffers - whose sizes fit the address space, whose calls all return,
  and which destroys no buffer that a task still maps, keeps the typing of physical memory: afterwards
  every page table of a task is a frame of user memory, every page maps a frame of user memory or of a
  shared buffer, and a frame reached from two tasks belongs to a shared buffer.\<close>

theorem memory_calls_keep_types:
  fixes k :: "('s, 'm, 'z) Mem_scheme"
  assumes "user_memory N wfN X M S wfS" "mem_ok S wfS N wfN k" "buffers_ok N k"
    and "k_next_buf_id k + length ccs < U64_LIMIT" "\<forall>cc\<in>set ccs. call_fits cc" "calls_safe S X N M ccs k" "fold_rust (memory_call S X N M) ccs k = Some k'"
  shows "mem_ok S wfS N wfN k' \<and> buffers_ok N k' \<and>
    (\<forall>r\<in>user_roots k'. \<forall>f\<in>user_tables (mu_tables (k_mmu k')) r. frame_has N (mu_pm (k_mmu k')) f UsedByUserMode) \<and>
    (\<forall>r a e. mapped (user_roots k') (mu_tables (k_mmu k')) r a e \<longrightarrow>
       frame_has N (mu_pm (k_mmu k')) (pe_addr e) UsedByUserMode \<or> frame_has N (mu_pm (k_mmu k')) (pe_addr e) SharedBuffer) \<and>
    (\<forall>r a e r' a' e'. mapped (user_roots k') (mu_tables (k_mmu k')) r a e \<longrightarrow> mapped (user_roots k') (mu_tables (k_mmu k')) r' a' e' \<longrightarrow>
       pe_addr e = pe_addr e' \<longrightarrow> r \<noteq> r' \<longrightarrow> frame_has N (mu_pm (k_mmu k')) (pe_addr e) SharedBuffer)"
proof -
  have "calls_ok S wfS N wfN (length ccs) k" using assms(2-4) by (simp add: calls_ok_def)
  from user_memory.memory_calls_ok [OF assms(1) this assms(5-7)] have ok: "mem_ok S wfS N wfN k'" "buffers_ok N k'" by (simp_all add: calls_ok_def)
  then have s: "spaces_ok N (user_roots k') (mu_pm (k_mmu k')) (mu_tables (k_mmu k'))" by (simp add: mem_ok_def mmu_ok_def)
  have m: "frame_has N (mu_pm (k_mmu k')) (pe_addr e) UsedByUserMode \<or> frame_has N (mu_pm (k_mmu k')) (pe_addr e) SharedBuffer"
    if "mapped (user_roots k') (mu_tables (k_mmu k')) r a e" for r a e using s that unfolding spaces_ok_def user_typed_def by blast
  have p: "r = r'" if "mapped (user_roots k') (mu_tables (k_mmu k')) r a e" "mapped (user_roots k') (mu_tables (k_mmu k')) r' a' e'"
      "pe_addr e = pe_addr e'" "frame_has N (mu_pm (k_mmu k')) (pe_addr e) UsedByUserMode" for r a e r' a' e'
    using s that unfolding spaces_ok_def by blast
  show ?thesis using ok spaces_tables [OF s] m p by meson
qed

theorem memory_calls_keep_types_witness:
  "\<exists>k'. fold_rust (memory_call list_set_ops x86_arith_ops list_map_ops walk_mapper) [(1, DestroySharedBuf 5), (1, MapSharedBuf 5), (0, Mmap 5000 1)] pages_machine = Some k' \<and>
     mem_ok list_set_ops ivls_ok list_map_ops ivls_ok k' \<and> buffers_ok list_map_ops k'"
proof -
  have b: "0 < (5000::nat)" "5000 \<le> LOWER_HALF_END + 1" by (simp_all add: LOWER_HALF_END_def)
  obtain v k' where m: "sys_mmap list_set_ops x86_arith_ops list_map_ops walk_mapper 0 5000 1 pages_machine = Some (v, k')"
    using list_user_memory.sys_mmap_ok [where flags = 1, OF pages_machine_ok pages_machine_current(1) b refl] by blast
  have none: "k_shared_bufs pages_machine 5 = None" by (simp add: pages_machine_def)
  then have r: "fold_rust (memory_call list_set_ops x86_arith_ops list_map_ops walk_mapper) [(1, DestroySharedBuf 5), (1, MapSharedBuf 5), (0, Mmap 5000 1)] pages_machine = Some k'"
    using m by (simp add: sys_destroy_shared_buf_def destroy_shared_buf_def sys_map_shared_buf_def pages_machine_current map_shared_buf_def
        del: One_nat_def)
  have "k_next_buf_id pages_machine + length [(1 :: nat, DestroySharedBuf 5), (1, MapSharedBuf 5), (0, Mmap 5000 1)] < U64_LIMIT"
    "\<forall>cc\<in>set [(1, DestroySharedBuf 5), (1, MapSharedBuf 5), (0, Mmap 5000 1)]. call_fits cc" 
    "calls_safe list_set_ops x86_arith_ops list_map_ops walk_mapper [(1, DestroySharedBuf 5), (1, MapSharedBuf 5), (0, Mmap 5000 1)] pages_machine"
    using b none by (simp_all add: pages_machine_def U64_LIMIT_num)
  from memory_calls_keep_types [OF list_user_memory.user_memory_axioms pages_machine_ok pages_machine_buffers this r] r show ?thesis by blast
qed

text \<open>C15. A buffer created by one task and mapped by another is shared memory: mapping it never panics and
  fails only for lack of frames or of a free range; when it succeeds, the buffer reads as zero, a byte
  stored by either task at an offset is read by the other at the same offset of its own range, and the
  address spaces are otherwise isolated as before.\<close>

theorem shared_buffer_is_shared:
  fixes k :: "('s, 'm, 'z) Mem_scheme"
  assumes um: "user_memory N wfN X M S wfS" and k: "mem_ok S wfS N wfN k" "buffers_ok N k" "is_user_task k t task"
    and n: "0 < n" "n * SIZE_4KIB \<le> LOWER_HALF_END + 1" "k_next_buf_id k < u64_MAX"
    and create: "create_shared_buf S X N M t task n k = Some (Some (i, v), k1)"
    and t': "is_user_task k1 t' task'" and x: "x < n * SIZE_4KIB"
  shows "\<exists>r k2. map_shared_buf S X N M i t' task' k1 = Some (r, k2) \<and> mem_ok S wfS N wfN k2 \<and> buffers_ok N k2 \<and>
    (case r of
       None \<Rightarrow> out_of_room S N k1 task' n (3 * n)
     | Some v' \<Rightarrow> user_byte (k_mmu k2) (t_cr3 task') (v' + x) = Some 0 \<and>
         (\<exists>u. store_bytes (t_cr3 task) (v + x) [b] (k_mmu k2) = Some u \<and> user_byte u (t_cr3 task') (v' + x) = Some b) \<and>
         (\<exists>u. store_bytes (t_cr3 task') (v' + x) [b] (k_mmu k2) = Some u \<and> user_byte u (t_cr3 task) (v + x) = Some b))"
proof (rule user_memory.create_shared_buf_ok [OF um k n])
  fix k' assume "create_shared_buf S X N M t task n k = Some (None, k')"
  then show ?thesis using create by simp
next
  fix w k' frames
  assume "create_shared_buf S X N M t task n k = Some (Some (k_next_buf_id k, w), k')"
    and ok: "mem_ok S wfS N wfN k'" "buffers_ok N k'" and w: "w mod SIZE_4KIB = 0" "USER_MIN \<le> w" "w + n * SIZE_4KIB \<le> USER_LIMIT"
    and fr: "length frames = n" "k_shared_bufs k' = (k_shared_bufs k)(k_next_buf_id k \<mapsto> frames)" "user_roots k' = user_roots k"
    and lt: "leads_to (user_roots k) (t_cr3 task) w frames (k_mmu k) (k_mmu k')"
    and z: "sees (user_roots k) (t_cr3 task) w (n * SIZE_4KIB) (Some 0) (k_mmu k) (k_mmu k')"
  then have e: "i = k_next_buf_id k" "w = v" "k' = k1" using create by simp_all
  have root: "t_cr3 task \<in> user_roots k" "t_cr3 task' \<in> user_roots k" using user_task_root [OF k(3)] user_task_root [OF t'] fr(3) e by simp_all
  have a: "translate (mu_tables (k_mmu k1)) (t_cr3 task) (v + x) = Some (run_entry v shared_flags frames (v + x))" "v + x < USER_LIMIT"
    using leads_to_at [OF lt root(1), of x] w(3) x fr(1) e by simp_all
  have z1: "user_byte (k_mmu k1) (t_cr3 task) (v + x) = Some 0" using z root(1) a(2) x unfolding sees_def e(2,3) by simp
  have id: "k_shared_bufs k1 i = Some frames" using fr(2) e by simp
  note ok1 = ok [unfolded e(3)]
  show ?thesis
  proof (rule user_memory.map_shared_buf_ok [OF um ok1 t' id])
    fix k2 assume "map_shared_buf S X N M i t' task' k1 = Some (None, k2)" "mem_ok S wfS N wfN k2" "buffers_ok N k2"
      "out_of_room S N k1 task' (length frames) (3 * length frames)"
    then show ?thesis using fr(1) by (intro exI [of _ None] exI [of _ k2]) simp
  next
    fix v' k2 assume m: "map_shared_buf S X N M i t' task' k1 = Some (Some v', k2)" "mem_ok S wfS N wfN k2" "buffers_ok N k2"
      and v': "v' mod SIZE_4KIB = 0" "v' + length frames * SIZE_4KIB \<le> USER_LIMIT"
      and free: "\<forall>x. v' \<le> x \<and> x < v' + length frames * SIZE_4KIB \<longrightarrow> translate (mu_tables (k_mmu k1)) (t_cr3 task') x = None"
      and lt': "leads_to (user_roots k1) (t_cr3 task') v' frames (k_mmu k1) (k_mmu k2)" and bs: "mu_bytes (k_mmu k2) = mu_bytes (k_mmu k1)"
    have roots: "t_cr3 task \<in> user_roots k1" "t_cr3 task' \<in> user_roots k1" using root fr(3) e by simp_all
    have a1: "translate (mu_tables (k_mmu k2)) (t_cr3 task) (v + x) = Some (run_entry v shared_flags frames (v + x))"
      by (rule other_range_kept [OF lt' roots(1) a(2,1) free])
    have a2: "translate (mu_tables (k_mmu k2)) (t_cr3 task') (v' + x) = Some (run_entry v' shared_flags frames (v' + x))"
      by (rule leads_to_at [OF lt' roots(2) _ v'(2)]) (use x fr(1) in simp)
    have al: "v mod SIZE_4KIB = 0" using w(1) e by simp
    have "user_byte (k_mmu k2) (t_cr3 task') (v' + x) = user_byte (k_mmu k1) (t_cr3 task) (v + x)"
      using a(1) a2 bs by (simp add: user_byte_def run_entry_def aligned_offset [OF al] aligned_offset [OF v'(1)])
    then show ?thesis using m z1 shared_store [OF a1 a2 al v'(1), of b] shared_store [OF a2 a1 v'(1) al, of b]
      by (intro exI [of _ "Some v'"] exI [of _ k2]) simp
  qed
qed

theorem shared_buffer_is_shared_witness:
  "\<exists>v k1 r k2. create_shared_buf list_set_ops x86_arith_ops list_map_ops walk_mapper 1 (pages_task 1) 2 pages_machine = Some (Some (1, v), k1) \<and>
     map_shared_buf list_set_ops x86_arith_ops list_map_ops walk_mapper 1 2 (pages_task 2) k1 = Some (r, k2) \<and>
     mem_ok list_set_ops ivls_ok list_map_ops ivls_ok k2"
proof -
  obtain v k1 where c: "create_shared_buf list_set_ops x86_arith_ops list_map_ops walk_mapper 1 (pages_task 1) 2 pages_machine = Some (Some (1, v), k1)"
    using pages_machine_create by blast
  have ut: "is_user_task pages_machine 1 (pages_task 1)" by (simp add: pages_machine_user)
  have "k_tasks k1 2 = k_tasks pages_machine 2"
    using c by (auto simp: create_shared_buf_def set_vaddr_set_def upd_task_def Let_def rust_SomeD split: option.splits)
  then have ut': "is_user_task k1 2 (pages_task 2)" using pages_machine_user [of 2 "pages_task 2"] by (simp add: is_user_task_def)
  have n: "0 < (2::nat)" "2 * SIZE_4KIB \<le> LOWER_HALF_END + 1" "k_next_buf_id pages_machine < u64_MAX" "5000 < 2 * SIZE_4KIB"
    by (simp_all add: SIZE_4KIB_def LOWER_HALF_END_def pages_machine_def u64_MAX_num)
  from shared_buffer_is_shared [where b = 7, OF list_user_memory.user_memory_axioms pages_machine_ok pages_machine_buffers ut n(1-3) c ut' n(4)] c
  show ?thesis by blast
qed

text \<open>Destroying a buffer frees its frames but unmaps nothing: the creator's pages still map them,
  writable, although the allocator now regards them as free, and the typing of memory is broken.
  Nothing in the system call stops a task from doing this.\<close>

theorem destroy_frees_mapped_frames:
  fixes k :: "('s, 'm, 'z) Mem_scheme"
  assumes um: "user_memory N wfN X M S wfS" and k: "mem_ok S wfS N wfN k" "buffers_ok N k" "is_user_task k t task"
    and n: "0 < n" "n * SIZE_4KIB \<le> LOWER_HALF_END + 1" "k_next_buf_id k < u64_MAX"
    and create: "create_shared_buf S X N M t task n k = Some (Some (i, v), k1)"
  shows "\<exists>k2. sys_destroy_shared_buf N i k1 = Some (0, k2) \<and> \<not> mem_ok S wfS N wfN k2 \<and>
    (\<forall>x<n * SIZE_4KIB. \<exists>e. translate (mu_tables (k_mmu k2)) (t_cr3 task) (v + x) = Some e \<and> pf_writable (pe_flags e) \<and>
       frame_has N (mu_pm (k_mmu k2)) (pe_addr e) Usable)"
proof (rule user_memory.create_shared_buf_ok [OF um k n])
  fix k' assume "create_shared_buf S X N M t task n k = Some (None, k')"
  then show ?thesis using create by simp
next
  fix w k' frames
  assume "create_shared_buf S X N M t task n k = Some (Some (k_next_buf_id k, w), k')"
    and ok: "mem_ok S wfS N wfN k'" "buffers_ok N k'" and w: "w + n * SIZE_4KIB \<le> USER_LIMIT"
    and fr: "length frames = n" "k_shared_bufs k' = (k_shared_bufs k)(k_next_buf_id k \<mapsto> frames)" "user_roots k' = user_roots k"
    and lt: "leads_to (user_roots k) (t_cr3 task) w frames (k_mmu k) (k_mmu k')"
  then have e: "i = k_next_buf_id k" "w = v" "k' = k1" using create by simp_all
  have root: "t_cr3 task \<in> user_roots k1" using user_task_root [OF k(3)] fr(3) e by simp
  have id: "k_shared_bufs k1 i = Some frames" using fr(2) e by simp
  note ok1 = ok [unfolded e(3)]
  obtain pm where d: "destroy_shared_buf N i k1 =
      Some (k1 \<lparr> k_mmu := (k_mmu k1) \<lparr> mu_pm := pm \<rparr>, k_shared_bufs := (k_shared_bufs k1)(i := None) \<rparr>)"
      "retyped_frames N (mu_pm (k_mmu k1)) (set frames) Usable pm"
    by (rule user_memory.destroy_shared_buf_ok [OF um ok1 id])
  let ?k2 = "k1 \<lparr> k_mmu := (k_mmu k1) \<lparr> mu_pm := pm \<rparr>, k_shared_bufs := (k_shared_bufs k1)(i := None) \<rparr>"
  have "\<forall>f\<in>set frames. frame_has N (mu_pm (k_mmu k1)) f SharedBuffer" using ok1(2) id unfolding buffers_ok_def by blast
  then have al: "\<forall>f\<in>set frames. f mod SIZE_4KIB = 0" using frame_has_aligned by blast
  have usable: "frame_has N pm f Usable" if "f \<in> set frames" for f using retyped_has [OF d(2) al, of f Usable] that al by simp
  have page: "translate (mu_tables (k_mmu k1)) (t_cr3 task) (v + x) = Some (run_entry v shared_flags frames (v + x)) \<and>
      frame_has N pm (pe_addr (run_entry v shared_flags frames (v + x))) Usable" if x: "x < n * SIZE_4KIB" for x
  proof -
    have "x div SIZE_4KIB < length frames" using x fr(1) by (simp add: less_mult_imp_div_less)
    then show ?thesis using leads_to_at [OF lt user_task_root [OF k(3)], of x] w x fr(1) e usable by (simp add: run_entry_def)
  qed
  have p0: "0 < n * SIZE_4KIB" using n(1) by (simp add: SIZE_4KIB_def)
  have ur: "user_roots ?k2 = user_roots k1" by (simp add: user_roots_def is_user_task_def)
  have "v < USER_LIMIT" using w p0 unfolding e(2) by linarith
  then have mp: "mapped (user_roots k1) (mu_tables (k_mmu k1)) (t_cr3 task) v (run_entry v shared_flags frames v)"
    using page [OF p0] root by (simp add: mapped_def)
  have "\<not> mem_ok S wfS N wfN ?k2"
  proof
    assume "mem_ok S wfS N wfN ?k2"
    then have "spaces_ok N (user_roots k1) pm (mu_tables (k_mmu k1))" unfolding mem_ok_def mmu_ok_def ur by simp
    then have "user_typed N pm (pe_addr (run_entry v shared_flags frames v))" using mp unfolding spaces_ok_def by blast
    then show False using page [OF p0] frame_has_unique unfolding user_typed_def by force
  qed
  moreover have "pf_writable (pe_flags (run_entry v shared_flags frames a))" for a by (simp add: run_entry_def shared_flags_def)
  ultimately show ?thesis using d(1) page by (intro exI [of _ ?k2]) (simp add: sys_destroy_shared_buf_def)
qed

theorem destroy_frees_mapped_frames_witness:
  "\<exists>v k1 k2. create_shared_buf list_set_ops x86_arith_ops list_map_ops walk_mapper 1 (pages_task 1) 2 pages_machine = Some (Some (1, v), k1) \<and>
     sys_destroy_shared_buf list_map_ops 1 k1 = Some (0, k2) \<and> \<not> mem_ok list_set_ops ivls_ok list_map_ops ivls_ok k2"
proof -
  obtain v k1 where c: "create_shared_buf list_set_ops x86_arith_ops list_map_ops walk_mapper 1 (pages_task 1) 2 pages_machine = Some (Some (1, v), k1)"
    using pages_machine_create by blast
  have ut: "is_user_task pages_machine 1 (pages_task 1)" by (simp add: pages_machine_user)
  have n: "0 < (2::nat)" "2 * SIZE_4KIB \<le> LOWER_HALF_END + 1" "k_next_buf_id pages_machine < u64_MAX"
    by (simp_all add: SIZE_4KIB_def LOWER_HALF_END_def pages_machine_def u64_MAX_num)
  from destroy_frees_mapped_frames [OF list_user_memory.user_memory_axioms pages_machine_ok pages_machine_buffers ut n c] c
  show ?thesis by blast
qed

end
