(* ===== verification/Address_Space.thy ===== *)
theory Address_Space
  imports Memory_Syscalls
begin

text \<open>
  The life of an address space: \<^verbatim>\<open>create_user_page_table\<close> of
  \<^verbatim>\<open>user_task_from_elf.rs\<close> makes an empty one that shares the kernel half, and
  \<^verbatim>\<open>free_user_address_space\<close> of \<^verbatim>\<open>task/task.rs\<close>, run when the last reference to a
  task goes, returns its tables and its private frames.

  The four nested loops of the release have one body; here it is a recursion on the level of the
  table. \<open>frees\<close> describes a step by the frames it frees and the shared frames it meets and leaves;
  such steps compose when their frames are disjoint, which the isolation invariant gives.
\<close>

section \<open>Operations\<close>

text \<open>The table in a frame, reached through the higher-half mapping.\<close>

definition table_at :: "x86_ops \<Rightarrow> nat \<Rightarrow> nat \<Rightarrow> unit rust" where
  "table_at X hhdm phys = do { v \<leftarrow> add_u64 hhdm phys; _ \<leftarrow> virt_addr_new X v; Some () }"

definition free_user_frame ::
    "x86_ops \<Rightarrow> ('m, MemoryType) nodit_map_ops \<Rightarrow> nat \<Rightarrow> 'm PhysicalMemory \<Rightarrow> 'm PhysicalMemory rust" where
  "free_user_frame X N phys pm =
     do { (_, pm') \<leftarrow> free_frame N pm (frame_containing_address X phys) UsedByUserMode; Some pm' }"

text \<open>The loop over the entries \<open>is\<close> of the table \<open>tbl\<close>.\<close>

primrec free_below ::
    "x86_ops \<Rightarrow> ('m, MemoryType) nodit_map_ops \<Rightarrow> nat \<Rightarrow> page_memory \<Rightarrow> nat \<Rightarrow> nat \<Rightarrow> nat list \<Rightarrow>
     'm PhysicalMemory \<Rightarrow> 'm PhysicalMemory rust" where
  "free_below X N hhdm t 0 tbl is pm =
     fold_rust (\<lambda>i pm. if \<not> entry_present (t tbl i) then Some pm else free_user_frame X N (pe_addr (t tbl i)) pm) is pm"
| "free_below X N hhdm t (Suc l) tbl is pm =
     fold_rust (\<lambda>i pm. if \<not> entry_present (t tbl i) then Some pm
        else do { _ \<leftarrow> table_at X hhdm (pe_addr (t tbl i));
                  pm1 \<leftarrow> free_below X N hhdm t l (pe_addr (t tbl i)) [0..<512] pm;
                  free_user_frame X N (pe_addr (t tbl i)) pm1 }) is pm"

definition free_user_address_space ::
    "x86_ops \<Rightarrow> ('m, MemoryType) nodit_map_ops \<Rightarrow> nat \<Rightarrow> nat \<Rightarrow> page_memory \<Rightarrow> 'm PhysicalMemory \<Rightarrow> 'm PhysicalMemory rust" where
  "free_user_address_space X N hhdm l4_phys t pm =
     do { _ \<leftarrow> table_at X hhdm l4_phys;
          pm1 \<leftarrow> free_below X N hhdm t 3 l4_phys [0..<256] pm;
          free_user_frame X N l4_phys pm1 }"

text \<open>\<^verbatim>\<open>TaskInner::drop\<close>; the kernel stack is released separately.\<close>

definition TaskInner_drop ::
    "x86_ops \<Rightarrow> ('m, MemoryType) nodit_map_ops \<Rightarrow> nat \<Rightarrow> 's TaskInner \<Rightarrow> 'm Mmu \<Rightarrow> 'm Mmu rust" where
  "TaskInner_drop X N hhdm inner u =
     (case ti_user_page_table inner of
        None \<Rightarrow> Some u
      | Some l4_frame \<Rightarrow>
          do { pm \<leftarrow> free_user_address_space X N hhdm l4_frame (mu_tables u) (mu_pm u);
               Some (u \<lparr> mu_pm := pm \<rparr>) })"

definition create_user_page_table ::
    "x86_ops \<Rightarrow> ('m, MemoryType) nodit_map_ops \<Rightarrow> nat \<Rightarrow> nat \<Rightarrow> 'm Mmu \<Rightarrow> (nat \<times> 'm Mmu) rust" where
  "create_user_page_table X N hhdm new_kernel_cr3 u =
     do { (f, fa) \<leftarrow> allocate_frame_4kib X N (get_user_mode_frame_allocator (mu_pm u));
          l4_frame \<leftarrow> unwrap f;
          _ \<leftarrow> virt_addr_new X hhdm;
          _ \<leftarrow> table_at X hhdm l4_frame;
          _ \<leftarrow> table_at X hhdm new_kernel_cr3;
          let kernel_table = ((mu_tables u)(l4_frame := PageTable_new)) new_kernel_cr3;
          let user_table = fold (\<lambda>i table. table(i := kernel_table i)) [256..<512] PageTable_new;
          Some (l4_frame, u \<lparr> mu_pm := fa_physical_memory fa, mu_tables := (mu_tables u)(l4_frame := user_table) \<rparr>) }"

section \<open>Steps that free frames\<close>

definition frees ::
    "('m, MemoryType) nodit_map_ops \<Rightarrow> ('m \<Rightarrow> bool) \<Rightarrow> nat set \<Rightarrow> nat set \<Rightarrow> ('m PhysicalMemory \<Rightarrow> 'm PhysicalMemory rust) \<Rightarrow> bool" where
  "frees N wfN F K step \<longleftrightarrow>
     (\<forall>pm. pm_ok N wfN pm \<longrightarrow> (\<forall>f\<in>F. frame_has N pm f UsedByUserMode) \<longrightarrow> (\<forall>f\<in>K. frame_has N pm f SharedBuffer) \<longrightarrow>
        (\<exists>pm'. step pm = Some pm' \<and> pm_ok N wfN pm' \<and> retyped_frames N pm F Usable pm'))"

lemma frees_Some: "frees N wfN {} K Some"
  by (simp add: frees_def)

lemma frees_seq:
  assumes "frees N wfN F K s" "frees N wfN F' K' s'" "F \<inter> F' = {}"
  shows "frees N wfN (F \<union> F') (K \<union> K') (\<lambda>pm. do { pm1 \<leftarrow> s pm; s' pm1 })"
  unfolding frees_def
proof (intro allI impI)
  fix pm assume pm: "pm_ok N wfN pm" and F: "\<forall>f\<in>F \<union> F'. frame_has N pm f UsedByUserMode" and K: "\<forall>f\<in>K \<union> K'. frame_has N pm f SharedBuffer"
  obtain pm1 where s: "s pm = Some pm1" "pm_ok N wfN pm1" "retyped_frames N pm F Usable pm1"
    using assms(1) pm F K unfolding frees_def by blast
  have al: "\<forall>f\<in>F. f mod SIZE_4KIB = 0" using F frame_has_aligned by blast
  have "F \<inter> K' = {}" using F K frame_has_unique by blast
  then have "\<forall>f\<in>F'. frame_has N pm1 f UsedByUserMode" "\<forall>f\<in>K'. frame_has N pm1 f SharedBuffer"
    using retyped_has [OF s(3) al] F K assms(3) by (auto simp: disjoint_iff)
  then obtain pm2 where s2: "s' pm1 = Some pm2" "pm_ok N wfN pm2" "retyped_frames N pm1 F' Usable pm2"
    using assms(2) s(2) unfolding frees_def by blast
  then show "\<exists>pm'. do { pm1 \<leftarrow> s pm; s' pm1 } = Some pm' \<and> pm_ok N wfN pm' \<and> retyped_frames N pm (F \<union> F') Usable pm'"
    using s(1) retyped_frames_Un [OF s(3) s2(3)] by auto
qed

lemma frees_fold:
  assumes "\<forall>i\<in>set is. frees N wfN (F i) (K i) (step i)" "distinct is"
    and "\<forall>i\<in>set is. \<forall>j\<in>set is. i \<noteq> j \<longrightarrow> F i \<inter> F j = {}"
  shows "frees N wfN (\<Union>i\<in>set is. F i) (\<Union>i\<in>set is. K i) (fold_rust step is)"
  using assms
proof (induction "is")
  case Nil
  have "fold_rust step [] = Some" by (rule ext) simp
  then show ?case using frees_Some [of N wfN "{}"] by simp
next
  case (Cons i "is")
  have "F i \<inter> (\<Union>j\<in>set is. F j) = {}" using Cons.prems(2,3) by auto
  moreover have "frees N wfN (\<Union>j\<in>set is. F j) (\<Union>j\<in>set is. K j) (fold_rust step is)" using Cons by auto
  moreover have "fold_rust step (i # is) = (\<lambda>pm. do { pm1 \<leftarrow> step i pm; fold_rust step is pm1 })" by (rule ext) simp
  ultimately show ?case using frees_seq [of N wfN "F i" "K i" "step i"] Cons.prems(1) by simp
qed

section \<open>The frames below a table\<close>

text \<open>The frames that the pages below a table map, and the condition that the private ones among
  them, \<open>U\<close>, are each mapped by one page only.\<close>

primrec leaf_frames :: "nat set \<Rightarrow> page_memory \<Rightarrow> nat \<Rightarrow> nat \<Rightarrow> nat set" where
  "leaf_frames R t 0 tbl = (\<lambda>i. pe_addr (t tbl i)) ` {i \<in> slots R 0. entry_present (t tbl i)}"
| "leaf_frames R t (Suc l) tbl = (\<Union>i\<in>{i \<in> slots R (Suc l). links (t tbl i)}. leaf_frames R t l (pe_addr (t tbl i)))"

primrec lone_leaves :: "nat set \<Rightarrow> page_memory \<Rightarrow> nat set \<Rightarrow> nat \<Rightarrow> nat \<Rightarrow> bool" where
  "lone_leaves R t U 0 tbl \<longleftrightarrow>
     (\<forall>i\<in>slots R 0. \<forall>j\<in>slots R 0. i \<noteq> j \<longrightarrow> entry_present (t tbl i) \<longrightarrow> entry_present (t tbl j) \<longrightarrow>
        pe_addr (t tbl i) = pe_addr (t tbl j) \<longrightarrow> pe_addr (t tbl i) \<notin> U)"
| "lone_leaves R t U (Suc l) tbl \<longleftrightarrow>
     (\<forall>i\<in>slots R (Suc l). links (t tbl i) \<longrightarrow> lone_leaves R t U l (pe_addr (t tbl i))) \<and>
     (\<forall>i\<in>slots R (Suc l). \<forall>j\<in>slots R (Suc l). i \<noteq> j \<longrightarrow> links (t tbl i) \<longrightarrow> links (t tbl j) \<longrightarrow>
        leaf_frames R t l (pe_addr (t tbl i)) \<inter> leaf_frames R t l (pe_addr (t tbl j)) \<inter> U = {})"

text \<open>An address with a given index at one level and given lower bits.\<close>

lemma address_with:
  assumes "i < 512"
  shows "\<exists>b. page_index (Suc l) b = i \<and> page_low l b = page_low l a"
proof
  let ?b = "(i * 512 ^ Suc l + page_low l a) * SIZE_4KIB"
  have lt: "page_low l a < 512 ^ Suc l" by (simp add: page_low_def)
  have d: "?b div SIZE_4KIB = i * 512 ^ Suc l + page_low l a" by (simp add: SIZE_4KIB_def)
  have "(i * 512 ^ Suc l + page_low l a) div 512 ^ Suc l = i" using lt by (simp del: power_Suc)
  then show "page_index (Suc l) ?b = i \<and> page_low l ?b = page_low l a"
    unfolding page_index_def page_low_def d using assms lt by (simp add: page_low_def del: power_Suc)
qed

lemma slots_less: "R \<subseteq> {..<512} \<Longrightarrow> i \<in> slots R l \<Longrightarrow> i < 512"
  by (auto simp: slots_def split: if_splits)

lemma walk_below:
  assumes "R \<subseteq> {..<512}" "i \<in> slots R (Suc l)" "links (t tbl i)"
  obtains b where "page_index (Suc l) b = i" "page_low l b = page_low l a" "walk t (Suc l) tbl b = walk t l (pe_addr (t tbl i)) a"
proof -
  obtain b where b: "page_index (Suc l) b = i" "page_low l b = page_low l a"
    using address_with [OF slots_less [OF assms(1,2)]] by blast
  then have "walk t (Suc l) tbl b = walk t l (pe_addr (t tbl i)) a" using assms(3) walk_low [OF b(2)] by simp
  then show ?thesis by (rule that [OF b])
qed

lemma leaf_frames_walk:
  assumes R: "R \<subseteq> {..<512}"
  shows "l \<le> 3 \<Longrightarrow> leaf_frames R t l tbl = {f. \<exists>a e. page_index l a \<in> slots R l \<and> walk t l tbl a = Some e \<and> pe_addr e = f}"
proof (induction l arbitrary: tbl)
  case 0
  have "\<exists>a. page_index 0 a = i" if "i < 512" for i
    by (rule exI [of _ "i * SIZE_4KIB"]) (use that in \<open>simp add: page_index_def SIZE_4KIB_def\<close>)
  then show ?case using slots_less [OF R, of _ 0] by (auto split: if_splits)
next
  case (Suc l)
  show ?case
  proof (intro set_eqI iffI)
    fix f assume "f \<in> leaf_frames R t (Suc l) tbl"
    then obtain i a e where i: "i \<in> slots R (Suc l)" "links (t tbl i)" "walk t l (pe_addr (t tbl i)) a = Some e" "pe_addr e = f"
      using Suc by auto
    obtain b where "page_index (Suc l) b = i" "walk t (Suc l) tbl b = walk t l (pe_addr (t tbl i)) a"
      by (rule walk_below [where t = t and tbl = tbl and a = a, OF R i(1,2)])
    with i show "f \<in> {f. \<exists>a e. page_index (Suc l) a \<in> slots R (Suc l) \<and> walk t (Suc l) tbl a = Some e \<and> pe_addr e = f}" by auto
  next
    fix f assume "f \<in> {f. \<exists>a e. page_index (Suc l) a \<in> slots R (Suc l) \<and> walk t (Suc l) tbl a = Some e \<and> pe_addr e = f}"
    then obtain a e where a: "page_index (Suc l) a \<in> slots R (Suc l)" "walk t (Suc l) tbl a = Some e" "pe_addr e = f" by blast
    have "page_index l a \<in> slots R l" using Suc.prems by (intro page_index_slots) simp
    with a show "f \<in> leaf_frames R t (Suc l) tbl" using Suc by (auto split: if_splits)
  qed
qed

lemma lone_leaves_walk:
  assumes R: "R \<subseteq> {..<512}"
  shows "l \<le> 3 \<Longrightarrow> (\<And>a b e e'. page_index l a \<in> slots R l \<Longrightarrow> page_index l b \<in> slots R l \<Longrightarrow> walk t l tbl a = Some e \<Longrightarrow>
       walk t l tbl b = Some e' \<Longrightarrow> pe_addr e = pe_addr e' \<Longrightarrow> pe_addr e \<in> U \<Longrightarrow> page_low l a = page_low l b) \<Longrightarrow>
     lone_leaves R t U l tbl"
proof (induction l arbitrary: tbl)
  case 0
  have ix: "page_index 0 (i * SIZE_4KIB) = i" if "i \<in> slots R 0" for i
    using slots_less [OF R that] by (simp add: page_index_def SIZE_4KIB_def)
  show ?case unfolding lone_leaves.simps
  proof (intro ballI impI notI)
    fix i j assume "i \<in> slots R 0" "j \<in> slots R 0" "i \<noteq> j" "entry_present (t tbl i)" "entry_present (t tbl j)"
      "pe_addr (t tbl i) = pe_addr (t tbl j)" "pe_addr (t tbl i) \<in> U"
    then show False using 0(2) [of "i * SIZE_4KIB" "j * SIZE_4KIB" "t tbl i" "t tbl j"] ix by (simp add: page_low_0)
  qed
next
  case (Suc l)
  have in_l: "page_index l a \<in> slots R l" for a using Suc.prems(1) by (intro page_index_slots) simp
  show ?case unfolding lone_leaves.simps
  proof (intro conjI ballI impI)
    fix i assume i: "i \<in> slots R (Suc l)" "links (t tbl i)"
    show "lone_leaves R t U l (pe_addr (t tbl i))"
    proof (rule Suc.IH)
      fix a b e e' assume h: "walk t l (pe_addr (t tbl i)) a = Some e" "walk t l (pe_addr (t tbl i)) b = Some e'" "pe_addr e = pe_addr e'" "pe_addr e \<in> U"
      obtain a' where a': "page_index (Suc l) a' = i" "page_low l a' = page_low l a" "walk t (Suc l) tbl a' = walk t l (pe_addr (t tbl i)) a"
        by (rule walk_below [where t = t and tbl = tbl, OF R i])
      obtain b' where b': "page_index (Suc l) b' = i" "page_low l b' = page_low l b" "walk t (Suc l) tbl b' = walk t l (pe_addr (t tbl i)) b"
        by (rule walk_below [where t = t and tbl = tbl, OF R i])
      have "page_low (Suc l) a' = page_low (Suc l) b'" using Suc.prems(2) [of a' b' e e'] a' b' h i by simp
      then show "page_low l a = page_low l b" using a'(2) b'(2) page_low_Suc by metis
    qed (use Suc.prems(1) in simp)
  next
    fix i j assume ij: "i \<in> slots R (Suc l)" "j \<in> slots R (Suc l)" "i \<noteq> j" and lk: "links (t tbl i)" "links (t tbl j)"
    show "leaf_frames R t l (pe_addr (t tbl i)) \<inter> leaf_frames R t l (pe_addr (t tbl j)) \<inter> U = {}"
    proof (rule equals0I, elim IntE)
      fix f assume f: "f \<in> leaf_frames R t l (pe_addr (t tbl i))" "f \<in> leaf_frames R t l (pe_addr (t tbl j))" "f \<in> U"
      have l3: "l \<le> 3" using Suc.prems(1) by simp
      obtain a e b e' where h: "walk t l (pe_addr (t tbl i)) a = Some e" "pe_addr e = f" "walk t l (pe_addr (t tbl j)) b = Some e'" "pe_addr e' = f"
        using f(1,2) unfolding leaf_frames_walk [OF R l3] by blast
      obtain a' where a': "page_index (Suc l) a' = i" "walk t (Suc l) tbl a' = walk t l (pe_addr (t tbl i)) a"
        by (rule walk_below [where t = t and tbl = tbl and a = a, OF R ij(1) lk(1)])
      obtain b' where b': "page_index (Suc l) b' = j" "walk t (Suc l) tbl b' = walk t l (pe_addr (t tbl j)) b"
        by (rule walk_below [where t = t and tbl = tbl and a = b, OF R ij(2) lk(2)])
      have "page_low (Suc l) a' = page_low (Suc l) b'" using Suc.prems(2) [of a' b' e e'] a' b' h f(3) ij by simp
      then show False using a'(1) b'(1) ij(3) page_low_Suc by metis
    qed
  qed
qed

text \<open>The frames an address space owns: its tables and the private frames its pages map.\<close>

definition owned_frames :: "('m, MemoryType) nodit_map_ops \<Rightarrow> 'm PhysicalMemory \<Rightarrow> page_memory \<Rightarrow> nat \<Rightarrow> nat set" where
  "owned_frames N pm t root = user_tables t root \<union>
     {f. frame_has N pm f UsedByUserMode \<and> (\<exists>a<USER_LIMIT. \<exists>e. translate t root a = Some e \<and> pe_addr e = f)}"

lemma user_slots_sub: "user_slots \<subseteq> {..<512}"
  by (auto simp: user_slots_def)

text \<open>Every page of the user half has an address below the limit.\<close>

lemma user_page_address:
  assumes "page_index 3 a \<in> user_slots"
  obtains b where "b < USER_LIMIT" "page_low 3 b = page_low 3 a"
proof
  let ?b = "page_low 3 a * SIZE_4KIB"
  have "page_index 3 a < 256" using assms by (simp add: user_slots_def)
  then have "a div SIZE_4KIB mod 68719476736 div 134217728 < 256"
    using mod_mult2_eq [of "a div SIZE_4KIB" 134217728 512] by (simp add: page_index_def)
  then have "page_low 3 a < 34359738368" by (simp add: page_low_def)
  then show "?b < USER_LIMIT" by (simp add: SIZE_4KIB_def USER_LIMIT_def)
  show "page_low 3 ?b = page_low 3 a" by (simp add: page_low_def SIZE_4KIB_def)
qed

lemma user_leaf_frames:
  "leaf_frames user_slots t 3 root = {f. \<exists>a<USER_LIMIT. \<exists>e. translate t root a = Some e \<and> pe_addr e = f}"
proof -
  have "(\<exists>a. page_index 3 a \<in> user_slots \<and> walk t 3 root a = Some e) \<longleftrightarrow> (\<exists>a<USER_LIMIT. walk t 3 root a = Some e)" for e
    using user_page_address walk_low user_limit_slot by metis
  then show ?thesis unfolding leaf_frames_walk [OF user_slots_sub order_refl] translate_def by (auto simp: slots_def)
qed

text \<open>A new address space: an empty user half that no other space uses, and the kernel's half.\<close>

definition space_created :: "nat set \<Rightarrow> nat \<Rightarrow> nat \<Rightarrow> 'm Mmu \<Rightarrow> 'm Mmu \<Rightarrow> bool" where
  "space_created roots kernel_cr3 l4 u u' \<longleftrightarrow> l4 \<notin> roots \<and> mu_bytes u' = mu_bytes u \<and>
     (\<forall>g. g \<noteq> l4 \<longrightarrow> mu_tables u' g = mu_tables u g) \<and>
     (\<forall>i. mu_tables u' l4 i = (if i \<in> kernel_slots then mu_tables u kernel_cr3 i else unused_entry)) \<and>
     (\<forall>r\<in>roots. user_tables (mu_tables u') r = user_tables (mu_tables u) r \<and>
        (\<forall>a<USER_LIMIT. translate (mu_tables u') r a = translate (mu_tables u) r a)) \<and>
     user_tables (mu_tables u') l4 = {l4} \<and> (\<forall>a<USER_LIMIT. translate (mu_tables u') l4 a = None)"

lemma copied_entries: "fold (\<lambda>i table. table(i := k i)) ixs t = (\<lambda>i. if i \<in> set ixs then k i else t i)"
  by (induction ixs arbitrary: t) (auto simp: fun_eq_iff)

lemma empty_user_half:
  assumes "\<forall>i\<in>user_slots. t l4 i = unused_entry"
  shows "tree user_slots t 3 l4" "user_tables t l4 = {l4}" "a < USER_LIMIT \<Longrightarrow> translate t l4 a = None"
proof -
  show "tree user_slots t 3 l4" unfolding numeral_3_eq_3 using assms by (simp add: slots_def)
  show "user_tables t l4 = {l4}" unfolding user_tables_def numeral_3_eq_3 using assms by (auto simp: slots_def)
  show "translate t l4 a = None" if "a < USER_LIMIT"
    using assms user_limit_slot [OF that] unfolding translate_def numeral_3_eq_3 by simp
qed

lemma other_table:
  assumes "\<forall>g. g \<noteq> l4 \<longrightarrow> t' g = t g" "l4 \<notin> user_tables t r"
  shows "user_tables t' r = user_tables t r" "tree user_slots t' 3 r = tree user_slots t 3 r"
    "a < USER_LIMIT \<Longrightarrow> translate t' r a = translate t r a"
proof -
  have f: "\<forall>g\<in>tables user_slots t 3 r. t' g = t g" using assms unfolding user_tables_def by metis
  show "user_tables t' r = user_tables t r" "tree user_slots t' 3 r = tree user_slots t 3 r"
    using tables_frame [OF f] tree_frame [OF f] by (simp_all add: user_tables_def)
  show "translate t' r a = translate t r a" if "a < USER_LIMIT"
    using walk_frame [OF f, of a] user_limit_slot [OF that] by (simp add: translate_def slots_def)
qed

context user_mappings
begin

lemma frees_frame:
  assumes "f mod SIZE_4KIB = 0" "f < PHYS_LIMIT"
  shows "frees N wfN {f} {} (free_user_frame X N f)" "frees N wfN {} {f} (free_user_frame X N f)"
proof -
  have c: "frame_containing_address X f = f" by (rule frame_aligned [OF assms(1)])
  show "frees N wfN {f} {} (free_user_frame X N f)"
    unfolding frees_def
  proof (intro allI impI)
    fix pm assume pm: "pm_ok N wfN pm" and "\<forall>g\<in>{f}. frame_has N pm g UsedByUserMode"
    then have h: "frame_has N pm f UsedByUserMode" by simp
    from free_frame_spec(1) [OF pm, of f UsedByUserMode] frame_has_bound [OF pm h] h
    show "\<exists>pm'. free_user_frame X N f pm = Some pm' \<and> pm_ok N wfN pm' \<and> retyped_frames N pm {f} Usable pm'"
      unfolding free_user_frame_def c retyped_one frame_has_def by auto
  qed
  show "frees N wfN {} {f} (free_user_frame X N f)"
    unfolding frees_def
  proof (intro allI impI)
    fix pm assume pm: "pm_ok N wfN pm" and "\<forall>g\<in>{f}. frame_has N pm g SharedBuffer"
    then have h: "frame_has N pm f SharedBuffer" by simp
    from free_frame_spec(2) [OF pm, of f SharedBuffer UsedByUserMode] frame_has_bound [OF pm h] h pm
    show "\<exists>pm'. free_user_frame X N f pm = Some pm' \<and> pm_ok N wfN pm' \<and> retyped_frames N pm {} Usable pm'"
      unfolding free_user_frame_def c frame_has_def by auto
  qed
qed

lemma frees_below:
  assumes R: "R \<subseteq> {..<512}"
  shows "tree R t l tbl \<Longrightarrow> lone_leaves R t U l tbl \<Longrightarrow> leaf_frames R t l tbl \<inter> tables R t l tbl = {} \<Longrightarrow>
    \<forall>f\<in>tables R t l tbl \<union> leaf_frames R t l tbl. f mod SIZE_4KIB = 0 \<and> f < PHYS_LIMIT \<and> table_at X hhdm f = Some () \<Longrightarrow>
    l \<le> 3 \<Longrightarrow> distinct ixs \<Longrightarrow> set ixs = slots R l \<Longrightarrow>
    frees N wfN (tables R t l tbl - {tbl} \<union> (leaf_frames R t l tbl \<inter> U)) (leaf_frames R t l tbl - U) (free_below X N hhdm t l tbl ixs)"
proof (induction l arbitrary: tbl ixs)
  case 0
  let ?step = "\<lambda>i pm. if \<not> entry_present (t tbl i) then Some pm else free_user_frame X N (pe_addr (t tbl i)) pm"
  let ?F = "\<lambda>i. if entry_present (t tbl i) then {pe_addr (t tbl i)} \<inter> U else {}"
  let ?K = "\<lambda>i. if entry_present (t tbl i) then {pe_addr (t tbl i)} - U else {}"
  have "\<forall>i\<in>set ixs. frees N wfN (?F i) (?K i) (?step i)"
  proof
    fix i assume i: "i \<in> set ixs"
    show "frees N wfN (?F i) (?K i) (?step i)"
    proof (cases "entry_present (t tbl i)")
      case True
      then have "pe_addr (t tbl i) \<in> leaf_frames R t 0 tbl" using i 0(7) by auto
      then have "pe_addr (t tbl i) mod SIZE_4KIB = 0" "pe_addr (t tbl i) < PHYS_LIMIT" using 0(4) by auto
      from frees_frame [OF this] True show ?thesis by (cases "pe_addr (t tbl i) \<in> U") (simp_all add: insert_Diff_if)
    qed (simp add: frees_Some)
  qed
  moreover have "\<forall>i\<in>set ixs. \<forall>j\<in>set ixs. i \<noteq> j \<longrightarrow> ?F i \<inter> ?F j = {}" using 0(2,7) by auto
  ultimately have "frees N wfN (\<Union>i\<in>set ixs. ?F i) (\<Union>i\<in>set ixs. ?K i) (fold_rust ?step ixs)" using 0(6) by (intro frees_fold)
  moreover have "(\<Union>i\<in>set ixs. ?F i) = tables R t 0 tbl - {tbl} \<union> (leaf_frames R t 0 tbl \<inter> U)" "(\<Union>i\<in>set ixs. ?K i) = leaf_frames R t 0 tbl - U"
    unfolding 0(7) by (auto split: if_splits)
  ultimately show ?case by simp
next
  case (Suc l)
  let ?c = "\<lambda>i. pe_addr (t tbl i)"
  let ?step = "\<lambda>i pm. if \<not> entry_present (t tbl i) then Some pm
        else do { _ \<leftarrow> table_at X hhdm (?c i); pm1 \<leftarrow> free_below X N hhdm t l (?c i) [0..<512] pm; free_user_frame X N (?c i) pm1 }"
  let ?F = "\<lambda>i. if links (t tbl i) then tables R t l (?c i) \<union> (leaf_frames R t l (?c i) \<inter> U) else {}"
  let ?K = "\<lambda>i. if links (t tbl i) then leaf_frames R t l (?c i) - U else {}"
  have tr: "t tbl i = unused_entry \<or> links (t tbl i) \<and> tree R t l (?c i) \<and> tbl \<notin> tables R t l (?c i)" if "i \<in> slots R (Suc l)" for i
    using Suc.prems(1) that by simp
  have sub: "tables R t l (?c i) \<subseteq> tables R t (Suc l) tbl" "leaf_frames R t l (?c i) \<subseteq> leaf_frames R t (Suc l) tbl"
    if "i \<in> slots R (Suc l)" "links (t tbl i)" for i using that by auto
  have "\<forall>i\<in>set ixs. frees N wfN (?F i) (?K i) (?step i)"
  proof
    fix i assume "i \<in> set ixs"
    then have i: "i \<in> slots R (Suc l)" using Suc.prems(7) by simp
    show "frees N wfN (?F i) (?K i) (?step i)"
    proof (cases "links (t tbl i)")
      case True
      note s = sub [OF i True]
      have "tree R t l (?c i)" using tr [OF i] True by auto
      moreover have "lone_leaves R t U l (?c i)" using Suc.prems(2) i True by simp
      moreover have dj: "leaf_frames R t l (?c i) \<inter> tables R t l (?c i) = {}" using Suc.prems(3) s by blast
      moreover have good: "\<forall>f\<in>tables R t l (?c i) \<union> leaf_frames R t l (?c i). f mod SIZE_4KIB = 0 \<and> f < PHYS_LIMIT \<and> table_at X hhdm f = Some ()"
        using Suc.prems(4) s by blast
      moreover have "set [0..<512] = slots R l" using Suc.prems(5) unfolding set_upt slots_def by auto
      ultimately have below: "frees N wfN (tables R t l (?c i) - {?c i} \<union> (leaf_frames R t l (?c i) \<inter> U)) (leaf_frames R t l (?c i) - U)
          (free_below X N hhdm t l (?c i) [0..<512])" using Suc.prems(5) by (intro Suc.IH) simp_all
      have c: "?c i mod SIZE_4KIB = 0" "?c i < PHYS_LIMIT" "table_at X hhdm (?c i) = Some ()" using good by simp_all
      have "(tables R t l (?c i) - {?c i} \<union> (leaf_frames R t l (?c i) \<inter> U)) \<inter> {?c i} = {}" using dj root_in_tables [of "?c i" R t l] by blast
      from frees_seq [OF below frees_frame(1) [OF c(1,2)] this]
      have "frees N wfN (tables R t l (?c i) - {?c i} \<union> (leaf_frames R t l (?c i) \<inter> U) \<union> {?c i}) (leaf_frames R t l (?c i) - U) (?step i)"
        using c(3) links_present [OF True] by simp
      moreover have "tables R t l (?c i) - {?c i} \<union> (leaf_frames R t l (?c i) \<inter> U) \<union> {?c i} = ?F i"
        using True root_in_tables [of "?c i" R t l] by auto
      ultimately show ?thesis using True by simp
    next
      case False
      then show ?thesis using tr [OF i] by (auto simp: frees_Some)
    qed
  qed
  moreover have "\<forall>i\<in>set ixs. \<forall>j\<in>set ixs. i \<noteq> j \<longrightarrow> ?F i \<inter> ?F j = {}"
  proof (intro ballI impI)
    fix i j assume "i \<in> set ixs" "j \<in> set ixs" and ne: "i \<noteq> j"
    then have ij: "i \<in> slots R (Suc l)" "j \<in> slots R (Suc l)" using Suc.prems(7) by auto
    show "?F i \<inter> ?F j = {}"
    proof (cases "links (t tbl i) \<and> links (t tbl j)")
      case True
      have "tables R t l (?c i) \<inter> tables R t l (?c j) = {}" using Suc.prems(1) ij ne True by simp
      moreover have "leaf_frames R t l (?c i) \<inter> leaf_frames R t l (?c j) \<inter> U = {}" using Suc.prems(2) ij ne True by simp
      moreover have "tables R t l (?c i) \<inter> leaf_frames R t l (?c j) = {}" "leaf_frames R t l (?c i) \<inter> tables R t l (?c j) = {}"
        using Suc.prems(3) sub [OF ij(1)] sub [OF ij(2)] True by blast+
      ultimately show ?thesis using True by auto
    qed auto
  qed
  ultimately have "frees N wfN (\<Union>i\<in>set ixs. ?F i) (\<Union>i\<in>set ixs. ?K i) (fold_rust ?step ixs)" using Suc.prems(6) by (intro frees_fold)
  moreover have "(\<Union>i\<in>set ixs. ?F i) = tables R t (Suc l) tbl - {tbl} \<union> (leaf_frames R t (Suc l) tbl \<inter> U)"
  proof -
    have "tables R t (Suc l) tbl - {tbl} = (\<Union>i\<in>{i \<in> slots R (Suc l). links (t tbl i)}. tables R t l (?c i))"
      using tr by fastforce
    then show ?thesis unfolding Suc.prems(7) by auto
  qed
  moreover have "(\<Union>i\<in>set ixs. ?K i) = leaf_frames R t (Suc l) tbl - U" unfolding Suc.prems(7) by (auto split: if_splits)
  moreover have "free_below X N hhdm t (Suc l) tbl ixs = fold_rust ?step ixs" by (rule ext) simp
  ultimately show ?case by simp
qed

lemma table_at_ok: "hhdm_fits N hhdm pm \<Longrightarrow> pm_ok N wfN pm \<Longrightarrow> frame_has N pm f ty \<Longrightarrow> table_at X hhdm f = Some ()"
proof -
  assume h: "hhdm_fits N hhdm pm" and pm: "pm_ok N wfN pm" and f: "frame_has N pm f ty"
  have "hhdm + f < U64_LIMIT" "HIGHER_HALF_START \<le> hhdm" using h frame_has_type_at [OF f] unfolding hhdm_fits_def by auto
  then have "add_u64 hhdm f = Some (hhdm + f)" "canonical (hhdm + f)" by (simp_all add: add_u64_def canonical_def HIGHER_HALF_START_def U64_LIMIT_num)
  then show ?thesis by (simp add: table_at_def virt_new)
qed

lemma free_space_ok:
  assumes ok: "mmu_ok N wfN hhdm roots u" and root: "root \<in> roots"
  shows "\<exists>pm'. free_user_address_space X N hhdm root (mu_tables u) (mu_pm u) = Some pm' \<and> pm_ok N wfN pm' \<and>
    retyped_frames N (mu_pm u) (owned_frames N (mu_pm u) (mu_tables u) root) Usable pm'"
proof -
  let ?t = "mu_tables u" and ?pm = "mu_pm u" and ?R = user_slots
  let ?U = "{f. frame_has N ?pm f UsedByUserMode}" and ?T = "tables ?R ?t 3 root" and ?L = "leaf_frames ?R ?t 3 root"
  have k: "pm_ok N wfN ?pm" "hhdm_fits N hhdm ?pm" "spaces_ok N roots ?pm ?t" using ok by (simp_all add: mmu_ok_def)
  have T: "frame_has N ?pm f UsedByUserMode" if "f \<in> ?T" for f using spaces_tables [OF k(3) root] that by (simp add: user_tables_def)
  have L: "user_typed N ?pm f" "f \<notin> ?T" if "f \<in> ?L" for f
    using spaces_mapped [OF k(3)] that root unfolding user_leaf_frames mapped_def user_tables_def by blast+
  have tr: "tree ?R ?t 3 root" by (rule spaces_tree [OF k(3) root])
  have lone: "lone_leaves ?R ?t ?U 3 root"
  proof (rule lone_leaves_walk [OF user_slots_sub order_refl])
    fix a b e e' assume h: "page_index 3 a \<in> slots ?R 3" "page_index 3 b \<in> slots ?R 3" "walk ?t 3 root a = Some e" "walk ?t 3 root b = Some e'"
      "pe_addr e = pe_addr e'" "pe_addr e \<in> ?U"
    obtain a' b' where a': "a' < USER_LIMIT" "page_low 3 a' = page_low 3 a" and b': "b' < USER_LIMIT" "page_low 3 b' = page_low 3 b"
      using h(1,2) user_page_address by (metis slots_def)
    have "mapped roots ?t root a' e" "mapped roots ?t root b' e'"
      using h(3,4) root a' b' walk_low [OF a'(2), of ?t root] walk_low [OF b'(2), of ?t root] by (simp_all add: mapped_def translate_def)
    then show "page_low 3 a = page_low 3 b" using spaces_private [OF k(3)] h(5,6) a'(2) b'(2) by (metis mem_Collect_eq)
  qed
  have good: "\<forall>f\<in>?T \<union> ?L. f mod SIZE_4KIB = 0 \<and> f < PHYS_LIMIT \<and> table_at X hhdm f = Some ()"
    using T L(1) frame_has_aligned frame_has_bound [OF k(1)] table_at_ok [OF k(2,1)] unfolding user_typed_def by (metis UnE)
  have "?L \<inter> ?T = {}" using L(2) by blast
  moreover have "set [0..<256] = slots ?R 3" unfolding set_upt slots_def user_slots_def by auto
  ultimately have below: "frees N wfN (?T - {root} \<union> (?L \<inter> ?U)) (?L - ?U) (free_below X N hhdm ?t 3 root [0..<256])"
    by (intro frees_below [OF user_slots_sub tr lone _ good order_refl distinct_upt])
  have g: "root mod SIZE_4KIB = 0" "root < PHYS_LIMIT" "table_at X hhdm root = Some ()" using good by simp_all
  have dj: "(?T - {root} \<union> (?L \<inter> ?U)) \<inter> {root} = {}" using L(2) root_in_tables by blast
  have "frees N wfN (?T - {root} \<union> (?L \<inter> ?U) \<union> {root}) (?L - ?U) (\<lambda>pm. free_user_address_space X N hhdm root ?t pm)"
    using frees_seq [OF below frees_frame(1) [OF g(1,2)] dj] g(3) by (simp add: free_user_address_space_def)
  moreover have "?T - {root} \<union> (?L \<inter> ?U) \<union> {root} = owned_frames N ?pm ?t root"
    using root_in_tables [of root ?R ?t 3] unfolding owned_frames_def user_tables_def user_leaf_frames by auto
  moreover have "\<forall>f\<in>owned_frames N ?pm ?t root. frame_has N ?pm f UsedByUserMode"
    using T unfolding owned_frames_def user_tables_def by blast
  moreover have "\<forall>f\<in>?L - ?U. frame_has N ?pm f SharedBuffer" using L(1) unfolding user_typed_def by blast
  ultimately show ?thesis using k(1) unfolding frees_def by metis
qed

lemma spaces_freed:
  assumes ok: "spaces_ok N roots pm t" and root: "root \<in> roots" and rt: "retyped_frames N pm (owned_frames N pm t root) Usable pm'"
  shows "spaces_ok N (roots - {root}) pm' t"
proof -
  let ?O = "owned_frames N pm t root"
  have used: "frame_has N pm f UsedByUserMode" if "f \<in> ?O" for f using that spaces_tables [OF ok root] unfolding owned_frames_def by blast
  have al: "\<forall>f\<in>?O. f mod SIZE_4KIB = 0" using used frame_has_aligned by blast
  have mp: "mapped roots t r a e" if "mapped (roots - {root}) t r a e" for r a e using that by (simp add: mapped_def)
  have nt: "f \<notin> ?O" if "r \<in> roots - {root}" "f \<in> user_tables t r" for r f
  proof
    assume "f \<in> ?O"
    moreover have "f \<notin> user_tables t root" using ok that root unfolding spaces_ok_def by blast
    ultimately obtain a e where "a < USER_LIMIT" "translate t root a = Some e" "pe_addr e = f" unfolding owned_frames_def by blast
    then show False using spaces_mapped(2) [OF ok, of root a e r] root that by (auto simp: mapped_def)
  qed
  have nm: "pe_addr e \<notin> ?O" if m: "mapped (roots - {root}) t r a e" for r a e
  proof
    assume o: "pe_addr e \<in> ?O"
    moreover have "pe_addr e \<notin> user_tables t root" using spaces_mapped(2) [OF ok mp [OF m] root] .
    ultimately obtain a' e' where "mapped roots t root a' e'" "pe_addr e' = pe_addr e" using root unfolding owned_frames_def mapped_def by blast
    then have "r = root" using spaces_private [OF ok mp [OF m]] used [OF o] by metis
    then show False using m by (simp add: mapped_def)
  qed
  have "spaces_ok N (roots - {root}) pm t"
  proof (rule spaces_okI)
    show "r = r' \<and> page_low 3 a = page_low 3 a'"
      if m: "mapped (roots - {root}) t r a e" "mapped (roots - {root}) t r' a' e'" "pe_addr e = pe_addr e'" "frame_has N pm (pe_addr e) UsedByUserMode"
      for r a e r' a' e' by (rule spaces_private [OF ok mp [OF m(1)] mp [OF m(2)] m(3,4)])
    show "user_tables t r \<inter> user_tables t r' = {}" if "r \<in> roots - {root}" "r' \<in> roots - {root}" "r \<noteq> r'" for r r'
      using ok that unfolding spaces_ok_def by blast
  qed (use spaces_tree [OF ok] spaces_tables [OF ok] spaces_mapped [OF ok mp] in blast)+
  then show ?thesis by (rule spaces_retype [OF _ rt al]) (use nt nm in blast)+
qed

lemma create_user_page_table_ok:
  assumes ok: "mmu_ok N wfN hhdm roots u" and kc: "frame_has N (mu_pm u) kernel_cr3 ty" "ty \<noteq> Usable"
    and av: "frame_available N (mu_pm u) f"
  obtains l4 u' where "create_user_page_table X N hhdm kernel_cr3 u = Some (l4, u')" "mmu_ok N wfN hhdm (insert l4 roots) u'"
    "space_created roots kernel_cr3 l4 u u'" "retyped_frames N (mu_pm u) {l4} UsedByUserMode (mu_pm u')" "frame_has N (mu_pm u) l4 Usable"
proof -
  have k: "pm_ok N wfN (mu_pm u)" "hhdm_fits N hhdm (mu_pm u)" "spaces_ok N roots (mu_pm u) (mu_tables u)" using ok by (simp_all add: mmu_ok_def)
  obtain l4 pm where a: "allocate_frame_with_type X N (mu_pm u) UsedByUserMode = Some (Some l4, pm)" "frame_available N (mu_pm u) l4"
      "pm_ok N wfN pm" "retyped N (mu_pm u) l4 UsedByUserMode pm" using allocate_frame_spec [OF k(1), of UsedByUserMode] av by blast
  have us: "frame_has N (mu_pm u) l4 Usable" by (rule available_has [OF a(2)])
  have rt: "retyped_frames N (mu_pm u) {l4} UsedByUserMode pm" "\<forall>g\<in>{l4}. g mod SIZE_4KIB = 0"
    using a(4) frame_has_aligned [OF us] by (simp_all add: retyped_one)
  have nt: "l4 \<notin> user_tables (mu_tables u) r" "l4 \<noteq> r" if "r \<in> roots" for r
    using usable_not_used [OF k(3) us] that root_in_tables [of r] unfolding user_tables_def by blast+
  have ne: "kernel_cr3 \<noteq> l4" using frame_has_unique [OF us] kc by blast
  have at: "table_at X hhdm l4 = Some ()" "table_at X hhdm kernel_cr3 = Some ()" by (rule table_at_ok [OF k(2,1)], rule us kc(1))+
  have hv: "virt_addr_new X hhdm = Some hhdm"
    using k(2) by (intro virt_new) (simp add: hhdm_fits_def canonical_num HIGHER_HALF_START_def U64_LIMIT_num)
  let ?tb = "\<lambda>i. if i \<in> kernel_slots then mu_tables u kernel_cr3 i else unused_entry"
  let ?t = "(mu_tables u)(l4 := ?tb)"
  let ?u' = "u \<lparr> mu_pm := pm, mu_tables := ?t \<rparr>"
  have al: "allocate_frame_4kib X N (get_user_mode_frame_allocator (mu_pm u)) =
      Some (Some l4, \<lparr> fa_physical_memory = pm, fa_memory_type = UsedByUserMode \<rparr>)"
    using a(1) by (simp add: allocate_frame_4kib_def get_user_mode_frame_allocator_def)
  have tb: "fold (\<lambda>i table. table(i := mu_tables u kernel_cr3 i)) [256..<512] PageTable_new = ?tb"
    unfolding copied_entries set_upt kernel_slots_def PageTable_new_def by (rule refl)
  have c: "create_user_page_table X N hhdm kernel_cr3 u = Some (l4, ?u')"
    unfolding create_user_page_table_def al by (simp only: bind.bind_lunit prod.case unwrap_def option.case hv at fun_upd_other [OF ne] tb
      Let_def PhysicalMemoryFrameAllocator.simps)
  have ot: "\<forall>g. g \<noteq> l4 \<longrightarrow> ?t g = mu_tables u g" by simp
  have em: "\<forall>i\<in>user_slots. ?t l4 i = unused_entry" by (simp add: user_slots_def kernel_slots_def)
  note E = empty_user_half [of ?t l4, OF em] and O = other_table [of l4 ?t "mu_tables u", OF ot nt(1)]
  have l4n: "l4 \<notin> roots" using nt(2) by blast
  have sc: "space_created roots kernel_cr3 l4 u ?u'" using E O l4n by (simp add: space_created_def)
  have "spaces_ok N roots pm (mu_tables u)"
    by (rule spaces_retype [OF k(3) rt]) (use usable_not_used [OF k(3) us] in auto)
  note sp = this
  have mp: "mapped roots (mu_tables u) r b e" if "mapped (insert l4 roots) ?t r b e" for r b e
    using that E(3) [of b] O(3) [of r b] unfolding mapped_def by (cases "r = l4") auto
  have h4: "frame_has N pm l4 UsedByUserMode" using retyped_has [OF rt, of l4 UsedByUserMode] frame_has_aligned [OF us] by simp
  have "spaces_ok N (insert l4 roots) pm ?t"
  proof (rule spaces_okI)
    show "tree user_slots ?t 3 r" if "r \<in> insert l4 roots" for r using that E(1) O(2) spaces_tree [OF sp] by blast
    show "user_tables ?t r \<inter> user_tables ?t r' = {}" if "r \<in> insert l4 roots" "r' \<in> insert l4 roots" "r \<noteq> r'" for r r'
    proof -
      have "user_tables (mu_tables u) r \<inter> user_tables (mu_tables u) r' = {}" if "r \<in> roots" "r' \<in> roots" using sp that \<open>r \<noteq> r'\<close> unfolding spaces_ok_def by blast
      then show ?thesis using that E(2) O(1) nt(1) by auto
    qed
    show "frame_has N pm f UsedByUserMode" if "r \<in> insert l4 roots" "f \<in> user_tables ?t r" for r f
      using that E(2) O(1) h4 spaces_tables [OF sp] by (cases "r = l4") auto
    show "pe_addr e \<notin> user_tables ?t r'" if "mapped (insert l4 roots) ?t r b e" "r' \<in> insert l4 roots" for r b e r'
      using spaces_mapped(2) [OF sp mp [OF that(1)]] usable_not_used [OF k(3) us] mp [OF that(1)] that(2) E(2) O(1) by (cases "r' = l4") auto
    show "user_typed N pm (pe_addr e)" if "mapped (insert l4 roots) ?t r b e" for r b e by (rule spaces_mapped(1) [OF sp mp [OF that]])
    show "r = r' \<and> page_low 3 b = page_low 3 b'"
      if "mapped (insert l4 roots) ?t r b e" "mapped (insert l4 roots) ?t r' b' e'" "pe_addr e = pe_addr e'" "frame_has N pm (pe_addr e) UsedByUserMode"
      for r b e r' b' e' by (rule spaces_private [OF sp mp [OF that(1)] mp [OF that(2)] that(3,4)])
  qed
  moreover have "hhdm_fits N hhdm pm" by (rule hhdm_retype [OF k(2) rt(1)]) (use us in blast)
  ultimately have "mmu_ok N wfN hhdm (insert l4 roots) ?u'" using a(3) by (simp add: mmu_ok_def)
  then show ?thesis using rt(1) us by (intro that [OF c _ sc]) simp_all
qed

lemma create_user_page_table_exhausted:
  assumes "mmu_ok N wfN hhdm roots u" "\<forall>f. \<not> frame_available N (mu_pm u) f"
  shows "create_user_page_table X N hhdm kernel_cr3 u = panic"
proof -
  have "allocate_frame_with_type X N (mu_pm u) UsedByUserMode = Some (None, mu_pm u)"
    using allocate_frame_spec [of "mu_pm u" UsedByUserMode] assms by (auto simp: mmu_ok_def)
  then show ?thesis by (simp add: create_user_page_table_def allocate_frame_4kib_def get_user_mode_frame_allocator_def unwrap_def)
qed

end

context user_memory
begin

lemma TaskInner_drop_ok:
  fixes k :: "('s, 'm, 'z) Mem_scheme"
  assumes ok: "mem_ok S wfS N wfN k" and ut: "is_user_task k t task" and pt: "ti_user_page_table (t_inner task) = Some (t_cr3 task)"
  shows "\<exists>pm. TaskInner_drop X N (k_hhdm k) (t_inner task) (k_mmu k) = Some ((k_mmu k) \<lparr> mu_pm := pm \<rparr>) \<and>
    retyped_frames N (mu_pm (k_mmu k)) (owned_frames N (mu_pm (k_mmu k)) (mu_tables (k_mmu k)) (t_cr3 task)) Usable pm \<and>
    mem_ok S wfS N wfN (k \<lparr> k_mmu := (k_mmu k) \<lparr> mu_pm := pm \<rparr>, k_tasks := (k_tasks k)(t := None) \<rparr>)"
proof -
  let ?u = "k_mmu k" and ?root = "t_cr3 task"
  have mmu: "mmu_ok N wfN (k_hhdm k) (user_roots k) ?u" using ok unfolding mem_ok_def by blast
  have root: "?root \<in> user_roots k" by (rule user_task_root [OF ut])
  have sp: "spaces_ok N (user_roots k) (mu_pm ?u) (mu_tables ?u)" "hhdm_fits N (k_hhdm k) (mu_pm ?u)" using mmu by (simp_all add: mmu_ok_def)
  obtain pm where f: "free_user_address_space X N (k_hhdm k) ?root (mu_tables ?u) (mu_pm ?u) = Some pm" "pm_ok N wfN pm"
      "retyped_frames N (mu_pm ?u) (owned_frames N (mu_pm ?u) (mu_tables ?u) ?root) Usable pm"
    using free_space_ok [OF mmu root] by blast
  let ?k' = "k \<lparr> k_mmu := ?u \<lparr> mu_pm := pm \<rparr>, k_tasks := (k_tasks k)(t := None) \<rparr>"
  have ut': "is_user_task ?k' t' x \<longleftrightarrow> t' \<noteq> t \<and> is_user_task k t' x" for t' x by (auto simp: is_user_task_def)
  have uniq: "t' = t''" if "is_user_task k t' x" "is_user_task k t'' y" "t_cr3 x = t_cr3 y" for t' t'' x y
    using ok that unfolding mem_ok_def by blast
  have roots: "user_roots ?k' = user_roots k - {?root}"
  proof -
    have "t_cr3 x \<noteq> ?root" if "is_user_task k t' x" "t' \<noteq> t" for t' x using uniq [OF that(1) ut] that(2) by blast
    moreover have "t' \<noteq> t" if "is_user_task k t' x" "t_cr3 x \<noteq> ?root" for t' x using that ut by (auto simp: is_user_task_def)
    ultimately have "(\<exists>t' x. r = t_cr3 x \<and> t' \<noteq> t \<and> is_user_task k t' x) \<longleftrightarrow> (\<exists>t' x. r = t_cr3 x \<and> is_user_task k t' x) \<and> r \<noteq> ?root" for r
      by metis
    then show ?thesis unfolding user_roots_def ut' by blast
  qed
  have "hhdm_fits N (k_hhdm k) pm"
  proof (rule hhdm_retype [OF sp(2) f(3)])
    show "\<forall>g\<in>owned_frames N (mu_pm ?u) (mu_tables ?u) ?root. \<exists>ty. frame_has N (mu_pm ?u) g ty"
      using spaces_tables [OF sp(1) root] unfolding owned_frames_def by blast
  qed
  then have "mmu_ok N wfN (k_hhdm ?k') (user_roots ?k') (k_mmu ?k')"
    using f(2) spaces_freed [OF sp(1) root f(3)] unfolding mmu_ok_def roots by simp
  moreover have "vset_ok S wfS (mu_tables (k_mmu ?k')) (t_cr3 x) (ti_user_vaddr_set (t_inner x))" if "is_user_task ?k' t' x" for t' x
  proof -
    have "is_user_task k t' x" using that unfolding ut' by simp
    then have "vset_ok S wfS (mu_tables ?u) (t_cr3 x) (ti_user_vaddr_set (t_inner x))" using ok unfolding mem_ok_def by blast
    then show ?thesis by simp
  qed
  ultimately have "mem_ok S wfS N wfN ?k'" using uniq unfolding mem_ok_def ut' by blast
  then show ?thesis using f(1,3) pt by (intro exI [of _ pm]) (simp add: TaskInner_drop_def)
qed

end

section \<open>Properties\<close>

text \<open>Dropping a task releases exactly the memory it owns, its page tables and the private frames its
  pages map: these become free, every other frame keeps its type - frames of shared buffers and of
  other tasks included - and the address spaces of the remaining tasks stay isolated. The release
  never panics.\<close>

theorem drop_frees_owned_memory:
  fixes k :: "('s, 'm, 'z) Mem_scheme"
  assumes um: "user_memory N wfN X M S wfS" and ok: "mem_ok S wfS N wfN k" and ut: "is_user_task k t task"
    and pt: "ti_user_page_table (t_inner task) = Some (t_cr3 task)"
  shows "\<exists>pm. TaskInner_drop X N (k_hhdm k) (t_inner task) (k_mmu k) = Some ((k_mmu k) \<lparr> mu_pm := pm \<rparr>) \<and>
    retyped_frames N (mu_pm (k_mmu k)) (owned_frames N (mu_pm (k_mmu k)) (mu_tables (k_mmu k)) (t_cr3 task)) Usable pm \<and>
    mem_ok S wfS N wfN (k \<lparr> k_mmu := (k_mmu k) \<lparr> mu_pm := pm \<rparr>, k_tasks := (k_tasks k)(t := None) \<rparr>)"
  by (rule user_memory.TaskInner_drop_ok [OF um ok ut pt])

theorem drop_frees_owned_memory_witness:
  "\<exists>pm. TaskInner_drop x86_arith_ops list_map_ops HIGHER_HALF_START (t_inner (pages_task 1)) pages_mmu = Some (pages_mmu \<lparr> mu_pm := pm \<rparr>) \<and>
     frame_has list_map_ops pm 0x1000 Usable \<and> frame_has list_map_ops pm 0x2000 UsedByUserMode"
proof -
  have ut: "is_user_task pages_machine 1 (pages_task 1)" by (simp add: pages_machine_user)
  have pt: "ti_user_page_table (t_inner (pages_task 1)) = Some (t_cr3 (pages_task 1))" by (simp add: pages_task_def)
  have c: "k_mmu pages_machine = pages_mmu" "k_hhdm pages_machine = HIGHER_HALF_START" "t_cr3 (pages_task 1) = 0x1000"
    by (simp_all add: pages_machine_def pages_task_def)
  have o: "owned_frames list_map_ops (mu_pm pages_mmu) (mu_tables pages_mmu) 0x1000 = {0x1000}"
    by (auto simp: owned_frames_def pages_mmu_def empty_space)
  obtain pm where d: "TaskInner_drop x86_arith_ops list_map_ops HIGHER_HALF_START (t_inner (pages_task 1)) pages_mmu = Some (pages_mmu \<lparr> mu_pm := pm \<rparr>)"
      "retyped_frames list_map_ops (mu_pm pages_mmu) {0x1000} Usable pm"
    using drop_frees_owned_memory [OF list_user_memory.user_memory_axioms pages_machine_ok ut pt] unfolding c o by blast
  have "frame_has list_map_ops (mu_pm pages_mmu) 0x2000 UsedByUserMode"
    by (auto simp: frame_has_def pages_machine_types in_frame_def SIZE_4KIB_def)
  then have "frame_has list_map_ops pm 0x1000 Usable" "frame_has list_map_ops pm 0x2000 UsedByUserMode"
    using retyped_has [OF d(2), of "0x1000" Usable] retyped_has [OF d(2), of "0x2000" UsedByUserMode] by (simp_all add: SIZE_4KIB_def)
  then show ?thesis using d(1) by blast
qed

end
