(* ===== verification/Elf_Loader.thy ===== *)
theory Elf_Loader
  imports Address_Space
begin

text \<open>
  Loading a program: \<^verbatim>\<open>create_user_task_from_elf_bytes\<close> of
  \<^verbatim>\<open>user_task_from_elf.rs\<close>, up to the construction of the task. The
  \<^verbatim>\<open>elf\<close> crate is a parameter: a function from the bytes to the headers it finds.

  The file, zero and stack pages of a program are mapped by loops that differ only in how they
  prepare the frame of a page, so \<open>load_pages\<close> takes the preparation as an argument. What has been
  loaded so far is described by an image: for each address of the new space nothing, or the
  permissions of its page and the byte it must hold (or no byte, for the stack).
\<close>

unbundle bit_operations_syntax

section \<open>Headers\<close>

record ProgramHeader =
  p_type :: nat
  p_flags :: nat
  p_offset :: nat
  p_vaddr :: nat
  p_filesz :: nat
  p_memsz :: nat

record ElfBytes =
  eb_segments :: "ProgramHeader list option"
  eb_entry :: nat

datatype SpawnError = InvalidElf | OutOfMemory

definition ElfSegmentType_Load :: nat where
  "ElfSegmentType_Load = 1"

definition ElfSegmentFlags_EXECUTABLE :: nat where
  "ElfSegmentFlags_EXECUTABLE = 1"

definition ElfSegmentFlags_WRITABLE :: nat where
  "ElfSegmentFlags_WRITABLE = 2"

definition elf_flags_to_page_table_flags :: "nat \<Rightarrow> PageTableFlags" where
  "elf_flags_to_page_table_flags elf_flags =
     no_flags \<lparr> pf_present := True, pf_user_accessible := True,
                pf_writable := (elf_flags AND ElfSegmentFlags_WRITABLE = ElfSegmentFlags_WRITABLE),
                pf_no_execute := (elf_flags AND ElfSegmentFlags_EXECUTABLE \<noteq> ElfSegmentFlags_EXECUTABLE) \<rparr>"

section \<open>Operations\<close>

text \<open>The pointer to a frame, which must not be null.\<close>

definition frame_ptr :: "x86_ops \<Rightarrow> nat \<Rightarrow> nat \<Rightarrow> unit rust" where
  "frame_ptr X hhdm frame = do { v \<leftarrow> phys_offset_mapped X hhdm frame; assert_that (v \<noteq> 0) }"

text \<open>Copying the part of the file that belongs to a page.\<close>

definition copy_file_bytes :: "8 word list \<Rightarrow> ProgramHeader \<Rightarrow> nat \<Rightarrow> nat \<Rightarrow> 'm Mmu \<Rightarrow> 'm Mmu rust" where
  "copy_file_bytes elf_bytes segment page_vaddr frame u =
     do { seg_file_end \<leftarrow> add_u64 (p_vaddr segment) (p_filesz segment);
          page_end \<leftarrow> add_u64 page_vaddr SIZE_4KIB;
          let copy_start_vaddr = max page_vaddr (p_vaddr segment);
          let copy_end_vaddr = min page_end seg_file_end;
          if copy_start_vaddr < copy_end_vaddr then
            do { offset_in_page \<leftarrow> sub_u64 copy_start_vaddr page_vaddr;
                 d \<leftarrow> sub_u64 copy_start_vaddr (p_vaddr segment);
                 offset_in_file \<leftarrow> add_u64 (p_offset segment) d;
                 count \<leftarrow> sub_u64 copy_end_vaddr copy_start_vaddr;
                 Some (u \<lparr> mu_bytes := (\<lambda>a. if frame + offset_in_page \<le> a \<and> a < frame + offset_in_page + count
                                            then elf_bytes ! (offset_in_file + (a - (frame + offset_in_page)))
                                            else mu_bytes u a) \<rparr>) }
          else Some u }"

definition prepare_file_page ::
    "x86_ops \<Rightarrow> nat \<Rightarrow> 8 word list \<Rightarrow> ProgramHeader \<Rightarrow> nat \<Rightarrow> nat \<Rightarrow> 'm Mmu \<Rightarrow> 'm Mmu rust" where
  "prepare_file_page X hhdm elf_bytes segment page frame u =
     do { _ \<leftarrow> frame_ptr X hhdm frame;
          u1 \<leftarrow> zero_frame X hhdm frame u;
          copy_file_bytes elf_bytes segment page frame u1 }"

definition prepare_zero_page :: "x86_ops \<Rightarrow> nat \<Rightarrow> nat \<Rightarrow> nat \<Rightarrow> 'm Mmu \<Rightarrow> 'm Mmu rust" where
  "prepare_zero_page X hhdm page frame u = do { _ \<leftarrow> frame_ptr X hhdm frame; zero_frame X hhdm frame u }"

definition prepare_stack_page :: "nat \<Rightarrow> nat \<Rightarrow> 'm Mmu \<Rightarrow> 'm Mmu rust" where
  "prepare_stack_page page frame u = Some u"

primrec load_pages ::
    "x86_ops \<Rightarrow> ('m, MemoryType) nodit_map_ops \<Rightarrow> 'm PhysicalMemoryFrameAllocator mapper_ops \<Rightarrow> nat \<Rightarrow> nat \<Rightarrow> PageTableFlags \<Rightarrow>
     (nat \<Rightarrow> nat \<Rightarrow> 'm Mmu \<Rightarrow> 'm Mmu rust) \<Rightarrow> nat list \<Rightarrow> 'm Mmu \<Rightarrow> ((SpawnError + unit) \<times> 'm Mmu) rust" where
  "load_pages X N M root start_page flags prepare [] u = Some (Inr (), u)"
| "load_pages X N M root start_page flags prepare (i # is) u =
     do { page \<leftarrow> page_of_range X start_page i;
          (f, pm) \<leftarrow> allocate_frame_with_type X N (mu_pm u) UsedByUserMode;
          case f of
            None \<Rightarrow> Some (Inl OutOfMemory, u \<lparr> mu_pm := pm \<rparr>)
          | Some frame \<Rightarrow>
              do { u1 \<leftarrow> prepare page frame (u \<lparr> mu_pm := pm \<rparr>);
                   (r, u2) \<leftarrow> map_user_page X N M root page frame flags u1;
                   case r of
                     Inl _ \<Rightarrow> Some (Inl OutOfMemory, u2)
                   | Inr _ \<Rightarrow> load_pages X N M root start_page flags prepare is u2 } }"

text \<open>Recording the range of \<open>n\<close> pages at \<open>start\<close>; an overlap with an earlier one panics.\<close>

definition track_pages :: "'s nodit_set_ops \<Rightarrow> nat \<Rightarrow> nat \<Rightarrow> 's \<Rightarrow> 's rust" where
  "track_pages S start n vset =
     do { b \<leftarrow> mul_u64 n SIZE_4KIB;
          end_excl \<leftarrow> add_u64 start b;
          e \<leftarrow> sub_u64 end_excl 1;
          r \<leftarrow> ns_insert_merge_touching S vset (start, e);
          unwrap r }"

text \<open>The pages of a segment that hold file contents, and the pages after them.\<close>

definition file_pages :: "ProgramHeader \<Rightarrow> nat rust" where
  "file_pages segment =
     (if 0 < p_filesz segment then
        do { e \<leftarrow> add_u64 (p_vaddr segment) (p_filesz segment);
             sub_u64 (div_ceil e SIZE_4KIB) (p_vaddr segment div SIZE_4KIB) }
      else Some 0)"

definition extra_pages :: "ProgramHeader \<Rightarrow> nat rust" where
  "extra_pages segment =
     do { em \<leftarrow> add_u64 (p_vaddr segment) (p_memsz segment);
          ef \<leftarrow> add_u64 (p_vaddr segment) (p_filesz segment);
          sub_u64 (div_ceil em SIZE_4KIB) (div_ceil ef SIZE_4KIB) }"

definition load_segment ::
    "'s nodit_set_ops \<Rightarrow> x86_ops \<Rightarrow> ('m, MemoryType) nodit_map_ops \<Rightarrow> 'm PhysicalMemoryFrameAllocator mapper_ops \<Rightarrow> nat \<Rightarrow> nat \<Rightarrow>
     8 word list \<Rightarrow> ProgramHeader \<Rightarrow> 's \<Rightarrow> 'm Mmu \<Rightarrow> ((SpawnError + 's) \<times> 'm Mmu) rust" where
  "load_segment S X N M hhdm root elf_bytes segment vset u =
     (if p_type segment \<noteq> ElfSegmentType_Load then Some (Inr vset, u)
      else
        do { file_end \<leftarrow> add_u64 (p_offset segment) (p_filesz segment);
             if file_end > length elf_bytes then Some (Inl InvalidElf, u)
             else
               do { v \<leftarrow> virt_addr_new X (p_vaddr segment);
                    let start_page = page_containing_address X v;
                    file_pages_len \<leftarrow> file_pages segment;
                    let flags = elf_flags_to_page_table_flags (p_flags segment);
                    (r, u1) \<leftarrow> load_pages X N M root start_page flags (prepare_file_page X hhdm elf_bytes segment) [0..<file_pages_len] u;
                    case r of
                      Inl err \<Rightarrow> Some (Inl err, u1)
                    | Inr _ \<Rightarrow>
                        do { (r2, total_pages, u2) \<leftarrow>
                               (if p_memsz segment > p_filesz segment then
                                  do { extra_pages_len \<leftarrow> extra_pages segment;
                                       bss_start_page \<leftarrow> page_of_range X start_page file_pages_len;
                                       (r2, u2) \<leftarrow> load_pages X N M root bss_start_page flags (prepare_zero_page X hhdm) [0..<extra_pages_len] u1;
                                       total_pages \<leftarrow> add_u64 file_pages_len extra_pages_len;
                                       Some (r2, total_pages, u2) }
                                else Some (Inr (), file_pages_len, u1));
                             case r2 of
                               Inl err \<Rightarrow> Some (Inl err, u2)
                             | Inr _ \<Rightarrow>
                                 if total_pages > 0
                                 then do { vset' \<leftarrow> track_pages S start_page total_pages vset; Some (Inr vset', u2) }
                                 else Some (Inr vset, u2) } } })"

primrec load_segments ::
    "'s nodit_set_ops \<Rightarrow> x86_ops \<Rightarrow> ('m, MemoryType) nodit_map_ops \<Rightarrow> 'm PhysicalMemoryFrameAllocator mapper_ops \<Rightarrow> nat \<Rightarrow> nat \<Rightarrow>
     8 word list \<Rightarrow> ProgramHeader list \<Rightarrow> 's \<Rightarrow> 'm Mmu \<Rightarrow> ((SpawnError + 's) \<times> 'm Mmu) rust" where
  "load_segments S X N M hhdm root elf_bytes [] vset u = Some (Inr vset, u)"
| "load_segments S X N M hhdm root elf_bytes (segment # segs) vset u =
     do { (r, u1) \<leftarrow> load_segment S X N M hhdm root elf_bytes segment vset u;
          case r of
            Inl err \<Rightarrow> Some (Inl err, u1)
          | Inr vset1 \<Rightarrow> load_segments S X N M hhdm root elf_bytes segs vset1 u1 }"

definition USER_RSP :: nat where
  "USER_RSP = LOWER_HALF_END + 1 - 0x1000"

definition USER_STACK_SIZE :: nat where
  "USER_STACK_SIZE = 64 * 0x400"

definition stack_flags :: PageTableFlags where
  "stack_flags = no_flags \<lparr> pf_present := True, pf_writable := True, pf_user_accessible := True, pf_no_execute := True \<rparr>"

definition load_stack ::
    "'s nodit_set_ops \<Rightarrow> x86_ops \<Rightarrow> ('m, MemoryType) nodit_map_ops \<Rightarrow> 'm PhysicalMemoryFrameAllocator mapper_ops \<Rightarrow> nat \<Rightarrow>
     's \<Rightarrow> 'm Mmu \<Rightarrow> ((SpawnError + 's) \<times> 'm Mmu) rust" where
  "load_stack S X N M root vset u =
     do { let pages_len = div_ceil USER_STACK_SIZE SIZE_4KIB;
          b \<leftarrow> mul_u64 pages_len SIZE_4KIB;
          stack_start_vaddr \<leftarrow> sub_u64 USER_RSP b;
          v \<leftarrow> virt_addr_new X stack_start_vaddr;
          (r, u1) \<leftarrow> load_pages X N M root (page_containing_address X v) stack_flags prepare_stack_page [0..<pages_len] u;
          case r of
            Inl err \<Rightarrow> Some (Inl err, u1)
          | Inr _ \<Rightarrow> do { vset' \<leftarrow> track_pages S stack_start_vaddr pages_len vset; Some (Inr vset', u1) } }"

text \<open>The loaded program: entry point, stack pointer, root table and recorded ranges.\<close>

record 's LoadedProgram =
  lp_entry :: nat
  lp_rsp :: nat
  lp_l4_frame :: nat
  lp_vaddr_set :: 's

definition load_program ::
    "'s nodit_set_ops \<Rightarrow> x86_ops \<Rightarrow> ('m, MemoryType) nodit_map_ops \<Rightarrow> 'm PhysicalMemoryFrameAllocator mapper_ops \<Rightarrow>
     (8 word list \<Rightarrow> ElfBytes option) \<Rightarrow> nat \<Rightarrow> nat \<Rightarrow> 8 word list \<Rightarrow> 'm Mmu \<Rightarrow> ((SpawnError + 's LoadedProgram) \<times> 'm Mmu) rust" where
  "load_program S X N M minimal_parse hhdm new_kernel_cr3 elf_bytes u =
     (case minimal_parse elf_bytes of
        None \<Rightarrow> Some (Inl InvalidElf, u)
      | Some elf \<Rightarrow>
          do { (l4_frame, u1) \<leftarrow> create_user_page_table X N hhdm new_kernel_cr3 u;
               case eb_segments elf of
                 None \<Rightarrow> Some (Inl InvalidElf, u1)
               | Some segs \<Rightarrow>
                   do { (r, u2) \<leftarrow> load_segments S X N M hhdm l4_frame elf_bytes segs (ns_default S) u1;
                        case r of
                          Inl err \<Rightarrow> Some (Inl err, u2)
                        | Inr vset \<Rightarrow>
                            if eb_entry elf = 0 then Some (Inl InvalidElf, u2)
                            else
                              do { (r3, u3) \<leftarrow> load_stack S X N M l4_frame vset u2;
                                   case r3 of
                                     Inl err \<Rightarrow> Some (Inl err, u3)
                                   | Inr vset' \<Rightarrow>
                                       Some (Inr \<lparr> lp_entry = eb_entry elf, lp_rsp = USER_RSP, lp_l4_frame = l4_frame, lp_vaddr_set = vset' \<rparr>,
                                         u3) } } })"

section \<open>Images\<close>

type_synonym image = "nat \<Rightarrow> (PageTableFlags \<times> 8 word option) option"

definition range_image :: "nat \<Rightarrow> nat \<Rightarrow> PageTableFlags \<Rightarrow> (nat \<Rightarrow> 8 word option) \<Rightarrow> image \<Rightarrow> image" where
  "range_image lo hi fl c img = (\<lambda>a. if lo \<le> a \<and> a < hi then Some (fl, c a) else img a)"

definition image_ok :: "'m Mmu \<Rightarrow> nat \<Rightarrow> image \<Rightarrow> bool" where
  "image_ok u l4 img \<longleftrightarrow> (\<forall>a<USER_LIMIT. case img a of
       None \<Rightarrow> translate (mu_tables u) l4 a = None
     | Some (fl, b) \<Rightarrow> (\<exists>e. translate (mu_tables u) l4 a = Some e \<and> pe_flags e = fl) \<and> (\<forall>v. b = Some v \<longrightarrow> user_byte u l4 a = Some v))"

text \<open>The spaces of the other tasks lead where they did and read as they did.\<close>

definition others_kept :: "nat set \<Rightarrow> 'm Mmu \<Rightarrow> 'm Mmu \<Rightarrow> bool" where
  "others_kept roots u0 u \<longleftrightarrow> (\<forall>r\<in>roots. \<forall>a<USER_LIMIT.
     translate (mu_tables u) r a = translate (mu_tables u0) r a \<and> user_byte u r a = user_byte u0 r a)"

text \<open>Frames that are neither free nor private memory of user tasks, such as the kernel's tables, keep
  their type and their contents as tables.\<close>

definition kernel_kept :: "('m, MemoryType) nodit_map_ops \<Rightarrow> 'm Mmu \<Rightarrow> 'm Mmu \<Rightarrow> bool" where
  "kernel_kept N u u' \<longleftrightarrow> (\<forall>g ty. ty \<noteq> Usable \<longrightarrow> ty \<noteq> UsedByUserMode \<longrightarrow> frame_has N (mu_pm u) g ty \<longrightarrow>
     frame_has N (mu_pm u') g ty \<and> mu_tables u' g = mu_tables u g)"

text \<open>At most \<open>b\<close> frames have been taken.\<close>

definition frames_used :: "('m, MemoryType) nodit_map_ops \<Rightarrow> nat \<Rightarrow> 'm Mmu \<Rightarrow> 'm Mmu \<Rightarrow> bool" where
  "frames_used N b u u' \<longleftrightarrow> card (available_frames N (mu_pm u)) \<le> card (available_frames N (mu_pm u')) + b"

definition loaded ::
    "('m, MemoryType) nodit_map_ops \<Rightarrow> ('m \<Rightarrow> bool) \<Rightarrow> nat \<Rightarrow> nat set \<Rightarrow> nat \<Rightarrow> 'm Mmu \<Rightarrow> nat \<Rightarrow> image \<Rightarrow> 'm Mmu \<Rightarrow> bool" where
  "loaded N wfN hhdm roots l4 u0 b img u \<longleftrightarrow>
     l4 \<notin> roots \<and> frames_used N b u0 u \<and> mmu_ok N wfN hhdm (insert l4 roots) u \<and> others_kept roots u0 u \<and> kernel_kept N u0 u \<and> image_ok u l4 img"

lemma loaded_mono: "loaded N wfN hhdm roots l4 u0 b img u \<Longrightarrow> b \<le> b' \<Longrightarrow> loaded N wfN hhdm roots l4 u0 b' img u"
  by (simp add: loaded_def frames_used_def)

lemma frames_used_trans: "frames_used N b u1 u2 \<Longrightarrow> frames_used N b' u2 u3 \<Longrightarrow> frames_used N (b + b') u1 u3"
  by (simp add: frames_used_def)

lemma frames_used_diff: "available_frames N (mu_pm u') = available_frames N (mu_pm u) - F \<Longrightarrow> finite F \<Longrightarrow> card F \<le> b \<Longrightarrow> frames_used N b u u'"
  using diff_card_le_card_Diff [of F "available_frames N (mu_pm u)"] by (simp add: frames_used_def)

lemma kernel_kept_trans: "kernel_kept N u1 u2 \<Longrightarrow> kernel_kept N u2 u3 \<Longrightarrow> kernel_kept N u1 u3"
  unfolding kernel_kept_def by metis

lemma kernel_kept_retype:
  assumes "retyped_frames N (mu_pm u) F UsedByUserMode (mu_pm u')" "\<forall>f\<in>F. frame_has N (mu_pm u) f Usable"
    and "\<And>g ty. frame_has N (mu_pm u) g ty \<Longrightarrow> ty \<noteq> Usable \<Longrightarrow> ty \<noteq> UsedByUserMode \<Longrightarrow> mu_tables u' g = mu_tables u g"
  shows "kernel_kept N u u'"
  unfolding kernel_kept_def
proof (intro allI impI conjI)
  fix g ty assume g: "ty \<noteq> Usable" "ty \<noteq> UsedByUserMode" "frame_has N (mu_pm u) g ty"
  then have "g \<notin> F" using assms(2) frame_has_unique by blast
  moreover have "\<forall>f\<in>F. f mod SIZE_4KIB = 0" using assms(2) frame_has_aligned by blast
  ultimately show "frame_has N (mu_pm u') g ty" using retyped_has [OF assms(1), of g ty] g(3) by simp
  show "mu_tables u' g = mu_tables u g" by (rule assms(3) [OF g(3,1,2)])
qed

lemma image_ok_at:
  assumes "image_ok u l4 img" "a < USER_LIMIT"
  shows "case img a of None \<Rightarrow> translate (mu_tables u) l4 a = None
    | Some (fl, b) \<Rightarrow> (\<exists>e. translate (mu_tables u) l4 a = Some e \<and> pe_flags e = fl) \<and> (\<forall>v. b = Some v \<longrightarrow> user_byte u l4 a = Some v)"
  using assms unfolding image_ok_def by blast

lemma image_ok_None: "image_ok u l4 img \<Longrightarrow> a < USER_LIMIT \<Longrightarrow> img a = None \<Longrightarrow> translate (mu_tables u) l4 a = None"
  using image_ok_at [of u l4 img a] by simp

text \<open>What the preparation of a frame must do: write into that frame only, so that the page shows
  the bytes \<open>c\<close>.\<close>

definition prepares ::
    "('m, MemoryType) nodit_map_ops \<Rightarrow> nat \<Rightarrow> (nat \<Rightarrow> 8 word option) \<Rightarrow> nat \<Rightarrow> (nat \<Rightarrow> nat \<Rightarrow> 'm Mmu \<Rightarrow> 'm Mmu rust) \<Rightarrow> bool" where
  "prepares N hhdm c page prepare \<longleftrightarrow>
     (\<forall>f u. hhdm_fits N hhdm (mu_pm u) \<longrightarrow> frame_has N (mu_pm u) f UsedByUserMode \<longrightarrow>
        (\<exists>B. prepare page f u = Some (u \<lparr> mu_bytes := B \<rparr>) \<and> (\<forall>x. \<not> in_frame f x \<longrightarrow> B x = mu_bytes u x) \<and>
           (\<forall>a v. in_frame page a \<longrightarrow> c a = Some v \<longrightarrow> B (f + a mod SIZE_4KIB) = v)))"

lemma preparesD:
  assumes "prepares N hhdm c page prepare" "hhdm_fits N hhdm (mu_pm u)" "frame_has N (mu_pm u) f UsedByUserMode"
  obtains B where "prepare page f u = Some (u \<lparr> mu_bytes := B \<rparr>)" "\<forall>x. \<not> in_frame f x \<longrightarrow> B x = mu_bytes u x"
    "\<forall>a v. in_frame page a \<longrightarrow> c a = Some v \<longrightarrow> B (f + a mod SIZE_4KIB) = v"
  using assms unfolding prepares_def by blast

section \<open>Segments that fit\<close>

text \<open>The pages of a segment, and the byte it puts at an address of them.\<close>

definition seg_lo :: "ProgramHeader \<Rightarrow> nat" where
  "seg_lo s = p_vaddr s - p_vaddr s mod SIZE_4KIB"

definition seg_hi :: "ProgramHeader \<Rightarrow> nat" where
  "seg_hi s = div_ceil (p_vaddr s + p_memsz s) SIZE_4KIB * SIZE_4KIB"

definition seg_byte :: "8 word list \<Rightarrow> ProgramHeader \<Rightarrow> nat \<Rightarrow> 8 word" where
  "seg_byte elf_bytes s a =
     (if p_vaddr s \<le> a \<and> a < p_vaddr s + p_filesz s then elf_bytes ! (p_offset s + (a - p_vaddr s)) else 0)"

definition seg_pages :: "ProgramHeader \<Rightarrow> nat" where
  "seg_pages s = (seg_hi s - seg_lo s) div SIZE_4KIB"

definition STACK_START :: nat where
  "STACK_START = USER_RSP - USER_STACK_SIZE"

text \<open>A segment the loader maps as it should: the file part is inside the file and no longer than the
  segment, the segment ends below the stack, and a segment without file contents starts at a page.\<close>

definition segment_fits :: "8 word list \<Rightarrow> ProgramHeader \<Rightarrow> bool" where
  "segment_fits elf_bytes s \<longleftrightarrow> p_offset s + p_filesz s \<le> length elf_bytes \<and> p_filesz s \<le> p_memsz s \<and>
     (p_filesz s = 0 \<longrightarrow> p_vaddr s mod SIZE_4KIB = 0) \<and> p_vaddr s + p_memsz s \<le> STACK_START"

lemma stack_nums: "STACK_START = 140737488285696" "USER_RSP = 140737488351232" "USER_STACK_SIZE = 65536" "STACK_START mod SIZE_4KIB = 0"
  by (simp_all add: STACK_START_def USER_RSP_def USER_STACK_SIZE_def LOWER_HALF_END_def SIZE_4KIB_def)

lemma div_ceil_alt: "0 < b \<Longrightarrow> div_ceil a b = (a + (b - 1)) div b"
proof -
  assume b: "0 < b"
  have "a + (b - 1) = a div b * b + (a mod b + (b - 1))" by simp
  then have "(a + (b - 1)) div b = a div b + (a mod b + (b - 1)) div b" using b by (metis add.commute div_mult_self1 less_not_refl)
  moreover have "(a mod b + (b - 1)) div b = (if a mod b = 0 then 0 else 1)"
    using b mod_less_divisor [OF b, of a] by (auto simp: div_nat_eqI)
  ultimately show ?thesis by (simp add: div_ceil_def)
qed

lemma segment_pages:
  assumes "segment_fits elf_bytes s" "length elf_bytes < U64_LIMIT"
  obtains n m where "file_pages s = Some n" "extra_pages s = Some m" "\<not> p_filesz s < p_memsz s \<longrightarrow> m = 0"
    "seg_lo s + (n + m) * SIZE_4KIB = seg_hi s" "p_vaddr s + p_filesz s \<le> seg_lo s + n * SIZE_4KIB \<or> n = 0 \<and> p_filesz s = 0"
    "seg_lo s mod SIZE_4KIB = 0" "seg_hi s \<le> STACK_START" "n + m < U64_LIMIT"
proof -
  let ?v = "p_vaddr s" and ?f = "p_filesz s" and ?m = "p_memsz s"
  have h: "?f \<le> ?m" "?f = 0 \<Longrightarrow> ?v mod SIZE_4KIB = 0" "?v + ?m \<le> STACK_START" using assms(1) by (simp_all add: segment_fits_def)
  define lo ef em where "lo = ?v div SIZE_4KIB" and "ef = div_ceil (?v + ?f) SIZE_4KIB" and "em = div_ceil (?v + ?m) SIZE_4KIB"
  have d: "lo = ?v div 4096" "ef = (?v + ?f + 4095) div 4096" "em = (?v + ?m + 4095) div 4096"
    unfolding lo_def ef_def em_def div_ceil_alt [OF SIZE_4KIB_pos] by (simp_all add: SIZE_4KIB_def)
  have le: "lo \<le> ef" "ef \<le> em" unfolding d using h(1) by (simp_all add: div_le_mono)
  have z: "ef = lo" if "?f = 0" using h(2) [OF that] that unfolding ef_def lo_def by (simp add: div_ceil_def)
  have b: "?v + ?f < U64_LIMIT" "?v + ?m < U64_LIMIT" using h(1,3) unfolding stack_nums by (simp_all add: U64_LIMIT_num)
  have "em \<le> (140737488285696 + 4095) div 4096" unfolding d by (rule div_le_mono) (use h(3) stack_nums(1) in simp)
  then have b': "em * 4096 \<le> 140737488285696" "em < U64_LIMIT" by (simp_all add: U64_LIMIT_num)
  have ad: "add_u64 ?v ?f = Some (?v + ?f)" "add_u64 ?v ?m = Some (?v + ?m)" "sub_u64 ef lo = Some (ef - lo)" "sub_u64 em ef = Some (em - ef)"
    by (rule add_u64_ok [OF b(1)] add_u64_ok [OF b(2)] sub_u64_ok [OF le(1)] sub_u64_ok [OF le(2)])+
  have f1: "file_pages s = Some (ef - lo)"
  proof (cases "0 < ?f")
    case True
    then show ?thesis by (simp only: file_pages_def if_True ad bind.bind_lunit ef_def [symmetric] lo_def [symmetric])
  next
    case False
    then show ?thesis using z by (simp add: file_pages_def)
  qed
  have f2: "extra_pages s = Some (em - ef)" by (simp only: extra_pages_def ad bind.bind_lunit ef_def [symmetric] em_def [symmetric])
  have f3: "\<not> ?f < ?m \<longrightarrow> em - ef = 0" using h(1) unfolding d by simp
  have lo4: "seg_lo s = lo * SIZE_4KIB" unfolding seg_lo_def lo_def by (simp add: minus_mod_eq_div_mult)
  have s1: "lo * SIZE_4KIB + (ef - lo) * SIZE_4KIB = ef * SIZE_4KIB" "lo * SIZE_4KIB + (ef - lo + (em - ef)) * SIZE_4KIB = em * SIZE_4KIB"
    by (metis add_mult_distrib le_add_diff_inverse le(1), metis add_mult_distrib add.assoc le_add_diff_inverse le)
  have f4: "seg_lo s + (ef - lo + (em - ef)) * SIZE_4KIB = seg_hi s" unfolding lo4 seg_hi_def em_def [symmetric] by (rule s1(2))
  have "?v + ?f \<le> ef * SIZE_4KIB" unfolding ef_def using div_ceil_bounds [OF SIZE_4KIB_pos] by blast
  then have f5: "?v + ?f \<le> seg_lo s + (ef - lo) * SIZE_4KIB \<or> ef - lo = 0 \<and> ?f = 0" unfolding lo4 s1(1) by simp
  have f6: "seg_lo s mod SIZE_4KIB = 0" unfolding lo4 by simp
  have f7: "seg_hi s \<le> STACK_START" unfolding seg_hi_def em_def [symmetric] stack_nums using b'(1) by (simp add: SIZE_4KIB_def)
  have f8: "ef - lo + (em - ef) < U64_LIMIT" using le b'(2) by simp
  show ?thesis by (rule that [OF f1 f2 f3 f4 f5 f6 f7 f8])
qed

context user_mappings
begin

lemma map_user_page_kept:
  assumes ok: "spaces_ok N roots (mu_pm u) (mu_tables u)" "pm_ok N wfN (mu_pm u)" and root: "root \<in> roots"
    and page: "page < USER_LIMIT" "page mod SIZE_4KIB = 0" and fl: "pf_present fl" "\<not> pf_huge_page fl" and frame: "frame_has N (mu_pm u) frame ty"
    and m: "map_user_page X N M root page frame fl u = Some (r, u')"
  shows "kernel_kept N u u'"
proof -
  let ?t = "mu_tables u" and ?pm = "mu_pm u" and ?al = "allocate_frame_4kib X N"
  let ?fa = "get_user_mode_frame_allocator ?pm" and ?e = "\<lparr> pe_addr = frame, pe_flags = fl \<rparr>"
  have tr: "tree user_slots ?t 3 root" and tb: "\<forall>f\<in>tables user_slots ?t 3 root. frame_has N ?pm f UsedByUserMode"
    using spaces_tree [OF ok(1) root] spaces_tables [OF ok(1) root] by (simp_all add: user_tables_def)
  have fr: "frame mod SIZE_4KIB = 0" "frame < PHYS_LIMIT" using frame_has_aligned [OF frame] frame_has_bound [OF ok(2) frame] by simp_all
  obtain q t fa' fs where o: "map_to M ?al root page frame fl ?t ?fa = Some (q, t, fa')" "map_outcome user_slots 3 root page ?e ?al ?t ?fa fs q t fa'"
    using map_to_spec [OF tr user_limit_slot [OF page(1)] page(2) fr fl user_alloc_safe [OF ok(2) tb]] by blast
  have u': "mu_pm u' = fa_physical_memory fa'" "mu_tables u' = t" using m o(1) by (simp_all add: map_user_page_def, auto)
  have "alloc_run ?al ?fa fs fa'" using o(2) by (simp add: map_outcome_def)
  from alloc_run_frames [OF this] ok(2) have R: "\<forall>f\<in>set fs. frame_has N ?pm f Usable" "retyped_frames N ?pm (set fs) UsedByUserMode (mu_pm u')"
    by (simp_all add: get_user_mode_frame_allocator_def u')
  have "\<forall>g. g \<notin> tables user_slots ?t 3 root \<union> set fs \<longrightarrow> t g = ?t g"
    using o(2) by (cases q) (auto simp: map_outcome_def map_effect_def)
  moreover have "g \<notin> tables user_slots ?t 3 root \<union> set fs" if "frame_has N ?pm g ty" "ty \<noteq> Usable" "ty \<noteq> UsedByUserMode" for g ty
    using that tb R(1) frame_has_unique by blast
  ultimately show ?thesis using u'(2) by (intro kernel_kept_retype [OF R(2,1)]) metis
qed

lemma load_page_step:
  assumes ok: "mmu_ok N wfN hhdm R u" and l4: "l4 \<in> R" and p: "p < USER_LIMIT" "p mod SIZE_4KIB = 0"
    and tp: "translate (mu_tables u) l4 p = None" and fl: "pf_present fl" "\<not> pf_huge_page fl"
    and al: "allocate_frame_with_type X N (mu_pm u) UsedByUserMode = Some (Some f, pm)" and u1: "mu_pm u1 = pm" "mu_tables u1 = mu_tables u"
  obtains r u2 where "map_user_page X N M l4 p f fl u1 = Some (r, u2)" "mmu_ok N wfN hhdm R u2" "mu_bytes u2 = mu_bytes u1"
    "\<forall>q a e. mapped R (mu_tables u) q a e \<longrightarrow> pe_addr e \<noteq> f"
    "\<forall>q\<in>R. \<forall>a<USER_LIMIT. translate (mu_tables u2) q a =
       (if q = l4 \<and> in_frame p a then (if isl r then None else Some \<lparr> pe_addr = f, pe_flags = fl \<rparr>) else translate (mu_tables u) q a)"
    "isl r \<longrightarrow> (\<forall>g. \<not> frame_available N (mu_pm u2) g)" "kernel_kept N u u2" "frames_used N 4 u u2"
proof -
  have k: "pm_ok N wfN (mu_pm u)" "hhdm_fits N hhdm (mu_pm u)" "spaces_ok N R (mu_pm u) (mu_tables u)" using ok by (simp_all add: mmu_ok_def)
  have a: "frame_available N (mu_pm u) f" "pm_ok N wfN pm" "retyped N (mu_pm u) f UsedByUserMode pm" "\<forall>g. frame_available N (mu_pm u) g \<longrightarrow> f \<le> g"
    using allocate_frame_spec [OF k(1), of UsedByUserMode] al by auto
  have f1: "frames_used N 1 u u1" using available_after_alloc [OF a(1,4,3)] u1(1) by (intro frames_used_diff [of N u1 u "{f}"]) simp_all
  have us: "frame_has N (mu_pm u) f Usable" by (rule available_has [OF a(1)])
  have rt: "retyped_frames N (mu_pm u) {f} UsedByUserMode pm" "\<forall>g\<in>{f}. g mod SIZE_4KIB = 0"
    using a(3) frame_has_aligned [OF us] by (simp_all add: retyped_one)
  have nf: "\<forall>q\<in>R. f \<notin> user_tables (mu_tables u) q" "\<forall>q a e. mapped R (mu_tables u) q a e \<longrightarrow> pe_addr e \<noteq> f"
    using usable_not_used [OF k(3) us] by blast+
  have sp: "spaces_ok N R pm (mu_tables u)" by (rule spaces_retype [OF k(3) rt]) (use nf in auto)
  have h: "frame_has N pm f UsedByUserMode" using retyped_has [OF rt, of f UsedByUserMode] frame_has_aligned [OF us] by simp
  then have ut: "user_typed N pm f" by (simp add: user_typed_def)
  have nu: "frame_has N pm f UsedByUserMode \<longrightarrow> (\<forall>q a e. mapped R (mu_tables u) q a e \<longrightarrow> pe_addr e \<noteq> f)" using nf(2) by blast
  have hh: "hhdm_fits N hhdm pm" by (rule hhdm_retype [OF k(2) rt(1)]) (use us in blast)
  obtain r pm2 t2 fs where
    m: "map_user_page X N M l4 p f fl u1 = Some (r, u1 \<lparr> mu_pm := pm2, mu_tables := t2 \<rparr>)" "spaces_ok N R pm2 t2" "pm_ok N wfN pm2"
      "retyped_frames N pm fs UsedByUserMode pm2" "\<forall>g\<in>fs. frame_has N pm g Usable"
      "available_frames N pm2 = available_frames N pm - fs" "finite fs" "card fs \<le> 3"
      "case r of
         Inr _ \<Rightarrow> translate (mu_tables u) l4 p = None \<and> page_changed R l4 p (Some \<lparr> pe_addr = f, pe_flags = fl \<rparr>) (mu_tables u) fs t2
       | Inl _ \<Rightarrow> page_changed R l4 p (translate (mu_tables u) l4 p) (mu_tables u) fs t2 \<and>
           (translate (mu_tables u) l4 p = None \<longrightarrow> (\<forall>g. \<not> frame_available N pm2 g))"
    by (rule map_user_page_ok [of R u1 l4 p fl f, unfolded u1, OF sp a(2) l4 p fl ut nf(1) nu])
  let ?u2 = "u1 \<lparr> mu_pm := pm2, mu_tables := t2 \<rparr>"
  have "page_changed R l4 p (if isl r then None else Some \<lparr> pe_addr = f, pe_flags = fl \<rparr>) (mu_tables u) fs t2"
    "isl r \<longrightarrow> (\<forall>g. \<not> frame_available N pm2 g)"
    using m(9) tp by (cases r; simp)+
  note ch = this
  have "hhdm_fits N hhdm pm2" by (rule hhdm_retype [OF hh m(4)]) (use m(5) in blast)
  then have "mmu_ok N wfN hhdm R ?u2" using m(2,3) by (simp add: mmu_ok_def)
  moreover have "kernel_kept N u u1" using rt(1) us u1 by (intro kernel_kept_retype [of N u "{f}"]) simp_all
  moreover have "kernel_kept N u1 ?u2"
    by (rule map_user_page_kept [of R u1 l4 p fl f UsedByUserMode r ?u2, unfolded u1, OF sp a(2) l4 p fl h m(1)])
  moreover have "frames_used N 3 u1 ?u2" using m(6-8) u1(1) by (intro frames_used_diff [of N ?u2 u1 fs]) simp_all
  from frames_used_trans [OF f1 this] have "frames_used N 4 u ?u2" by simp
  ultimately show ?thesis using ch nf(2) kernel_kept_trans unfolding page_changed_def by (intro that [OF m(1)]) simp_all
qed

lemma loaded_page:
  assumes ld: "loaded N wfN hhdm roots l4 u0 b img u" and p: "p < USER_LIMIT" "p mod SIZE_4KIB = 0"
    and free: "\<forall>a. in_frame p a \<longrightarrow> img a = None" and fl: "pf_present fl" "\<not> pf_huge_page fl"
    and al: "allocate_frame_with_type X N (mu_pm u) UsedByUserMode = Some (Some f, pm)"
    and u1: "mu_pm u1 = pm" "mu_tables u1 = mu_tables u" "\<forall>x. \<not> in_frame f x \<longrightarrow> mu_bytes u1 x = mu_bytes u x"
      "\<forall>a v. in_frame p a \<longrightarrow> c a = Some v \<longrightarrow> mu_bytes u1 (f + a mod SIZE_4KIB) = v"
  obtains r u2 where "map_user_page X N M l4 p f fl u1 = Some (r, u2)"
    "loaded N wfN hhdm roots l4 u0 (b + 4) (if isl r then img else range_image p (p + SIZE_4KIB) fl c img) u2"
    "isl r \<longrightarrow> (\<forall>g. \<not> frame_available N (mu_pm u2) g)"
proof -
  let ?R = "insert l4 roots"
  have L: "l4 \<notin> roots" "mmu_ok N wfN hhdm ?R u" "others_kept roots u0 u" "image_ok u l4 img" "kernel_kept N u0 u" "frames_used N b u0 u"
    using ld by (simp_all add: loaded_def)
  have tp: "translate (mu_tables u) l4 p = None" using image_ok_None [OF L(4) p(1)] free by simp
  obtain r u2 where m: "map_user_page X N M l4 p f fl u1 = Some (r, u2)" "mmu_ok N wfN hhdm ?R u2" "mu_bytes u2 = mu_bytes u1"
      "\<forall>q a e. mapped ?R (mu_tables u) q a e \<longrightarrow> pe_addr e \<noteq> f"
      "\<forall>q\<in>?R. \<forall>a<USER_LIMIT. translate (mu_tables u2) q a =
         (if q = l4 \<and> in_frame p a then (if isl r then None else Some \<lparr> pe_addr = f, pe_flags = fl \<rparr>) else translate (mu_tables u) q a)"
      "isl r \<longrightarrow> (\<forall>g. \<not> frame_available N (mu_pm u2) g)" "kernel_kept N u u2" "frames_used N 4 u u2"
    by (rule load_page_step [OF L(2) insertI1 p tp fl al u1(1,2)])
  have sp: "spaces_ok N ?R (mu_pm u) (mu_tables u)" and pmk: "pm_ok N wfN (mu_pm u)" using L(2) by (simp_all add: mmu_ok_def)
  have fa: "f mod SIZE_4KIB = 0"
    using allocate_frame_spec [OF pmk, of UsedByUserMode] al available_has frame_has_aligned by (metis option.inject prod.inject option.distinct(1))
  have same: "mu_bytes u1 (pe_addr e + a mod SIZE_4KIB) = mu_bytes u (pe_addr e + a mod SIZE_4KIB)" if e: "mapped ?R (mu_tables u) q a e" for q a e
  proof -
    have "pe_addr e mod SIZE_4KIB = 0" using spaces_mapped(1) [OF sp e] frame_has_aligned unfolding user_typed_def by blast
    moreover have "pe_addr e \<noteq> f" using m(4) e by blast
    ultimately have "\<not> (in_frame f (pe_addr e + a mod SIZE_4KIB))"
      using fa in_frame_div [OF fa, of "pe_addr e + a mod SIZE_4KIB"] in_frame_div [of "pe_addr e" "pe_addr e + a mod SIZE_4KIB"]
      by (simp add: in_frame_def)
    then show ?thesis using u1(3) by blast
  qed
  have bytes: "user_byte u2 q a = user_byte u q a" if "q \<in> ?R" "a < USER_LIMIT" "\<not> (q = l4 \<and> in_frame p a)" for q a
  proof -
    have t: "translate (mu_tables u2) q a = translate (mu_tables u) q a" using m(5) that by auto
    show ?thesis
    proof (cases "translate (mu_tables u) q a")
      case (Some e)
      then show ?thesis using same [of q a e] that t m(3) by (simp add: user_byte_def mapped_def)
    qed (use t in \<open>simp add: user_byte_def\<close>)
  qed
  have ok: "others_kept roots u0 u2"
    unfolding others_kept_def
  proof (intro ballI allI impI)
    fix q a assume qa: "q \<in> roots" "a < USER_LIMIT"
    then have "q \<noteq> l4" using L(1) by blast
    then show "translate (mu_tables u2) q a = translate (mu_tables u0) q a \<and> user_byte u2 q a = user_byte u0 q a"
      using m(5) bytes [of q a] L(3) qa unfolding others_kept_def by simp
  qed
  have "image_ok u2 l4 (if isl r then img else range_image p (p + SIZE_4KIB) fl c img)"
    unfolding image_ok_def
  proof (intro allI impI)
    fix a assume a: "a < USER_LIMIT"
    have t: "translate (mu_tables u2) l4 a = (if in_frame p a then (if isl r then None else Some \<lparr> pe_addr = f, pe_flags = fl \<rparr>) else translate (mu_tables u) l4 a)"
      using m(5) a by simp
    show "case (if isl r then img else range_image p (p + SIZE_4KIB) fl c img) a of None \<Rightarrow> translate (mu_tables u2) l4 a = None
      | Some (fl, b) \<Rightarrow> (\<exists>e. translate (mu_tables u2) l4 a = Some e \<and> pe_flags e = fl) \<and> (\<forall>v. b = Some v \<longrightarrow> user_byte u2 l4 a = Some v)"
    proof (cases "in_frame p a")
      case True
      then show ?thesis using t free u1(4) m(3) by (auto simp: range_image_def in_frame_def user_byte_def)
    next
      case False
      then have "(if isl r then img else range_image p (p + SIZE_4KIB) fl c img) a = img a" by (auto simp: range_image_def in_frame_def)
      then show ?thesis using image_ok_at [OF L(4) a] a False t bytes [of l4 a] by (auto split: option.splits)
    qed
  qed
  then show ?thesis using L(1) m(2) ok kernel_kept_trans [OF L(5) m(7)] frames_used_trans [OF L(6) m(8)] by (intro that [OF m(1)]) (simp_all add: loaded_def m(6))
qed

lemma load_pages_ok:
  assumes start: "start mod SIZE_4KIB = 0" "start + n * SIZE_4KIB \<le> USER_LIMIT" and fl: "pf_present fl" "\<not> pf_huge_page fl"
    and prep: "\<And>page. start \<le> page \<Longrightarrow> page mod SIZE_4KIB = 0 \<Longrightarrow> page < start + n * SIZE_4KIB \<Longrightarrow> prepares N hhdm c page prepare"
  shows "loaded N wfN hhdm roots l4 u0 b img u \<Longrightarrow> i \<le> n \<Longrightarrow> \<forall>a. start + i * SIZE_4KIB \<le> a \<and> a < start + n * SIZE_4KIB \<longrightarrow> img a = None \<Longrightarrow>
    \<exists>r u'. load_pages X N M l4 start fl prepare [i..<n] u = Some (r, u') \<and>
      (case r of
         Inl err \<Rightarrow> err = OutOfMemory \<and> (\<forall>g. \<not> frame_available N (mu_pm u') g) \<and> (\<exists>img'. loaded N wfN hhdm roots l4 u0 (b + 4 * (n - i)) img' u')
       | Inr _ \<Rightarrow> loaded N wfN hhdm roots l4 u0 (b + 4 * (n - i)) (range_image (start + i * SIZE_4KIB) (start + n * SIZE_4KIB) fl c img) u')"
proof (induction "n - i" arbitrary: i img u b)
  case 0
  then have "[i..<n] = []" "range_image (start + i * SIZE_4KIB) (start + n * SIZE_4KIB) fl c img = img" by (auto simp: range_image_def)
  then show ?case using 0 by simp
next
  case (Suc d)
  let ?p = "start + i * SIZE_4KIB"
  have i: "i < n" "[i..<n] = i # [Suc i..<n]" using Suc.hyps(2) by (auto simp: upt_conv_Cons)
  have le: "Suc i * SIZE_4KIB \<le> n * SIZE_4KIB" by (rule mult_le_mono1) (use i(1) in simp)
  have nx: "start + Suc i * SIZE_4KIB = ?p + SIZE_4KIB" by simp
  have p: "?p < USER_LIMIT" "?p mod SIZE_4KIB = 0" "?p < start + n * SIZE_4KIB" using start le by (simp_all add: SIZE_4KIB_def)
  have pg: "page_of_range X start i = Some ?p" by (rule page_of_range_ok [OF start(1) p(1)])
  have free: "\<forall>a. in_frame ?p a \<longrightarrow> img a = None" using Suc.prems(3) le nx by (auto simp: in_frame_def)
  have ok: "mmu_ok N wfN hhdm (insert l4 roots) u" using Suc.prems(1) by (simp add: loaded_def)
  then have k: "pm_ok N wfN (mu_pm u)" "hhdm_fits N hhdm (mu_pm u)" by (simp_all add: mmu_ok_def)
  from allocate_frame_spec [OF k(1), of UsedByUserMode]
  consider "allocate_frame_with_type X N (mu_pm u) UsedByUserMode = Some (None, mu_pm u)" "\<forall>g. \<not> frame_available N (mu_pm u) g"
    | f pm where "allocate_frame_with_type X N (mu_pm u) UsedByUserMode = Some (Some f, pm)" "frame_available N (mu_pm u) f"
        "retyped N (mu_pm u) f UsedByUserMode pm" by blast
  then show ?case
  proof cases
    case 1
    then show ?thesis using pg i(2) loaded_mono [OF Suc.prems(1), of "b + 4 * (n - i)"] by (auto intro: exI [of _ img])
  next
    case (2 f pm)
    have us: "frame_has N (mu_pm u) f Usable" by (rule available_has [OF 2(2)])
    have rt: "retyped_frames N (mu_pm u) {f} UsedByUserMode pm" "\<forall>g\<in>{f}. g mod SIZE_4KIB = 0"
      using 2(3) frame_has_aligned [OF us] by (simp_all add: retyped_one)
    have hh: "hhdm_fits N hhdm pm" by (rule hhdm_retype [OF k(2) rt(1)]) (use us in blast)
    have h: "frame_has N pm f UsedByUserMode" using retyped_has [OF rt, of f UsedByUserMode] frame_has_aligned [OF us] by simp
    have pr: "prepares N hhdm c ?p prepare" by (rule prep) (use p in simp_all)
    obtain B where B: "prepare ?p f (u \<lparr> mu_pm := pm \<rparr>) = Some (u \<lparr> mu_pm := pm, mu_bytes := B \<rparr>)"
        "\<forall>x. \<not> in_frame f x \<longrightarrow> B x = mu_bytes (u \<lparr> mu_pm := pm \<rparr>) x" "\<forall>a v. in_frame ?p a \<longrightarrow> c a = Some v \<longrightarrow> B (f + a mod SIZE_4KIB) = v"
      by (rule preparesD [OF pr, of "u \<lparr> mu_pm := pm \<rparr>" f]) (simp_all add: hh h)
    let ?u1 = "u \<lparr> mu_pm := pm, mu_bytes := B \<rparr>"
    obtain r u2 where m: "map_user_page X N M l4 ?p f fl ?u1 = Some (r, u2)"
        "loaded N wfN hhdm roots l4 u0 (b + 4) (if isl r then img else range_image ?p (?p + SIZE_4KIB) fl c img) u2"
        "isl r \<longrightarrow> (\<forall>g. \<not> frame_available N (mu_pm u2) g)"
      by (rule loaded_page [where c = c and ?u1.0 = ?u1, OF Suc.prems(1) p(1,2) free fl 2(1)]) (use B in simp_all)
    show ?thesis
    proof (cases r)
      case (Inl err)
      then have "loaded N wfN hhdm roots l4 u0 (b + 4 * (n - i)) img u2" using loaded_mono [OF m(2), of "b + 4 * (n - i)"] i(1) by simp
      then show ?thesis using Inl m pg i(2) 2(1) B(1) by (auto intro: exI [of _ img])
    next
      case (Inr v)
      let ?img = "range_image ?p (?p + SIZE_4KIB) fl c img"
      have im: "range_image (start + Suc i * SIZE_4KIB) (start + n * SIZE_4KIB) fl c ?img = range_image ?p (start + n * SIZE_4KIB) fl c img"
        unfolding nx using le nx by (auto simp: range_image_def fun_eq_iff)
      have nf: "\<forall>a. start + Suc i * SIZE_4KIB \<le> a \<and> a < start + n * SIZE_4KIB \<longrightarrow> ?img a = None"
        unfolding nx using Suc.prems(3) by (auto simp: range_image_def)
      have ld: "loaded N wfN hhdm roots l4 u0 (b + 4) ?img u2" using m(2) Inr by simp
      have d: "d = n - Suc i" "Suc i \<le> n" using Suc.hyps(2) i(1) by simp_all
      have st: "load_pages X N M l4 start fl prepare [i..<n] u = load_pages X N M l4 start fl prepare [Suc i..<n] u2"
        using i(2) m(1) Inr pg 2(1) B(1) by simp
      have b: "b + 4 + 4 * (n - Suc i) = b + 4 * (n - i)" using i(1) by simp
      show ?thesis using Suc.hyps(1) [OF d(1) ld d(2) nf] unfolding im st b .
    qed
  qed
qed

lemma load_pages_all:
  assumes start: "start mod SIZE_4KIB = 0" "start + n * SIZE_4KIB \<le> USER_LIMIT" and fl: "pf_present fl" "\<not> pf_huge_page fl"
    and prep: "\<And>page. start \<le> page \<Longrightarrow> page mod SIZE_4KIB = 0 \<Longrightarrow> page < start + n * SIZE_4KIB \<Longrightarrow> prepares N hhdm c page prepare"
    and ld: "loaded N wfN hhdm roots l4 u0 b img u" and free: "\<forall>a. start \<le> a \<and> a < start + n * SIZE_4KIB \<longrightarrow> img a = None"
  obtains u' img' where "load_pages X N M l4 start fl prepare [0..<n] u = Some (Inl OutOfMemory, u')"
      "\<forall>g. \<not> frame_available N (mu_pm u') g" "loaded N wfN hhdm roots l4 u0 (b + 4 * n) img' u'"
  | u' where "load_pages X N M l4 start fl prepare [0..<n] u = Some (Inr (), u')"
      "loaded N wfN hhdm roots l4 u0 (b + 4 * n) (range_image start (start + n * SIZE_4KIB) fl c img) u'"
proof -
  have z: "start + 0 * SIZE_4KIB = start" by simp
  from load_pages_ok [where c = c and hhdm = hhdm and prepare = prepare and fl = fl and i = 0, OF start fl prep ld, unfolded z diff_zero] free
  obtain r u' where m: "load_pages X N M l4 start fl prepare [0..<n] u = Some (r, u')"
      "case r of
         Inl err \<Rightarrow> err = OutOfMemory \<and> (\<forall>g. \<not> frame_available N (mu_pm u') g) \<and> (\<exists>img'. loaded N wfN hhdm roots l4 u0 (b + 4 * n) img' u')
       | Inr _ \<Rightarrow> loaded N wfN hhdm roots l4 u0 (b + 4 * n) (range_image start (start + n * SIZE_4KIB) fl c img) u'" by blast
  then show ?thesis using that by (cases r) auto
qed

lemma frame_ptr_ok: "hhdm_fits N hhdm pm \<Longrightarrow> frame_has N pm f ty \<Longrightarrow> frame_ptr X hhdm f = Some ()"
proof -
  assume "hhdm_fits N hhdm pm" "frame_has N pm f ty"
  then have b: "hhdm + f < U64_LIMIT" "HIGHER_HALF_START \<le> hhdm" using frame_has_type_at [of N pm f ty] unfolding hhdm_fits_def by auto
  then have "canonical (f + hhdm)" by (simp add: canonical_num HIGHER_HALF_START_def U64_LIMIT_num)
  then show ?thesis using b by (simp add: frame_ptr_def phys_offset_mapped_def add_u64_def virt_new add.commute assert_that_def HIGHER_HALF_START_def)
qed

lemma prepares_stack: "prepares N hhdm (\<lambda>_. None) page prepare_stack_page"
proof -
  have "\<exists>B. Some u = Some (u \<lparr> mu_bytes := B \<rparr>) \<and> (\<forall>x. \<not> in_frame f x \<longrightarrow> B x = mu_bytes u x)" for u :: "'m Mmu" and f
    by (rule exI [of _ "mu_bytes u"]) simp
  then show ?thesis unfolding prepares_def prepare_stack_page_def by simp
qed

lemma prepares_zero: "prepares N hhdm (\<lambda>_. Some 0) page (prepare_zero_page X hhdm)"
  unfolding prepares_def
proof (intro allI impI)
  fix f and u :: "'m Mmu" assume h: "hhdm_fits N hhdm (mu_pm u)" "frame_has N (mu_pm u) f UsedByUserMode"
  show "\<exists>B. prepare_zero_page X hhdm page f u = Some (u \<lparr> mu_bytes := B \<rparr>) \<and> (\<forall>x. \<not> in_frame f x \<longrightarrow> B x = mu_bytes u x) \<and>
      (\<forall>a v. in_frame page a \<longrightarrow> Some 0 = Some v \<longrightarrow> B (f + a mod SIZE_4KIB) = v)"
    using zero_frame_ok [OF h] frame_ptr_ok [OF h]
    by (intro exI [of _ "\<lambda>a. if in_frame f a then 0 else mu_bytes u a"]) (auto simp: prepare_zero_page_def in_frame_def)
qed

lemma prepares_file:
  assumes s: "p_offset s + p_filesz s \<le> length elf_bytes" "length elf_bytes < U64_LIMIT" "p_vaddr s + p_filesz s < U64_LIMIT"
    and page: "page mod SIZE_4KIB = 0" "page + SIZE_4KIB < U64_LIMIT"
  shows "prepares N hhdm (\<lambda>a. Some (seg_byte elf_bytes s a)) page (prepare_file_page X hhdm elf_bytes s)"
  unfolding prepares_def
proof (intro allI impI)
  fix f and u :: "'m Mmu" assume h: "hhdm_fits N hhdm (mu_pm u)" "frame_has N (mu_pm u) f UsedByUserMode"
  let ?z = "\<lambda>a. if in_frame f a then 0 else mu_bytes u a"
  define cs ce where "cs = max page (p_vaddr s)" and "ce = min (page + SIZE_4KIB) (p_vaddr s + p_filesz s)"
  define B where "B = (if cs < ce then (\<lambda>a. if f + (cs - page) \<le> a \<and> a < f + (cs - page) + (ce - cs)
      then elf_bytes ! (p_offset s + (cs - p_vaddr s) + (a - (f + (cs - page)))) else ?z a) else ?z)"
  have le: "page \<le> cs" "p_vaddr s \<le> cs" "ce \<le> page + SIZE_4KIB" "ce \<le> p_vaddr s + p_filesz s" by (simp_all add: cs_def ce_def)
  have e: "add_u64 (p_vaddr s) (p_filesz s) = Some (p_vaddr s + p_filesz s)" "add_u64 page SIZE_4KIB = Some (page + SIZE_4KIB)"
    using s page by (simp_all add: add_u64_def)
  have o: "add_u64 (p_offset s) (cs - p_vaddr s) = Some (p_offset s + (cs - p_vaddr s))" if "cs < ce"
    using s le that by (simp add: add_u64_def)
  have d: "sub_u64 cs page = Some (cs - page)" "sub_u64 cs (p_vaddr s) = Some (cs - p_vaddr s)" using le by (simp_all add: sub_u64_def)
  have d2: "sub_u64 ce cs = Some (ce - cs)" if "cs < ce" using that by (simp add: sub_u64_def)
  note copy = copy_file_bytes_def e bind.bind_lunit Let_def cs_def [symmetric] ce_def [symmetric]
  have "copy_file_bytes elf_bytes s page f (u \<lparr> mu_bytes := ?z \<rparr>) = Some (u \<lparr> mu_bytes := ?z, mu_bytes := B \<rparr>)"
  proof (cases "cs < ce")
    case True
    then show ?thesis unfolding B_def by (simp only: copy d d2 [OF True] o [OF True] if_True) (simp cong: if_cong)
  next
    case False
    then show ?thesis unfolding B_def by (simp only: copy if_False Mmu.simps) simp
  qed
  then have "prepare_file_page X hhdm elf_bytes s page f u = Some (u \<lparr> mu_bytes := B \<rparr>)"
    using zero_frame_ok [OF h] frame_ptr_ok [OF h] by (simp add: prepare_file_page_def)
  moreover have "B x = mu_bytes u x" if "\<not> in_frame f x" for x using that le by (auto simp: B_def in_frame_def)
  moreover have "B (f + a mod SIZE_4KIB) = seg_byte elf_bytes s a" if a: "in_frame page a" for a
  proof -
    have m: "a mod SIZE_4KIB = a - page"
    proof -
      have "a = page + (a - page)" "a - page < SIZE_4KIB" using a by (auto simp: in_frame_def)
      then show ?thesis using page(1) by (metis add_0 mod_add_left_eq mod_less)
    qed
    have i: "f + (a - page) < f + SIZE_4KIB" using a by (simp add: in_frame_def) linarith
    have w: "cs \<le> a \<and> a < ce \<longleftrightarrow> p_vaddr s \<le> a \<and> a < p_vaddr s + p_filesz s" using a by (auto simp: cs_def ce_def in_frame_def)
    have q: "f + (cs - page) \<le> f + (a - page) \<and> f + (a - page) < f + (cs - page) + (ce - cs) \<longleftrightarrow> cs \<le> a \<and> a < ce" if "cs < ce"
      using le a that by (auto simp: in_frame_def)
    have ix: "p_offset s + (cs - p_vaddr s) + (f + (a - page) - (f + (cs - page))) = p_offset s + (a - p_vaddr s)" if "cs \<le> a"
      using le that by simp
    show ?thesis
    proof (cases "cs \<le> a \<and> a < ce")
      case True
      then have c: "cs < ce" "cs \<le> a" by auto
      show ?thesis unfolding m B_def seg_byte_def if_P [OF c(1)] q [OF c(1)] if_P [OF True] ix [OF c(2)] using w True by simp
    next
      case False
      have "?z (f + (a - page)) = 0" using i by (simp add: in_frame_def)
      moreover have "B (f + (a - page)) = ?z (f + (a - page))"
      proof (cases "cs < ce")
        case True
        show ?thesis unfolding B_def if_P [OF True] q [OF True] if_not_P [OF False] by (rule refl)
      qed (simp add: B_def)
      ultimately show ?thesis unfolding m seg_byte_def w [symmetric] if_not_P [OF False] by simp
    qed
  qed
  ultimately show "\<exists>B. prepare_file_page X hhdm elf_bytes s page f u = Some (u \<lparr> mu_bytes := B \<rparr>) \<and> (\<forall>x. \<not> in_frame f x \<longrightarrow> B x = mu_bytes u x) \<and>
      (\<forall>a v. in_frame page a \<longrightarrow> Some (seg_byte elf_bytes s a) = Some v \<longrightarrow> B (f + a mod SIZE_4KIB) = v)"
    by (intro exI [of _ B]) auto
qed

end

text \<open>What the segments put into the new space, and the ranges recorded for it.\<close>

definition seg_image :: "8 word list \<Rightarrow> ProgramHeader \<Rightarrow> image \<Rightarrow> image" where
  "seg_image elf_bytes s =
     range_image (seg_lo s) (seg_hi s) (elf_flags_to_page_table_flags (p_flags s)) (\<lambda>a. Some (seg_byte elf_bytes s a))"

definition load_headers :: "ProgramHeader list \<Rightarrow> ProgramHeader list" where
  "load_headers segs = filter (\<lambda>s. p_type s = ElfSegmentType_Load) segs"

definition all_pages :: "ProgramHeader list \<Rightarrow> nat" where
  "all_pages segs = sum_list (map seg_pages (load_headers segs))"

definition segments_fit :: "8 word list \<Rightarrow> ProgramHeader list \<Rightarrow> bool" where
  "segments_fit elf_bytes segs \<longleftrightarrow> (\<forall>s\<in>set (load_headers segs). segment_fits elf_bytes s) \<and>
     sorted_wrt (\<lambda>s s'. seg_hi s \<le> seg_lo s' \<or> seg_hi s' \<le> seg_lo s) (load_headers segs)"

definition tracked :: "'s nodit_set_ops \<Rightarrow> ('s \<Rightarrow> bool) \<Rightarrow> image \<Rightarrow> 's \<Rightarrow> bool" where
  "tracked S wfS img vset \<longleftrightarrow> wfS vset \<and> (\<forall>a. covered (ns_iter S vset) a \<longleftrightarrow> img a \<noteq> None)"

lemma elf_flags_present: "pf_present (elf_flags_to_page_table_flags fl)" "\<not> pf_huge_page (elf_flags_to_page_table_flags fl)"
  by (simp_all add: elf_flags_to_page_table_flags_def no_flags_def)

lemma range_image_join:
  "lo \<le> mid \<Longrightarrow> mid \<le> hi \<Longrightarrow> range_image mid hi fl c (range_image lo mid fl c img) = range_image lo hi fl c img"
  by (auto simp: range_image_def fun_eq_iff)

lemma range_image_cong: "(\<And>a. lo \<le> a \<Longrightarrow> a < hi \<Longrightarrow> c a = c' a) \<Longrightarrow> range_image lo hi fl c img = range_image lo hi fl c' img"
  by (auto simp: range_image_def fun_eq_iff)

text \<open>What a loading step returns: the image and the recorded ranges grow together, or memory has
  run out and the other tasks are untouched.\<close>

definition load_result ::
    "'s nodit_set_ops \<Rightarrow> ('s \<Rightarrow> bool) \<Rightarrow> ('m, MemoryType) nodit_map_ops \<Rightarrow> ('m \<Rightarrow> bool) \<Rightarrow> nat \<Rightarrow> nat set \<Rightarrow> nat \<Rightarrow> 'm Mmu \<Rightarrow>
     nat \<Rightarrow> image \<Rightarrow> ((SpawnError + 's) \<times> 'm Mmu) rust \<Rightarrow> bool" where
  "load_result S wfS N wfN hhdm roots l4 u0 b img r \<longleftrightarrow>
     (\<exists>v u. r = Some (v, u) \<and> (case v of
        Inl err \<Rightarrow> err = OutOfMemory \<and> (\<forall>g. \<not> frame_available N (mu_pm u) g) \<and> (\<exists>img'. loaded N wfN hhdm roots l4 u0 b img' u)
      | Inr vset \<Rightarrow> loaded N wfN hhdm roots l4 u0 b img u \<and> tracked S wfS img vset))"

lemma load_resultI:
  "r = Some (Inr vset, u) \<Longrightarrow> loaded N wfN hhdm roots l4 u0 b img u \<Longrightarrow> tracked S wfS img vset \<Longrightarrow> load_result S wfS N wfN hhdm roots l4 u0 b img r"
  "r = Some (Inl OutOfMemory, u) \<Longrightarrow> \<forall>g. \<not> frame_available N (mu_pm u) g \<Longrightarrow> loaded N wfN hhdm roots l4 u0 b img' u \<Longrightarrow>
     load_result S wfS N wfN hhdm roots l4 u0 b img r"
  unfolding load_result_def by auto

definition program_image :: "8 word list \<Rightarrow> ProgramHeader list \<Rightarrow> image" where
  "program_image elf_bytes segs =
     range_image STACK_START USER_RSP stack_flags (\<lambda>_. None) (fold (seg_image elf_bytes) (load_headers segs) (\<lambda>_. None))"

lemma fold_image_None:
  "(\<forall>s\<in>set segs. \<not> (seg_lo s \<le> a \<and> a < seg_hi s)) \<Longrightarrow> fold (seg_image elf_bytes) segs img a = img a"
  by (induction segs arbitrary: img) (auto simp: seg_image_def range_image_def)

lemma fold_image_at:
  assumes "sorted_wrt (\<lambda>s s'. seg_hi s \<le> seg_lo s' \<or> seg_hi s' \<le> seg_lo s) segs" "s \<in> set segs" "seg_lo s \<le> a" "a < seg_hi s"
  shows "fold (seg_image elf_bytes) segs img a = Some (elf_flags_to_page_table_flags (p_flags s), Some (seg_byte elf_bytes s a))"
  using assms
proof (induction segs arbitrary: img)
  case (Cons s' segs)
  show ?case
  proof (cases "s \<in> set segs")
    case True
    then show ?thesis using Cons by simp
  next
    case False
    then have s': "s' = s" using Cons.prems(2) by simp
    have "\<forall>q\<in>set segs. \<not> (seg_lo q \<le> a \<and> a < seg_hi q)" using Cons.prems(1,3,4) s' by fastforce
    from fold_image_None [OF this, of elf_bytes "seg_image elf_bytes s img"]
    have "fold (seg_image elf_bytes) (s' # segs) img a = seg_image elf_bytes s img a" using s' by simp
    also have "\<dots> = Some (elf_flags_to_page_table_flags (p_flags s), Some (seg_byte elf_bytes s a))"
      using Cons.prems(3,4) by (simp add: seg_image_def range_image_def)
    finally show ?thesis .
  qed
qed simp

lemma segment_below_stack: "segment_fits elf_bytes s \<Longrightarrow> length elf_bytes < U64_LIMIT \<Longrightarrow> seg_hi s \<le> STACK_START"
  by (erule (1) segment_pages)

lemma segment_range: "p_vaddr s \<le> a \<Longrightarrow> a < p_vaddr s + p_memsz s \<Longrightarrow> seg_lo s \<le> a \<and> a < seg_hi s"
  using div_ceil_bounds [OF SIZE_4KIB_pos, of "p_vaddr s + p_memsz s"] by (auto simp: seg_lo_def seg_hi_def intro: less_le_trans le_trans)

lemma spaces_subset:
  assumes ok: "spaces_ok N roots pm t" and sub: "roots' \<subseteq> roots"
  shows "spaces_ok N roots' pm t"
proof -
  have mp: "mapped roots t r a e" if "mapped roots' t r a e" for r a e using that sub by (auto simp: mapped_def)
  show ?thesis
  proof (rule spaces_okI)
    show "r = r' \<and> page_low 3 a = page_low 3 a'"
      if m: "mapped roots' t r a e" "mapped roots' t r' a' e'" "pe_addr e = pe_addr e'" "frame_has N pm (pe_addr e) UsedByUserMode"
      for r a e r' a' e' by (rule spaces_private [OF ok mp [OF m(1)] mp [OF m(2)] m(3,4)])
    show "user_tables t r \<inter> user_tables t r' = {}" if "r \<in> roots'" "r' \<in> roots'" "r \<noteq> r'" for r r'
      using ok that sub unfolding spaces_ok_def by blast
  qed (use sub spaces_tree [OF ok] spaces_tables [OF ok] spaces_mapped [OF ok mp] in blast)+
qed

context user_memory
begin

lemma track_pages_ok:
  assumes "tracked S wfS img vset" "0 < n" "start + n * SIZE_4KIB < U64_LIMIT"
    and "\<forall>a. start \<le> a \<and> a < start + n * SIZE_4KIB \<longrightarrow> img a = None"
  shows "\<exists>vset'. track_pages S start n vset = Some vset' \<and> tracked S wfS (range_image start (start + n * SIZE_4KIB) fl c img) vset'"
proof -
  let ?e = "start + n * SIZE_4KIB"
  have b: "0 < n * SIZE_4KIB" "mul_u64 n SIZE_4KIB = Some (n * SIZE_4KIB)" "add_u64 start (n * SIZE_4KIB) = Some ?e" "sub_u64 ?e 1 = Some (?e - 1)"
    using assms(2,3) by (simp_all add: mul_u64_def add_u64_def sub_u64_def SIZE_4KIB_def)
  have v: "valid_ivl (start, ?e - 1)" using b(1) assms(3) unfolding valid_ivl.simps by linarith
  have in_e: "in_ivl a (start, ?e - 1) \<longleftrightarrow> start \<le> a \<and> a < ?e" for a using b(1) unfolding in_ivl.simps by linarith
  have "\<forall>a. in_ivl a (start, ?e - 1) \<longrightarrow> \<not> covered (ns_iter S vset) a" unfolding in_e using assms(1,4) by (simp add: tracked_def)
  then obtain vset' where i: "ns_insert_merge_touching S vset (start, ?e - 1) = Some (Some vset')" "wfS vset'"
      "\<forall>a. covered (ns_iter S vset') a \<longleftrightarrow> covered (ns_iter S vset) a \<or> in_ivl a (start, ?e - 1)"
    using sp.insert_spec [OF _ v] assms(1) unfolding tracked_def by blast
  have "tracked S wfS (range_image start ?e fl c img) vset'"
    using i(2,3) assms(1) unfolding in_e tracked_def range_image_def by auto
  then show ?thesis using b i(1) by (intro exI [of _ vset']) (simp add: track_pages_def unwrap_def)
qed

lemma load_segment_ok:
  assumes fit: "segment_fits elf_bytes s" and len: "length elf_bytes < U64_LIMIT" and ld: "loaded N wfN hhdm roots l4 u0 b img u"
    and tr: "tracked S wfS img vset" and free: "\<forall>a. seg_lo s \<le> a \<and> a < seg_hi s \<longrightarrow> img a = None"
    and ty: "p_type s = ElfSegmentType_Load"
  shows "load_result S wfS N wfN hhdm roots l4 u0 (b + 4 * seg_pages s) (seg_image elf_bytes s img) (load_segment S X N M hhdm l4 elf_bytes s vset u)"
proof -
  let ?fl = "elf_flags_to_page_table_flags (p_flags s)" and ?c = "\<lambda>a. Some (seg_byte elf_bytes s a)"
  obtain n m where nm: "file_pages s = Some n" "extra_pages s = Some m" "\<not> p_filesz s < p_memsz s \<longrightarrow> m = 0"
    "seg_lo s + (n + m) * SIZE_4KIB = seg_hi s" "p_vaddr s + p_filesz s \<le> seg_lo s + n * SIZE_4KIB \<or> n = 0 \<and> p_filesz s = 0"
    "seg_lo s mod SIZE_4KIB = 0" "seg_hi s \<le> STACK_START" "n + m < U64_LIMIT"
    by (rule segment_pages [OF fit len])
  have "seg_hi s - seg_lo s = (n + m) * SIZE_4KIB" using nm(4) by linarith
  then have sp: "seg_pages s = n + m" by (simp add: seg_pages_def)
  have b4: "b + 4 * n + 4 * m = b + 4 * seg_pages s" unfolding sp by simp
  have f: "p_offset s + p_filesz s \<le> length elf_bytes" "p_filesz s \<le> p_memsz s" "p_vaddr s + p_memsz s \<le> STACK_START"
    using fit by (simp_all add: segment_fits_def)
  have hi: "seg_hi s < USER_LIMIT" "USER_LIMIT + SIZE_4KIB < U64_LIMIT" using nm(7) by (simp_all add: stack_nums USER_LIMIT_def U64_LIMIT_num SIZE_4KIB_def)
  have v: "virt_addr_new X (p_vaddr s) = Some (p_vaddr s)" using f(3) by (intro virt_new) (simp add: stack_nums canonical_num)
  have lo: "page_containing_address X (p_vaddr s) = seg_lo s" by (simp add: page_containing seg_lo_def)
  have fe: "add_u64 (p_offset s) (p_filesz s) = Some (p_offset s + p_filesz s)" using f(1) len by (simp add: add_u64_def)
  have mid: "seg_lo s + n * SIZE_4KIB + m * SIZE_4KIB = seg_hi s" using nm(4) by (simp add: add_mult_distrib)
  have fe2: "p_vaddr s + p_filesz s < U64_LIMIT" using f(2,3) by (simp add: stack_nums U64_LIMIT_num)
  have prep: "prepares N hhdm ?c page (prepare_file_page X hhdm elf_bytes s)"
    if "page mod SIZE_4KIB = 0" "page < seg_lo s + n * SIZE_4KIB" for page
    using that mid hi by (intro prepares_file f(1) len fe2) simp_all
  let ?L = "load_segment S X N M hhdm l4 elf_bytes s vset u" and ?mid = "seg_lo s + n * SIZE_4KIB"
  have head: "?L = do { (r, u1) \<leftarrow> load_pages X N M l4 (seg_lo s) ?fl (prepare_file_page X hhdm elf_bytes s) [0..<n] u;
      case r of Inl err \<Rightarrow> Some (Inl err, u1) | Inr _ \<Rightarrow> do {
        (r2, total, u2) \<leftarrow> (if p_memsz s > p_filesz s then
             do { b \<leftarrow> page_of_range X (seg_lo s) n; (r2, u2) \<leftarrow> load_pages X N M l4 b ?fl (prepare_zero_page X hhdm) [0..<m] u1;
                  total \<leftarrow> add_u64 n m; Some (r2, total, u2) }
           else Some (Inr (), n, u1));
        case r2 of Inl err \<Rightarrow> Some (Inl err, u2)
        | Inr _ \<Rightarrow> if total > 0 then do { vset' \<leftarrow> track_pages S (seg_lo s) total vset; Some (Inr vset', u2) } else Some (Inr vset, u2) } }"
    using f(1) unfolding load_segment_def ty by (simp add: fe v lo nm(1,2) Let_def cong: sum.case_cong if_cong)
  have img: "range_image ?mid (seg_hi s) ?fl (\<lambda>_. Some 0) (range_image (seg_lo s) ?mid ?fl ?c img) = seg_image elf_bytes s img"
  proof -
    have "Some 0 = ?c a" if "?mid \<le> a" for a using nm(5) that by (auto simp: seg_byte_def)
    then have "range_image ?mid (seg_hi s) ?fl (\<lambda>_. Some 0) (range_image (seg_lo s) ?mid ?fl ?c img) =
        range_image ?mid (seg_hi s) ?fl ?c (range_image (seg_lo s) ?mid ?fl ?c img)" by (intro range_image_cong) blast
    then show ?thesis unfolding seg_image_def using range_image_join [of "seg_lo s" ?mid "seg_hi s" ?fl ?c img] mid by simp
  qed
  have track: "load_result S wfS N wfN hhdm roots l4 u0 (b + 4 * seg_pages s) (seg_image elf_bytes s img)
      (if n + m > 0 then do { vset' \<leftarrow> track_pages S (seg_lo s) (n + m) vset; Some (Inr vset', u2) } else Some (Inr vset, u2))"
    if u2: "loaded N wfN hhdm roots l4 u0 (b + 4 * seg_pages s) (seg_image elf_bytes s img) u2" for u2
  proof (cases "0 < n + m")
    case True
    have e: "seg_lo s + (n + m) * SIZE_4KIB < U64_LIMIT" unfolding nm(4) using hi by simp
    obtain vset' where "track_pages S (seg_lo s) (n + m) vset = Some vset'" "tracked S wfS (seg_image elf_bytes s img) vset'"
      using track_pages_ok [OF tr True e, of ?fl ?c] free unfolding nm(4) seg_image_def by blast
    then show ?thesis using True u2 by (intro load_resultI(1) [of _ vset' u2]) simp_all
  next
    case False
    then have "seg_hi s = seg_lo s" using nm(4) by simp
    then have "seg_image elf_bytes s img = img" by (auto simp: seg_image_def range_image_def fun_eq_iff)
    then show ?thesis using u2 False tr by (intro load_resultI(1) [of _ vset u2]) simp_all
  qed
  show ?thesis
  proof (rule load_pages_all [where c = ?c and fl = ?fl, OF nm(6) _ elf_flags_present prep ld])
    show "seg_lo s + n * SIZE_4KIB \<le> USER_LIMIT" using mid hi by simp
    show "\<forall>a. seg_lo s \<le> a \<and> a < ?mid \<longrightarrow> img a = None" using free mid by auto
  next
    fix u1 img' assume "load_pages X N M l4 (seg_lo s) ?fl (prepare_file_page X hhdm elf_bytes s) [0..<n] u = Some (Inl OutOfMemory, u1)"
      "\<forall>g. \<not> frame_available N (mu_pm u1) g" "loaded N wfN hhdm roots l4 u0 (b + 4 * n) img' u1"
    then show ?thesis unfolding head using loaded_mono [of N wfN hhdm roots l4 u0 "b + 4 * n" img' u1] sp
      by (intro load_resultI(2) [of _ u1 N wfN hhdm roots l4 u0 _ img']) simp_all
  next
    fix u1 assume l1: "load_pages X N M l4 (seg_lo s) ?fl (prepare_file_page X hhdm elf_bytes s) [0..<n] u = Some (Inr (), u1)"
      "loaded N wfN hhdm roots l4 u0 (b + 4 * n) (range_image (seg_lo s) ?mid ?fl ?c img) u1"
    show ?thesis
    proof (cases "p_filesz s < p_memsz s")
      case False
      then have m0: "m = 0" using nm(3) by simp
      then have "seg_image elf_bytes s img = range_image (seg_lo s) ?mid ?fl ?c img" using mid by (simp add: seg_image_def)
      then have "loaded N wfN hhdm roots l4 u0 (b + 4 * seg_pages s) (seg_image elf_bytes s img) u1" using l1(2) sp m0 by simp
      from track [OF this, unfolded m0 add_0_right] show ?thesis
        unfolding head l1(1) if_not_P [OF False] by (simp only: bind.bind_lunit prod.case sum.case)
    next
      case True
      have pb: "page_of_range X (seg_lo s) n = Some ?mid" by (rule page_of_range_ok [OF nm(6)]) (use mid hi in simp)
      have t: "add_u64 n m = Some (n + m)" by (rule add_u64_ok [OF nm(8)])
      show ?thesis
      proof (rule load_pages_all [where c = "\<lambda>_. Some 0" and fl = ?fl and start = ?mid and n = m, OF _ _ elf_flags_present prepares_zero l1(2)])
        show "?mid mod SIZE_4KIB = 0" using nm(6) by simp
        show "?mid + m * SIZE_4KIB \<le> USER_LIMIT" using mid hi by simp
        show "\<forall>a. ?mid \<le> a \<and> a < ?mid + m * SIZE_4KIB \<longrightarrow> range_image (seg_lo s) ?mid ?fl ?c img a = None"
          unfolding mid using free by (auto simp: range_image_def)
      next
        fix u2 img' assume "load_pages X N M l4 ?mid ?fl (prepare_zero_page X hhdm) [0..<m] u1 = Some (Inl OutOfMemory, u2)"
          "\<forall>g. \<not> frame_available N (mu_pm u2) g" "loaded N wfN hhdm roots l4 u0 (b + 4 * n + 4 * m) img' u2"
        then show ?thesis using l1(1) True pb t unfolding head b4 by (intro load_resultI(2)) simp_all
      next
        fix u2 assume "load_pages X N M l4 ?mid ?fl (prepare_zero_page X hhdm) [0..<m] u1 = Some (Inr (), u2)"
          "loaded N wfN hhdm roots l4 u0 (b + 4 * n + 4 * m) (range_image ?mid (?mid + m * SIZE_4KIB) ?fl (\<lambda>_. Some 0) (range_image (seg_lo s) ?mid ?fl ?c img)) u2"
        then show ?thesis using track [of u2] l1(1) True pb t unfolding head mid img b4 by simp
      qed
    qed
  qed
qed

lemma load_segments_ok:
  assumes len: "length elf_bytes < U64_LIMIT"
  shows "segments_fit elf_bytes segs \<Longrightarrow> loaded N wfN hhdm roots l4 u0 b img u \<Longrightarrow> tracked S wfS img vset \<Longrightarrow>
    \<forall>s\<in>set (load_headers segs). \<forall>a. seg_lo s \<le> a \<and> a < seg_hi s \<longrightarrow> img a = None \<Longrightarrow>
    load_result S wfS N wfN hhdm roots l4 u0 (b + 4 * all_pages segs) (fold (seg_image elf_bytes) (load_headers segs) img)
      (load_segments S X N M hhdm l4 elf_bytes segs vset u)"
proof (induction segs arbitrary: img u vset b)
  case Nil
  then show ?case by (intro load_resultI(1) [of _ vset u]) (simp_all add: load_headers_def all_pages_def)
next
  case (Cons s segs)
  show ?case
  proof (cases "p_type s = ElfSegmentType_Load")
    case False
    then have "load_headers (s # segs) = load_headers segs" "load_segment S X N M hhdm l4 elf_bytes s vset u = Some (Inr vset, u)"
      by (simp_all add: load_headers_def load_segment_def)
    then show ?thesis using Cons.IH [of b img u vset] Cons.prems by (simp add: segments_fit_def all_pages_def)
  next
    case True
    then have h: "load_headers (s # segs) = s # load_headers segs" by (simp add: load_headers_def)
    have ap: "b + 4 * all_pages (s # segs) = b + 4 * seg_pages s + 4 * all_pages segs" unfolding all_pages_def h by simp
    have fit: "segment_fits elf_bytes s" "segments_fit elf_bytes segs" "\<forall>s'\<in>set (load_headers segs). seg_hi s \<le> seg_lo s' \<or> seg_hi s' \<le> seg_lo s"
      using Cons.prems(1) by (simp_all add: segments_fit_def h)
    have "\<forall>a. seg_lo s \<le> a \<and> a < seg_hi s \<longrightarrow> img a = None" using Cons.prems(4) unfolding h by simp
    from load_segment_ok [OF fit(1) len Cons.prems(2,3) this True]
    obtain v u1 where l: "load_segment S X N M hhdm l4 elf_bytes s vset u = Some (v, u1)"
        "case v of
           Inl err \<Rightarrow> err = OutOfMemory \<and> (\<forall>g. \<not> frame_available N (mu_pm u1) g) \<and> (\<exists>img'. loaded N wfN hhdm roots l4 u0 (b + 4 * seg_pages s) img' u1)
         | Inr vset \<Rightarrow> loaded N wfN hhdm roots l4 u0 (b + 4 * seg_pages s) (seg_image elf_bytes s img) u1 \<and> tracked S wfS (seg_image elf_bytes s img) vset"
      unfolding load_result_def by blast
    show ?thesis
    proof (cases v)
      case (Inl err)
      then obtain img' where "loaded N wfN hhdm roots l4 u0 (b + 4 * seg_pages s) img' u1" "\<forall>g. \<not> frame_available N (mu_pm u1) g" "err = OutOfMemory"
        using l(2) by auto
      then show ?thesis using l(1) Inl loaded_mono [of N wfN hhdm roots l4 u0 "b + 4 * seg_pages s" img' u1] unfolding ap
        by (intro load_resultI(2) [of _ u1 N wfN hhdm roots l4 u0 _ img']) simp_all
    next
      case (Inr vset1)
      have "\<forall>s'\<in>set (load_headers segs). \<forall>a. seg_lo s' \<le> a \<and> a < seg_hi s' \<longrightarrow> seg_image elf_bytes s img a = None"
        using Cons.prems(4) fit(3) unfolding h by (auto simp: seg_image_def range_image_def)
      then show ?thesis using Cons.IH [OF fit(2), of "b + 4 * seg_pages s" "seg_image elf_bytes s img" u1 vset1] l Inr unfolding h ap by simp
    qed
  qed
qed

lemma load_stack_ok:
  assumes ld: "loaded N wfN hhdm roots l4 u0 b img u" and tr: "tracked S wfS img vset"
    and free: "\<forall>a. STACK_START \<le> a \<and> a < USER_RSP \<longrightarrow> img a = None"
  shows "load_result S wfS N wfN hhdm roots l4 u0 (b + 4 * 16) (range_image STACK_START USER_RSP stack_flags (\<lambda>_. None) img)
    (load_stack S X N M l4 vset u)"
proof -
  have n: "div_ceil USER_STACK_SIZE SIZE_4KIB = 16" "STACK_START + 16 * SIZE_4KIB = USER_RSP" "STACK_START mod SIZE_4KIB = 0"
    by (simp_all add: stack_nums div_ceil_def SIZE_4KIB_def)
  have b: "mul_u64 16 SIZE_4KIB = Some 65536" "sub_u64 USER_RSP 65536 = Some STACK_START" "virt_addr_new X STACK_START = Some STACK_START"
    by (simp_all add: mul_u64_def sub_u64_def stack_nums SIZE_4KIB_def U64_LIMIT_num virt_new canonical_num)
  have p: "page_containing_address X STACK_START = STACK_START" by (rule page_aligned [OF n(3)])
  have fl: "pf_present stack_flags" "\<not> pf_huge_page stack_flags" by (simp_all add: stack_flags_def no_flags_def)
  have head: "load_stack S X N M l4 vset u =
      do { (r, u1) \<leftarrow> load_pages X N M l4 STACK_START stack_flags prepare_stack_page [0..<16] u;
           case r of Inl err \<Rightarrow> Some (Inl err, u1)
           | Inr _ \<Rightarrow> do { vset' \<leftarrow> track_pages S STACK_START 16 vset; Some (Inr vset', u1) } }"
    unfolding load_stack_def n(1) Let_def b bind.bind_lunit p by (rule refl)
  show ?thesis
  proof (rule load_pages_all [where c = "\<lambda>_. None" and start = STACK_START and n = 16, OF n(3) _ fl prepares_stack ld])
    show "STACK_START + 16 * SIZE_4KIB \<le> USER_LIMIT" unfolding n(2) by (simp add: stack_nums USER_LIMIT_def)
    show "\<forall>a. STACK_START \<le> a \<and> a < STACK_START + 16 * SIZE_4KIB \<longrightarrow> img a = None" unfolding n(2) by (rule free)
  next
    fix u1 img' assume "load_pages X N M l4 STACK_START stack_flags prepare_stack_page [0..<16] u = Some (Inl OutOfMemory, u1)"
      "\<forall>g. \<not> frame_available N (mu_pm u1) g" "loaded N wfN hhdm roots l4 u0 (b + 4 * 16) img' u1"
    then show ?thesis unfolding head by (intro load_resultI(2) [of _ u1]) (simp only: bind.bind_lunit prod.case sum.case, assumption+)
  next
    fix u1 assume l: "load_pages X N M l4 STACK_START stack_flags prepare_stack_page [0..<16] u = Some (Inr (), u1)"
      "loaded N wfN hhdm roots l4 u0 (b + 4 * 16) (range_image STACK_START (STACK_START + 16 * SIZE_4KIB) stack_flags (\<lambda>_. None) img) u1"
    have "STACK_START + 16 * SIZE_4KIB < U64_LIMIT" unfolding n(2) by (simp add: stack_nums U64_LIMIT_num)
    then obtain vset' where "track_pages S STACK_START 16 vset = Some vset'"
        "tracked S wfS (range_image STACK_START USER_RSP stack_flags (\<lambda>_. None) img) vset'"
      using track_pages_ok [OF tr, of 16 STACK_START stack_flags "\<lambda>_. None"] free unfolding n(2) by auto
    then show ?thesis using l unfolding head n(2) by (intro load_resultI(1) [of _ vset' u1]) (simp only: bind.bind_lunit prod.case sum.case, assumption+)
  qed
qed

lemma create_user_page_table_kept:
  assumes "pm_ok N wfN (mu_pm u)" "create_user_page_table X N hhdm kernel_cr3 u = Some (l4, u')"
  shows "kernel_kept N u u'"
proof -
  obtain fa where al: "allocate_frame_4kib X N (get_user_mode_frame_allocator (mu_pm u)) = Some (Some l4, fa)"
      "mu_pm u' = fa_physical_memory fa" "\<forall>g. g \<noteq> l4 \<longrightarrow> mu_tables u' g = mu_tables u g"
    using assms(2) by (auto simp: create_user_page_table_def rust_SomeD Let_def unwrap_def)
  then have f: "frame_available N (mu_pm u) l4" "retyped N (mu_pm u) l4 UsedByUserMode (mu_pm u')"
    using allocate_frame_spec [OF assms(1), of UsedByUserMode] by (auto simp: allocate_frame_4kib_def get_user_mode_frame_allocator_def)
  have us: "frame_has N (mu_pm u) l4 Usable" by (rule available_has [OF f(1)])
  show ?thesis
  proof (rule kernel_kept_retype [of N u "{l4}"])
    show "mu_tables u' g = mu_tables u g" if "frame_has N (mu_pm u) g ty" "ty \<noteq> Usable" for g ty
    proof -
      have "g \<noteq> l4" using us that frame_has_unique [of N "mu_pm u" l4 Usable ty] by blast
      then show ?thesis using al(3) by blast
    qed
  qed (use f(2) us in \<open>simp_all add: retyped_one\<close>)
qed

lemma create_user_page_table_used:
  assumes "pm_ok N wfN (mu_pm u)" "create_user_page_table X N hhdm kernel_cr3 u = Some (l4, u')"
  shows "frames_used N 1 u u'"
proof -
  obtain fa where al: "allocate_frame_4kib X N (get_user_mode_frame_allocator (mu_pm u)) = Some (Some l4, fa)" "mu_pm u' = fa_physical_memory fa"
    using assms(2) by (auto simp: create_user_page_table_def rust_SomeD Let_def unwrap_def)
  then have f: "frame_available N (mu_pm u) l4" "retyped N (mu_pm u) l4 UsedByUserMode (mu_pm u')" "\<forall>g. frame_available N (mu_pm u) g \<longrightarrow> l4 \<le> g"
    using allocate_frame_spec [OF assms(1), of UsedByUserMode] by (auto simp: allocate_frame_4kib_def get_user_mode_frame_allocator_def)
  show ?thesis using available_after_alloc [OF f(1,3,2)] by (intro frames_used_diff [of N u' u "{l4}"]) simp_all
qed

lemma load_program_ok:
  assumes ok: "mmu_ok N wfN hhdm roots u" and kc: "frame_has N (mu_pm u) kernel_cr3 ty" "ty \<noteq> Usable" and av: "frame_available N (mu_pm u) f"
    and elf: "minimal_parse elf_bytes = Some elf" "eb_segments elf = Some segs" "eb_entry elf \<noteq> 0"
    and fit: "segments_fit elf_bytes segs" "length elf_bytes < U64_LIMIT"
  shows "\<exists>r u'. load_program S X N M minimal_parse hhdm kernel_cr3 elf_bytes u = Some (r, u') \<and> mmu_ok N wfN hhdm roots u' \<and> others_kept roots u u' \<and> kernel_kept N u u' \<and>
    frames_used N (1 + 4 * (all_pages segs + 16)) u u' \<and>
    (case r of
       Inl err \<Rightarrow> err = OutOfMemory \<and> (\<forall>g. \<not> frame_available N (mu_pm u') g)
     | Inr lp \<Rightarrow> lp_entry lp = eb_entry elf \<and> lp_rsp lp = USER_RSP \<and>
         loaded N wfN hhdm roots (lp_l4_frame lp) u (1 + 4 * (all_pages segs + 16)) (program_image elf_bytes segs) u' \<and>
         tracked S wfS (program_image elf_bytes segs) (lp_vaddr_set lp))"
proof -
  obtain l4 u1 where c: "create_user_page_table X N hhdm kernel_cr3 u = Some (l4, u1)" "mmu_ok N wfN hhdm (insert l4 roots) u1"
      "space_created roots kernel_cr3 l4 u u1"
    by (rule create_user_page_table_ok [OF ok kc av])
  have kk: "kernel_kept N u u1" by (rule create_user_page_table_kept [OF _ c(1)]) (use ok in \<open>simp add: mmu_ok_def\<close>)
  have fu: "frames_used N 1 u u1" by (rule create_user_page_table_used [OF _ c(1)]) (use ok in \<open>simp add: mmu_ok_def\<close>)
  have ld: "loaded N wfN hhdm roots l4 u 1 (\<lambda>_. None) u1"
    using c(2,3) kk fu unfolding loaded_def space_created_def others_kept_def image_ok_def user_byte_def by simp
  have tr: "tracked S wfS (\<lambda>_. None) (ns_default S)" by (simp add: tracked_def sp.default_wf sp.default_empty)
  let ?b = "1 + 4 * (all_pages segs + 16)" and ?b2 = "1 + 4 * all_pages segs" and ?img = "fold (seg_image elf_bytes) (load_headers segs) (\<lambda>_. None)"
  have sub: "mmu_ok N wfN hhdm roots u'" "others_kept roots u u'" "kernel_kept N u u'" "frames_used N ?b u u'"
    if "loaded N wfN hhdm roots l4 u b img u'" "b \<le> ?b" for b img u'
    using that spaces_subset [of N "insert l4 roots" "mu_pm u'" "mu_tables u'" roots] by (auto simp: loaded_def mmu_ok_def frames_used_def)
  from load_segments_ok [OF fit(2,1) ld tr]
  obtain v u2 where s: "load_segments S X N M hhdm l4 elf_bytes segs (ns_default S) u1 = Some (v, u2)"
      "case v of
         Inl err \<Rightarrow> err = OutOfMemory \<and> (\<forall>g. \<not> frame_available N (mu_pm u2) g) \<and> (\<exists>img'. loaded N wfN hhdm roots l4 u ?b2 img' u2)
       | Inr vset \<Rightarrow> loaded N wfN hhdm roots l4 u ?b2 ?img u2 \<and> tracked S wfS ?img vset"
    unfolding load_result_def by auto
  note head = load_program_def elf(1,2) c(1) s(1)
  show ?thesis
  proof (cases v)
    case (Inl err)
    then show ?thesis using s(2) sub [of ?b2 _ u2] by (auto simp: head)
  next
    case (Inr vset)
    have bb: "?b2 + 4 * 16 = ?b" by simp
    from Inr have l2: "loaded N wfN hhdm roots l4 u ?b2 ?img u2" "tracked S wfS ?img vset" using s(2) by simp_all
    have "\<forall>a. STACK_START \<le> a \<and> a < USER_RSP \<longrightarrow> ?img a = None"
    proof (intro allI impI, elim conjE)
      fix a assume a: "STACK_START \<le> a"
      have "\<not> (seg_lo s \<le> a \<and> a < seg_hi s)" if "s \<in> set (load_headers segs)" for s
        using segment_below_stack [of elf_bytes s] fit that a unfolding segments_fit_def by force
      then show "?img a = None" by (intro fold_image_None) blast
    qed
    from load_stack_ok [OF l2 this, unfolded bb]
    obtain w u3 where t: "load_stack S X N M l4 vset u2 = Some (w, u3)"
        "case w of
           Inl err \<Rightarrow> err = OutOfMemory \<and> (\<forall>g. \<not> frame_available N (mu_pm u3) g) \<and> (\<exists>img'. loaded N wfN hhdm roots l4 u ?b img' u3)
         | Inr vset \<Rightarrow> loaded N wfN hhdm roots l4 u ?b (program_image elf_bytes segs) u3 \<and> tracked S wfS (program_image elf_bytes segs) vset"
      unfolding load_result_def program_image_def by auto
    then show ?thesis using sub [of ?b _ u3] elf(3) Inr by (cases w) (auto simp: head)
  qed
qed

end

section \<open>What a program finds in its memory\<close>

definition program_in_memory ::
    "'s nodit_set_ops \<Rightarrow> ('s \<Rightarrow> bool) \<Rightarrow> 8 word list \<Rightarrow> ProgramHeader list \<Rightarrow> 's LoadedProgram \<Rightarrow> 'm Mmu \<Rightarrow> bool" where
  "program_in_memory S wfS elf_bytes segs lp u \<longleftrightarrow>
     (\<forall>s\<in>set (load_headers segs). \<forall>a. p_vaddr s \<le> a \<and> a < p_vaddr s + p_memsz s \<longrightarrow>
        user_byte u (lp_l4_frame lp) a =
          Some (if a < p_vaddr s + p_filesz s then elf_bytes ! (p_offset s + (a - p_vaddr s)) else 0) \<and>
        (\<exists>e. translate (mu_tables u) (lp_l4_frame lp) a = Some e \<and> pe_flags e = elf_flags_to_page_table_flags (p_flags s))) \<and>
     (\<forall>a. STACK_START \<le> a \<and> a < USER_RSP \<longrightarrow>
        (\<exists>e. translate (mu_tables u) (lp_l4_frame lp) a = Some e \<and> pe_flags e = stack_flags)) \<and>
     (\<forall>a<USER_LIMIT. \<not> (STACK_START \<le> a \<and> a < USER_RSP) \<longrightarrow> (\<forall>s\<in>set (load_headers segs). \<not> (seg_lo s \<le> a \<and> a < seg_hi s)) \<longrightarrow>
        translate (mu_tables u) (lp_l4_frame lp) a = None) \<and>
     vset_ok S wfS (mu_tables u) (lp_l4_frame lp) (lp_vaddr_set lp)"

lemma program_image_seg:
  assumes fit: "segments_fit elf_bytes segs" "length elf_bytes < U64_LIMIT" and s: "s \<in> set (load_headers segs)" "seg_lo s \<le> a" "a < seg_hi s"
  shows "program_image elf_bytes segs a = Some (elf_flags_to_page_table_flags (p_flags s), Some (seg_byte elf_bytes s a))" "a < STACK_START"
proof -
  have "seg_hi s \<le> STACK_START" using segment_below_stack [of elf_bytes s] fit s(1) by (simp add: segments_fit_def)
  then show "a < STACK_START" using s(3) by simp
  then show "program_image elf_bytes segs a = Some (elf_flags_to_page_table_flags (p_flags s), Some (seg_byte elf_bytes s a))"
    using fold_image_at [OF _ s] fit(1) by (simp add: program_image_def range_image_def segments_fit_def)
qed

lemma program_image_None:
  assumes "\<not> (STACK_START \<le> a \<and> a < USER_RSP)" "\<forall>s\<in>set (load_headers segs). \<not> (seg_lo s \<le> a \<and> a < seg_hi s)"
  shows "program_image elf_bytes segs a = None"
  using assms fold_image_None [OF assms(2), of elf_bytes "\<lambda>_. None"] by (auto simp: program_image_def range_image_def)

lemma loaded_program_in_memory:
  assumes fit: "segments_fit elf_bytes segs" "length elf_bytes < U64_LIMIT"
    and ld: "image_ok u (lp_l4_frame lp) (program_image elf_bytes segs)" and tr: "tracked S wfS (program_image elf_bytes segs) (lp_vaddr_set lp)"
  shows "program_in_memory S wfS elf_bytes segs lp u"
proof -
  let ?P = "program_image elf_bytes segs" and ?l4 = "lp_l4_frame lp"
  have lim: "USER_RSP < USER_LIMIT" "STACK_START < USER_RSP" by (simp_all add: stack_nums USER_LIMIT_def)
  have seg: "user_byte u ?l4 a = Some (if a < p_vaddr s + p_filesz s then elf_bytes ! (p_offset s + (a - p_vaddr s)) else 0) \<and>
      (\<exists>e. translate (mu_tables u) ?l4 a = Some e \<and> pe_flags e = elf_flags_to_page_table_flags (p_flags s))"
    if s: "s \<in> set (load_headers segs)" "p_vaddr s \<le> a" "a < p_vaddr s + p_memsz s" for s a
  proof -
    have r: "seg_lo s \<le> a" "a < seg_hi s" using segment_range [OF s(2,3)] by simp_all
    note p = program_image_seg [OF fit s(1) r]
    have "a < USER_LIMIT" using p(2) lim by simp
    from image_ok_at [OF ld this] s(2) show ?thesis unfolding p(1) by (auto simp: seg_byte_def)
  qed
  have st: "\<exists>e. translate (mu_tables u) ?l4 a = Some e \<and> pe_flags e = stack_flags" if "STACK_START \<le> a" "a < USER_RSP" for a
  proof -
    have "?P a = Some (stack_flags, None)" using that by (simp add: program_image_def range_image_def)
    moreover have "a < USER_LIMIT" using that lim by simp
    ultimately show ?thesis using image_ok_at [OF ld, of a] by simp
  qed
  have low: "a < USER_LIMIT" if "?P a \<noteq> None" for a
  proof (rule ccontr)
    assume "\<not> a < USER_LIMIT"
    then have "\<not> (STACK_START \<le> a \<and> a < USER_RSP)" "\<forall>s\<in>set (load_headers segs). \<not> (seg_lo s \<le> a \<and> a < seg_hi s)"
      using lim program_image_seg(2) [OF fit] by force+
    from program_image_None [OF this] that show False by simp
  qed
  have "vset_ok S wfS (mu_tables u) ?l4 (lp_vaddr_set lp)"
    unfolding vset_ok_def
  proof (intro conjI allI impI)
    show "wfS (lp_vaddr_set lp)" using tr by (simp add: tracked_def)
    show "a < USER_LIMIT" if "covered (ns_iter S (lp_vaddr_set lp)) a" for a using tr that low [of a] by (simp add: tracked_def)
    show "covered (ns_iter S (lp_vaddr_set lp)) a" if "a < USER_LIMIT" "translate (mu_tables u) ?l4 a \<noteq> None" for a
      using tr that image_ok_None [OF ld, of a] unfolding tracked_def by metis
  qed
  then show ?thesis unfolding program_in_memory_def using seg st program_image_None image_ok_None [OF ld] by blast
qed

section \<open>Properties\<close>

text \<open>C9. Loading a program whose segments fit never panics once a frame is available. The new address
  space holds exactly the program: every byte of every segment is the byte of the file or zero, with the
  permissions the header asks for, the stack is mapped writable and not executable, and nothing else is
  mapped. Each page takes at most four frames; loading fails only when too few are free, and
  then reports lack of memory. The memory of every other task reads as before and stays isolated from
  the new space, and the kernel's tables are untouched.\<close>

theorem load_program_image:
  assumes um: "user_memory N wfN X M S wfS" and ok: "mmu_ok N wfN hhdm roots u"
    and kc: "frame_has N (mu_pm u) kernel_cr3 ty" "ty \<noteq> Usable" and av: "frame_available N (mu_pm u) f"
    and elf: "minimal_parse elf_bytes = Some elf" "eb_segments elf = Some segs" "eb_entry elf \<noteq> 0"
    and fit: "segments_fit elf_bytes segs" "length elf_bytes < U64_LIMIT"
  shows "\<exists>r u'. load_program S X N M minimal_parse hhdm kernel_cr3 elf_bytes u = Some (r, u') \<and> mmu_ok N wfN hhdm roots u' \<and>
    others_kept roots u u' \<and> kernel_kept N u u' \<and> frames_used N (1 + 4 * (all_pages segs + 16)) u u' \<and>
    (case r of
       Inl err \<Rightarrow> err = OutOfMemory \<and> card (available_frames N (mu_pm u)) \<le> 1 + 4 * (all_pages segs + 16)
     | Inr lp \<Rightarrow> lp_entry lp = eb_entry elf \<and> lp_rsp lp = USER_RSP \<and> lp_l4_frame lp \<notin> roots \<and>
         mmu_ok N wfN hhdm (insert (lp_l4_frame lp) roots) u' \<and> program_in_memory S wfS elf_bytes segs lp u')"
proof -
  let ?b = "1 + 4 * (all_pages segs + 16)"
  obtain r u' where l: "load_program S X N M minimal_parse hhdm kernel_cr3 elf_bytes u = Some (r, u')" "mmu_ok N wfN hhdm roots u'" "others_kept roots u u'"
      "kernel_kept N u u'" "frames_used N ?b u u'"
      "case r of
         Inl err \<Rightarrow> err = OutOfMemory \<and> (\<forall>g. \<not> frame_available N (mu_pm u') g)
       | Inr lp \<Rightarrow> lp_entry lp = eb_entry elf \<and> lp_rsp lp = USER_RSP \<and>
           loaded N wfN hhdm roots (lp_l4_frame lp) u ?b (program_image elf_bytes segs) u' \<and> tracked S wfS (program_image elf_bytes segs) (lp_vaddr_set lp)"
    using user_memory.load_program_ok [where minimal_parse = minimal_parse, OF um ok kc av elf fit] by blast
  show ?thesis
  proof (cases r)
    case (Inl err)
    then have "available_frames N (mu_pm u') = {}" using l(6) by (simp add: available_frames_def)
    then show ?thesis using l Inl by (auto simp: frames_used_def)
  next
    case (Inr lp)
    then show ?thesis using l loaded_program_in_memory [OF fit] by (auto simp: loaded_def)
  qed
qed

text \<open>Two tables, a program of eight bytes that is loaded at 4 MiB with a page of zeros after it.\<close>

definition loader_mmu :: "(interval \<times> MemoryType) list Mmu" where
  "loader_mmu =
     \<lparr> mu_pm = \<lparr> pm_map = [((0x1000, 0x1FFF), UsedByKernel PageTables), ((0x2000, 0x2FFF), UsedByUserMode), ((0x3000, 0xFFFFF), Usable)] \<rparr>,
       mu_tables = (\<lambda>_. PageTable_new), mu_bytes = (\<lambda>a. word_of_nat a) \<rparr>"

definition sample_header :: ProgramHeader where
  "sample_header = \<lparr> p_type = 1, p_flags = 5, p_offset = 2, p_vaddr = 0x400010, p_filesz = 6, p_memsz = 0x1000 \<rparr>"

definition sample_parse :: "8 word list \<Rightarrow> ElfBytes option" where
  "sample_parse elf_bytes = (if length elf_bytes < 8 then None else Some \<lparr> eb_segments = Some [sample_header], eb_entry = 0x400010 \<rparr>)"

lemma loader_mmu_types:
  "type_at list_map_ops (mu_pm loader_mmu) a =
     (if 0x1000 \<le> a \<and> a \<le> 0x1FFF then Some (UsedByKernel PageTables) else if 0x2000 \<le> a \<and> a \<le> 0x2FFF then Some UsedByUserMode
      else if 0x3000 \<le> a \<and> a \<le> 0xFFFFF then Some Usable else None)"
  by (simp add: type_at_def loader_mmu_def list_map_ops_def)

lemma loader_mmu_ok: "mmu_ok list_map_ops ivls_ok HIGHER_HALF_START {0x2000} loader_mmu"
proof -
  have "pm_ok list_map_ops ivls_ok (mu_pm loader_mmu)"
    by (auto simp: pm_ok_def loader_mmu_types split: if_splits)
      (auto simp: loader_mmu_def ivls_ok_def ivl_before_def U64_LIMIT_num PHYS_LIMIT_num)
  moreover have "hhdm_fits list_map_ops HIGHER_HALF_START (mu_pm loader_mmu)"
    by (auto simp: hhdm_fits_def loader_mmu_types HIGHER_HALF_START_def U64_LIMIT_num split: if_splits)
  moreover have "spaces_ok list_map_ops {0x2000} (mu_pm loader_mmu) (\<lambda>_. PageTable_new)"
    by (rule spaces_okI) (auto simp: empty_space mapped_def frame_has_def loader_mmu_types in_frame_def SIZE_4KIB_def)
  ultimately show ?thesis by (simp add: mmu_ok_def) (simp add: loader_mmu_def)
qed

lemma sample_header_pages: "all_pages [sample_header] = 2"
  by (simp add: all_pages_def load_headers_def sample_header_def ElfSegmentType_Load_def seg_pages_def seg_hi_def seg_lo_def div_ceil_def SIZE_4KIB_def)

lemma loader_mmu_frames: "200 \<le> card (available_frames list_map_ops (mu_pm loader_mmu))"
proof -
  let ?F = "(\<lambda>i. 0x3000 + i * 0x1000) ` {..<200::nat}" and ?A = "available_frames list_map_ops (mu_pm loader_mmu)"
  have "frame_available list_map_ops (mu_pm loader_mmu) (0x3000 + i * 0x1000)" if "i < 200" for i
  proof -
    have "(0x3000 + i * 0x1000) mod 4096 = (0::nat)" by simp
    then show ?thesis using that unfolding frame_available_def loader_mmu_types SIZE_4KIB_def by auto
  qed
  then have s: "?F \<subseteq> ?A" by (auto simp: available_frames_def)
  have "f \<le> 0xFFFFF" if "frame_available list_map_ops (mu_pm loader_mmu) f" for f
  proof -
    have "type_at list_map_ops (mu_pm loader_mmu) f = Some Usable" using that unfolding frame_available_def by simp
    then show ?thesis unfolding loader_mmu_types by (simp split: if_splits)
  qed
  then have "?A \<subseteq> {..0xFFFFF}" by (auto simp: available_frames_def)
  then have f: "finite ?A" by (rule finite_subset) simp
  have "card ?F = 200" by (subst card_image) (auto simp: inj_on_def)
  then show ?thesis using card_mono [OF f s] by simp
qed

theorem load_program_image_witness:
  "\<exists>lp u'. load_program list_set_ops x86_arith_ops list_map_ops walk_mapper sample_parse HIGHER_HALF_START 0x1000 [1, 2, 3, 4, 5, 6, 7, 8] loader_mmu
       = Some (Inr lp, u') \<and> others_kept {0x2000} loader_mmu u' \<and> program_in_memory list_set_ops ivls_ok [1, 2, 3, 4, 5, 6, 7, 8] [sample_header] lp u'"
proof -
  let ?b = "[1, 2, 3, 4, 5, 6, 7, 8] :: 8 word list" and ?e = "\<lparr> eb_segments = Some [sample_header], eb_entry = 0x400010 \<rparr>"
  have kc: "frame_has list_map_ops (mu_pm loader_mmu) 0x1000 (UsedByKernel PageTables)" "UsedByKernel PageTables \<noteq> Usable"
    by (auto simp: frame_has_def loader_mmu_types in_frame_def SIZE_4KIB_def)
  have av: "frame_available list_map_ops (mu_pm loader_mmu) 0x3000" by (auto simp: frame_available_def loader_mmu_types SIZE_4KIB_def)
  have elf: "sample_parse ?b = Some ?e" "eb_segments ?e = Some [sample_header]" "eb_entry ?e \<noteq> 0" by (simp_all add: sample_parse_def)
  have fit: "segments_fit ?b [sample_header]" "length ?b < U64_LIMIT"
    by (simp_all add: segments_fit_def load_headers_def segment_fits_def sample_header_def stack_nums ElfSegmentType_Load_def U64_LIMIT_num)
  from load_program_image [where minimal_parse = sample_parse, OF list_user_memory.user_memory_axioms loader_mmu_ok kc av elf fit] obtain r u' where
    l: "load_program list_set_ops x86_arith_ops list_map_ops walk_mapper sample_parse HIGHER_HALF_START 0x1000 ?b loader_mmu = Some (r, u')"
      "others_kept {0x2000} loader_mmu u'"
      "case r of Inl err \<Rightarrow> err = OutOfMemory \<and> card (available_frames list_map_ops (mu_pm loader_mmu)) \<le> 1 + 4 * (all_pages [sample_header] + 16)
       | Inr lp \<Rightarrow> lp_entry lp = eb_entry ?e \<and> lp_rsp lp = USER_RSP \<and> lp_l4_frame lp \<notin> {0x2000} \<and>
           mmu_ok list_map_ops ivls_ok HIGHER_HALF_START {lp_l4_frame lp, 0x2000} u' \<and> program_in_memory list_set_ops ivls_ok ?b [sample_header] lp u'"
    by blast
  then show ?thesis using loader_mmu_frames by (cases r) (auto simp: sample_header_pages)
qed

text \<open>A program header makes the kernel panic, instead of failing the call, when the end of its file
  part overflows or when its address is not canonical; any task can ask for such a program.\<close>

theorem malformed_header_panics:
  assumes "x86_addr X" "p_type s = ElfSegmentType_Load"
    and "U64_LIMIT \<le> p_offset s + p_filesz s \<or> p_offset s + p_filesz s \<le> length elf_bytes \<and> \<not> canonical (p_vaddr s)"
  shows "load_segment S X N M hhdm l4 elf_bytes s vset u = panic"
  using assms x86_addr.virt_new_panic [OF assms(1), of "p_vaddr s"]
  by (auto simp: load_segment_def add_u64_def)

theorem malformed_header_panics_witness:
  "load_segment list_set_ops x86_arith_ops list_map_ops walk_mapper HIGHER_HALF_START 0x2000 [] (sample_header \<lparr> p_offset := u64_MAX \<rparr>) [] loader_mmu = panic"
  by (rule malformed_header_panics [OF x86_arith.x86_addr_axioms]) (simp_all add: sample_header_def ElfSegmentType_Load_def u64_MAX_num U64_LIMIT_num)

text \<open>A segment without file contents that does not start at a page is mapped one page short: the
  pages the loader counts end one page before the page that holds the segment's last byte ends.\<close>

theorem bss_segment_page_missing:
  assumes "p_filesz s = 0" "p_vaddr s mod SIZE_4KIB \<noteq> 0" "0 < p_memsz s" "p_vaddr s + p_memsz s \<le> STACK_START"
  shows "\<exists>m. file_pages s = Some 0 \<and> extra_pages s = Some m \<and> seg_lo s + m * SIZE_4KIB + SIZE_4KIB = seg_hi s \<and>
    seg_lo s + m * SIZE_4KIB < p_vaddr s + p_memsz s"
proof -
  let ?em = "div_ceil (p_vaddr s + p_memsz s) SIZE_4KIB" and ?ef = "div_ceil (p_vaddr s) SIZE_4KIB" and ?lo = "p_vaddr s div SIZE_4KIB"
  have ef: "?ef = ?lo + 1" using assms(2) by (simp add: div_ceil_def)
  have b: "p_vaddr s + p_memsz s \<le> ?em * SIZE_4KIB" "?em * SIZE_4KIB < p_vaddr s + p_memsz s + SIZE_4KIB"
    using div_ceil_bounds [OF SIZE_4KIB_pos, of "p_vaddr s + p_memsz s"] by simp_all
  have lo: "seg_lo s = ?lo * SIZE_4KIB" by (simp add: seg_lo_def minus_mod_eq_div_mult)
  have "?lo * SIZE_4KIB \<le> p_vaddr s" by simp
  then have "?lo * SIZE_4KIB < ?em * SIZE_4KIB" using b(1) assms(3) by linarith
  then have le: "?ef \<le> ?em" using ef by simp
  have "p_vaddr s + p_memsz s < U64_LIMIT" using assms(4) by (simp add: stack_nums U64_LIMIT_num)
  then have "extra_pages s = Some (?em - ?ef)" using le assms(1) by (simp add: extra_pages_def add_u64_def sub_u64_def)
  moreover have "seg_lo s + (?em - ?ef) * SIZE_4KIB + SIZE_4KIB = seg_hi s"
  proof -
    have "?lo + (?em - ?ef) + 1 = ?em" using le ef by simp
    then have "(?lo + (?em - ?ef) + 1) * SIZE_4KIB = ?em * SIZE_4KIB" by simp
    then show ?thesis unfolding lo seg_hi_def by (simp add: add_mult_distrib)
  qed
  moreover have "file_pages s = Some 0" using assms(1) by (simp add: file_pages_def)
  ultimately show ?thesis using b(2) unfolding seg_hi_def by (intro exI [of _ "?em - ?ef"]) simp
qed

theorem bss_segment_page_missing_witness:
  "\<exists>m. extra_pages (sample_header \<lparr> p_filesz := 0 \<rparr>) = Some m \<and> m = 1 \<and> seg_hi (sample_header \<lparr> p_filesz := 0 \<rparr>) = 0x402000"
proof -
  let ?s = "sample_header \<lparr> p_filesz := 0 \<rparr>"
  have h: "p_filesz ?s = 0" "p_vaddr ?s mod SIZE_4KIB \<noteq> 0" "0 < p_memsz ?s" "p_vaddr ?s + p_memsz ?s \<le> STACK_START"
    by (simp_all add: sample_header_def SIZE_4KIB_def stack_nums)
  have v: "seg_lo ?s = 0x400000" "seg_hi ?s = 0x402000" by (simp_all add: seg_lo_def seg_hi_def sample_header_def SIZE_4KIB_def div_ceil_def)
  from bss_segment_page_missing [OF h] v show ?thesis by (auto simp: SIZE_4KIB_def)
qed

end
