(* ===== verification/Kernel_Space.thy ===== *)
theory Kernel_Space
  imports Memory_Syscalls
begin

text \<open>
  Mappings of the kernel's own half of the address space. The kernel's root table is the one of
  the \<^verbatim>\<open>VirtualMemoryAllocator\<close>; its slots 256 to 510 hold the direct map of physical memory and
  the kernel stacks, and slot 511 is the image of the kernel, which is never edited.

  \<open>kernel_edit\<close> describes any number of new mappings in this half, \<open>frames_taken\<close> the frames they use.
  Both compose, so loops that map pages are described by their steps; and both leave the address
  spaces of user tasks as they are, because tables of the kernel and of user tasks differ in type.
\<close>

section \<open>The mapper of the kernel's tables\<close>

text \<open>\<^verbatim>\<open>VirtualMemoryAllocator::mapper\<close>.\<close>

definition kernel_mapper :: "x86_ops \<Rightarrow> nat \<Rightarrow> 's VirtualMemoryAllocator \<Rightarrow> nat rust" where
  "kernel_mapper X hhdm vm =
     do { offset \<leftarrow> virt_addr_new X hhdm;
          l4_virt \<leftarrow> add_u64 offset (vm_l4_phys_frame vm);
          _ \<leftarrow> virt_addr_new X l4_virt;
          Some (vm_l4_phys_frame vm) }"

section \<open>Addresses of the kernel\<close>

definition stack_slots :: "nat set" where
  "stack_slots = {256..<511}"

definition kernel_addr :: "nat \<Rightarrow> bool" where
  "kernel_addr a \<longleftrightarrow> HIGHER_HALF_START \<le> a \<and> a < KERNEL_RESERVED_START"

abbreviation kernel_type :: MemoryType where
  "kernel_type \<equiv> UsedByKernel PageTables"

definition kernel_tables :: "page_memory \<Rightarrow> nat \<Rightarrow> nat set" where
  "kernel_tables t root = tables stack_slots t 3 root"

lemma kernel_addr_num: "kernel_addr a \<longleftrightarrow> 0xFFFF800000000000 \<le> a \<and> a < 0xFFFFFF8000000000"
  by (simp add: kernel_addr_def HIGHER_HALF_START_def KERNEL_RESERVED_START_def)

lemma kernel_slot: "kernel_addr a \<Longrightarrow> page_index 3 a \<in> stack_slots"
proof -
  assume "kernel_addr a"
  then have "0xFFFF800000000000 \<le> a" "a < 0xFFFFFF8000000000" by (simp_all add: kernel_addr_num)
  then have "0x1FFFF00 \<le> a div 549755813888" "a div 549755813888 < 0x1FFFFFF" by linarith+
  then have d: "a div 549755813888 = 33554176 + (a div 549755813888 - 33554176)" "a div 549755813888 - 33554176 < 255" by linarith+
  define d where "d = a div 549755813888 - 33554176"
  note d = d [folded d_def]
  have "page_index 3 a = a div 549755813888 mod 512" by (simp add: page_index_def SIZE_4KIB_def div_mult2_eq [symmetric])
  then have "page_index 3 a = (33554176 + d) mod 512" by (simp only: d(1))
  also have "\<dots> = (65535 * 512 + (256 + d)) mod 512" by simp
  also have "\<dots> = 256 + d" using d(2) by (simp only: mod_mult_self3) simp
  finally show ?thesis using d(2) by (simp add: stack_slots_def)
qed

lemma kernel_low_in_frame:
  assumes "kernel_addr page" "page mod SIZE_4KIB = 0" "kernel_addr a"
  shows "page_low 3 a = page_low 3 page \<longleftrightarrow> in_frame page a"
proof -
  have l: "page_low 3 x = x div SIZE_4KIB - (2 ^ 52 - 2 ^ 36)" "2 ^ 52 - 2 ^ 36 \<le> x div SIZE_4KIB" if "kernel_addr x" for x
  proof -
    have "0xFFFF800000000000 \<le> x" "x < 0xFFFFFF8000000000" using that by (simp_all add: kernel_addr_num)
    then have d: "4503565267632128 \<le> x div SIZE_4KIB" "x div SIZE_4KIB < 4503599627370496" unfolding SIZE_4KIB_def by linarith+
    define y where "y = x div SIZE_4KIB - 65535 * 68719476736"
    have y: "x div SIZE_4KIB = 65535 * 68719476736 + y" "y < 68719476736" using d unfolding y_def by linarith+
    show "2 ^ 52 - 2 ^ 36 \<le> x div SIZE_4KIB" using y by simp
    have "page_low 3 x = x div SIZE_4KIB mod 68719476736" by (simp add: page_low_def)
    moreover have "(65535 * 68719476736 + y) mod 68719476736 = y" using y(2) by (simp only: mod_mult_self3 mod_less)
    ultimately show "page_low 3 x = x div SIZE_4KIB - (2 ^ 52 - 2 ^ 36)" by (simp only: y(1)) simp
  qed
  have "page_low 3 a = page_low 3 page \<longleftrightarrow> a div SIZE_4KIB = page div SIZE_4KIB"
    using l [OF assms(1)] l [OF assms(3)] by linarith
  also have "\<dots> \<longleftrightarrow> a div SIZE_4KIB * SIZE_4KIB = page div SIZE_4KIB * SIZE_4KIB" by (simp add: SIZE_4KIB_def)
  also have "page div SIZE_4KIB * SIZE_4KIB = page" using assms(2) by (metis add.right_neutral div_mult_mod_eq)
  finally show ?thesis using in_frame_div [OF assms(2)] by simp
qed


section \<open>Edits\<close>

text \<open>New translations: \<open>None\<close> leaves the one an address has.\<close>

type_synonym edit = "nat \<rightharpoonup> PageTableEntry option"

definition page_edit :: "nat \<Rightarrow> PageTableEntry option \<Rightarrow> edit" where
  "page_edit page e = (\<lambda>a. if in_frame page a then Some e else None)"

definition kernel_edit :: "nat \<Rightarrow> page_memory \<Rightarrow> edit \<Rightarrow> nat set \<Rightarrow> page_memory \<Rightarrow> bool" where
  "kernel_edit root t new G t' \<longleftrightarrow>
     tree stack_slots t' 3 root \<and> kernel_tables t' root = kernel_tables t root \<union> G \<and>
     (\<forall>g. g \<notin> kernel_tables t root \<union> G \<longrightarrow> t' g = t g) \<and> (\<forall>i. i \<notin> stack_slots \<longrightarrow> t' root i = t root i) \<and>
     (\<forall>a. kernel_addr a \<longrightarrow> translate t' root a = (case new a of None \<Rightarrow> translate t root a | Some e \<Rightarrow> e))"

definition frames_taken ::
    "('m, MemoryType) nodit_map_ops \<Rightarrow> ('m \<Rightarrow> bool) \<Rightarrow> 'm PhysicalMemory \<Rightarrow> nat set \<Rightarrow> 'm PhysicalMemory \<Rightarrow> bool" where
  "frames_taken N wfN pm F pm' \<longleftrightarrow>
     pm_ok N wfN pm' \<and> finite F \<and> (\<forall>f\<in>F. frame_has N pm f Usable) \<and> retyped_frames N pm F kernel_type pm' \<and>
     available_frames N pm' = available_frames N pm - F"

text \<open>The kernel's tables form a tree and are marked as the kernel's.\<close>

definition kernel_typed :: "('m, MemoryType) nodit_map_ops \<Rightarrow> 'm PhysicalMemory \<Rightarrow> page_memory \<Rightarrow> nat \<Rightarrow> bool" where
  "kernel_typed N pm t root \<longleftrightarrow> tree stack_slots t 3 root \<and> (\<forall>f\<in>kernel_tables t root. frame_has N pm f kernel_type)"

lemma kernel_edit_refl: "tree stack_slots t 3 root \<Longrightarrow> kernel_edit root t (\<lambda>_. None) {} t"
  by (simp add: kernel_edit_def)

lemma kernel_edit_trans:
  assumes "kernel_edit root t new1 G1 t1" "kernel_edit root t1 new2 G2 t2"
  shows "kernel_edit root t (new1 ++ new2) (G1 \<union> G2) t2"
proof -
  have k: "kernel_tables t2 root = kernel_tables t root \<union> (G1 \<union> G2)" "tree stack_slots t2 3 root" "\<forall>i. i \<notin> stack_slots \<longrightarrow> t2 root i = t root i"
    using assms by (simp_all add: kernel_edit_def Un_assoc)
  have "t2 g = t g" if "g \<notin> kernel_tables t root \<union> (G1 \<union> G2)" for g using assms that by (simp add: kernel_edit_def)
  moreover have "translate t2 root a = (case (new1 ++ new2) a of None \<Rightarrow> translate t root a | Some e \<Rightarrow> e)" if "kernel_addr a" for a
    using assms that by (cases "new2 a") (simp_all add: kernel_edit_def map_add_def)
  ultimately show ?thesis using k by (simp add: kernel_edit_def)
qed

lemma effect_kernel_edit:
  assumes "map_effect stack_slots 3 root page e t t' G" "kernel_addr page" "page mod SIZE_4KIB = 0"
  shows "kernel_edit root t (page_edit page e) G t'"
proof -
  have "translate t' root a = (case page_edit page e a of None \<Rightarrow> translate t root a | Some e \<Rightarrow> e)" if "kernel_addr a" for a
    using effect_translate [OF assms(1) kernel_slot [OF that]] kernel_low_in_frame [OF assms(2,3) that] by (simp add: page_edit_def)
  then show ?thesis using assms(1) by (auto simp: map_effect_def kernel_edit_def kernel_tables_def slots_def)
qed

lemma frames_taken_refl: "pm_ok N wfN pm \<Longrightarrow> frames_taken N wfN pm {} pm"
  by (simp add: frames_taken_def)

lemma frames_taken_aligned: "frames_taken N wfN pm F pm' \<Longrightarrow> f \<in> F \<Longrightarrow> f mod SIZE_4KIB = 0"
  unfolding frames_taken_def using frame_has_aligned by blast

lemma frames_taken_has:
  "frames_taken N wfN pm F pm' \<Longrightarrow> frame_has N pm' g ty \<longleftrightarrow> (if g \<in> F then ty = kernel_type else frame_has N pm g ty)"
  using retyped_has [of N pm F kernel_type pm' g ty] frames_taken_aligned [of N wfN pm F pm'] unfolding frames_taken_def by metis

lemma frames_taken_trans:
  assumes "frames_taken N wfN pm F pm1" "frames_taken N wfN pm1 G pm2"
  shows "frames_taken N wfN pm (F \<union> G) pm2" "F \<inter> G = {}"
proof -
  have g: "g \<notin> F \<and> frame_has N pm g Usable" if "g \<in> G" for g
    using assms(2) that frames_taken_has [OF assms(1), of g Usable] by (auto simp: frames_taken_def split: if_splits)
  then show "F \<inter> G = {}" by blast
  show "frames_taken N wfN pm (F \<union> G) pm2"
    using assms g retyped_frames_Un [of N pm F kernel_type pm1 G pm2] unfolding frames_taken_def by auto
qed

lemma frames_taken_card:
  assumes "frames_taken N wfN pm F pm'" "F \<subseteq> available_frames N pm" "n + card F \<le> card (available_frames N pm)"
  shows "n \<le> card (available_frames N pm')"
  using assms card_Diff_subset [of F "available_frames N pm"] by (simp add: frames_taken_def)

lemma kernel_typed_edit:
  assumes "kernel_typed N pm t root" "kernel_edit root t new G t'" "frames_taken N wfN pm F pm'" "G \<subseteq> F"
  shows "kernel_typed N pm' t' root"
proof -
  have "frame_has N pm' f kernel_type" if "f \<in> kernel_tables t root \<union> G" for f
    using that assms(1,4) frames_taken_has [OF assms(3), of f kernel_type] by (auto simp: kernel_typed_def split: if_splits)
  then show ?thesis using assms(2) by (simp add: kernel_typed_def kernel_edit_def)
qed

section \<open>User tasks are not affected\<close>

lemma spaces_kept:
  assumes ok: "spaces_ok N roots pm t" and t: "\<forall>r\<in>roots. \<forall>g\<in>user_tables t r. t' g = t g"
    and ty: "\<And>g ty. ty = UsedByUserMode \<or> ty = SharedBuffer \<Longrightarrow> frame_has N pm' g ty \<longleftrightarrow> frame_has N pm g ty"
  shows "spaces_ok N roots pm' t'" "\<forall>r\<in>roots. \<forall>a<USER_LIMIT. translate t' r a = translate t r a"
proof -
  have f: "\<forall>g\<in>tables user_slots t 3 r. t' g = t g" if "r \<in> roots" for r using t that by (simp add: user_tables_def)
  have T: "user_tables t' r = user_tables t r" "tree user_slots t' 3 r \<longleftrightarrow> tree user_slots t 3 r" if "r \<in> roots" for r
    using tables_frame [OF f [OF that]] tree_frame [OF f [OF that]] by (simp_all add: user_tables_def)
  show W: "\<forall>r\<in>roots. \<forall>a<USER_LIMIT. translate t' r a = translate t r a"
    using walk_frame [OF f] user_limit_slot by (simp add: translate_def slots_def)
  have M: "mapped roots t' r a e \<longleftrightarrow> mapped roots t r a e" for r a e using W by (auto simp: mapped_def)
  have U: "user_typed N pm' g \<longleftrightarrow> user_typed N pm g" "frame_has N pm' g UsedByUserMode \<longleftrightarrow> frame_has N pm g UsedByUserMode" for g
    using ty by (simp_all add: user_typed_def)
  show "spaces_ok N roots pm' t'" unfolding spaces_ok_def M U
  proof (intro conjI)
    show "\<forall>r\<in>roots. tree user_slots t' 3 r" using T(2) spaces_tree [OF ok] by blast
    show "\<forall>r\<in>roots. \<forall>r'\<in>roots. r \<noteq> r' \<longrightarrow> user_tables t' r \<inter> user_tables t' r' = {}"
      using T(1) ok unfolding spaces_ok_def by metis
    show "\<forall>r\<in>roots. \<forall>f\<in>user_tables t' r. frame_has N pm f UsedByUserMode" using T(1) spaces_tables [OF ok] by metis
    show "\<forall>r a e. mapped roots t r a e \<longrightarrow> user_typed N pm (pe_addr e) \<and> (\<forall>r'\<in>roots. pe_addr e \<notin> user_tables t' r')"
      using T(1) spaces_mapped [OF ok] by metis
    show "\<forall>r a e r' a' e'. mapped roots t r a e \<longrightarrow> mapped roots t r' a' e' \<longrightarrow> pe_addr e = pe_addr e' \<longrightarrow>
        frame_has N pm (pe_addr e) UsedByUserMode \<longrightarrow> r = r' \<and> page_low 3 a = page_low 3 a'"
      using spaces_private [OF ok] by blast
  qed
qed

lemma kernel_edit_users:
  assumes ok: "mmu_ok N wfN hhdm roots u" and kt: "kernel_typed N (mu_pm u) (mu_tables u) root"
    and ed: "kernel_edit root (mu_tables u) new G t'" and G: "\<forall>g\<in>G. frame_has N (mu_pm u) g Usable"
    and F: "\<forall>f\<in>F. frame_has N (mu_pm u) f ty1" "retyped_frames N (mu_pm u) F ty2 pm'" "pm_ok N wfN pm'"
    and nu: "{ty1, ty2} \<inter> {UsedByUserMode, SharedBuffer} = {}"
  shows "mmu_ok N wfN hhdm roots (u \<lparr> mu_pm := pm', mu_tables := t' \<rparr>)"
    "\<forall>r\<in>roots. \<forall>a<USER_LIMIT. translate t' r a = translate (mu_tables u) r a"
proof -
  have sp: "spaces_ok N roots (mu_pm u) (mu_tables u)" using ok by (simp add: mmu_ok_def)
  have ne: "t' g = mu_tables u g" if "r \<in> roots" "g \<in> user_tables (mu_tables u) r" for r g
  proof -
    have "frame_has N (mu_pm u) g UsedByUserMode" using spaces_tables [OF sp that] .
    then have "g \<notin> kernel_tables (mu_tables u) root \<union> G" using kt G frame_has_unique unfolding kernel_typed_def by blast
    then show ?thesis using ed by (simp add: kernel_edit_def)
  qed
  have al: "\<forall>f\<in>F. f mod SIZE_4KIB = 0" using F(1) frame_has_aligned by blast
  have ty: "frame_has N pm' g ty \<longleftrightarrow> frame_has N (mu_pm u) g ty" if "ty = UsedByUserMode \<or> ty = SharedBuffer" for g ty
  proof (cases "g \<in> F")
    case True
    then have "\<not> frame_has N (mu_pm u) g ty" using that nu F(1) frame_has_unique [of N "mu_pm u" g ty1 ty] by auto
    then show ?thesis using retyped_has [OF F(2) al, of g ty] True that nu by auto
  qed (use retyped_has [OF F(2) al, of g ty] in simp)
  have sp': "spaces_ok N roots pm' t'" and tr: "\<forall>r\<in>roots. \<forall>a<USER_LIMIT. translate t' r a = translate (mu_tables u) r a"
    using spaces_kept [OF sp _ ty] ne by blast+
  have dm: "type_at N pm' a \<noteq> None \<longleftrightarrow> type_at N (mu_pm u) a \<noteq> None" for a
    using F(1,2) unfolding retyped_frames_def frame_has_def by (metis option.distinct(1))
  show "mmu_ok N wfN hhdm roots (u \<lparr> mu_pm := pm', mu_tables := t' \<rparr>)"
    using ok F(3) sp' dm by (simp add: mmu_ok_def hhdm_fits_def)
  show "\<forall>r\<in>roots. \<forall>a<USER_LIMIT. translate t' r a = translate (mu_tables u) r a" by (rule tr)
qed

section \<open>Mapping one page\<close>

context user_mappings
begin

lemma kernel_alloc_safe:
  assumes "pm_ok N wfN (fa_physical_memory fa)" "fa_memory_type fa = kernel_type" "\<forall>f\<in>U. frame_has N (fa_physical_memory fa) f kernel_type"
  shows "alloc_safe (allocate_frame_4kib X N) U fa"
  unfolding alloc_safe_def
proof (intro allI impI)
  fix fs fa' assume "alloc_run (allocate_frame_4kib X N) fa fs fa'"
  from alloc_run_frames [OF this assms(1)] assms(2)
  have f: "pm_ok N wfN (fa_physical_memory fa')" "distinct fs" "\<forall>f\<in>set fs. frame_has N (fa_physical_memory fa) f Usable" by simp_all
  from f(1) have "allocate_frame_4kib X N fa' \<noteq> panic"
    using allocate_frame_spec [of "fa_physical_memory fa'" "fa_memory_type fa'"] by (auto simp: allocate_frame_4kib_def)
  moreover have "set fs \<inter> U = {}" using assms(3) f(3) frame_has_unique by fastforce
  ultimately show "allocate_frame_4kib X N fa' \<noteq> panic \<and> distinct fs \<and> set fs \<inter> U = {}" using f(2) by blast
qed

lemma alloc_run_available:
  "alloc_run (allocate_frame_4kib X N) fa fs fa' \<Longrightarrow> pm_ok N wfN (fa_physical_memory fa) \<Longrightarrow> fa_memory_type fa \<noteq> Usable \<Longrightarrow>
   set fs \<subseteq> available_frames N (fa_physical_memory fa)"
proof (induction rule: alloc_run.induct)
  case (frame p f p1 fs p2)
  let ?pm = "fa_physical_memory p" and ?t = "fa_memory_type p"
  have a: "frame_available N ?pm f" "\<forall>g. frame_available N ?pm g \<longrightarrow> f \<le> g" "pm_ok N wfN (fa_physical_memory p1)"
      "retyped N ?pm f ?t (fa_physical_memory p1)" "fa_memory_type p1 = ?t"
    using frame(1) allocate_frame_spec [OF frame(4), of ?t] by (auto simp: allocate_frame_4kib_def)
  show ?case using frame.IH a(3,5) frame(5) available_after_alloc [OF a(1,2,4) frame(5)] a(1) by (auto simp: available_frames_def)
next
  case (exhausted p p1 fs p2)
  then show ?case using allocate_frame_spec [OF exhausted(4), of "fa_memory_type p"] by (auto simp: allocate_frame_4kib_def)
qed simp

lemma kernel_map_ok:
  assumes kt: "kernel_typed N (fa_physical_memory fa) t root" and fa: "pm_ok N wfN (fa_physical_memory fa)" "fa_memory_type fa = kernel_type"
    and page: "kernel_addr page" "page mod SIZE_4KIB = 0" and frame: "frame mod SIZE_4KIB = 0" "frame < PHYS_LIMIT"
    and fl: "pf_present fl" "\<not> pf_huge_page fl"
  obtains r t' fa' G where "map_to M (allocate_frame_4kib X N) root page frame fl t fa = Some (r, t', fa')" "fa_memory_type fa' = kernel_type"
    "frames_taken N wfN (fa_physical_memory fa) G (fa_physical_memory fa')" "card G \<le> 3" "G \<subseteq> available_frames N (fa_physical_memory fa)"
    "card G + walk_depth t 3 root page \<le> 3"
    "case r of
       Inr _ \<Rightarrow> translate t root page = None \<and> kernel_edit root t (page_edit page (Some \<lparr> pe_addr = frame, pe_flags = fl \<rparr>)) G t'
     | Inl _ \<Rightarrow> translate t root page = None \<longrightarrow> (\<forall>g. \<not> frame_available N (fa_physical_memory fa') g)"
proof -
  let ?al = "allocate_frame_4kib X N" and ?pm = "fa_physical_memory fa" and ?e = "\<lparr> pe_addr = frame, pe_flags = fl \<rparr>"
  have tr: "tree stack_slots t 3 root" and tb: "\<forall>f\<in>tables stack_slots t 3 root. frame_has N ?pm f kernel_type"
    using kt by (simp_all add: kernel_typed_def kernel_tables_def)
  obtain r t' fa' fsl where m: "map_to M ?al root page frame fl t fa = Some (r, t', fa')" "map_outcome stack_slots 3 root page ?e ?al t fa fsl r t' fa'"
    using map_to_spec [OF tr kernel_slot [OF page(1)] page(2) frame fl kernel_alloc_safe [OF fa tb]] by blast
  have run: "alloc_run ?al fa fsl fa'" using m(2) by (simp add: map_outcome_def)
  note R = alloc_run_frames [OF run fa(1)]
  have tk: "frames_taken N wfN ?pm (set fsl) (fa_physical_memory fa')" "fa_memory_type fa' = kernel_type"
    using R fa(2) by (simp_all add: frames_taken_def)
  have d: "card (set fsl) + walk_depth t 3 root page \<le> 3" using m(2) card_length [of fsl] by (simp add: map_outcome_def)
  then have c: "card (set fsl) \<le> 3" by simp
  have av: "set fsl \<subseteq> available_frames N ?pm" using alloc_run_available [OF run fa(1)] fa(2) by simp
  have "\<forall>g. \<not> frame_available N (fa_physical_memory fa') g" if h: "r = Inl err" "translate t root page = None" for err
  proof -
    obtain fa0 where f0: "alloc_run ?al fa fsl fa0" "?al fa0 = Some (None, fa')" using m(2) h by (auto simp: map_outcome_def translate_def)
    have "pm_ok N wfN (fa_physical_memory fa0)" using alloc_run_frames [OF f0(1) fa(1)] fa(2) by simp
    from allocate_frame_spec [OF this, of "fa_memory_type fa0"] f0(2) show ?thesis by (auto simp: allocate_frame_4kib_def)
  qed
  moreover have "translate t root page = None \<and> kernel_edit root t (page_edit page (Some ?e)) (set fsl) t'" if "r = Inr x" for x
    using m(2) that effect_kernel_edit [OF _ page] by (auto simp: map_outcome_def translate_def)
  ultimately show ?thesis using m(1) tk c d av by (intro that [of r t' fa' "set fsl"]) (auto split: sum.splits)
qed

lemma kernel_unmap_ok:
  assumes kt: "kernel_typed N (mu_pm u) (mu_tables u) root" and pm: "pm_ok N wfN (mu_pm u)"
    and page: "kernel_addr page" "page mod SIZE_4KIB = 0"
    and e: "translate (mu_tables u) root page = Some e" "frame_has N (mu_pm u) (pe_addr e) kernel_type" "pe_addr e \<notin> kernel_tables (mu_tables u) root"
  obtains pm' t' where "unmap_page N M (Some kernel_type) root page u = Some (u \<lparr> mu_pm := pm', mu_tables := t' \<rparr>)" "pm_ok N wfN pm'"
    "retyped_frames N (mu_pm u) {pe_addr e} Usable pm'" "kernel_edit root (mu_tables u) (page_edit page None) {} t'" "kernel_typed N pm' t' root"
proof -
  let ?t = "mu_tables u" and ?pm = "mu_pm u" and ?f = "pe_addr e"
  have tr: "tree stack_slots ?t 3 root" using kt by (simp add: kernel_typed_def)
  obtain t' where un: "unmap M root page ?t = (Inr ?f, t')" and eff: "map_effect stack_slots 3 root page None ?t t' {}"
    using unmap_spec [OF tr kernel_slot [OF page(1)] page(2)] e(1) by auto
  have ed: "kernel_edit root ?t (page_edit page None) {} t'" by (rule effect_kernel_edit [OF eff page])
  have "?f + SIZE_4KIB \<le> PHYS_LIMIT" using frame_has_bound [OF pm e(2)] by simp
  then obtain pm' where p: "free_frame N ?pm ?f kernel_type = Some (Inr (), pm')" "pm_ok N wfN pm'" "retyped N ?pm ?f Usable pm'"
    using free_frame_spec(1) [OF pm] e(2) unfolding frame_has_def by blast
  have re: "retyped_frames N ?pm {?f} Usable pm'" using p(3) by (simp add: retyped_one)
  have "frame_has N pm' g kernel_type" if "g \<in> kernel_tables ?t root" for g
    using retyped_has [OF re, of g kernel_type] frame_has_aligned [OF e(2)] that kt e(3) by (auto simp: kernel_typed_def)
  then have "kernel_typed N pm' t' root" using ed by (simp add: kernel_typed_def kernel_edit_def)
  then show ?thesis using p un re ed by (intro that [of t' pm']) (simp_all add: unmap_page_def)
qed

end

end
