(* ===== verification/Kernel_Stacks.thy ===== *)
theory Kernel_Stacks
  imports Kernel_Space
begin

text \<open>
  The guarded stacks of \<^verbatim>\<open>memory/guarded_stack.rs\<close>, which tasks run on inside the kernel: a
  range of kernel pages whose first page is never mapped, so that a stack that overflows faults
  instead of overwriting other memory.
\<close>

section \<open>Data\<close>

definition NORMAL_STACK_SIZE :: nat where
  "NORMAL_STACK_SIZE = 256 * 0x400"

definition EXCEPTION_HANDLER_STACK_SIZE :: nat where
  "EXCEPTION_HANDLER_STACK_SIZE = 64 * 0x400"

datatype StackType = Normal | ExceptionHandler | SyscallHandler

record StackId =
  stack_type :: StackType
  stack_cpu_id :: nat

record StackInfo =
  stack_info_id :: StackId
  stack_info_size :: nat

text \<open>The kernel with \<^verbatim>\<open>STACK_GUARD_PAGES\<close>.\<close>

record ('s, 'm) Stk = "('s, 'm) Mem" +
  k_stack_guard_pages :: "nat \<rightharpoonup> StackInfo"

section \<open>Operations\<close>

definition stack_page_flags :: PageTableFlags where
  "stack_page_flags = no_flags \<lparr> pf_present := True, pf_writable := True \<rparr>"

primrec map_stack_pages ::
    "x86_ops \<Rightarrow> ('m, MemoryType) nodit_map_ops \<Rightarrow> 'm PhysicalMemoryFrameAllocator mapper_ops \<Rightarrow> nat \<Rightarrow> nat \<Rightarrow> nat list \<Rightarrow>
     page_memory \<times> 'm PhysicalMemoryFrameAllocator \<Rightarrow> (page_memory \<times> 'm PhysicalMemoryFrameAllocator) rust" where
  "map_stack_pages X N M root start_page [] st = Some st"
| "map_stack_pages X N M root start_page (i # is) st =
     do { page \<leftarrow> page_of_range X start_page i;
          (f, fa) \<leftarrow> allocate_frame_4kib X N (snd st);
          frame \<leftarrow> unwrap f;
          (r, t, fa') \<leftarrow> map_to M (allocate_frame_4kib X N) root page frame stack_page_flags (fst st) fa;
          assert_that (\<not> isl r);
          map_stack_pages X N M root start_page is (t, fa') }"

definition allocate_stack ::
    "'s nodit_set_ops \<Rightarrow> x86_ops \<Rightarrow> ('m, MemoryType) nodit_map_ops \<Rightarrow> 'm PhysicalMemoryFrameAllocator mapper_ops \<Rightarrow>
     nat \<Rightarrow> StackId \<Rightarrow> ('s, 'm, 'z) Stk_scheme \<Rightarrow> (GuardedStack \<times> ('s, 'm, 'z) Stk_scheme) rust" where
  "allocate_stack S X N M sz stack_id k =
     do { let n_mapped_pages = div_ceil sz SIZE_4KIB;
          n_virtual_pages \<leftarrow> add_u64 n_mapped_pages 1;
          (allocated_pages, vm) \<leftarrow> allocate_kernel_contiguous_pages X S (k_virtual_memory k) n_virtual_pages;
          guard_page \<leftarrow> unwrap allocated_pages;
          start_page \<leftarrow> page_of_range X guard_page 1;
          root \<leftarrow> kernel_mapper X (k_hhdm k) vm;
          (t, fa) \<leftarrow> map_stack_pages X N M root start_page [0..<n_mapped_pages]
                      (mu_tables (k_mmu k), get_kernel_frame_allocator (mu_pm (k_mmu k)));
          b \<leftarrow> mul_u64 n_mapped_pages SIZE_4KIB;
          a \<leftarrow> add_u64 start_page b;
          top \<leftarrow> virt_addr_new X a;
          Some (\<lparr> gs_top = top, gs_guard_page = guard_page, gs_n_virtual_pages = n_virtual_pages \<rparr>,
            k \<lparr> k_virtual_memory := vm, k_mmu := (k_mmu k) \<lparr> mu_pm := fa_physical_memory fa, mu_tables := t \<rparr>,
                k_stack_guard_pages := (k_stack_guard_pages k)(guard_page \<mapsto> \<lparr> stack_info_id = stack_id, stack_info_size = sz \<rparr>) \<rparr>) }"

text \<open>\<^verbatim>\<open>GuardedStack::drop\<close>. Page 0 of the range is the guard page and is skipped.\<close>

definition unmap_stack_pages ::
    "x86_ops \<Rightarrow> ('m, MemoryType) nodit_map_ops \<Rightarrow> 'm PhysicalMemoryFrameAllocator mapper_ops \<Rightarrow> nat \<Rightarrow> nat \<Rightarrow> nat list \<Rightarrow>
     'm Mmu \<Rightarrow> 'm Mmu rust" where
  "unmap_stack_pages X N M root guard_page =
     fold_rust (\<lambda>i u. do { page \<leftarrow> page_of_range X guard_page i; unmap_page N M (Some (UsedByKernel PageTables)) root page u })"

definition GuardedStack_drop ::
    "'s nodit_set_ops \<Rightarrow> x86_ops \<Rightarrow> ('m, MemoryType) nodit_map_ops \<Rightarrow> 'm PhysicalMemoryFrameAllocator mapper_ops \<Rightarrow>
     GuardedStack \<Rightarrow> ('s, 'm, 'z) Stk_scheme \<Rightarrow> ('s, 'm, 'z) Stk_scheme rust" where
  "GuardedStack_drop S X N M stack k =
     do { root \<leftarrow> kernel_mapper X (k_hhdm k) (k_virtual_memory k);
          u \<leftarrow> unmap_stack_pages X N M root (gs_guard_page stack) [1..<gs_n_virtual_pages stack] (k_mmu k);
          assert_that (gs_n_virtual_pages stack \<noteq> 0);
          vm \<leftarrow> free_kernel_pages S (k_virtual_memory k) (gs_guard_page stack) (gs_n_virtual_pages stack);
          Some (k \<lparr> k_mmu := u, k_virtual_memory := vm, k_stack_guard_pages := (k_stack_guard_pages k)(gs_guard_page stack := None) \<rparr>) }"

section \<open>Well-formed kernel memory and stacks\<close>

text \<open>The kernel's tables are well formed, and every mapped kernel page lies in an allocated range.\<close>

definition kernel_ok ::
    "'s nodit_set_ops \<Rightarrow> ('s \<Rightarrow> bool) \<Rightarrow> ('m, MemoryType) nodit_map_ops \<Rightarrow> ('s, 'm, 'z) Mem_scheme \<Rightarrow> bool" where
  "kernel_ok S wfS N k \<longleftrightarrow>
     vm_ok S wfS (k_virtual_memory k) \<and>
     kernel_typed N (mu_pm (k_mmu k)) (mu_tables (k_mmu k)) (vm_l4_phys_frame (k_virtual_memory k)) \<and>
     (\<forall>a. kernel_addr a \<longrightarrow> translate (mu_tables (k_mmu k)) (vm_l4_phys_frame (k_virtual_memory k)) a \<noteq> None \<longrightarrow>
        covered (ns_iter S (vm_set (k_virtual_memory k))) a)"

text \<open>The stack occupies the frames \<open>fs\<close>, which are its own, below an unmapped guard page.\<close>

definition stack_at :: "('m, MemoryType) nodit_map_ops \<Rightarrow> 'm Mmu \<Rightarrow> nat \<Rightarrow> GuardedStack \<Rightarrow> nat list \<Rightarrow> bool" where
  "stack_at N u root stack fs \<longleftrightarrow>
     gs_guard_page stack mod SIZE_4KIB = 0 \<and> HIGHER_HALF_START \<le> gs_guard_page stack \<and>
     gs_n_virtual_pages stack = length fs + 1 \<and> gs_top stack = gs_guard_page stack + (length fs + 1) * SIZE_4KIB \<and>
     gs_top stack \<le> KERNEL_RESERVED_START \<and>
     (\<forall>a. in_frame (gs_guard_page stack) a \<longrightarrow> translate (mu_tables u) root a = None) \<and>
     (\<forall>a. gs_guard_page stack + SIZE_4KIB \<le> a \<and> a < gs_top stack \<longrightarrow>
        translate (mu_tables u) root a =
          Some \<lparr> pe_addr = fs ! ((a - (gs_guard_page stack + SIZE_4KIB)) div SIZE_4KIB), pe_flags = stack_page_flags \<rparr>) \<and>
     distinct fs \<and> (\<forall>f\<in>set fs. frame_has N (mu_pm u) f kernel_type \<and> f \<notin> kernel_tables (mu_tables u) root)"

text \<open>Room for a stack of \<open>n\<close> pages: a free range for it and its guard page, and five frames for each
  page, one for the page and at most three for tables above it.\<close>

definition stack_room :: "'s nodit_set_ops \<Rightarrow> ('m, MemoryType) nodit_map_ops \<Rightarrow> nat \<Rightarrow> ('s, 'm, 'z) Mem_scheme \<Rightarrow> bool" where
  "stack_room S N n k \<longleftrightarrow> (n + 1) * SIZE_4KIB \<le> LOWER_HALF_END div 512 \<and> 5 * n \<le> card (available_frames N (mu_pm (k_mmu k))) \<and>
     (\<exists>a. a mod SIZE_4KIB = 0 \<and> HIGHER_HALF_START \<le> a \<and> a + (n + 1) * SIZE_4KIB - 1 \<le> u64_MAX \<and>
        space_free S (vm_set (k_virtual_memory k)) a ((n + 1) * SIZE_4KIB))"

text \<open>A new stack takes a free range of the kernel's space, and frames that were free for its pages
  and for the tables \<open>G\<close>; other kernel pages and the memory of user tasks stay as they were.\<close>

definition new_stack ::
    "'s nodit_set_ops \<Rightarrow> ('m, MemoryType) nodit_map_ops \<Rightarrow> nat set \<Rightarrow> GuardedStack \<Rightarrow> nat list \<Rightarrow> nat set \<Rightarrow>
     ('s, 'm, 'z) Stk_scheme \<Rightarrow> ('s, 'm, 'z) Stk_scheme \<Rightarrow> bool" where
  "new_stack S N roots stack fs G k k' \<longleftrightarrow>
     space_free S (vm_set (k_virtual_memory k)) (gs_guard_page stack) (gs_n_virtual_pages stack * SIZE_4KIB) \<and>
     space_added S (vm_set (k_virtual_memory k)) (gs_guard_page stack) (gs_n_virtual_pages stack * SIZE_4KIB) (vm_set (k_virtual_memory k')) \<and>
     vm_l4_phys_frame (k_virtual_memory k') = vm_l4_phys_frame (k_virtual_memory k) \<and>
     (\<forall>f\<in>set fs \<union> G. frame_has N (mu_pm (k_mmu k)) f Usable) \<and> set fs \<inter> G = {} \<and>
     retyped_frames N (mu_pm (k_mmu k)) (set fs \<union> G) kernel_type (mu_pm (k_mmu k')) \<and>
     kernel_tables (mu_tables (k_mmu k')) (vm_l4_phys_frame (k_virtual_memory k)) =
       kernel_tables (mu_tables (k_mmu k)) (vm_l4_phys_frame (k_virtual_memory k)) \<union> G \<and>
     (\<forall>a. kernel_addr a \<longrightarrow> \<not> (gs_guard_page stack + SIZE_4KIB \<le> a \<and> a < gs_top stack) \<longrightarrow>
        translate (mu_tables (k_mmu k')) (vm_l4_phys_frame (k_virtual_memory k')) a =
        translate (mu_tables (k_mmu k)) (vm_l4_phys_frame (k_virtual_memory k)) a) \<and>
     (\<forall>r\<in>roots. \<forall>a<USER_LIMIT. translate (mu_tables (k_mmu k')) r a = translate (mu_tables (k_mmu k)) r a \<and>
        user_byte (k_mmu k') r a = user_byte (k_mmu k) r a)"

text \<open>Dropping a stack unmaps its pages, frees its frames and gives its range back.\<close>

definition stack_dropped ::
    "'s nodit_set_ops \<Rightarrow> ('m, MemoryType) nodit_map_ops \<Rightarrow> nat set \<Rightarrow> GuardedStack \<Rightarrow> nat list \<Rightarrow> ('s, 'm, 'z) Stk_scheme \<Rightarrow>
     ('s, 'm, 'z) Stk_scheme \<Rightarrow> bool" where
  "stack_dropped S N roots stack fs k k' \<longleftrightarrow>
     space_removed S (vm_set (k_virtual_memory k)) (gs_guard_page stack) (gs_n_virtual_pages stack * SIZE_4KIB) (vm_set (k_virtual_memory k')) \<and>
     vm_l4_phys_frame (k_virtual_memory k') = vm_l4_phys_frame (k_virtual_memory k) \<and>
     retyped_frames N (mu_pm (k_mmu k)) (set fs) Usable (mu_pm (k_mmu k')) \<and>
     kernel_tables (mu_tables (k_mmu k')) (vm_l4_phys_frame (k_virtual_memory k)) =
       kernel_tables (mu_tables (k_mmu k)) (vm_l4_phys_frame (k_virtual_memory k)) \<and>
     (\<forall>a. kernel_addr a \<longrightarrow> translate (mu_tables (k_mmu k')) (vm_l4_phys_frame (k_virtual_memory k)) a =
        (if gs_guard_page stack \<le> a \<and> a < gs_top stack then None
         else translate (mu_tables (k_mmu k)) (vm_l4_phys_frame (k_virtual_memory k)) a)) \<and>
     (\<forall>r\<in>roots. \<forall>a<USER_LIMIT. translate (mu_tables (k_mmu k')) r a = translate (mu_tables (k_mmu k)) r a \<and>
        user_byte (k_mmu k') r a = user_byte (k_mmu k) r a)"

definition run_edit :: "nat \<Rightarrow> nat list \<Rightarrow> edit" where
  "run_edit start fs = (\<lambda>a. if start \<le> a \<and> a < start + length fs * SIZE_4KIB
     then Some (Some \<lparr> pe_addr = fs ! ((a - start) div SIZE_4KIB), pe_flags = stack_page_flags \<rparr>) else None)"

definition clear_edit :: "nat \<Rightarrow> nat \<Rightarrow> edit" where
  "clear_edit start n = (\<lambda>a. if start \<le> a \<and> a < start + n * SIZE_4KIB then Some None else None)"

lemma run_edit_snoc: "run_edit start fs ++ page_edit (start + length fs * SIZE_4KIB) (Some \<lparr> pe_addr = f, pe_flags = stack_page_flags \<rparr>) = run_edit start (fs @ [f])"
proof (rule ext)
  fix a
  have "(a - start) div SIZE_4KIB = length fs" if "start + length fs * SIZE_4KIB \<le> a" "a < start + length fs * SIZE_4KIB + SIZE_4KIB"
    using that by (intro div_nat_eqI) (simp_all add: algebra_simps)
  moreover have "(a - start) div SIZE_4KIB < length fs" if "start \<le> a" "a < start + length fs * SIZE_4KIB"
    using that by (simp add: less_mult_imp_div_less)
  ultimately show "(run_edit start fs ++ page_edit (start + length fs * SIZE_4KIB) (Some \<lparr> pe_addr = f, pe_flags = stack_page_flags \<rparr>)) a = run_edit start (fs @ [f]) a"
    by (auto simp: run_edit_def page_edit_def map_add_def in_frame_def nth_append)
qed

lemma clear_edit_Suc: "clear_edit start n ++ page_edit (start + n * SIZE_4KIB) None = clear_edit start (Suc n)"
  by (auto simp: fun_eq_iff clear_edit_def page_edit_def map_add_def in_frame_def)

lemma kernel_range: "HIGHER_HALF_START \<le> start \<Longrightarrow> start + n * SIZE_4KIB \<le> KERNEL_RESERVED_START \<Longrightarrow> i < n \<Longrightarrow> kernel_addr (start + i * SIZE_4KIB)"
proof -
  assume h: "HIGHER_HALF_START \<le> start" "start + n * SIZE_4KIB \<le> KERNEL_RESERVED_START" "i < n"
  have "Suc i * SIZE_4KIB \<le> n * SIZE_4KIB" using h(3) by (intro mult_le_mono1) simp
  then show ?thesis using h(1,2) by (simp add: kernel_addr_def SIZE_4KIB_def)
qed

lemma map_stack_pages_append:
  "map_stack_pages X N M root start (xs @ ys) st = do { st' \<leftarrow> map_stack_pages X N M root start xs st; map_stack_pages X N M root start ys st' }"
proof (induction xs arbitrary: st)
  case (Cons i xs)
  then show ?case by (simp add: split_def)
qed simp

context user_memory
begin

lemma kernel_page_of_range:
  assumes "start mod SIZE_4KIB = 0" "kernel_addr (start + i * SIZE_4KIB)"
  shows "page_of_range X start i = Some (start + i * SIZE_4KIB)"
proof -
  have l: "start + i * SIZE_4KIB < U64_LIMIT" "canonical (start + i * SIZE_4KIB)"
    using assms(2) by (simp_all add: kernel_addr_num U64_LIMIT_num canonical_num)
  then have "i * SIZE_4KIB < U64_LIMIT" by linarith
  moreover have "(start + i * SIZE_4KIB) mod SIZE_4KIB = 0" using assms(1) by simp
  ultimately show ?thesis using l by (simp add: page_of_range_def mul_u64_def add_u64_def virt_new page_containing)
qed

lemma kernel_mapper_ok:
  assumes "kernel_typed N pm t (vm_l4_phys_frame vm)" "hhdm_fits N hhdm pm"
  shows "kernel_mapper X hhdm vm = Some (vm_l4_phys_frame vm)"
proof -
  have "frame_has N pm (vm_l4_phys_frame vm) kernel_type" using assms(1) by (simp add: kernel_typed_def kernel_tables_def)
  from frame_has_type_at [OF this] assms(2) have h: "hhdm + vm_l4_phys_frame vm < U64_LIMIT" "HIGHER_HALF_START \<le> hhdm"
    by (auto simp: hhdm_fits_def)
  then have "canonical hhdm" "canonical (hhdm + vm_l4_phys_frame vm)" by (simp_all add: canonical_num HIGHER_HALF_START_def)
  then show ?thesis using h by (simp add: kernel_mapper_def virt_new add_u64_def)
qed

lemma take_frame:
  assumes "pm_ok N wfN (fa_physical_memory fa)" "fa_memory_type fa = kernel_type" "available_frames N (fa_physical_memory fa) \<noteq> {}"
  obtains f fa' where "allocate_frame_4kib X N fa = Some (Some f, fa')" "fa_memory_type fa' = kernel_type" "f \<in> available_frames N (fa_physical_memory fa)"
    "frames_taken N wfN (fa_physical_memory fa) {f} (fa_physical_memory fa')"
proof -
  let ?pm = "fa_physical_memory fa"
  obtain f pm' where a: "allocate_frame_with_type X N ?pm kernel_type = Some (Some f, pm')" "frame_available N ?pm f"
      "\<forall>g. frame_available N ?pm g \<longrightarrow> f \<le> g" "pm_ok N wfN pm'" "retyped N ?pm f kernel_type pm'"
    using allocate_frame_spec [OF assms(1), of kernel_type] assms(3) by (auto simp: available_frames_def)
  have "frames_taken N wfN ?pm {f} pm'"
    using a available_has [OF a(2)] available_after_alloc [OF a(2,3,5)] by (simp add: frames_taken_def retyped_one)
  then show ?thesis using a assms(2) by (intro that [of f "fa \<lparr> fa_physical_memory := pm' \<rparr>"])
      (simp_all add: allocate_frame_4kib_def available_frames_def)
qed

lemma map_stack_pages_ok:
  assumes kt: "kernel_typed N (fa_physical_memory fa) t root" and fa: "pm_ok N wfN (fa_physical_memory fa)" "fa_memory_type fa = kernel_type"
    and start: "start mod SIZE_4KIB = 0" "HIGHER_HALF_START \<le> start" "start + n * SIZE_4KIB \<le> KERNEL_RESERVED_START"
    and free: "\<forall>a. start \<le> a \<and> a < start + n * SIZE_4KIB \<longrightarrow> translate t root a = None"
    and room: "5 * n \<le> card (available_frames N (fa_physical_memory fa))"
  shows "\<exists>t' fa' fs G. map_stack_pages X N M root start [0..<n] (t, fa) = Some (t', fa') \<and> fa_memory_type fa' = kernel_type \<and>
    length fs = n \<and> distinct fs \<and> set fs \<inter> G = {} \<and> card (set fs \<union> G) \<le> 4 * n \<and>
    set fs \<union> G \<subseteq> available_frames N (fa_physical_memory fa) \<and>
    frames_taken N wfN (fa_physical_memory fa) (set fs \<union> G) (fa_physical_memory fa') \<and> kernel_edit root t (run_edit start fs) G t'"
  using start(3) free room
proof (induction n)
  case 0
  have "run_edit start [] = (\<lambda>_. None)" by (auto simp: run_edit_def fun_eq_iff)
  then show ?case using kt fa frames_taken_refl [of N wfN] kernel_edit_refl [of t root]
    by (intro exI [of _ t] exI [of _ fa] exI [of _ "[]"] exI [of _ "{}"]) (simp add: kernel_typed_def)
next
  case (Suc n)
  let ?pm = "fa_physical_memory fa" and ?p = "start + n * SIZE_4KIB"
  have "start + n * SIZE_4KIB \<le> KERNEL_RESERVED_START" "5 * n \<le> card (available_frames N ?pm)"
      "\<forall>a. start \<le> a \<and> a < start + n * SIZE_4KIB \<longrightarrow> translate t root a = None" using Suc.prems by simp_all
  from Suc.IH [OF this(1,3,2)] obtain t1 fa1 fs G where
    1: "map_stack_pages X N M root start [0..<n] (t, fa) = Some (t1, fa1)" "fa_memory_type fa1 = kernel_type" "length fs = n" "distinct fs"
      "set fs \<inter> G = {}" "card (set fs \<union> G) \<le> 4 * n" "set fs \<union> G \<subseteq> available_frames N ?pm"
      "frames_taken N wfN ?pm (set fs \<union> G) (fa_physical_memory fa1)" "kernel_edit root t (run_edit start fs) G t1" by blast
  let ?pm1 = "fa_physical_memory fa1"
  have ok1: "pm_ok N wfN ?pm1" and kt1: "kernel_typed N ?pm1 t1 root"
    using 1(8) kernel_typed_edit [OF kt 1(9,8)] by (simp_all add: frames_taken_def)
  have c1: "5 \<le> card (available_frames N ?pm1)" using frames_taken_card [OF 1(8,7), of 5] Suc.prems(3) 1(6) by simp
  then have ne: "available_frames N ?pm1 \<noteq> {}" by auto
  obtain f fa2 where
    2: "allocate_frame_4kib X N fa1 = Some (Some f, fa2)" "fa_memory_type fa2 = kernel_type" "f \<in> available_frames N ?pm1"
      "frames_taken N wfN ?pm1 {f} (fa_physical_memory fa2)"
    using take_frame [OF ok1 1(2) ne] by blast
  let ?pm2 = "fa_physical_memory fa2"
  have ok2: "pm_ok N wfN ?pm2" and kt2: "kernel_typed N ?pm2 t1 root"
    using 2(4) kernel_typed_edit [OF kt1 kernel_edit_refl 2(4)] kt1 by (simp_all add: frames_taken_def kernel_typed_def)
  have c2: "4 \<le> card (available_frames N ?pm2)" using frames_taken_card [OF 2(4), of 4] 2(3) c1 by simp
  have page: "kernel_addr ?p" "?p mod SIZE_4KIB = 0" using kernel_range [OF start(2) Suc.prems(1), of n] start(1) by simp_all
  have fr: "f mod SIZE_4KIB = 0" "f < PHYS_LIMIT"
    using 2(3) available_has [of N ?pm1 f] frame_has_aligned [of N ?pm1 f] frame_has_bound [OF ok1] by (auto simp: available_frames_def)
  have fl: "pf_present stack_page_flags" "\<not> pf_huge_page stack_page_flags" by (simp_all add: stack_page_flags_def no_flags_def)
  obtain r t3 fa3 H where
    3: "map_to M (allocate_frame_4kib X N) root ?p f stack_page_flags t1 fa2 = Some (r, t3, fa3)" "fa_memory_type fa3 = kernel_type"
      "frames_taken N wfN ?pm2 H (fa_physical_memory fa3)" "card H \<le> 3" "H \<subseteq> available_frames N ?pm2"
      "card H + walk_depth t1 3 root ?p \<le> 3" "case r of Inr _ \<Rightarrow> translate t1 root ?p = None \<and> kernel_edit root t1 (page_edit ?p (Some \<lparr> pe_addr = f, pe_flags = stack_page_flags \<rparr>)) H t3
       | Inl _ \<Rightarrow> translate t1 root ?p = None \<longrightarrow> (\<forall>g. \<not> frame_available N (fa_physical_memory fa3) g)"
    by (rule kernel_map_ok [OF kt2 ok2 2(2) page fr fl])
  have "translate t root ?p = None" using Suc.prems(2) by simp
  moreover have "run_edit start fs ?p = None" using 1(3) by (simp add: run_edit_def)
  ultimately have "translate t1 root ?p = None" using 1(9) page(1) by (simp add: kernel_edit_def)
  moreover have "1 \<le> card (available_frames N (fa_physical_memory fa3))" using frames_taken_card [OF 3(3,5), of 1] c2 3(4) by simp
  then have "available_frames N (fa_physical_memory fa3) \<noteq> {}" by (metis card.empty not_one_le_zero)
  ultimately have r: "\<not> isl r" "kernel_edit root t1 (page_edit ?p (Some \<lparr> pe_addr = f, pe_flags = stack_page_flags \<rparr>)) H t3"
    using 3(7) by (auto simp: available_frames_def split: sum.splits)
  have tk: "frames_taken N wfN ?pm (set fs \<union> G \<union> ({f} \<union> H)) (fa_physical_memory fa3)" "(set fs \<union> G) \<inter> ({f} \<union> H) = {}" "{f} \<inter> H = {}"
    using frames_taken_trans [OF 1(8) frames_taken_trans(1) [OF 2(4) 3(3)]] frames_taken_trans(2) [OF 2(4) 3(3)] by blast+
  have ed: "kernel_edit root t (run_edit start (fs @ [f])) (G \<union> H) t3"
    using kernel_edit_trans [OF 1(9) r(2)] run_edit_snoc [of start fs f] 1(3) by simp
  have run: "map_stack_pages X N M root start [0..<Suc n] (t, fa) = Some (t3, fa3)"
    using 1(1) 2(1) 3(1) r(1) kernel_page_of_range [OF start(1) page(1)] by (simp add: map_stack_pages_append)
  have s: "set (fs @ [f]) \<union> (G \<union> H) = set fs \<union> G \<union> ({f} \<union> H)" by auto
  have "card (set fs \<union> G \<union> ({f} \<union> H)) \<le> card (set fs \<union> G) + (1 + card H)"
    using card_Un_le [of "set fs \<union> G" "{f} \<union> H"] card_Un_le [of "{f}" H] by simp
  then have c: "card (set (fs @ [f]) \<union> (G \<union> H)) \<le> 4 * Suc n" unfolding s using 1(6) 3(4) by simp
  have "available_frames N ?pm1 \<subseteq> available_frames N ?pm" "available_frames N ?pm2 \<subseteq> available_frames N ?pm1"
    using 1(8) 2(4) by (auto simp: frames_taken_def)
  then have sub: "set (fs @ [f]) \<union> (G \<union> H) \<subseteq> available_frames N ?pm" using 1(7) 2(3) 3(5) by auto
  have d: "length (fs @ [f]) = Suc n" "distinct (fs @ [f])" "set (fs @ [f]) \<inter> (G \<union> H) = {}" using 1(3,4,5) tk(2,3) by auto
  show ?case using run 3(2) d c sub tk(1) [folded s] ed by blast
qed

lemma allocate_stack_ok:
  assumes ok: "mmu_ok N wfN (k_hhdm k) roots (k_mmu k)" "kernel_ok S wfS N k" and room: "stack_room S N (div_ceil sz SIZE_4KIB) k"
  obtains stack vm pm t fs G where
    "allocate_stack S X N M sz stack_id k = Some (stack, k \<lparr> k_virtual_memory := vm, k_mmu := (k_mmu k) \<lparr> mu_pm := pm, mu_tables := t \<rparr>,
       k_stack_guard_pages := (k_stack_guard_pages k)(gs_guard_page stack \<mapsto> \<lparr> stack_info_id = stack_id, stack_info_size = sz \<rparr>) \<rparr>)"
    "stack_at N ((k_mmu k) \<lparr> mu_pm := pm, mu_tables := t \<rparr>) (vm_l4_phys_frame (k_virtual_memory k)) stack fs" "length fs = div_ceil sz SIZE_4KIB"
    "vm_ok S wfS vm" "vm_l4_phys_frame vm = vm_l4_phys_frame (k_virtual_memory k)"
    "space_free S (vm_set (k_virtual_memory k)) (gs_guard_page stack) (gs_n_virtual_pages stack * SIZE_4KIB)"
    "space_added S (vm_set (k_virtual_memory k)) (gs_guard_page stack) (gs_n_virtual_pages stack * SIZE_4KIB) (vm_set vm)"
    "frames_taken N wfN (mu_pm (k_mmu k)) (set fs \<union> G) pm" "set fs \<inter> G = {}" "kernel_typed N pm t (vm_l4_phys_frame (k_virtual_memory k))"
    "kernel_edit (vm_l4_phys_frame (k_virtual_memory k)) (mu_tables (k_mmu k)) (run_edit (gs_guard_page stack + SIZE_4KIB) fs) G t"
proof -
  let ?n = "div_ceil sz SIZE_4KIB" and ?vm = "k_virtual_memory k" and ?pm = "mu_pm (k_mmu k)" and ?t = "mu_tables (k_mmu k)"
  let ?root = "vm_l4_phys_frame ?vm" and ?b = "(?n + 1) * SIZE_4KIB"
  have v: "vm_ok S wfS ?vm" and kt: "kernel_typed N ?pm ?t ?root"
    and cov: "\<And>a. kernel_addr a \<Longrightarrow> translate ?t ?root a \<noteq> None \<Longrightarrow> covered (ns_iter S (vm_set ?vm)) a"
    using ok(2) by (auto simp: kernel_ok_def)
  have pm: "pm_ok N wfN ?pm" and hf: "hhdm_fits N (k_hhdm k) ?pm" using ok(1) by (simp_all add: mmu_ok_def)
  have rm: "?b \<le> LOWER_HALF_END div 512" "5 * ?n \<le> card (available_frames N ?pm)" using room by (simp_all add: stack_room_def)
  obtain g vm where a: "allocate_kernel_contiguous_pages X S ?vm (?n + 1) = Some (Some g, vm)" "g mod SIZE_4KIB = 0" "HIGHER_HALF_START \<le> g"
      "g + ?b \<le> KERNEL_RESERVED_START" "space_free S (vm_set ?vm) g ?b" "vm_ok S wfS vm" "vm_l4_phys_frame vm = ?root"
      "space_added S (vm_set ?vm) g ?b (vm_set vm)"
    using sp.allocate_kernel_pages_spec [OF v _ rm(1)] room unfolding stack_room_def by auto
  let ?s = "g + SIZE_4KIB"
  have s: "?s mod SIZE_4KIB = 0" "HIGHER_HALF_START \<le> ?s" "?s + ?n * SIZE_4KIB \<le> KERNEL_RESERVED_START" using a(2,3,4) by simp_all
  have un: "translate ?t ?root x = None" if "g \<le> x" "x < g + ?b" for x
    using cov [of x] a(3,4,5) that unfolding space_free_def kernel_addr_def by force
  have b: "?s + ?n * SIZE_4KIB = g + ?b" by simp
  have free: "\<forall>x. ?s \<le> x \<and> x < ?s + ?n * SIZE_4KIB \<longrightarrow> translate ?t ?root x = None" unfolding b using un by simp
  let ?fa = "get_kernel_frame_allocator ?pm"
  have fa: "fa_physical_memory ?fa = ?pm" "fa_memory_type ?fa = kernel_type" by (simp_all add: get_kernel_frame_allocator_def)
  obtain t fa' fs G where
    m: "map_stack_pages X N M ?root ?s [0..<?n] (?t, ?fa) = Some (t, fa')" "length fs = ?n" "distinct fs" "set fs \<inter> G = {}"
      "frames_taken N wfN ?pm (set fs \<union> G) (fa_physical_memory fa')" "kernel_edit ?root ?t (run_edit ?s fs) G t"
    using map_stack_pages_ok [of ?fa, unfolded fa(1), OF kt pm fa(2) s free rm(2)] by blast
  let ?pm' = "fa_physical_memory fa'" and ?stack = "\<lparr> gs_top = g + ?b, gs_guard_page = g, gs_n_virtual_pages = ?n + 1 \<rparr>"
  have lim: "?n + 1 < U64_LIMIT" "?n * SIZE_4KIB < U64_LIMIT" "g + ?b < U64_LIMIT" "canonical (g + ?b)"
    using rm(1) a(3,4) by (simp_all add: LOWER_HALF_END_def U64_LIMIT_num SIZE_4KIB_def KERNEL_RESERVED_START_def HIGHER_HALF_START_def canonical_num)
  have "SIZE_4KIB \<le> ?b" by simp
  then have g1: "page_of_range X g 1 = Some ?s" if "?n \<noteq> 0" using kernel_page_of_range [OF a(2), of 1] kernel_range [OF a(3,4), of 1] that by simp
  have g0: "page_of_range X g 1 = Some ?s" if "?n = 0"
  proof -
    have "canonical ?s" "?s < U64_LIMIT" using lim(3,4) that by simp_all
    then show ?thesis using a(2) by (simp add: page_of_range_def mul_u64_def add_u64_def virt_new page_containing SIZE_4KIB_def U64_LIMIT_num)
  qed
  have kt': "kernel_typed N ?pm' t ?root" using kernel_typed_edit [OF kt m(6,5)] by simp
  have ops: "add_u64 ?n 1 = Some (?n + 1)" "page_of_range X g 1 = Some ?s" "kernel_mapper X (k_hhdm k) vm = Some ?root"
      "mul_u64 ?n SIZE_4KIB = Some (?n * SIZE_4KIB)" "add_u64 ?s (?n * SIZE_4KIB) = Some (g + ?b)" "virt_addr_new X (g + ?b) = Some (g + ?b)"
    using lim g0 g1 b kernel_mapper_ok [of ?pm ?t vm "k_hhdm k", unfolded a(7), OF kt hf] virt_new [OF lim(4)]
    by (auto simp: add_u64_def mul_u64_def)
  have run: "allocate_stack S X N M sz stack_id k = Some (?stack, k \<lparr> k_virtual_memory := vm,
      k_mmu := (k_mmu k) \<lparr> mu_pm := ?pm', mu_tables := t \<rparr>,
      k_stack_guard_pages := (k_stack_guard_pages k)(g \<mapsto> \<lparr> stack_info_id = stack_id, stack_info_size = sz \<rparr>) \<rparr>)"
    using a(1) m(1) by (simp add: allocate_stack_def Let_def ops del: One_nat_def)
  have st: "stack_at N ((k_mmu k) \<lparr> mu_pm := ?pm', mu_tables := t \<rparr>) ?root ?stack fs"
  proof -
    have tr: "translate t ?root x = (case run_edit ?s fs x of None \<Rightarrow> translate ?t ?root x | Some e \<Rightarrow> e)" if "g \<le> x" "x < g + ?b" for x
      using m(6) that a(3,4) by (simp add: kernel_edit_def kernel_addr_def)
    have 1: "translate t ?root x = None" if "in_frame g x" for x
      using tr [of x] un [of x] that by (simp add: in_frame_def run_edit_def)
    have 2: "translate t ?root x = Some \<lparr> pe_addr = fs ! ((x - ?s) div SIZE_4KIB), pe_flags = stack_page_flags \<rparr>" if "?s \<le> x" "x < g + ?b" for x
      using tr [of x] that m(2) by (simp add: run_edit_def)
    have 3: "frame_has N ?pm' f kernel_type \<and> f \<notin> kernel_tables t ?root" if "f \<in> set fs" for f
    proof -
      have "frame_has N ?pm f Usable" using m(5) that by (simp add: frames_taken_def)
      then have "f \<notin> kernel_tables ?t ?root" using kt frame_has_unique unfolding kernel_typed_def by blast
      then show ?thesis using frames_taken_has [OF m(5), of f kernel_type] that m(4,6) by (auto simp: kernel_edit_def)
    qed
    show ?thesis unfolding stack_at_def using 1 2 3 a(2,3,4) m(2,3) by simp
  qed
  show ?thesis by (rule that [of ?stack t ?pm' vm fs G, OF _ _ m(2) a(6,7) _ _ m(5,4) kt']) (use run st a(5,8) m(6) in simp_all)
qed

lemma unmap_stack_pages_ok:
  assumes kt: "kernel_typed N (mu_pm u) (mu_tables u) root" and pm: "pm_ok N wfN (mu_pm u)" and st: "stack_at N u root stack fs"
  shows "j \<le> length fs \<Longrightarrow> \<exists>pm t. unmap_stack_pages X N M root (gs_guard_page stack) [1..<j + 1] u = Some (u \<lparr> mu_pm := pm, mu_tables := t \<rparr>) \<and>
    pm_ok N wfN pm \<and> retyped_frames N (mu_pm u) (set (take j fs)) Usable pm \<and> kernel_typed N pm t root \<and>
    kernel_edit root (mu_tables u) (clear_edit (gs_guard_page stack + SIZE_4KIB) j) {} t"
proof (induction j)
  case 0
  have "clear_edit (gs_guard_page stack + SIZE_4KIB) 0 = (\<lambda>_. None)" by (auto simp: clear_edit_def fun_eq_iff)
  then show ?case using kt pm kernel_edit_refl [of "mu_tables u" root]
    by (intro exI [of _ "mu_pm u"] exI [of _ "mu_tables u"]) (simp add: unmap_stack_pages_def kernel_typed_def)
next
  case (Suc j)
  let ?g = "gs_guard_page stack" and ?t = "mu_tables u" and ?pm = "mu_pm u"
  have sg: "?g mod SIZE_4KIB = 0" "HIGHER_HALF_START \<le> ?g" "gs_top stack = ?g + (length fs + 1) * SIZE_4KIB" "gs_top stack \<le> KERNEL_RESERVED_START"
    and tr: "\<And>a. ?g + SIZE_4KIB \<le> a \<Longrightarrow> a < gs_top stack \<Longrightarrow>
       translate ?t root a = Some \<lparr> pe_addr = fs ! ((a - (?g + SIZE_4KIB)) div SIZE_4KIB), pe_flags = stack_page_flags \<rparr>"
    and fs: "distinct fs" "\<And>f. f \<in> set fs \<Longrightarrow> frame_has N ?pm f kernel_type \<and> f \<notin> kernel_tables ?t root"
    using st by (simp_all add: stack_at_def)
  obtain pm1 t1 where
    1: "unmap_stack_pages X N M root ?g [1..<j + 1] u = Some (u \<lparr> mu_pm := pm1, mu_tables := t1 \<rparr>)" "pm_ok N wfN pm1"
      "retyped_frames N ?pm (set (take j fs)) Usable pm1" "kernel_typed N pm1 t1 root" "kernel_edit root ?t (clear_edit (?g + SIZE_4KIB) j) {} t1"
    using Suc by auto
  let ?u1 = "u \<lparr> mu_pm := pm1, mu_tables := t1 \<rparr>" and ?p = "?g + (j + 1) * SIZE_4KIB" and ?f = "fs ! j"
  have j: "j < length fs" using Suc.prems by simp
  have page: "kernel_addr ?p" "?p mod SIZE_4KIB = 0"
    using kernel_range [OF sg(2) sg(4) [unfolded sg(3)], of "j + 1"] j sg(1) mod_mult_self1 [of ?g "j + 1" SIZE_4KIB] by simp_all
  have "?g + SIZE_4KIB \<le> ?p" "?p < gs_top stack" unfolding sg(3) using j by simp_all
  from tr [OF this] have "translate ?t root ?p = Some \<lparr> pe_addr = ?f, pe_flags = stack_page_flags \<rparr>" by simp
  then have e: "translate t1 root ?p = Some \<lparr> pe_addr = ?f, pe_flags = stack_page_flags \<rparr>"
    using 1(5) page(1) by (simp add: kernel_edit_def clear_edit_def)
  have nj: "?f \<notin> set (take j fs)" using fs(1) j by (auto simp: in_set_conv_nth nth_eq_iff_index_eq)
  have al: "\<forall>f\<in>set (take j fs). f mod SIZE_4KIB = 0" using fs(2) frame_has_aligned in_set_takeD by metis
  have fh: "frame_has N pm1 ?f kernel_type" using retyped_has [OF 1(3) al, of ?f kernel_type] nj fs(2) [of ?f] j by simp
  have nt: "?f \<notin> kernel_tables t1 root" using 1(5) fs(2) [of ?f] j by (simp add: kernel_edit_def)
  have u1: "mu_pm ?u1 = pm1" "mu_tables ?u1 = t1" by simp_all
  obtain pm2 t2 where
    2: "unmap_page N M (Some kernel_type) root ?p ?u1 = Some (?u1 \<lparr> mu_pm := pm2, mu_tables := t2 \<rparr>)" "pm_ok N wfN pm2"
      "retyped_frames N pm1 {?f} Usable pm2" "kernel_edit root t1 (page_edit ?p None) {} t2" "kernel_typed N pm2 t2 root"
    using kernel_unmap_ok [of ?u1 root ?p "\<lparr> pe_addr = ?f, pe_flags = stack_page_flags \<rparr>", unfolded u1 PageTableEntry.select_convs,
        OF 1(4,2) page e fh nt] by blast
  have run: "unmap_stack_pages X N M root ?g [1..<Suc j + 1] u = Some (u \<lparr> mu_pm := pm2, mu_tables := t2 \<rparr>)"
    using 1(1) 2(1) kernel_page_of_range [OF sg(1) page(1)] by (simp add: unmap_stack_pages_def fold_rust_append)
  have "set (take (Suc j) fs) = set (take j fs) \<union> {?f}" using j by (simp add: take_Suc_conv_app_nth)
  then have re: "retyped_frames N ?pm (set (take (Suc j) fs)) Usable pm2" using retyped_frames_Un [OF 1(3) 2(3)] by simp
  have q: "?g + SIZE_4KIB + j * SIZE_4KIB = ?p" by simp
  have ed: "kernel_edit root ?t (clear_edit (?g + SIZE_4KIB) (Suc j)) {} t2"
    using kernel_edit_trans [OF 1(5) 2(4)] unfolding clear_edit_Suc [of "?g + SIZE_4KIB" j, unfolded q] Un_empty_left .
  show ?case using run 2(2,5) re ed by blast
qed

lemma free_kernel_pages_ok:
  assumes "vm_ok S wfS vm" "0 < n" "start + n * SIZE_4KIB \<le> KERNEL_RESERVED_START"
  obtains vm' where "free_kernel_pages S vm start n = Some vm'" "vm_ok S wfS vm'" "vm_l4_phys_frame vm' = vm_l4_phys_frame vm"
    "space_removed S (vm_set vm) start (n * SIZE_4KIB) (vm_set vm')"
proof -
  let ?b = "n * SIZE_4KIB"
  have b: "0 < ?b" "start + ?b < U64_LIMIT" using assms(2,3) by (simp_all add: KERNEL_RESERVED_START_def U64_LIMIT_num)
  have w: "wfS (vm_set vm)" using assms(1) by (simp add: vm_ok_def)
  obtain s where s: "ns_cut S (vm_set vm) (start, start + ?b - 1) = Some s" "wfS s" and r: "space_removed S (vm_set vm) start ?b s"
    using sp.cut_pages [OF w b(1), of start] b(2) by auto
  have "mul_u64 n SIZE_4KIB = Some ?b" "add_u64 start ?b = Some (start + ?b)" "sub_u64 (start + ?b) 1 = Some (start + ?b - 1)"
    using b unfolding mul_u64_def add_u64_def sub_u64_def by (simp_all; linarith)+
  moreover have "ns_ii S start (start + ?b - 1) = Some (start, start + ?b - 1)" using b(1) by (intro sp.ii_spec) linarith
  ultimately have "free_kernel_pages S vm start n = Some (vm \<lparr> vm_set := s \<rparr>)"
    using s(1) by (simp add: free_kernel_pages_def del: One_nat_def)
  moreover have "vm_ok S wfS (vm \<lparr> vm_set := s \<rparr>)" using assms(1,3) s(2) r by (auto simp: vm_ok_def space_removed_def)
  ultimately show ?thesis using r by (intro that [of "vm \<lparr> vm_set := s \<rparr>"]) simp_all
qed

lemma GuardedStack_drop_ok:
  assumes ok: "mmu_ok N wfN (k_hhdm k) roots (k_mmu k)" "kernel_ok S wfS N k"
    and st: "stack_at N (k_mmu k) (vm_l4_phys_frame (k_virtual_memory k)) stack fs"
  obtains vm pm t where
    "GuardedStack_drop S X N M stack k = Some (k \<lparr> k_mmu := (k_mmu k) \<lparr> mu_pm := pm, mu_tables := t \<rparr>, k_virtual_memory := vm,
       k_stack_guard_pages := (k_stack_guard_pages k)(gs_guard_page stack := None) \<rparr>)"
    "pm_ok N wfN pm" "retyped_frames N (mu_pm (k_mmu k)) (set fs) Usable pm" "vm_ok S wfS vm" "vm_l4_phys_frame vm = vm_l4_phys_frame (k_virtual_memory k)"
    "space_removed S (vm_set (k_virtual_memory k)) (gs_guard_page stack) (gs_n_virtual_pages stack * SIZE_4KIB) (vm_set vm)"
    "kernel_typed N pm t (vm_l4_phys_frame (k_virtual_memory k))"
    "kernel_edit (vm_l4_phys_frame (k_virtual_memory k)) (mu_tables (k_mmu k)) (clear_edit (gs_guard_page stack + SIZE_4KIB) (length fs)) {} t"
proof -
  let ?vm = "k_virtual_memory k" and ?pm = "mu_pm (k_mmu k)" and ?t = "mu_tables (k_mmu k)" and ?g = "gs_guard_page stack"
  have v: "vm_ok S wfS ?vm" and kt: "kernel_typed N ?pm ?t (vm_l4_phys_frame ?vm)" using ok(2) by (simp_all add: kernel_ok_def)
  have pm: "pm_ok N wfN ?pm" and hf: "hhdm_fits N (k_hhdm k) ?pm" using ok(1) by (simp_all add: mmu_ok_def)
  have n: "gs_n_virtual_pages stack = length fs + 1" "?g + gs_n_virtual_pages stack * SIZE_4KIB \<le> KERNEL_RESERVED_START" "0 < gs_n_virtual_pages stack"
    using st by (simp_all add: stack_at_def)
  obtain pm' t where
    1: "unmap_stack_pages X N M (vm_l4_phys_frame ?vm) ?g [1..<gs_n_virtual_pages stack] (k_mmu k) = Some ((k_mmu k) \<lparr> mu_pm := pm', mu_tables := t \<rparr>)"
      "pm_ok N wfN pm'" "retyped_frames N ?pm (set fs) Usable pm'" "kernel_typed N pm' t (vm_l4_phys_frame ?vm)"
      "kernel_edit (vm_l4_phys_frame ?vm) ?t (clear_edit (?g + SIZE_4KIB) (length fs)) {} t"
    using unmap_stack_pages_ok [OF kt pm st, of "length fs"] n(1) by auto
  obtain vm where 2: "free_kernel_pages S ?vm ?g (gs_n_virtual_pages stack) = Some vm" "vm_ok S wfS vm" "vm_l4_phys_frame vm = vm_l4_phys_frame ?vm"
      "space_removed S (vm_set ?vm) ?g (gs_n_virtual_pages stack * SIZE_4KIB) (vm_set vm)"
    using free_kernel_pages_ok [OF v n(3,2)] by blast
  have "GuardedStack_drop S X N M stack k = Some (k \<lparr> k_mmu := (k_mmu k) \<lparr> mu_pm := pm', mu_tables := t \<rparr>, k_virtual_memory := vm,
       k_stack_guard_pages := (k_stack_guard_pages k)(?g := None) \<rparr>)"
    using 1(1) 2(1) n(3) kernel_mapper_ok [OF kt hf] by (simp add: GuardedStack_drop_def del: One_nat_def)
  then show ?thesis using 1(2-5) 2(2-4) by (intro that)
qed

lemma new_stack_ok:
  assumes ok: "mmu_ok N wfN (k_hhdm k) roots (k_mmu k)" "kernel_ok S wfS N k" and room: "stack_room S N (div_ceil sz SIZE_4KIB) k"
  shows "\<exists>stack k' fs G. allocate_stack S X N M sz stack_id k = Some (stack, k') \<and> length fs = div_ceil sz SIZE_4KIB \<and>
    stack_at N (k_mmu k') (vm_l4_phys_frame (k_virtual_memory k')) stack fs \<and> kernel_ok S wfS N k' \<and> new_stack S N roots stack fs G k k' \<and>
    mmu_ok N wfN (k_hhdm k') roots (k_mmu k')"
proof -
  let ?vm = "k_virtual_memory k" and ?pm = "mu_pm (k_mmu k)" and ?t = "mu_tables (k_mmu k)"
  let ?root = "vm_l4_phys_frame ?vm"
  obtain stack vm pm t fs G where
    a: "allocate_stack S X N M sz stack_id k = Some (stack, k \<lparr> k_virtual_memory := vm, k_mmu := (k_mmu k) \<lparr> mu_pm := pm, mu_tables := t \<rparr>,
       k_stack_guard_pages := (k_stack_guard_pages k)(gs_guard_page stack \<mapsto> \<lparr> stack_info_id = stack_id, stack_info_size = sz \<rparr>) \<rparr>)"
      "stack_at N ((k_mmu k) \<lparr> mu_pm := pm, mu_tables := t \<rparr>) ?root stack fs" "length fs = div_ceil sz SIZE_4KIB"
      "vm_ok S wfS vm" "vm_l4_phys_frame vm = ?root"
      "space_free S (vm_set ?vm) (gs_guard_page stack) (gs_n_virtual_pages stack * SIZE_4KIB)"
      "space_added S (vm_set ?vm) (gs_guard_page stack) (gs_n_virtual_pages stack * SIZE_4KIB) (vm_set vm)"
      "frames_taken N wfN ?pm (set fs \<union> G) pm" "set fs \<inter> G = {}" "kernel_typed N pm t ?root"
      "kernel_edit ?root ?t (run_edit (gs_guard_page stack + SIZE_4KIB) fs) G t"
    by (rule allocate_stack_ok [OF ok room]) (rule that)
  let ?k' = "k \<lparr> k_virtual_memory := vm, k_mmu := (k_mmu k) \<lparr> mu_pm := pm, mu_tables := t \<rparr>,
       k_stack_guard_pages := (k_stack_guard_pages k)(gs_guard_page stack \<mapsto> \<lparr> stack_info_id = stack_id, stack_info_size = sz \<rparr>) \<rparr>"
  have kt: "kernel_typed N ?pm ?t ?root" using ok(2) by (simp add: kernel_ok_def)
  have top: "gs_guard_page stack + gs_n_virtual_pages stack * SIZE_4KIB = gs_top stack"
      "gs_guard_page stack + SIZE_4KIB + length fs * SIZE_4KIB = gs_top stack" using a(2) by (simp_all add: stack_at_def)
  have tr: "translate t ?root x = translate ?t ?root x" if "kernel_addr x" "\<not> (gs_guard_page stack + SIZE_4KIB \<le> x \<and> x < gs_top stack)" for x
    using a(11) that unfolding kernel_edit_def run_edit_def top(2) by auto
  have "covered (ns_iter S (vm_set vm)) x" if "kernel_addr x" "translate t ?root x \<noteq> None" for x
  proof (cases "gs_guard_page stack + SIZE_4KIB \<le> x \<and> x < gs_top stack")
    case True
    then show ?thesis using a(7) unfolding space_added_def top(1) by simp
  next
    case False
    then have "covered (ns_iter S (vm_set ?vm)) x" using tr [OF that(1) False] that ok(2) by (simp add: kernel_ok_def)
    then show ?thesis using a(7) by (simp add: space_added_def)
  qed
  then have k': "kernel_ok S wfS N ?k'" using a(4,5,10) by (simp add: kernel_ok_def)
  have tk: "\<forall>f\<in>set fs \<union> G. frame_has N ?pm f Usable" "\<forall>f\<in>G. frame_has N ?pm f Usable" "retyped_frames N ?pm (set fs \<union> G) kernel_type pm" "pm_ok N wfN pm"
    using a(8) by (simp_all add: frames_taken_def)
  note U = kernel_edit_users [OF ok(1) kt a(11) tk(2,1,3,4)]
  have "kernel_tables t ?root = kernel_tables ?t ?root \<union> G" using a(11) by (simp add: kernel_edit_def)
  then have "new_stack S N roots stack fs G k ?k'" unfolding new_stack_def
    using a(5,6,7,8,9) top tr U(2) tk(1) by (simp add: user_byte_def frames_taken_def)
  then show ?thesis using a(1,2,3,5) k' U(1) by (intro exI [of _ stack] exI [of _ ?k'] exI [of _ fs] exI [of _ G]) simp
qed

lemma drop_stack_ok:
  assumes ok: "mmu_ok N wfN (k_hhdm k) roots (k_mmu k)" "kernel_ok S wfS N k"
    and st: "stack_at N (k_mmu k) (vm_l4_phys_frame (k_virtual_memory k)) stack fs"
  shows "\<exists>k'. GuardedStack_drop S X N M stack k = Some k' \<and> kernel_ok S wfS N k' \<and> mmu_ok N wfN (k_hhdm k') roots (k_mmu k') \<and>
    stack_dropped S N roots stack fs k k'"
proof -
  let ?vm = "k_virtual_memory k" and ?pm = "mu_pm (k_mmu k)" and ?t = "mu_tables (k_mmu k)" and ?g = "gs_guard_page stack"
  let ?root = "vm_l4_phys_frame ?vm"
  obtain vm pm t where
    d: "GuardedStack_drop S X N M stack k = Some (k \<lparr> k_mmu := (k_mmu k) \<lparr> mu_pm := pm, mu_tables := t \<rparr>, k_virtual_memory := vm,
       k_stack_guard_pages := (k_stack_guard_pages k)(?g := None) \<rparr>)"
      "pm_ok N wfN pm" "retyped_frames N ?pm (set fs) Usable pm" "vm_ok S wfS vm" "vm_l4_phys_frame vm = ?root"
      "space_removed S (vm_set ?vm) ?g (gs_n_virtual_pages stack * SIZE_4KIB) (vm_set vm)"
      "kernel_typed N pm t ?root" "kernel_edit ?root ?t (clear_edit (?g + SIZE_4KIB) (length fs)) {} t"
    by (rule GuardedStack_drop_ok [OF ok st]) (rule that)
  let ?k' = "k \<lparr> k_mmu := (k_mmu k) \<lparr> mu_pm := pm, mu_tables := t \<rparr>, k_virtual_memory := vm,
       k_stack_guard_pages := (k_stack_guard_pages k)(?g := None) \<rparr>"
  have kt: "kernel_typed N ?pm ?t ?root" using ok(2) by (simp add: kernel_ok_def)
  have top: "?g + gs_n_virtual_pages stack * SIZE_4KIB = gs_top stack" "?g + SIZE_4KIB + length fs * SIZE_4KIB = gs_top stack"
    and gu: "\<And>x. in_frame ?g x \<Longrightarrow> translate ?t ?root x = None" and fs: "\<forall>f\<in>set fs. frame_has N ?pm f kernel_type"
    using st by (simp_all add: stack_at_def)
  have tr: "translate t ?root x = (if ?g \<le> x \<and> x < gs_top stack then None else translate ?t ?root x)" if "kernel_addr x" for x
  proof -
    have "translate t ?root x = (if ?g + SIZE_4KIB \<le> x \<and> x < gs_top stack then None else translate ?t ?root x)"
      using d(8) that unfolding kernel_edit_def clear_edit_def top(2) by simp
    moreover have "translate ?t ?root x = None" if "?g \<le> x" "\<not> ?g + SIZE_4KIB \<le> x" using gu [of x] that by (simp add: in_frame_def)
    ultimately show ?thesis by auto
  qed
  have "covered (ns_iter S (vm_set vm)) x" if "kernel_addr x" "translate t ?root x \<noteq> None" for x
    using tr [OF that(1)] that ok(2) d(6) unfolding kernel_ok_def space_removed_def top(1) by (metis)
  then have k': "kernel_ok S wfS N ?k'" using d(4,5,7) by (simp add: kernel_ok_def)
  note U = kernel_edit_users [OF ok(1) kt d(8) _ fs d(3,2), simplified]
  have "stack_dropped S N roots stack fs k ?k'" unfolding stack_dropped_def using d(3,5,6,8) top tr U(2) by (simp add: user_byte_def kernel_edit_def)
  then show ?thesis using d(1) k' U(1) by (intro exI [of _ ?k']) simp
qed

lemma stack_roundtrip_ok:
  assumes ok: "mmu_ok N wfN (k_hhdm k) roots (k_mmu k)" "kernel_ok S wfS N k" and room: "stack_room S N (div_ceil sz SIZE_4KIB) k"
  shows "\<exists>stack k1 k2 G. allocate_stack S X N M sz stack_id k = Some (stack, k1) \<and> GuardedStack_drop S X N M stack k1 = Some k2 \<and>
    kernel_ok S wfS N k2 \<and> mmu_ok N wfN (k_hhdm k2) roots (k_mmu k2) \<and>
    (\<forall>a. covered (ns_iter S (vm_set (k_virtual_memory k2))) a \<longleftrightarrow> covered (ns_iter S (vm_set (k_virtual_memory k))) a) \<and>
    (\<forall>a. kernel_addr a \<longrightarrow> translate (mu_tables (k_mmu k2)) (vm_l4_phys_frame (k_virtual_memory k2)) a =
       translate (mu_tables (k_mmu k)) (vm_l4_phys_frame (k_virtual_memory k)) a) \<and>
    kernel_tables (mu_tables (k_mmu k2)) (vm_l4_phys_frame (k_virtual_memory k2)) =
      kernel_tables (mu_tables (k_mmu k)) (vm_l4_phys_frame (k_virtual_memory k)) \<union> G \<and>
    retyped_frames N (mu_pm (k_mmu k)) G kernel_type (mu_pm (k_mmu k2))"
proof -
  obtain stack k1 fs G where
    a: "allocate_stack S X N M sz stack_id k = Some (stack, k1)" "stack_at N (k_mmu k1) (vm_l4_phys_frame (k_virtual_memory k1)) stack fs"
      "kernel_ok S wfS N k1" "new_stack S N roots stack fs G k k1" "mmu_ok N wfN (k_hhdm k1) roots (k_mmu k1)"
    using new_stack_ok [OF ok room] by blast
  obtain k2 where
    d: "GuardedStack_drop S X N M stack k1 = Some k2" "kernel_ok S wfS N k2" "mmu_ok N wfN (k_hhdm k2) roots (k_mmu k2)" "stack_dropped S N roots stack fs k1 k2"
    using drop_stack_ok [OF a(5,3,2)] by blast
  let ?pm = "mu_pm (k_mmu k)" and ?pm1 = "mu_pm (k_mmu k1)" and ?pm2 = "mu_pm (k_mmu k2)" and ?vm = "k_virtual_memory k"
  have top: "gs_guard_page stack + gs_n_virtual_pages stack * SIZE_4KIB = gs_top stack" using a(2) by (simp add: stack_at_def)
  note n = a(4) [unfolded new_stack_def top] and r = d(4) [unfolded stack_dropped_def top]
  have free: "\<not> covered (ns_iter S (vm_set ?vm)) x" if "gs_guard_page stack \<le> x" "x < gs_top stack" for x
    using n that by (simp add: space_free_def top)
  have cov: "covered (ns_iter S (vm_set (k_virtual_memory k2))) x \<longleftrightarrow> covered (ns_iter S (vm_set ?vm)) x" for x
    using n r free [of x] unfolding space_added_def space_removed_def top by blast
  have tr: "translate (mu_tables (k_mmu k2)) (vm_l4_phys_frame (k_virtual_memory k2)) x = translate (mu_tables (k_mmu k)) (vm_l4_phys_frame ?vm) x"
    if "kernel_addr x" for x
  proof (cases "gs_guard_page stack \<le> x \<and> x < gs_top stack")
    case True
    then have "translate (mu_tables (k_mmu k)) (vm_l4_phys_frame ?vm) x = None" using free [of x] ok(2) that by (auto simp: kernel_ok_def)
    then show ?thesis using r True that by simp
  next
    case False
    then have "\<not> (gs_guard_page stack + SIZE_4KIB \<le> x \<and> x < gs_top stack)" by simp
    then have "translate (mu_tables (k_mmu k1)) (vm_l4_phys_frame (k_virtual_memory k1)) x = translate (mu_tables (k_mmu k)) (vm_l4_phys_frame ?vm) x"
      using n that by blast
    moreover have "translate (mu_tables (k_mmu k2)) (vm_l4_phys_frame (k_virtual_memory k2)) x =
        translate (mu_tables (k_mmu k1)) (vm_l4_phys_frame (k_virtual_memory k1)) x" using r False that by auto
    ultimately show ?thesis by simp
  qed
  have al: "f mod SIZE_4KIB = 0" if "f \<in> set fs \<union> G" for f using n that frame_has_aligned by blast
  have ty: "type_at N ?pm2 x = (if \<exists>f\<in>G. in_frame f x then Some kernel_type else type_at N ?pm x)" for x
  proof -
    have "type_at N ?pm x = Some Usable" if "f \<in> set fs" "in_frame f x" for f using n that unfolding frame_has_def by blast
    moreover have "\<not> in_frame g x" if "f \<in> set fs" "in_frame f x" "g \<in> G" for f g
      using frames_disjoint [OF al [of f] al [of g] that(2)] that n by blast
    moreover have "type_at N ?pm2 x = (if \<exists>f\<in>set fs. in_frame f x then Some Usable else type_at N ?pm1 x)" using r by (simp add: retyped_frames_def)
    moreover have "type_at N ?pm1 x = (if \<exists>f\<in>set fs \<union> G. in_frame f x then Some kernel_type else type_at N ?pm x)" using n by (simp add: retyped_frames_def)
    ultimately show ?thesis by (cases "\<exists>f\<in>set fs. in_frame f x") auto
  qed
  have "kernel_tables (mu_tables (k_mmu k2)) (vm_l4_phys_frame (k_virtual_memory k2)) = kernel_tables (mu_tables (k_mmu k)) (vm_l4_phys_frame ?vm) \<union> G"
    using n r by simp
  then show ?thesis using a(1) d(1-3) cov tr ty unfolding retyped_frames_def
    by (intro exI [of _ stack] exI [of _ k1] exI [of _ k2] exI [of _ G]) blast
qed

end

section \<open>Properties\<close>

text \<open>C12. With room for a stack, a new kernel stack is a fresh run of writable pages on frames that were
  free and lies above a guard page that is mapped nowhere. The rest of the kernel's space and the memory
  of every user task are as before.\<close>

theorem kernel_stack_guarded:
  assumes "user_memory N wfN X M S wfS" "mmu_ok N wfN (k_hhdm k) roots (k_mmu k)" "kernel_ok S wfS N k" "stack_room S N (div_ceil sz SIZE_4KIB) k"
  shows "\<exists>stack k' fs G. allocate_stack S X N M sz stack_id k = Some (stack, k') \<and> length fs = div_ceil sz SIZE_4KIB \<and>
    stack_at N (k_mmu k') (vm_l4_phys_frame (k_virtual_memory k')) stack fs \<and> kernel_ok S wfS N k' \<and> new_stack S N roots stack fs G k k' \<and>
    mmu_ok N wfN (k_hhdm k') roots (k_mmu k')"
  using assms by (rule user_memory.new_stack_ok)

text \<open>A kernel whose only mappings are those of its root table.\<close>

definition stacks_machine :: "((interval \<times> unit) list, (interval \<times> MemoryType) list) Stk" where
  "stacks_machine = Mem.extend (pages_machine \<lparr> k_virtual_memory := sample_vm,
       k_mmu := \<lparr> mu_pm = \<lparr> pm_map = [((0x1000, 0x1FFF), UsedByKernel PageTables), ((0x3000, 0xFFFFF), Usable)] \<rparr>,
                  mu_tables = (\<lambda>_. PageTable_new), mu_bytes = (\<lambda>_. 0) \<rparr> \<rparr>) \<lparr> k_stack_guard_pages = Map.empty \<rparr>"

lemma stacks_machine_simps [simp]:
  "k_virtual_memory stacks_machine = sample_vm" "k_hhdm stacks_machine = k_hhdm pages_machine" "mu_tables (k_mmu stacks_machine) = (\<lambda>_. PageTable_new)"
  by (simp_all add: stacks_machine_def Mem.defs)

lemma stacks_machine_types:
  "type_at list_map_ops (mu_pm (k_mmu stacks_machine)) a =
     (if 0x1000 \<le> a \<and> a \<le> 0x1FFF then Some (UsedByKernel PageTables) else if 0x3000 \<le> a \<and> a \<le> 0xFFFFF then Some Usable else None)"
  by (simp add: type_at_def stacks_machine_def Mem.defs list_map_ops_def)

lemma no_tables: "tables R (\<lambda>_. PageTable_new) 3 r = {r}" "tree R (\<lambda>_. PageTable_new) 3 r" "translate (\<lambda>_. PageTable_new) r a = None"
  unfolding translate_def by (rule fresh_table, rule refl)+

lemma stacks_machine_ok:
  "mmu_ok list_map_ops ivls_ok (k_hhdm stacks_machine) {} (k_mmu stacks_machine)" "kernel_ok list_set_ops ivls_ok list_map_ops stacks_machine"
proof -
  have "pm_ok list_map_ops ivls_ok (mu_pm (k_mmu stacks_machine))"
    by (auto simp: pm_ok_def stacks_machine_types split: if_splits)
      (auto simp: stacks_machine_def Mem.defs ivls_ok_def ivl_before_def U64_LIMIT_num PHYS_LIMIT_num)
  moreover have "hhdm_fits list_map_ops (k_hhdm stacks_machine) (mu_pm (k_mmu stacks_machine))"
    by (auto simp: hhdm_fits_def stacks_machine_types pages_machine_def HIGHER_HALF_START_def U64_LIMIT_num split: if_splits)
  ultimately show "mmu_ok list_map_ops ivls_ok (k_hhdm stacks_machine) {} (k_mmu stacks_machine)"
    by (simp add: mmu_ok_def spaces_ok_def mapped_def)
  have "vm_ok list_set_ops ivls_ok sample_vm"
    by (auto simp: vm_ok_def sample_vm_def ivls_ok_def ivl_before_def list_set_ops_def KERNEL_RESERVED_START_def limits)
  moreover have "frame_has list_map_ops (mu_pm (k_mmu stacks_machine)) 0x1000 kernel_type"
    by (auto simp: frame_has_def stacks_machine_types in_frame_def SIZE_4KIB_def)
  ultimately show "kernel_ok list_set_ops ivls_ok list_map_ops stacks_machine"
    by (simp add: kernel_ok_def kernel_typed_def kernel_tables_def no_tables) (simp add: sample_vm_def)
qed

lemma stacks_machine_room: "stack_room list_set_ops list_map_ops (div_ceil 4096 SIZE_4KIB) stacks_machine"
proof -
  let ?pm = "mu_pm (k_mmu stacks_machine)"
  have n: "div_ceil 4096 SIZE_4KIB = 1" by (simp add: div_ceil_def SIZE_4KIB_def)
  have "frame_available list_map_ops ?pm f" if "f \<in> {0x3000, 0x4000, 0x5000, 0x6000, 0x7000}" for f
    using that by (auto simp: frame_available_def stacks_machine_types SIZE_4KIB_def)
  then have s: "{0x3000, 0x4000, 0x5000, 0x6000, 0x7000} \<subseteq> available_frames list_map_ops ?pm" by (auto simp: available_frames_def)
  have "f \<le> 0xFFFFF" if "frame_available list_map_ops ?pm f" for f
  proof -
    have "type_at list_map_ops ?pm f = Some Usable" using that unfolding frame_available_def by simp
    then show ?thesis unfolding stacks_machine_types by (simp split: if_splits)
  qed
  then have "available_frames list_map_ops ?pm \<subseteq> {..0xFFFFF}" by (auto simp: available_frames_def)
  then have "finite (available_frames list_map_ops ?pm)" by (rule finite_subset) simp
  from card_mono [OF this s] have c: "5 \<le> card (available_frames list_map_ops ?pm)" by simp
  have "space_free list_set_ops (vm_set sample_vm) 0xFFFF800000002000 (2 * SIZE_4KIB)"
    by (auto simp: space_free_def sample_vm_def list_set_ops_def SIZE_4KIB_def)
  then have "\<exists>a. a mod SIZE_4KIB = 0 \<and> HIGHER_HALF_START \<le> a \<and> a + 2 * SIZE_4KIB - 1 \<le> u64_MAX \<and> space_free list_set_ops (vm_set sample_vm) a (2 * SIZE_4KIB)"
    by (intro exI [of _ "0xFFFF800000002000"]) (simp add: SIZE_4KIB_def HIGHER_HALF_START_def u64_MAX_num)
  then show ?thesis using c unfolding stack_room_def n by (simp add: SIZE_4KIB_def LOWER_HALF_END_def)
qed

theorem kernel_stack_guarded_witness:
  "\<exists>stack k' fs. allocate_stack list_set_ops x86_arith_ops list_map_ops walk_mapper 4096 \<lparr> stack_type = Normal, stack_cpu_id = 0 \<rparr> stacks_machine
      = Some (stack, k') \<and> length fs = 1 \<and> stack_at list_map_ops (k_mmu k') (vm_l4_phys_frame (k_virtual_memory k')) stack fs"
proof -
  have n: "div_ceil 4096 SIZE_4KIB = 1" by (simp add: div_ceil_def SIZE_4KIB_def)
  show ?thesis
    using kernel_stack_guarded [where stack_id = "\<lparr> stack_type = Normal, stack_cpu_id = 0 \<rparr>",
        OF list_user_memory.user_memory_axioms stacks_machine_ok stacks_machine_room] unfolding n by blast
qed

text \<open>C13. Dropping a new stack gives everything back except page tables: the kernel's ranges and
  translations are those before the stack was made, and only the tables added for it changed their type.\<close>

theorem kernel_stack_roundtrip:
  assumes "user_memory N wfN X M S wfS" "mmu_ok N wfN (k_hhdm k) roots (k_mmu k)" "kernel_ok S wfS N k" "stack_room S N (div_ceil sz SIZE_4KIB) k"
  shows "\<exists>stack k1 k2 G. allocate_stack S X N M sz stack_id k = Some (stack, k1) \<and> GuardedStack_drop S X N M stack k1 = Some k2 \<and>
    kernel_ok S wfS N k2 \<and> mmu_ok N wfN (k_hhdm k2) roots (k_mmu k2) \<and>
    (\<forall>a. covered (ns_iter S (vm_set (k_virtual_memory k2))) a \<longleftrightarrow> covered (ns_iter S (vm_set (k_virtual_memory k))) a) \<and>
    (\<forall>a. kernel_addr a \<longrightarrow> translate (mu_tables (k_mmu k2)) (vm_l4_phys_frame (k_virtual_memory k2)) a =
       translate (mu_tables (k_mmu k)) (vm_l4_phys_frame (k_virtual_memory k)) a) \<and>
    kernel_tables (mu_tables (k_mmu k2)) (vm_l4_phys_frame (k_virtual_memory k2)) =
      kernel_tables (mu_tables (k_mmu k)) (vm_l4_phys_frame (k_virtual_memory k)) \<union> G \<and>
    retyped_frames N (mu_pm (k_mmu k)) G kernel_type (mu_pm (k_mmu k2))"
  using assms by (rule user_memory.stack_roundtrip_ok)

theorem kernel_stack_roundtrip_witness:
  "\<exists>stack k1 k2. allocate_stack list_set_ops x86_arith_ops list_map_ops walk_mapper 4096 \<lparr> stack_type = Normal, stack_cpu_id = 0 \<rparr> stacks_machine
      = Some (stack, k1) \<and> GuardedStack_drop list_set_ops x86_arith_ops list_map_ops walk_mapper stack k1 = Some k2 \<and>
      kernel_ok list_set_ops ivls_ok list_map_ops k2"
  using kernel_stack_roundtrip [where stack_id = "\<lparr> stack_type = Normal, stack_cpu_id = 0 \<rparr>",
      OF list_user_memory.user_memory_axioms stacks_machine_ok stacks_machine_room] by blast

end
