(* ===== verification/Spawn.thy ===== *)
theory Spawn
  imports Elf_Loader Kernel_Stacks Syscall_Base
begin

text \<open>
  Starting a program: \<^verbatim>\<open>sys_spawn\<close> of \<^verbatim>\<open>syscall_handlers/task.rs\<close>, which loads the
  program, gives its task a kernel stack and hands it to the scheduler, and the selectors of
  \<^verbatim>\<open>gdt.rs\<close> with which a user task runs. Dropping a task releases its address space and then its
  kernel stack.
\<close>

section \<open>Segment selectors\<close>

text \<open>\<^verbatim>\<open>GlobalDescriptorTable::append\<close> belongs to the \<^verbatim>\<open>x86_64\<close> crate; it is a parameter: from
  the number of entries in use and a descriptor to the selector and the new number of entries.\<close>

datatype Descriptor = kernel_code_segment | kernel_data_segment | user_data_segment | user_code_segment | tss_segment

record Gdt =
  kernel_code_selector :: nat
  kernel_data_selector :: nat
  user_data_selector :: nat
  user_code_selector :: nat
  tss_selector :: nat

definition Gdt_new :: "(nat \<Rightarrow> Descriptor \<Rightarrow> nat \<times> nat) \<Rightarrow> Gdt" where
  "Gdt_new append1 =
     (let (kc, n1) = append1 1 kernel_code_segment;
          (kd, n2) = append1 n1 kernel_data_segment;
          (ud, n3) = append1 n2 user_data_segment;
          (uc, n4) = append1 n3 user_code_segment;
          (ts, _) = append1 n4 tss_segment
      in \<lparr> kernel_code_selector = kc, kernel_data_selector = kd, user_data_selector = ud, user_code_selector = uc, tss_selector = ts \<rparr>)"

text \<open>\<^verbatim>\<open>gdt::init\<close>: the stack for exceptions is allocated and never dropped.\<close>

definition gdt_init ::
    "'s nodit_set_ops \<Rightarrow> x86_ops \<Rightarrow> ('m, MemoryType) nodit_map_ops \<Rightarrow> 'm PhysicalMemoryFrameAllocator mapper_ops \<Rightarrow>
     (nat \<Rightarrow> Descriptor \<Rightarrow> nat \<times> nat) \<Rightarrow> nat \<Rightarrow> ('s, 'm, 'z) Stk_scheme \<Rightarrow> (nat \<times> Gdt \<times> ('s, 'm, 'z) Stk_scheme) rust" where
  "gdt_init S X N M append1 c k =
     do { cpu \<leftarrow> get_cpu k c;
          (ist_stack, k1) \<leftarrow> allocate_stack S X N M EXCEPTION_HANDLER_STACK_SIZE
                               \<lparr> stack_type = ExceptionHandler, stack_cpu_id = kernel_id cpu \<rparr> k;
          Some (gs_top ist_stack, Gdt_new append1, k1) }"

section \<open>Operations\<close>

text \<open>The bytes of a slice in the memory of the running task; a page that is not mapped faults.\<close>

definition user_slice :: "'m Mmu \<Rightarrow> nat \<Rightarrow> nat \<Rightarrow> nat \<Rightarrow> 8 word list rust" where
  "user_slice u cr3 ptr len = those (map (\<lambda>i. user_byte u cr3 (ptr + i)) [0..<len])"

definition create_user_task_from_elf_bytes ::
    "'s nodit_set_ops \<Rightarrow> x86_ops \<Rightarrow> ('m, MemoryType) nodit_map_ops \<Rightarrow> 'm PhysicalMemoryFrameAllocator mapper_ops \<Rightarrow>
     (8 word list \<Rightarrow> ElfBytes option) \<Rightarrow> Gdt \<Rightarrow> nat \<Rightarrow> 8 word list \<Rightarrow> nat \<Rightarrow> ('s, 'm, 'z) Stk_scheme \<Rightarrow>
     ((SpawnError + 's Task) \<times> ('s, 'm, 'z) Stk_scheme) rust" where
  "create_user_task_from_elf_bytes S X N M minimal_parse gdt c elf_bytes child_arg k =
     do { (r, u) \<leftarrow> load_program S X N M minimal_parse (k_hhdm k) (k_new_kernel_cr3 k) elf_bytes (k_mmu k);
          let k1 = k \<lparr> k_mmu := u \<rparr>;
          case r of
            Inl err \<Rightarrow> Some (Inl err, k1)
          | Inr lp \<Rightarrow>
              do { cpu \<leftarrow> get_cpu k1 c;
                   (kernel_stack, k2) \<leftarrow> allocate_stack S X N M NORMAL_STACK_SIZE
                                           \<lparr> stack_type = Normal, stack_cpu_id = kernel_id cpu \<rparr> k1;
                   let (task, next_id) = Task_new_user kernel_stack (k_next_task_id k2) (lp_entry lp) (lp_rsp lp) (lp_l4_frame lp)
                         (lp_l4_frame lp) (user_code_selector gdt) (user_data_selector gdt) (lp_vaddr_set lp) child_arg;
                   Some (Inr task, k2 \<lparr> k_next_task_id := next_id \<rparr>) } }"

definition MAX_ELF_LEN :: nat where
  "MAX_ELF_LEN = 64 * 1024 * 1024"

definition sys_spawn ::
    "'s nodit_set_ops \<Rightarrow> x86_ops \<Rightarrow> ('m, MemoryType) nodit_map_ops \<Rightarrow> 'm PhysicalMemoryFrameAllocator mapper_ops \<Rightarrow>
     (8 word list \<Rightarrow> ElfBytes option) \<Rightarrow> Gdt \<Rightarrow> nat \<Rightarrow> nat \<Rightarrow> nat \<Rightarrow> nat \<Rightarrow> ('s, 'm, 'z) Stk_scheme \<Rightarrow>
     (nat \<times> ('s, 'm, 'z) Stk_scheme) rust" where
  "sys_spawn S X N M minimal_parse gdt c elf_ptr elf_len child_arg k =
     (if elf_len = 0 \<or> elf_len > MAX_ELF_LEN then Some (0, k)
      else
        do { valid \<leftarrow> validate_user_ptr S X c elf_ptr elf_len k;
             if \<not> valid then Some (0, k)
             else
               do { cur \<leftarrow> current_user_task c k;
                    case cur of
                      None \<Rightarrow> Some (0, k)
                    | Some _ \<Rightarrow>
                        do { cpu \<leftarrow> get_cpu k c;
                             elf_bytes \<leftarrow> user_slice (k_mmu k) (hw_cr3 cpu) elf_ptr elf_len;
                             (r, k1) \<leftarrow> create_user_task_from_elf_bytes S X N M minimal_parse gdt c elf_bytes child_arg k;
                             case r of
                               Inl _ \<Rightarrow> Some (0, k1)
                             | Inr task \<Rightarrow>
                                 do { k2 \<leftarrow> spawn_task c (t_id task) (k1 \<lparr> k_tasks := (k_tasks k1)(t_id task \<mapsto> task) \<rparr>);
                                      Some (t_id task, k2) } } } })"

text \<open>The last reference to a task is dropped: \<^verbatim>\<open>TaskInner::drop\<close>, then its fields.\<close>

definition drop_task ::
    "'s nodit_set_ops \<Rightarrow> x86_ops \<Rightarrow> ('m, MemoryType) nodit_map_ops \<Rightarrow> 'm PhysicalMemoryFrameAllocator mapper_ops \<Rightarrow>
     nat \<Rightarrow> ('s, 'm, 'z) Stk_scheme \<Rightarrow> ('s, 'm, 'z) Stk_scheme rust" where
  "drop_task S X N M t k =
     do { task \<leftarrow> unwrap (k_tasks k t);
          u \<leftarrow> TaskInner_drop X N (k_hhdm k) (t_inner task) (k_mmu k);
          k1 \<leftarrow> GuardedStack_drop S X N M (ti_kernel_stack (t_inner task)) (k \<lparr> k_mmu := u \<rparr>);
          Some (k1 \<lparr> k_tasks := (k_tasks k1)(t := None) \<rparr>) }"

section \<open>Lemmas\<close>

text \<open>The documented behaviour of \<^verbatim>\<open>append\<close>: a descriptor takes the next entry, the one of the task
  state the next two, and the selector holds the index of the entry and the privilege level.\<close>

definition gdt_appends :: "(nat \<Rightarrow> Descriptor \<Rightarrow> nat \<times> nat) \<Rightarrow> bool" where
  "gdt_appends append1 \<longleftrightarrow>
     (\<forall>n d. append1 n d = (8 * n + (if d = user_data_segment \<or> d = user_code_segment then 3 else 0), n + (if d = tss_segment then 2 else 1)))"

lemma gdt_selectors:
  assumes "gdt_appends append1"
  shows "Gdt_new append1 = \<lparr> kernel_code_selector = 0x08, kernel_data_selector = 0x10, user_data_selector = 0x1B,
           user_code_selector = 0x23, tss_selector = 0x28 \<rparr>"
  using assms by (simp add: Gdt_new_def gdt_appends_def)

lemma those_Some: "those xs = Some ys \<longleftrightarrow> xs = map Some ys"
proof (induction xs arbitrary: ys)
  case (Cons x xs)
  then show ?case by (cases ys) (auto split: option.splits)
qed auto

lemma user_slice_length: "user_slice u cr3 ptr len = Some bs \<Longrightarrow> length bs = len"
  unfolding user_slice_def those_Some by (metis length_map length_upt diff_zero)

text \<open>Placing a task changes the scheduler only.\<close>

lemma sched_add_mem:
  "sched_add c t k = Some k' \<Longrightarrow> k_mmu k' = k_mmu k \<and> k_virtual_memory k' = k_virtual_memory k \<and> k_hhdm k' = k_hhdm k"
  by (auto simp: sched_add_def upd_cpu_def rust_SomeD)

lemma spawn_task_mem:
  "spawn_task c t k = Some k' \<Longrightarrow> k_mmu k' = k_mmu k \<and> k_virtual_memory k' = k_virtual_memory k \<and> k_hhdm k' = k_hhdm k"
  by (auto simp: spawn_task_def insert_task_table_def set_task_state_def upd_task_def send_reschedule_ipi_def Let_def rust_SomeD
      split: if_splits dest!: sched_add_mem)

lemma sched_ok_new_task:
  assumes "sched_ok k" "k_tasks k t = None"
  shows "sched_ok (k \<lparr> k_tasks := (k_tasks k)(t \<mapsto> x) \<rparr>)"
proof -
  have "cpu_ok ((k_tasks k)(t \<mapsto> x)) c cpu" if ok: "cpu_ok (k_tasks k) c cpu" for c cpu
  proof (cases "run_queue cpu")
    case (Some rq)
    have e: "\<exists>y. k_tasks k s = Some y \<and> task_ok y \<and> ((k_tasks k)(t \<mapsto> x)) s = Some y" if "s \<in> set (rq_tasks rq)" for s
      using ok Some that assms(2) unfolding cpu_ok_def by fastforce
    moreover have "s \<in> set (rq_tasks rq)" if "current_task rq = Some s" for s using that by (simp add: rq_tasks_def)
    ultimately show ?thesis using ok Some unfolding cpu_ok_def by (metis option.inject)
  qed (use ok in \<open>simp add: cpu_ok_def\<close>)
  then show ?thesis using assms(1) by (simp add: sched_ok_def)
qed

lemma kernel_ok_kept:
  assumes "kernel_ok S wfS N k" "kernel_kept N (k_mmu k) u"
  shows "kernel_ok S wfS N (k \<lparr> k_mmu := u \<rparr>)"
proof -
  let ?r = "vm_l4_phys_frame (k_virtual_memory k)" and ?t = "mu_tables (k_mmu k)"
  have kt: "kernel_typed N (mu_pm (k_mmu k)) ?t ?r" using assms(1) by (simp add: kernel_ok_def)
  have f: "\<forall>g\<in>tables stack_slots ?t 3 ?r. mu_tables u g = ?t g" "\<forall>g\<in>kernel_tables ?t ?r. frame_has N (mu_pm u) g kernel_type"
    using kt assms(2) unfolding kernel_typed_def kernel_tables_def kernel_kept_def by blast+
  have "kernel_typed N (mu_pm u) (mu_tables u) ?r"
    using kt f(2) tables_frame [OF f(1)] tree_frame [OF f(1)] by (simp add: kernel_typed_def kernel_tables_def)
  moreover have "translate (mu_tables u) ?r a = translate ?t ?r a" if "kernel_addr a" for a
    using walk_frame [OF f(1), of a] kernel_slot [OF that] by (simp add: translate_def slots_def)
  ultimately show ?thesis using assms(1) by (simp add: kernel_ok_def)
qed

lemma program_in_memory_kept:
  assumes "program_in_memory S wfS bytes segs lp u" "others_kept {lp_l4_frame lp} u u'" "segments_fit bytes segs"
  shows "program_in_memory S wfS bytes segs lp u'"
proof -
  have k: "translate (mu_tables u') (lp_l4_frame lp) a = translate (mu_tables u) (lp_l4_frame lp) a"
      "user_byte u' (lp_l4_frame lp) a = user_byte u (lp_l4_frame lp) a" if "a < USER_LIMIT" for a
    using assms(2) that by (simp_all add: others_kept_def)
  have l: "a < USER_LIMIT" if "s \<in> set (load_headers segs)" "a < p_vaddr s + p_memsz s" for s a
    using assms(3) that unfolding segments_fit_def segment_fits_def by (force simp: stack_nums USER_LIMIT_def)
  have st: "a < USER_LIMIT" if "a < USER_RSP" for a using that by (simp add: stack_nums USER_LIMIT_def)
  have v: "vset_ok S wfS (mu_tables u') (lp_l4_frame lp) (lp_vaddr_set lp)"
    using assms(1) k(1) unfolding program_in_memory_def vset_ok_def by metis
  show ?thesis unfolding program_in_memory_def
  proof (intro conjI)
    show "vset_ok S wfS (mu_tables u') (lp_l4_frame lp) (lp_vaddr_set lp)" by (rule v)
  qed (use assms(1) k l st in \<open>unfold program_in_memory_def, metis+\<close>)
qed

lemma allocate_stack_sched:
  "allocate_stack S X N M sz sid k = Some (stack, k') \<Longrightarrow>
   k_tasks k' = k_tasks k \<and> k_cpus k' = k_cpus k \<and> k_task_table k' = k_task_table k \<and> k_next_spawn_cpu k' = k_next_spawn_cpu k \<and>
   k_next_task_id k' = k_next_task_id k \<and> k_ipis k' = k_ipis k \<and> k_hhdm k' = k_hhdm k"
  by (auto simp: allocate_stack_def Let_def rust_SomeD)

lemma stack_drop_sched: "GuardedStack_drop S X N M stack k = Some k' \<Longrightarrow> k_tasks k' = k_tasks k \<and> k_hhdm k' = k_hhdm k"
  by (auto simp: GuardedStack_drop_def Let_def rust_SomeD)

text \<open>Freeing memory of user tasks leaves the kernel's tables and stacks.\<close>

lemma kernel_kept_free:
  assumes "retyped_frames N (mu_pm u) F Usable pm" "\<forall>f\<in>F. frame_has N (mu_pm u) f UsedByUserMode"
  shows "kernel_kept N u (u \<lparr> mu_pm := pm \<rparr>)"
proof -
  have "\<forall>f\<in>F. f mod SIZE_4KIB = 0" using assms(2) frame_has_aligned by blast
  moreover have "g \<notin> F" if "frame_has N (mu_pm u) g ty" "ty \<noteq> UsedByUserMode" for g ty using assms(2) frame_has_unique that by blast
  ultimately show ?thesis using retyped_has [OF assms(1)] by (auto simp: kernel_kept_def)
qed

lemma stack_at_free:
  assumes "stack_at N u root stack fs" "kernel_kept N u (u \<lparr> mu_pm := pm \<rparr>)"
  shows "stack_at N (u \<lparr> mu_pm := pm \<rparr>) root stack fs"
  using assms unfolding stack_at_def kernel_kept_def by auto

text \<open>A task that is about to run a program: its space holds the program, its registers start it at
  the entry point with the argument, and its kernel stack is its own.\<close>

definition runs_program ::
    "'s nodit_set_ops \<Rightarrow> ('s \<Rightarrow> bool) \<Rightarrow> ('m, MemoryType) nodit_map_ops \<Rightarrow> 8 word list \<Rightarrow> ProgramHeader list \<Rightarrow> nat \<Rightarrow> nat \<Rightarrow>
     'm Mmu \<Rightarrow> nat \<Rightarrow> 's Task \<Rightarrow> bool" where
  "runs_program S wfS N elf_bytes segs entry arg u root task \<longleftrightarrow>
     t_kind task = User \<and> ti_user_page_table (t_inner task) = Some (t_cr3 task) \<and>
     (\<exists>lp. lp_l4_frame lp = t_cr3 task \<and> lp_vaddr_set lp = ti_user_vaddr_set (t_inner task) \<and> program_in_memory S wfS elf_bytes segs lp u) \<and>
     ctx_rip (ti_context (t_inner task)) = entry \<and> ctx_rsp (ti_context (t_inner task)) = USER_RSP \<and> ctx_rdi (ti_context (t_inner task)) = arg \<and>
     (\<exists>fs. stack_at N u root (ti_kernel_stack (t_inner task)) fs \<and> length fs = 64) \<and>
     ti_kernel_stack_top (t_inner task) = gs_top (ti_kernel_stack (t_inner task))"

lemma runs_program_state: "runs_program S wfS N bs segs e arg u root (task \<lparr> t_state := st \<rparr>) = runs_program S wfS N bs segs e arg u root task"
  by (simp add: runs_program_def)

text \<open>Room for a program: four frames for each page of it and of its stack and one for its root table,
  five frames for each page of its kernel stack, and a free range of the kernel's space for that.\<close>

definition spawn_room ::
    "'s nodit_set_ops \<Rightarrow> ('m, MemoryType) nodit_map_ops \<Rightarrow> ProgramHeader list \<Rightarrow> ('s, 'm, 'z) Mem_scheme \<Rightarrow> bool" where
  "spawn_room S N segs k \<longleftrightarrow> 5 * 64 + (1 + 4 * (all_pages segs + 16)) \<le> card (available_frames N (mu_pm (k_mmu k))) \<and>
     (\<exists>a. a mod SIZE_4KIB = 0 \<and> HIGHER_HALF_START \<le> a \<and> a + 65 * SIZE_4KIB - 1 \<le> u64_MAX \<and>
        space_free S (vm_set (k_virtual_memory k)) a (65 * SIZE_4KIB))"

context user_memory
begin

lemma create_task_ok:
  assumes mem: "mmu_ok N wfN (k_hhdm k) roots (k_mmu k)" "kernel_ok S wfS N k" and kc: "k_new_kernel_cr3 k = vm_l4_phys_frame (k_virtual_memory k)"
    and cpu: "get_cpu k c = Some cpu"
    and elf: "minimal_parse bytes = Some elf" "eb_segments elf = Some segs" "eb_entry elf \<noteq> 0"
    and fit: "segments_fit bytes segs" "length bytes < U64_LIMIT" and cs: "user_code_selector gdt = 0x23"
    and room: "spawn_room S N segs k"
  shows "\<exists>task k'. create_user_task_from_elf_bytes S X N M minimal_parse gdt c bytes arg k = Some (Inr task, k') \<and> kernel_ok S wfS N k' \<and>
    mmu_ok N wfN (k_hhdm k) roots (k_mmu k') \<and> others_kept roots (k_mmu k) (k_mmu k') \<and> k_tasks k' = k_tasks k \<and> k_cpus k' = k_cpus k \<and>
    k_task_table k' = k_task_table k \<and> k_next_spawn_cpu k' = k_next_spawn_cpu k \<and> k_ipis k' = k_ipis k \<and> k_hhdm k' = k_hhdm k \<and>
    t_id task = k_next_task_id k \<and> task_ok task \<and> t_cr3 task \<notin> roots \<and>
    mmu_ok N wfN (k_hhdm k) (insert (t_cr3 task) roots) (k_mmu k') \<and>
    runs_program S wfS N bytes segs (eb_entry elf) arg (k_mmu k') (vm_l4_phys_frame (k_virtual_memory k')) task"
proof -
  let ?root = "vm_l4_phys_frame (k_virtual_memory k)"
  have kf: "frame_has N (mu_pm (k_mmu k)) (k_new_kernel_cr3 k) kernel_type"
    using mem(2) unfolding kernel_ok_def kernel_typed_def kernel_tables_def kc by simp
  let ?b = "1 + 4 * (all_pages segs + 16)"
  have c0: "5 * 64 + ?b \<le> card (available_frames N (mu_pm (k_mmu k)))" using room by (simp add: spawn_room_def)
  then have "available_frames N (mu_pm (k_mmu k)) \<noteq> {}" by auto
  then obtain f where av: "frame_available N (mu_pm (k_mmu k)) f" by (auto simp: available_frames_def)
  obtain r u where l: "load_program S X N M minimal_parse (k_hhdm k) (k_new_kernel_cr3 k) bytes (k_mmu k) = Some (r, u)"
      "mmu_ok N wfN (k_hhdm k) roots u" "others_kept roots (k_mmu k) u" "kernel_kept N (k_mmu k) u"
      "frames_used N ?b (k_mmu k) u"
      "case r of Inl err \<Rightarrow> err = OutOfMemory \<and> (\<forall>g. \<not> frame_available N (mu_pm u) g)
       | Inr lp \<Rightarrow> lp_entry lp = eb_entry elf \<and> lp_rsp lp = USER_RSP \<and>
           loaded N wfN (k_hhdm k) roots (lp_l4_frame lp) (k_mmu k) ?b (program_image bytes segs) u \<and> tracked S wfS (program_image bytes segs) (lp_vaddr_set lp)"
    using load_program_ok [where minimal_parse = minimal_parse, OF mem(1) kf _ av elf fit] by auto
  have k1: "kernel_ok S wfS N (k \<lparr> k_mmu := u \<rparr>)" by (rule kernel_ok_kept [OF mem(2) l(4)])
  show ?thesis
  proof (cases r)
    case (Inl err)
    then have "available_frames N (mu_pm u) = {}" using l(6) by (simp add: available_frames_def)
    then show ?thesis using l(5) c0 by (simp add: frames_used_def)
  next
    case (Inr lp)
    let ?l4 = "lp_l4_frame lp" and ?R = "insert (lp_l4_frame lp) roots" and ?k1 = "k \<lparr> k_mmu := u \<rparr>"
    have lp: "lp_entry lp = eb_entry elf" "lp_rsp lp = USER_RSP" "?l4 \<notin> roots" "mmu_ok N wfN (k_hhdm k) ?R u"
        "program_in_memory S wfS bytes segs lp u"
      using l(6) Inr loaded_program_in_memory [OF fit] by (auto simp: loaded_def)
    have n: "div_ceil NORMAL_STACK_SIZE SIZE_4KIB = 64" by (simp add: div_ceil_def NORMAL_STACK_SIZE_def SIZE_4KIB_def)
    have rm: "stack_room S N (div_ceil NORMAL_STACK_SIZE SIZE_4KIB) ?k1" 
    proof -
      have "5 * 64 \<le> card (available_frames N (mu_pm u))" using l(5) c0 by (simp add: frames_used_def)
      then show ?thesis unfolding n using room by (simp add: stack_room_def spawn_room_def SIZE_4KIB_def LOWER_HALF_END_def)
    qed
    have m1: "mmu_ok N wfN (k_hhdm ?k1) ?R (k_mmu ?k1)" using lp(4) by simp
    let ?sid = "\<lparr> stack_type = Normal, stack_cpu_id = kernel_id cpu \<rparr>"
    obtain stack k2 fs G where
      a: "allocate_stack S X N M NORMAL_STACK_SIZE ?sid ?k1 = Some (stack, k2)" "length fs = 64"
        "stack_at N (k_mmu k2) (vm_l4_phys_frame (k_virtual_memory k2)) stack fs" "kernel_ok S wfS N k2" "new_stack S N ?R stack fs G ?k1 k2"
        "mmu_ok N wfN (k_hhdm k2) ?R (k_mmu k2)"
      using new_stack_ok [OF m1 k1 rm, of ?sid] unfolding n by blast
    note sc = allocate_stack_sched [OF a(1)]
    have ok2: "others_kept ?R u (k_mmu k2)" using a(5) by (auto simp: new_stack_def others_kept_def)
    have pim: "program_in_memory S wfS bytes segs lp (k_mmu k2)"
      by (rule program_in_memory_kept [OF lp(5) _ fit(1)]) (use ok2 in \<open>simp add: others_kept_def\<close>)
    have kept: "others_kept roots (k_mmu k) (k_mmu k2)" using ok2 l(3) by (simp add: others_kept_def)
    have m2: "mmu_ok N wfN (k_hhdm k) ?R (k_mmu k2)" "mmu_ok N wfN (k_hhdm k) roots (k_mmu k2)"
      using a(6) sc spaces_subset [of N ?R "mu_pm (k_mmu k2)" "mu_tables (k_mmu k2)" roots] by (auto simp: mmu_ok_def)
    let ?T = "Task_new_user stack (k_next_task_id k2) (lp_entry lp) (lp_rsp lp) ?l4 ?l4 (user_code_selector gdt) (user_data_selector gdt) (lp_vaddr_set lp) arg"
    let ?task = "fst ?T" and ?k3 = "k2 \<lparr> k_next_task_id := snd ?T \<rparr>"
    have cpu1: "get_cpu ?k1 c = Some cpu" using cpu by (auto simp: get_cpu_def split: if_splits)
    have run: "create_user_task_from_elf_bytes S X N M minimal_parse gdt c bytes arg k = Some (Inr ?task, ?k3)"
      using l(1) Inr a(1) cpu1 by (simp add: create_user_task_from_elf_bytes_def Let_def split_def)
    have "pm_ok N wfN (mu_pm u)" "frame_has N (mu_pm u) ?l4 UsedByUserMode"
      using lp(4) spaces_tables [of N ?R "mu_pm u" "mu_tables u" ?l4 ?l4] by (simp_all add: mmu_ok_def user_tables_def)
    then have l4: "?l4 < PHYS_LIMIT" "?l4 mod SIZE_4KIB = 0" using frame_has_bound frame_has_aligned by blast+
    have "HIGHER_HALF_START \<le> gs_top stack" "gs_top stack \<le> KERNEL_RESERVED_START" using a(3) by (simp_all add: stack_at_def)
    then have cn: "canonical (gs_top stack)" by (simp add: canonical_num HIGHER_HALF_START_def KERNEL_RESERVED_START_def U64_LIMIT_num)
    have tk: "task_ok ?task" using Task_new_user_ok [OF cn l4] unfolding cs .
    have rp: "runs_program S wfS N bytes segs (eb_entry elf) arg (k_mmu ?k3) (vm_l4_phys_frame (k_virtual_memory ?k3)) ?task"
      unfolding runs_program_def using pim a(2,3) lp(1,2) by (auto simp: Task_new_user_def TaskId_new_def Let_def)
    have id: "t_id ?task = k_next_task_id k" "t_cr3 ?task = ?l4" using sc by (simp_all add: Task_new_user_def TaskId_new_def Let_def)
    have k3: "kernel_ok S wfS N ?k3" using a(4) by (simp add: kernel_ok_def)
    show ?thesis using run k3 kept m2 sc tk rp id lp(3) by (intro exI [of _ ?task] exI [of _ ?k3]) simp
  qed
qed

lemma sys_spawn_ok:
  assumes mem: "mem_ok S wfS N wfN k" "kernel_ok S wfS N k" "sched_ok k" and kc: "k_new_kernel_cr3 k = vm_l4_phys_frame (k_virtual_memory k)"
    and cur: "current_user_task c k = Some (Some (t0, task0))"
    and ptr: "validate_user_ptr S X c elf_ptr elf_len k = Some True" "0 < elf_len" "elf_len \<le> MAX_ELF_LEN"
      "user_slice (k_mmu k) (t_cr3 task0) elf_ptr elf_len = Some bytes"
    and elf: "minimal_parse bytes = Some elf" "eb_segments elf = Some segs" "eb_entry elf \<noteq> 0" "segments_fit bytes segs"
    and cs: "user_code_selector gdt = 0x23"
    and room: "spawn_room S N segs k"
    and new: "k_tasks k (k_next_task_id k) = None" "k_next_task_id k \<notin> k_task_table k" "k_next_spawn_cpu k + length (k_cpus k) < U64_LIMIT"
  shows "\<exists>task k'. sys_spawn S X N M minimal_parse gdt c elf_ptr elf_len arg k = Some (k_next_task_id k, k') \<and> mem_ok S wfS N wfN k' \<and>
    kernel_ok S wfS N k' \<and> sched_ok k' \<and> others_kept (user_roots k) (k_mmu k) (k_mmu k') \<and> k_tasks k' = (k_tasks k)(k_next_task_id k \<mapsto> task) \<and>
    mset (placed k') = add_mset (k_next_task_id k) (mset (placed k)) \<and> t_state task = Ready \<and>
    runs_program S wfS N bytes segs (eb_entry elf) arg (k_mmu k') (vm_l4_phys_frame (k_virtual_memory k')) task"
proof -
  obtain cpu rq where cpu: "get_cpu k c = Some cpu" "run_queue cpu = Some rq" "current_task rq = Some t0" "k_tasks k t0 = Some task0"
    using cur by (auto simp: current_user_task_def rust_SomeD unwrap_def split: option.splits if_splits)
  have hw: "hw_cr3 cpu = t_cr3 task0" using sched_okD [OF mem(3) cpu(1)] cpu(2-4) unfolding cpu_ok_def by blast
  have len: "length bytes < U64_LIMIT" using user_slice_length [OF ptr(4)] ptr(3) by (simp add: MAX_ELF_LEN_def U64_LIMIT_num)
  have mm: "mmu_ok N wfN (k_hhdm k) (user_roots k) (k_mmu k)" using mem(1) by (simp add: mem_ok_def)
  let ?v = "k_next_task_id k"
  obtain task k1 where
    1: "create_user_task_from_elf_bytes S X N M minimal_parse gdt c bytes arg k = Some (Inr task, k1)" "kernel_ok S wfS N k1"
      "mmu_ok N wfN (k_hhdm k) (user_roots k) (k_mmu k1)" "others_kept (user_roots k) (k_mmu k) (k_mmu k1)" "k_tasks k1 = k_tasks k" "k_cpus k1 = k_cpus k"
      "k_task_table k1 = k_task_table k" "k_next_spawn_cpu k1 = k_next_spawn_cpu k" "k_hhdm k1 = k_hhdm k"
    and tk: "t_id task = ?v" "task_ok task" "t_cr3 task \<notin> user_roots k" "mmu_ok N wfN (k_hhdm k) (insert (t_cr3 task) (user_roots k)) (k_mmu k1)"
      "runs_program S wfS N bytes segs (eb_entry elf) arg (k_mmu k1) (vm_l4_phys_frame (k_virtual_memory k1)) task"
    using create_task_ok [where minimal_parse = minimal_parse and arg = arg, OF mm mem(2) kc cpu(1) elf(1-4) len cs room] by blast
  have head: "sys_spawn S X N M minimal_parse gdt c elf_ptr elf_len arg k =
      do { k2 \<leftarrow> spawn_task c (t_id task) (k1 \<lparr> k_tasks := (k_tasks k1)(t_id task \<mapsto> task) \<rparr>); Some (t_id task, k2) }"
    using ptr cur cpu(1) hw 1(1) by (simp add: sys_spawn_def)
  have vs: "vset_ok S wfS (mu_tables (k_mmu k1)) (t_cr3 x) (ti_user_vaddr_set (t_inner x))" if "is_user_task k t x" for t x
  proof -
    have "t_cr3 x \<in> user_roots k" using that by (rule user_task_root)
    then have "\<forall>a<USER_LIMIT. translate (mu_tables (k_mmu k1)) (t_cr3 x) a = translate (mu_tables (k_mmu k)) (t_cr3 x) a"
      using 1(4) by (simp add: others_kept_def)
    moreover have "vset_ok S wfS (mu_tables (k_mmu k)) (t_cr3 x) (ti_user_vaddr_set (t_inner x))" using mem(1) that unfolding mem_ok_def by blast
    ultimately show ?thesis unfolding vset_ok_def by metis
  qed
  have un: "t = t'" if "is_user_task k t x" "is_user_task k t' x'" "t_cr3 x = t_cr3 x'" for t x t' x' using mem(1) that unfolding mem_ok_def by blast
  let ?k1 = "k1 \<lparr> k_tasks := (k_tasks k1)(t_id task \<mapsto> task) \<rparr>"
  have "sched_ok k1" using mem(3) sched_ok_cong [OF 1(6,5)] by simp
  then have so: "sched_ok ?k1" using sched_ok_new_task [of k1 ?v task] new(1) 1(5) tk(1) by simp
  have g1: "get_cpu ?k1 c = Some cpu" "run_queue cpu \<noteq> None" "k_tasks ?k1 ?v = Some task" using cpu 1(6) tk(1) by (auto simp: get_cpu_def split: if_splits)
  have n1: "?v \<notin> k_task_table ?k1" "k_next_spawn_cpu ?k1 + length (k_cpus ?k1) < U64_LIMIT" using new 1(6,7,8) by simp_all
  obtain k2 where
    2: "spawn_task c ?v ?k1 = Some k2" "sched_ok k2" "mset (placed k2) = add_mset ?v (mset (placed ?k1))"
      "k_tasks k2 = (k_tasks ?k1)(?v \<mapsto> task \<lparr> t_state := Ready \<rparr>)"
    using spawn_task_ok [OF so g1 tk(2) n1] by blast
  have m2: "k_mmu k2 = k_mmu k1" "k_virtual_memory k2 = k_virtual_memory k1" "k_hhdm k2 = k_hhdm k1" using spawn_task_mem [OF 2(1)] by simp_all
  let ?x = "task \<lparr> t_state := Ready \<rparr>"
  have ts: "k_tasks k2 = (k_tasks k)(?v \<mapsto> ?x)" using 2(4) 1(5) tk(1) by simp
  have kd: "t_kind task = User" "ti_user_vaddr_set (t_inner task) = ti_user_vaddr_set (t_inner ?x)" using tk(5) by (simp_all add: runs_program_def)
  have iu: "is_user_task k2 t x \<longleftrightarrow> t = ?v \<and> x = ?x \<or> is_user_task k t x" for t x
    using ts new(1) kd(1) by (auto simp: is_user_task_def)
  have ur: "user_roots k2 = insert (t_cr3 task) (user_roots k)" 
  proof -
    have "user_roots k2 = {t_cr3 x | t x. t = ?v \<and> x = ?x} \<union> user_roots k" unfolding user_roots_def iu by blast
    then show ?thesis by simp
  qed
  have nx: "t_cr3 x \<noteq> t_cr3 task" if "is_user_task k t x" for t x using user_task_root [OF that] tk(3) by metis
  have vx: "vset_ok S wfS (mu_tables (k_mmu k1)) (t_cr3 task) (ti_user_vaddr_set (t_inner task))"
    using tk(5) unfolding runs_program_def program_in_memory_def by metis
  have "mem_ok S wfS N wfN k2"
    unfolding mem_ok_def iu ur m2
  proof (intro conjI allI impI)
    show "mmu_ok N wfN (k_hhdm k1) (insert (t_cr3 task) (user_roots k)) (k_mmu k1)" using tk(4) 1(9) by simp
    show "vset_ok S wfS (mu_tables (k_mmu k1)) (t_cr3 x) (ti_user_vaddr_set (t_inner x))" if "t = ?v \<and> x = ?x \<or> is_user_task k t x" for t x
      using that vs vx by auto
    show "t = t'" if "t = ?v \<and> x = ?x \<or> is_user_task k t x" "t' = ?v \<and> x' = ?x \<or> is_user_task k t' x'" "t_cr3 x = t_cr3 x'" for t x t' x'
    proof -
      have "t_cr3 ?x = t_cr3 task" by simp
      then show ?thesis using that un [of t x t' x'] nx [of t x] nx [of t' x'] by metis
    qed
  qed
  moreover have "kernel_ok S wfS N k2" using 1(2) m2 by (simp add: kernel_ok_def)
  moreover have "placed ?k1 = placed k" using 1(6) by (simp add: placed_def)
  moreover have "runs_program S wfS N bytes segs (eb_entry elf) arg (k_mmu k2) (vm_l4_phys_frame (k_virtual_memory k2)) ?x"
    using tk(5) unfolding runs_program_state m2 .
  moreover have "sys_spawn S X N M minimal_parse gdt c elf_ptr elf_len arg k = Some (?v, k2)" using head 2(1) tk(1) by simp
  ultimately show ?thesis using 2(2,3) ts 1(4) m2(1) by (intro exI [of _ ?x] exI [of _ k2]) auto
qed

lemma drop_task_ok:
  assumes mem: "mem_ok S wfS N wfN k" "kernel_ok S wfS N k" and ut: "is_user_task k t task" and pt: "ti_user_page_table (t_inner task) = Some (t_cr3 task)"
    and st: "stack_at N (k_mmu k) (vm_l4_phys_frame (k_virtual_memory k)) (ti_kernel_stack (t_inner task)) fs"
  shows "\<exists>k'. drop_task S X N M t k = Some k' \<and> mem_ok S wfS N wfN k' \<and> kernel_ok S wfS N k' \<and> k_tasks k' = (k_tasks k)(t := None) \<and>
    retyped_frames N (mu_pm (k_mmu k)) (owned_frames N (mu_pm (k_mmu k)) (mu_tables (k_mmu k)) (t_cr3 task) \<union> set fs) Usable (mu_pm (k_mmu k')) \<and>
    others_kept (user_roots k') (k_mmu k) (k_mmu k')"
proof -
  let ?O = "owned_frames N (mu_pm (k_mmu k)) (mu_tables (k_mmu k)) (t_cr3 task)" and ?stack = "ti_kernel_stack (t_inner task)"
  obtain pm where d: "TaskInner_drop X N (k_hhdm k) (t_inner task) (k_mmu k) = Some ((k_mmu k) \<lparr> mu_pm := pm \<rparr>)"
      "retyped_frames N (mu_pm (k_mmu k)) ?O Usable pm"
      "mem_ok S wfS N wfN (k \<lparr> k_mmu := (k_mmu k) \<lparr> mu_pm := pm \<rparr>, k_tasks := (k_tasks k)(t := None) \<rparr>)"
    using TaskInner_drop_ok [OF mem(1) ut pt] by blast
  let ?u = "(k_mmu k) \<lparr> mu_pm := pm \<rparr>" let ?k1 = "k \<lparr> k_mmu := ?u \<rparr>" let ?ka = "?k1 \<lparr> k_tasks := (k_tasks k)(t := None) \<rparr>"
  have sp: "spaces_ok N (user_roots k) (mu_pm (k_mmu k)) (mu_tables (k_mmu k))" using mem(1) by (simp add: mem_ok_def mmu_ok_def)
  have "\<forall>f\<in>?O. frame_has N (mu_pm (k_mmu k)) f UsedByUserMode"
    using spaces_tables [OF sp user_task_root [OF ut]] unfolding owned_frames_def by blast
  then have kk: "kernel_kept N (k_mmu k) ?u" by (rule kernel_kept_free [OF d(2)])
  have k1: "kernel_ok S wfS N ?k1" by (rule kernel_ok_kept [OF mem(2) kk])
  have st1: "stack_at N (k_mmu ?k1) (vm_l4_phys_frame (k_virtual_memory ?k1)) ?stack fs" using stack_at_free [OF st kk] by simp
  have m1: "mmu_ok N wfN (k_hhdm ?k1) (user_roots ?ka) (k_mmu ?k1)" using d(3) by (simp add: mem_ok_def)
  obtain k2 where g: "GuardedStack_drop S X N M ?stack ?k1 = Some k2" "kernel_ok S wfS N k2" "mmu_ok N wfN (k_hhdm k2) (user_roots ?ka) (k_mmu k2)"
      "stack_dropped S N (user_roots ?ka) ?stack fs ?k1 k2"
    using drop_stack_ok [OF m1 k1 st1] by blast
  note sc = stack_drop_sched [OF g(1)]
  let ?k' = "k2 \<lparr> k_tasks := (k_tasks k2)(t := None) \<rparr>"
  have tk: "k_tasks k t = Some task" using ut by (simp add: is_user_task_def)
  have run: "drop_task S X N M t k = Some ?k'" using tk d(1) g(1) by (simp add: drop_task_def unwrap_def)
  have iu: "is_user_task ?k' s x \<longleftrightarrow> is_user_task ?ka s x" for s x using sc by (simp add: is_user_task_def)
  have ur: "user_roots ?k' = user_roots ?ka" unfolding user_roots_def iu ..
  have tr: "\<forall>r\<in>user_roots ?ka. \<forall>a<USER_LIMIT. translate (mu_tables (k_mmu k2)) r a = translate (mu_tables (k_mmu k)) r a \<and>
      user_byte (k_mmu k2) r a = user_byte (k_mmu k) r a"
  proof -
    have "\<forall>r\<in>user_roots ?ka. \<forall>a<USER_LIMIT. translate (mu_tables (k_mmu k2)) r a = translate (mu_tables (k_mmu ?k1)) r a \<and>
      user_byte (k_mmu k2) r a = user_byte (k_mmu ?k1) r a" using g(4) unfolding stack_dropped_def by blast
    moreover have "user_byte (k_mmu ?k1) r a = user_byte (k_mmu k) r a" "mu_tables (k_mmu ?k1) = mu_tables (k_mmu k)" for r a by (simp_all add: user_byte_def)
    ultimately show ?thesis by metis
  qed
  have "mem_ok S wfS N wfN ?k'"
    unfolding mem_ok_def iu ur
  proof (intro conjI allI impI)
    show "mmu_ok N wfN (k_hhdm ?k') (user_roots ?ka) (k_mmu ?k')" using g(3) by simp
    show "vset_ok S wfS (mu_tables (k_mmu ?k')) (t_cr3 x) (ti_user_vaddr_set (t_inner x))" if x: "is_user_task ?ka s x" for s x
    proof -
      have "vset_ok S wfS (mu_tables (k_mmu ?ka)) (t_cr3 x) (ti_user_vaddr_set (t_inner x))" using d(3) x unfolding mem_ok_def by blast
      moreover have "\<forall>a<USER_LIMIT. translate (mu_tables (k_mmu ?k')) (t_cr3 x) a = translate (mu_tables (k_mmu ?ka)) (t_cr3 x) a"
        using tr user_task_root [OF x] by simp
      ultimately show ?thesis unfolding vset_ok_def by metis
    qed
    show "s = s'" if "is_user_task ?ka s x" "is_user_task ?ka s' x'" "t_cr3 x = t_cr3 x'" for s x s' x'
      using d(3) that unfolding mem_ok_def by blast
  qed
  moreover have "kernel_ok S wfS N ?k'" using g(2) by (simp add: kernel_ok_def)
  moreover have "retyped_frames N (mu_pm (k_mmu k)) (?O \<union> set fs) Usable (mu_pm (k_mmu k2))"
    using retyped_frames_Un [OF d(2)] g(4) by (simp add: stack_dropped_def)
  moreover have "others_kept (user_roots ?k') (k_mmu k) (k_mmu k2)" using tr unfolding ur others_kept_def by simp
  ultimately show ?thesis using run sc by (intro exI [of _ ?k']) simp
qed

end

section \<open>A machine with a program to start\<close>

text \<open>Task 2 runs on CPU 0; its root table is in frame 0x2000 and the kernel's in frame 0x1000. Frame
  0x3000 holds the program, which is mapped at address 0x1000 of the task.\<close>

definition spawn_machine :: "((interval \<times> unit) list, (interval \<times> MemoryType) list) Stk" where
  "spawn_machine =
     \<lparr> k_cpus = [Some (sample_cpu 0 (Some 2) [])], k_tasks = [2 \<mapsto> pages_task 2], k_task_table = {2},
       k_next_spawn_cpu = 0, k_next_task_id = 3, k_ipis = [], k_hhdm = HIGHER_HALF_START,
       k_mmu = \<lparr> mu_pm = \<lparr> pm_map = [((0x1000, 0x1FFF), UsedByKernel PageTables), ((0x2000, 0x3FFF), UsedByUserMode), ((0x4000, 0xFFFFFF), Usable)] \<rparr>,
                 mu_tables = (\<lambda>_. PageTable_new), mu_bytes = (\<lambda>_. 0) \<rparr>,
       k_virtual_memory = sample_vm, k_new_kernel_cr3 = 0x1000, k_shared_bufs = Map.empty, k_next_buf_id = 1,
       k_stack_guard_pages = Map.empty \<rparr>"

lemma spawn_machine_types:
  "type_at list_map_ops (mu_pm (k_mmu spawn_machine)) a =
     (if 0x1000 \<le> a \<and> a \<le> 0x1FFF then Some (UsedByKernel PageTables) else if 0x2000 \<le> a \<and> a \<le> 0x3FFF then Some UsedByUserMode
      else if 0x4000 \<le> a \<and> a \<le> 0xFFFFFF then Some Usable else None)"
  by (simp add: type_at_def spawn_machine_def list_map_ops_def)

lemma spawn_machine_user: "is_user_task spawn_machine t task \<longleftrightarrow> t = 2 \<and> task = pages_task 2"
  by (auto simp: is_user_task_def spawn_machine_def pages_task_def)

lemma spawn_machine_roots: "user_roots spawn_machine = {0x2000}"
proof -
  have "user_roots spawn_machine = {t_cr3 (pages_task 2)}" unfolding user_roots_def spawn_machine_user by blast
  then show ?thesis by (simp add: pages_task_def)
qed

lemma spawn_machine_mmu_ok: "mmu_ok list_map_ops ivls_ok (k_hhdm spawn_machine) {0x2000} (k_mmu spawn_machine)"
proof -
  have "pm_ok list_map_ops ivls_ok (mu_pm (k_mmu spawn_machine))"
    by (auto simp: pm_ok_def spawn_machine_types split: if_splits)
      (auto simp: spawn_machine_def ivls_ok_def ivl_before_def U64_LIMIT_num PHYS_LIMIT_num)
  moreover have "hhdm_fits list_map_ops (k_hhdm spawn_machine) (mu_pm (k_mmu spawn_machine))"
  proof -
    have "k_hhdm spawn_machine = HIGHER_HALF_START" by (simp add: spawn_machine_def)
    then show ?thesis by (auto simp: hhdm_fits_def spawn_machine_types HIGHER_HALF_START_def U64_LIMIT_num split: if_splits)
  qed
  moreover have t: "mu_tables (k_mmu spawn_machine) = (\<lambda>_. PageTable_new)" by (simp add: spawn_machine_def)
  have "spaces_ok list_map_ops {0x2000} (mu_pm (k_mmu spawn_machine)) (mu_tables (k_mmu spawn_machine))"
    unfolding t by (rule spaces_okI) (auto simp: empty_space mapped_def frame_has_def spawn_machine_types in_frame_def SIZE_4KIB_def)
  ultimately show ?thesis by (simp add: mmu_ok_def)
qed

lemma spawn_machine_kernel_ok: "kernel_ok list_set_ops ivls_ok list_map_ops spawn_machine"
proof -
  have v: "k_virtual_memory spawn_machine = sample_vm" "mu_tables (k_mmu spawn_machine) = (\<lambda>_. PageTable_new)" by (simp_all add: spawn_machine_def)
  have "vm_ok list_set_ops ivls_ok sample_vm"
    by (auto simp: vm_ok_def sample_vm_def ivls_ok_def ivl_before_def list_set_ops_def KERNEL_RESERVED_START_def limits)
  moreover have "frame_has list_map_ops (mu_pm (k_mmu spawn_machine)) 0x1000 kernel_type"
    by (auto simp: frame_has_def spawn_machine_types in_frame_def SIZE_4KIB_def)
  ultimately show ?thesis
    by (simp add: kernel_ok_def kernel_typed_def kernel_tables_def no_tables v) (simp add: sample_vm_def)
qed

lemma spawn_machine_sched_ok: "sched_ok spawn_machine"
  by (simp add: sched_ok_def spawn_machine_def sample_cpu_def pages_task_def cpu_ok_def rq_tasks_def task_ok_def
      canonical_num PHYS_LIMIT_num SIZE_4KIB_def)

lemma spawn_machine_frames: "500 \<le> card (available_frames list_map_ops (mu_pm (k_mmu spawn_machine)))"
proof -
  have "(\<lambda>i. (i + 4) * 4096) ` {..<500} \<subseteq> available_frames list_map_ops (mu_pm (k_mmu spawn_machine))"
    by (auto simp: available_frames_def frame_available_def spawn_machine_types SIZE_4KIB_def)
  moreover have "available_frames list_map_ops (mu_pm (k_mmu spawn_machine)) \<subseteq> {..0xFFFFFF}"
    by (auto simp: available_frames_def frame_available_def spawn_machine_types split: if_splits)
  then have "finite (available_frames list_map_ops (mu_pm (k_mmu spawn_machine)))" by (rule finite_subset) simp
  ultimately have "card ((\<lambda>i. (i + 4) * 4096 :: nat) ` {..<500}) \<le> card (available_frames list_map_ops (mu_pm (k_mmu spawn_machine)))"
    by (intro card_mono)
  moreover have "card ((\<lambda>i. (i + 4) * 4096 :: nat) ` {..<500}) = 500" by (subst card_image) (auto simp: inj_on_def)
  ultimately show ?thesis by simp
qed

text \<open>The program's page can be mapped, and then the machine meets every condition of the call.\<close>

lemma spawn_machine_mapped:
  obtains u where "mem_ok list_set_ops ivls_ok list_map_ops ivls_ok (spawn_machine \<lparr> k_mmu := u \<rparr>)"
    "kernel_ok list_set_ops ivls_ok list_map_ops (spawn_machine \<lparr> k_mmu := u \<rparr>)"
    "497 \<le> card (available_frames list_map_ops (mu_pm u))" "\<forall>a. in_frame 0x1000 a \<longrightarrow> user_byte u 0x2000 a = Some 0"
proof -
  let ?u = "k_mmu spawn_machine" and ?N = list_map_ops
  let ?fl = "no_flags \<lparr> pf_present := True, pf_user_accessible := True \<rparr>"
  have t: "mu_tables ?u = (\<lambda>_. PageTable_new)" "mu_bytes ?u = (\<lambda>_. 0)" by (simp_all add: spawn_machine_def)
  have sp: "spaces_ok ?N {0x2000} (mu_pm ?u) (mu_tables ?u)" "pm_ok ?N ivls_ok (mu_pm ?u)" and hf: "hhdm_fits ?N (k_hhdm spawn_machine) (mu_pm ?u)"
    using spawn_machine_mmu_ok by (simp_all add: mmu_ok_def)
  have fr: "frame_has ?N (mu_pm ?u) 0x3000 UsedByUserMode" by (auto simp: frame_has_def spawn_machine_types in_frame_def SIZE_4KIB_def)
  have fl: "pf_present ?fl" "\<not> pf_huge_page ?fl" by (simp_all add: no_flags_def)
  have pg: "0x1000 < USER_LIMIT" "(0x1000::nat) mod SIZE_4KIB = 0" "(0x2000::nat) \<in> {0x2000}" by (simp_all add: USER_LIMIT_def SIZE_4KIB_def)
  have nt: "user_typed ?N (mu_pm ?u) 0x3000" "\<forall>r\<in>{0x2000}. 0x3000 \<notin> user_tables (mu_tables ?u) r"
    "frame_has ?N (mu_pm ?u) 0x3000 UsedByUserMode \<longrightarrow> (\<forall>r a e. mapped {0x2000} (mu_tables ?u) r a e \<longrightarrow> pe_addr e \<noteq> 0x3000)"
    using fr by (auto simp: user_typed_def t empty_space mapped_def)
  obtain r pm tb fs where
    m: "map_user_page x86_arith_ops ?N walk_mapper 0x2000 0x1000 0x3000 ?fl ?u = Some (r, ?u \<lparr> mu_pm := pm, mu_tables := tb \<rparr>)"
      "spaces_ok ?N {0x2000} pm tb" "pm_ok ?N ivls_ok pm" "retyped_frames ?N (mu_pm ?u) fs UsedByUserMode pm" "\<forall>f\<in>fs. frame_has ?N (mu_pm ?u) f Usable"
      "available_frames ?N pm = available_frames ?N (mu_pm ?u) - fs" "finite fs" "card fs \<le> 3"
    and o: "case r of Inr _ \<Rightarrow> translate (mu_tables ?u) 0x2000 0x1000 = None \<and>
          page_changed {0x2000} 0x2000 0x1000 (Some \<lparr> pe_addr = 0x3000, pe_flags = ?fl \<rparr>) (mu_tables ?u) fs tb
      | Inl _ \<Rightarrow> page_changed {0x2000} 0x2000 0x1000 (translate (mu_tables ?u) 0x2000 0x1000) (mu_tables ?u) fs tb \<and>
         (translate (mu_tables ?u) 0x2000 0x1000 = None \<longrightarrow> (\<forall>g. \<not> frame_available ?N pm g))"
    by (rule list_mappings.map_user_page_ok [OF sp pg(3,1,2) fl nt])
  let ?u' = "?u \<lparr> mu_pm := pm, mu_tables := tb \<rparr>" let ?k = "spawn_machine \<lparr> k_mmu := ?u' \<rparr>"
  have c: "497 \<le> card (available_frames ?N pm)"
    using spawn_machine_frames diff_card_le_card_Diff [OF m(7), of "available_frames ?N (mu_pm ?u)"] m(6,8) by simp
  then have "available_frames ?N pm \<noteq> {}" by auto
  then have tr: "translate tb 0x2000 a = (if in_frame 0x1000 a then Some \<lparr> pe_addr = 0x3000, pe_flags = ?fl \<rparr> else None)" if "a < USER_LIMIT" for a
    using o that by (auto simp: t empty_space available_frames_def page_changed_def split: sum.splits)
  have kk: "kernel_kept ?N ?u ?u'" by (rule list_mappings.map_user_page_kept [OF sp pg(3,1,2) fl fr m(1)])
  have hh: "hhdm_fits ?N (k_hhdm spawn_machine) pm" using hhdm_retype [OF hf m(4)] m(5) by blast
  have ur: "user_roots ?k = {0x2000}" "\<And>t task. is_user_task ?k t task \<longleftrightarrow> t = 2 \<and> task = pages_task 2"
    using spawn_machine_roots spawn_machine_user by (simp_all add: user_roots_def is_user_task_def)
  have "vset_ok list_set_ops ivls_ok tb 0x2000 [((0x1000, 0x1FFF), ())]"
    using tr by (auto simp: vset_ok_def ivls_ok_def list_set_ops_def USER_LIMIT_def U64_LIMIT_num in_frame_def SIZE_4KIB_def split: if_splits)
  then have "mem_ok list_set_ops ivls_ok ?N ivls_ok ?k"
    unfolding mem_ok_def ur using m(2,3) hh by (simp add: mmu_ok_def pages_task_def)
  moreover have "user_byte ?u' 0x2000 a = Some 0" if "in_frame 0x1000 a" for a
  proof -
    have "a < USER_LIMIT" using that by (simp add: in_frame_def SIZE_4KIB_def USER_LIMIT_def)
    then show ?thesis using tr that by (simp add: user_byte_def t)
  qed
  ultimately show ?thesis using that [of ?u'] kernel_ok_kept [OF spawn_machine_kernel_ok kk] c by simp
qed

definition sample_append :: "nat \<Rightarrow> Descriptor \<Rightarrow> nat \<times> nat" where
  "sample_append n d = (8 * n + (if d = user_data_segment \<or> d = user_code_segment then 3 else 0), n + (if d = tss_segment then 2 else 1))"

definition sample_elf :: ElfBytes where
  "sample_elf = \<lparr> eb_segments = Some [sample_header], eb_entry = 0x400010 \<rparr>"

lemma sample_append_ok: "gdt_appends sample_append"
  by (simp add: gdt_appends_def sample_append_def)

lemma sample_elf_simps [simp]: "eb_segments sample_elf = Some [sample_header]" "eb_entry sample_elf = 0x400010" "eb_entry sample_elf \<noteq> 0"
  by (simp_all add: sample_elf_def)

lemma spawn_machine_ready:
  obtains k :: "((interval \<times> unit) list, (interval \<times> MemoryType) list) Stk" and bytes where
    "mem_ok list_set_ops ivls_ok list_map_ops ivls_ok k" "kernel_ok list_set_ops ivls_ok list_map_ops k" "sched_ok k"
    "k_new_kernel_cr3 k = vm_l4_phys_frame (k_virtual_memory k)" "current_user_task 0 k = Some (Some (2, pages_task 2))"
    "validate_user_ptr list_set_ops x86_arith_ops 0 0x1000 8 k = Some True" "0 < (8::nat)" "8 \<le> MAX_ELF_LEN"
    "user_slice (k_mmu k) (t_cr3 (pages_task 2)) 0x1000 8 = Some bytes" "sample_parse bytes = Some sample_elf" "segments_fit bytes [sample_header]"
    "spawn_room list_set_ops list_map_ops [sample_header] k" "k_tasks k (k_next_task_id k) = None"
    "k_next_task_id k \<notin> k_task_table k" "k_next_spawn_cpu k + length (k_cpus k) < U64_LIMIT" "k_next_task_id k = 3"
proof -
  obtain u where u: "mem_ok list_set_ops ivls_ok list_map_ops ivls_ok (spawn_machine \<lparr> k_mmu := u \<rparr>)"
      "kernel_ok list_set_ops ivls_ok list_map_ops (spawn_machine \<lparr> k_mmu := u \<rparr>)"
      "497 \<le> card (available_frames list_map_ops (mu_pm u))" "\<forall>a. in_frame 0x1000 a \<longrightarrow> user_byte u 0x2000 a = Some 0"
    by (rule spawn_machine_mapped)
  let ?k = "spawn_machine \<lparr> k_mmu := u \<rparr>" and ?bs = "replicate 8 (0 :: 8 word)"
  have k: "k_virtual_memory ?k = sample_vm" "k_new_kernel_cr3 ?k = vm_l4_phys_frame (k_virtual_memory ?k)" "k_tasks ?k (k_next_task_id ?k) = None"
    "k_next_task_id ?k \<notin> k_task_table ?k" "k_next_spawn_cpu ?k + length (k_cpus ?k) < U64_LIMIT" "k_next_task_id ?k = 3"
    by (simp_all add: spawn_machine_def sample_vm_def U64_LIMIT_num)
  have so: "sched_ok ?k" using spawn_machine_sched_ok sched_ok_cong [of ?k spawn_machine] by simp
  have cur: "current_user_task 0 ?k = Some (Some (2, pages_task 2))"
    by (simp add: current_user_task_def get_cpu_def spawn_machine_def sample_cpu_def pages_task_def)
  have v: "validate_user_ptr list_set_ops x86_arith_ops 0 0x1000 8 ?k = Some True"
    using validate_user_ptr_spec [OF list_space.page_space_axioms, of ?k 0 "sample_cpu 0 (Some 2) []" "\<lparr> current_task = Some 2, ready = [] \<rparr>" 2 "pages_task 2" "0x1000" 8]
    by (simp add: get_cpu_def spawn_machine_def sample_cpu_def pages_task_def ivls_ok_def space_used_def list_set_ops_def USER_MIN_def USER_MAX_def LOWER_HALF_END_def U64_LIMIT_num)
  have sl: "user_slice (k_mmu ?k) (t_cr3 (pages_task 2)) 0x1000 8 = Some ?bs"
  proof -
    have "map (\<lambda>i. user_byte u 0x2000 (0x1000 + i)) [0..<8] = map Some ?bs"
      by (rule nth_equalityI) (use u(4) in \<open>simp_all add: in_frame_def SIZE_4KIB_def\<close>)
    then show ?thesis by (simp add: user_slice_def those_Some pages_task_def)
  qed
  have elf: "sample_parse ?bs = Some sample_elf" by (simp add: sample_parse_def sample_elf_def)
  have fit: "segments_fit ?bs [sample_header]"
    by (simp add: segments_fit_def load_headers_def segment_fits_def sample_header_def stack_nums ElfSegmentType_Load_def)
  have "space_free list_set_ops (vm_set sample_vm) 0xFFFF800000100000 (65 * SIZE_4KIB)"
    by (auto simp: space_free_def sample_vm_def list_set_ops_def SIZE_4KIB_def)
  then have "\<exists>a. a mod SIZE_4KIB = 0 \<and> HIGHER_HALF_START \<le> a \<and> a + 65 * SIZE_4KIB - 1 \<le> u64_MAX \<and> space_free list_set_ops (vm_set sample_vm) a (65 * SIZE_4KIB)"
    by (intro exI [of _ "0xFFFF800000100000"]) (simp add: SIZE_4KIB_def HIGHER_HALF_START_def u64_MAX_num)
  then have rm: "spawn_room list_set_ops list_map_ops [sample_header] ?k" using u(3) by (simp add: spawn_room_def sample_header_pages k)
  have len: "0 < (8::nat)" "8 \<le> MAX_ELF_LEN" by (simp_all add: MAX_ELF_LEN_def)
  show ?thesis by (rule that [OF u(1,2) so k(2) cur v len sl elf fit rm k(3-6)])
qed

section \<open>Properties\<close>

text \<open>C3. \<^verbatim>\<open>sys_spawn\<close> starts the program it is given. For a readable program that parses, whose
  segments fit the user half and for which there is room, it returns the next task id. The new task is
  ready and placed on exactly one CPU; its address space holds the program's segments, zeros behind them,
  and a stack, it starts at the entry point with the given argument, and it has a guarded kernel stack of
  its own. Every other task sees the memory it saw before, and the invariants of the scheduler, of the
  address spaces and of the kernel's own space hold again.\<close>

theorem spawn_starts_program:
  fixes k :: "('s, 'm, 'z) Stk_scheme"
  assumes "user_memory N wfN X M S wfS" "mem_ok S wfS N wfN k" "kernel_ok S wfS N k" "sched_ok k"
    and "k_new_kernel_cr3 k = vm_l4_phys_frame (k_virtual_memory k)" "current_user_task c k = Some (Some (t0, task0))"
    and "validate_user_ptr S X c elf_ptr elf_len k = Some True" "0 < elf_len" "elf_len \<le> MAX_ELF_LEN"
      "user_slice (k_mmu k) (t_cr3 task0) elf_ptr elf_len = Some bytes"
    and "minimal_parse bytes = Some elf" "eb_segments elf = Some segs" "eb_entry elf \<noteq> 0" "segments_fit bytes segs"
    and "gdt_appends append1" "spawn_room S N segs k"
    and "k_tasks k (k_next_task_id k) = None" "k_next_task_id k \<notin> k_task_table k" "k_next_spawn_cpu k + length (k_cpus k) < U64_LIMIT"
  shows "\<exists>task k'. sys_spawn S X N M minimal_parse (Gdt_new append1) c elf_ptr elf_len arg k = Some (k_next_task_id k, k') \<and> mem_ok S wfS N wfN k' \<and>
    kernel_ok S wfS N k' \<and> sched_ok k' \<and> others_kept (user_roots k) (k_mmu k) (k_mmu k') \<and> k_tasks k' = (k_tasks k)(k_next_task_id k \<mapsto> task) \<and>
    mset (placed k') = add_mset (k_next_task_id k) (mset (placed k)) \<and> t_state task = Ready \<and>
    runs_program S wfS N bytes segs (eb_entry elf) arg (k_mmu k') (vm_l4_phys_frame (k_virtual_memory k')) task"
proof -
  have "user_code_selector (Gdt_new append1) = 0x23" using gdt_selectors [OF assms(15)] by simp
  then show ?thesis using user_memory.sys_spawn_ok [where minimal_parse = minimal_parse and arg = arg, OF assms(1-14) _ assms(16-19)] by blast
qed

theorem spawn_starts_program_witness:
  "\<exists>(k :: ((interval \<times> unit) list, (interval \<times> MemoryType) list) Stk) task k'.
     sys_spawn list_set_ops x86_arith_ops list_map_ops walk_mapper sample_parse (Gdt_new sample_append) 0 0x1000 8 7 k = Some (3, k') \<and>
     k_tasks k 3 = None \<and> k_tasks k' 3 = Some task \<and> t_state task = Ready \<and> ctx_rip (ti_context (t_inner task)) = 0x400010"
proof -
  obtain k :: "((interval \<times> unit) list, (interval \<times> MemoryType) list) Stk" and bytes where
    k: "mem_ok list_set_ops ivls_ok list_map_ops ivls_ok k" "kernel_ok list_set_ops ivls_ok list_map_ops k" "sched_ok k"
    "k_new_kernel_cr3 k = vm_l4_phys_frame (k_virtual_memory k)" "current_user_task 0 k = Some (Some (2, pages_task 2))"
    "validate_user_ptr list_set_ops x86_arith_ops 0 0x1000 8 k = Some True" "0 < (8::nat)" "8 \<le> MAX_ELF_LEN"
    "user_slice (k_mmu k) (t_cr3 (pages_task 2)) 0x1000 8 = Some bytes" "sample_parse bytes = Some sample_elf" "segments_fit bytes [sample_header]"
    "spawn_room list_set_ops list_map_ops [sample_header] k" "k_tasks k (k_next_task_id k) = None"
    "k_next_task_id k \<notin> k_task_table k" "k_next_spawn_cpu k + length (k_cpus k) < U64_LIMIT" "k_next_task_id k = 3"
    by (rule spawn_machine_ready)
  obtain task k' where r: "sys_spawn list_set_ops x86_arith_ops list_map_ops walk_mapper sample_parse (Gdt_new sample_append) 0 0x1000 8 7 k = Some (3, k')"
      "k_tasks k' = (k_tasks k)(3 \<mapsto> task)" "t_state task = Ready" "ctx_rip (ti_context (t_inner task)) = 0x400010"
    using spawn_starts_program [where minimal_parse = sample_parse and arg = 7, OF list_user_memory.user_memory_axioms k(1-10) sample_elf_simps(1,3) k(11)
        sample_append_ok k(12-15)] unfolding k(16) runs_program_def by auto
  then show ?thesis using k(13,16) by (intro exI [of _ k] exI [of _ task] exI [of _ k']) simp
qed

text \<open>C16. Dropping a user task gives back all its memory: its page tables, the private frames its pages
  map, and the frames of its kernel stack become free, and no other frame changes its type. Every other
  task sees the memory it saw before, and the address spaces and the kernel's own space keep their
  invariants.\<close>

theorem drop_task_returns_memory:
  fixes k :: "('s, 'm, 'z) Stk_scheme"
  assumes "user_memory N wfN X M S wfS" "mem_ok S wfS N wfN k" "kernel_ok S wfS N k" "is_user_task k t task"
    and "ti_user_page_table (t_inner task) = Some (t_cr3 task)"
    and "stack_at N (k_mmu k) (vm_l4_phys_frame (k_virtual_memory k)) (ti_kernel_stack (t_inner task)) fs"
  shows "\<exists>k'. drop_task S X N M t k = Some k' \<and> mem_ok S wfS N wfN k' \<and> kernel_ok S wfS N k' \<and> k_tasks k' = (k_tasks k)(t := None) \<and>
    retyped_frames N (mu_pm (k_mmu k)) (owned_frames N (mu_pm (k_mmu k)) (mu_tables (k_mmu k)) (t_cr3 task) \<union> set fs) Usable (mu_pm (k_mmu k')) \<and>
    others_kept (user_roots k') (k_mmu k) (k_mmu k')"
  by (rule user_memory.drop_task_ok [OF assms])

theorem drop_task_returns_memory_witness:
  "\<exists>(k :: ((interval \<times> unit) list, (interval \<times> MemoryType) list) Stk) k1 k2.
     sys_spawn list_set_ops x86_arith_ops list_map_ops walk_mapper sample_parse (Gdt_new sample_append) 0 0x1000 8 7 k = Some (3, k1) \<and>
     drop_task list_set_ops x86_arith_ops list_map_ops walk_mapper 3 k1 = Some k2 \<and> k_tasks k2 = k_tasks k"
proof -
  obtain k :: "((interval \<times> unit) list, (interval \<times> MemoryType) list) Stk" and bytes where
    k: "mem_ok list_set_ops ivls_ok list_map_ops ivls_ok k" "kernel_ok list_set_ops ivls_ok list_map_ops k" "sched_ok k"
    "k_new_kernel_cr3 k = vm_l4_phys_frame (k_virtual_memory k)" "current_user_task 0 k = Some (Some (2, pages_task 2))"
    "validate_user_ptr list_set_ops x86_arith_ops 0 0x1000 8 k = Some True" "0 < (8::nat)" "8 \<le> MAX_ELF_LEN"
    "user_slice (k_mmu k) (t_cr3 (pages_task 2)) 0x1000 8 = Some bytes" "sample_parse bytes = Some sample_elf" "segments_fit bytes [sample_header]"
    "spawn_room list_set_ops list_map_ops [sample_header] k" "k_tasks k (k_next_task_id k) = None"
    "k_next_task_id k \<notin> k_task_table k" "k_next_spawn_cpu k + length (k_cpus k) < U64_LIMIT" "k_next_task_id k = 3"
    by (rule spawn_machine_ready)
  have cs: "user_code_selector (Gdt_new sample_append) = 0x23" using gdt_selectors [OF sample_append_ok] by simp
  obtain task k1 fs where r: "sys_spawn list_set_ops x86_arith_ops list_map_ops walk_mapper sample_parse (Gdt_new sample_append) 0 0x1000 8 7 k = Some (3, k1)"
      "mem_ok list_set_ops ivls_ok list_map_ops ivls_ok k1" "kernel_ok list_set_ops ivls_ok list_map_ops k1" "k_tasks k1 = (k_tasks k)(3 \<mapsto> task)"
      "t_kind task = User" "ti_user_page_table (t_inner task) = Some (t_cr3 task)"
      "stack_at list_map_ops (k_mmu k1) (vm_l4_phys_frame (k_virtual_memory k1)) (ti_kernel_stack (t_inner task)) fs"
    using list_user_memory.sys_spawn_ok [where minimal_parse = sample_parse and arg = 7, OF k(1-10) sample_elf_simps(1,3) k(11) cs k(12-15)]
    unfolding k(16) runs_program_def by auto
  have ut: "is_user_task k1 3 task" using r(4,5) by (simp add: is_user_task_def)
  obtain k2 where "drop_task list_set_ops x86_arith_ops list_map_ops walk_mapper 3 k1 = Some k2" "k_tasks k2 = (k_tasks k1)(3 := None)"
    using drop_task_returns_memory [OF list_user_memory.user_memory_axioms r(2,3) ut r(6,7)] by blast
  moreover have "(k_tasks k)(3 := None) = k_tasks k" using k(13,16) by (intro fun_upd_idem) simp
  ultimately show ?thesis using r(1,4) by (intro exI [of _ k] exI [of _ k1] exI [of _ k2]) simp
qed

end
