(* ===== verification/Boot_Tables.thy ===== *)
theory Boot_Tables
  imports Kernel_Stacks
begin

text \<open>
  Building the kernel's own page tables at boot: \<^verbatim>\<open>create_page_tables\<close> of
  \<^verbatim>\<open>memory/page_tables.rs\<close> and \<^verbatim>\<open>init_bsp\<close> of \<^verbatim>\<open>memory/mod.rs\<close>. Every frame of the
  memory map that the kernel may touch is mapped at the offset of the direct map, the entry of the
  kernel image is copied from the boot loader's table, and the ranges in use are recorded. The frames
  this takes are counted: a table is made only where none is present, so one for each table-sized
  stretch of addresses that holds a mapped page.
\<close>

section \<open>Operations\<close>

definition direct_mapped :: "EntryType \<Rightarrow> bool" where
  "direct_mapped t \<longleftrightarrow> t = USABLE \<or> t = BOOTLOADER_RECLAIMABLE \<or> t = EXECUTABLE_AND_MODULES \<or> t = FRAMEBUFFER"

definition hhdm_flags :: PageTableFlags where
  "hhdm_flags = no_flags \<lparr> pf_present := True, pf_writable := True \<rparr>"

definition map_hhdm_page ::
    "x86_ops \<Rightarrow> ('m, MemoryType) nodit_map_ops \<Rightarrow> 'm PhysicalMemoryFrameAllocator mapper_ops \<Rightarrow> nat \<Rightarrow> nat \<Rightarrow> nat \<Rightarrow>
     page_memory \<times> 'm PhysicalMemoryFrameAllocator \<Rightarrow> (page_memory \<times> 'm PhysicalMemoryFrameAllocator) rust" where
  "map_hhdm_page X N M hhdm root a st =
     do { phys \<leftarrow> phys_addr_new X a;
          v \<leftarrow> add_u64 hhdm a;
          virt \<leftarrow> virt_addr_new X v;
          (r, t, fa) \<leftarrow> map_to M (allocate_frame_4kib X N) root (page_containing_address X virt) (frame_containing_address X phys)
                          hhdm_flags (fst st) (snd st);
          assert_that (\<not> isl r);
          Some (t, fa) }"

text \<open>The addresses \<^verbatim>\<open>(start..end).step_by(4096)\<close> of an entry.\<close>

definition entry_pages :: "memmap_entry \<Rightarrow> nat list" where
  "entry_pages e =
     (if direct_mapped (entry_type e) then map (\<lambda>i. entry_base e + i * SIZE_4KIB) [0..<div_ceil (entry_length e) SIZE_4KIB] else [])"

definition map_hhdm_entry ::
    "x86_ops \<Rightarrow> ('m, MemoryType) nodit_map_ops \<Rightarrow> 'm PhysicalMemoryFrameAllocator mapper_ops \<Rightarrow> nat \<Rightarrow> nat \<Rightarrow> memmap_entry \<Rightarrow>
     page_memory \<times> 'm PhysicalMemoryFrameAllocator \<Rightarrow> (page_memory \<times> 'm PhysicalMemoryFrameAllocator) rust" where
  "map_hhdm_entry X N M hhdm root e st =
     (if direct_mapped (entry_type e)
      then do { _ \<leftarrow> add_u64 (entry_base e) (entry_length e); fold_rust (map_hhdm_page X N M hhdm root) (entry_pages e) st }
      else Some st)"

definition add_hhdm_range :: "'s nodit_set_ops \<Rightarrow> nat \<Rightarrow> memmap_entry \<Rightarrow> 's \<Rightarrow> 's rust" where
  "add_hhdm_range S hhdm e s =
     (if direct_mapped (entry_type e)
      then do { start \<leftarrow> add_u64 hhdm (entry_base e div 4096 * 4096);
                b \<leftarrow> add_u64 (entry_base e) (entry_length e);
                l \<leftarrow> sub_u64 b 1;
                p \<leftarrow> add_u64 hhdm (l div 4096 * 4096);
                last_addr \<leftarrow> add_u64 p 4095;
                ns_insert_merge_touching_or_overlapping S s (start, last_addr) }
      else Some s)"

text \<open>The table in use and its flags, from \<^verbatim>\<open>Cr3::read\<close>, are arguments.\<close>

definition create_page_tables ::
    "'s nodit_set_ops \<Rightarrow> x86_ops \<Rightarrow> ('m, MemoryType) nodit_map_ops \<Rightarrow> 'm PhysicalMemoryFrameAllocator mapper_ops \<Rightarrow>
     nat \<Rightarrow> nat \<Rightarrow> 'f \<Rightarrow> memmap_entry list \<Rightarrow> 'm Mmu \<Rightarrow> (nat \<times> 'f \<times> 's VirtualMemoryAllocator \<times> 'm Mmu) rust" where
  "create_page_tables S X N M hhdm current_l4_frame cr3_flags memory_map u =
     do { (f, fa) \<leftarrow> allocate_frame_4kib X N (get_kernel_frame_allocator (mu_pm u));
          l4_frame \<leftarrow> unwrap f;
          v \<leftarrow> add_u64 hhdm l4_frame;
          _ \<leftarrow> virt_addr_new X v;
          _ \<leftarrow> virt_addr_new X hhdm;
          (t, fa1) \<leftarrow> fold_rust (map_hhdm_entry X N M hhdm l4_frame) memory_map ((mu_tables u)(l4_frame := PageTable_new), fa);
          w \<leftarrow> add_u64 hhdm current_l4_frame;
          _ \<leftarrow> virt_addr_new X w;
          let t1 = set_entry t l4_frame 511 (t current_l4_frame 511);
          s \<leftarrow> fold_rust (add_hhdm_range S hhdm) memory_map (ns_default S);
          ins \<leftarrow> ns_insert_merge_touching S s (KERNEL_RESERVED_START, u64_MAX);
          s' \<leftarrow> unwrap ins;
          Some (l4_frame, cr3_flags, \<lparr> vm_set = s', vm_l4_phys_frame = l4_frame \<rparr>,
                u \<lparr> mu_pm := fa_physical_memory fa1, mu_tables := t1 \<rparr>) }"

text \<open>\<^verbatim>\<open>init_bsp\<close>, with the contents of memory before it as arguments. The last two results are the
  fields of \<^verbatim>\<open>MEMORY\<close> that it also writes to the register.\<close>

definition init_bsp ::
    "'s nodit_set_ops \<Rightarrow> x86_ops \<Rightarrow> ('m, MemoryType) nodit_map_ops \<Rightarrow> 'm PhysicalMemoryFrameAllocator mapper_ops \<Rightarrow>
     (nat \<Rightarrow> nat \<Rightarrow> bool) \<Rightarrow> nat \<Rightarrow> nat \<Rightarrow> 'f \<Rightarrow> memmap_entry list \<Rightarrow> page_memory \<Rightarrow> (nat \<Rightarrow> 8 word) \<Rightarrow>
     ('m Mmu \<times> 's VirtualMemoryAllocator \<times> nat \<times> 'f) rust" where
  "init_bsp S X N M talc_claim hhdm current_l4_frame cr3_flags memory_map t bytes =
     do { global_allocator_start \<leftarrow> global_allocator_init X talc_claim hhdm memory_map;
          physical_memory \<leftarrow> PhysicalMemory_new N memory_map global_allocator_start;
          (new_kernel_cr3, new_kernel_cr3_flags, virtual_memory, u) \<leftarrow>
            create_page_tables S X N M hhdm current_l4_frame cr3_flags memory_map
              \<lparr> mu_pm = physical_memory, mu_tables = t, mu_bytes = bytes \<rparr>;
          Some (u, virtual_memory, new_kernel_cr3, new_kernel_cr3_flags) }"

section \<open>Counting tables\<close>

text \<open>The stretch of addresses one table of level \<open>k - 1\<close> serves.\<close>

definition stretch :: "nat \<Rightarrow> nat \<Rightarrow> nat" where
  "stretch k a = a div SIZE_4KIB div 512 ^ k"

definition tables_needed :: "nat set \<Rightarrow> nat" where
  "tables_needed P = card (stretch 1 ` P) + card (stretch 2 ` P) + card (stretch 3 ` P)"

definition new_stretches :: "nat set \<Rightarrow> nat \<Rightarrow> nat set" where
  "new_stretches P p = {k \<in> {1, 2, 3}. stretch k p \<notin> stretch k ` P}"

lemma stretch_up: "stretch k a = stretch k b \<Longrightarrow> k \<le> l \<Longrightarrow> stretch l a = stretch l b"
proof -
  assume h: "stretch k a = stretch k b" "k \<le> l"
  have "(512::nat) ^ l = 512 ^ k * 512 ^ (l - k)" using h(2) by (simp add: power_add [symmetric])
  then have "stretch l x = stretch k x div 512 ^ (l - k)" for x by (simp only: stretch_def div_mult2_eq)
  then show ?thesis using h(1) by simp
qed

lemma stretch_index: "stretch k a = stretch k b \<Longrightarrow> k \<le> l \<Longrightarrow> page_index l a = page_index l b"
  using stretch_up [of k a b l] by (simp add: page_index_def stretch_def)

lemma walk_depth_shared:
  "walk t l tbl b \<noteq> None \<Longrightarrow> stretch k a = stretch k b \<Longrightarrow> 0 < k \<Longrightarrow> Suc l - k \<le> walk_depth t l tbl a"
proof (induction l arbitrary: tbl)
  case (Suc l)
  show ?case
  proof (cases "k \<le> Suc l")
    case True
    then have i: "page_index (Suc l) a = page_index (Suc l) b" by (rule stretch_index [OF Suc.prems(2)])
    have "links (t tbl (page_index (Suc l) b))" "walk t l (pe_addr (t tbl (page_index (Suc l) b))) b \<noteq> None"
      using Suc.prems(1) by (auto split: if_splits)
    then show ?thesis using Suc.IH [of "pe_addr (t tbl (page_index (Suc l) b))"] Suc.prems(2,3) i by auto
  qed simp
qed simp

lemma new_stretches_depth:
  assumes "\<forall>b\<in>P. walk t 3 root b \<noteq> None"
  shows "3 \<le> card (new_stretches P p) + walk_depth t 3 root p"
proof -
  have d: "4 - k \<le> walk_depth t 3 root p" if "k \<in> {1, 2, 3}" "stretch k p \<in> stretch k ` P" for k
  proof -
    from that(2) obtain b where "b \<in> P" "stretch k p = stretch k b" by blast
    then have "Suc 3 - k \<le> walk_depth t 3 root p" using assms that(1) by (intro walk_depth_shared [of t 3 root b k p]) auto
    then show ?thesis by simp
  qed
  consider "stretch 1 p \<in> stretch 1 ` P" | "stretch 1 p \<notin> stretch 1 ` P" "stretch 2 p \<in> stretch 2 ` P"
    | "stretch 1 p \<notin> stretch 1 ` P" "stretch 2 p \<notin> stretch 2 ` P" "stretch 3 p \<in> stretch 3 ` P"
    | "stretch 1 p \<notin> stretch 1 ` P" "stretch 2 p \<notin> stretch 2 ` P" "stretch 3 p \<notin> stretch 3 ` P" by blast
  then show ?thesis
  proof cases
    case 2
    then have "{1} \<subseteq> new_stretches P p" by (simp add: new_stretches_def)
    from card_mono [OF _ this] d [of 2] 2 show ?thesis by (simp add: new_stretches_def)
  next
    case 3
    then have "{1, 2} \<subseteq> new_stretches P p" by (simp add: new_stretches_def)
    from card_mono [OF _ this] d [of 3] 3 show ?thesis by (simp add: new_stretches_def)
  next
    case 4
    then have "{1, 2, 3} \<subseteq> new_stretches P p" by (simp add: new_stretches_def)
    from card_mono [OF _ this] show ?thesis by (simp add: new_stretches_def)
  qed (use d [of 1] in simp)
qed

lemma tables_needed_insert: "finite P \<Longrightarrow> tables_needed (insert p P) = tables_needed P + card (new_stretches P p)"
proof -
  assume f: "finite P"
  have i: "card (stretch k ` insert p P) = card (stretch k ` P) + (if stretch k p \<in> stretch k ` P then 0 else 1)" for k
    using f by (simp add: card_insert_if)
  have "new_stretches P p = (if stretch 1 p \<in> stretch 1 ` P then {} else {1}) \<union> (if stretch 2 p \<in> stretch 2 ` P then {} else {2}) \<union>
      (if stretch 3 p \<in> stretch 3 ` P then {} else {3})"
    by (auto simp: new_stretches_def)
  then have "card (new_stretches P p) = (if stretch 1 p \<in> stretch 1 ` P then 0 else 1) + (if stretch 2 p \<in> stretch 2 ` P then 0 else 1) +
      (if stretch 3 p \<in> stretch 3 ` P then 0 else 1)"
    by (simp del: image_insert)
  then show ?thesis unfolding tables_needed_def i by simp
qed

section \<open>The direct map\<close>

text \<open>The frames \<open>F\<close>, each at its offset.\<close>

definition hhdm_edit :: "nat \<Rightarrow> nat set \<Rightarrow> edit" where
  "hhdm_edit hhdm F = (\<lambda>a. if \<exists>f\<in>F. in_frame (hhdm + f) a
     then Some (Some \<lparr> pe_addr = (a - hhdm) div SIZE_4KIB * SIZE_4KIB, pe_flags = hhdm_flags \<rparr>) else None)"

text \<open>A frame that can be mapped at the offset.\<close>

definition hhdm_frame :: "nat \<Rightarrow> nat \<Rightarrow> bool" where
  "hhdm_frame hhdm f \<longleftrightarrow> f mod SIZE_4KIB = 0 \<and> f < PHYS_LIMIT \<and> hhdm + f + SIZE_4KIB \<le> KERNEL_RESERVED_START"

lemma hhdm_edit_empty [simp]: "hhdm_edit hhdm {} = (\<lambda>_. None)"
  by (simp add: hhdm_edit_def)

lemma in_frame_offset: "f mod SIZE_4KIB = 0 \<Longrightarrow> in_frame (c + f) a \<Longrightarrow> (a - c) div SIZE_4KIB * SIZE_4KIB = f"
proof -
  assume h: "f mod SIZE_4KIB = 0" "in_frame (c + f) a"
  define m where "m = f div SIZE_4KIB"
  have f: "f = m * SIZE_4KIB" using h(1) unfolding m_def by (metis add.right_neutral div_mult_mod_eq)
  have "(a - c) div SIZE_4KIB = m" using h(2) unfolding f in_frame_def by (intro div_nat_eqI) (auto simp: mult.commute)
  then show ?thesis using f by simp
qed

lemma in_frame_same:
  "f mod SIZE_4KIB = 0 \<Longrightarrow> g mod SIZE_4KIB = 0 \<Longrightarrow> in_frame (c + f) a \<Longrightarrow> in_frame (c + g) a \<Longrightarrow> f = g"
  by (metis in_frame_offset)

lemma hhdm_edit_insert:
  assumes "\<forall>g\<in>insert f F. g mod SIZE_4KIB = 0"
  shows "hhdm_edit hhdm F ++ page_edit (hhdm + f) (Some \<lparr> pe_addr = f, pe_flags = hhdm_flags \<rparr>) = hhdm_edit hhdm (insert f F)"
proof (rule ext)
  fix a
  have "(a - hhdm) div SIZE_4KIB * SIZE_4KIB = f" if "in_frame (hhdm + f) a" using in_frame_offset [OF _ that] assms by simp
  then show "(hhdm_edit hhdm F ++ page_edit (hhdm + f) (Some \<lparr> pe_addr = f, pe_flags = hhdm_flags \<rparr>)) a = hhdm_edit hhdm (insert f F) a"
    by (auto simp: hhdm_edit_def page_edit_def map_add_def)
qed

text \<open>An entry of the root outside the slots of a tree belongs to no walk through them.\<close>

lemma set_root_outside:
  assumes tr: "tree R t 3 root" and i: "i \<notin> R" and t'_def: "t' = set_entry t root i e"
  shows "tables R t' 3 root = tables R t 3 root" "tree R t' 3 root" "page_index 3 a \<in> R \<Longrightarrow> translate t' root a = translate t root a"
proof -
  have sl: "slots R (Suc 2) = R" by (simp add: slots_def)
  have r: "t' root j = t root j" if "j \<in> R" for j using that i by (auto simp: t'_def set_entry_def)
  have f: "\<forall>g\<in>tables R t 2 (pe_addr (t root j)). t' g = t g" if j: "j \<in> R" "links (t root j)" for j
  proof -
    have "t root j \<noteq> unused_entry" using j(2) by auto
    then have "root \<notin> tables R t 2 (pe_addr (t root j))" using tr j(1) sl unfolding numeral_3_eq_3 numeral_2_eq_2 by auto
    then show ?thesis by (metis t'_def set_entry_other)
  qed
  have T: "tables R t' 2 (pe_addr (t root j)) = tables R t 2 (pe_addr (t root j))" "tree R t' 2 (pe_addr (t root j)) = tree R t 2 (pe_addr (t root j))"
      "walk t' 2 (pe_addr (t root j)) a = walk t 2 (pe_addr (t root j)) a" if "j \<in> R" "links (t root j)" for j a
    using tables_frame [OF f [OF that]] tree_frame [OF f [OF that]] walk_frame [OF f [OF that], of a] by (simp_all add: page_index_slots)
  have three: "3 = Suc 2" by simp
  show "tables R t' 3 root = tables R t 3 root" unfolding three tables.simps sl using r T(1) by auto
  show "tree R t' 3 root"
    using tr unfolding three tree.simps sl using r T(1,2) by (metis unused_entry_simps(2))
  show "page_index 3 a \<in> R \<Longrightarrow> translate t' root a = translate t root a"
    unfolding translate_def three walk.simps using r T(3) by simp
qed

section \<open>The memory map\<close>

text \<open>What the boot protocol promises of the entries that are mapped: whole frames, which no two
  entries share, with room for their image at the offset.\<close>

definition entry_end :: "memmap_entry \<Rightarrow> nat" where
  "entry_end e = entry_base e + div_ceil (entry_length e) SIZE_4KIB * SIZE_4KIB"

definition boot_map_ok :: "nat \<Rightarrow> memmap_entry list \<Rightarrow> bool" where
  "boot_map_ok hhdm es \<longleftrightarrow> hhdm mod SIZE_4KIB = 0 \<and> HIGHER_HALF_START \<le> hhdm \<and>
     (\<forall>e\<in>set es. direct_mapped (entry_type e) \<longrightarrow> entry_base e mod SIZE_4KIB = 0 \<and> 0 < entry_length e \<and>
        entry_end e \<le> PHYS_LIMIT \<and> hhdm + entry_end e \<le> KERNEL_RESERVED_START) \<and>
     sorted_wrt (\<lambda>e e'. direct_mapped (entry_type e) \<longrightarrow> direct_mapped (entry_type e') \<longrightarrow>
       entry_end e \<le> entry_base e' \<or> entry_end e' \<le> entry_base e) es"

definition direct_pages :: "memmap_entry list \<Rightarrow> nat list" where
  "direct_pages es = concat (map entry_pages es)"

lemma entry_pages_iff:
  "f \<in> set (entry_pages e) \<longleftrightarrow> direct_mapped (entry_type e) \<and> (\<exists>i<div_ceil (entry_length e) SIZE_4KIB. f = entry_base e + i * SIZE_4KIB)"
  by (auto simp: entry_pages_def)

lemma entry_pages_bounds: "f \<in> set (entry_pages e) \<Longrightarrow> entry_base e \<le> f \<and> f + SIZE_4KIB \<le> entry_end e"
proof -
  assume "f \<in> set (entry_pages e)"
  then obtain i where i: "i < div_ceil (entry_length e) SIZE_4KIB" "f = entry_base e + i * SIZE_4KIB" by (auto simp: entry_pages_iff)
  then have "Suc i * SIZE_4KIB \<le> div_ceil (entry_length e) SIZE_4KIB * SIZE_4KIB" by (intro mult_le_mono1) simp
  then show ?thesis using i(2) by (simp add: entry_end_def)
qed

lemma entry_pages_cover:
  assumes "direct_mapped (entry_type e)" "entry_base e mod SIZE_4KIB = 0" "entry_base e \<le> a" "a < entry_end e"
  shows "a div SIZE_4KIB * SIZE_4KIB \<in> set (entry_pages e)"
proof -
  define m where "m = entry_base e div SIZE_4KIB"
  have m: "entry_base e = m * SIZE_4KIB" using assms(2) unfolding m_def by (metis add.right_neutral div_mult_mod_eq)
  have "m \<le> a div SIZE_4KIB" using assms(3) unfolding m by (metis SIZE_4KIB_pos div_le_mono nonzero_mult_div_cancel_right less_numeral_extra(3))
  moreover have "a < (m + div_ceil (entry_length e) SIZE_4KIB) * SIZE_4KIB" using assms(4) by (simp add: entry_end_def m add_mult_distrib)
  then have "a div SIZE_4KIB < m + div_ceil (entry_length e) SIZE_4KIB" by (rule less_mult_imp_div_less)
  ultimately show ?thesis using assms(1) unfolding entry_pages_iff m
    by (intro conjI exI [of _ "a div SIZE_4KIB - m"]) (simp_all add: add_mult_distrib [symmetric])
qed

lemma entry_end_pages:
  assumes "entry_base e mod SIZE_4KIB = 0" "0 < entry_length e"
  shows "entry_base e div 4096 * 4096 = entry_base e" "(entry_base e + entry_length e - 1) div 4096 * 4096 + 4096 = entry_end e"
    "entry_base e + entry_length e \<le> entry_end e"
proof -
  define m where "m = entry_base e div 4096"
  have m: "entry_base e = m * 4096" using assms(1) unfolding m_def SIZE_4KIB_def by (metis add.right_neutral div_mult_mod_eq)
  then show "entry_base e div 4096 * 4096 = entry_base e" by simp
  define q where "q = (entry_length e - 1) div 4096"
  have q: "q * 4096 < entry_length e" "entry_length e \<le> q * 4096 + 4096" using assms(2) unfolding q_def by linarith+
  have d: "div_ceil (entry_length e) SIZE_4KIB = Suc q"
  proof -
    have "div_ceil (entry_length e) 4096 * 4096 < entry_length e + 4096" "entry_length e \<le> div_ceil (entry_length e) 4096 * 4096"
      using div_ceil_bounds [of 4096 "entry_length e"] by simp_all
    then show ?thesis using q unfolding SIZE_4KIB_def by linarith
  qed
  show "(entry_base e + entry_length e - 1) div 4096 * 4096 + 4096 = entry_end e"
  proof -
    have "(entry_base e + entry_length e - 1) div 4096 = m + q" unfolding m using q by (intro div_nat_eqI) simp_all
    then show ?thesis using d m by (simp add: entry_end_def SIZE_4KIB_def)
  qed
  show "entry_base e + entry_length e \<le> entry_end e" using d q by (simp add: entry_end_def SIZE_4KIB_def)
qed

lemma direct_pages_distinct: "boot_map_ok hhdm es \<Longrightarrow> distinct (direct_pages es)"
proof (induction es)
  case (Cons e es)
  have "distinct (entry_pages e)" by (simp add: entry_pages_def distinct_map inj_on_def SIZE_4KIB_def)
  moreover have "set (entry_pages e) \<inter> set (direct_pages es) = {}"
  proof (rule ccontr)
    assume "set (entry_pages e) \<inter> set (direct_pages es) \<noteq> {}"
    then obtain f e' where f: "f \<in> set (entry_pages e)" "e' \<in> set es" "f \<in> set (entry_pages e')" by (auto simp: direct_pages_def)
    then have "direct_mapped (entry_type e)" "direct_mapped (entry_type e')" by (simp_all add: entry_pages_iff)
    then have "entry_end e \<le> entry_base e' \<or> entry_end e' \<le> entry_base e" using Cons.prems f(2) by (auto simp: boot_map_ok_def)
    then show False using entry_pages_bounds [OF f(1)] entry_pages_bounds [OF f(3)] SIZE_4KIB_pos by linarith
  qed
  moreover have "boot_map_ok hhdm es" using Cons.prems by (simp add: boot_map_ok_def)
  ultimately show ?case using Cons.IH by (simp add: direct_pages_def)
qed (simp add: direct_pages_def)

lemma direct_pages_frames: "boot_map_ok hhdm es \<Longrightarrow> f \<in> set (direct_pages es) \<Longrightarrow> hhdm_frame hhdm f"
proof -
  assume h: "boot_map_ok hhdm es" "f \<in> set (direct_pages es)"
  then obtain e where e: "e \<in> set es" "f \<in> set (entry_pages e)" by (auto simp: direct_pages_def)
  then have "direct_mapped (entry_type e)" by (simp add: entry_pages_iff)
  then have b: "entry_base e mod SIZE_4KIB = 0" "entry_end e \<le> PHYS_LIMIT" "hhdm + entry_end e \<le> KERNEL_RESERVED_START"
    using h(1) e(1) by (auto simp: boot_map_ok_def)
  have "f mod SIZE_4KIB = 0" using e(2) b(1) by (auto simp: entry_pages_iff)
  then show ?thesis using b(2,3) entry_pages_bounds [OF e(2)] by (simp add: hhdm_frame_def SIZE_4KIB_def)
qed

lemma map_hhdm_entries:
  assumes "\<forall>e\<in>set es. direct_mapped (entry_type e) \<longrightarrow> entry_base e + entry_length e < U64_LIMIT"
  shows "fold_rust (map_hhdm_entry X N M hhdm root) es st = fold_rust (map_hhdm_page X N M hhdm root) (direct_pages es) st"
  using assms
proof (induction es arbitrary: st)
  case (Cons e es)
  have "map_hhdm_entry X N M hhdm root e s = fold_rust (map_hhdm_page X N M hhdm root) (entry_pages e) s" for s
    using Cons.prems by (auto simp: map_hhdm_entry_def entry_pages_def add_u64_def)
  then show ?case using Cons by (simp add: direct_pages_def fold_rust_append)
qed (simp add: direct_pages_def)

context user_memory
begin

text \<open>Mapping a list of frames into an empty space takes one frame for each table it needs.\<close>

lemma map_hhdm_pages_ok:
  assumes kt: "kernel_typed N (fa_physical_memory fa) t root" and fa: "pm_ok N wfN (fa_physical_memory fa)" "fa_memory_type fa = kernel_type"
    and hhdm: "hhdm mod SIZE_4KIB = 0" "HIGHER_HALF_START \<le> hhdm" and empty: "\<forall>a. kernel_addr a \<longrightarrow> translate t root a = None"
    and ps: "distinct ps" "\<forall>f\<in>set ps. hhdm_frame hhdm f"
    and room: "tables_needed ((+) hhdm ` set ps) < card (available_frames N (fa_physical_memory fa))"
  shows "\<exists>t' fa' G. fold_rust (map_hhdm_page X N M hhdm root) ps (t, fa) = Some (t', fa') \<and> fa_memory_type fa' = kernel_type \<and>
    frames_taken N wfN (fa_physical_memory fa) G (fa_physical_memory fa') \<and> G \<subseteq> available_frames N (fa_physical_memory fa) \<and>
    card G \<le> tables_needed ((+) hhdm ` set ps) \<and> kernel_edit root t (hhdm_edit hhdm (set ps)) G t'"
  using ps room
proof (induction ps rule: rev_induct)
  case Nil
  then show ?case using kt fa frames_taken_refl [of N wfN] kernel_edit_refl [of t root]
    by (intro exI [of _ t] exI [of _ fa] exI [of _ "{}"]) (simp add: kernel_typed_def)
next
  case (snoc f ps)
  let ?pm = "fa_physical_memory fa" and ?P = "(+) hhdm ` set ps" and ?p = "hhdm + f"
  have hf: "hhdm_frame hhdm g" if "g \<in> insert f (set ps)" for g using snoc.prems(2) that by auto
  have al: "\<forall>g\<in>insert f (set ps). g mod SIZE_4KIB = 0" using hf by (auto simp: hhdm_frame_def)
  have nd: "tables_needed ((+) hhdm ` set (ps @ [f])) = tables_needed ?P + card (new_stretches ?P ?p)"
    using tables_needed_insert [of ?P ?p] by simp
  obtain t1 fa1 G where
    1: "fold_rust (map_hhdm_page X N M hhdm root) ps (t, fa) = Some (t1, fa1)" "fa_memory_type fa1 = kernel_type"
      "frames_taken N wfN ?pm G (fa_physical_memory fa1)" "G \<subseteq> available_frames N ?pm" "card G \<le> tables_needed ?P"
      "kernel_edit root t (hhdm_edit hhdm (set ps)) G t1"
    using snoc.IH snoc.prems nd by auto
  let ?pm1 = "fa_physical_memory fa1"
  have ok1: "pm_ok N wfN ?pm1" and kt1: "kernel_typed N ?pm1 t1 root"
    using 1(3) kernel_typed_edit [OF kt 1(6,3)] by (simp_all add: frames_taken_def)
  have ka: "kernel_addr a" if "in_frame (hhdm + g) a" "g \<in> insert f (set ps)" for g a
    using that hf [OF that(2)] hhdm(2) by (simp add: kernel_addr_def hhdm_frame_def in_frame_def)
  have page: "kernel_addr ?p" "?p mod SIZE_4KIB = 0" "f mod SIZE_4KIB = 0" "f < PHYS_LIMIT"
    using ka [of f ?p] al hhdm(1) hf [of f] by (auto simp: in_frame_def hhdm_frame_def mod_add_eq [symmetric])
  have fl: "pf_present hhdm_flags" "\<not> pf_huge_page hhdm_flags" by (simp_all add: hhdm_flags_def no_flags_def)
  have tr1: "translate t1 root a = (case hhdm_edit hhdm (set ps) a of None \<Rightarrow> None | Some e \<Rightarrow> e)" if "kernel_addr a" for a
    using 1(6) empty that by (cases "hhdm_edit hhdm (set ps) a") (simp_all add: kernel_edit_def)
  have "in_frame (hhdm + f) ?p" by (simp add: in_frame_def)
  then have nf: "\<not> (\<exists>g\<in>set ps. in_frame (hhdm + g) ?p)" using in_frame_same [of f _ hhdm ?p] al snoc.prems(1)
    by (metis distinct_append distinct.simps(2) disjoint_iff insertCI list.set_intros(1))
  then have un: "translate t1 root ?p = None" using tr1 [OF page(1)] by (simp add: hhdm_edit_def)
  have mp: "\<forall>b\<in>?P. walk t1 3 root b \<noteq> None"
  proof
    fix b assume "b \<in> ?P"
    then obtain g where g: "g \<in> set ps" "b = hhdm + g" by blast
    have i: "in_frame (hhdm + g) b" using g(2) by (simp add: in_frame_def)
    then have "kernel_addr b" using ka g(1) by blast
    then show "walk t1 3 root b \<noteq> None" using tr1 [of b] i g(1) by (auto simp: hhdm_edit_def translate_def)
  qed
  obtain r t2 fa2 H where
    2: "map_to M (allocate_frame_4kib X N) root ?p f hhdm_flags t1 fa1 = Some (r, t2, fa2)" "fa_memory_type fa2 = kernel_type"
      "frames_taken N wfN ?pm1 H (fa_physical_memory fa2)" "card H \<le> 3" "H \<subseteq> available_frames N ?pm1" "card H + walk_depth t1 3 root ?p \<le> 3"
      "case r of Inr _ \<Rightarrow> translate t1 root ?p = None \<and> kernel_edit root t1 (page_edit ?p (Some \<lparr> pe_addr = f, pe_flags = hhdm_flags \<rparr>)) H t2
       | Inl _ \<Rightarrow> translate t1 root ?p = None \<longrightarrow> (\<forall>g. \<not> frame_available N (fa_physical_memory fa2) g)"
    by (rule kernel_map_ok [OF kt1 ok1 1(2) page fl])
  have cH: "card H \<le> card (new_stretches ?P ?p)" using new_stretches_depth [OF mp, of ?p] 2(6) by simp
  have tk: "frames_taken N wfN ?pm (G \<union> H) (fa_physical_memory fa2)" "G \<union> H \<subseteq> available_frames N ?pm"
    using frames_taken_trans(1) [OF 1(3) 2(3)] 1(3,4) 2(5) by (auto simp: frames_taken_def)
  have c: "card (G \<union> H) \<le> tables_needed ((+) hhdm ` set (ps @ [f]))" using card_Un_le [of G H] 1(5) cH nd by simp
  have "1 \<le> card (available_frames N (fa_physical_memory fa2))" using frames_taken_card [OF tk, of 1] c snoc.prems(3) by simp
  then have "available_frames N (fa_physical_memory fa2) \<noteq> {}" by (metis card.empty not_one_le_zero)
  then have r: "\<not> isl r" "kernel_edit root t1 (page_edit ?p (Some \<lparr> pe_addr = f, pe_flags = hhdm_flags \<rparr>)) H t2"
    using 2(7) un by (auto simp: available_frames_def split: sum.splits)
  have ed: "kernel_edit root t (hhdm_edit hhdm (set (ps @ [f]))) (G \<union> H) t2"
    using kernel_edit_trans [OF 1(6) r(2)] hhdm_edit_insert [OF al] by simp
  have "?p < U64_LIMIT" "canonical ?p" using page(1) by (simp_all add: kernel_addr_num U64_LIMIT_num canonical_num)
  then have "map_hhdm_page X N M hhdm root f (t1, fa1) = Some (t2, fa2)"
    using 2(1) r(1) page by (simp add: map_hhdm_page_def phys_new virt_new add_u64_def page_containing frame_containing)
  then have run: "fold_rust (map_hhdm_page X N M hhdm root) (ps @ [f]) (t, fa) = Some (t2, fa2)"
    using 1(1) by (simp add: fold_rust_append)
  show ?case using run 2(2) tk c ed by blast
qed

text \<open>The recorded ranges.\<close>

lemma add_hhdm_ranges_ok:
  assumes "\<forall>e\<in>set es. direct_mapped (entry_type e) \<longrightarrow> entry_base e mod SIZE_4KIB = 0 \<and> 0 < entry_length e \<and>
      hhdm + entry_end e \<le> KERNEL_RESERVED_START" "wfS s"
  shows "\<exists>s'. fold_rust (add_hhdm_range S hhdm) es s = Some s' \<and> wfS s' \<and>
    (\<forall>a. covered (ns_iter S s') a \<longleftrightarrow> covered (ns_iter S s) a \<or>
       (\<exists>e\<in>set es. direct_mapped (entry_type e) \<and> hhdm + entry_base e \<le> a \<and> a < hhdm + entry_end e))"
  using assms
proof (induction es arbitrary: s)
  case (Cons e es)
  show ?case
  proof (cases "direct_mapped (entry_type e)")
    case True
    have b: "entry_base e mod SIZE_4KIB = 0" "0 < entry_length e" "hhdm + entry_end e \<le> KERNEL_RESERVED_START"
      using Cons.prems(1) True by simp_all
    have h: "entry_base e div 4096 * 4096 = entry_base e" "(entry_base e + entry_length e - 1) div 4096 * 4096 + 4096 = entry_end e"
      "entry_base e + entry_length e \<le> entry_end e"
      using entry_end_pages [OF b(1,2)] by simp_all
    have l: "hhdm + entry_end e < U64_LIMIT" using b(3) by (simp add: KERNEL_RESERVED_START_def U64_LIMIT_num)
    let ?i = "(hhdm + entry_base e, hhdm + entry_end e - 1)"
    have v: "valid_ivl ?i" unfolding valid_ivl.simps using l h(3) b(2) by linarith
    obtain s1 where s1: "ns_insert_merge_touching_or_overlapping S s ?i = Some s1" "wfS s1"
        "\<forall>a. covered (ns_iter S s1) a \<longleftrightarrow> covered (ns_iter S s) a \<or> in_ivl a ?i"
      using sp.insert_overlapping_spec [OF Cons.prems(2) v] by blast
    have e1: "hhdm + ((entry_base e + entry_length e - 1) div 4096 * 4096) + 4095 = hhdm + entry_end e - 1" using h(2) by simp
    have r: "add_hhdm_range S hhdm e s = Some s1"
    proof -
      have "add_u64 (hhdm + (entry_base e + entry_length e - 1) div 4096 * 4096) 4095 = Some (hhdm + entry_end e - 1)"
        "add_u64 hhdm ((entry_base e + entry_length e - 1) div 4096 * 4096) = Some (hhdm + (entry_base e + entry_length e - 1) div 4096 * 4096)"
        using e1 l h(2) by (simp_all add: add_u64_def)
      then show ?thesis using s1(1) True h(1,3) l b(2) by (simp add: add_hhdm_range_def add_u64_def sub_u64_def)
    qed
    obtain s' where s': "fold_rust (add_hhdm_range S hhdm) es s1 = Some s'" "wfS s'"
        "\<forall>a. covered (ns_iter S s') a \<longleftrightarrow> covered (ns_iter S s1) a \<or>
           (\<exists>e\<in>set es. direct_mapped (entry_type e) \<and> hhdm + entry_base e \<le> a \<and> a < hhdm + entry_end e)"
      using Cons.IH [OF _ s1(2)] Cons.prems(1) by auto
    have "in_ivl a ?i \<longleftrightarrow> hhdm + entry_base e \<le> a \<and> a < hhdm + entry_end e" for a using h(3) b(2) by auto
    then show ?thesis using r s' s1(3) True by auto
  next
    case False
    then show ?thesis using Cons by (simp add: add_hhdm_range_def)
  qed
qed simp

lemma create_page_tables_ok:
  assumes mem: "pm_ok N wfN (mu_pm u)" and map: "boot_map_ok hhdm es"
    and cur: "hhdm + current < U64_LIMIT" "type_at N (mu_pm u) current \<noteq> Some Usable"
    and room: "tables_needed ((+) hhdm ` set (direct_pages es)) + 1 < card (available_frames N (mu_pm u))"
    and fit: "hhdm_fits N hhdm (mu_pm u)"
  shows "\<exists>l4 vm pm t F. create_page_tables S X N M hhdm current flags es u = Some (l4, flags, vm, u \<lparr> mu_pm := pm, mu_tables := t \<rparr>) \<and>
    vm_l4_phys_frame vm = l4 \<and> vm_ok S wfS vm \<and> kernel_typed N pm t l4 \<and> frames_taken N wfN (mu_pm u) F pm \<and>
    (\<forall>a. kernel_addr a \<longrightarrow> translate t l4 a = (case hhdm_edit hhdm (set (direct_pages es)) a of None \<Rightarrow> None | Some e \<Rightarrow> e)) \<and>
    (\<forall>a. kernel_addr a \<longrightarrow> covered (ns_iter S (vm_set vm)) a \<longleftrightarrow>
       (\<exists>e\<in>set es. direct_mapped (entry_type e) \<and> hhdm + entry_base e \<le> a \<and> a < hhdm + entry_end e)) \<and>
    t l4 511 = mu_tables u current 511"
proof -
  let ?pm = "mu_pm u" and ?P = "set (direct_pages es)"
  let ?fa = "get_kernel_frame_allocator ?pm"
  have fa: "fa_physical_memory ?fa = ?pm" "fa_memory_type ?fa = kernel_type" by (simp_all add: get_kernel_frame_allocator_def)
  have "available_frames N ?pm \<noteq> {}" using room by auto
  then obtain l4 fa1 where
    1: "allocate_frame_4kib X N ?fa = Some (Some l4, fa1)" "fa_memory_type fa1 = kernel_type" "l4 \<in> available_frames N ?pm"
      "frames_taken N wfN ?pm {l4} (fa_physical_memory fa1)"
    using take_frame [of ?fa] mem fa by metis
  let ?pm1 = "fa_physical_memory fa1" and ?t0 = "(mu_tables u)(l4 := PageTable_new)"
  have fh: "frame_has N ?pm l4 Usable" using 1(4) by (simp add: frames_taken_def)
  have l4: "hhdm + l4 < U64_LIMIT" "HIGHER_HALF_START \<le> hhdm" using fit frame_has_type_at [OF fh] by (auto simp: hhdm_fits_def)
  have f0: "kernel_tables ?t0 l4 = {l4}" "tree stack_slots ?t0 3 l4" "\<And>a. translate ?t0 l4 a = None"
    using fresh_table [of ?t0 l4] by (simp_all add: kernel_tables_def translate_def)
  have kt1: "kernel_typed N ?pm1 ?t0 l4" using f0 frames_taken_has [OF 1(4), of l4 kernel_type] by (simp add: kernel_typed_def)
  have ok1: "pm_ok N wfN ?pm1" using 1(4) by (simp add: frames_taken_def)
  have hh: "hhdm mod SIZE_4KIB = 0" "HIGHER_HALF_START \<le> hhdm" using map by (simp_all add: boot_map_ok_def)
  have rm: "tables_needed ((+) hhdm ` ?P) < card (available_frames N ?pm1)"
    using frames_taken_card [OF 1(4), of "Suc (tables_needed ((+) hhdm ` ?P))"] 1(3) room by simp
  have fr: "\<forall>f\<in>?P. hhdm_frame hhdm f" using direct_pages_frames [OF map] by blast
  obtain t fa2 G where
    2: "fold_rust (map_hhdm_page X N M hhdm l4) (direct_pages es) (?t0, fa1) = Some (t, fa2)" "frames_taken N wfN ?pm1 G (fa_physical_memory fa2)"
      "kernel_edit l4 ?t0 (hhdm_edit hhdm ?P) G t"
    using map_hhdm_pages_ok [OF kt1 ok1 1(2) hh _ direct_pages_distinct [OF map] fr rm] f0(3) by blast
  let ?pm2 = "fa_physical_memory fa2" and ?t1 = "set_entry t l4 511 (t current 511)"
  have ends: "entry_base e + entry_length e < U64_LIMIT" if "e \<in> set es" "direct_mapped (entry_type e)" for e
  proof -
    have "entry_base e mod SIZE_4KIB = 0" "0 < entry_length e" "entry_end e \<le> PHYS_LIMIT" using map that by (auto simp: boot_map_ok_def)
    then show ?thesis using entry_end_pages(3) [of e] by (simp add: PHYS_LIMIT_num U64_LIMIT_num)
  qed
  have run: "fold_rust (map_hhdm_entry X N M hhdm l4) es (?t0, fa1) = Some (t, fa2)" using 2(1) map_hhdm_entries [of es] ends by metis
  have ns: "511 \<notin> stack_slots" by (simp add: stack_slots_def)
  have kt2: "kernel_typed N ?pm2 t l4" by (rule kernel_typed_edit [OF kt1 2(3,2) order_refl])
  then have tr2: "tree stack_slots t 3 l4" by (simp add: kernel_typed_def)
  note out = set_root_outside [OF tr2 ns refl, where e = "t current 511"]
  have kt3: "kernel_typed N ?pm2 ?t1 l4" using kt2 out(1,2) by (simp add: kernel_typed_def kernel_tables_def)
  have T: "translate ?t1 l4 a = (case hhdm_edit hhdm ?P a of None \<Rightarrow> None | Some e \<Rightarrow> e)" if "kernel_addr a" for a
    using out(3) [OF kernel_slot [OF that]] 2(3) f0(3) that by (cases "hhdm_edit hhdm ?P a") (simp_all add: kernel_edit_def)
  have us: "frame_has N ?pm g Usable" if "g \<in> insert l4 G" for g
    using that fh 2(2) frames_taken_has [OF 1(4), of g Usable] by (auto simp: frames_taken_def split: if_splits)
  then have "current \<notin> insert l4 G" using cur(2) frame_has_type_at by blast
  then have c: "t current = mu_tables u current" using 2(3) f0(1) by (simp add: kernel_edit_def)
  have "\<exists>s. fold_rust (add_hhdm_range S hhdm) es (ns_default S) = Some s \<and> wfS s \<and>
    (\<forall>a. covered (ns_iter S s) a \<longleftrightarrow> covered (ns_iter S (ns_default S)) a \<or>
       (\<exists>e\<in>set es. direct_mapped (entry_type e) \<and> hhdm + entry_base e \<le> a \<and> a < hhdm + entry_end e))"
    by (rule add_hhdm_ranges_ok) (use map sp.default_wf in \<open>auto simp: boot_map_ok_def\<close>)
  then obtain s where s: "fold_rust (add_hhdm_range S hhdm) es (ns_default S) = Some s" "wfS s"
      "\<And>a. covered (ns_iter S s) a \<longleftrightarrow> (\<exists>e\<in>set es. direct_mapped (entry_type e) \<and> hhdm + entry_base e \<le> a \<and> a < hhdm + entry_end e)"
    by (auto simp: sp.default_empty)
  have fre: "\<forall>a. in_ivl a (KERNEL_RESERVED_START, u64_MAX) \<longrightarrow> \<not> covered (ns_iter S s) a"
    using s(3) map by (fastforce simp: boot_map_ok_def)
  have v: "valid_ivl (KERNEL_RESERVED_START, u64_MAX)" by (simp add: KERNEL_RESERVED_START_def limits)
  obtain s' where s': "ns_insert_merge_touching S s (KERNEL_RESERVED_START, u64_MAX) = Some (Some s')" "wfS s'"
      "\<forall>a. covered (ns_iter S s') a \<longleftrightarrow> covered (ns_iter S s) a \<or> in_ivl a (KERNEL_RESERVED_START, u64_MAX)"
    using sp.insert_spec [OF s(2) v fre] by blast
  let ?vm = "\<lparr> vm_set = s', vm_l4_phys_frame = l4 \<rparr>"
  have cn: "canonical (hhdm + l4)" "canonical hhdm" "canonical (hhdm + current)"
    using l4 cur(1) fit by (auto simp: canonical_num HIGHER_HALF_START_def hhdm_fits_def)
  have "create_page_tables S X N M hhdm current flags es u = Some (l4, flags, ?vm, u \<lparr> mu_pm := ?pm2, mu_tables := ?t1 \<rparr>)"
    using 1(1) run s(1) s'(1) cn l4(1) cur(1) by (simp add: create_page_tables_def virt_new add_u64_def Let_def)
  moreover have "vm_ok S wfS ?vm" using s' by (simp add: vm_ok_def)
  moreover have "frames_taken N wfN ?pm ({l4} \<union> G) ?pm2" by (rule frames_taken_trans(1) [OF 1(4) 2(2)])
  moreover have "covered (ns_iter S s') a \<longleftrightarrow> (\<exists>e\<in>set es. direct_mapped (entry_type e) \<and> hhdm + entry_base e \<le> a \<and> a < hhdm + entry_end e)"
    if "kernel_addr a" for a using s'(3) s(3) that by (simp add: kernel_addr_def)
  moreover have "?t1 l4 511 = mu_tables u current 511" using c by simp
  ultimately show ?thesis using kt3 T by (intro exI [of _ l4] exI [of _ ?vm] exI [of _ ?pm2] exI [of _ ?t1] exI [of _ "{l4} \<union> G"]) simp
qed

end

section \<open>Frames at boot\<close>

text \<open>The frames the allocator could see if nothing were reserved, and those the heap takes or touches.\<close>

definition boot_frames :: "memmap_entry list \<Rightarrow> nat set" where
  "boot_frames es = {f. f mod SIZE_4KIB = 0 \<and> (\<forall>a. f \<le> a \<and> a \<le> f + SIZE_4KIB \<longrightarrow> memmap_type es a = Some Usable)}"

definition HEAP_FRAMES :: nat where
  "HEAP_FRAMES = 1027"

lemma heap_frames:
  "finite {f. f mod SIZE_4KIB = 0 \<and> g \<le> f + SIZE_4KIB \<and> f < g + GLOBAL_ALLOCATOR_SIZE} \<and>
   card {f. f mod SIZE_4KIB = 0 \<and> g \<le> f + SIZE_4KIB \<and> f < g + GLOBAL_ALLOCATOR_SIZE} \<le> HEAP_FRAMES"
proof -
  let ?H = "{f. f mod SIZE_4KIB = 0 \<and> g \<le> f + SIZE_4KIB \<and> f < g + GLOBAL_ALLOCATOR_SIZE}" and ?q = "g div 4096 - 1"
  have "?H \<subseteq> (\<lambda>i. (?q + i) * 4096) ` {..<1027}"
  proof
    fix f assume f: "f \<in> ?H"
    define m where "m = f div 4096"
    have m: "f = m * 4096" using f unfolding m_def by (simp add: SIZE_4KIB_def) (metis add.right_neutral div_mult_mod_eq mod_0_imp_dvd dvd_div_mult_self)
    have "g \<le> m * 4096 + 4096" "m * 4096 < g + 4194304" using f m by (simp_all add: SIZE_4KIB_def GLOBAL_ALLOCATOR_SIZE_def)
    then have "?q \<le> m" "m < ?q + 1027" by linarith+
    then show "f \<in> (\<lambda>i. (?q + i) * 4096) ` {..<1027}" unfolding m by (intro image_eqI [of _ _ "m - ?q"]) simp_all
  qed
  from card_mono [OF _ this] finite_subset [OF this] card_image_le [of "{..<1027::nat}" "\<lambda>i. (?q + i) * 4096"]
  show ?thesis by (simp add: HEAP_FRAMES_def)
qed

lemma boot_frames_finite: "memmap_ok es \<Longrightarrow> finite (boot_frames es)"
proof -
  assume ok: "memmap_ok es"
  have "f < PHYS_LIMIT" if "f \<in> boot_frames es" for f
  proof -
    have "memmap_type es f = Some Usable" using that by (simp add: boot_frames_def)
    then obtain e where "e \<in> set es" "tracked e" "in_entry e f" using memmap_type_SomeD by blast
    then show ?thesis using ok by (auto simp: memmap_ok_def in_entry_def)
  qed
  then have "boot_frames es \<subseteq> {..<PHYS_LIMIT}" by blast
  then show ?thesis by (rule finite_subset) simp
qed

lemma available_at_boot:
  assumes ok: "memmap_ok es"
    and ty: "\<forall>a. type_at N pm a = (if g \<le> a \<and> a < g + GLOBAL_ALLOCATOR_SIZE then Some (UsedByKernel GlobalAllocatorHeap) else memmap_type es a)"
  shows "card (boot_frames es) \<le> card (available_frames N pm) + HEAP_FRAMES"
proof -
  let ?H = "{f. f mod SIZE_4KIB = 0 \<and> g \<le> f + SIZE_4KIB \<and> f < g + GLOBAL_ALLOCATOR_SIZE}"
  have sub: "boot_frames es - ?H \<subseteq> available_frames N pm"
  proof
    fix f assume f: "f \<in> boot_frames es - ?H"
    then have "f + SIZE_4KIB < g \<or> g + GLOBAL_ALLOCATOR_SIZE \<le> f" by (auto simp: boot_frames_def)
    then have "type_at N pm a = memmap_type es a" if "f \<le> a" "a \<le> f + SIZE_4KIB" for a using that ty [rule_format, of a] by auto
    then show "f \<in> available_frames N pm" using f by (simp add: available_frames_def frame_available_def boot_frames_def)
  qed
  have "memmap_type es a = Some Usable" if "type_at N pm a = Some Usable" for a using that ty [rule_format, of a] by (simp split: if_splits)
  then have "available_frames N pm \<subseteq> boot_frames es" unfolding available_frames_def frame_available_def boot_frames_def by blast
  then have fin: "finite (available_frames N pm)" using boot_frames_finite [OF ok] by (rule finite_subset)
  have fH: "finite ?H" using heap_frames [of g] by blast
  have "card (boot_frames es) \<le> card (boot_frames es - ?H) + card ?H"
    using diff_card_le_card_Diff [OF fH, of "boot_frames es"] by linarith
  then show ?thesis using card_mono [OF fin sub] heap_frames [of g] by linarith
qed

section \<open>Properties\<close>

text \<open>C5. Boot establishes the memory invariants. When the memory map has disjoint entries of whole
  frames that fit the direct map, one usable entry can hold the heap, and there are frames for the page
  tables, \<^verbatim>\<open>init_bsp\<close> completes. A kernel without tasks that starts from its result satisfies the
  invariants of address spaces and of kernel memory that the system calls preserve. Every byte of an
  entry in use is mapped, writable, at the offset of the direct map, nothing else below the kernel
  image is mapped, and the entry of the kernel image is the boot loader's.\<close>

theorem boot_establishes_memory:
  assumes um: "user_memory N wfN X M S wfS" and ok: "memmap_ok es" "boot_map_ok hhdm es"
    and heap: "e0 \<in> set es" "entry_type e0 = USABLE" "GLOBAL_ALLOCATOR_SIZE \<le> entry_length e0"
      "\<forall>v. v \<noteq> 0 \<longrightarrow> claim v GLOBAL_ALLOCATOR_SIZE"
    and hh: "hhdm_ok hhdm es" and cur: "memmap_type es current = Some UsedByLimine"
    and room: "tables_needed ((+) hhdm ` set (direct_pages es)) + 1 + HEAP_FRAMES < card (boot_frames es)"
  shows "\<exists>u vm cr3. init_bsp S X N M claim hhdm current flags es t bytes = Some (u, vm, cr3, flags) \<and>
    (\<forall>k :: ('s, 'm, 'z) Mem_scheme. k_mmu k = u \<longrightarrow> k_virtual_memory k = vm \<longrightarrow> k_hhdm k = hhdm \<longrightarrow> k_tasks k = Map.empty \<longrightarrow>
       mem_ok S wfS N wfN k \<and> kernel_ok S wfS N k) \<and> vm_l4_phys_frame vm = cr3 \<and>
    (\<forall>e\<in>set es. \<forall>a. direct_mapped (entry_type e) \<longrightarrow> in_entry e a \<longrightarrow>
       translate (mu_tables u) cr3 (hhdm + a) = Some \<lparr> pe_addr = a div SIZE_4KIB * SIZE_4KIB, pe_flags = hhdm_flags \<rparr>) \<and>
    (\<forall>a. kernel_addr a \<longrightarrow> translate (mu_tables u) cr3 a \<noteq> None \<longrightarrow>
       (\<exists>e\<in>set es. direct_mapped (entry_type e) \<and> hhdm + entry_base e \<le> a \<and> a < hhdm + entry_end e)) \<and>
    mu_tables u cr3 511 = t current 511"
proof -
  have fm: "frame_memory N wfN X" using um user_memory_def user_mappings_def by blast
  obtain g where g: "global_allocator_init X claim hhdm es = Some g" "g + GLOBAL_ALLOCATOR_SIZE \<le> PHYS_LIMIT"
      "\<exists>e\<in>set es. entry_type e = USABLE \<and> entry_base e = g \<and> GLOBAL_ALLOCATOR_SIZE \<le> entry_length e"
    using frame_memory.global_allocator_init_spec [where claim = claim, OF fm ok(1) heap(1-3) hh heap(4)] by blast
  obtain pm where pm: "PhysicalMemory_new N es g = Some pm" "pm_ok N wfN pm"
      "\<forall>a. type_at N pm a = (if g \<le> a \<and> a < g + GLOBAL_ALLOCATOR_SIZE then Some (UsedByKernel GlobalAllocatorHeap) else memmap_type es a)"
    using frame_memory.PhysicalMemory_new_spec [OF fm ok(1) g(2)] by blast
  let ?u = "\<lparr> mu_pm = pm, mu_tables = t, mu_bytes = bytes \<rparr>"
  have in_e: "hhdm + a < U64_LIMIT" if "memmap_type es a \<noteq> None" for a
    using that memmap_type_SomeD [of es a] hh by (fastforce simp: hhdm_ok_def in_entry_def)
  have heap_type: "memmap_type es a = Some Usable" if "g \<le> a" "a < g + GLOBAL_ALLOCATOR_SIZE" for a
    using that g(3) memmap_type_memI [OF ok(1), of _ a Usable] by (auto simp: in_entry_def memmap_memory_type_def)
  have "HIGHER_HALF_START \<le> hhdm" "hhdm < U64_LIMIT" using hh in_e [of current] cur by (auto simp: hhdm_ok_def)
  then have fit: "hhdm_fits N hhdm pm" using pm(3) in_e heap_type by (auto simp: hhdm_fits_def split: if_splits)
  have c: "hhdm + current < U64_LIMIT" "type_at N pm current \<noteq> Some Usable" using in_e [of current] cur pm(3) by auto
  have rm: "tables_needed ((+) hhdm ` set (direct_pages es)) + 1 < card (available_frames N pm)"
    using available_at_boot [OF ok(1) pm(3)] room by linarith
  obtain l4 vm pm' t' F where
    r: "create_page_tables S X N M hhdm current flags es ?u = Some (l4, flags, vm, ?u \<lparr> mu_pm := pm', mu_tables := t' \<rparr>)"
      "vm_l4_phys_frame vm = l4" "vm_ok S wfS vm" "kernel_typed N pm' t' l4" "frames_taken N wfN pm F pm'"
    and tr: "\<forall>a. kernel_addr a \<longrightarrow> translate t' l4 a = (case hhdm_edit hhdm (set (direct_pages es)) a of None \<Rightarrow> None | Some e \<Rightarrow> e)"
    and cv: "\<forall>a. kernel_addr a \<longrightarrow> covered (ns_iter S (vm_set vm)) a \<longleftrightarrow>
       (\<exists>e\<in>set es. direct_mapped (entry_type e) \<and> hhdm + entry_base e \<le> a \<and> a < hhdm + entry_end e)"
    and im: "t' l4 511 = t current 511"
    using user_memory.create_page_tables_ok [where u = ?u and flags = flags, OF um _ ok(2) c(1)] pm(2) c(2) rm fit by auto
  let ?u' = "?u \<lparr> mu_pm := pm', mu_tables := t' \<rparr>"
  have run: "init_bsp S X N M claim hhdm current flags es t bytes = Some (?u', vm, l4, flags)"
    using g(1) pm(1) r(1) by (simp add: init_bsp_def)
  have cov: "\<exists>e\<in>set es. direct_mapped (entry_type e) \<and> hhdm + entry_base e \<le> a \<and> a < hhdm + entry_end e"
    if a: "kernel_addr a" "translate t' l4 a \<noteq> None" for a
  proof -
    obtain f where f: "f \<in> set (direct_pages es)" "in_frame (hhdm + f) a" using tr a by (auto simp: hhdm_edit_def split: if_splits)
    then obtain e where e: "e \<in> set es" "f \<in> set (entry_pages e)" by (auto simp: direct_pages_def)
    then show ?thesis using entry_pages_bounds [OF e(2)] f(2) by (auto simp: entry_pages_iff in_frame_def intro!: bexI [of _ e])
  qed
  have map: "translate t' l4 (hhdm + a) = Some \<lparr> pe_addr = a div SIZE_4KIB * SIZE_4KIB, pe_flags = hhdm_flags \<rparr>"
    if e: "e \<in> set es" "direct_mapped (entry_type e)" "in_entry e a" for e a
  proof -
    have b: "entry_base e mod SIZE_4KIB = 0" "0 < entry_length e" "hhdm + entry_end e \<le> KERNEL_RESERVED_START" "HIGHER_HALF_START \<le> hhdm"
      using ok(2) e(1,2) by (auto simp: boot_map_ok_def)
    have a: "entry_base e \<le> a" "a < entry_end e" using e(3) entry_end_pages(3) [OF b(1,2)] by (auto simp: in_entry_def)
    let ?f = "a div SIZE_4KIB * SIZE_4KIB"
    have "?f \<in> set (direct_pages es)" using entry_pages_cover [OF e(2) b(1) a] e(1) by (auto simp: direct_pages_def)
    moreover have "in_frame (hhdm + ?f) (hhdm + a)"
      using div_mult_mod_eq [of a SIZE_4KIB] mod_less_divisor [OF SIZE_4KIB_pos, of a] unfolding in_frame_def by linarith
    moreover have "kernel_addr (hhdm + a)" using a(2) b(3,4) by (simp add: kernel_addr_def)
    ultimately show ?thesis using tr by (auto simp: hhdm_edit_def)
  qed
  have inv: "mem_ok S wfS N wfN k \<and> kernel_ok S wfS N k"
    if k: "k_mmu k = ?u'" "k_virtual_memory k = vm" "k_hhdm k = hhdm" "k_tasks k = Map.empty" for k :: "('s, 'm, 'z) Mem_scheme"
  proof
    have nt: "\<not> is_user_task k i x" for i x using k(4) by (simp add: is_user_task_def)
    have "hhdm_fits N hhdm pm'" by (rule hhdm_retype [OF fit]) (use r(5) in \<open>auto simp: frames_taken_def\<close>)
    moreover have "spaces_ok N {} pm' t'" by (simp add: spaces_ok_def mapped_def)
    ultimately have "mmu_ok N wfN hhdm {} ?u'" using r(5) by (simp add: mmu_ok_def frames_taken_def)
    moreover have "user_roots k = {}" using nt by (auto simp: user_roots_def)
    ultimately show "mem_ok S wfS N wfN k" using nt k by (simp add: mem_ok_def)
    show "kernel_ok S wfS N k" using k r(2-4) cov cv by (simp add: kernel_ok_def)
  qed
  show ?thesis using run inv r(2) map cov im by (intro exI [of _ ?u'] exI [of _ vm] exI [of _ l4]) simp
qed

lemma stretch_card:
  assumes "P \<subseteq> {lo..hi}"
  shows "card (stretch k ` P) \<le> stretch k hi + 1 - stretch k lo"
proof -
  have "stretch k ` P \<subseteq> {stretch k lo..stretch k hi}" using assms by (auto simp: stretch_def intro!: div_le_mono)
  from card_mono [OF _ this] show ?thesis by simp
qed

lemma sample_memmap_ok:
  "memmap_ok sample_memmap" "boot_map_ok 0xFFFF800000000000 sample_memmap" "hhdm_ok 0xFFFF800000000000 sample_memmap"
  "memmap_type sample_memmap 0x900000 = Some UsedByLimine"
  by (simp_all add: memmap_ok_def sample_memmap_def tracked_def memmap_memory_type_def PHYS_LIMIT_num boot_map_ok_def direct_mapped_def entry_end_def
      SIZE_4KIB_def div_ceil_def HIGHER_HALF_START_def KERNEL_RESERVED_START_def hhdm_ok_def U64_LIMIT_num in_entry_def)

lemma sample_memmap_room:
  "tables_needed ((+) 0xFFFF800000000000 ` set (direct_pages sample_memmap)) + 1 + HEAP_FRAMES < card (boot_frames sample_memmap)"
proof -
  let ?P = "(+) 0xFFFF800000000000 ` set (direct_pages sample_memmap)"
  have "f \<le> 0x90FFFF" if "f \<in> set (direct_pages sample_memmap)" for f
  proof -
    obtain e where e: "e \<in> set sample_memmap" "f \<in> set (entry_pages e)" using \<open>f \<in> _\<close> by (auto simp: direct_pages_def)
    have "entry_end e \<le> 0x910000" using e(1) by (auto simp: sample_memmap_def entry_end_def div_ceil_def SIZE_4KIB_def)
    then show ?thesis using entry_pages_bounds [OF e(2)] by (simp add: SIZE_4KIB_def)
  qed
  then have "?P \<subseteq> {0xFFFF800000000000..0xFFFF80000090FFFF}" by auto
  note c = stretch_card [OF this]
  have "tables_needed ?P \<le> 7" using c [of 1] c [of 2] c [of 3] by (simp add: tables_needed_def stretch_def SIZE_4KIB_def)
  moreover have "(\<lambda>i. (i + 256) * 4096) ` {..<2000} \<subseteq> boot_frames sample_memmap"
    by (auto simp: boot_frames_def sample_memmap_def tracked_def memmap_memory_type_def in_entry_def SIZE_4KIB_def)
  from card_mono [OF boot_frames_finite [OF sample_memmap_ok(1)] this]
  have "card ((\<lambda>i. (i + 256) * 4096 :: nat) ` {..<2000}) \<le> card (boot_frames sample_memmap)" .
  moreover have "card ((\<lambda>i. (i + 256) * 4096 :: nat) ` {..<2000}) = 2000" by (subst card_image) (auto simp: inj_on_def)
  ultimately show ?thesis by (simp add: HEAP_FRAMES_def)
qed

theorem boot_establishes_memory_witness:
  "\<exists>u vm cr3. init_bsp list_set_ops x86_arith_ops list_map_ops walk_mapper (\<lambda>v n. True) 0xFFFF800000000000 0x900000 () sample_memmap
       (\<lambda>_. PageTable_new) (\<lambda>_. 0) = Some (u, vm, cr3, ()) \<and>
     mem_ok list_set_ops ivls_ok list_map_ops ivls_ok (pages_machine \<lparr> k_tasks := Map.empty, k_mmu := u, k_virtual_memory := vm \<rparr>) \<and>
     kernel_ok list_set_ops ivls_ok list_map_ops (pages_machine \<lparr> k_tasks := Map.empty, k_mmu := u, k_virtual_memory := vm \<rparr>) \<and>
     translate (mu_tables u) cr3 0xFFFF800000101234 = Some \<lparr> pe_addr = 0x101000, pe_flags = hhdm_flags \<rparr>"
proof -
  have e: "sample_memmap ! 2 \<in> set sample_memmap" "entry_type (sample_memmap ! 2) = USABLE" "GLOBAL_ALLOCATOR_SIZE \<le> entry_length (sample_memmap ! 2)"
    "direct_mapped (entry_type (sample_memmap ! 2))" "in_entry (sample_memmap ! 2) 0x101234"
    by (simp_all add: sample_memmap_def GLOBAL_ALLOCATOR_SIZE_def direct_mapped_def in_entry_def)
  have cl: "\<forall>v. v \<noteq> 0 \<longrightarrow> (\<lambda>v n. True) v GLOBAL_ALLOCATOR_SIZE" by simp
  obtain u vm cr3 where
    r: "init_bsp list_set_ops x86_arith_ops list_map_ops walk_mapper (\<lambda>v n. True) 0xFFFF800000000000 0x900000 () sample_memmap
       (\<lambda>_. PageTable_new) (\<lambda>_. 0) = Some (u, vm, cr3, ())"
    and k: "\<forall>k :: ((interval \<times> unit) list, (interval \<times> MemoryType) list) Mem. k_mmu k = u \<longrightarrow> k_virtual_memory k = vm \<longrightarrow>
       k_hhdm k = 0xFFFF800000000000 \<longrightarrow> k_tasks k = Map.empty \<longrightarrow>
       mem_ok list_set_ops ivls_ok list_map_ops ivls_ok k \<and> kernel_ok list_set_ops ivls_ok list_map_ops k"
    and t: "\<forall>e\<in>set sample_memmap. \<forall>a. direct_mapped (entry_type e) \<longrightarrow> in_entry e a \<longrightarrow>
       translate (mu_tables u) cr3 (0xFFFF800000000000 + a) = Some \<lparr> pe_addr = a div SIZE_4KIB * SIZE_4KIB, pe_flags = hhdm_flags \<rparr>"
    using boot_establishes_memory [where flags = "()" and t = "\<lambda>_. PageTable_new" and bytes = "\<lambda>_. 0",
        OF list_user_memory.user_memory_axioms sample_memmap_ok(1,2) e(1-3) cl sample_memmap_ok(3,4) sample_memmap_room] by blast
  let ?k = "pages_machine \<lparr> k_tasks := Map.empty, k_mmu := u, k_virtual_memory := vm \<rparr>"
  have "translate (mu_tables u) cr3 (0xFFFF800000000000 + 0x101234) = Some \<lparr> pe_addr = 0x101234 div SIZE_4KIB * SIZE_4KIB, pe_flags = hhdm_flags \<rparr>"
    using t e(1,4,5) by blast
  then have "translate (mu_tables u) cr3 0xFFFF800000101234 = Some \<lparr> pe_addr = 0x101000, pe_flags = hhdm_flags \<rparr>" by (simp add: SIZE_4KIB_def)
  moreover have "mem_ok list_set_ops ivls_ok list_map_ops ivls_ok ?k \<and> kernel_ok list_set_ops ivls_ok list_map_ops ?k"
    using k [rule_format, of ?k] by (simp add: pages_machine_def HIGHER_HALF_START_def)
  ultimately show ?thesis using r by (intro exI [of _ u] exI [of _ vm] exI [of _ cr3]) simp
qed

end
