(* ===== verification/Spec2Isabelle.thy ===== *)
theory Spec2Isabelle
  imports Mouse Interrupt_Entry Compositor_Scene Shared_Buffers Spawn Boot_Tables
begin

text \<open>
  A verification of the Bos operating system: the x86-64 kernel under \<^verbatim>\<open>src/kernel/core\<close>, the types
  it shares with user programs under \<^verbatim>\<open>src/shared/kernel_api_types\<close>, and the display server with the
  part of the user library it draws with, under \<^verbatim>\<open>src/userspace\<close>.

  \<^bold>\<open>The program.\<close> The kernel boots from a memory map, builds its own page tables, and then runs tasks.
  Each CPU has a run queue; the timer interrupt saves the running context, picks the next task and
  switches to it. User tasks enter the kernel through system calls: they map memory, share buffers, start
  and wait for other tasks, exchange messages over channels, register services, and read keys and mouse
  events that the drivers collect in interrupt handlers. The display server is such a task: clients send it
  messages over channels and draw into shared buffers, and it composes their windows on the screen.

  \<^bold>\<open>Style.\<close> Definitions follow the Rust functions, one for one where they change state, under the same
  names. A panic is \<open>None\<close> of \<open>'a rust\<close>, so that \<open>f x = Some y\<close> says that \<open>f\<close> returns; a Rust
  \<^verbatim>\<open>Option\<close> is an inner option and a \<^verbatim>\<open>Result\<close> a sum with the error on the left. Machine integers are
  natural numbers with the overflow check of the \<^verbatim>\<open>dev\<close> profile written out (\<open>add_u64\<close>, \<open>sub_u64\<close>, ...), or
  words where the code works on bits. The kernel's state is a record that grows by extension:
  \<open>Sched\<close>, then \<open>Ipc\<close>, \<open>Usr\<close>, \<open>Svc\<close>, \<open>Kbd\<close> and \<open>Mse\<close> for the calls without page tables, and \<open>Mem\<close> and \<open>Stk\<close> for the
  calls that edit them. A lock is held for the length of one operation, so an operation is one step.

  \<^bold>\<open>References to tasks.\<close> Tasks are reference counted. The model has the places that hold references:
  the task table, the run queues, and the waiter slots, which the scheduler takes as an argument because
  components above it hold them. Dropping a last reference runs a destructor. In the schedule step that
  is a fault, for the destructor releases the stack and the page tables in use. In \<^verbatim>\<open>waitpid\<close>, which
  removes a dead task from the table, it is a release of memory: \<open>drop_task\<close> of \<open>Spawn\<close> models it on the
  state with page tables, and \<open>Task_Syscalls\<close>, whose state has none, does not repeat it.

  \<^bold>\<open>External code.\<close> Crates are parameters with locales that state what they document, and each locale
  is interpreted: \<open>Nodit_Interface\<close> (interval maps and sets; \<open>list_map_ops\<close>, \<open>list_set_ops\<close>),
  \<open>X86_Interface\<close> (addresses; \<open>x86_arith_ops\<close>) and \<open>Page_Tables\<close> (editing page tables;
  \<open>walk_mapper\<close>). The ELF parser, the heap allocator and the descriptor table are function parameters.

  \<^bold>\<open>Theories\<close>, in the order of the code:

  \<^item> \<open>Prelude\<close>: the result type, checked arithmetic, iterators, little-endian bytes.
  \<^item> \<open>Physical_Memory\<close> (\<^verbatim>\<open>memory/physical_memory.rs\<close>, \<^verbatim>\<open>global_allocator.rs\<close>): the frame allocator returns
    the lowest frame and retypes exactly it; every outcome of releasing a frame; the boot memory map.
  \<^item> \<open>Virtual_Memory\<close> (\<^verbatim>\<open>vaddr_allocator.rs\<close>, \<^verbatim>\<open>user_vaddr.rs\<close>): the lowest free ranges of addresses.
  \<^item> \<open>Page_Tables\<close>, \<open>User_Mappings\<close>, \<open>Fresh_Pages\<close>: the walk of the processor, trees of tables, and the
    steps that map and unmap user pages. The invariant \<open>spaces_ok\<close> says that address spaces share no
    table and no private frame, and that every frame has the type of its use.
  \<^item> \<open>Memory_Syscalls\<close>, \<open>Shared_Buffers\<close> (\<^verbatim>\<open>syscall_handlers/memory.rs\<close>, \<^verbatim>\<open>shared_buf.rs\<close>): what each call
    changes in the memory every task sees, on success and on every failure, and the invariant \<open>mem_ok\<close>.
  \<^item> \<open>Address_Space\<close> (\<^verbatim>\<open>task/task.rs\<close>, \<^verbatim>\<open>user_task_from_elf.rs\<close>): creating a user page table, and releasing
    every table and private frame of a dropped task.
  \<^item> \<open>Elf_Loader\<close> (\<^verbatim>\<open>create_user_task_from_elf_bytes\<close>): the address space of a loaded program.
  \<^item> \<open>Kernel_Space\<close>, \<open>Kernel_Stacks\<close> (\<^verbatim>\<open>memory/guarded_stack.rs\<close>): edits of the kernel's half, and guarded
    stacks; \<open>kernel_ok\<close> is the invariant of the kernel's own memory.
  \<^item> \<open>Boot_Tables\<close> (\<^verbatim>\<open>memory/page_tables.rs\<close>, \<^verbatim>\<open>memory/mod.rs\<close>): the tables built at boot, which establish
    \<open>mem_ok\<close> and \<open>kernel_ok\<close>.
  \<^item> \<open>Spawn\<close> (\<^verbatim>\<open>sys_spawn\<close>, \<^verbatim>\<open>gdt.rs\<close>): starting a program from bytes of the caller, the composition of the
    loader, the stacks and the scheduler; and dropping a task.
  \<^item> \<open>Tasks\<close>, \<open>Scheduler\<close>, \<open>Dispatch\<close> (\<^verbatim>\<open>task/\<close>, \<^verbatim>\<open>memory/cpu_local_data.rs\<close>): run queues and the schedule
    step; no task is lost or duplicated, a queued task runs, spawning places a task once, on the first ready
    CPU in turn. The step faults when it drops the last reference to the task it runs on.
  \<^item> \<open>Asm\<close>, \<open>Interrupt_Entry\<close> (\<^verbatim>\<open>interrupt/handlers.rs\<close>, \<^verbatim>\<open>raw_syscall_handler.rs\<close>): the naked functions,
    instruction by instruction; contexts are saved and restored exactly.
  \<^item> \<open>Bounded_Queue\<close>, \<open>Ipc\<close>, \<open>Syscall_Base\<close>, \<open>Ipc_Syscalls\<close> (\<^verbatim>\<open>ipc/mod.rs\<close>, \<^verbatim>\<open>syscall_handlers/ipc.rs\<close>): channels
    refine bounded queues; what is sent is received; blocked tasks are woken; the check of user pointers.
  \<^item> \<open>Services\<close>, \<open>Task_Syscalls\<close>: the registry of services, exit with its clean-up, yield and waitpid, and
    what the next schedule step does after an exit.
  \<^item> \<open>Ring_Buffer\<close>, \<open>Keyboard\<close>, \<open>Mouse\<close> (\<^verbatim>\<open>drivers/\<close>): decoding of scan codes and packets, the buffers,
    the blocking reads, and the initialisation of the mouse.
  \<^item> \<open>Pixels\<close>, \<open>User_World\<close>, \<open>Display\<close>, \<open>Window_Protocol\<close> (\<^verbatim>\<open>kernel_api_types\<close>, \<^verbatim>\<open>ulib/src/display.rs\<close>):
    pixels, rectangles, the double-buffered display and the layout of the messages.
  \<^item> \<open>Compositor\<close>, \<open>Compositor_Scene\<close> (\<^verbatim>\<open>display_server/\<close>): windows and their stacking order; what is on the
    screen after a redraw, pixel by pixel.

  \<^bold>\<open>Loops and bounds.\<close> Loops over ranges and lists are structural recursion, so every definition is
  total. A blocking system call is one definition per iteration: an iteration finishes, or puts the
  task to sleep until it is woken. The waits of the mouse initialisation poll a script of port reads. Where
  a theorem says that an operation succeeds, the frames it may need are counted: four for a user page
  (the page and three tables), five for a page of a kernel stack, and at boot one for each table-sized
  stretch of addresses that holds a mapped page. A stack of the kernel has 64 pages, a user stack 16.

  \<^bold>\<open>Not modelled.\<close> Device registers and firmware tables (\<^verbatim>\<open>apic.rs\<close>, \<^verbatim>\<open>ioapic.rs\<close>, \<^verbatim>\<open>acpi.rs\<close>, \<^verbatim>\<open>time/\<close>): their
  answers are measurements of hardware. The kernel's console (\<^verbatim>\<open>logger.rs\<close>, \<^verbatim>\<open>graphics/\<close>): diagnostic output
  through drawing crates. The loader of the first task, which maps the boot module in place (\<^verbatim>\<open>create_user_task_from_elf\<close>),
  the calls that hand over the frame buffer (\<^verbatim>\<open>syscall_handlers/graphics.rs\<close>), the window client and the register-level
  wrappers of the user library, the tests and the build tools. True concurrency of CPUs
  inside one operation is excluded by the locks the code takes and is not modelled. The display server
  reads two kinds of request through a pointer that is not aligned; the model reads their bytes.
\<close>

end
